(* ===== verification/OrionBase.thy ===== *)
theory OrionBase
  imports Main "HOL-Library.Word"
begin

text \<open>
  Shared vocabulary of the development: machine integers at the widths of the 68000, the byte
  memory of the board (no MMU, one flat 32-bit address space), and big-endian accessors for words
  and long words. Every component that touches memory (the kernel heap, the task stacks, the
  exception stubs, the C strings, the ELF loader) uses these accessors, so the frame lemmas of
  this theory are the ones that carry their proofs.
\<close>

unbundle bit_operations_syntax

type_synonym u8 = "8 word"
type_synonym u16 = "16 word"
type_synonym u32 = "32 word"
type_synonym u64 = "64 word"
type_synonym addr = "32 word"
type_synonym mem = "32 word \<Rightarrow> 8 word"

named_theorems mem_frame "reads that a write does not disturb"

subsection \<open>Big-endian accessors\<close>

definition rd16 :: "mem \<Rightarrow> addr \<Rightarrow> u16" where
  "rd16 m a = push_bit 8 (ucast (m a)) OR ucast (m (a + 1))"

definition rd32 :: "mem \<Rightarrow> addr \<Rightarrow> u32" where
  "rd32 m a = push_bit 24 (ucast (m a)) OR push_bit 16 (ucast (m (a + 1)))
            OR push_bit 8 (ucast (m (a + 2))) OR ucast (m (a + 3))"

definition wr16 :: "mem \<Rightarrow> addr \<Rightarrow> u16 \<Rightarrow> mem" where
  "wr16 m a v = m(a := ucast (drop_bit 8 v), a + 1 := ucast v)"

definition wr32 :: "mem \<Rightarrow> addr \<Rightarrow> u32 \<Rightarrow> mem" where
  "wr32 m a v = m(a := ucast (drop_bit 24 v), a + 1 := ucast (drop_bit 16 v),
                  a + 2 := ucast (drop_bit 8 v), a + 3 := ucast v)"

lemma rd32_wr32_same [simp]: "rd32 (wr32 m a v) a = v"
proof (rule bit_word_eqI)
  fix n :: nat
  assume "n < LENGTH(32)"
  then consider "n < 8" | "8 \<le> n" "n < 16" | "16 \<le> n" "n < 24" | "24 \<le> n" "n < 32"
    by fastforce
  then show "bit (rd32 (wr32 m a v) a) n = bit v n"
    by cases (auto simp: rd32_def wr32_def bit_simps)
qed

lemma rd16_wr16_same [simp]: "rd16 (wr16 m a v) a = v"
  by (rule bit_word_eqI) (auto simp: rd16_def wr16_def bit_simps)

subsection \<open>Address arithmetic and frames\<close>

text \<open>
  The interval of \<open>n\<close> bytes that starts at \<open>a\<close> is written with the wrap-around distance: \<open>x\<close> lies
  in it exactly when \<open>unat (x - a) < n\<close>. A write outside the interval of a read does not disturb it.
\<close>

lemma unat_diff_ge:
  fixes a x :: addr
  assumes "unat x < unat a \<or> unat a + n \<le> unat x" and "unat a + n \<le> 2 ^ 32"
  shows "n \<le> unat (x - a)"
proof (cases "unat a \<le> unat x")
  case True
  then have "unat (x - a) = unat x - unat a"
    by (simp add: unat_sub word_le_nat_alt)
  with assms True show ?thesis by simp
next
  case False
  then have "unat (x - a) = 2 ^ 32 + unat x - unat a"
    by (simp add: unat_sub_if' word_le_nat_alt)
  with assms False show ?thesis by simp
qed

lemma unat_less32 [simp]: "unat (x :: u32) < 4294967296"
  using unsigned_less [of x, where 'a = nat] by simp

lemma unat_le32 [simp]: "unat (x :: u32) \<le> 4294967296"
  using unat_less32 [of x] by linarith

lemma uint_less8 [simp]: "uint (b :: u8) < 256"
  using unsigned_less [of b, where 'a = int] by simp

lemma unat_less8 [simp]: "unat (b :: u8) < 256"
  using unsigned_less [of b, where 'a = nat] by simp

lemma sint_small:
  assumes "unat (x :: u32) < 2 ^ 31"
  shows "sint x = int (unat x)"
proof -
  have "uint x < 2 ^ 31" using assms by (simp add: uint_nat del: of_nat_unat)
  moreover have "- (2 ^ 31) \<le> uint x" by (rule order_trans [OF _ uint_ge_0]) simp
  ultimately have "signed_take_bit 31 (uint x) = uint x"
    by (intro signed_take_bit_int_eq_self) simp_all
  then show ?thesis by (simp add: sint_uint)
qed

lemma unat_of_nat32: "x < 2 ^ 32 \<Longrightarrow> unat (word_of_nat x :: u32) = x"
  by (simp add: unat_of_nat)

lemma unat_plus_small:
  fixes a :: addr
  assumes "unat a + n < 2 ^ 32"
  shows "unat (a + word_of_nat n) = unat a + n"
  using assms by (simp add: unat_word_ariths unat_of_nat)

lemma word_of_nat_eq_small:
  "x < 2 ^ 32 \<Longrightarrow> y < 2 ^ 32 \<Longrightarrow> (word_of_nat x :: u32) = word_of_nat y \<longleftrightarrow> x = y"
  by (metis unat_of_nat32)

lemma unat_pred: "(x :: u32) \<noteq> 0 \<Longrightarrow> unat (x - 1) = unat x - 1"
  by (rule unat_minus_one)

lemma unat_all_ones [simp]: "unat (- 1 :: u32) = 4294967295"
  by (simp add: unsigned_minus_1_eq_mask mask_eq_exp_minus_1)

lemma unat_diff_Suc:
  fixes d s :: u32
  assumes "d \<noteq> s"
  shows "unat (d - (s + 1)) = unat (d - s) - 1"
proof -
  have "d - (s + 1) = (d - s) - 1" by simp
  moreover from assms have "d - s \<noteq> 0" by simp
  ultimately show ?thesis using unat_pred by metis
qed

lemma wr32_other [mem_frame]: "4 \<le> unat (x - a) \<Longrightarrow> wr32 m a v x = m x"
  by (auto simp: wr32_def)

lemma wr16_other [mem_frame]: "2 \<le> unat (x - a) \<Longrightarrow> wr16 m a v x = m x"
  by (auto simp: wr16_def)

lemma rd32_cong:
  "m a = m' a \<Longrightarrow> m (a + 1) = m' (a + 1) \<Longrightarrow> m (a + 2) = m' (a + 2) \<Longrightarrow> m (a + 3) = m' (a + 3)
    \<Longrightarrow> rd32 m a = rd32 m' a"
  by (simp add: rd32_def)

lemma rd16_cong:
  "m a = m' a \<Longrightarrow> m (a + 1) = m' (a + 1) \<Longrightarrow> rd16 m a = rd16 m' a"
  by (simp add: rd16_def)

text \<open>Two long words that do not overlap, as a bound on their distance both ways round.\<close>

definition apart :: "nat \<Rightarrow> addr \<Rightarrow> nat \<Rightarrow> addr \<Rightarrow> bool" where
  "apart n a k b \<longleftrightarrow> (unat a + n \<le> unat b \<or> unat b + k \<le> unat a)
     \<and> unat a + n \<le> 2 ^ 32 \<and> unat b + k \<le> 2 ^ 32"

lemma apart_byte:
  assumes "apart n a k b" and "i < k"
  shows "n \<le> unat (b + word_of_nat i - a)"
proof (rule unat_diff_ge)
  have "unat b + i < 2 ^ 32" using assms by (simp add: apart_def)
  then have "unat (b + word_of_nat i) = unat b + i" by (rule unat_plus_small)
  then show "unat (b + word_of_nat i) < unat a \<or> unat a + n \<le> unat (b + word_of_nat i)"
    using assms by (auto simp: apart_def)
  show "unat a + n \<le> 2 ^ 32" using assms by (simp add: apart_def)
qed

lemma rd32_wr32_apart [mem_frame]:
  assumes "apart 4 a 4 b"
  shows "rd32 (wr32 m a v) b = rd32 m b"
  using apart_byte [OF assms, of 0] apart_byte [OF assms, of 1] apart_byte [OF assms, of 2]
    apart_byte [OF assms, of 3]
  by (intro rd32_cong) (simp_all add: wr32_other)

lemma rd32_wr16_apart [mem_frame]:
  assumes "apart 2 a 4 b"
  shows "rd32 (wr16 m a v) b = rd32 m b"
  using apart_byte [OF assms, of 0] apart_byte [OF assms, of 1] apart_byte [OF assms, of 2]
    apart_byte [OF assms, of 3]
  by (intro rd32_cong) (simp_all add: wr16_other)

lemma rd16_wr32_apart [mem_frame]:
  assumes "apart 4 a 2 b"
  shows "rd16 (wr32 m a v) b = rd16 m b"
  using apart_byte [OF assms, of 0] apart_byte [OF assms, of 1]
  by (intro rd16_cong) (simp_all add: wr32_other)

subsection \<open>Blocks of bytes\<close>

definition rd_bytes :: "mem \<Rightarrow> addr \<Rightarrow> nat \<Rightarrow> u8 list" where
  "rd_bytes m a n = map (\<lambda>i. m (a + word_of_nat i)) [0..<n]"

definition wr_bytes :: "mem \<Rightarrow> addr \<Rightarrow> u8 list \<Rightarrow> mem" where
  "wr_bytes m a bs = (\<lambda>x. if unat (x - a) < length bs then bs ! unat (x - a) else m x)"

lemma length_rd_bytes [simp]: "length (rd_bytes m a n) = n"
  by (simp add: rd_bytes_def)

lemma nth_rd_bytes [simp]: "i < n \<Longrightarrow> rd_bytes m a n ! i = m (a + word_of_nat i)"
  by (simp add: rd_bytes_def)

lemma wr_bytes_other [mem_frame]: "length bs \<le> unat (x - a) \<Longrightarrow> wr_bytes m a bs x = m x"
  by (simp add: wr_bytes_def)

lemma wr_bytes_Nil [simp]: "wr_bytes m a [] = m"
  by (simp add: wr_bytes_def)

lemma rd_wr_bytes:
  assumes "length bs \<le> 2 ^ 32"
  shows "rd_bytes (wr_bytes m a bs) a (length bs) = bs"
proof (rule nth_equalityI)
  fix i assume "i < length (rd_bytes (wr_bytes m a bs) a (length bs))"
  then have i: "i < length bs" by simp
  with assms have "unat (word_of_nat i :: addr) = i" by (intro unat_of_nat32) simp
  with i show "rd_bytes (wr_bytes m a bs) a (length bs) ! i = bs ! i"
    by (simp add: wr_bytes_def)
qed simp

lemma wr_bytes_snoc:
  assumes "length bs < 2 ^ 32"
  shows "(wr_bytes m a bs)(a + word_of_nat (length bs) := b) = wr_bytes m a (bs @ [b])"
proof
  fix x
  have len: "unat (word_of_nat (length bs) :: addr) = length bs"
    using assms by (rule unat_of_nat32)
  show "((wr_bytes m a bs)(a + word_of_nat (length bs) := b)) x = wr_bytes m a (bs @ [b]) x"
  proof (cases "x = a + word_of_nat (length bs)")
    case True
    then show ?thesis by (simp add: wr_bytes_def len)
  next
    case False
    have "unat (x - a) \<noteq> length bs"
    proof
      assume "unat (x - a) = length bs"
      then have "x - a = word_of_nat (length bs)" by (metis word_nat_cases unat_of_nat32 word_of_nat_eq_small of_nat_unat ucast_id)
      with False show False by (simp add: algebra_simps)
    qed
    with False show ?thesis by (simp add: wr_bytes_def nth_append)
  qed
qed

lemma wr_bytes_after:
  assumes "length xs + length ys \<le> 2 ^ 32"
  shows "wr_bytes (wr_bytes m a xs) (a + word_of_nat (length xs)) ys = wr_bytes m a (xs @ ys)"
proof (cases "ys = []")
  case False
  then have "length xs < 2 ^ 32" using assms by (cases ys) auto
  then have k: "unat (word_of_nat (length xs) :: addr) = length xs" by (rule unat_of_nat32)
  show ?thesis
  proof
    fix x :: addr
    have e: "x - (a + word_of_nat (length xs)) = (x - a) - word_of_nat (length xs)" by simp
    show "wr_bytes (wr_bytes m a xs) (a + word_of_nat (length xs)) ys x = wr_bytes m a (xs @ ys) x"
    proof (cases "unat (x - a) < length xs")
      case True
      then have "unat ((x - a) - word_of_nat (length xs)) = unat (x - a) + 2 ^ 32 - length xs"
        using k by (subst unat_sub_if') (simp add: word_le_nat_alt)
      then have "length ys \<le> unat (x - (a + word_of_nat (length xs)))" unfolding e using assms True by simp
      then show ?thesis using True by (simp add: wr_bytes_other) (simp add: wr_bytes_def nth_append)
    next
      case False
      have "unat ((x - a) - word_of_nat (length xs)) = unat (x - a) - length xs"
        using False k by (subst unat_sub) (simp_all add: word_le_nat_alt)
      then have "unat (x - (a + word_of_nat (length xs))) = unat (x - a) - length xs" unfolding e .
      then show ?thesis using False by (simp add: wr_bytes_def nth_append) linarith
    qed
  qed
qed simp

lemma rd_bytes_Suc: "rd_bytes m a (Suc n) = m a # rd_bytes m (a + 1) n"
proof (rule nth_equalityI)
  fix i assume "i < length (rd_bytes m a (Suc n))"
  then show "rd_bytes m a (Suc n) ! i = (m a # rd_bytes m (a + 1) n) ! i"
    by (cases i) (simp_all add: algebra_simps)
qed simp

lemma rd_bytes_0 [simp]: "rd_bytes m a 0 = []"
  by (simp add: rd_bytes_def)

subsection \<open>Changes inside a region\<close>

text \<open>Memory outside a region of \<open>n\<close> bytes from \<open>a\<close> is the same.\<close>

definition same_outside :: "addr \<Rightarrow> nat \<Rightarrow> mem \<Rightarrow> mem \<Rightarrow> bool" where
  "same_outside a n m m' \<longleftrightarrow> (\<forall>x. n \<le> unat (x - a) \<longrightarrow> m' x = m x)"

lemma same_outside_refl [simp]: "same_outside a n m m"
  by (simp add: same_outside_def)

lemma same_outside_trans [trans]:
  "same_outside a n m m' \<Longrightarrow> same_outside a n m' m'' \<Longrightarrow> same_outside a n m m''"
  by (simp add: same_outside_def)

lemma unat_diff_step:
  fixes x a :: addr
  assumes "k + n \<le> unat (x - a)"
  shows "n \<le> unat (x - (a + word_of_nat k))"
proof -
  have k: "k < 2 ^ 32" by (rule le_less_trans [of _ "unat (x - a)"]) (use assms in simp_all)
  have e: "x - (a + word_of_nat k) = (x - a) - word_of_nat k" by simp
  have "word_of_nat k \<le> x - a" using assms k by (simp add: word_le_nat_alt unat_of_nat32)
  then have "unat ((x - a) - word_of_nat k) = unat (x - a) - k" using k by (subst unat_sub) (simp_all add: unat_of_nat32)
  then show ?thesis using assms unfolding e by simp
qed

text \<open>A write to a part of the region stays in the region.\<close>

lemma same_outside_mono:
  assumes "same_outside (a + word_of_nat k) n m m'" and "k + n \<le> N"
  shows "same_outside a N m m'"
  using assms unat_diff_step [of k n] by (auto simp: same_outside_def)

lemma wr_bytes_same_outside: "length bs \<le> n \<Longrightarrow> same_outside a n m (wr_bytes m a bs)"
  by (simp add: same_outside_def wr_bytes_other)

subsection \<open>Bytes of a long word\<close>

lemma ones8: "(0xFF :: u8) = - 1"
  by simp

lemma ucast_FF [simp]: "(ucast (h AND 0xFF :: u32) :: u8) = ucast h"
proof -
  have "(ucast (h AND 0xFF :: u32) :: u8) = ucast h AND 0xFF" by (simp add: unsigned_and_eq)
  then show ?thesis unfolding ones8 by simp
qed

subsection \<open>Signed readings\<close>

lemma signed_wrap:
  fixes x :: int
  assumes "0 \<le> x" and "x < 2 ^ Suc k"
  shows "signed_take_bit k x = (if x < 2 ^ k then x else x - 2 ^ Suc k)"
proof -
  have f: "signed_take_bit k x = (x + 2 ^ k) mod 2 ^ Suc k - 2 ^ k"
    by (simp only: signed_take_bit_eq_take_bit_shift take_bit_eq_mod)
  show ?thesis
  proof (cases "x < 2 ^ k")
    case True
    then have "(x + 2 ^ k) mod 2 ^ Suc k = x + 2 ^ k" using assms by (intro mod_pos_pos_trivial) simp_all
    then show ?thesis using True f by simp
  next
    case False
    have "(x + 2 ^ k) mod 2 ^ Suc k = (x - 2 ^ k + 2 ^ Suc k) mod 2 ^ Suc k" by (simp add: algebra_simps)
    also have "\<dots> = (x - 2 ^ k) mod 2 ^ Suc k" by (rule mod_add_self2)
    also have "\<dots> = x - 2 ^ k" using False assms(2) by (intro mod_pos_pos_trivial) simp_all
    finally show ?thesis using False f by simp
  qed
qed

lemma sint_cases:
  fixes a :: "'a::len word"
  shows "sint a = (if uint a < 2 ^ (LENGTH('a) - 1) then uint a else uint a - 2 ^ LENGTH('a))"
proof -
  have s: "Suc (LENGTH('a) - 1) = LENGTH('a)" by simp
  have "uint a < 2 ^ Suc (LENGTH('a) - 1)" unfolding s by (rule unsigned_less)
  from signed_wrap [OF uint_ge_0 this] show ?thesis unfolding s sint_uint by (simp only: One_nat_def)
qed

end
