(* ===== verification/KMem.thy ===== *)
theory KMem
  imports OrionBase
begin

text \<open>
  The block primitives of the kernel C library, lib/string/mem*.c: memcpy, memmove, memset, memcmp,
  memchr, memccpy and memmem, on the byte memory of \<open>OrionBase\<close>. Each loop keeps the source's
  order of reads and writes, because overlapping regions make the order visible. A null pointer
  is the address 0; a size argument is the 32-bit \<open>size_t\<close> or \<open>int\<close> of the source, and the loop
  \<open>while (n--)\<close> runs as many times as the unsigned reading of its counter.
\<close>

subsection \<open>The loops\<close>

primrec copy_up :: "mem \<Rightarrow> addr \<Rightarrow> addr \<Rightarrow> nat \<Rightarrow> mem" where
  "copy_up m d s 0 = m"
| "copy_up m d s (Suc n) = copy_up (m(d := m s)) (d + 1) (s + 1) n"

primrec copy_down :: "mem \<Rightarrow> addr \<Rightarrow> addr \<Rightarrow> nat \<Rightarrow> mem" where
  "copy_down m d s 0 = m"
| "copy_down m d s (Suc n) = copy_down (m(d - 1 := m (s - 1))) (d - 1) (s - 1) n"

primrec fill_up :: "mem \<Rightarrow> addr \<Rightarrow> u8 \<Rightarrow> nat \<Rightarrow> mem" where
  "fill_up m p c 0 = m"
| "fill_up m p c (Suc n) = fill_up (m(p := c)) (p + 1) c n"

primrec cmp_loop :: "mem \<Rightarrow> addr \<Rightarrow> addr \<Rightarrow> nat \<Rightarrow> int" where
  "cmp_loop m p1 p2 0 = 0"
| "cmp_loop m p1 p2 (Suc n) =
     (if m p1 \<noteq> m p2 then uint (m p1) - uint (m p2) else cmp_loop m (p1 + 1) (p2 + 1) n)"

primrec chr_loop :: "mem \<Rightarrow> addr \<Rightarrow> u8 \<Rightarrow> nat \<Rightarrow> addr" where
  "chr_loop m p c 0 = 0"
| "chr_loop m p c (Suc n) = (if m p = c then p else chr_loop m (p + 1) c n)"

primrec ccpy_loop :: "mem \<Rightarrow> addr \<Rightarrow> addr \<Rightarrow> u8 \<Rightarrow> nat \<Rightarrow> addr \<times> mem" where
  "ccpy_loop m d s c 0 = (0, m)"
| "ccpy_loop m d s c (Suc n) =
     (let b = m s; m' = m(d := b)
      in if m' s = c then (d + 1, m') else ccpy_loop m' (d + 1) (s + 1) c n)"

subsection \<open>The functions\<close>

definition memcpy :: "mem \<Rightarrow> addr \<Rightarrow> addr \<Rightarrow> u32 \<Rightarrow> addr \<times> mem" where
  "memcpy m dest src n = (dest, copy_up m dest src (unat n))"

definition memmove :: "mem \<Rightarrow> addr \<Rightarrow> addr \<Rightarrow> u32 \<Rightarrow> addr \<times> mem" where
  "memmove m dest src n =
     (if src < dest \<and> dest < src + n
      then (dest, copy_down m (dest + n) (src + n) (unat n))
      else (dest, copy_up m dest src (unat n)))"

definition memset :: "mem \<Rightarrow> addr \<Rightarrow> u32 \<Rightarrow> u32 \<Rightarrow> mem" where
  "memset m s c n = fill_up m s (ucast c) (unat n)"

definition memcmp :: "mem \<Rightarrow> addr \<Rightarrow> addr \<Rightarrow> u32 \<Rightarrow> int" where
  "memcmp m s1 s2 n = cmp_loop m s1 s2 (nat (sint n))"

definition memchr :: "mem \<Rightarrow> addr \<Rightarrow> u32 \<Rightarrow> u32 \<Rightarrow> addr" where
  "memchr m s c n = chr_loop m s (ucast c) (unat n)"

definition memccpy :: "mem \<Rightarrow> addr \<Rightarrow> addr \<Rightarrow> u32 \<Rightarrow> u32 \<Rightarrow> addr \<times> mem" where
  "memccpy m dest src c n = ccpy_loop m dest src (ucast c) (unat n)"

text \<open>memmem: positions \<open>i = 0 .. haystacklen - needlelen\<close>; \<open>k\<close> counts the ones still to try.\<close>

primrec mem_search :: "mem \<Rightarrow> addr \<Rightarrow> addr \<Rightarrow> u32 \<Rightarrow> nat \<Rightarrow> addr" where
  "mem_search m h n nl 0 = 0"
| "mem_search m h n nl (Suc k) =
     (if memcmp m h n nl = 0 then h else mem_search m (h + 1) n nl k)"

definition memmem :: "mem \<Rightarrow> addr \<Rightarrow> u32 \<Rightarrow> addr \<Rightarrow> u32 \<Rightarrow> addr" where
  "memmem m haystack haystacklen needle needlelen =
     (if needlelen = 0 then haystack
      else if needlelen > haystacklen then 0
      else mem_search m haystack needle needlelen (Suc (unat (haystacklen - needlelen))))"

subsection \<open>Copying\<close>

lemma wr_bytes_Cons:
  assumes "length bs < 2 ^ 32"
  shows "wr_bytes (m(d := b)) (d + 1) bs = wr_bytes m d (b # bs)"
proof
  fix x
  show "wr_bytes (m(d := b)) (d + 1) bs x = wr_bytes m d (b # bs) x"
  proof (cases "x = d")
    case True
    then show ?thesis
      using assms by (simp add: wr_bytes_def)
  next
    case False
    then have ne: "unat (x - d) \<noteq> 0" by (simp add: unat_eq_0)
    have "unat (x - (d + 1)) = unat (x - d) - 1"
      using False by (rule unat_diff_Suc)
    with False ne show ?thesis by (cases "unat (x - d)") (auto simp: wr_bytes_def)
  qed
qed

lemma rd_bytes_upd_other:
  assumes "n \<le> unat (d - s)" and "n \<le> 2 ^ 32"
  shows "rd_bytes (m(d := b)) s n = rd_bytes m s n"
proof (rule nth_equalityI)
  fix i assume "i < length (rd_bytes (m(d := b)) s n)"
  then have i: "i < n" by simp
  have "s + word_of_nat i \<noteq> d"
  proof
    assume "s + word_of_nat i = d"
    then have "d - s = word_of_nat i" by auto
    then have "unat (d - s) = i" using i assms by (simp add: unat_of_nat32)
    with i assms show False by simp
  qed
  with i show "rd_bytes (m(d := b)) s n ! i = rd_bytes m s n ! i" by simp
qed simp

lemma copy_up_eq:
  assumes "d = s \<or> n \<le> unat (d - s)" and "n \<le> 2 ^ 32"
  shows "copy_up m d s n = wr_bytes m d (rd_bytes m s n)"
  using assms
proof (induction n arbitrary: m d s)
  case 0
  then show ?case by simp
next
  case (Suc n)
  let ?m = "m(d := m s)"
  have same: "rd_bytes ?m (s + 1) n = rd_bytes m (s + 1) n"
  proof (cases "d = s")
    case True
    then show ?thesis by simp
  next
    case False
    with Suc.prems have "Suc n \<le> unat (d - s)" by simp
    then have "n \<le> unat (d - (s + 1))"
      using False by (simp add: unat_diff_Suc)
    then show ?thesis using Suc.prems by (intro rd_bytes_upd_other) simp_all
  qed
  have "copy_up m d s (Suc n) = wr_bytes ?m (d + 1) (rd_bytes ?m (s + 1) n)"
    using Suc.prems by (auto intro!: Suc.IH)
  also have "\<dots> = wr_bytes m d (m s # rd_bytes m (s + 1) n)"
    unfolding same using Suc.prems by (intro wr_bytes_Cons) simp
  finally show ?case by (simp add: rd_bytes_Suc)
qed

lemma rd_bytes_snoc: "rd_bytes m a (Suc n) = rd_bytes m a n @ [m (a + word_of_nat n)]"
  by (simp add: rd_bytes_def)

lemma rd_bytes_upd_notin:
  "(\<And>i. i < n \<Longrightarrow> s + word_of_nat i \<noteq> d) \<Longrightarrow> rd_bytes (m(d := b)) s n = rd_bytes m s n"
  by (auto simp: rd_bytes_def)

lemma wr_bytes_upd_end:
  assumes "length bs < 2 ^ 32"
  shows "wr_bytes (m(d + word_of_nat (length bs) := b)) d bs = wr_bytes m d (bs @ [b])"
proof -
  have "wr_bytes (m(d + word_of_nat (length bs) := b)) d bs
      = (wr_bytes m d bs)(d + word_of_nat (length bs) := b)"
    using assms by (auto simp: wr_bytes_def unat_of_nat32 fun_eq_iff)
  also have "\<dots> = wr_bytes m d (bs @ [b])"
    using assms by (rule wr_bytes_snoc)
  finally show ?thesis .
qed

lemma copy_down_eq:
  assumes "d = s \<or> n \<le> unat (s - d)" and "n < 2 ^ 32"
  shows "copy_down m (d + word_of_nat n) (s + word_of_nat n) n = wr_bytes m d (rd_bytes m s n)"
  using assms
proof (induction n arbitrary: m)
  case 0
  then show ?case by simp
next
  case (Suc n)
  let ?b = "m (s + word_of_nat n)"
  let ?m = "m(d + word_of_nat n := ?b)"
  have same: "rd_bytes ?m s n = rd_bytes m s n"
  proof (rule rd_bytes_upd_notin)
    fix i assume i: "i < n"
    show "s + word_of_nat i \<noteq> d + word_of_nat n"
    proof
      assume eq: "s + word_of_nat i = d + word_of_nat n"
      then have "s - d = word_of_nat n - word_of_nat i" by (simp add: algebra_simps)
      also have "\<dots> = word_of_nat (n - i)" using i by simp
      finally have "unat (s - d) = n - i" using Suc.prems by (simp add: unat_of_nat32)
      moreover have "d \<noteq> s" using eq i Suc.prems by (auto simp: word_of_nat_eq_small)
      ultimately show False using Suc.prems i by simp
    qed
  qed
  have "copy_down m (d + word_of_nat (Suc n)) (s + word_of_nat (Suc n)) (Suc n)
      = copy_down ?m (d + word_of_nat n) (s + word_of_nat n) n"
    by (simp add: algebra_simps)
  also have "\<dots> = wr_bytes ?m d (rd_bytes ?m s n)"
    using Suc.prems by (intro Suc.IH) auto
  also have "\<dots> = wr_bytes m d (rd_bytes m s n @ [?b])"
    unfolding same using Suc.prems wr_bytes_upd_end [of "rd_bytes m s n" m d ?b] by simp
  finally show ?case by (simp add: rd_bytes_snoc)
qed

lemma memcpy_eq:
  assumes "dest = src \<or> unat n \<le> unat (dest - src)"
  shows "memcpy m dest src n = (dest, wr_bytes m dest (rd_bytes m src (unat n)))"
  using assms by (simp add: memcpy_def copy_up_eq)

lemma memmove_eq:
  assumes src: "unat src + unat n < 2 ^ 32" and dst: "unat dest + unat n \<le> 2 ^ 32"
  shows "memmove m dest src n = (dest, wr_bytes m dest (rd_bytes m src (unat n)))"
proof (cases "src < dest \<and> dest < src + n")
  case True
  have sn: "unat (src + n) = unat src + unat n"
    using src by (simp add: unat_word_ariths)
  have "unat n \<le> unat (src - dest)"
    using True dst by (intro unat_diff_ge) (simp_all add: word_less_nat_alt)
  then have "copy_down m (dest + n) (src + n) (unat n) = wr_bytes m dest (rd_bytes m src (unat n))"
    using copy_down_eq [of dest src "unat n" m] by simp
  with True show ?thesis by (simp add: memmove_def)
next
  case False
  have sn: "unat (src + n) = unat src + unat n"
    using src by (simp add: unat_word_ariths)
  have "dest = src \<or> unat n \<le> unat (dest - src)"
  proof (cases "dest = src")
    case False2: False
    have "unat n \<le> unat (dest - src)"
      using False False2 src sn
      by (intro unat_diff_ge) (auto simp: word_less_nat_alt not_less order_le_less word_unat_eq_iff)
    then show ?thesis ..
  qed simp
  then have "copy_up m dest src (unat n) = wr_bytes m dest (rd_bytes m src (unat n))"
    by (intro copy_up_eq) simp_all
  with False show ?thesis by (auto simp: memmove_def)
qed

subsection \<open>Filling\<close>

lemma fill_up_eq: "n \<le> 2 ^ 32 \<Longrightarrow> fill_up m p c n = wr_bytes m p (replicate n c)"
proof (induction n arbitrary: m p)
  case 0
  then show ?case by simp
next
  case (Suc n)
  then show ?case by (simp add: wr_bytes_Cons)
qed

lemma memset_eq: "memset m s c n = wr_bytes m s (replicate (unat n) (ucast c))"
  by (simp add: memset_def fill_up_eq)

subsection \<open>Comparing and searching\<close>

lemma cmp_loop_zero: "cmp_loop m p q n = 0 \<longleftrightarrow> rd_bytes m p n = rd_bytes m q n"
  by (induction n arbitrary: p q) (auto simp: rd_bytes_Suc word_uint_eq_iff)

lemma cmp_loop_range: "- 256 < cmp_loop m p q n \<and> cmp_loop m p q n < 256"
proof (induction n arbitrary: p q)
  case (Suc n)
  have "\<bar>uint (m p) - uint (m q)\<bar> < 256"
    using uint_less8 [of "m p"] uint_less8 [of "m q"] uint_ge_0 [of "m p"] uint_ge_0 [of "m q"]
    by linarith
  with Suc show ?case by (simp add: abs_less_iff)
qed simp

lemma chr_loop_none:
  "chr_loop m p c n = 0 \<Longrightarrow> (\<forall>i < n. p + word_of_nat i \<noteq> 0) \<Longrightarrow> c \<notin> set (rd_bytes m p n)"
proof (induction n arbitrary: p)
  case (Suc n)
  have "p \<noteq> 0" using Suc.prems(2) [rule_format, of 0] by simp
  then have ne: "m p \<noteq> c" and rec: "chr_loop m (p + 1) c n = 0"
    using Suc.prems(1) by (auto split: if_splits)
  have "\<forall>i < n. (p + 1) + word_of_nat i \<noteq> 0"
  proof (intro allI impI)
    fix i assume "i < n"
    then have "p + word_of_nat (Suc i) \<noteq> 0" using Suc.prems(2) by blast
    then show "(p + 1) + word_of_nat i \<noteq> 0" by (simp add: algebra_simps)
  qed
  with rec have "c \<notin> set (rd_bytes m (p + 1) n)" by (rule Suc.IH)
  with ne show ?case by (auto simp: rd_bytes_Suc)
qed simp

lemma chr_loop_found:
  "chr_loop m p c n = q \<Longrightarrow> q \<noteq> 0 \<Longrightarrow>
    \<exists>i < n. q = p + word_of_nat i \<and> m q = c \<and> (\<forall>j < i. m (p + word_of_nat j) \<noteq> c)"
proof (induction n arbitrary: p)
  case (Suc n)
  show ?case
  proof (cases "m p = c")
    case True
    with Suc.prems show ?thesis by (intro exI [of _ 0]) auto
  next
    case False
    with Suc.prems Suc.IH [of "p + 1"] obtain i where i: "i < n" "q = (p + 1) + word_of_nat i"
      "m q = c" "\<forall>j < i. m ((p + 1) + word_of_nat j) \<noteq> c" by auto
    have "m (p + word_of_nat j) \<noteq> c" if "j < Suc i" for j
      using that i(4) False by (cases j) (auto simp: algebra_simps)
    with i show ?thesis by (intro exI [of _ "Suc i"]) (auto simp: algebra_simps)
  qed
qed simp

text \<open>Reading a prefix of the copied block: memccpy stops after the first occurrence of the byte.\<close>

lemma memcmp_zero:
  assumes "unat n < 2 ^ 31"
  shows "memcmp m p q n = 0 \<longleftrightarrow> rd_bytes m p (unat n) = rd_bytes m q (unat n)"
proof -
  have "sint n = int (unat n)"
    using assms by (rule sint_small)
  then show ?thesis by (simp add: memcmp_def cmp_loop_zero)
qed

lemma mem_search_none:
  assumes "unat nl < 2 ^ 31"
  shows "mem_search m h n nl k = 0 \<Longrightarrow> \<forall>i < k. h + word_of_nat i \<noteq> 0
    \<Longrightarrow> i < k \<Longrightarrow> rd_bytes m (h + word_of_nat i) (unat nl) \<noteq> rd_bytes m n (unat nl)"
proof (induction k arbitrary: h i)
  case (Suc k)
  have "h \<noteq> 0" using Suc.prems(2) [rule_format, of 0] by simp
  with Suc.prems(1) have ne: "memcmp m h n nl \<noteq> 0" and rec: "mem_search m (h + 1) n nl k = 0"
    by (auto split: if_splits)
  have nz: "\<forall>j < k. (h + 1) + word_of_nat j \<noteq> 0"
  proof (intro allI impI)
    fix j assume "j < k"
    then show "(h + 1) + word_of_nat j \<noteq> 0"
      using Suc.prems(2) [rule_format, of "Suc j"] by (simp add: algebra_simps)
  qed
  show ?case
  proof (cases i)
    case 0
    with ne show ?thesis by (simp add: memcmp_zero [OF assms])
  next
    case (Suc j)
    with Suc.prems(3) have "j < k" by simp
    from Suc.IH [OF rec nz this] Suc show ?thesis by (simp add: algebra_simps)
  qed
qed simp

lemma mem_search_found:
  assumes "unat nl < 2 ^ 31"
  shows "mem_search m h n nl k = q \<Longrightarrow> q \<noteq> 0 \<Longrightarrow>
    \<exists>i < k. q = h + word_of_nat i \<and> rd_bytes m q (unat nl) = rd_bytes m n (unat nl)
      \<and> (\<forall>j < i. rd_bytes m (h + word_of_nat j) (unat nl) \<noteq> rd_bytes m n (unat nl))"
proof (induction k arbitrary: h)
  case (Suc k)
  show ?case
  proof (cases "memcmp m h n nl = 0")
    case True
    with Suc.prems show ?thesis
      by (intro exI [of _ 0]) (simp add: memcmp_zero [OF assms])
  next
    case False
    with Suc.prems Suc.IH [of "h + 1"] obtain i where i: "i < k" "q = (h + 1) + word_of_nat i"
      "rd_bytes m q (unat nl) = rd_bytes m n (unat nl)"
      "\<forall>j < i. rd_bytes m ((h + 1) + word_of_nat j) (unat nl) \<noteq> rd_bytes m n (unat nl)" by auto
    have "rd_bytes m (h + word_of_nat j) (unat nl) \<noteq> rd_bytes m n (unat nl)" if "j < Suc i" for j
      using that i(4) False by (cases j) (auto simp: algebra_simps memcmp_zero [OF assms])
    with i show ?thesis by (intro exI [of _ "Suc i"]) (auto simp: algebra_simps)
  qed
qed simp

section \<open>Properties\<close>

text \<open>memmove is correct for overlapping regions in both directions: whenever neither
  region runs over the end of the address space, the destination afterwards holds the bytes that the
  source held before the call, every byte outside the destination is unchanged, and the destination
  pointer is returned.\<close>

theorem memmove_overlap_correct:
  assumes "unat src + unat n < 2 ^ 32" and "unat dest + unat n \<le> 2 ^ 32"
  shows "fst (memmove m dest src n) = dest
    \<and> rd_bytes (snd (memmove m dest src n)) dest (unat n) = rd_bytes m src (unat n)
    \<and> (\<forall>x. unat n \<le> unat (x - dest) \<longrightarrow> snd (memmove m dest src n) x = m x)"
  using memmove_eq [OF assms, of m] rd_wr_bytes [of "rd_bytes m src (unat n)" m dest]
  by (simp add: wr_bytes_other less_imp_le)

theorem memmove_overlap_correct_witness:
  "rd_bytes (snd (memmove (\<lambda>x. ucast x) 0x1002 0x1000 4)) 0x1002 4 = [0, 1, 2, 3]"
proof -
  have "rd_bytes (snd (memmove (\<lambda>x. ucast x) 0x1002 0x1000 4)) 0x1002 (unat (4 :: u32))
      = rd_bytes (\<lambda>x. ucast x) 0x1000 (unat (4 :: u32))"
    using memmove_overlap_correct [of "0x1000" 4 "0x1002" "\<lambda>x. ucast x"] by simp
  then show ?thesis by (simp add: rd_bytes_def upt_rec)
qed

text \<open>memmem returns the first occurrence: for a non-empty needle shorter than 2 GiB in a
  haystack that lies above address 0, the result is null exactly when no position of the haystack
  starts a copy of the needle, and otherwise it is a position of the haystack that does, with no
  earlier one.\<close>

theorem memmem_first_occurrence:
  assumes "0 < unat nl" and "unat nl < 2 ^ 31" and "nl \<le> hl" and "h \<noteq> 0"
    and "unat h + unat hl < 2 ^ 32"
  shows "if memmem m h hl n nl = 0
    then \<forall>i \<le> unat hl - unat nl. rd_bytes m (h + word_of_nat i) (unat nl) \<noteq> rd_bytes m n (unat nl)
    else \<exists>i \<le> unat hl - unat nl. memmem m h hl n nl = h + word_of_nat i
      \<and> rd_bytes m (h + word_of_nat i) (unat nl) = rd_bytes m n (unat nl)
      \<and> (\<forall>j < i. rd_bytes m (h + word_of_nat j) (unat nl) \<noteq> rd_bytes m n (unat nl))"
proof -
  let ?k = "unat hl - unat nl"
  have diff: "unat (hl - nl) = ?k" using assms(3) by (simp add: unat_sub word_le_nat_alt)
  have nl: "nl \<noteq> 0" using assms(1) by auto
  have eq: "memmem m h hl n nl = mem_search m h n nl (Suc ?k)"
    using nl leD [OF assms(3)] unfolding memmem_def diff by (simp del: mem_search.simps)
  have nz: "\<forall>i < Suc ?k. h + word_of_nat i \<noteq> 0"
  proof (intro allI impI)
    fix i assume "i < Suc ?k"
    then have "unat (h + word_of_nat i) = unat h + i" using assms(5) by (intro unat_plus_small) simp
    moreover have "unat h \<noteq> 0" using assms(4) by (simp add: unat_eq_0)
    ultimately show "h + word_of_nat i \<noteq> 0" by (auto simp del: of_nat_unat)
  qed
  show ?thesis
  proof (cases "memmem m h hl n nl = 0")
    case True
    then show ?thesis using mem_search_none [OF assms(2) _ nz] unfolding eq by (simp add: less_Suc_eq_le)
  next
    case False
    from mem_search_found [OF assms(2) eq [symmetric] False] show ?thesis
      using False by (auto simp: less_Suc_eq_le)
  qed
qed

theorem memmem_first_occurrence_witness:
  "memmem (\<lambda>x. ucast x) 0x1000 9 0x2004 2 = 0x1004
   \<and> rd_bytes (\<lambda>x. ucast x) (0x1000 + word_of_nat 4) 2 = (rd_bytes (\<lambda>x. ucast x) 0x2004 2 :: u8 list)"
proof -
  have v: "memmem (\<lambda>x. ucast x) 0x1000 9 0x2004 2 = 0x1004"
    by code_simp
  have "\<exists>i \<le> unat (9 :: u32) - unat (2 :: u32). (0x1004 :: addr) = 0x1000 + word_of_nat i
      \<and> rd_bytes (\<lambda>x. ucast x) (0x1000 + word_of_nat i) (unat (2 :: u32))
        = (rd_bytes (\<lambda>x. ucast x) 0x2004 (unat (2 :: u32)) :: u8 list)"
    using memmem_first_occurrence [of 2 9 "0x1000" "\<lambda>x. ucast x" "0x2004"] unfolding v by auto
  then obtain i where i: "i \<le> 7" "(0x1004 :: addr) = 0x1000 + word_of_nat i"
    "rd_bytes (\<lambda>x. ucast x) (0x1000 + word_of_nat i) 2 = (rd_bytes (\<lambda>x. ucast x) 0x2004 2 :: u8 list)"
    by auto
  with v show ?thesis by simp
qed

end
