(* ===== verification/Kmalloc.thy ===== *)
theory Kmalloc
  imports KMem
begin

text \<open>
  The kernel heap, kmalloc.c: one region of RAM walked as a chain of blocks, each with a 4-byte
  header in band (bit 31: the block is free; bits 30..0: bytes of data). The state is the two static
  variables of the file and the memory the headers live in. The walk of kmalloc is a loop on
  addresses that only the headers bound, so it is a partial function: \<open>None\<close> is a walk that never
  ends. LOCK and UNLOCK mask the interrupts around each operation; every operation here is one
  atomic step for that reason.

  The block list \<open>blocks_at\<close> is the abstract state; \<open>first_fit\<close> and \<open>free_block\<close> are the abstract
  operations, and the refinement lemmas say that the code implements them on the headers.
\<close>

subsection \<open>Headers\<close>

record kheap =
  heap_base :: addr
  heap_size :: u32
  hmem :: mem

definition KM_FREE_BIT :: u32 where
  "KM_FREE_BIT = 0x80000000"

definition KM_SIZE :: "mem \<Rightarrow> addr \<Rightarrow> u32" where
  "KM_SIZE m h = rd32 m h AND NOT KM_FREE_BIT"

definition KM_IS_FREE :: "mem \<Rightarrow> addr \<Rightarrow> bool" where
  "KM_IS_FREE m h \<longleftrightarrow> rd32 m h AND KM_FREE_BIT \<noteq> 0"

definition km_hdr :: "u32 \<Rightarrow> bool \<Rightarrow> u32" where
  "km_hdr sz f = (sz AND NOT KM_FREE_BIT) OR (if f then KM_FREE_BIT else 0)"

definition KM_SET :: "mem \<Rightarrow> addr \<Rightarrow> u32 \<Rightarrow> bool \<Rightarrow> mem" where
  "KM_SET m h sz f = wr32 m h (km_hdr sz f)"

definition HDR_SIZE :: u32 where "HDR_SIZE = 4"

definition MIN_SPLIT :: u32 where "MIN_SPLIT = 16"

definition KM_ALIGN :: "u32 \<Rightarrow> u32" where
  "KM_ALIGN x = (x + 3) AND NOT 3"

subsection \<open>The operations\<close>

definition kmalloc_init :: "kheap \<Rightarrow> addr \<Rightarrow> u32 \<Rightarrow> kheap" where
  "kmalloc_init k base sz =
     k\<lparr>heap_base := base, heap_size := sz, hmem := KM_SET (hmem k) base (sz - HDR_SIZE) True\<rparr>"

partial_function (option) kmalloc_loop :: "mem \<Rightarrow> u32 \<Rightarrow> addr \<Rightarrow> addr \<Rightarrow> (addr \<times> mem) option" where
  "kmalloc_loop m sz p lim =
     (if p < lim then
        (let block_size = KM_SIZE m p in
           if KM_IS_FREE m p \<and> sz \<le> block_size then
             (if sz + HDR_SIZE + MIN_SPLIT \<le> block_size
              then Some (p + HDR_SIZE,
                KM_SET (KM_SET m (p + HDR_SIZE + sz) (block_size - sz - HDR_SIZE) True) p sz False)
              else Some (p + HDR_SIZE, KM_SET m p block_size False))
           else kmalloc_loop m sz (p + (HDR_SIZE + block_size)) lim)
      else Some (0, m))"

definition kmalloc :: "kheap \<Rightarrow> u32 \<Rightarrow> (addr \<times> kheap) option" where
  "kmalloc k sz =
     (if heap_base k = 0 \<or> sz = 0 then Some (0, k)
      else map_option (\<lambda>(r, m). (r, k\<lparr>hmem := m\<rparr>))
             (kmalloc_loop (hmem k) (KM_ALIGN sz) (heap_base k) (heap_base k + heap_size k)))"

definition kfree :: "kheap \<Rightarrow> addr \<Rightarrow> kheap" where
  "kfree k ptr =
     (if ptr = 0 \<or> heap_base k = 0 then k
      else let h = ptr - HDR_SIZE;
               m1 = KM_SET (hmem k) h (KM_SIZE (hmem k) h) True;
               next_addr = h + HDR_SIZE + KM_SIZE m1 h
           in if next_addr < heap_base k + heap_size k \<and> KM_IS_FREE m1 next_addr
              then k\<lparr>hmem := KM_SET m1 h (KM_SIZE m1 h + HDR_SIZE + KM_SIZE m1 next_addr) True\<rparr>
              else k\<lparr>hmem := m1\<rparr>)"

definition kcalloc :: "kheap \<Rightarrow> u32 \<Rightarrow> u32 \<Rightarrow> (addr \<times> kheap) option" where
  "kcalloc k nmemb sz =
     (let total = nmemb * sz in
      map_option (\<lambda>(p, k'). if p \<noteq> 0 then (p, k'\<lparr>hmem := memset (hmem k') p 0 total\<rparr>) else (p, k'))
        (kmalloc k total))"

definition krealloc :: "kheap \<Rightarrow> addr \<Rightarrow> u32 \<Rightarrow> (addr \<times> kheap) option" where
  "krealloc k ptr sz =
     (if ptr = 0 then kmalloc k sz
      else if sz = 0 then Some (0, kfree k ptr)
      else let old_size = KM_SIZE (hmem k) (ptr - HDR_SIZE) in
        if KM_ALIGN sz \<le> old_size then Some (ptr, k)
        else map_option (\<lambda>(new_ptr, k').
               if new_ptr = 0 then (0, k')
               else (new_ptr, kfree (k'\<lparr>hmem := snd (memcpy (hmem k') new_ptr ptr old_size)\<rparr>) ptr))
             (kmalloc k sz))"

subsection \<open>The abstract heap: a list of blocks\<close>

type_synonym block = "nat \<times> bool"

fun blocks_at :: "mem \<Rightarrow> nat \<Rightarrow> block list \<Rightarrow> nat \<Rightarrow> bool" where
  "blocks_at m p [] e \<longleftrightarrow> p = e"
| "blocks_at m p ((s, f) # bs) e \<longleftrightarrow> p + 4 + s \<le> e \<and> 4 dvd s
     \<and> rd32 m (word_of_nat p) = km_hdr (word_of_nat s) f \<and> blocks_at m (p + 4 + s) bs e"

fun first_fit :: "nat \<Rightarrow> nat \<Rightarrow> block list \<Rightarrow> (nat \<times> block list) option" where
  "first_fit n p [] = None"
| "first_fit n p ((s, f) # bs) =
     (if f \<and> n \<le> s
      then Some (p, if n + 20 \<le> s then (n, False) # (s - n - 4, True) # bs else (s, False) # bs)
      else map_option (\<lambda>(q, bs'). (q, (s, f) # bs')) (first_fit n (p + 4 + s) bs))"

fun merge_next :: "nat \<Rightarrow> block list \<Rightarrow> block list" where
  "merge_next s ((s', True) # bs) = (s + 4 + s', True) # bs"
| "merge_next s bs = (s, True) # bs"

fun free_block :: "nat \<Rightarrow> nat \<Rightarrow> block list \<Rightarrow> block list" where
  "free_block q p [] = []"
| "free_block q p ((s, f) # bs) =
     (if p = q then merge_next s bs else (s, f) # free_block q (p + 4 + s) bs)"

text \<open>The blocks with their addresses, and the live ones as (data address, data size).\<close>

fun spans :: "nat \<Rightarrow> block list \<Rightarrow> (nat \<times> nat \<times> bool) list" where
  "spans p [] = []"
| "spans p ((s, f) # bs) = (p, s, f) # spans (p + 4 + s) bs"

definition live :: "nat \<Rightarrow> block list \<Rightarrow> (nat \<times> nat) set" where
  "live p bs = {(a + 4, s) | a s. (a, s, False) \<in> set (spans p bs)}"

definition heap_wf :: "kheap \<Rightarrow> block list \<Rightarrow> bool" where
  "heap_wf k bs \<longleftrightarrow> heap_base k \<noteq> 0 \<and> 4 dvd unat (heap_base k) \<and> unat (heap_size k) < 2 ^ 31
     \<and> unat (heap_base k) + unat (heap_size k) < 2 ^ 32
     \<and> blocks_at (hmem k) (unat (heap_base k)) bs (unat (heap_base k) + unat (heap_size k))"

subsection \<open>Header encoding\<close>

lemma bit_KM_FREE_BIT: "bit KM_FREE_BIT n \<longleftrightarrow> n = 31"
proof -
  have eq: "KM_FREE_BIT = push_bit 31 1" by (simp add: KM_FREE_BIT_def push_bit_eq_mult)
  show ?thesis unfolding eq bit_push_bit_iff bit_1_iff by auto
qed

lemma not_bit31:
  assumes "unat (w :: u32) < 2 ^ 31"
  shows "\<not> bit w 31"
proof -
  have "bit w 31 \<longleftrightarrow> bit (unat w) 31" by (simp add: bit_unsigned_iff)
  also have "\<dots> \<longleftrightarrow> odd (unat w div 2 ^ 31)" by (rule bit_iff_odd)
  also have "unat w div 2 ^ 31 = 0" using assms by (rule div_less)
  finally show ?thesis by simp
qed

lemma km_hdr_size:
  assumes "unat sz < 2 ^ 31"
  shows "km_hdr sz f AND NOT KM_FREE_BIT = sz"
  using not_bit31 [OF assms]
  by (intro bit_word_eqI) (auto simp: km_hdr_def bit_KM_FREE_BIT bit_and_iff bit_or_iff bit_not_iff)

lemma km_hdr_free:
  assumes "unat sz < 2 ^ 31"
  shows "km_hdr sz f AND KM_FREE_BIT \<noteq> 0 \<longleftrightarrow> f"
proof -
  have "km_hdr sz f AND KM_FREE_BIT = (if f then KM_FREE_BIT else 0)"
    using not_bit31 [OF assms]
    by (intro bit_word_eqI) (auto simp: km_hdr_def bit_KM_FREE_BIT bit_and_iff bit_or_iff bit_not_iff)
  then show ?thesis by (simp add: KM_FREE_BIT_def)
qed

lemma and_not_mask2:
  fixes y :: u32
  shows "y AND NOT (mask 2) = y - y mod 4"
proof -
  have "(y AND NOT (mask 2)) + (y AND mask 2) = (y AND NOT (mask 2)) OR (y AND mask 2)"
    by (rule disjunctive_add_eq_or) (rule bit_word_eqI, auto simp: bit_and_iff bit_not_iff)
  also have "\<dots> = y" by (rule bit_word_eqI) (auto simp: bit_and_iff bit_or_iff bit_not_iff)
  finally have "y AND NOT (mask 2) = y - (y AND mask 2)" by (simp add: algebra_simps)
  then show ?thesis by (simp add: take_bit_eq_mod flip: take_bit_eq_mask)
qed

lemma and_not_3:
  fixes y :: u32
  shows "unat (y AND NOT 3) = unat y - unat y mod 4"
proof -
  have three: "(3 :: u32) = mask 2" by (simp add: mask_eq_exp_minus_1)
  have "unat (y AND NOT 3) = unat (y - y mod 4)"
    unfolding three and_not_mask2 ..
  also have "\<dots> = unat y - unat y mod 4"
    by (simp add: unat_sub unat_mod word_le_nat_alt)
  finally show ?thesis .
qed

lemma word_of_nat_sub:
  assumes "unat (n :: u32) + 4 \<le> s"
  shows "word_of_nat s - n - HDR_SIZE = word_of_nat (s - unat n - 4)"
proof -
  obtain k where "s = unat n + 4 + k" using assms le_Suc_ex by blast
  then show ?thesis by (simp add: HDR_SIZE_def)
qed

lemma KM_ALIGN_dvd: "4 dvd unat (KM_ALIGN x)"
  unfolding KM_ALIGN_def and_not_3 by presburger

lemma KM_ALIGN_ge:
  assumes "unat x + 3 < 2 ^ 32"
  shows "unat x \<le> unat (KM_ALIGN x) \<and> unat (KM_ALIGN x) < unat x + 4"
proof -
  have "unat (x + 3) = unat x + 3" using assms by (simp add: unat_word_ariths)
  then show ?thesis unfolding KM_ALIGN_def and_not_3 by presburger
qed

subsection \<open>Frames on block lists\<close>

lemma rd32_frame_nat:
  assumes "p + 4 \<le> 2 ^ 32" and "\<And>a. p \<le> unat a \<Longrightarrow> unat a < p + 4 \<Longrightarrow> m' a = m a"
  shows "rd32 m' (word_of_nat p) = rd32 m (word_of_nat p)"
proof -
  have byte: "m' (word_of_nat p + word_of_nat k) = m (word_of_nat p + word_of_nat k)" if "k < 4" for k
  proof (rule assms(2))
    have "unat (word_of_nat p + word_of_nat k :: addr) = p + k"
      using that assms(1) by (simp add: unat_plus_small unat_of_nat32)
    then show "p \<le> unat (word_of_nat p + word_of_nat k :: addr)"
      and "unat (word_of_nat p + word_of_nat k :: addr) < p + 4" using that by simp_all
  qed
  show ?thesis
    using byte [of 0] byte [of 1] byte [of 2] byte [of 3] by (intro rd32_cong) simp_all
qed

lemma KM_SET_other:
  assumes "q + 4 \<le> 2 ^ 32" and "unat a < q \<or> q + 4 \<le> unat a"
  shows "KM_SET m (word_of_nat q) sz f a = m a"
proof -
  have "unat (word_of_nat q :: addr) = q" using assms(1) by (intro unat_of_nat32) simp
  then have "4 \<le> unat (a - word_of_nat q)"
    using assms by (intro unat_diff_ge) auto
  then show ?thesis by (simp add: KM_SET_def wr32_other)
qed

lemma rd32_KM_SET_same [simp]: "rd32 (KM_SET m h sz f) h = km_hdr sz f"
  by (simp add: KM_SET_def)

lemma rd32_KM_SET_other:
  assumes "q + 4 \<le> 2 ^ 32" and "p + 4 \<le> 2 ^ 32" and "p + 4 \<le> q \<or> q + 4 \<le> p"
  shows "rd32 (KM_SET m (word_of_nat q) sz f) (word_of_nat p) = rd32 m (word_of_nat p)"
  using assms by (intro rd32_frame_nat KM_SET_other) auto

lemma blocks_at_le: "blocks_at m p bs e \<Longrightarrow> p \<le> e"
  by (induction bs arbitrary: p) force+

lemma blocks_at_frame:
  assumes "blocks_at m p bs e" and "e < 2 ^ 32"
    and "\<And>a. p \<le> unat a \<Longrightarrow> unat a < e \<Longrightarrow> m' a = m a"
  shows "blocks_at m' p bs e"
  using assms
proof (induction bs arbitrary: p)
  case Nil
  then show ?case by simp
next
  case (Cons b bs)
  obtain s f where b: "b = (s, f)" by (cases b)
  have le: "p + 4 + s \<le> e" using Cons.prems(1) by (simp add: b)
  have "rd32 m' (word_of_nat p) = rd32 m (word_of_nat p)"
    using Cons.prems le by (intro rd32_frame_nat) auto
  moreover have "blocks_at m' (p + 4 + s) bs e"
    using Cons.prems by (intro Cons.IH) (auto simp: b)
  ultimately show ?case using Cons.prems(1) by (simp add: b)
qed

lemma KM_read:
  assumes "rd32 m (word_of_nat p) = km_hdr (word_of_nat s) f" and "s < 2 ^ 31"
  shows "KM_SIZE m (word_of_nat p) = word_of_nat s" and "KM_IS_FREE m (word_of_nat p) = f"
proof -
  have "unat (word_of_nat s :: u32) < 2 ^ 31"
    using assms(2) by (simp add: unat_of_nat32)
  with assms(1) show "KM_SIZE m (word_of_nat p) = word_of_nat s"
    and "KM_IS_FREE m (word_of_nat p) = f"
    by (simp_all add: KM_SIZE_def KM_IS_FREE_def km_hdr_size km_hdr_free)
qed

lemma spans_ge: "(q, t) \<in> set (spans p bs) \<Longrightarrow> p \<le> q"
  by (induction bs arbitrary: p) fastforce+

subsection \<open>kmalloc refines first fit\<close>

lemma split_blocks:
  assumes blk: "blocks_at m p ((s, True) # bs) e" and e: "e < 2 ^ 32" "e - p < 2 ^ 31"
    and n: "n + 20 \<le> s" "4 dvd n"
  defines "m' \<equiv> KM_SET (KM_SET m (word_of_nat (p + 4 + n)) (word_of_nat (s - n - 4)) True)
                  (word_of_nat p) (word_of_nat n) False"
  shows "blocks_at m' p ((n, False) # (s - n - 4, True) # bs) e"
    and "\<And>a. unat a < p \<or> p + 4 + s \<le> unat a \<Longrightarrow> m' a = m a"
proof -
  have s: "p + 4 + s \<le> e" "4 dvd s" and rest: "blocks_at m (p + 4 + s) bs e"
    using blk by simp_all
  show fr: "m' a = m a" if "unat a < p \<or> p + 4 + s \<le> unat a" for a
  proof -
    have "m' a = KM_SET m (word_of_nat (p + 4 + n)) (word_of_nat (s - n - 4)) True a"
      unfolding m'_def using that s e n by (intro KM_SET_other) auto
    also have "\<dots> = m a" using that s e n by (intro KM_SET_other) auto
    finally show ?thesis .
  qed
  have "blocks_at m' (p + 4 + s) bs e"
    using rest e(1) by (rule blocks_at_frame) (simp add: fr)
  moreover have "rd32 m' (word_of_nat (p + 4 + n)) = km_hdr (word_of_nat (s - n - 4)) True"
    unfolding m'_def using s e n by (subst rd32_KM_SET_other) simp_all
  moreover have "rd32 m' (word_of_nat p) = km_hdr (word_of_nat n) False"
    by (simp add: m'_def)
  moreover have "4 dvd s - n - 4" using s n by (intro dvd_diff_nat) simp_all
  moreover have "p + 4 + n + 4 + (s - n - 4) = p + 4 + s" using n by simp
  ultimately show "blocks_at m' p ((n, False) # (s - n - 4, True) # bs) e"
    using s n by (simp add: add.assoc)
qed

lemma retag_block:
  fixes f' :: bool
  assumes blk: "blocks_at m p ((s, f) # bs) e" and e: "e < 2 ^ 32"
  defines "m' \<equiv> KM_SET m (word_of_nat p) (word_of_nat s) f'"
  shows "blocks_at m' p ((s, f') # bs) e"
    and "\<And>a. unat a < p \<or> p + 4 + s \<le> unat a \<Longrightarrow> m' a = m a"
proof -
  have s: "p + 4 + s \<le> e" "4 dvd s" and rest: "blocks_at m (p + 4 + s) bs e"
    using blk by simp_all
  show fr: "m' a = m a" if "unat a < p \<or> p + 4 + s \<le> unat a" for a
    unfolding m'_def using that s e by (intro KM_SET_other) auto
  have "blocks_at m' (p + 4 + s) bs e"
    using rest e by (rule blocks_at_frame) (simp add: fr)
  with s show "blocks_at m' p ((s, f') # bs) e" by (simp add: m'_def)
qed

lemma kmalloc_loop_refines:
  assumes "blocks_at m p bs e" and "e < 2 ^ 32" and "e - p < 2 ^ 31" and "4 dvd unat n"
  shows "case first_fit (unat n) p bs of
      None \<Rightarrow> kmalloc_loop m n (word_of_nat p) (word_of_nat e) = Some (0, m)
    | Some (q, bs') \<Rightarrow> \<exists>m' s. kmalloc_loop m n (word_of_nat p) (word_of_nat e) = Some (word_of_nat (q + 4), m')
        \<and> blocks_at m' p bs' e \<and> (q, s, True) \<in> set (spans p bs)
        \<and> (\<forall>a. unat a < q \<or> q + 4 + s \<le> unat a \<longrightarrow> m' a = m a)"
  using assms
proof (induction bs arbitrary: p)
  case Nil
  then show ?case by (subst kmalloc_loop.simps) simp
next
  case (Cons b bs)
  obtain s f where b: "b = (s, f)" by (cases b)
  have s: "p + 4 + s \<le> e" "4 dvd s" and hd: "rd32 m (word_of_nat p) = km_hdr (word_of_nat s) f"
    and rest: "blocks_at m (p + 4 + s) bs e"
    using Cons.prems(1) by (simp_all add: b)
  have s31: "s < 2 ^ 31" using s Cons.prems(3) by simp
  note rd = KM_read [OF hd s31]
  have lt: "(word_of_nat p :: u32) < word_of_nat e"
    using s Cons.prems(2) by (simp add: word_less_nat_alt unat_of_nat32)
  have us: "unat (word_of_nat s :: u32) = s" using s31 by (simp add: unat_of_nat32)
  have fits: "n \<le> word_of_nat s \<longleftrightarrow> unat n \<le> s" by (simp add: word_le_nat_alt us)
  show ?case
  proof (cases "f \<and> unat n \<le> s")
    case True
    then have f: "f" and n: "unat n \<le> s" by simp_all
    have room: "n + HDR_SIZE + MIN_SPLIT \<le> word_of_nat s \<longleftrightarrow> unat n + 20 \<le> s"
    proof -
      have "n + HDR_SIZE + MIN_SPLIT = n + word_of_nat 20" by (simp add: HDR_SIZE_def MIN_SPLIT_def)
      then have "unat (n + HDR_SIZE + MIN_SPLIT) = unat n + 20"
        using n s31 by (simp only:) (rule unat_plus_small, simp)
      then show ?thesis by (simp only: word_le_nat_alt us)
    qed
    show ?thesis
    proof (cases "unat n + 20 \<le> s")
      case split: True
      have left: "word_of_nat s - n - HDR_SIZE = word_of_nat (s - unat n - 4)"
        by (rule word_of_nat_sub) (use split in simp)
      have nxt: "word_of_nat p + HDR_SIZE + n = word_of_nat (p + 4 + unat n)"
        by (simp add: HDR_SIZE_def)
      have run: "kmalloc_loop m n (word_of_nat p) (word_of_nat e) = Some (word_of_nat (p + 4),
          KM_SET (KM_SET m (word_of_nat (p + 4 + unat n)) (word_of_nat (s - unat n - 4)) True)
            (word_of_nat p) (word_of_nat (unat n)) False)"
        using f n split
        by (subst kmalloc_loop.simps) (simp only: lt rd fits room Let_def left nxt if_True simp_thms,
            simp add: HDR_SIZE_def)
      have "blocks_at m p ((s, True) # bs) e" using Cons.prems(1) f by (simp add: b)
      note sp = split_blocks [OF this Cons.prems(2,3) split Cons.prems(4)]
      show ?thesis using sp run f n split unfolding b by auto
    next
      case nosplit: False
      have run: "kmalloc_loop m n (word_of_nat p) (word_of_nat e) = Some (word_of_nat (p + 4),
          KM_SET m (word_of_nat p) (word_of_nat s) False)"
        using f n nosplit
        by (subst kmalloc_loop.simps) (simp add: lt rd fits room Let_def, simp add: HDR_SIZE_def)
      note sp = retag_block [OF Cons.prems(1) [unfolded b] Cons.prems(2), where f' = False]
      show ?thesis using sp run f n nosplit unfolding b by auto
    qed
  next
    case False
    have step: "kmalloc_loop m n (word_of_nat p) (word_of_nat e)
        = kmalloc_loop m n (word_of_nat (p + 4 + s)) (word_of_nat e)"
      using False
      by (subst kmalloc_loop.simps) (auto simp: lt rd fits Let_def HDR_SIZE_def algebra_simps)
    have IH: "case first_fit (unat n) (p + 4 + s) bs of
      None \<Rightarrow> kmalloc_loop m n (word_of_nat (p + 4 + s)) (word_of_nat e) = Some (0, m)
    | Some (q, bs') \<Rightarrow> \<exists>m' s'. kmalloc_loop m n (word_of_nat (p + 4 + s)) (word_of_nat e)
          = Some (word_of_nat (q + 4), m')
        \<and> blocks_at m' (p + 4 + s) bs' e \<and> (q, s', True) \<in> set (spans (p + 4 + s) bs)
        \<and> (\<forall>a. unat a < q \<or> q + 4 + s' \<le> unat a \<longrightarrow> m' a = m a)"
      using Cons.prems rest by (intro Cons.IH) simp_all
    show ?thesis
    proof (cases "first_fit (unat n) (p + 4 + s) bs")
      case None
      with IH False show ?thesis by (auto simp: b step simp del: of_nat_add)
    next
      case (Some r)
      obtain q bs' where r: "r = (q, bs')" by (cases r)
      from IH Some r obtain m' s' where
        run: "kmalloc_loop m n (word_of_nat (p + 4 + s)) (word_of_nat e) = Some (word_of_nat (q + 4), m')"
        and blk: "blocks_at m' (p + 4 + s) bs' e"
        and sp: "(q, s', True) \<in> set (spans (p + 4 + s) bs)"
        and fr: "\<And>a. unat a < q \<or> q + 4 + s' \<le> unat a \<Longrightarrow> m' a = m a" by auto
      have q: "p + 4 + s \<le> q" using sp by (rule spans_ge)
      have "rd32 m' (word_of_nat p) = rd32 m (word_of_nat p)"
        using q s Cons.prems(2) by (intro rd32_frame_nat fr) auto
      with run blk sp fr hd s Some r False show ?thesis
        by (auto simp: b step simp del: of_nat_add)
    qed
  qed
qed

subsection \<open>kfree refines freeing a block and merging it with the next\<close>

fun extent :: "block list \<Rightarrow> nat" where
  "extent [] = 0"
| "extent ((s, f) # bs) = 4 + s + extent bs"

lemma extent_append [simp]: "extent (xs @ ys) = extent xs + extent ys"
  by (induction xs) auto

lemma blocks_at_extent: "blocks_at m p bs e \<Longrightarrow> p + extent bs = e"
  by (induction bs arbitrary: p) (force simp: add.assoc)+

lemma blocks_at_append:
  "blocks_at m p (xs @ ys) e \<longleftrightarrow> blocks_at m p xs (p + extent xs) \<and> blocks_at m (p + extent xs) ys e"
proof (induction xs arbitrary: p)
  case Nil
  then show ?case by simp
next
  case (Cons b xs)
  obtain s f where b: "b = (s, f)" by (cases b)
  show ?case
    using Cons.IH [of "p + 4 + s"] blocks_at_le [of m "p + 4 + s" "xs @ ys" e]
    by (auto simp: b add.assoc)
qed

lemma spans_append [simp]: "spans p (xs @ ys) = spans p xs @ spans (p + extent xs) ys"
  by (induction xs arbitrary: p) (auto simp: add.assoc)

lemma spans_split:
  "(q, s, f) \<in> set (spans p bs) \<Longrightarrow> \<exists>pre post. bs = pre @ (s, f) # post \<and> q = p + extent pre"
proof (induction bs arbitrary: p)
  case Nil
  then show ?case by simp
next
  case (Cons b bs)
  obtain s' f' where b: "b = (s', f')" by (cases b)
  show ?case
  proof (cases "(q, s, f) = (p, s', f')")
    case True
    then show ?thesis by (intro exI [of _ "[]"] exI [of _ bs]) (simp add: b)
  next
    case False
    with Cons.prems have "(q, s, f) \<in> set (spans (p + 4 + s') bs)" by (auto simp: b)
    from Cons.IH [OF this] obtain pre post
      where "bs = pre @ (s, f) # post" "q = p + 4 + s' + extent pre" by blast
    then show ?thesis by (intro exI [of _ "b # pre"] exI [of _ post]) (simp add: b)
  qed
qed

lemma free_block_split:
  "free_block (p + extent pre) p (pre @ (s, f) # post) = pre @ merge_next s post"
  by (induction pre arbitrary: p) (auto simp: add.assoc [symmetric])

lemma extent_merge_next: "extent (merge_next s post) = extent ((s, f) # post)"
  by (cases "(s, post)" rule: merge_next.cases) auto

lemma merge_blocks_at:
  assumes "blocks_at m q ((s, f) # (s', f') # post) e" and "e < 2 ^ 32"
  defines "m' \<equiv> KM_SET m (word_of_nat q) (word_of_nat (s + 4 + s')) True"
  shows "blocks_at m' q ((s + 4 + s', True) # post) e"
proof -
  have s: "q + 4 + s + 4 + s' \<le> e" "4 dvd s" "4 dvd s'"
    and rest: "blocks_at m (q + 4 + s + 4 + s') post e"
    using assms(1) blocks_at_le by auto
  have "blocks_at m' (q + 4 + s + 4 + s') post e"
    using rest assms(2)
    by (rule blocks_at_frame) (unfold m'_def, intro KM_SET_other, use s assms(2) in auto)
  moreover have "4 dvd s + 4 + s'" using s by (intro dvd_add) simp_all
  ultimately show ?thesis using s by (simp add: m'_def add.assoc)
qed

lemma KM_set_next:
  assumes at1: "blocks_at m1 q ((s, True) # post) e" and e: "e < 2 ^ 32" "e - q < 2 ^ 31"
  shows "(word_of_nat (q + 4 + s) :: addr) < word_of_nat e \<and> KM_IS_FREE m1 (word_of_nat (q + 4 + s))
    \<longleftrightarrow> (\<exists>s' post'. post = (s', True) # post')"
proof -
  have s: "q + 4 + s \<le> e" and post: "blocks_at m1 (q + 4 + s) post e" using at1 by simp_all
  have u: "unat (word_of_nat (q + 4 + s) :: addr) = q + 4 + s" "unat (word_of_nat e :: addr) = e"
    using s e by (intro unat_of_nat32; simp)+
  have in_heap: "(word_of_nat (q + 4 + s) :: addr) < word_of_nat e \<longleftrightarrow> q + 4 + s < e"
    by (simp only: word_less_nat_alt u)
  show ?thesis
  proof (cases post)
    case Nil
    with post in_heap show ?thesis by simp
  next
    case (Cons c post')
    obtain s' f' where c: "c = (s', f')" by (cases c)
    have "s' < 2 ^ 31" "q + 4 + s < e" using post e s unfolding Cons c by auto
    moreover have "rd32 m1 (word_of_nat (q + 4 + s)) = km_hdr (word_of_nat s') f'"
      using post by (simp add: Cons c)
    ultimately show ?thesis using KM_read(2) in_heap by (simp only: Cons c) auto
  qed
qed

lemma kfree_step:
  assumes at_q: "blocks_at (hmem k) q ((s, f) # post) e" and e: "e < 2 ^ 32" "e - q < 2 ^ 31"
    and lim: "heap_base k + heap_size k = word_of_nat e" and base: "heap_base k \<noteq> 0"
  shows "\<exists>m'. kfree k (word_of_nat (q + 4)) = k\<lparr>hmem := m'\<rparr> \<and> blocks_at m' q (merge_next s post) e
      \<and> (\<forall>a. unat a < q \<or> q + 4 \<le> unat a \<longrightarrow> m' a = hmem k a)"
proof -
  define m1 where "m1 = KM_SET (hmem k) (word_of_nat q) (word_of_nat s) True"
  have s: "q + 4 + s \<le> e" "s < 2 ^ 31" using at_q e by auto
  have at1: "blocks_at m1 q ((s, True) # post) e"
    using retag_block [OF at_q e(1), where f' = True] by (simp add: m1_def)
  have fr1: "m1 a = hmem k a" if "unat a < q \<or> q + 4 \<le> unat a" for a
    unfolding m1_def using that s e by (intro KM_SET_other) auto
  have h: "word_of_nat (q + 4) - HDR_SIZE = word_of_nat q"
    and nxt: "word_of_nat q + HDR_SIZE + word_of_nat s = word_of_nat (q + 4 + s)"
    by (simp_all add: HDR_SIZE_def)
  have rd: "KM_SIZE (hmem k) (word_of_nat q) = word_of_nat s"
    and rd1: "KM_SIZE m1 (word_of_nat q) = word_of_nat s"
    using at_q at1 s by (auto intro!: KM_read(1))
  have nz: "(word_of_nat (q + 4) :: addr) \<noteq> 0"
    using s e unat_of_nat32 [of "q + 4"] by auto
  note unf = kfree_def Let_def h rd m1_def [symmetric] rd1 nxt lim KM_set_next [OF at1 e]
  show ?thesis
  proof (cases "\<exists>s' post'. post = (s', True) # post'")
    case True
    then obtain s' post' where p: "post = (s', True) # post'" by blast
    have "s' < 2 ^ 31" using at1 e unfolding p by auto
    then have rd2: "KM_SIZE m1 (word_of_nat (q + 4 + s)) = word_of_nat s'"
      using at1 by (intro KM_read(1)) (simp add: p)
    have szs: "word_of_nat s + HDR_SIZE + word_of_nat s' = (word_of_nat (s + 4 + s') :: u32)"
      by (simp add: HDR_SIZE_def)
    let ?m2 = "KM_SET m1 (word_of_nat q) (word_of_nat (s + 4 + s')) True"
    have "kfree k (word_of_nat (q + 4)) = k\<lparr>hmem := ?m2\<rparr>"
      unfolding unf rd2 szs using nz base p by simp
    moreover have "blocks_at ?m2 q (merge_next s post) e"
      using merge_blocks_at [OF at1 [unfolded p] e(1)] by (simp add: p)
    moreover have "?m2 a = hmem k a" if "unat a < q \<or> q + 4 \<le> unat a" for a
      using KM_SET_other [of q a m1] that s e fr1 [OF that] by simp
    ultimately show ?thesis by blast
  next
    case False
    have "merge_next s post = (s, True) # post"
      using False by (cases "(s, post)" rule: merge_next.cases) auto
    moreover have "kfree k (word_of_nat (q + 4)) = k\<lparr>hmem := m1\<rparr>"
      unfolding unf using nz base False by simp
    ultimately show ?thesis using at1 fr1 by auto
  qed
qed

lemma kfree_refines:
  assumes wf: "heap_wf k bs" and q: "(q, s, f) \<in> set (spans (unat (heap_base k)) bs)"
  shows "heap_wf (kfree k (word_of_nat (q + 4))) (free_block q (unat (heap_base k)) bs)"
    and "\<And>a. unat a < q \<or> q + 4 \<le> unat a \<Longrightarrow> hmem (kfree k (word_of_nat (q + 4))) a = hmem k a"
proof -
  define b where "b = unat (heap_base k)"
  define e where "e = b + unat (heap_size k)"
  have base: "heap_base k \<noteq> 0" "4 dvd b" "unat (heap_size k) < 2 ^ 31" "e < 2 ^ 32"
    and blk: "blocks_at (hmem k) b bs e"
    using wf by (simp_all add: heap_wf_def b_def e_def)
  from spans_split [OF q] obtain pre post where bs: "bs = pre @ (s, f) # post"
    and q_eq: "q = b + extent pre" unfolding b_def by blast
  from blk have pre: "blocks_at (hmem k) b pre q" and at_q: "blocks_at (hmem k) q ((s, f) # post) e"
    unfolding bs blocks_at_append by (simp_all add: q_eq)
  have "e - q < 2 ^ 31" using base q_eq by (simp add: e_def)
  moreover have "heap_base k + heap_size k = word_of_nat e" by (simp add: e_def b_def)
  ultimately obtain m' where run: "kfree k (word_of_nat (q + 4)) = k\<lparr>hmem := m'\<rparr>"
    and at': "blocks_at m' q (merge_next s post) e"
    and fr: "\<And>a. unat a < q \<or> q + 4 \<le> unat a \<Longrightarrow> m' a = hmem k a"
    using kfree_step [OF at_q base(4)] base(1) by blast
  have "q \<le> e" using at_q by auto
  then have "blocks_at m' b pre q"
    using pre base(4) fr by (intro blocks_at_frame [of "hmem k" b pre q m']) auto
  with at' have "blocks_at m' b (pre @ merge_next s post) e"
    unfolding blocks_at_append by (simp add: q_eq)
  moreover have "free_block q b bs = pre @ merge_next s post"
    unfolding bs q_eq by (rule free_block_split)
  ultimately show "heap_wf (kfree k (word_of_nat (q + 4))) (free_block q (unat (heap_base k)) bs)"
    unfolding heap_wf_def run using base by (simp add: b_def [symmetric] e_def [symmetric])
  show "hmem (kfree k (word_of_nat (q + 4))) a = hmem k a" if "unat a < q \<or> q + 4 \<le> unat a" for a
    unfolding run using fr [OF that] by simp
qed

lemma first_fit_None:
  "first_fit n p bs = None \<longleftrightarrow> (\<forall>(q, s, f) \<in> set (spans p bs). f \<longrightarrow> s < n)"
  by (induction bs arbitrary: p) (auto simp: not_le split: if_splits)

subsection \<open>Live blocks\<close>

lemma live_Nil [simp]: "live p [] = {}"
  by (simp add: live_def)

lemma live_Cons: "live p ((s, f) # bs) = (if f then {} else {(p + 4, s)}) \<union> live (p + 4 + s) bs"
  by (auto simp: live_def)

lemma live_append: "live p (xs @ ys) = live p xs \<union> live (p + extent xs) ys"
  by (auto simp: live_def)

lemma live_merge_next: "live q (merge_next s post) = live (q + 4 + s) post"
  by (cases "(s, post)" rule: merge_next.cases) (auto simp: live_Cons algebra_simps)

lemma spans_upper: "(q, s, f) \<in> set (spans p bs) \<Longrightarrow> q + 4 + s \<le> p + extent bs"
  by (induction bs arbitrary: p) fastforce+

lemma spans_disjoint:
  "(q, s, f) \<in> set (spans p bs) \<Longrightarrow> (q', s', f') \<in> set (spans p bs) \<Longrightarrow>
    (q, s, f) = (q', s', f') \<or> q + 4 + s \<le> q' \<or> q' + 4 + s' \<le> q"
proof (induction bs arbitrary: p)
  case Nil
  then show ?case by simp
next
  case (Cons b bs)
  obtain s0 f0 where b: "b = (s0, f0)" by (cases b)
  show ?case
    using Cons.prems Cons.IH [of "p + 4 + s0"] spans_ge [of q "(s, f)" "p + 4 + s0" bs]
      spans_ge [of q' "(s', f')" "p + 4 + s0" bs]
    by (auto simp: b)
qed

lemma first_fit_ge: "first_fit n p bs = Some (q, bs') \<Longrightarrow> p \<le> q"
  by (induction bs arbitrary: p bs') (fastforce split: if_splits)+

lemma first_fit_live:
  "first_fit n p bs = Some (q, bs') \<Longrightarrow> \<exists>l \<ge> n. live p bs' = insert (q + 4, l) (live p bs)
    \<and> (\<forall>s f. (q, s, f) \<in> set (spans p bs) \<longrightarrow> l \<le> s)"
proof (induction bs arbitrary: p bs')
  case Nil
  then show ?case by simp
next
  case (Cons b bs)
  obtain s f where b: "b = (s, f)" by (cases b)
  show ?case
  proof (cases "f \<and> n \<le> s")
    case True
    have ge: "(p, s', f') \<in> set (spans (p + 4 + s) bs) \<Longrightarrow> P" for s' f' P
      using spans_ge by fastforce
    show ?thesis
    proof (cases "n + 20 \<le> s")
      case split: True
      with Cons.prems True have "q = p" "bs' = (n, False) # (s - n - 4, True) # bs" by (simp_all add: b)
      moreover have "p + 4 + n + 4 + (s - n - 4) = p + 4 + s" using split by simp
      ultimately have "live p bs' = insert (p + 4, n) (live p (b # bs))"
        using True by (simp only: b live_Cons) simp
      with split True show ?thesis
        by (intro exI [of _ n]) (auto simp: b \<open>q = p\<close> dest: ge)
    next
      case False
      with Cons.prems True have "q = p" "bs' = (s, False) # bs" by (simp_all add: b)
      with True show ?thesis by (intro exI [of _ s]) (auto simp: b live_Cons dest: ge)
    qed
  next
    case False
    with Cons.prems obtain bs'' where rec: "first_fit n (p + 4 + s) bs = Some (q, bs'')"
      and bs': "bs' = (s, f) # bs''" by (auto simp: b)
    from Cons.IH [OF rec] obtain l where "l \<ge> n"
      "live (p + 4 + s) bs'' = insert (q + 4, l) (live (p + 4 + s) bs)"
      "\<forall>s' f'. (q, s', f') \<in> set (spans (p + 4 + s) bs) \<longrightarrow> l \<le> s'" by blast
    moreover have "q \<noteq> p"
      using first_fit_ge [OF rec] by simp
    ultimately show ?thesis by (intro exI [of _ l]) (auto simp: b bs' live_Cons)
  qed
qed

lemma free_block_live:
  assumes "(q, s, False) \<in> set (spans p bs)"
  shows "live p (free_block q p bs) = live p bs - {(q + 4, s)}"
proof -
  from spans_split [OF assms] obtain pre post where bs: "bs = pre @ (s, False) # post"
    and q: "q = p + extent pre" by blast
  have fb: "free_block q p bs = pre @ merge_next s post"
    unfolding bs q by (rule free_block_split)
  have "(q + 4, s) \<notin> live p pre"
    using spans_upper [of q s False p pre] q by (auto simp: live_def)
  moreover have "(q + 4, s) \<notin> live (q + 4 + s) post"
    using spans_ge [of q _ "q + 4 + s" post] by (fastforce simp: live_def)
  ultimately show ?thesis
    unfolding fb unfolding bs live_append live_merge_next live_Cons by (auto simp: q)
qed

lemma blocks_at_headers:
  "blocks_at m p bs e \<Longrightarrow> e < 2 ^ 32 \<Longrightarrow>
   (\<And>q s f a. (q, s, f) \<in> set (spans p bs) \<Longrightarrow> q \<le> unat a \<Longrightarrow> unat a < q + 4 \<Longrightarrow> m' a = m a)
   \<Longrightarrow> blocks_at m' p bs e"
proof (induction bs arbitrary: p)
  case Nil
  then show ?case by simp
next
  case (Cons b bs)
  obtain s f where b: "b = (s, f)" by (cases b)
  have "rd32 m' (word_of_nat p) = rd32 m (word_of_nat p)"
    using Cons.prems(1,2) by (intro rd32_frame_nat Cons.prems(3) [of p s f]) (auto simp: b)
  moreover have "blocks_at m' (p + 4 + s) bs e"
    using Cons.prems(1,2) by (intro Cons.IH Cons.prems(3)) (auto simp: b)
  ultimately show ?case using Cons.prems(1) by (simp add: b)
qed

text \<open>A client that writes only inside its own block leaves the heap well formed.\<close>

lemma heap_wf_headers:
  assumes wf: "heap_wf k bs"
    and fr: "\<And>q s f x. (q, s, f) \<in> set (spans (unat (heap_base k)) bs) \<Longrightarrow> q \<le> unat x \<Longrightarrow> unat x < q + 4
      \<Longrightarrow> m' x = hmem k x"
  shows "heap_wf (k\<lparr>hmem := m'\<rparr>) bs"
proof -
  have "blocks_at m' (unat (heap_base k)) bs (unat (heap_base k) + unat (heap_size k))"
    by (rule blocks_at_headers [of "hmem k"]) (use wf fr in \<open>auto simp: heap_wf_def\<close>)
  with wf show ?thesis by (simp add: heap_wf_def)
qed

lemma heap_wf_data_write:
  assumes wf: "heap_wf k bs" and blk: "(a, l) \<in> live (unat (heap_base k)) bs"
    and fr: "\<And>x :: addr. unat x < a \<or> a + l \<le> unat x \<Longrightarrow> m' x = hmem k x"
  shows "heap_wf (k\<lparr>hmem := m'\<rparr>) bs"
proof (rule heap_wf_headers [OF wf])
  from blk obtain q where a: "a = q + 4" and q: "(q, l, False) \<in> set (spans (unat (heap_base k)) bs)"
    by (auto simp: live_def)
  fix q' s' f' and x :: addr
  assume q': "(q', s', f') \<in> set (spans (unat (heap_base k)) bs)" and x: "q' \<le> unat x" "unat x < q' + 4"
  show "m' x = hmem k x" using spans_disjoint [OF q q'] x by (intro fr) (auto simp: a)
qed

subsection \<open>The allocator contract\<close>

text \<open>
  What the rest of the kernel relies on: \<open>rep\<close> relates a state to its abstract block list,
  \<open>regions\<close> are the live (address, size) pairs, and the two operations keep the bytes of every
  other live region. The 4 bytes in front of a region are its header.
\<close>

locale allocator =
  fixes rep :: "'s \<Rightarrow> 'b \<Rightarrow> bool"
    and regions :: "'s \<Rightarrow> 'b \<Rightarrow> (nat \<times> nat) set"
    and bytes :: "'s \<Rightarrow> mem"
    and alloc :: "'s \<Rightarrow> u32 \<Rightarrow> (addr \<times> 's) option"
    and release :: "'s \<Rightarrow> addr \<Rightarrow> 's"
  assumes alloc_total:
      "rep s b \<Longrightarrow> 0 < unat n \<Longrightarrow> unat n + 3 < 2 ^ 32 \<Longrightarrow> \<exists>r s'. alloc s n = Some (r, s')"
    and alloc_fail: "rep s b \<Longrightarrow> alloc s n = Some (0, s') \<Longrightarrow> s' = s"
    and alloc_ok:
      "rep s b \<Longrightarrow> 0 < unat n \<Longrightarrow> unat n + 3 < 2 ^ 32 \<Longrightarrow> alloc s n = Some (r, s') \<Longrightarrow> r \<noteq> 0 \<Longrightarrow>
        \<exists>b' l. rep s' b' \<and> unat n \<le> l \<and> unat r + l < 2 ^ 32 \<and> 4 dvd unat r
          \<and> regions s' b' = insert (unat r, l) (regions s b)
          \<and> (\<forall>(a, k) \<in> regions s b. a + k + 4 \<le> unat r \<or> unat r + l + 4 \<le> a)
          \<and> (\<forall>(a, k) \<in> regions s b. \<forall>x. a \<le> unat x \<and> unat x < a + k \<longrightarrow> bytes s' x = bytes s x)"
    and release_ok:
      "rep s b \<Longrightarrow> (unat p, l) \<in> regions s b \<Longrightarrow>
        \<exists>b'. rep (release s p) b' \<and> regions (release s p) b' = regions s b - {(unat p, l)}
          \<and> (\<forall>x. unat x + 4 < unat p \<or> unat p \<le> unat x \<longrightarrow> bytes (release s p) x = bytes s x)"
begin

lemma alloc_fresh:
  assumes "rep s b" "0 < unat n" "unat n + 3 < 2 ^ 32" "alloc s n = Some (r, s')" "r \<noteq> 0"
    and "(a, k) \<in> regions s b"
  shows "a + k \<le> unat r \<or> unat r + unat n \<le> a"
proof -
  from alloc_ok [OF assms(1-5)] obtain l where "unat n \<le> l"
    "\<forall>(a, k) \<in> regions s b. a + k + 4 \<le> unat r \<or> unat r + l + 4 \<le> a" by blast
  with assms(6) show ?thesis by fastforce
qed

lemma two_allocs_disjoint:
  assumes s: "rep s b" and n1: "0 < unat n1" "unat n1 + 3 < 2 ^ 32" and n2: "0 < unat n2" "unat n2 + 3 < 2 ^ 32"
    and r1: "alloc s n1 = Some (r1, s1)" "r1 \<noteq> 0" and r2: "alloc s1 n2 = Some (r2, s2)" "r2 \<noteq> 0"
  shows "unat r1 + unat n1 \<le> unat r2 \<or> unat r2 + unat n2 \<le> unat r1"
proof -
  from alloc_ok [OF s n1 r1] obtain b1 l1 where 1: "rep s1 b1" "unat n1 \<le> l1"
    "regions s1 b1 = insert (unat r1, l1) (regions s b)" by blast
  then have "unat r1 + l1 \<le> unat r2 \<or> unat r2 + unat n2 \<le> unat r1"
    using alloc_fresh [OF 1(1) n2 r2] by simp
  with 1(2) show ?thesis by linarith
qed

lemma alloc_release_regions:
  assumes s: "rep s b" and n: "0 < unat n" "unat n + 3 < 2 ^ 32"
    and r: "alloc s n = Some (r, s1)" "r \<noteq> 0"
  shows "\<exists>b'. rep (release s1 r) b' \<and> regions (release s1 r) b' = regions s b
    \<and> (\<forall>(a, k) \<in> regions s b. \<forall>x. a \<le> unat x \<and> unat x < a + k \<longrightarrow> bytes (release s1 r) x = bytes s x)"
proof -
  from alloc_ok [OF s n r] obtain b1 l where 1: "rep s1 b1" "unat n \<le> l"
    "regions s1 b1 = insert (unat r, l) (regions s b)"
    and dj: "\<forall>(a, k) \<in> regions s b. a + k + 4 \<le> unat r \<or> unat r + l + 4 \<le> a"
    and keep: "\<forall>(a, k) \<in> regions s b. \<forall>x. a \<le> unat x \<and> unat x < a + k \<longrightarrow> bytes s1 x = bytes s x"
    by blast
  have new: "(unat r, l) \<notin> regions s b" using dj n(1) 1(2) by fastforce
  from release_ok [OF 1(1), of r l] 1(3) obtain b2 where 2: "rep (release s1 r) b2"
    "regions (release s1 r) b2 = insert (unat r, l) (regions s b) - {(unat r, l)}"
    and keep2: "\<forall>x. unat x + 4 < unat r \<or> unat r \<le> unat x \<longrightarrow> bytes (release s1 r) x = bytes s1 x"
    by auto
  have "bytes (release s1 r) x = bytes s x"
    if "(a, k) \<in> regions s b" "a \<le> unat x" "unat x < a + k" for a k x
  proof -
    have "a + k + 4 \<le> unat r \<or> unat r + l + 4 \<le> a" using dj that(1) by blast
    then have "bytes (release s1 r) x = bytes s1 x" using keep2 that by auto
    moreover have "bytes s1 x = bytes s x" using keep that by blast
    ultimately show ?thesis by simp
  qed
  with 2 new show ?thesis by blast
qed

end

subsection \<open>The kernel heap is an allocator\<close>

lemma kmalloc_run:
  assumes wf: "heap_wf k bs" and n: "0 < unat n"
  defines "b \<equiv> unat (heap_base k)"
  shows "case first_fit (unat (KM_ALIGN n)) b bs of
      None \<Rightarrow> kmalloc k n = Some (0, k)
    | Some (q, bs') \<Rightarrow> \<exists>m' s. kmalloc k n = Some (word_of_nat (q + 4), k\<lparr>hmem := m'\<rparr>)
        \<and> heap_wf (k\<lparr>hmem := m'\<rparr>) bs' \<and> (q, s, True) \<in> set (spans b bs)
        \<and> (\<forall>a. unat a < q \<or> q + 4 + s \<le> unat a \<longrightarrow> m' a = hmem k a)"
proof -
  define e where "e = b + unat (heap_size k)"
  have blk: "blocks_at (hmem k) b bs e" and e: "e < 2 ^ 32" "e - b < 2 ^ 31"
    and base: "heap_base k \<noteq> 0"
    using wf by (simp_all add: heap_wf_def b_def e_def)
  have wb: "word_of_nat b = heap_base k" and we: "word_of_nat e = heap_base k + heap_size k"
    by (simp_all add: b_def e_def)
  have "n \<noteq> 0" using n by auto
  then have run: "kmalloc k n = map_option (\<lambda>(r, m). (r, k\<lparr>hmem := m\<rparr>))
      (kmalloc_loop (hmem k) (KM_ALIGN n) (word_of_nat b) (word_of_nat e))"
    using base unfolding kmalloc_def wb we by simp
  note lp = kmalloc_loop_refines [OF blk e KM_ALIGN_dvd, of n]
  show ?thesis
  proof (cases "first_fit (unat (KM_ALIGN n)) b bs")
    case None
    with lp run show ?thesis by simp
  next
    case (Some r)
    obtain q bs' where r: "r = (q, bs')" by (cases r)
    from lp Some r obtain m' s where
      "kmalloc_loop (hmem k) (KM_ALIGN n) (word_of_nat b) (word_of_nat e) = Some (word_of_nat (q + 4), m')"
      "blocks_at m' b bs' e" "(q, s, True) \<in> set (spans b bs)"
      "\<forall>a. unat a < q \<or> q + 4 + s \<le> unat a \<longrightarrow> m' a = hmem k a" by auto
    moreover have "heap_wf (k\<lparr>hmem := m'\<rparr>) bs'"
      using wf calculation(2) by (simp add: heap_wf_def b_def e_def)
    ultimately show ?thesis using Some r run by auto
  qed
qed

lemma spans_dvd:
  "blocks_at m p bs e \<Longrightarrow> 4 dvd p \<Longrightarrow> (q, s, f) \<in> set (spans p bs) \<Longrightarrow> 4 dvd q \<and> q + 4 + s \<le> e"
proof (induction bs arbitrary: p)
  case Nil
  then show ?case by simp
next
  case (Cons b bs)
  obtain s0 f0 where b: "b = (s0, f0)" by (cases b)
  have "4 dvd p + 4 + s0" using Cons.prems by (simp add: b)
  then show ?case using Cons.prems Cons.IH [of "p + 4 + s0"] by (auto simp: b)
qed

lemma heap_wf_span:
  assumes "heap_wf k bs" and "(q, s, f) \<in> set (spans (unat (heap_base k)) bs)"
  shows "4 dvd q" "q + 4 + s < 2 ^ 32" "unat (word_of_nat (q + 4) :: addr) = q + 4"
    "(word_of_nat (q + 4) :: addr) \<noteq> 0"
proof -
  have "4 dvd q \<and> q + 4 + s \<le> unat (heap_base k) + unat (heap_size k)"
    using assms(1) by (intro spans_dvd [OF _ _ assms(2)]) (auto simp: heap_wf_def)
  moreover have "unat (heap_base k) + unat (heap_size k) < 2 ^ 32"
    using assms(1) by (simp add: heap_wf_def)
  ultimately show "4 dvd q" and lt: "q + 4 + s < 2 ^ 32" by simp_all
  then show u: "unat (word_of_nat (q + 4) :: addr) = q + 4" by (intro unat_of_nat32) simp
  show "(word_of_nat (q + 4) :: addr) \<noteq> 0" using u by (metis add_is_0 unat_0 zero_neq_numeral)
qed

lemma kmalloc_success:
  assumes wf: "heap_wf k bs" and n: "0 < unat n" "unat n + 3 < 2 ^ 32"
    and run: "kmalloc k n = Some (r, k')" and r: "r \<noteq> 0"
  defines "b \<equiv> unat (heap_base k)"
  shows "\<exists>bs' q s l. heap_wf k' bs' \<and> first_fit (unat (KM_ALIGN n)) b bs = Some (q, bs')
    \<and> unat r = q + 4 \<and> (q, s, True) \<in> set (spans b bs) \<and> unat n \<le> l \<and> unat (KM_ALIGN n) \<le> l \<and> l \<le> s
    \<and> live b bs' = insert (q + 4, l) (live b bs) \<and> heap_base k' = heap_base k
    \<and> (\<forall>a. unat a < q \<or> q + 4 + s \<le> unat a \<longrightarrow> hmem k' a = hmem k a)"
proof -
  note mr = kmalloc_run [OF wf n(1), folded b_def]
  from mr run r obtain q bs' where ff: "first_fit (unat (KM_ALIGN n)) b bs = Some (q, bs')"
    by (auto split: option.splits)
  with mr run obtain m' s where k': "k' = k\<lparr>hmem := m'\<rparr>" "r = word_of_nat (q + 4)"
    and wf': "heap_wf k' bs'" and sp: "(q, s, True) \<in> set (spans b bs)"
    and fr: "\<forall>a. unat a < q \<or> q + 4 + s \<le> unat a \<longrightarrow> m' a = hmem k a" by auto
  from first_fit_live [OF ff] sp obtain l where l: "unat (KM_ALIGN n) \<le> l" "l \<le> s"
    "live b bs' = insert (q + 4, l) (live b bs)" by blast
  moreover have "unat r = q + 4" using heap_wf_span(3) [OF wf] sp k'(2) by (simp only: b_def)
  moreover have "unat n \<le> l" using l(1) KM_ALIGN_ge [OF n(2)] by simp
  ultimately show ?thesis using wf' ff sp fr k'(1) by auto
qed

lemma kmalloc_fail: "heap_wf k bs \<Longrightarrow> kmalloc k n = Some (0, k') \<Longrightarrow> k' = k"
proof (cases "n = 0")
  case True
  then show "kmalloc k n = Some (0, k') \<Longrightarrow> k' = k" by (simp add: kmalloc_def)
next
  case False
  assume wf: "heap_wf k bs" and run: "kmalloc k n = Some (0, k')"
  have "0 < unat n" using False by (simp add: unat_gt_0)
  note mr = kmalloc_run [OF wf this]
  show "k' = k"
  proof (cases "first_fit (unat (KM_ALIGN n)) (unat (heap_base k)) bs")
    case None
    with mr run show ?thesis by simp
  next
    case (Some r)
    with mr run obtain q s where "(0 :: addr) = word_of_nat (q + 4)"
      "(q, s, True) \<in> set (spans (unat (heap_base k)) bs)" by (auto split: prod.splits)
    then have False using heap_wf_span(4) [OF wf] by metis
    then show ?thesis ..
  qed
qed

lemma live_outside_free:
  assumes "(q, s, True) \<in> set (spans p bs)" and "(a, k) \<in> live p bs"
  shows "a + k \<le> q \<or> q + 4 + s + 4 \<le> a"
proof -
  from assms(2) obtain q' where "a = q' + 4" "(q', k, False) \<in> set (spans p bs)"
    by (auto simp: live_def)
  with spans_disjoint [OF assms(1) this(2)] show ?thesis by auto
qed

interpretation heap: allocator heap_wf "\<lambda>k. live (unat (heap_base k))" hmem kmalloc kfree
proof (unfold_locales, goal_cases)
  case (1 k bs n)
  then show ?case using kmalloc_run [OF 1(1,2)] by (auto split: option.splits)
next
  case (2 k bs n k')
  then show ?case by (rule kmalloc_fail)
next
  case (3 k bs n r k')
  from kmalloc_success [OF 3] obtain bs' q s l where *: "heap_wf k' bs'" "unat r = q + 4"
    "(q, s, True) \<in> set (spans (unat (heap_base k)) bs)" "unat n \<le> l" "l \<le> s"
    "live (unat (heap_base k)) bs' = insert (q + 4, l) (live (unat (heap_base k)) bs)"
    "heap_base k' = heap_base k"
    and fr: "\<forall>a. unat a < q \<or> q + 4 + s \<le> unat a \<longrightarrow> hmem k' a = hmem k a" by blast
  note out = live_outside_free [OF *(3)]
  have "4 dvd q + 4" using heap_wf_span(1) [OF 3(1) *(3)] by simp
  moreover have "q + 4 + l < 2 ^ 32" using heap_wf_span(2) [OF 3(1) *(3)] *(5) by simp
  moreover have "a + k0 + 4 \<le> q + 4 \<or> q + 4 + l + 4 \<le> a"
    if "(a, k0) \<in> live (unat (heap_base k)) bs" for a k0
    using out [OF that] *(5) by auto
  moreover have "hmem k' x = hmem k x"
    if "(a, k0) \<in> live (unat (heap_base k)) bs" "a \<le> unat x" "unat x < a + k0" for a k0 x
    using out [OF that(1)] that(2,3) fr by auto
  ultimately show ?case using * by (intro exI [of _ bs'] exI [of _ l]) auto
next
  case (4 k bs p l)
  then obtain q where q: "unat p = q + 4" "(q, l, False) \<in> set (spans (unat (heap_base k)) bs)"
    by (auto simp: live_def)
  have p: "p = word_of_nat (q + 4)" using q(1) by (metis of_nat_unat ucast_id)
  have "heap_base (kfree k p) = heap_base k" by (simp add: kfree_def Let_def)
  moreover have "hmem (kfree k p) x = hmem k x" if "unat x + 4 < unat p \<or> unat p \<le> unat x" for x
    unfolding p using that q by (intro kfree_refines(2) [OF 4(1) q(2)]) auto
  ultimately show ?case
    using kfree_refines(1) [OF 4(1) q(2)] free_block_live [OF q(2)] q(1) unfolding p by auto
qed

subsection \<open>Round trip, zeroing and moving\<close>

fun coalesced :: "block list \<Rightarrow> bool" where
  "coalesced ((s, True) # (s', True) # bs) \<longleftrightarrow> False"
| "coalesced (b # bs) \<longleftrightarrow> coalesced bs"
| "coalesced [] \<longleftrightarrow> True"

lemma coalesced_tl: "coalesced (b # bs) \<Longrightarrow> coalesced bs"
  by (cases "b # bs" rule: coalesced.cases) auto

lemma merge_next_coalesced: "coalesced ((s, True) # bs) \<Longrightarrow> merge_next s bs = (s, True) # bs"
  by (cases "(s, bs)" rule: merge_next.cases) auto

lemma first_fit_free_block:
  "first_fit n p bs = Some (q, bs') \<Longrightarrow> coalesced bs \<Longrightarrow> free_block q p bs' = bs"
proof (induction bs arbitrary: p bs')
  case Nil
  then show ?case by simp
next
  case (Cons b bs)
  obtain s f where b: "b = (s, f)" by (cases b)
  show ?case
  proof (cases "f \<and> n \<le> s")
    case True
    then show ?thesis
      using Cons.prems by (auto simp: b merge_next_coalesced)
  next
    case False
    with Cons.prems obtain bs'' where rec: "first_fit n (p + 4 + s) bs = Some (q, bs'')"
      and bs': "bs' = (s, f) # bs''" by (auto simp: b)
    have "p \<noteq> q" using first_fit_ge [OF rec] by simp
    with Cons.IH [OF rec coalesced_tl [OF Cons.prems(2)]] show ?thesis by (simp add: b bs')
  qed
qed

lemma live_disjoint:
  assumes "(a, l) \<in> live p bs" and "(a', l') \<in> live p bs" and "a \<noteq> a'"
  shows "a + l + 4 \<le> a' \<or> a' + l' + 4 \<le> a"
proof -
  from assms obtain q q' where "a = q + 4" "(q, l, False) \<in> set (spans p bs)"
    "a' = q' + 4" "(q', l', False) \<in> set (spans p bs)"
    by (auto simp: live_def)
  with spans_disjoint [OF this(2,4)] assms(3) show ?thesis by auto
qed

lemma live_bound:
  assumes "heap_wf k bs" and "(a, l) \<in> live (unat (heap_base k)) bs"
  shows "a + l < 2 ^ 32" and "l < 2 ^ 31" and "4 \<le> a"
    and "KM_SIZE (hmem k) (word_of_nat a - HDR_SIZE) = word_of_nat l"
proof -
  from assms(2) obtain q where q: "a = q + 4" "(q, l, False) \<in> set (spans (unat (heap_base k)) bs)"
    by (auto simp: live_def)
  show "a + l < 2 ^ 32" and "4 \<le> a" using heap_wf_span(2) [OF assms(1) q(2)] q(1) by simp_all
  from spans_split [OF q(2)] obtain pre post where bs: "bs = pre @ (l, False) # post"
    and q': "q = unat (heap_base k) + extent pre" by blast
  have at_q: "blocks_at (hmem k) q ((l, False) # post) (unat (heap_base k) + unat (heap_size k))"
    using assms(1) unfolding heap_wf_def bs blocks_at_append q' by blast
  moreover have "unat (heap_size k) < 2 ^ 31" using assms(1) by (simp add: heap_wf_def)
  ultimately show l31: "l < 2 ^ 31" using q' by simp
  have "word_of_nat a - HDR_SIZE = word_of_nat q" by (simp add: q(1) HDR_SIZE_def)
  then show "KM_SIZE (hmem k) (word_of_nat a - HDR_SIZE) = word_of_nat l"
    using KM_read(1) [of "hmem k" q l False] at_q l31 by simp
qed

lemma rd_bytes_cong:
  "(\<And>i. i < n \<Longrightarrow> m (a + word_of_nat i) = m' (b + word_of_nat i)) \<Longrightarrow> rd_bytes m a n = rd_bytes m' b n"
  by (simp add: rd_bytes_def)

lemma rd_bytes_frame:
  assumes "unat a + n \<le> 2 ^ 32" and "\<And>x. unat a \<le> unat x \<Longrightarrow> unat x < unat a + n \<Longrightarrow> m' x = m x"
  shows "rd_bytes m' a n = rd_bytes m a n"
proof (rule rd_bytes_cong)
  fix i assume "i < n"
  with assms(1) have "unat (a + word_of_nat i) = unat a + i" by (intro unat_plus_small) simp
  with \<open>i < n\<close> show "m' (a + word_of_nat i) = m (a + word_of_nat i)" by (intro assms(2)) simp_all
qed

lemma wr_bytes_outside:
  "unat a + length bs \<le> 2 ^ 32 \<Longrightarrow> unat x < unat a \<or> unat a + length bs \<le> unat x \<Longrightarrow> wr_bytes m a bs x = m x"
  by (intro wr_bytes_other unat_diff_ge) auto

lemma krealloc_moves:
  assumes wf: "heap_wf k bs" and blk: "(unat p, l) \<in> live (unat (heap_base k)) bs"
    and n: "0 < unat n" "unat n + 3 < 2 ^ 32" and big: "\<not> KM_ALIGN n \<le> word_of_nat l"
    and run: "krealloc k p n = Some (r, k')" and r: "r \<noteq> 0"
  shows "\<exists>bs'. heap_wf k' bs' \<and> rd_bytes (hmem k') r l = rd_bytes (hmem k) p l"
proof -
  note lb = live_bound [OF wf blk]
  have old: "KM_SIZE (hmem k) (p - HDR_SIZE) = word_of_nat l" using lb(4) by simp
  have ul: "unat (word_of_nat l :: u32) = l" using lb(2) by (simp add: unat_of_nat32)
  have nz: "p \<noteq> 0" "n \<noteq> 0" using lb(3) n by auto
  with run r big obtain k1 where al: "kmalloc k n = Some (r, k1)"
    and k': "k' = kfree (k1\<lparr>hmem := snd (memcpy (hmem k1) r p (word_of_nat l))\<rparr>) p"
    by (auto simp: krealloc_def Let_def old split: if_splits)
  from kmalloc_success [OF wf n al r] obtain bs1 l1 where k1: "heap_wf k1 bs1" "unat (KM_ALIGN n) \<le> l1"
    "live (unat (heap_base k)) bs1 = insert (unat r, l1) (live (unat (heap_base k)) bs)"
    "heap_base k1 = heap_base k" by (metis (no_types, lifting))
  have ll1: "l < l1" using big k1(2) ul by (simp add: word_le_nat_alt)
  from heap.alloc_ok [OF wf n al r] blk
  have apart: "unat p + l + 4 \<le> unat r \<or> unat r + unat n + 4 \<le> unat p"
    and keep: "\<And>x. unat p \<le> unat x \<Longrightarrow> unat x < unat p + l \<Longrightarrow> hmem k1 x = hmem k x" by fastforce+
  have in1: "(unat r, l1) \<in> live (unat (heap_base k1)) bs1" "(unat p, l) \<in> live (unat (heap_base k1)) bs1"
    using k1 blk by simp_all
  have dj: "unat p + l + 4 \<le> unat r \<or> unat r + l1 + 4 \<le> unat p"
    using live_disjoint [OF in1(2,1)] apart by auto
  define m2 where "m2 = snd (memcpy (hmem k1) r p (word_of_nat l))"
  have rl: "unat r + l1 < 2 ^ 32" using live_bound(1) [OF k1(1) in1(1)] .
  have "l \<le> unat (r - p)" using dj ll1 lb(1) rl by (intro unat_diff_ge) auto
  then have m2: "m2 = wr_bytes (hmem k1) r (rd_bytes (hmem k1) p l)"
    by (simp add: m2_def memcpy_eq ul)
  have wf2: "heap_wf (k1\<lparr>hmem := m2\<rparr>) bs1"
    using k1(1) in1(1) by (rule heap_wf_data_write) (use rl ll1 in \<open>auto simp: m2 intro!: wr_bytes_outside\<close>)
  have in2: "(unat p, l) \<in> live (unat (heap_base (k1\<lparr>hmem := m2\<rparr>))) bs1" using in1(2) by simp
  from heap.release_ok [OF wf2 in2] obtain bs2 where wf': "heap_wf k' bs2"
    and fr: "\<forall>x. unat x + 4 < unat p \<or> unat p \<le> unat x \<longrightarrow> hmem k' x = m2 x"
    by (auto simp: k' m2_def)
  have "rd_bytes (hmem k') r l = rd_bytes m2 r l"
    using rl ll1 dj fr by (intro rd_bytes_frame) auto
  also have "\<dots> = rd_bytes (hmem k1) p l"
    using rd_wr_bytes [of "rd_bytes (hmem k1) p l" "hmem k1" r] lb(2) by (simp add: m2)
  also have "\<dots> = rd_bytes (hmem k) p l"
    using lb(1) keep by (intro rd_bytes_frame) auto
  finally show ?thesis using wf' by blast
qed

lemma krealloc_in_place:
  assumes "KM_ALIGN n \<le> KM_SIZE (hmem k) (p - HDR_SIZE)" and "p \<noteq> 0" and "n \<noteq> 0"
  shows "krealloc k p n = Some (p, k)"
  using assms by (simp add: krealloc_def Let_def)

subsection \<open>The heap of the kernel\<close>

text \<open>kernel.c gives the allocator the 32 KB at 0x92000; the memory before is arbitrary.\<close>

definition boot_heap :: "mem \<Rightarrow> kheap" where
  "boot_heap m = kmalloc_init \<lparr>heap_base = 0, heap_size = 0, hmem = m\<rparr> 0x92000 0x8000"

lemma kmalloc_init_rep:
  assumes "base \<noteq> 0" "4 dvd unat base" "4 dvd unat sz" "4 \<le> unat sz" "unat sz < 2 ^ 31"
    and "unat base + unat sz < 2 ^ 32"
  shows "heap_wf (kmalloc_init k base sz) [(unat sz - 4, True)]"
proof -
  have "(sz - HDR_SIZE) = word_of_nat (unat sz - 4)"
    using assms(4) by (simp add: HDR_SIZE_def of_nat_diff)
  moreover have "4 dvd unat sz - 4" using assms(3) by simp
  ultimately show ?thesis using assms by (simp add: heap_wf_def kmalloc_init_def)
qed

lemma boot_heap_wf: "heap_wf (boot_heap m) [(32764, True)]"
  using kmalloc_init_rep [of "0x92000" "0x8000"] by (simp add: boot_heap_def)

lemma boot_heap_base: "heap_base (boot_heap m) = 0x92000"
  by (simp add: boot_heap_def kmalloc_init_def)

lemma KM_ALIGN_100: "KM_ALIGN 100 = 100" by (simp add: KM_ALIGN_def)

lemma boot_kmalloc_100:
  "\<exists>m'. kmalloc (boot_heap m) 100 = Some (0x92004, (boot_heap m)\<lparr>hmem := m'\<rparr>)
     \<and> heap_wf ((boot_heap m)\<lparr>hmem := m'\<rparr>) [(100, False), (32660, True)]"
  using kmalloc_run [OF boot_heap_wf [of m], of 100] by (auto simp: KM_ALIGN_100 boot_heap_base)

subsection \<open>Properties\<close>

text \<open>
  Claim C2. On a well-formed heap, kmalloc of a size that KM_ALIGN does not overflow returns, and
  implements first fit on the block list: it answers NULL and changes nothing when no free block
  is large enough, and otherwise returns the data address of the first fitting block, split when
  at least 20 bytes are left over; the new heap is well formed again and only bytes inside the
  chosen free block changed.
\<close>

theorem kmalloc_refines_first_fit:
  assumes "heap_wf k bs" and "0 < unat n" and "unat n + 3 < 2 ^ 32"
  shows "case first_fit (4 * ((unat n + 3) div 4)) (unat (heap_base k)) bs of
      None \<Rightarrow> kmalloc k n = Some (0, k)
    | Some (q, bs') \<Rightarrow> \<exists>m' s. kmalloc k n = Some (word_of_nat (q + 4), k\<lparr>hmem := m'\<rparr>)
        \<and> heap_wf (k\<lparr>hmem := m'\<rparr>) bs' \<and> (q, s, True) \<in> set (spans (unat (heap_base k)) bs)
        \<and> (\<forall>a. unat a < q \<or> q + 4 + s \<le> unat a \<longrightarrow> m' a = hmem k a)"
proof -
  have "unat (n + 3) = unat n + 3" using assms(3) by (simp add: unat_word_ariths)
  then have "unat (KM_ALIGN n) = 4 * ((unat n + 3) div 4)"
    unfolding KM_ALIGN_def and_not_3 by (simp add: minus_mod_eq_mult_div)
  with kmalloc_run [OF assms(1,2)] show ?thesis by simp
qed

theorem kmalloc_refines_first_fit_witness:
  "\<exists>m'. kmalloc (boot_heap (\<lambda>_. 0)) 98 = Some (0x92004, (boot_heap (\<lambda>_. 0))\<lparr>hmem := m'\<rparr>)
     \<and> heap_wf ((boot_heap (\<lambda>_. 0))\<lparr>hmem := m'\<rparr>) [(100, False), (32660, True)]"
  using kmalloc_refines_first_fit [OF boot_heap_wf [of "\<lambda>_. 0"], of 98] by (auto simp: boot_heap_base)

text \<open>
  Claim C13. kfree of the data address of a block implements freeing it in the block list and merging
  it with the next block when that one is free; it writes the 4 header bytes of the block and no
  other byte.
\<close>

theorem kfree_refines_free_block:
  assumes "heap_wf k bs" and "(q, s, f) \<in> set (spans (unat (heap_base k)) bs)"
  shows "heap_wf (kfree k (word_of_nat (q + 4))) (free_block q (unat (heap_base k)) bs)
    \<and> (\<forall>a. unat a < q \<or> q + 4 \<le> unat a \<longrightarrow> hmem (kfree k (word_of_nat (q + 4))) a = hmem k a)"
  using kfree_refines [OF assms] by blast

theorem kfree_refines_free_block_witness:
  "\<exists>k. heap_wf k [(100, False), (32660, True)] \<and> heap_wf (kfree k 0x92004) [(32764, True)]"
proof -
  obtain m' where wf: "heap_wf ((boot_heap (\<lambda>_. 0))\<lparr>hmem := m'\<rparr>) [(100, False), (32660, True)]"
    using boot_kmalloc_100 [of "\<lambda>_. 0"] by blast
  have "(0x92000, 100, False) \<in> set (spans (unat (heap_base ((boot_heap (\<lambda>_. 0))\<lparr>hmem := m'\<rparr>)))
      [(100, False), (32660, True)])" by (simp add: boot_heap_base)
  from kfree_refines_free_block [OF wf this] wf show ?thesis
    by (intro exI conjI) (auto simp: boot_heap_base)
qed

text \<open>
  Claim C4. Safety of allocation: the block kmalloc returns is 4-byte aligned, does not wrap round
  the address space, overlaps no live block nor its header, and the bytes of every live block are
  the ones they were before the call.
\<close>

theorem kmalloc_disjoint_from_live:
  assumes "heap_wf k bs" and "0 < unat n" and "unat n + 3 < 2 ^ 32"
    and "kmalloc k n = Some (r, k')" and "r \<noteq> 0"
    and "(a, l) \<in> live (unat (heap_base k)) bs"
  shows "4 dvd unat r \<and> unat r + unat n < 2 ^ 32
    \<and> (a + l + 4 \<le> unat r \<or> unat r + unat n + 4 \<le> a)
    \<and> (\<forall>x. a \<le> unat x \<and> unat x < a + l \<longrightarrow> hmem k' x = hmem k x)"
  using heap.alloc_ok [OF assms(1-5)] assms(6) by fastforce

theorem kmalloc_disjoint_from_live_witness:
  "\<exists>k r k'. kmalloc k 100 = Some (r, k') \<and> r \<noteq> 0 \<and> (0x92004, 100) \<in> live (unat (heap_base k)) [(100, False), (32660, True)]
     \<and> (0x92004 + 100 + 4 \<le> unat r \<or> unat r + 100 + 4 \<le> 0x92004)"
proof -
  obtain m' where wf: "heap_wf ((boot_heap (\<lambda>_. 0))\<lparr>hmem := m'\<rparr>) [(100, False), (32660, True)]"
    using boot_kmalloc_100 [of "\<lambda>_. 0"] by blast
  let ?k = "(boot_heap (\<lambda>_. 0))\<lparr>hmem := m'\<rparr>"
  have b: "heap_base ?k = 0x92000" by (simp add: boot_heap_base)
  have al: "\<exists>k'. kmalloc ?k 100 = Some (0x9206C, k')"
    using kmalloc_run [OF wf, of 100] by (auto simp: KM_ALIGN_100 boot_heap_base)
  then obtain k' where k': "kmalloc ?k 100 = Some (0x9206C, k')" by blast
  have lv: "(0x92004, 100) \<in> live (unat (heap_base ?k)) [(100, False), (32660, True)]"
    unfolding b by (simp add: live_Cons)
  from kmalloc_disjoint_from_live [OF wf _ _ k' _ lv] k' lv show ?thesis
    by (intro exI [of _ ?k] exI [of _ "0x9206C"] exI [of _ k']) simp
qed

text \<open>
  Claim C19. Allocate then free is the identity on the block list of a heap without two adjacent free
  blocks: a split block is merged back into the block it came from.
\<close>

theorem kmalloc_kfree_roundtrip:
  assumes "heap_wf k bs" and "coalesced bs" and "0 < unat n" and "unat n + 3 < 2 ^ 32"
    and "kmalloc k n = Some (r, k')" and "r \<noteq> 0"
  shows "heap_wf (kfree k' r) bs"
proof -
  from kmalloc_success [OF assms(1,3-6)] obtain bs' q l where *: "heap_wf k' bs'"
    "first_fit (unat (KM_ALIGN n)) (unat (heap_base k)) bs = Some (q, bs')" "unat r = q + 4"
    "live (unat (heap_base k)) bs' = insert (q + 4, l) (live (unat (heap_base k)) bs)"
    "heap_base k' = heap_base k" by blast
  then have "(q + 4, l) \<in> live (unat (heap_base k')) bs'" by simp
  then have sp: "(q, l, False) \<in> set (spans (unat (heap_base k')) bs')" by (simp add: live_def)
  have "r = word_of_nat (q + 4)" using *(3) by (metis of_nat_unat ucast_id)
  with kfree_refines(1) [OF *(1) sp] first_fit_free_block [OF *(2) assms(2)] *(5)
  show ?thesis by simp
qed

theorem kmalloc_kfree_roundtrip_witness:
  "\<exists>k'. kmalloc (boot_heap (\<lambda>_. 0)) 100 = Some (0x92004, k') \<and> heap_wf (kfree k' 0x92004) [(32764, True)]"
proof -
  obtain k' where k': "kmalloc (boot_heap (\<lambda>_. 0)) 100 = Some (0x92004, k')"
    using boot_kmalloc_100 [of "\<lambda>_. 0"] by blast
  from kmalloc_kfree_roundtrip [OF boot_heap_wf _ _ _ k'] k' show ?thesis by auto
qed

text \<open>
  Claim C38. krealloc of a live block keeps the contents: when it answers a pointer, the first bytes
  at that pointer, up to the smaller of the old block and the new request, are the bytes of the old
  block, whether the block grew in place or moved; and the heap is well formed again.
\<close>

theorem krealloc_keeps_contents:
  assumes "heap_wf k bs" and "(unat p, l) \<in> live (unat (heap_base k)) bs"
    and "0 < unat n" and "unat n + 3 < 2 ^ 32" and "krealloc k p n = Some (r, k')" and "r \<noteq> 0"
  shows "(\<exists>bs'. heap_wf k' bs')
    \<and> rd_bytes (hmem k') r (min l (unat n)) = rd_bytes (hmem k) p (min l (unat n))"
proof (cases "KM_ALIGN n \<le> word_of_nat l")
  case True
  note lb = live_bound [OF assms(1,2)]
  have "p \<noteq> 0" "n \<noteq> 0" using lb(3) assms(3) by auto
  moreover have "KM_ALIGN n \<le> KM_SIZE (hmem k) (p - HDR_SIZE)" using True lb(4) by simp
  ultimately have "r = p" "k' = k" using krealloc_in_place [of n k p] assms(5) by simp_all
  with assms(1) show ?thesis by blast
next
  case False
  from krealloc_moves [OF assms(1-4) False assms(5,6)] obtain bs' where "heap_wf k' bs'"
    and eq: "rd_bytes (hmem k') r l = rd_bytes (hmem k) p l" by blast
  moreover have "rd_bytes m a (min l j) = take j (rd_bytes m a l)" for m :: mem and a j
    by (auto intro: nth_equalityI)
  ultimately show ?thesis by auto
qed

theorem krealloc_keeps_contents_witness:
  "\<exists>k r k'. krealloc k 0x92004 200 = Some (r, k') \<and> r = 0x9206C
     \<and> rd_bytes (hmem k') r 100 = rd_bytes (hmem k) 0x92004 100"
proof -
  obtain m' where wf: "heap_wf ((boot_heap (\<lambda>_. 0))\<lparr>hmem := m'\<rparr>) [(100, False), (32660, True)]"
    using boot_kmalloc_100 [of "\<lambda>_. 0"] by blast
  let ?k = "(boot_heap (\<lambda>_. 0))\<lparr>hmem := m'\<rparr>"
  have lv: "(unat (0x92004 :: addr), 100) \<in> live (unat (heap_base ?k)) [(100, False), (32660, True)]"
    by (simp add: live_Cons boot_heap_base)
  have a200: "KM_ALIGN 200 = 200" by (simp add: KM_ALIGN_def)
  obtain k1 where al: "kmalloc ?k 200 = Some (0x9206C, k1)"
    using kmalloc_run [OF wf, of 200] by (auto simp: a200 boot_heap_base)
  have "KM_SIZE (hmem ?k) (0x92004 - HDR_SIZE) = 100" using live_bound(4) [OF wf lv] by simp
  with al a200 have run: "\<exists>k'. krealloc ?k 0x92004 200 = Some (0x9206C, k')"
    by (simp add: krealloc_def Let_def)
  then obtain k' where k': "krealloc ?k 0x92004 200 = Some (0x9206C, k')" by blast
  from krealloc_keeps_contents [OF wf lv _ _ k'] k' show ?thesis
    by (intro exI [of _ ?k] exI [of _ "0x9206C"] exI [of _ k']) simp
qed

text \<open>
  kcalloc returns a block of zero bytes, as long as the product of its two arguments as a
  32-bit number is a size kmalloc accepts; the heap stays well formed.
\<close>

theorem kcalloc_zeroes:
  assumes "heap_wf k bs" and "0 < unat (nmemb * sz)" and "unat (nmemb * sz) + 3 < 2 ^ 32"
    and "kcalloc k nmemb sz = Some (r, k')" and "r \<noteq> 0"
  shows "rd_bytes (hmem k') r (unat (nmemb * sz)) = replicate (unat (nmemb * sz)) 0
    \<and> (\<exists>bs'. heap_wf k' bs')"
proof -
  let ?n = "unat (nmemb * sz)"
  from assms(4,5) obtain k1 where al: "kmalloc k (nmemb * sz) = Some (r, k1)"
    and k': "k' = k1\<lparr>hmem := memset (hmem k1) r 0 (nmemb * sz)\<rparr>"
    by (auto simp: kcalloc_def Let_def split: if_splits)
  from kmalloc_success [OF assms(1-3) al assms(5)] obtain bs1 l where k1: "heap_wf k1 bs1" "?n \<le> l"
    "(unat r, l) \<in> live (unat (heap_base k1)) bs1" by (metis (no_types, lifting) insertI1)
  have rl: "unat r + l < 2 ^ 32" using live_bound(1) [OF k1(1,3)] .
  have m: "memset (hmem k1) r 0 (nmemb * sz) = wr_bytes (hmem k1) r (replicate ?n 0)"
    by (simp add: memset_eq)
  have "heap_wf k' bs1"
    unfolding k' m using k1(1,3)
    by (rule heap_wf_data_write) (use rl k1(2) in \<open>auto intro!: wr_bytes_outside\<close>)
  then show ?thesis
    using rd_wr_bytes [of "replicate ?n 0" "hmem k1" r] by (auto simp: k' m)
qed

theorem kcalloc_zeroes_witness:
  "\<exists>k'. kcalloc (boot_heap (\<lambda>_. 7)) 25 4 = Some (0x92004, k')
     \<and> rd_bytes (hmem k') 0x92004 100 = replicate 100 0"
proof -
  obtain k1 where "kmalloc (boot_heap (\<lambda>_. 7)) 100 = Some (0x92004, k1)"
    using boot_kmalloc_100 [of "\<lambda>_. 7"] by blast
  then obtain k' where k': "kcalloc (boot_heap (\<lambda>_. 7)) 25 4 = Some (0x92004, k')"
    by (simp add: kcalloc_def Let_def)
  from kcalloc_zeroes [OF boot_heap_wf _ _ k'] k' show ?thesis by simp
qed

text \<open>
  The alignment of kmalloc overflows for the three largest sizes: a request of 2^32 - 3
  bytes or more is rounded up to 0 and is answered with a block of the heap instead of NULL,
  whenever the heap has any free block.
\<close>

theorem kmalloc_huge_request_succeeds:
  assumes "heap_wf k bs" and "2 ^ 32 - 3 \<le> unat n"
    and "(q, s, True) \<in> set (spans (unat (heap_base k)) bs)"
  shows "\<exists>r k'. kmalloc k n = Some (r, k') \<and> r \<noteq> 0"
proof -
  have "n = 0xFFFFFFFD \<or> n = 0xFFFFFFFE \<or> n = 0xFFFFFFFF"
  proof -
    have ge: "4294967293 \<le> unat n" using assms(2) by simp
    have "unat n = 0xFFFFFFFD \<or> unat n = 0xFFFFFFFE \<or> unat n = 0xFFFFFFFF"
      using ge unat_less32 [of n] by arith
    then show ?thesis by (auto simp: word_unat_eq_iff)
  qed
  then have al: "KM_ALIGN n = 0" by (auto simp: KM_ALIGN_def)
  have "0 < unat n" using assms(2) by simp
  note run = kmalloc_run [OF assms(1) this]
  have "first_fit 0 (unat (heap_base k)) bs \<noteq> None"
    using assms(3) unfolding first_fit_None by fastforce
  with run al obtain q' bs' m' s' where "kmalloc k n = Some (word_of_nat (q' + 4), k\<lparr>hmem := m'\<rparr>)"
    "(q', s', True) \<in> set (spans (unat (heap_base k)) bs)" by auto
  with heap_wf_span(4) [OF assms(1)] show ?thesis by blast
qed

theorem kmalloc_huge_request_succeeds_witness:
  "\<exists>r k'. kmalloc (boot_heap (\<lambda>_. 0)) 0xFFFFFFFF = Some (r, k') \<and> r \<noteq> 0"
  by (rule kmalloc_huge_request_succeeds [OF boot_heap_wf]) (simp_all add: boot_heap_base)

end
