(* ===== verification/KString.thy ===== *)
theory KString
  imports KMem Kmalloc "HOL-Library.List_Lexorder" "HOL-Library.Sublist"
begin

text \<open>
  The string routines of lib/string over the flat byte memory. A loop that runs until a null byte
  is a partial function (\<open>None\<close>: there is no null byte it can reach); a loop bounded by a count is a
  recursion on the count. \<open>char\<close> is signed on this compiler: where the source compares characters as
  they are, the model compares their \<open>sint\<close>; equality of characters needs no reading.

  \<open>cstr m a s\<close> says that memory holds the string \<open>s\<close> (bytes without the terminator) at \<open>a\<close>.
\<close>

subsection \<open>Length\<close>

partial_function (option) strlen_loop :: "mem \<Rightarrow> addr \<Rightarrow> u32 \<Rightarrow> u32 option" where
  "strlen_loop m str len = (if m str \<noteq> 0 then strlen_loop m (str + 1) (len + 1) else Some len)"

definition strlen :: "mem \<Rightarrow> addr \<Rightarrow> u32 option" where
  "strlen m str = strlen_loop m str 0"

primrec strnlen_loop :: "mem \<Rightarrow> addr \<Rightarrow> u32 \<Rightarrow> nat \<Rightarrow> u32" where
  "strnlen_loop m str i 0 = i"
| "strnlen_loop m str i (Suc k) = (if m (str + i) \<noteq> 0 then strnlen_loop m str (i + 1) k else i)"

definition strnlen :: "mem \<Rightarrow> addr \<Rightarrow> u32 \<Rightarrow> u32" where
  "strnlen m str maxlen = strnlen_loop m str 0 (unat maxlen)"

subsection \<open>Comparison\<close>

partial_function (option) strcmp :: "mem \<Rightarrow> addr \<Rightarrow> addr \<Rightarrow> int option" where
  "strcmp m s1 s2 =
     (if m s1 \<noteq> 0 \<and> m s1 = m s2 then strcmp m (s1 + 1) (s2 + 1) else Some (uint (m s1) - uint (m s2)))"

primrec strncmp_loop :: "mem \<Rightarrow> addr \<Rightarrow> addr \<Rightarrow> nat \<Rightarrow> int" where
  "strncmp_loop m str1 str2 0 = 0"
| "strncmp_loop m str1 str2 (Suc n) =
     (if sint (m str1) > sint (m str2) then 1
      else if sint (m str1) < sint (m str2) then - 1
      else if m str1 = m str2 \<and> m str1 = 0 then 0
      else strncmp_loop m (str1 + 1) (str2 + 1) n)"

definition strncmp :: "mem \<Rightarrow> addr \<Rightarrow> addr \<Rightarrow> u32 \<Rightarrow> int" where
  "strncmp m str1 str2 n = strncmp_loop m str1 str2 (unat n)"

subsection \<open>Search\<close>

partial_function (option) strchr :: "mem \<Rightarrow> addr \<Rightarrow> int \<Rightarrow> addr option" where
  "strchr m str ch =
     (if m str \<noteq> 0 then (if sint (m str) = ch then Some str else strchr m (str + 1) ch) else Some 0)"

partial_function (option) strrchr_loop :: "mem \<Rightarrow> addr \<Rightarrow> int \<Rightarrow> addr \<Rightarrow> addr option" where
  "strrchr_loop m str ch pos =
     (if m str \<noteq> 0 then strrchr_loop m (str + 1) ch (if sint (m str) = ch then str else pos) else Some pos)"

definition strrchr :: "mem \<Rightarrow> addr \<Rightarrow> int \<Rightarrow> addr option" where
  "strrchr m str ch = strrchr_loop m str ch 0"

text \<open>\<open>_search\<close> of strspn.c; the inner loop of strcspn.c is the same search.\<close>

partial_function (option) search :: "mem \<Rightarrow> addr \<Rightarrow> u8 \<Rightarrow> bool option" where
  "search m str2 ch =
     (if m str2 \<noteq> 0 then (if m str2 = ch then Some True else search m (str2 + 1) ch) else Some False)"

partial_function (option) strspn_loop :: "mem \<Rightarrow> addr \<Rightarrow> addr \<Rightarrow> u32 \<Rightarrow> u32 option" where
  "strspn_loop m str1 str2 i =
     (if m (str1 + i) \<noteq> 0
      then Option.bind (search m str2 (m (str1 + i)))
             (\<lambda>found. if found then strspn_loop m str1 str2 (i + 1) else Some i)
      else Some i)"

definition strspn :: "mem \<Rightarrow> addr \<Rightarrow> addr \<Rightarrow> u32 option" where
  "strspn m str1 str2 = strspn_loop m str1 str2 0"

partial_function (option) strcspn_loop :: "mem \<Rightarrow> addr \<Rightarrow> addr \<Rightarrow> addr \<Rightarrow> u32 option" where
  "strcspn_loop m s p reject =
     (if m p \<noteq> 0
      then Option.bind (search m reject (m p))
             (\<lambda>found. if found then Some (p - s) else strcspn_loop m s (p + 1) reject)
      else Some (p - s))"

definition strcspn :: "mem \<Rightarrow> addr \<Rightarrow> addr \<Rightarrow> u32 option" where
  "strcspn m s reject = strcspn_loop m s s reject"

partial_function (option) compare_prefix :: "mem \<Rightarrow> addr \<Rightarrow> addr \<Rightarrow> bool option" where
  "compare_prefix m str1 str2 =
     (if m str1 \<noteq> 0 \<and> m str2 \<noteq> 0
      then (if m str1 \<noteq> m str2 then Some False else compare_prefix m (str1 + 1) (str2 + 1))
      else Some True)"

partial_function (option) strstr :: "mem \<Rightarrow> addr \<Rightarrow> addr \<Rightarrow> addr option" where
  "strstr m str1 str2 =
     (if m str1 \<noteq> 0
      then Option.bind (compare_prefix m str1 str2) (\<lambda>c. if c then Some str1 else strstr m (str1 + 1) str2)
      else Some 0)"

subsection \<open>Copies\<close>

partial_function (option) strcpy_loop :: "mem \<Rightarrow> addr \<Rightarrow> addr \<Rightarrow> mem option" where
  "strcpy_loop m d src =
     (if m src \<noteq> 0 then strcpy_loop (m(d := m src)) (d + 1) (src + 1) else Some (m(d := 0)))"

definition strcpy :: "mem \<Rightarrow> addr \<Rightarrow> addr \<Rightarrow> (addr \<times> mem) option" where
  "strcpy m dest src = map_option (Pair dest) (strcpy_loop m dest src)"

partial_function (option) find_end :: "mem \<Rightarrow> addr \<Rightarrow> addr option" where
  "find_end m dest = (if m dest \<noteq> 0 then find_end m (dest + 1) else Some dest)"

partial_function (option) copy_string :: "mem \<Rightarrow> addr \<Rightarrow> addr \<Rightarrow> mem option" where
  "copy_string m dest src =
     (let c = m src; m' = m(dest := c)
      in if c \<noteq> 0 then copy_string m' (dest + 1) (src + 1) else Some m')"

definition strcat :: "mem \<Rightarrow> addr \<Rightarrow> addr \<Rightarrow> (addr \<times> mem) option" where
  "strcat m dest src =
     Option.bind (find_end m dest) (\<lambda>e. map_option (Pair dest) (copy_string m e src))"

primrec strncpy_loop :: "mem \<Rightarrow> addr \<Rightarrow> addr \<Rightarrow> nat \<Rightarrow> mem" where
  "strncpy_loop m d src 0 = m"
| "strncpy_loop m d src (Suc n) = strncpy_loop (m(d := m src)) (d + 1) (src + 1) n"

definition strncpy :: "mem \<Rightarrow> addr \<Rightarrow> addr \<Rightarrow> u32 \<Rightarrow> addr \<times> mem" where
  "strncpy m dest src n = (dest, strncpy_loop m dest src (unat n))"

primrec strncat_loop :: "mem \<Rightarrow> addr \<Rightarrow> addr \<Rightarrow> nat \<Rightarrow> mem" where
  "strncat_loop m dest src 0 = m"
| "strncat_loop m dest src (Suc n) =
     (if m src \<noteq> 0 then strncat_loop (m(dest := m src)) (dest + 1) (src + 1) n else m(dest := 0))"

definition strncat :: "mem \<Rightarrow> addr \<Rightarrow> addr \<Rightarrow> u32 \<Rightarrow> (addr \<times> mem) option" where
  "strncat m dest src n =
     map_option (\<lambda>e. (dest, strncat_loop m e src (unat n))) (find_end m dest)"

definition strdup :: "kheap \<Rightarrow> addr \<Rightarrow> (addr \<times> kheap) option" where
  "strdup k s =
     (case strlen (hmem k) s of None \<Rightarrow> None
      | Some n \<Rightarrow>
          (let len = n + 1 in
           map_option (\<lambda>(new, k'). if new = 0 then (0, k')
               else (case memcpy (hmem k') new s len of (r, m') \<Rightarrow> (r, k'\<lparr>hmem := m'\<rparr>)))
             (kmalloc k len)))"

definition strndup :: "kheap \<Rightarrow> addr \<Rightarrow> u32 \<Rightarrow> (addr \<times> kheap) option" where
  "strndup k s n =
     (let len = strnlen (hmem k) s n in
      map_option (\<lambda>(new, k'). if new = 0 then (0, k')
          else (new, k'\<lparr>hmem := (snd (memcpy (hmem k') new s len))(new + len := 0)\<rparr>))
        (kmalloc k (len + 1)))"

subsection \<open>Tokens\<close>

text \<open>The state is the static pointer \<open>p\<close> (0 is NULL) and the memory. The scan walks \<open>p\<close> to the first
  delimiter, which it overwrites, or to the end of the string.\<close>

partial_function (option) tok_scan :: "mem \<Rightarrow> addr \<Rightarrow> addr \<Rightarrow> (addr \<times> bool) option" where
  "tok_scan m p delim =
     (if m p \<noteq> 0
      then Option.bind (search m delim (m p)) (\<lambda>found. if found then Some (p, True) else tok_scan m (p + 1) delim)
      else Some (p, False))"

definition strtok :: "mem \<Rightarrow> addr \<Rightarrow> addr \<Rightarrow> addr \<Rightarrow> (addr \<times> addr \<times> mem) option" where
  "strtok m p0 str delim =
     (let p = (if str \<noteq> 0 then str else p0) in
      if p = 0 then Some (0, p, m)
      else case tok_scan m p delim of None \<Rightarrow> None
        | Some (q, True) \<Rightarrow> Some (p, q + 1, m(q := 0))
        | Some (q, False) \<Rightarrow> Some (if p = q then 0 else p, q, m))"

definition strerror :: "int \<Rightarrow> string" where
  "strerror errnum =
     (if errnum < 0 \<or> errnum \<ge> 3 then ''Unknown error''
      else [''Success'', ''Operation not permitted'', ''No such file or directory''] ! nat errnum)"

subsection \<open>Strings in memory\<close>

fun cstr :: "mem \<Rightarrow> addr \<Rightarrow> u8 list \<Rightarrow> bool" where
  "cstr m a [] \<longleftrightarrow> m a = 0"
| "cstr m a (c # cs) \<longleftrightarrow> m a = c \<and> c \<noteq> 0 \<and> cstr m (a + 1) cs"

lemma cstr_head: "cstr m a s \<Longrightarrow> m a \<noteq> 0 \<longleftrightarrow> s \<noteq> []"
  by (cases s) auto

lemma cstr_nonzero: "cstr m a s \<Longrightarrow> 0 \<notin> set s"
  by (induction s arbitrary: a) auto

subsection \<open>Loops that end at the terminator\<close>

lemma strlen_loop_cstr: "cstr m a s \<Longrightarrow> strlen_loop m a n = Some (n + word_of_nat (length s))"
proof (induction s arbitrary: a n)
  case Nil
  then show ?case by (subst strlen_loop.simps) simp
next
  case (Cons c s)
  then show ?case by (subst strlen_loop.simps) (simp add: add.assoc)
qed

lemma strlen_cstr: "cstr m a s \<Longrightarrow> strlen m a = Some (word_of_nat (length s))"
  by (simp add: strlen_def strlen_loop_cstr)

lemma find_end_cstr: "cstr m a s \<Longrightarrow> find_end m a = Some (a + word_of_nat (length s))"
proof (induction s arbitrary: a)
  case Nil
  then show ?case by (subst find_end.simps) simp
next
  case (Cons c s)
  then show ?case by (subst find_end.simps) (simp add: add.assoc)
qed

lemma search_cstr: "cstr m a t \<Longrightarrow> search m a ch = Some (ch \<in> set t)"
proof (induction t arbitrary: a)
  case Nil
  then show ?case by (subst search.simps) simp
next
  case (Cons c t)
  then show ?case by (subst search.simps) auto
qed

lemma strcmp_cstr:
  "cstr m a s \<Longrightarrow> cstr m b t \<Longrightarrow>
    \<exists>r. strcmp m a b = Some r \<and> (r = 0 \<longleftrightarrow> s = t) \<and> (r < 0 \<longleftrightarrow> s < t)"
proof (induction s arbitrary: a b t)
  case Nil
  have "strcmp m a b = Some (uint (m a) - uint (m b))" using Nil by (subst strcmp.simps) simp
  moreover have "uint (m b) \<noteq> 0 \<longleftrightarrow> t \<noteq> []" using cstr_head [OF Nil(2)] by (simp add: uint_0_iff)
  ultimately show ?case using Nil(1) uint_ge_0 [of "m b"]
    by (cases t) (auto simp: order.strict_iff_order [of 0 "uint (m b)"])
next
  case (Cons c s)
  show ?case
  proof (cases "t \<noteq> [] \<and> hd t = c")
    case True
    then obtain t' where t: "t = c # t'" by (cases t) auto
    have "strcmp m a b = strcmp m (a + 1) (b + 1)" using Cons.prems t by (subst strcmp.simps) simp
    then show ?thesis using Cons.IH [of "a + 1" "b + 1" t'] Cons.prems t by simp
  next
    case False
    have ne: "c \<noteq> m b" using Cons.prems False by (cases t) auto
    have r: "strcmp m a b = Some (uint c - uint (m b))"
      using Cons.prems ne by (subst strcmp.simps) simp
    have "uint c \<noteq> uint (m b)" using ne by (simp add: word_uint_eq_iff)
    moreover have "uint c - uint (m b) < 0 \<longleftrightarrow> c # s < t"
      using Cons.prems False ne by (cases t) (auto simp: word_less_def uint_0_iff not_less)
    moreover have "c # s \<noteq> t" using False by auto
    ultimately show ?thesis using r by simp
  qed
qed

lemma compare_prefix_cstr:
  "cstr m a s \<Longrightarrow> cstr m b t \<Longrightarrow> compare_prefix m a b = Some (prefix s t \<or> prefix t s)"
proof (induction s arbitrary: a b t)
  case Nil
  then show ?case by (subst compare_prefix.simps) simp
next
  case (Cons c s)
  show ?case
  proof (cases t)
    case Nil
    then show ?thesis using Cons.prems by (subst compare_prefix.simps) simp
  next
    case (Cons d t')
    then show ?thesis using Cons.prems Cons.IH [of "a + 1" "b + 1" t']
      by (subst compare_prefix.simps) auto
  qed
qed

lemma cstr_append:
  "cstr m a (s @ t) \<longleftrightarrow> rd_bytes m a (length s) = s \<and> 0 \<notin> set s \<and> cstr m (a + word_of_nat (length s)) t"
proof (induction s arbitrary: a)
  case (Cons c s)
  then show ?case by (auto simp: rd_bytes_Suc add.assoc)
qed simp

lemma cstr_cong:
  "(\<And>i. i \<le> length s \<Longrightarrow> m' (a + word_of_nat i) = m (a + word_of_nat i)) \<Longrightarrow> cstr m' a s = cstr m a s"
proof (induction s arbitrary: a)
  case Nil
  then show ?case by (auto dest: meta_spec [of _ 0])
next
  case (Cons c s)
  have "m' a = m a" using Cons.prems [of 0] by simp
  moreover have "cstr m' (a + 1) s = cstr m (a + 1) s"
  proof (rule Cons.IH)
    fix i assume "i \<le> length s"
    then show "m' (a + 1 + word_of_nat i) = m (a + 1 + word_of_nat i)"
      using Cons.prems [of "Suc i"] by (simp add: add.assoc)
  qed
  ultimately show ?case by simp
qed

text \<open>The \<open>n\<close> bytes at \<open>a\<close> and the \<open>k\<close> bytes at \<open>b\<close> have no byte in common.\<close>

definition no_overlap :: "addr \<Rightarrow> nat \<Rightarrow> addr \<Rightarrow> nat \<Rightarrow> bool" where
  "no_overlap a n b k \<longleftrightarrow> (\<forall>i < n. \<forall>j < k. a + word_of_nat i \<noteq> b + word_of_nat j)"

lemma no_overlap_Suc:
  assumes "no_overlap a (Suc n) b (Suc k)"
  shows "no_overlap (a + 1) n (b + 1) k" and "j \<le> k \<Longrightarrow> b + word_of_nat j \<noteq> a"
proof -
  show "no_overlap (a + 1) n (b + 1) k"
    unfolding no_overlap_def
  proof (intro allI impI)
    fix i j assume "i < n" "j < k"
    then show "a + 1 + word_of_nat i \<noteq> b + 1 + word_of_nat j"
      using assms [unfolded no_overlap_def, rule_format, of "Suc i" "Suc j"] by simp
  qed
  show "j \<le> k \<Longrightarrow> b + word_of_nat j \<noteq> a"
    using assms [unfolded no_overlap_def, rule_format, of 0 j] by auto
qed

lemma strcpy_loop_cstr:
  "cstr m src s \<Longrightarrow> no_overlap d (Suc (length s)) src (Suc (length s)) \<Longrightarrow> length s < 2 ^ 32 - 1 \<Longrightarrow>
    strcpy_loop m d src = Some (wr_bytes m d (s @ [0])) \<and> copy_string m d src = Some (wr_bytes m d (s @ [0]))"
proof (induction s arbitrary: m d src)
  case Nil
  then show ?case
    using wr_bytes_Cons [of "[]" m d 0] by (subst strcpy_loop.simps, subst copy_string.simps) simp
next
  case (Cons c s)
  note N = no_overlap_Suc [OF Cons.prems(2) [unfolded length_Cons]]
  have src: "m src = c" "c \<noteq> 0" using Cons.prems(1) by simp_all
  have "cstr (m(d := c)) (src + 1) s = cstr m (src + 1) s"
  proof (rule cstr_cong)
    fix i assume "i \<le> length s"
    then show "(m(d := c)) (src + 1 + word_of_nat i) = m (src + 1 + word_of_nat i)"
      using N(2) [of "Suc i"] by (simp add: add.assoc)
  qed
  then have "cstr (m(d := c)) (src + 1) s" using Cons.prems(1) by simp
  have "length s < 2 ^ 32 - 1" using Cons.prems(3) by simp
  note IH = Cons.IH [OF \<open>cstr (m(d := c)) (src + 1) s\<close> N(1) this]
  then show ?case
    using src Cons.prems(3) wr_bytes_Cons [of "s @ [0]" m d c] IH
    by (subst strcpy_loop.simps, subst copy_string.simps) (simp add: Let_def del: fun_upd_apply)
qed

lemma cstr_wr_bytes:
  "length s < 2 ^ 32 - 1 \<Longrightarrow> 0 \<notin> set s \<Longrightarrow> cstr (wr_bytes m d (s @ [0])) d s"
proof (induction s arbitrary: m d)
  case Nil
  then show ?case by (simp add: wr_bytes_def)
next
  case (Cons c s)
  then have "cstr (wr_bytes (m(d := c)) (d + 1) (s @ [0])) (d + 1) s" by simp
  moreover have "wr_bytes (m(d := c)) (d + 1) (s @ [0]) = wr_bytes m d (c # s @ [0])"
    using Cons.prems(1) by (intro wr_bytes_Cons) simp
  moreover have "wr_bytes m d (c # s @ [0]) d = c" by (simp add: wr_bytes_def)
  ultimately show ?case using Cons.prems by simp
qed

subsection \<open>Spans and searches as list functions\<close>

lemma strspn_loop_cstr:
  "cstr m (str1 + i) s \<Longrightarrow> cstr m str2 t \<Longrightarrow>
    strspn_loop m str1 str2 i = Some (i + word_of_nat (length (takeWhile (\<lambda>c. c \<in> set t) s)))"
proof (induction s arbitrary: i)
  case Nil
  then show ?case by (subst strspn_loop.simps) simp
next
  case (Cons c s)
  then show ?case using Cons.IH [of "i + 1"]
    by (subst strspn_loop.simps) (auto simp: search_cstr add.assoc)
qed

lemma strcspn_loop_cstr:
  "cstr m p s \<Longrightarrow> cstr m reject t \<Longrightarrow>
    strcspn_loop m a p reject = Some (p - a + word_of_nat (length (takeWhile (\<lambda>c. c \<notin> set t) s)))"
proof (induction s arbitrary: p)
  case Nil
  then show ?case by (subst strcspn_loop.simps) simp
next
  case (Cons c s)
  then show ?case using Cons.IH [of "p + 1"]
    by (subst strcspn_loop.simps) (auto simp: search_cstr algebra_simps)
qed

lemma strchr_cstr:
  "cstr m a s \<Longrightarrow> strchr m a ch =
    Some (if ch \<in> sint ` set s then a + word_of_nat (length (takeWhile (\<lambda>c. sint c \<noteq> ch) s)) else 0)"
proof (induction s arbitrary: a)
  case Nil
  then show ?case by (subst strchr.simps) simp
next
  case (Cons c s)
  then show ?case using Cons.IH [of "a + 1"]
    by (subst strchr.simps) (auto simp: add.assoc)
qed

fun strstr_list :: "u8 list \<Rightarrow> u8 list \<Rightarrow> nat option" where
  "strstr_list [] t = None"
| "strstr_list (c # s) t =
     (if prefix (c # s) t \<or> prefix t (c # s) then Some 0 else map_option Suc (strstr_list s t))"

lemma strstr_cstr:
  "cstr m a s \<Longrightarrow> cstr m b t \<Longrightarrow>
    strstr m a b = Some (case strstr_list s t of None \<Rightarrow> 0 | Some i \<Rightarrow> a + word_of_nat i)"
proof (induction s arbitrary: a)
  case Nil
  then show ?case by (subst strstr.simps) simp
next
  case (Cons c s)
  have "compare_prefix m a b = Some (prefix (c # s) t \<or> prefix t (c # s))"
    by (rule compare_prefix_cstr [OF Cons.prems])
  moreover have "m a \<noteq> 0" using Cons.prems(1) by simp
  moreover have "strstr m (a + 1) b = Some (case strstr_list s t of None \<Rightarrow> 0 | Some i \<Rightarrow> a + 1 + word_of_nat i)"
    using Cons.prems by (intro Cons.IH) simp_all
  ultimately show ?case
    by (subst strstr.simps) (auto simp: add.assoc add.commute split: option.splits)
qed

lemma strstr_list_spec:
  "strstr_list s t = (if \<exists>i < length s. prefix t (drop i s) \<or> prefix (drop i s) t
     then Some (LEAST i. i < length s \<and> (prefix t (drop i s) \<or> prefix (drop i s) t)) else None)"
proof (induction s)
  case (Cons c s)
  let ?P = "\<lambda>s i. i < length s \<and> (prefix t (drop i s) \<or> prefix (drop i s) t)"
  show ?case
  proof (cases "prefix (c # s) t \<or> prefix t (c # s)")
    case True
    then have "?P (c # s) 0" by auto
    moreover from this have "(LEAST i. ?P (c # s) i) = 0" by (intro Least_equality) auto
    ultimately show ?thesis using True by auto
  next
    case False
    have shift: "(\<exists>i. ?P (c # s) i) \<longleftrightarrow> (\<exists>i. ?P s i)"
    proof
      assume "\<exists>i. ?P (c # s) i"
      then obtain i where "?P (c # s) i" ..
      then show "\<exists>i. ?P s i" using False by (cases i) auto
    next
      assume "\<exists>i. ?P s i"
      then obtain i where "?P s i" ..
      then have "?P (c # s) (Suc i)" by simp
      then show "\<exists>i. ?P (c # s) i" by blast
    qed
    show ?thesis
    proof (cases "\<exists>i. ?P s i")
      case True
      then obtain i where "?P s i" ..
      then have "?P (c # s) (Suc i)" by simp
      moreover have "\<not> ?P (c # s) 0" using False by auto
      ultimately have "(LEAST i. ?P (c # s) i) = Suc (LEAST i. ?P (c # s) (Suc i))" by (rule Least_Suc)
      then show ?thesis using True shift False Cons.IH by simp
    next
      case none: False
      have "strstr_list s t = None" using Cons.IH none by (simp only: if_False)
      then have "strstr_list (c # s) t = None" using False by simp
      moreover have "\<not> (\<exists>i. ?P (c # s) i)" using none shift by blast
      ultimately show ?thesis by (simp only: if_False)
    qed
  qed
qed simp

text \<open>A true occurrence is never hidden by the false matches at the end of the string.\<close>

lemma false_match_late:
  assumes "prefix t (drop i s)" and "i < length s" and "prefix (drop j s) t" and "j < i"
  shows "False"
proof -
  have "length t \<le> length s - i" using prefix_length_le [OF assms(1)] by simp
  moreover have "length s - j \<le> length t" using prefix_length_le [OF assms(3)] by simp
  ultimately show False using assms(2,4) by linarith
qed

lemma tok_scan_cstr:
  "cstr m p s \<Longrightarrow> cstr m delim d \<Longrightarrow>
    tok_scan m p delim = Some (p + word_of_nat (length (takeWhile (\<lambda>c. c \<notin> set d) s)), \<exists>c \<in> set s. c \<in> set d)"
proof (induction s arbitrary: p)
  case Nil
  then show ?case by (subst tok_scan.simps) simp
next
  case (Cons c s)
  then show ?case using Cons.IH [of "p + 1"]
    by (subst tok_scan.simps) (auto simp: search_cstr add.assoc)
qed

lemma sint8_eq: "sint (c :: u8) = sint d \<longleftrightarrow> c = d"
proof
  assume e: "sint c = sint d"
  have "c = word_of_int (sint c)" by simp
  also have "\<dots> = d" unfolding e by simp
  finally show "c = d" .
qed simp

lemma sint8_zero: "sint (c :: u8) = 0 \<longleftrightarrow> c = 0"
  using sint8_eq [of c 0] by simp

lemma strncmp_loop_cstr:
  "cstr m a s \<Longrightarrow> cstr m b t \<Longrightarrow> length s < k \<Longrightarrow>
    (strncmp_loop m a b k = 0 \<longleftrightarrow> s = t)
    \<and> (strncmp_loop m a b k < 0 \<longleftrightarrow> map sint (s @ [0]) < map sint (t @ [0]))"
proof (induction s arbitrary: a b t k)
  case Nil
  then obtain n where k: "k = Suc n" by (cases k) auto
  show ?case
  proof (cases t)
    case Nil
    then show ?thesis using \<open>cstr m a []\<close> \<open>cstr m b t\<close> k by simp
  next
    case (Cons d t')
    then have "m b = d" "sint d \<noteq> 0" "m a = 0" using \<open>cstr m a []\<close> \<open>cstr m b t\<close> by (auto simp: sint8_zero)
    then show ?thesis using k Cons by auto
  qed
next
  case (Cons c s)
  then obtain n where k: "k = Suc n" by (cases k) auto
  have c: "m a = c" "c \<noteq> 0" using Cons.prems(1) by simp_all
  show ?case
  proof (cases "t \<noteq> [] \<and> hd t = c")
    case True
    then obtain t' where t: "t = c # t'" by (cases t) auto
    then show ?thesis using Cons.IH [of "a + 1" "b + 1" t' n] Cons.prems k by simp
  next
    case False
    have hd: "hd (t @ [0]) = m b" "hd (t @ [0]) \<noteq> c" using Cons.prems(2) c False by (cases t; auto)+
    then have "sint c \<noteq> sint (m b)" by (auto simp: sint8_eq)
    moreover have "map sint ((c # s) @ [0]) < map sint (t @ [0]) \<longleftrightarrow> sint c < sint (m b)"
      using hd calculation by (cases t) auto
    moreover have "c # s \<noteq> t" using False by auto
    ultimately show ?thesis using k c by auto
  qed
qed

lemma cut_at:
  assumes c: "cstr m p s" and l: "length s < 2 ^ 32 - 1" and n: "n < length s"
  shows "cstr (m(p + word_of_nat n := 0)) p (take n s)"
    and "cstr (m(p + word_of_nat n := 0)) (p + word_of_nat (Suc n)) (drop (Suc n) s)"
proof -
  let ?m = "m(p + word_of_nat n := 0)"
  have ne: "p + word_of_nat i \<noteq> p + word_of_nat n" if "i \<noteq> n" "i < 2 ^ 32" for i
    using that n l word_of_nat_eq_small [of i n] by auto
  have "cstr m p (take n s @ drop n s)" using c by simp
  then have 1: "rd_bytes m p n = take n s" "0 \<notin> set (take n s)" using n unfolding cstr_append by simp_all
  have "rd_bytes ?m p n = rd_bytes m p n"
    using ne n l by (intro nth_equalityI) auto
  then have "cstr ?m p (take n s @ [])" unfolding cstr_append using 1 n by simp
  then show "cstr ?m p (take n s)" by simp
  have "cstr m p (take (Suc n) s @ drop (Suc n) s)" using c by simp
  then have 2: "cstr m (p + word_of_nat (Suc n)) (drop (Suc n) s)" unfolding cstr_append using n by simp
  have "cstr ?m (p + word_of_nat (Suc n)) (drop (Suc n) s) = cstr m (p + word_of_nat (Suc n)) (drop (Suc n) s)"
  proof (rule cstr_cong)
    fix i assume "i \<le> length (drop (Suc n) s)"
    then have "Suc n + i < 2 ^ 32" using l n by simp
    then have "p + word_of_nat (Suc n + i) \<noteq> p + word_of_nat n" by (intro ne) simp_all
    then have "p + word_of_nat (Suc n) + word_of_nat i \<noteq> p + word_of_nat n" by (simp only: of_nat_add add.assoc) simp
    then show "?m (p + word_of_nat (Suc n) + word_of_nat i) = m (p + word_of_nat (Suc n) + word_of_nat i)"
      by (simp only: fun_upd_apply if_False)
  qed
  then show "cstr ?m (p + word_of_nat (Suc n)) (drop (Suc n) s)" using 2 by simp
qed

subsection \<open>Properties\<close>

text \<open>On two strings in memory strcmp returns, with 0 exactly for equal strings and a negative
  number exactly when the first precedes the second in the lexicographic order of unsigned bytes;
  strncmp with a count that covers both orders by signed characters instead, so the two disagree
  on bytes from 0x80 up.\<close>

theorem strcmp_lexicographic:
  assumes "cstr m a s" and "cstr m b t"
  shows "(\<exists>r. strcmp m a b = Some r \<and> (r = 0 \<longleftrightarrow> s = t) \<and> (r < 0 \<longleftrightarrow> s < t))
    \<and> (length s < unat n \<longrightarrow>
        (strncmp m a b n = 0 \<longleftrightarrow> s = t) \<and> (strncmp m a b n < 0 \<longleftrightarrow> map sint (s @ [0]) < map sint (t @ [0])))"
  using strcmp_cstr [OF assms] strncmp_loop_cstr [OF assms] by (simp only: strncmp_def) blast

definition two_strings :: mem where
  "two_strings = (\<lambda>_. 0)(0x1000 := 0x80, 0x1001 := 0x61, 0x2000 := 0x61, 0x2001 := 0x62)"

lemma two_strings_cstr: "cstr two_strings 0x1000 [0x80, 0x61]" "cstr two_strings 0x2000 [0x61, 0x62]"
  by (simp_all add: two_strings_def)

theorem strcmp_lexicographic_witness:
  "(\<exists>r > 0. strcmp two_strings 0x1000 0x2000 = Some r) \<and> strncmp two_strings 0x1000 0x2000 8 < 0"
proof -
  note L = strcmp_lexicographic [OF two_strings_cstr, of 8]
  have "\<not> [0x80, 0x61] < [0x61, 0x62 :: u8]" "[0x80, 0x61] \<noteq> [0x61, 0x62 :: u8]" by simp_all
  then obtain r where "strcmp two_strings 0x1000 0x2000 = Some r" "\<not> r < 0" "r \<noteq> 0" using L by auto
  moreover have "map sint ([0x80, 0x61] @ [0 :: u8]) < map sint ([0x61, 0x62] @ [0 :: u8])"
    by (simp add: sint_cases)
  ultimately show ?thesis using L by (auto intro!: exI [of _ r])
qed

text \<open>strstr finds the first occurrence of the needle whenever there is one. When there is
  none it does not always answer NULL: it returns the longest suffix of the string that is a proper
  beginning of the needle, and NULL only when no suffix is.\<close>

theorem strstr_first_or_false_match:
  assumes "cstr m a s" and "cstr m b t"
  shows "if \<exists>i < length s. prefix t (drop i s)
    then strstr m a b = Some (a + word_of_nat (LEAST i. i < length s \<and> prefix t (drop i s)))
    else if \<exists>i < length s. prefix (drop i s) t
      then strstr m a b = Some (a + word_of_nat (LEAST i. i < length s \<and> prefix (drop i s) t))
      else strstr m a b = Some 0"
proof -
  let ?P = "\<lambda>i. i < length s \<and> (prefix t (drop i s) \<or> prefix (drop i s) t)"
  note R = strstr_cstr [OF assms] strstr_list_spec [of s t]
  show ?thesis
  proof (cases "\<exists>i < length s. prefix t (drop i s)")
    case True
    define j where "j = (LEAST i. i < length s \<and> prefix t (drop i s))"
    have j: "j < length s \<and> prefix t (drop j s)" unfolding j_def using True by (rule LeastI_ex)
    have "(LEAST i. ?P i) = j"
    proof (rule Least_equality)
      show "?P j" using j by blast
      fix i assume i: "?P i"
      show "j \<le> i"
      proof (rule ccontr)
        assume "\<not> j \<le> i"
        then have "i < j" by simp
        then have "\<not> prefix t (drop i s)" using i not_less_Least unfolding j_def by blast
        then show False using i j false_match_late [of t j s i] \<open>i < j\<close> by blast
      qed
    qed
    then show ?thesis using R True j unfolding j_def by auto
  next
    case False
    then have "?P = (\<lambda>i. i < length s \<and> prefix (drop i s) t)" by auto
    then show ?thesis using R False by auto
  qed
qed

theorem strstr_first_or_false_match_witness:
  "strstr two_strings 0x1000 0x2000 = Some 0x1001"
proof -
  let ?s = "[0x80, 0x61 :: u8]" and ?t = "[0x61, 0x62 :: u8]"
  have two: "i = 0 \<or> i = 1" if "i < length ?s" for i using that by auto
  have "\<not> (\<exists>i < length ?s. prefix ?t (drop i ?s))" using two by fastforce
  moreover have "(LEAST i. i < length ?s \<and> prefix (drop i ?s) ?t) = 1"
  proof (rule Least_equality)
    fix i assume "i < length ?s \<and> prefix (drop i ?s) ?t"
    then show "1 \<le> i" by (cases i) auto
  qed simp
  moreover have "\<exists>i < length ?s. prefix (drop i ?s) ?t" by (intro exI [of _ 1]) simp
  ultimately show ?thesis using strstr_first_or_false_match [OF two_strings_cstr] by simp
qed

text \<open>One call of strtok on the string \<open>s\<close> cuts it at the first delimiter: it returns the
  start, terminates the token there and leaves the static pointer on the string after the delimiter;
  a leading delimiter therefore gives an empty token. Without a delimiter the whole rest is the last
  token and the pointer stays on the terminator, and on an empty rest the answer is NULL.\<close>

theorem strtok_cuts_at_first_delimiter:
  assumes "p \<noteq> 0" and "cstr m p s" and "cstr m delim d" and "length s < 2 ^ 32 - 1"
    and "n = length (takeWhile (\<lambda>c. c \<notin> set d) s)"
  shows "if n < length s
    then \<exists>m'. strtok m p0 p delim = Some (p, p + word_of_nat (Suc n), m') \<and> strtok m p 0 delim = Some (p, p + word_of_nat (Suc n), m')
      \<and> cstr m' p (take n s) \<and> cstr m' (p + word_of_nat (Suc n)) (drop (Suc n) s)
    else strtok m p0 p delim = Some (if s = [] then 0 else p, p + word_of_nat n, m)
      \<and> cstr m (p + word_of_nat n) []"
proof (cases "n < length s")
  case True
  let ?q = "p + word_of_nat n" and ?m = "m(p + word_of_nat n := 0)"
  have tw: "take n s = takeWhile (\<lambda>c. c \<notin> set d) s" unfolding assms(5) by (rule takeWhile_eq_take [symmetric])
  have "\<exists>c \<in> set s. c \<in> set d" using True nth_length_takeWhile [of "\<lambda>c. c \<notin> set d" s] assms(5) nth_mem by blast
  then have sc: "tok_scan m p delim = Some (?q, True)" using tok_scan_cstr [OF assms(2,3)] assms(5) by simp
  have "strtok m p0 p delim = Some (p, p + word_of_nat (Suc n), ?m)" "strtok m p 0 delim = Some (p, p + word_of_nat (Suc n), ?m)"
    using assms(1) by (simp_all add: strtok_def sc add.assoc add.commute del: fun_upd_apply)
  moreover note cut_at [OF assms(2,4) True]
  ultimately show ?thesis unfolding if_P [OF True] by blast
next
  case False
  then have all: "takeWhile (\<lambda>c. c \<notin> set d) s = s" using assms(5) by (metis length_takeWhile_le linorder_le_less_linear takeWhile_eq_take take_all not_less)
  have n: "n = length s" using assms(5) by (simp only: all)
  have no: "\<not> (\<exists>c \<in> set s. c \<in> set d)" using all by (simp add: takeWhile_eq_all_conv)
  have sc: "tok_scan m p delim = Some (p + word_of_nat n, False)" using tok_scan_cstr [OF assms(2,3)] assms(5) no by simp
  have "s \<noteq> [] \<longrightarrow> p + word_of_nat n \<noteq> p"
    using n assms(4) word_of_nat_eq_small [of n 0] by auto
  then have "strtok m p0 p delim = Some (if s = [] then 0 else p, p + word_of_nat n, m)"
    using assms(1) n by (auto simp: strtok_def sc)
  moreover have "cstr m (p + word_of_nat n) []" using cstr_append [of m p s "[]"] assms(2) n by simp
  ultimately show ?thesis using False by simp
qed

theorem strtok_cuts_at_first_delimiter_witness:
  "\<exists>m'. strtok two_strings 0 0x2000 0x2001 = Some (0x2000, 0x2002, m') \<and> cstr m' 0x2000 [0x61]"
proof -
  have d: "cstr two_strings 0x2001 [0x62]" by (simp add: two_strings_def)
  show ?thesis
    using strtok_cuts_at_first_delimiter [OF _ two_strings_cstr(2) d _ refl, of 0] by auto
qed

end
