(* ===== verification/KNumOut.thy ===== *)
theory KNumOut
  imports KString
begin

text \<open>
  Numbers to text in the kernel library: the converters of lib/stdio/kprintf.c (itox, itodec, itooct,
  itoudec, pad_zeros), of lib/klibc/inttostr.c (long_to_string and its relatives) and of
  lib/stdlib/utoa.c and itoa.c. Each writes a terminated string through a pointer into the byte
  memory, and the model does the same, store by store. An \<open>int\<close> and a \<open>long\<close> are 32-bit words;
  \<open>sint\<close> is their signed reading. The numbers divided are unsigned or not negative and the bases below
  65536, where the helpers __udivsi3 and __umodsi3 are exact (KArith, with the high half of the
  remainder's register clear), so their quotients are written \<open>div\<close> and \<open>mod\<close>. The lemmas relate every one of them to \<open>numeral\<close>, the digits of
  a number in a base.
\<close>

subsection \<open>The converters of kprintf.c\<close>

text \<open>The digit block of the four loops: skip leading zeros, otherwise store and set \<open>started\<close>.\<close>

definition emit_digit :: "(u32 \<Rightarrow> u8) \<Rightarrow> mem \<times> addr \<times> bool \<Rightarrow> u32 \<Rightarrow> mem \<times> addr \<times> bool" where
  "emit_digit ch st digit =
     (case st of (m, ptr, started) \<Rightarrow>
        if digit \<noteq> 0 \<or> started then (m(ptr := ch digit), ptr + 1, True) else (m, ptr, started))"

definition hex_chars :: "u8 list" where
  "hex_chars = map (\<lambda>c. of_char c) ''0123456789abcdef''"

primrec itox_loop :: "u32 \<Rightarrow> mem \<times> addr \<times> bool \<Rightarrow> nat list \<Rightarrow> mem \<times> addr \<times> bool" where
  "itox_loop value st [] = st"
| "itox_loop value st (shift # shifts) =
     itox_loop value
       (emit_digit (\<lambda>nibble. hex_chars ! unat nibble) st (drop_bit shift value AND 0xF)) shifts"

definition itox :: "mem \<Rightarrow> u32 \<Rightarrow> addr \<Rightarrow> mem" where
  "itox m value str =
     (if value = 0 then m(str := 0x30, str + 1 := 0)
      else case itox_loop value (m, str, False) [28, 24, 20, 16, 12, 8, 4, 0] of
             (m, ptr, started) \<Rightarrow> m(ptr := 0))"

primrec itooct_loop :: "u32 \<Rightarrow> mem \<times> addr \<times> bool \<Rightarrow> nat list \<Rightarrow> mem \<times> addr \<times> bool" where
  "itooct_loop value st [] = st"
| "itooct_loop value st (shift # shifts) =
     itooct_loop value
       (emit_digit (\<lambda>triplet. 0x30 + ucast triplet) st (drop_bit shift value AND 7)) shifts"

definition itooct :: "mem \<Rightarrow> u32 \<Rightarrow> addr \<Rightarrow> mem" where
  "itooct m value str =
     (if value = 0 then m(str := 0x30, str + 1 := 0)
      else case itooct_loop value (m, str, False) [30, 27, 24, 21, 18, 15, 12, 9, 6, 3, 0] of
             (m, ptr, started) \<Rightarrow> m(ptr := 0))"

definition powers :: "u32 list" where
  "powers = [1000000000, 100000000, 10000000, 1000000, 100000, 10000, 1000, 100, 10, 1]"

partial_function (option) count_sub :: "u32 \<Rightarrow> u32 \<Rightarrow> u32 \<Rightarrow> (u32 \<times> u32) option" where
  "count_sub value pow digit =
     (if pow \<le> value then count_sub (value - pow) pow (digit + 1) else Some (value, digit))"

primrec decimal_loop :: "u32 \<Rightarrow> mem \<times> addr \<times> bool \<Rightarrow> u32 list \<Rightarrow> (mem \<times> addr \<times> bool) option" where
  "decimal_loop value st [] = Some st"
| "decimal_loop value st (pow # ps) =
     (case count_sub value pow 0 of
        None \<Rightarrow> None
      | Some (value', digit) \<Rightarrow>
          decimal_loop value' (emit_digit (\<lambda>d. 0x30 + ucast d) st digit) ps)"

definition itoudec :: "mem \<Rightarrow> u32 \<Rightarrow> addr \<Rightarrow> mem option" where
  "itoudec m value str =
     (if value = 0 then Some (m(str := 0x30, str + 1 := 0))
      else map_option (\<lambda>(m, ptr, started). m(ptr := 0)) (decimal_loop value (m, str, False) powers))"

definition itodec :: "mem \<Rightarrow> u32 \<Rightarrow> addr \<Rightarrow> mem option" where
  "itodec m value str =
     (if value = 0 then Some (m(str := 0x30, str + 1 := 0))
      else
        let (m, ptr, uvalue) = (if sint value < 0 then (m(str := 0x2D), str + 1, - value)
                                else (m, str, value))
        in map_option (\<lambda>(m, ptr, started). m(ptr := 0)) (decimal_loop uvalue (m, ptr, False) powers))"

text \<open>pad_zeros: \<open>len\<close> and \<open>width\<close> are ints; the first loop counts down from \<open>len\<close> to 0.\<close>

primrec shift_right :: "mem \<Rightarrow> addr \<Rightarrow> u32 \<Rightarrow> nat \<Rightarrow> mem" where
  "shift_right m str d 0 = m(str + d := m str)"
| "shift_right m str d (Suc i) =
     shift_right (m(str + word_of_nat (Suc i) + d := m (str + word_of_nat (Suc i)))) str d i"

definition pad_zeros :: "mem \<Rightarrow> addr \<Rightarrow> u32 \<Rightarrow> mem option" where
  "pad_zeros m str width =
     (case strlen m str of
        None \<Rightarrow> None
      | Some len \<Rightarrow>
          if sint len \<ge> sint width then Some m
          else let m = (if sint len < 0 then m else shift_right m str (width - len) (unat len))
               in Some (fill_up m str 0x30 (nat (sint (width - len)))))"

subsection \<open>inttostr.c\<close>

definition digit_char :: "u32 \<Rightarrow> u8" where
  "digit_char digit = (if digit < 10 then 0x30 + ucast digit else 0x61 + ucast (digit - 10))"

partial_function (option) signed_digits :: "mem \<Rightarrow> addr \<Rightarrow> u32 \<Rightarrow> u32 \<Rightarrow> (mem \<times> addr) option" where
  "signed_digits m ptr num base =
     (if 0 < sint num
      then signed_digits (m(ptr := digit_char (num mod base))) (ptr + 1) (num div base) base
      else Some (m, ptr))"

partial_function (option) unsigned_digits :: "mem \<Rightarrow> addr \<Rightarrow> u32 \<Rightarrow> u32 \<Rightarrow> (mem \<times> addr) option" where
  "unsigned_digits m ptr num base =
     (if 0 < num
      then unsigned_digits (m(ptr := digit_char (num mod base))) (ptr + 1) (num div base) base
      else Some (m, ptr))"

function reverse_loop :: "mem \<Rightarrow> addr \<Rightarrow> addr \<Rightarrow> mem" where
  "reverse_loop m start ptr =
     (if start < ptr
      then reverse_loop (m(start := m ptr, ptr := m start)) (start + 1) (ptr - 1)
      else m)"
  by pat_completeness auto
termination
  by (relation "measure (\<lambda>(m, start, ptr). unat ptr)") (auto simp: word_less_nat_alt intro!: measure_unat)

declare reverse_loop.simps [simp del]

definition long_to_string :: "mem \<Rightarrow> u32 \<Rightarrow> addr \<Rightarrow> u32 \<Rightarrow> mem option" where
  "long_to_string m value str base =
     (if sint base < 2 \<or> sint base > 36 then Some (m(str := 0x30, str + 1 := 0))
      else
        let is_negative = (sint value < 0 \<and> base = 10);
            num = (if is_negative then - value else value)
        in if num = 0 then Some (m(str := 0x30, str + 1 := 0))
           else case signed_digits m str num base of
                  None \<Rightarrow> None
                | Some (m, ptr) \<Rightarrow>
                    let (m, ptr) = (if is_negative then (m(ptr := 0x2D), ptr + 1) else (m, ptr))
                    in Some (reverse_loop (m(ptr := 0)) str (ptr - 1)))"

definition unsigned_long_to_string :: "mem \<Rightarrow> u32 \<Rightarrow> addr \<Rightarrow> u32 \<Rightarrow> mem option" where
  "unsigned_long_to_string m value str base =
     (if sint base < 2 \<or> sint base > 36 then Some (m(str := 0x30, str + 1 := 0))
      else if value = 0 then Some (m(str := 0x30, str + 1 := 0))
      else case unsigned_digits m str value base of
             None \<Rightarrow> None
           | Some (m, ptr) \<Rightarrow> Some (reverse_loop (m(ptr := 0)) str (ptr - 1)))"

definition int_to_string :: "mem \<Rightarrow> u32 \<Rightarrow> addr \<Rightarrow> u32 \<Rightarrow> mem option" where
  "int_to_string m value str base = long_to_string m value str base"

partial_function (option) upper_hex :: "mem \<Rightarrow> addr \<Rightarrow> mem option" where
  "upper_hex m p =
     (if m p \<noteq> 0
      then upper_hex (if 0x61 \<le> sint (m p) \<and> sint (m p) \<le> 0x66 then m(p := m p - 0x61 + 0x41) else m) (p + 1)
      else Some m)"

text \<open>\<open>(long)value & 0xFFFFFFFF\<close> is unsigned, and becomes a \<open>long\<close> again as an argument.\<close>

definition int_to_hex :: "mem \<Rightarrow> u32 \<Rightarrow> addr \<Rightarrow> bool \<Rightarrow> mem option" where
  "int_to_hex m value str uppercase =
     (case long_to_string m (value AND 0xFFFFFFFF) str 16 of
        None \<Rightarrow> None
      | Some m \<Rightarrow> if uppercase then upper_hex m str else Some m)"

primrec binary_loop :: "mem \<Rightarrow> addr \<Rightarrow> u32 \<Rightarrow> nat \<Rightarrow> mem \<times> addr" where
  "binary_loop m p value 0 = (m, p)"
| "binary_loop m p value (Suc i) =
     binary_loop (m(p := if value AND push_bit i 1 \<noteq> 0 then 0x31 else 0x30)) (p + 1) value i"

definition int_to_binary :: "mem \<Rightarrow> u32 \<Rightarrow> addr \<Rightarrow> mem" where
  "int_to_binary m value str = (case binary_loop m str value 32 of (m, p) \<Rightarrow> m(p := 0))"

definition int_to_hex_with_prefix :: "mem \<Rightarrow> u32 \<Rightarrow> addr \<Rightarrow> bool \<Rightarrow> mem option" where
  "int_to_hex_with_prefix m value str uppercase =
     int_to_hex (m(str := 0x30, str + 1 := 0x78)) value (str + 2) uppercase"

subsection \<open>utoa.c and itoa.c\<close>

partial_function (option) utoa_digits :: "mem \<Rightarrow> addr \<Rightarrow> nat \<Rightarrow> u32 \<Rightarrow> u32 \<Rightarrow> (mem \<times> nat) option" where
  "utoa_digits m str i value base =
     (let m = m(str + word_of_nat i := digit_char (value mod base)); value = value div base
      in if value \<noteq> 0 then utoa_digits m str (Suc i) value base else Some (m, Suc i))"

function utoa_reverse :: "mem \<Rightarrow> addr \<Rightarrow> int \<Rightarrow> int \<Rightarrow> mem" where
  "utoa_reverse m str j i =
     (if j < i
      then utoa_reverse (m(str + word_of_int j := m (str + word_of_int i),
                           str + word_of_int i := m (str + word_of_int j))) str (j + 1) (i - 1)
      else m)"
  by pat_completeness auto
termination by (relation "measure (\<lambda>(m, s, j, i). nat (i - j))") auto

declare utoa_reverse.simps [simp del]

text \<open>The result is the returned pointer, null for a bad base.\<close>

definition utoa :: "mem \<Rightarrow> u32 \<Rightarrow> addr \<Rightarrow> u32 \<Rightarrow> (addr \<times> mem) option" where
  "utoa m value str base =
     (if sint base < 2 \<or> sint base > 36 then Some (0, m(str := 0))
      else case utoa_digits m str 0 value base of
             None \<Rightarrow> None
           | Some (m, i) \<Rightarrow>
               Some (str, utoa_reverse (m(str + word_of_nat i := 0)) str 0 (int i - 1)))"

definition itoa :: "mem \<Rightarrow> u32 \<Rightarrow> addr \<Rightarrow> u32 \<Rightarrow> (addr \<times> mem) option" where
  "itoa m value str base =
     (if sint base < 2 \<or> sint base > 36 then Some (0, m(str := 0))
      else
        let (m, uvalue) = (if base = 10 \<and> sint value < 0 then (m(str := 0x2D), - value) else (m, value))
        in map_option (\<lambda>(r, m). (str, m)) (utoa m uvalue str base))"

section \<open>Numerals\<close>

text \<open>The reference: the digits of \<open>n\<close> in base \<open>b\<close>, most significant first, without leading zeros.\<close>

function digits :: "nat \<Rightarrow> nat \<Rightarrow> nat list" where
  "digits b n = (if n < b \<or> b < 2 then [n] else digits b (n div b) @ [n mod b])"
  by pat_completeness auto
termination by (relation "measure snd") auto

declare digits.simps [simp del]

definition digit_ascii :: "nat \<Rightarrow> u8" where
  "digit_ascii d = (if d < 10 then word_of_nat (48 + d) else word_of_nat (87 + d))"

definition numeral_of :: "nat \<Rightarrow> nat \<Rightarrow> u8 list" where
  "numeral_of b n = map digit_ascii (digits b n)"

definition signed_numeral :: "int \<Rightarrow> u8 list" where
  "signed_numeral i = (if i < 0 then 0x2D # numeral_of 10 (nat (- i)) else numeral_of 10 (nat i))"

text \<open>The \<open>k\<close> low digits, with leading zeros, as the loops with a fixed number of rounds compute them.\<close>

primrec fixed :: "nat \<Rightarrow> nat \<Rightarrow> nat \<Rightarrow> nat list" where
  "fixed b 0 n = []"
| "fixed b (Suc k) n = fixed b k (n div b) @ [n mod b]"

lemma length_fixed [simp]: "length (fixed b k n) = k"
  by (induction k arbitrary: n) simp_all

lemma fixed_zero: "n = 0 \<Longrightarrow> fixed b k n = replicate k 0"
  by (induction k arbitrary: n) (simp_all add: replicate_append_same)

lemma fixed_strip:
  assumes "2 \<le> b"
  shows "0 < n \<Longrightarrow> n < b ^ k \<Longrightarrow> dropWhile (\<lambda>d. d = 0) (fixed b k n) = digits b n"
proof (induction k arbitrary: n)
  case (Suc k)
  show ?case
  proof (cases "n < b")
    case True
    with Suc.prems show ?thesis by (simp add: fixed_zero digits.simps [of b n] dropWhile_append3)
  next
    case False
    have pos: "0 < n div b" using False assms by (simp add: div_greater_zero_iff)
    have "n div b < b ^ k" using Suc.prems(2) by (simp add: less_mult_imp_div_less mult.commute)
    note IH = Suc.IH [OF pos this]
    have "\<exists>d \<in> set (fixed b k (n div b)). d \<noteq> 0"
    proof (rule ccontr)
      assume "\<not> (\<exists>d \<in> set (fixed b k (n div b)). d \<noteq> 0)"
      then have "dropWhile (\<lambda>d. d = 0) (fixed b k (n div b)) = []" by (simp add: dropWhile_eq_Nil_conv)
      then show False using IH digits.simps [of b "n div b"] by (simp split: if_splits)
    qed
    then obtain x where "x \<in> set (fixed b k (n div b))" "\<not> x = 0" by auto
    then have "dropWhile (\<lambda>d. d = 0) (fixed b k (n div b) @ [n mod b])
        = dropWhile (\<lambda>d. d = 0) (fixed b k (n div b)) @ [n mod b]" by (rule dropWhile_append1)
    then show ?thesis using IH False assms by (simp add: digits.simps [of b n])
  qed
qed simp

lemma fixed_top:
  assumes "0 < b"
  shows "fixed b (Suc k) n = (n div b ^ k) mod b # fixed b k n"
proof (induction k arbitrary: n)
  case (Suc k)
  have "fixed b (Suc (Suc k)) n = fixed b (Suc k) (n div b) @ [n mod b]" by (simp only: fixed.simps)
  also have "\<dots> = ((n div b div b ^ k) mod b # fixed b k (n div b)) @ [n mod b]" by (subst Suc.IH) (rule refl)
  also have "\<dots> = (n div b ^ Suc k) mod b # fixed b (Suc k) n" by (simp add: div_mult2_eq)
  finally show ?case .
qed simp

lemma fixed_mod: "0 < b \<Longrightarrow> k \<le> j \<Longrightarrow> fixed b k (n mod b ^ j) = fixed b k n"
proof (induction k arbitrary: n j)
  case (Suc k)
  then obtain i where j: "j = Suc i" "k \<le> i" by (cases j) auto
  have "n mod b ^ j div b = (n div b) mod b ^ i"
    using j Suc.prems by (simp add: mod_mult2_eq)
  moreover have "n mod b ^ j mod b = n mod b" using j by (simp add: mod_mod_cancel)
  ultimately show ?case using Suc.IH [OF Suc.prems(1) j(2)] by simp
qed simp

lemma digits_below: "2 \<le> b \<Longrightarrow> d \<in> set (digits b n) \<Longrightarrow> d < b"
proof (induction b n rule: digits.induct)
  case (1 b n)
  from 1(3) have "d \<in> set (if n < b \<or> b < 2 then [n] else digits b (n div b) @ [n mod b])"
    by (subst (asm) digits.simps)
  with 1(1,2) show ?case by (auto split: if_splits)
qed

lemma digits_value: "2 \<le> b \<Longrightarrow> foldl (\<lambda>a d. a * b + d) 0 (digits b n) = n"
proof (induction b n rule: digits.induct)
  case (1 b n)
  then show ?case by (subst digits.simps) simp
qed

section \<open>The digit loops store numerals\<close>

lemma emit_all:
  assumes "length pre + length ds < 2 ^ 32"
  shows "foldl (emit_digit ch) (wr_bytes m a pre, a + word_of_nat (length pre), True) ds
    = (wr_bytes m a (pre @ map ch ds), a + word_of_nat (length pre + length ds), True)"
  using assms
proof (induction ds arbitrary: pre)
  case (Cons d ds)
  have "emit_digit ch (wr_bytes m a pre, a + word_of_nat (length pre), True) d
      = (wr_bytes m a (pre @ [ch d]), a + word_of_nat (length (pre @ [ch d])), True)"
    using Cons.prems by (simp add: emit_digit_def wr_bytes_snoc del: fun_upd_apply)
  moreover have "length (pre @ [ch d]) + length ds < 2 ^ 32" using Cons.prems by simp
  ultimately show ?case using Cons.IH [of "pre @ [ch d]"] by simp
qed simp

lemma emit_strip:
  assumes "length pre + length ds < 2 ^ 32" and "\<exists>d \<in> set ds. d \<noteq> 0"
  shows "foldl (emit_digit ch) (wr_bytes m a pre, a + word_of_nat (length pre), False) ds
    = (wr_bytes m a (pre @ map ch (dropWhile (\<lambda>d. d = 0) ds)),
       a + word_of_nat (length pre + length (dropWhile (\<lambda>d. d = 0) ds)), True)"
  using assms
proof (induction ds)
  case (Cons d ds)
  show ?case
  proof (cases "d = 0")
    case True
    with Cons show ?thesis by (simp add: emit_digit_def)
  next
    case False
    have "emit_digit ch (wr_bytes m a pre, a + word_of_nat (length pre), False) d
        = emit_digit ch (wr_bytes m a pre, a + word_of_nat (length pre), True) d"
      using False by (simp add: emit_digit_def)
    then show ?thesis using emit_all [OF Cons.prems(1), of ch m a] False by simp
  qed
qed simp

lemma terminated:
  "length bs < 2 ^ 32 \<Longrightarrow> (wr_bytes m a bs)(a + word_of_nat (length bs) := 0) = wr_bytes m a (bs @ [0])"
  by (rule wr_bytes_snoc)

lemma word_of_nat_digit: "d < 36 \<Longrightarrow> unat (word_of_nat d :: u32) = d"
  by (rule unat_of_nat32) simp

lemma emit_numeral:
  assumes b: "2 \<le> b" "b \<le> 36" and n: "0 < n" "n < b ^ k" and k: "length pre + k < 2 ^ 32"
    and ch: "\<And>d. d < b \<Longrightarrow> ch (word_of_nat d) = digit_ascii d"
  shows "foldl (emit_digit ch) (wr_bytes m a pre, a + word_of_nat (length pre), False)
      (map word_of_nat (fixed b k n))
    = (wr_bytes m a (pre @ numeral_of b n), a + word_of_nat (length (pre @ numeral_of b n)), True)"
proof -
  have small: "d < b" if "d \<in> set (fixed b k n)" for d
    using that b(1) by (induction k arbitrary: n) auto
  have zero: "(word_of_nat d :: u32) = 0 \<longleftrightarrow> d = 0" if "d < b" for d
    using word_of_nat_eq_small [of d 0] that b(2) by simp
  have strip: "dropWhile (\<lambda>d. d = 0) (map word_of_nat xs :: u32 list) = map word_of_nat (dropWhile (\<lambda>d. d = 0) xs)"
    if "\<forall>x \<in> set xs. x < b" for xs :: "nat list"
    using that zero by (induction xs) auto
  have s: "dropWhile (\<lambda>d. d = 0) (map word_of_nat (fixed b k n) :: u32 list) = map word_of_nat (digits b n)"
    using strip [of "fixed b k n"] small fixed_strip [OF b(1) n] by simp
  have "digits b n \<noteq> []" by (subst digits.simps) simp
  then have "dropWhile (\<lambda>d. d = 0) (map word_of_nat (fixed b k n) :: u32 list) \<noteq> []"
    unfolding s by (simp only: map_is_Nil_conv not_False_eq_True)
  then have ex: "\<exists>d \<in> set (map word_of_nat (fixed b k n) :: u32 list). d \<noteq> 0"
    unfolding dropWhile_eq_Nil_conv by blast
  have num: "map ch (map word_of_nat (digits b n)) = numeral_of b n"
    using digits_below [OF b(1)] ch by (auto simp: numeral_of_def)
  have len: "length pre + length (map word_of_nat (fixed b k n) :: u32 list) < 2 ^ 32" using k by simp
  show ?thesis
    using emit_strip [OF len ex, of ch m a] unfolding s num length_map
    by (simp add: numeral_of_def)
qed

lemma itox_loop_foldl:
  "itox_loop v st ss = foldl (emit_digit (\<lambda>d. hex_chars ! unat d)) st (map (\<lambda>s. drop_bit s v AND 0xF) ss)"
  by (induction ss arbitrary: st) simp_all

lemma itooct_loop_foldl:
  "itooct_loop v st ss = foldl (emit_digit (\<lambda>d. 0x30 + ucast d)) st (map (\<lambda>s. drop_bit s v AND 7) ss)"
  by (induction ss arbitrary: st) simp_all

lemma nibble: "(drop_bit s v AND 0xF :: u32) = word_of_nat ((unat v div 2 ^ s) mod 16)"
proof -
  have "drop_bit s v AND 0xF = take_bit 4 (drop_bit s v)" by (simp add: take_bit_eq_mask mask_eq_exp_minus_1)
  then have "unat (drop_bit s v AND 0xF) = (unat v div 2 ^ s) mod 16"
    by (simp only: unsigned_take_bit_eq unat_drop_bit_eq) (simp add: drop_bit_eq_div take_bit_eq_mod)
  then show ?thesis by (metis of_nat_unat ucast_id)
qed

lemma triplet: "(drop_bit s v AND 7 :: u32) = word_of_nat ((unat v div 2 ^ s) mod 8)"
proof -
  have "drop_bit s v AND 7 = take_bit 3 (drop_bit s v)" by (simp add: take_bit_eq_mask mask_eq_exp_minus_1)
  then have "unat (drop_bit s v AND 7) = (unat v div 2 ^ s) mod 8"
    by (simp only: unsigned_take_bit_eq unat_drop_bit_eq) (simp add: drop_bit_eq_div take_bit_eq_mod)
  then show ?thesis by (metis of_nat_unat ucast_id)
qed

lemma wr_bytes_two: "m(a := x, a + 1 := y) = wr_bytes m a [x, y]"
  using wr_bytes_snoc [of "[]" m a x] wr_bytes_snoc [of "[x]" m a y] by simp

lemma numeral_zero: "2 \<le> b \<Longrightarrow> numeral_of b 0 = [0x30]"
  by (simp add: numeral_of_def digits.simps [of b 0] digit_ascii_def)

lemma digits_length: "2 \<le> b \<Longrightarrow> n < b ^ k \<Longrightarrow> 0 < k \<Longrightarrow> length (digits b n) \<le> k"
proof (induction k arbitrary: n)
  case (Suc k)
  show ?case
  proof (cases "n < b")
    case False
    have "n div b < b ^ k" using Suc.prems(2) by (simp add: less_mult_imp_div_less mult.commute)
    moreover have "0 < k" using False Suc.prems(2) by (cases k) auto
    ultimately have "length (digits b (n div b)) \<le> k" using Suc by blast
    then show ?thesis using False Suc.prems(1) by (subst digits.simps) simp
  qed (subst digits.simps, simp)
qed simp

lemma digits_length32: "2 \<le> b \<Longrightarrow> length (digits b (unat (v :: u32))) \<le> 32"
proof (rule digits_length)
  assume "2 \<le> b"
  then have "(2::nat) ^ 32 \<le> b ^ 32" by (rule power_mono) simp
  moreover have "unat v < 2 ^ 32" using unat_less32 [of v] by simp
  ultimately show "unat v < b ^ 32" by (rule less_le_trans [rotated])
qed simp_all

lemma length_numeral32: "2 \<le> b \<Longrightarrow> length (numeral_of b (unat (v :: u32))) \<le> 32"
  using digits_length32 by (simp add: numeral_of_def)

lemma numeral_terminated:
  assumes "2 \<le> b" and "length pre < 2 ^ 31"
  shows "(wr_bytes m a (pre @ numeral_of b (unat (v :: u32))))
      (a + word_of_nat (length (pre @ numeral_of b (unat v))) := 0)
    = wr_bytes m a (pre @ numeral_of b (unat v) @ [0])"
  using terminated [of "pre @ numeral_of b (unat v)" m a] length_numeral32 [OF assms(1), of v] assms(2) by simp

lemma hex_digit: "d < 16 \<Longrightarrow> hex_chars ! unat (word_of_nat d :: u32) = digit_ascii d"
proof -
  assume d: "d < 16"
  have "\<forall>d \<in> set [0..<16]. hex_chars ! d = digit_ascii d" by code_simp
  then show ?thesis using d word_of_nat_digit [of d] by simp
qed

lemma dec_digit: "d < 10 \<Longrightarrow> (0x30 :: u8) + ucast (word_of_nat d :: u32) = digit_ascii d"
proof -
  assume d: "d < 10"
  have "\<forall>d \<in> set [0..<10]. (0x30 :: u8) + ucast (word_of_nat d :: u32) = digit_ascii d" by code_simp
  then show ?thesis using d by simp
qed

lemma shift_digits:
  assumes "\<And>s. g s = (word_of_nat ((n div 2 ^ s) mod 2 ^ w) :: u32)"
  shows "map g (rev (map (\<lambda>i. w * i) [0..<k])) = map word_of_nat (fixed (2 ^ w) k n)"
proof (induction k)
  case (Suc k)
  have t: "fixed (2 ^ w) (Suc k) n = (n div (2 ^ w) ^ k) mod 2 ^ w # fixed (2 ^ w) k n"
    by (rule fixed_top) simp
  show ?case unfolding t using Suc assms [of "w * k"] by (simp add: power_mult)
qed simp

lemma itox_eq: "itox m v a = wr_bytes m a (numeral_of 16 (unat v) @ [0])"
proof (cases "v = 0")
  case True
  then show ?thesis by (simp add: itox_def numeral_zero wr_bytes_two)
next
  case False
  let ?g = "\<lambda>s. drop_bit s v AND 0xF"
  have "[28, 24, 20, 16, 12, 8, 4, 0] = rev (map (\<lambda>i. 4 * i) [0..<8::nat])" by code_simp
  then have "map ?g [28, 24, 20, 16, 12, 8, 4, 0] = map word_of_nat (fixed (2 ^ 4) 8 (unat v))"
    using shift_digits [of ?g "unat v" 4 8] nibble [of _ v] by simp
  moreover have "0 < unat v" using False by (simp add: unat_gt_0)
  ultimately have "itox_loop v (m, a, False) [28, 24, 20, 16, 12, 8, 4, 0]
      = (wr_bytes m a (numeral_of 16 (unat v)), a + word_of_nat (length (numeral_of 16 (unat v))), True)"
    unfolding itox_loop_foldl
    using emit_numeral [of 16 "unat v" 8 "[]" "\<lambda>d. hex_chars ! unat d" m a] hex_digit by simp
  then show ?thesis using False numeral_terminated [of 16 "[]" m a v] by (simp add: itox_def)
qed

lemma itooct_eq: "itooct m v a = wr_bytes m a (numeral_of 8 (unat v) @ [0])"
proof (cases "v = 0")
  case True
  then show ?thesis by (simp add: itooct_def numeral_zero wr_bytes_two)
next
  case False
  let ?s = "[30, 27, 24, 21, 18, 15, 12, 9, 6, 3, 0] :: nat list"
  let ?g = "\<lambda>s. drop_bit s v AND 7"
  have "?s = rev (map (\<lambda>i. 3 * i) [0..<11::nat])" by code_simp
  then have "map ?g ?s = map word_of_nat (fixed (2 ^ 3) 11 (unat v))"
    using shift_digits [of ?g "unat v" 3 11] triplet [of _ v] by simp
  moreover have "0 < unat v" using False by (simp add: unat_gt_0)
  moreover have "unat v < 8 ^ 11" using unat_less32 [of v] by (rule less_trans) simp
  ultimately have "itooct_loop v (m, a, False) ?s
      = (wr_bytes m a (numeral_of 8 (unat v)), a + word_of_nat (length (numeral_of 8 (unat v))), True)"
    unfolding itooct_loop_foldl
    using emit_numeral [of 8 "unat v" 11 "[]" "\<lambda>d. 0x30 + ucast d" m a] dec_digit by simp
  then show ?thesis using False numeral_terminated [of 8 "[]" m a v] by (simp add: itooct_def)
qed

lemma count_sub_eq:
  assumes "p \<noteq> 0"
  shows "count_sub v p d = Some (v mod p, d + v div p)"
proof (induction "unat v" arbitrary: v d rule: less_induct)
  case less
  have pos: "0 < unat p" using assms by (simp add: unat_gt_0)
  show ?case
  proof (cases "p \<le> v")
    case True
    then have le: "unat p \<le> unat v" by (simp add: word_le_nat_alt)
    have sub: "unat (v - p) = unat v - unat p" using True by (rule unat_sub)
    have "unat (v - p) < unat v" using sub le pos by simp
    from less [OF this] have "count_sub (v - p) p (d + 1) = Some ((v - p) mod p, d + 1 + (v - p) div p)" .
    moreover have "(v - p) mod p = v mod p"
      using le by (simp only: word_unat_eq_iff unat_mod sub) (simp add: le_mod_geq)
    moreover have "v div p = 1 + (v - p) div p"
    proof -
      have "unat v div unat p = Suc ((unat v - unat p) div unat p)" using le pos by (rule le_div_geq [rotated])
      moreover have "unat v div unat p < 2 ^ 32"
        using unat_less32 [of v] by (simp add: div_le_dividend [THEN le_less_trans])
      ultimately have "unat (1 + (v - p) div p) = unat v div unat p"
        by (simp add: unat_word_ariths unat_div sub)
      then show ?thesis by (simp only: word_unat_eq_iff unat_div)
    qed
    ultimately show ?thesis using True by (subst count_sub.simps) (simp add: add.assoc)
  next
    case False
    then have "unat v < unat p" by (simp add: word_le_nat_alt)
    then have "v mod p = v" "v div p = 0" by (simp_all add: word_unat_eq_iff unat_mod unat_div)
    then show ?thesis using False by (subst count_sub.simps) simp
  qed
qed

lemma powers_eq: "powers = map (\<lambda>i. 10 ^ i) (rev [0..<10])"
  by code_simp

lemma unat_power10: "k < 10 \<Longrightarrow> unat (10 ^ k :: u32) = 10 ^ k"
proof -
  assume "k < 10"
  then have "(10 :: nat) ^ k \<le> 10 ^ 9" by (intro power_increasing) simp_all
  then have "unat (word_of_nat (10 ^ k) :: u32) = 10 ^ k" by (intro unat_of_nat32) simp
  then show ?thesis by simp
qed

lemma decimal_loop_eq:
  "k \<le> 10 \<Longrightarrow> unat v < 10 ^ k \<Longrightarrow>
    decimal_loop v st (map (\<lambda>i. 10 ^ i) (rev [0..<k]))
      = Some (foldl (emit_digit (\<lambda>d. 0x30 + ucast d)) st (map word_of_nat (fixed 10 k (unat v))))"
proof (induction k arbitrary: v st)
  case (Suc k)
  have p: "unat (10 ^ k :: u32) = 10 ^ k" using Suc.prems by (intro unat_power10) simp
  then have "(10 ^ k :: u32) \<noteq> 0" by (metis power_not_zero unat_0 zero_neq_numeral)
  from count_sub_eq [OF this]
  have c: "count_sub v (10 ^ k) 0 = Some (v mod 10 ^ k, v div 10 ^ k)" by simp
  have "unat v div 10 ^ k < 10" using Suc.prems(2) by (simp add: less_mult_imp_div_less)
  then have top: "fixed 10 (Suc k) (unat v) = unat v div 10 ^ k # fixed 10 k (unat (v mod 10 ^ k))"
    using fixed_top [of 10 k "unat v"] fixed_mod [of 10 k k "unat v"] p by (simp add: unat_mod)
  have d: "v div 10 ^ k = word_of_nat (unat v div 10 ^ k)"
    by (metis p unat_div of_nat_unat ucast_id)
  have "unat (v mod 10 ^ k) < 10 ^ k" using p by (simp add: unat_mod)
  with Suc.IH [of "v mod 10 ^ k"] Suc.prems show ?case
    unfolding top by (simp add: c d)
qed simp

lemma decimal_numeral:
  assumes "v \<noteq> 0" and "length pre < 2 ^ 31"
  shows "decimal_loop v (wr_bytes m a pre, a + word_of_nat (length pre), False) powers
    = Some (wr_bytes m a (pre @ numeral_of 10 (unat v)),
            a + word_of_nat (length (pre @ numeral_of 10 (unat v))), True)"
proof -
  have "unat v < 10 ^ 10" using unat_less32 [of v] by (rule less_trans) simp
  moreover have "0 < unat v" using assms(1) by (simp add: unat_gt_0)
  ultimately show ?thesis
    unfolding powers_eq using decimal_loop_eq [of 10 v] assms(2)
      emit_numeral [of 10 "unat v" 10 pre "\<lambda>d. 0x30 + ucast d" m a] dec_digit by simp
qed

lemma itoudec_eq: "itoudec m v a = Some (wr_bytes m a (numeral_of 10 (unat v) @ [0]))"
proof (cases "v = 0")
  case True
  then show ?thesis by (simp add: itoudec_def numeral_zero wr_bytes_two)
next
  case False
  then show ?thesis
    using decimal_numeral [of v "[]" m a] numeral_terminated [of 10 "[]" m a v] by (simp add: itoudec_def)
qed

lemma uint_less32: "uint (v :: u32) < 4294967296"
  using unsigned_less [of v, where 'a = int] by simp

lemma sint_minus:
  assumes "sint (v :: u32) < 0"
  shows "unat (- v) = nat (- sint v)" and "v \<noteq> 0"
proof -
  have u: "sint v = uint v - 2 ^ 32" using assms by (auto simp: sint_cases split: if_splits)
  show nz: "v \<noteq> 0" using assms by auto
  then have "uint v \<noteq> 0" by (simp add: uint_0_iff)
  then have "uint (- v) = 2 ^ 32 - uint v"
    using uint_less32 [of v] by (simp add: uint_word_ariths zmod_zminus1_eq_if)
  then have "uint (- v) = - sint v" using u by simp
  then show "unat (- v) = nat (- sint v)" by (simp only: unat_eq_nat_uint)
qed

lemma itodec_eq: "itodec m v a = Some (wr_bytes m a (signed_numeral (sint v) @ [0]))"
proof (cases "v = 0")
  case True
  then show ?thesis by (simp add: itodec_def numeral_zero wr_bytes_two signed_numeral_def)
next
  case nz: False
  show ?thesis
  proof (cases "sint v < 0")
    case True
    note neg = sint_minus [OF True]
    have "m(a := 0x2D) = wr_bytes m a [0x2D]" using wr_bytes_snoc [of "[]" m a] by simp
    then show ?thesis
      using nz True neg decimal_numeral [of "- v" "[0x2D]" m a] numeral_terminated [of 10 "[0x2D]" m a "- v"]
      by (simp add: itodec_def signed_numeral_def)
  next
    case False
    then have "nat (sint v) = unat v" using uint_less32 [of v] by (auto simp: sint_cases split: if_splits)
    then show ?thesis
      using nz False decimal_numeral [of v "[]" m a] numeral_terminated [of 10 "[]" m a v]
      by (simp add: itodec_def signed_numeral_def)
  qed
qed

section \<open>Digits in reverse, turned round in place\<close>

lemma wr_bytes_nth: "i < length bs \<Longrightarrow> length bs \<le> 2 ^ 32 \<Longrightarrow> wr_bytes m a bs (a + word_of_nat i) = bs ! i"
  by (simp add: wr_bytes_def unat_of_nat32)

lemma wr_bytes_upd:
  assumes "i < length bs" and "length bs \<le> 2 ^ 32"
  shows "(wr_bytes m a bs)(a + word_of_nat i := b) = wr_bytes m a (bs[i := b])"
proof
  fix x :: addr
  have i: "unat (word_of_nat i :: addr) = i" using assms by (intro unat_of_nat32) simp
  show "((wr_bytes m a bs)(a + word_of_nat i := b)) x = wr_bytes m a (bs[i := b]) x"
  proof (cases "x = a + word_of_nat i")
    case False
    have "unat (x - a) \<noteq> i"
    proof
      assume "unat (x - a) = i"
      then have "x - a = word_of_nat i" using i by (simp only: word_unat_eq_iff)
      then show False using False by (simp add: algebra_simps)
    qed
    then show ?thesis using False by (simp add: wr_bytes_def)
  qed (simp add: wr_bytes_def i assms)
qed

lemma reverse_loop_eq:
  assumes "0 < unat a" and "unat a + length (pre @ xs @ post) < 2 ^ 32"
  shows "reverse_loop (wr_bytes m a (pre @ xs @ post)) (a + word_of_nat (length pre))
      (a + word_of_nat (length pre) + word_of_nat (length xs) - 1)
    = wr_bytes m a (pre @ rev xs @ post)"
  using assms
proof (induction "length xs" arbitrary: pre xs post rule: less_induct)
  case less
  let ?s = "a + word_of_nat (length pre)"
  have s: "unat ?s = unat a + length pre" using less.prems by (intro unat_plus_small) simp
  have e: "unat (?s + word_of_nat (length xs)) = unat a + length pre + length xs"
    using less.prems s by (subst unat_plus_small) simp_all
  have "?s + word_of_nat (length xs) \<noteq> 0" using e less.prems(1) by (metis add_is_0 less_not_refl unat_0)
  then have p: "unat (?s + word_of_nat (length xs) - 1) = unat a + length pre + length xs - 1"
    using e by (simp add: unat_pred)
  show ?case
  proof (cases "length xs < 2")
    case True
    then have "\<not> ?s < ?s + word_of_nat (length xs) - 1"
      using s p by (simp add: word_less_nat_alt)
    moreover have "rev xs = xs" using True by (cases xs) auto
    ultimately show ?thesis by (subst reverse_loop.simps) simp
  next
    case False
    then obtain x ys where "xs = x # ys" "ys \<noteq> []" by (cases xs) auto
    then obtain zs y where xs: "xs = x # zs @ [y]" by (metis append_butlast_last_id)
    let ?bs = "pre @ (x # zs @ [y]) @ post"
    let ?n = "length pre + Suc (length zs)"
    have len: "length ?bs \<le> 2 ^ 32" using less.prems xs by simp
    have lt: "?s < ?s + word_of_nat (length xs) - 1"
      using s p xs by (simp add: word_less_nat_alt)
    have ptr: "?s + word_of_nat (length xs) - 1 = a + word_of_nat ?n" by (simp add: xs)
    have rd: "wr_bytes m a ?bs ?s = x" "wr_bytes m a ?bs (a + word_of_nat ?n) = y"
      using wr_bytes_nth [of "length pre" ?bs m a] wr_bytes_nth [of ?n ?bs m a] len by (simp_all add: nth_append)
    have st: "(wr_bytes m a ?bs)(?s := y, a + word_of_nat ?n := x) = wr_bytes m a ((pre @ [y]) @ zs @ x # post)"
      using wr_bytes_upd [of "length pre" ?bs m a y] wr_bytes_upd [of ?n "?bs[length pre := y]" m a x] len
      by (simp add: list_update_append del: fun_upd_apply)
    have "reverse_loop (wr_bytes m a ((pre @ [y]) @ zs @ x # post)) (a + word_of_nat (length (pre @ [y])))
        (a + word_of_nat (length (pre @ [y])) + word_of_nat (length zs) - 1)
      = wr_bytes m a ((pre @ [y]) @ rev zs @ x # post)"
      using less.prems xs by (intro less.hyps) simp_all
    moreover have "a + word_of_nat (length (pre @ [y])) = ?s + 1" by simp
    moreover have "?s + 1 + word_of_nat (length zs) - 1 = a + word_of_nat ?n - 1" by simp
    ultimately have step: "reverse_loop (wr_bytes m a ((pre @ [y]) @ zs @ x # post)) (?s + 1) (a + word_of_nat ?n - 1)
        = wr_bytes m a ((pre @ [y]) @ rev zs @ x # post)" by (simp only:)
    have "reverse_loop (wr_bytes m a ?bs) ?s (a + word_of_nat ?n)
        = reverse_loop ((wr_bytes m a ?bs)(?s := y, a + word_of_nat ?n := x)) (?s + 1) (a + word_of_nat ?n - 1)"
      using lt unfolding ptr by (subst reverse_loop.simps) (simp only: rd if_True)
    then show ?thesis unfolding st step unfolding ptr by (simp add: xs)
  qed
qed

lemma numeral_step:
  "2 \<le> b \<Longrightarrow> rev (numeral_of b n)
    = digit_ascii (n mod b) # (if n div b = 0 then [] else rev (numeral_of b (n div b)))"
  unfolding numeral_of_def by (subst digits.simps) (simp add: div_eq_0_iff)

lemma digit_char_eq:
  assumes "d < 36"
  shows "digit_char (word_of_nat d) = digit_ascii d"
proof -
  have "\<forall>d \<in> set [0..<36]. digit_char (word_of_nat d) = digit_ascii d" by code_simp
  then show ?thesis using assms by simp
qed

definition good_base :: "u32 \<Rightarrow> bool" where
  "good_base base \<longleftrightarrow> 2 \<le> unat base \<and> unat base \<le> 36"

lemma good_base_sint: "good_base base \<longleftrightarrow> \<not> (sint base < 2 \<or> sint base > 36)"
proof -
  have "(2 \<le> nat k \<and> nat k \<le> 36) = (\<not> ((if k < 2 ^ 31 then k else k - 2 ^ 32) < 2
      \<or> (if k < 2 ^ 31 then k else k - 2 ^ 32) > 36))" if "0 \<le> k" "k < 4294967296" for k :: int
    using that by auto
  from this [OF uint_ge_0 uint_less32] show ?thesis
    unfolding good_base_def unat_eq_nat_uint sint_cases by simp
qed

lemma mod_digit:
  assumes "good_base base"
  shows "digit_char (v mod base) = digit_ascii (unat v mod unat base)"
proof -
  have "v mod base = word_of_nat (unat v mod unat base)" by (metis unat_mod of_nat_unat ucast_id)
  moreover have "unat v mod unat base < 36"
    using assms by (intro less_le_trans [OF mod_less_divisor]) (simp_all add: good_base_def)
  ultimately show ?thesis by (simp add: digit_char_eq)
qed

lemma unsigned_digits_eq:
  assumes "good_base base" and "v \<noteq> 0"
    and "length pre + length (numeral_of (unat base) (unat v)) < 2 ^ 32"
  shows "unsigned_digits (wr_bytes m a pre) (a + word_of_nat (length pre)) v base
    = Some (wr_bytes m a (pre @ rev (numeral_of (unat base) (unat v))),
            a + word_of_nat (length pre + length (numeral_of (unat base) (unat v))))"
  using assms(2-)
proof (induction "unat v" arbitrary: v pre rule: less_induct)
  case less
  let ?b = "unat base"
  have b: "2 \<le> ?b" using assms(1) by (simp add: good_base_def)
  let ?pre = "pre @ [digit_ascii (unat v mod ?b)]"
  have st: "(wr_bytes m a pre)(a + word_of_nat (length pre) := digit_char (v mod base)) = wr_bytes m a ?pre"
    using less.prems mod_digit [OF assms(1)] wr_bytes_snoc [of pre m a] by simp
  have q: "unat (v div base) = unat v div ?b" by (rule unat_div)
  have num: "length (numeral_of ?b (unat v)) = Suc (if unat v div ?b = 0 then 0 else length (numeral_of ?b (unat v div ?b)))"
    using arg_cong [OF numeral_step [OF b, of "unat v"], of length] by (simp split: if_splits)
  have step: "unsigned_digits (wr_bytes m a pre) (a + word_of_nat (length pre)) v base
      = unsigned_digits (wr_bytes m a ?pre) (a + word_of_nat (length ?pre)) (v div base) base"
    using less.prems(1) st by (subst unsigned_digits.simps) (simp add: word_gt_0 ac_simps del: fun_upd_apply)
  show ?case
  proof (cases "unat v div ?b = 0")
    case True
    then have "v div base = 0" using q by (simp add: unat_eq_0)
    then show ?thesis using True num numeral_step [OF b, of "unat v"] unfolding step
      by (subst unsigned_digits.simps) simp
  next
    case False
    then have nz: "v div base \<noteq> 0" using q by auto
    have "unat (v div base) < unat v" using q b less.prems(1) by (simp add: unat_gt_0)
    from less.hyps [OF this nz, of ?pre] less.prems(2) False num q numeral_step [OF b, of "unat v"]
    show ?thesis unfolding step by (simp add: add.assoc)
  qed
qed

lemma numeral_nonempty: "numeral_of b n \<noteq> []"
  unfolding numeral_of_def by (subst digits.simps) simp

text \<open>The buffer: not at address 0, and room for 34 bytes before the end of the address space.\<close>

definition buffer_at :: "addr \<Rightarrow> bool" where
  "buffer_at a \<longleftrightarrow> 0 < unat a \<and> unat a + 34 < 2 ^ 32"

lemma reverse_string:
  assumes "buffer_at a" and "length xs \<le> 33"
  shows "reverse_loop ((wr_bytes m a xs)(a + word_of_nat (length xs) := 0)) a (a + word_of_nat (length xs) - 1)
    = wr_bytes m a (rev xs @ [0])"
  using reverse_loop_eq [of a "[]" xs "[0]" m] assms terminated [of xs m a] by (simp add: buffer_at_def)

lemma unsigned_long_to_string_eq:
  assumes "good_base base" and "buffer_at a"
  shows "unsigned_long_to_string m v a base = Some (wr_bytes m a (numeral_of (unat base) (unat v) @ [0]))"
proof -
  have b: "2 \<le> unat base" using assms(1) by (simp add: good_base_def)
  show ?thesis
  proof (cases "v = 0")
    case True
    then show ?thesis using assms b
      by (simp add: unsigned_long_to_string_def good_base_sint numeral_zero wr_bytes_two)
  next
    case False
    let ?n = "numeral_of (unat base) (unat v)"
    have len: "length ?n \<le> 32" using b by (rule length_numeral32)
    have "unsigned_digits m a v base = Some (wr_bytes m a (rev ?n), a + word_of_nat (length (rev ?n)))"
      using unsigned_digits_eq [OF assms(1) False, of "[]" m a] len by simp
    moreover have "length (rev ?n) \<le> 33" using len by simp
    note reverse_string [OF assms(2) this, of m]
    ultimately show ?thesis using False assms(1)
      by (simp add: unsigned_long_to_string_def good_base_sint)
  qed
qed

lemma signed_digits_unsigned:
  "unat v < 2 ^ 31 \<Longrightarrow> 2 \<le> unat base \<Longrightarrow> signed_digits m p v base = unsigned_digits m p v base"
proof (induction "unat v" arbitrary: m p v rule: less_induct)
  case less
  have s: "0 < sint v \<longleftrightarrow> 0 < v"
    using sint_small [of v] less.prems(1) uint_ge_0 [of v] by (auto simp: word_gt_0 order_less_le uint_0_iff)
  show ?case
  proof (cases "v = 0")
    case False
    have q: "unat (v div base) = unat v div unat base" by (rule unat_div)
    have "unat (v div base) < unat v" using q less.prems(2) False by (simp add: unat_gt_0)
    from less.hyps [OF this _ less.prems(2)] this less.prems(1) s False
    show ?thesis by (subst signed_digits.simps, subst unsigned_digits.simps) simp
  next
    case True
    then show ?thesis by (subst signed_digits.simps, subst unsigned_digits.simps) simp
  qed
qed

lemma sint_nonneg32: "0 \<le> sint (v :: u32) \<Longrightarrow> unat v < 2 ^ 31 \<and> nat (sint v) = unat v"
proof -
  have "nat (sint v) = nat k \<and> nat k < 2 ^ 31" if "uint v = k" "0 \<le> sint v" for k
    using that uint_less32 [of v] by (simp add: sint_cases split: if_splits)
  moreover assume "0 \<le> sint v"
  ultimately show ?thesis unfolding unat_eq_nat_uint by blast
qed

text \<open>A \<open>long\<close> that is not negative, or negative in base 10 but not the most negative one.\<close>

definition printable_long :: "u32 \<Rightarrow> u32 \<Rightarrow> bool" where
  "printable_long v base \<longleftrightarrow> 0 \<le> sint v \<or> base = 10 \<and> v \<noteq> 0x80000000"

definition long_numeral :: "u32 \<Rightarrow> u32 \<Rightarrow> u8 list" where
  "long_numeral v base = (if sint v < 0 then signed_numeral (sint v) else numeral_of (unat base) (unat v))"

lemma long_to_string_eq:
  assumes "good_base base" and "buffer_at a" and "printable_long v base"
  shows "long_to_string m v a base = Some (wr_bytes m a (long_numeral v base @ [0]))"
proof -
  have b: "2 \<le> unat base" using assms(1) by (simp add: good_base_def)
  show ?thesis
  proof (cases "sint v < 0")
    case False
    then have small: "unat v < 2 ^ 31" using sint_nonneg32 [of v] by simp
    have "long_to_string m v a base = unsigned_long_to_string m v a base"
      using False unfolding long_to_string_def unsigned_long_to_string_def
      by (simp add: signed_digits_unsigned [OF small b] Let_def split: option.split)
    then show ?thesis using False unsigned_long_to_string_eq [OF assms(1,2)] by (simp add: long_numeral_def)
  next
    case True
    note neg = sint_minus [OF True]
    have b10: "base = 10" and nmin: "v \<noteq> 0x80000000" using assms(3) True by (auto simp: printable_long_def)
    have small: "unat (- v) < 2 ^ 31"
    proof -
      have "- (2 ^ 31) \<le> sint v" using sint_ge [of v] by simp
      moreover have "sint v \<noteq> sint (0x80000000 :: u32)" using nmin signed_word_eqI [of v "0x80000000"] by blast
      ultimately show ?thesis unfolding neg(1) by simp
    qed
    let ?n = "numeral_of 10 (unat (- v))"
    have len: "length ?n \<le> 32" by (rule length_numeral32) simp
    have nz: "- v \<noteq> 0" using neg(2) by simp
    have d: "signed_digits m a (- v) 10 = Some (wr_bytes m a (rev ?n), a + word_of_nat (length (rev ?n)))"
      using unsigned_digits_eq [OF _ nz, of 10 "[]" m a] len signed_digits_unsigned [OF small, of 10]
      by (simp add: good_base_def)
    have sg: "(wr_bytes m a (rev ?n))(a + word_of_nat (length (rev ?n)) := 0x2D) = wr_bytes m a (rev ?n @ [0x2D])"
      using len by (intro wr_bytes_snoc) simp
    have "length (rev ?n @ [0x2D]) \<le> 33" using len by simp
    from reverse_string [OF assms(2) this, of m]
    have rv: "reverse_loop ((wr_bytes m a (rev ?n @ [0x2D]))(a + word_of_nat (length ?n) + 1 := 0)) a
        (a + word_of_nat (length ?n) + 1 - 1) = wr_bytes m a (0x2D # ?n @ [0])"
      by (simp add: ac_simps del: fun_upd_apply)
    have "signed_numeral (sint v) = 0x2D # ?n" using True neg(1) by (simp add: signed_numeral_def)
    then show ?thesis
      using True assms(1) nz d sg rv unfolding b10
      by (simp add: long_to_string_def good_base_sint long_numeral_def Let_def del: fun_upd_apply)
  qed
qed

text \<open>The other negative values: the digit loop is never entered.\<close>

lemma long_to_string_unprintable:
  assumes "good_base base" and "buffer_at a" and "\<not> printable_long v base"
  shows "long_to_string m v a base = Some (wr_bytes m a (if base = 10 then [0x2D, 0] else [0]))"
proof -
  have neg: "sint v < 0" using assms(3) by (simp add: printable_long_def)
  then have nz: "v \<noteq> 0" by auto
  have a0: "a \<noteq> 0" using assms(2) by (auto simp: buffer_at_def)
  have dec: "\<not> a < a - 1" using a0 by (simp add: word_less_nat_alt unat_pred)
  have one: "m(a := 0) = wr_bytes m a [0]" using wr_bytes_snoc [of "[]" m a 0] by simp
  have stop: "signed_digits m a v base = Some (m, a)" using neg by (subst signed_digits.simps) simp
  show ?thesis
  proof (cases "base = 10")
    case True
    then have v: "v = 0x80000000" using assms(3) by (simp add: printable_long_def)
    have mv: "- v = v" unfolding v by simp
    have "signed_digits m a (- v) base = Some (m, a)" by (simp only: mv stop)
    moreover have "reverse_loop (wr_bytes m a [0x2D, 0]) a a = wr_bytes m a [0x2D, 0]"
      by (subst reverse_loop.simps) simp
    ultimately show ?thesis using assms(1) True neg nz
      by (simp add: long_to_string_def good_base_sint Let_def wr_bytes_two)
  next
    case False
    then show ?thesis using assms(1) stop nz dec one
      by (simp add: long_to_string_def good_base_sint Let_def reverse_loop.simps [of _ a])
  qed
qed

subsection \<open>utoa and itoa\<close>

lemma utoa_digits_eq:
  assumes "good_base base" and "length pre + length (numeral_of (unat base) (unat v)) < 2 ^ 32"
  shows "utoa_digits (wr_bytes m a pre) a (length pre) v base
    = Some (wr_bytes m a (pre @ rev (numeral_of (unat base) (unat v))),
            length pre + length (numeral_of (unat base) (unat v)))"
  using assms(2)
proof (induction "unat v" arbitrary: v pre rule: less_induct)
  case less
  let ?b = "unat base"
  have b: "2 \<le> ?b" using assms(1) by (simp add: good_base_def)
  let ?pre = "pre @ [digit_ascii (unat v mod ?b)]"
  have st: "(wr_bytes m a pre)(a + word_of_nat (length pre) := digit_char (v mod base)) = wr_bytes m a ?pre"
    using less.prems mod_digit [OF assms(1)] numeral_nonempty [of ?b "unat v"]
    by (simp add: wr_bytes_snoc add_strict_increasing2 del: fun_upd_apply)
  have q: "unat (v div base) = unat v div ?b" by (rule unat_div)
  have num: "length (numeral_of ?b (unat v)) = Suc (if unat v div ?b = 0 then 0 else length (numeral_of ?b (unat v div ?b)))"
    using arg_cong [OF numeral_step [OF b, of "unat v"], of length] by (simp split: if_splits)
  show ?case
  proof (cases "unat v div ?b = 0")
    case True
    then have "v div base = 0" using q by (simp add: unat_eq_0)
    then show ?thesis using True num numeral_step [OF b, of "unat v"] st
      by (subst utoa_digits.simps) (simp add: Let_def del: fun_upd_apply)
  next
    case False
    then have nz: "v div base \<noteq> 0" using q by auto
    have "0 < unat v" using False by (cases "unat v") simp_all
    then have "unat (v div base) < unat v" using q b by simp
    note IH = less.hyps [OF this, of ?pre]
    show ?thesis using IH less.prems False num q numeral_step [OF b, of "unat v"] st nz
      by (subst utoa_digits.simps) (simp add: Let_def del: fun_upd_apply)
  qed
qed

lemma utoa_reverse_loop:
  assumes "0 < unat a" and "unat a + n < 2 ^ 32"
  shows "0 \<le> j \<Longrightarrow> - 1 \<le> i \<Longrightarrow> j \<le> int n \<Longrightarrow> i \<le> int n \<Longrightarrow>
    utoa_reverse m a j i = reverse_loop m (a + word_of_int j) (a + word_of_int i)"
proof (induction "nat (i - j)" arbitrary: m j i rule: less_induct)
  case less
  have at: "int (unat (a + word_of_int k)) = int (unat a) + k" if "- 1 \<le> k" "k \<le> int n" for k
  proof (cases "k = - 1")
    case True
    have "a \<noteq> 0" using assms(1) by auto
    then have "unat (a - 1) = unat a - 1" by (rule unat_pred)
    moreover have "a + word_of_int k = a - 1" using True by simp
    ultimately show ?thesis using True assms(1) by (simp add: of_nat_diff del: of_nat_unat)
  next
    case False
    with that have "0 \<le> k" by simp
    then obtain l where l: "k = int l" by (rule nonneg_int_cases)
    with that have k: "k = int l" "l \<le> n" by simp_all
    then have "unat (a + word_of_nat l) = unat a + l" using assms(2) by (intro unat_plus_small) simp
    then show ?thesis using k by (simp del: of_nat_unat)
  qed
  have lt: "a + word_of_int j < a + word_of_int i \<longleftrightarrow> j < i"
    using at [of j] at [of i] less.prems unfolding word_less_nat_alt by linarith
  show ?case
  proof (cases "j < i")
    case True
    have "utoa_reverse m' a (j + 1) (i - 1) = reverse_loop m' (a + word_of_int (j + 1)) (a + word_of_int (i - 1))" for m'
      using True less.prems by (intro less.hyps) simp_all
    moreover have "a + word_of_int (j + 1) = a + word_of_int j + 1" by (simp add: ac_simps)
    moreover have "a + word_of_int (i - 1) = a + word_of_int i - 1" by (simp add: algebra_simps)
    ultimately show ?thesis using True lt
      by (subst utoa_reverse.simps, subst reverse_loop.simps) (simp add: add.assoc [symmetric] add_diff_eq del: fun_upd_apply)
  next
    case False
    then show ?thesis using lt by (subst utoa_reverse.simps, subst reverse_loop.simps) simp
  qed
qed

lemma utoa_eq:
  assumes "good_base base" and "buffer_at a"
  shows "utoa m v a base = Some (a, wr_bytes m a (numeral_of (unat base) (unat v) @ [0]))"
proof -
  let ?n = "numeral_of (unat base) (unat v)"
  have b: "2 \<le> unat base" using assms(1) by (simp add: good_base_def)
  have len: "length ?n \<le> 32" using b by (rule length_numeral32)
  have pos: "0 < length ?n" using numeral_nonempty by simp
  have "utoa_digits m a 0 v base = Some (wr_bytes m a (rev ?n), length ?n)"
    using utoa_digits_eq [OF assms(1), of "[]" v m a] len by simp
  moreover have "utoa_reverse m' a 0 (int (length ?n) - 1) = reverse_loop m' a (a + word_of_nat (length ?n) - 1)" for m'
    using utoa_reverse_loop [of a "length ?n" 0 "int (length ?n) - 1" m'] assms(2) len
    by (simp add: buffer_at_def algebra_simps)
  moreover have "length (rev ?n) \<le> 33" using len by simp
  note reverse_string [OF assms(2) this, of m]
  ultimately show ?thesis using assms(1) by (simp add: utoa_def good_base_sint)
qed

text \<open>itoa stores the minus sign where utoa then stores the first digit.\<close>

lemma itoa_eq:
  assumes "good_base base" and "buffer_at a"
  shows "itoa m v a base = Some (a, wr_bytes m a
    ((if base = 10 \<and> sint v < 0 then numeral_of 10 (nat (- sint v)) else numeral_of (unat base) (unat v)) @ [0]))"
proof -
  have over: "wr_bytes (m(a := x)) a (s @ [0]) = wr_bytes m a (s @ [0])" for x s
    by (auto simp: wr_bytes_def fun_eq_iff)
  show ?thesis
    using assms(1) utoa_eq [OF assms] sint_minus(1) [of v]
    by (simp add: itoa_def good_base_sint over)
qed

subsection \<open>Padding\<close>

lemma wr_bytes_append:
  assumes "length xs + length ys \<le> 2 ^ 32"
  shows "wr_bytes (wr_bytes m (a + word_of_nat (length xs)) ys) a xs = wr_bytes m a (xs @ ys)"
proof
  fix x :: addr
  show "wr_bytes (wr_bytes m (a + word_of_nat (length xs)) ys) a xs x = wr_bytes m a (xs @ ys) x"
  proof (cases "unat (x - a) < length xs")
    case False
    show ?thesis
    proof (cases "ys = []")
      case ne: False
      then have "length xs < 2 ^ 32" using assms by (cases ys) auto
      then have k: "unat (word_of_nat (length xs) :: addr) = length xs" by (rule unat_of_nat32)
      have "unat ((x - a) - word_of_nat (length xs)) = unat (x - a) - length xs"
        using False k by (subst unat_sub) (simp_all add: word_le_nat_alt)
      then have "unat (x - (a + word_of_nat (length xs))) = unat (x - a) - length xs"
        by (simp add: diff_diff_eq)
      then show ?thesis using False by (simp add: wr_bytes_def nth_append) linarith
    qed (simp add: wr_bytes_def)
  qed (simp add: wr_bytes_def nth_append)
qed

lemma shift_right_copy_down:
  "shift_right m a d i = copy_down m (a + d + word_of_nat (Suc i)) (a + word_of_nat (Suc i)) (Suc i)"
proof (induction i arbitrary: m)
  case 0
  then show ?case by (simp add: ac_simps)
next
  case (Suc i)
  let ?D = "a + d + word_of_nat (Suc (Suc i))" and ?S = "a + word_of_nat (Suc (Suc i))"
  have eqs: "a + word_of_nat (Suc i) + d = ?D - 1" "a + d + word_of_nat (Suc i) = ?D - 1"
    "a + word_of_nat (Suc i) = ?S - 1" by simp_all
  have "shift_right m a d (Suc i) = shift_right (m(?D - 1 := m (?S - 1))) a d i"
    unfolding shift_right.simps eqs(1) unfolding eqs(3) ..
  also have "\<dots> = copy_down (m(?D - 1 := m (?S - 1))) (?D - 1) (?S - 1) (Suc i)"
    unfolding Suc.IH eqs(2,3) ..
  also have "\<dots> = copy_down m ?D ?S (Suc (Suc i))" by (rule copy_down.simps(2) [symmetric])
  finally show ?case .
qed

lemma unat_behind: "(d :: u32) \<noteq> 0 \<Longrightarrow> unat (a - (a + d)) = 2 ^ 32 - unat d"
proof -
  assume "d \<noteq> 0"
  then have "uint d \<noteq> 0" by (simp add: uint_0_iff)
  then have "uint (- d) = 2 ^ 32 - uint d"
    using uint_less32 [of d] by (simp add: uint_word_ariths zmod_zminus1_eq_if)
  moreover have "a - (a + d) = - d" by simp
  moreover have "nat (2 ^ 32 - k) = 2 ^ 32 - nat k" if "0 \<le> k" for k :: int using that nat_diff_distrib' [of "2 ^ 32" k] by simp
  ultimately show ?thesis unfolding unat_eq_nat_uint using uint_ge_0 [of d] by (simp only:)
qed

lemma pad_zeros_eq:
  assumes "cstr m a s" and "length s < 2 ^ 31" and "unat w < 2 ^ 31"
  shows "pad_zeros m a w = Some (if unat w \<le> length s then m
    else wr_bytes m a (replicate (unat w - length s) 0x30 @ s @ [0]))"
proof -
  let ?l = "word_of_nat (length s) :: u32"
  have l: "unat ?l = length s" using assms(2) by (intro unat_of_nat32) simp
  then have sl: "sint ?l = int (length s)" using assms(2) sint_small [of ?l] by simp
  have sw: "sint w = int (unat w)" using assms(3) by (rule sint_small)
  show ?thesis
  proof (cases "unat w \<le> length s")
    case True
    then show ?thesis using strlen_cstr [OF assms(1)] sl sw by (simp add: pad_zeros_def del: of_nat_unat)
  next
    case False
    let ?d = "w - ?l"
    have d: "unat ?d = unat w - length s" using False l by (subst unat_sub) (simp_all add: word_le_nat_alt)
    then have sd: "nat (sint ?d) = unat w - length s" using assms(3) sint_small [of ?d] by simp
    have nz: "?d \<noteq> 0" using d False by auto
    have "unat (a - (a + ?d)) = 2 ^ 32 - unat ?d" using nz by (rule unat_behind)
    then have far: "Suc (length s) \<le> unat (a - (a + ?d))" using d assms(2,3) False by simp
    have rd: "rd_bytes m a (Suc (length s)) = s @ [0]"
      using cstr_append [of m a s "[]"] assms(1) by (simp add: rd_bytes_snoc)
    have "shift_right m a ?d (length s) = wr_bytes m (a + ?d) (s @ [0])"
      unfolding shift_right_copy_down using copy_down_eq [OF disjI2 [OF far], of m] rd assms(2)
      by (simp add: add.assoc)
    moreover have ad: "a + ?d = a + word_of_nat (length (replicate (unat w - length s) (0x30 :: u8)))"
      using d by (metis length_replicate of_nat_unat ucast_id)
    moreover have "length (replicate (unat w - length s) (0x30 :: u8)) + length (s @ [0]) \<le> 2 ^ 32"
      using assms(3) False by simp
    note wr_bytes_append [OF this, of m a]
    moreover have "unat w - length s \<le> 2 ^ 32" using assms(3) by simp
    note fill_up_eq [OF this]
    ultimately have "fill_up (shift_right m a ?d (length s)) a 0x30 (unat w - length s)
        = wr_bytes m a (replicate (unat w - length s) 0x30 @ s @ [0])"
      by (simp only:)
    then show ?thesis
      using strlen_cstr [OF assms(1)] sl sw l sd False by (simp add: pad_zeros_def Let_def del: of_nat_unat)
  qed
qed

section \<open>Properties\<close>

text \<open>The converters of kprintf, which avoid multiplication and division, write the same
  string as the reference numeral for every 32-bit value: hexadecimal, octal and unsigned decimal of
  the unsigned reading, signed decimal (with the sign, for the most negative value too) of the signed
  one, each followed by the terminator and with no other byte changed; the counting loops end.\<close>

theorem printf_converters_correct:
  "itox m v a = wr_bytes m a (numeral_of 16 (unat v) @ [0])
   \<and> itooct m v a = wr_bytes m a (numeral_of 8 (unat v) @ [0])
   \<and> itoudec m v a = Some (wr_bytes m a (numeral_of 10 (unat v) @ [0]))
   \<and> itodec m v a = Some (wr_bytes m a (signed_numeral (sint v) @ [0]))"
  by (simp only: itox_eq itooct_eq itoudec_eq itodec_eq)

text \<open>In a base from 2 to 36 and a buffer of 34 bytes, unsigned_long_to_string and utoa both
  write the reference numeral. long_to_string writes the signed one for values that are not negative,
  and in base 10 for negative ones too, except that the most negative value is written as a lone minus
  sign; negative values in any other base give the empty string, so int_to_hex of a negative value is
  empty. itoa loses the minus sign: utoa overwrites it, and a negative value prints as its magnitude.\<close>

theorem long_to_string_numeral:
  assumes "good_base base" and "buffer_at a"
  shows "unsigned_long_to_string m v a base = Some (wr_bytes m a (numeral_of (unat base) (unat v) @ [0]))
    \<and> utoa m v a base = Some (a, wr_bytes m a (numeral_of (unat base) (unat v) @ [0]))
    \<and> long_to_string m v a base = Some (wr_bytes m a
        (if 0 \<le> sint v then numeral_of (unat base) (unat v) @ [0]
         else if base \<noteq> 10 then [0]
         else if v = 0x80000000 then [0x2D, 0] else signed_numeral (sint v) @ [0]))
    \<and> itoa m v a 10 = Some (a, wr_bytes m a (numeral_of 10 (nat \<bar>sint v\<bar>) @ [0]))
    \<and> (int_to_hex m v a False = Some (wr_bytes m a ((if 0 \<le> sint v then numeral_of 16 (unat v) else []) @ [0])))"
proof (intro conjI)
  show "unsigned_long_to_string m v a base = Some (wr_bytes m a (numeral_of (unat base) (unat v) @ [0]))"
    using assms by (rule unsigned_long_to_string_eq)
  show "utoa m v a base = Some (a, wr_bytes m a (numeral_of (unat base) (unat v) @ [0]))"
    using assms by (rule utoa_eq)
  have ls: "long_to_string m v a b = Some (wr_bytes m a
        (if 0 \<le> sint v then numeral_of (unat b) (unat v) @ [0]
         else if b \<noteq> 10 then [0]
         else if v = 0x80000000 then [0x2D, 0] else signed_numeral (sint v) @ [0]))" if "good_base b" for b
    using long_to_string_eq [OF that assms(2), of v m] long_to_string_unprintable [OF that assms(2), of v m]
    by (cases "printable_long v b") (auto simp: printable_long_def long_numeral_def)
  then show "long_to_string m v a base = Some (wr_bytes m a
        (if 0 \<le> sint v then numeral_of (unat base) (unat v) @ [0]
         else if base \<noteq> 10 then [0]
         else if v = 0x80000000 then [0x2D, 0] else signed_numeral (sint v) @ [0]))" using assms(1) .
  have ten: "good_base 10" and sixteen: "good_base 16" by (simp_all add: good_base_def)
  show "itoa m v a 10 = Some (a, wr_bytes m a (numeral_of 10 (nat \<bar>sint v\<bar>) @ [0]))"
    using itoa_eq [OF ten assms(2), of m v] sint_nonneg32 [of v] by (cases "sint v < 0") simp_all
  have "(0xFFFFFFFF :: u32) = - 1" by simp
  then have "v AND 0xFFFFFFFF = v" by (simp only: and.right_neutral)
  then show "int_to_hex m v a False = Some (wr_bytes m a ((if 0 \<le> sint v then numeral_of 16 (unat v) else []) @ [0]))"
    using ls [OF sixteen] by (simp add: int_to_hex_def)
qed

theorem long_to_string_numeral_witness:
  "\<forall>m. utoa m 255 0x1000 16 = Some (0x1000, wr_bytes m 0x1000 [0x66, 0x66, 0])
   \<and> itoa m (- 42) 0x1000 10 = Some (0x1000, wr_bytes m 0x1000 [0x34, 0x32, 0])
   \<and> long_to_string m 0x80000000 0x1000 10 = Some (wr_bytes m 0x1000 [0x2D, 0])"
proof -
  have h: "good_base 16" "good_base 10" "buffer_at 0x1000" by (simp_all add: good_base_def buffer_at_def)
  have n: "numeral_of 16 255 = [0x66, 0x66]" "numeral_of 10 42 = [0x34, 0x32]" by code_simp+
  have s: "sint (- 42 :: u32) = - 42" "\<not> 0 \<le> sint (0x80000000 :: u32)" by simp_all
  show ?thesis (is "\<forall>m. ?P m")
  proof
    fix m :: mem
    show "?P m"
    using long_to_string_numeral [OF h(1,3), of m 255] long_to_string_numeral [OF h(2,3), of m "- 42"]
      long_to_string_numeral [OF h(2,3), of m "0x80000000"] n s by simp
  qed
qed

end
