(* ===== verification/KArith.thy ===== *)
theory KArith
  imports OrionBase "HOL-Library.Signed_Division"
begin

text \<open>
  The arithmetic helpers the compiler calls on a 68000, lib/klibc: 32-bit multiplication and
  division in assembly over the processor's 16-bit instructions, and 64-bit multiplication and
  division in C. A division by a zero word is a processor exception and a loop that never ends is
  no result; both are \<open>None\<close>. The contents a register holds before a word move that keeps its high
  half are an argument (\<open>g\<close>) of the functions.
\<close>

subsection \<open>Processor instructions\<close>

definition swap :: "u32 \<Rightarrow> u32" where
  "swap x = push_bit 16 x OR drop_bit 16 x"

definition clr_w :: "u32 \<Rightarrow> u32" where
  "clr_w x = push_bit 16 (drop_bit 16 x)"

definition move_w :: "u32 \<Rightarrow> u32 \<Rightarrow> u32" where
  "move_w src dst = clr_w dst OR take_bit 16 src"

definition mulu_w :: "u32 \<Rightarrow> u32 \<Rightarrow> u32" where
  "mulu_w src dst = take_bit 16 src * take_bit 16 dst"

definition divu_w :: "u32 \<Rightarrow> u32 \<Rightarrow> u32 option" where
  "divu_w src dst =
     (let s = take_bit 16 src in
      if s = 0 then None
      else let q = dst div s in
        if drop_bit 16 q \<noteq> 0 then Some dst else Some (push_bit 16 (dst mod s) OR q))"

subsection \<open>32-bit helpers\<close>

definition umulsi3 :: "u32 \<Rightarrow> u32 \<Rightarrow> u32" where
  "umulsi3 a b =
     (let d0 = a; d1 = swap d0; d2 = b; d3 = swap d2;
          d0 = mulu_w d2 d0;
          d2 = mulu_w d1 d2;
          d1 = move_w a d1;
          d1 = mulu_w d3 d1;
          d1 = clr_w (swap d1);
          d2 = clr_w (swap d2)
      in d0 + d2 + d1)"

definition mulsi3 :: "u32 \<Rightarrow> u32 \<Rightarrow> u32" where
  "mulsi3 a b =
     (let d0 = a; d1 = swap d0; d2 = b; d3 = swap d2;
          d0 = mulu_w d2 d0;
          d2 = mulu_w d1 d2;
          d1 = move_w a d1;
          d1 = mulu_w d3 d1;
          d1 = clr_w (swap d1);
          d2 = clr_w (swap d2)
      in d0 + d2 + d1)"

definition udivsi3 :: "u32 \<Rightarrow> u32 \<Rightarrow> u32 \<Rightarrow> u32 option" where
  "udivsi3 g a b =
     (let d0 = move_w a 0; d1 = move_w b 0; d2 = swap (clr_w a)
      in case divu_w d1 d2 of
           None \<Rightarrow> None
         | Some d2 \<Rightarrow>
             (let d3 = clr_w (swap (move_w d2 g)); d2 = clr_w d2; d0 = d0 + d2
              in case divu_w d1 d0 of
                   None \<Rightarrow> None
                 | Some d0 \<Rightarrow> Some (swap (clr_w (swap d0)) + d3)))"

definition divsi3 :: "u32 \<Rightarrow> u32 \<Rightarrow> u32 \<Rightarrow> u32 option" where
  "divsi3 g a b =
     (let d0 = move_w a 0; d1 = move_w b 0; d2 = swap (clr_w a)
      in case divu_w d1 d2 of
           None \<Rightarrow> None
         | Some d2 \<Rightarrow>
             (let d3 = clr_w (swap (move_w d2 g)); d2 = clr_w d2; d0 = d0 + d2
              in case divu_w d1 d0 of
                   None \<Rightarrow> None
                 | Some d0 \<Rightarrow> Some (swap (clr_w (swap d0)) + d3)))"

definition umodsi3 :: "u32 \<Rightarrow> u32 \<Rightarrow> u32 \<Rightarrow> u32 option" where
  "umodsi3 g a b =
     (let d0 = move_w a 0; d1 = move_w b 0; d2 = swap (clr_w a)
      in case divu_w d1 d2 of
           None \<Rightarrow> None
         | Some d2 \<Rightarrow>
             (let d2 = clr_w d2; d0 = d0 + d2
              in case divu_w d1 d0 of
                   None \<Rightarrow> None
                 | Some d0 \<Rightarrow> Some (move_w (swap (clr_w d0)) g)))"

definition modsi3 :: "u32 \<Rightarrow> u32 \<Rightarrow> u32 \<Rightarrow> u32 option" where
  "modsi3 g a b =
     (let d0 = move_w a 0; d1 = move_w b 0; d2 = swap (clr_w a)
      in case divu_w d1 d2 of
           None \<Rightarrow> None
         | Some d2 \<Rightarrow>
             (let d2 = clr_w d2; d0 = d0 + d2
              in case divu_w d1 d0 of
                   None \<Rightarrow> None
                 | Some d0 \<Rightarrow> Some (move_w (swap (clr_w d0)) g)))"

subsection \<open>64-bit multiplication\<close>

definition umuldi3 :: "u64 \<Rightarrow> u64 \<Rightarrow> u64" where
  "umuldi3 a b =
     (let a_low = (ucast (a AND 0xFFFFFFFF) :: u32); a_high = (ucast (drop_bit 32 a) :: u32);
          b_low = (ucast (b AND 0xFFFFFFFF) :: u32); b_high = (ucast (drop_bit 32 b) :: u32);
          p0 = ucast a_low * ucast b_low;
          p1 = ucast a_high * ucast b_low + ucast a_low * ucast b_high;
          p2 = ucast a_high * ucast b_high;
          p1_high = drop_bit 32 p1;
          p1_low = push_bit 32 p1;
          result_low = p0 + p1_low;
          result_high = (if result_low < p1_low then p2 + 1 else p2) + p1_high + p2
      in push_bit 32 result_high OR result_low)"

text \<open>\<open>a >> 32\<close> of a negative \<open>a\<close> is an arithmetic shift, whose low 32 bits are those of the logical one.\<close>

definition muldi3 :: "u64 \<Rightarrow> u64 \<Rightarrow> u64" where
  "muldi3 a b =
     (let a_low = (ucast (a AND 0xFFFFFFFF) :: u32); a_high = (ucast (signed_drop_bit 32 a) :: u32);
          b_low = (ucast (b AND 0xFFFFFFFF) :: u32); b_high = (ucast (signed_drop_bit 32 b) :: u32);
          p0 = ucast a_low * ucast b_low;
          p1 = ucast a_high * ucast b_low + ucast a_low * ucast b_high;
          p2 = ucast a_high * ucast b_high;
          p1_high = drop_bit 32 p1;
          p1_low = push_bit 32 p1;
          result_low = p0 + p1_low;
          result_high = (if result_low < p1_low then p2 + 1 else p2) + p1_high + p2;
          result = push_bit 32 result_high OR result_low
      in if (sint a < 0) \<noteq> (sint b < 0) then - result else result)"

subsection \<open>64-bit division\<close>

partial_function (option) shift_up :: "u64 \<Rightarrow> u64 \<Rightarrow> int \<Rightarrow> (u64 \<times> int) option" where
  "shift_up remainder divisor shift =
     (if divisor \<le> remainder then shift_up remainder (push_bit 1 divisor) (shift + 1)
      else Some (divisor, shift))"

function subtract_down :: "u64 \<Rightarrow> u64 \<Rightarrow> int \<Rightarrow> u64 \<Rightarrow> u64 \<times> u64" where
  "subtract_down remainder divisor shift quot =
     (if 0 \<le> shift then
        (if divisor \<le> remainder
         then subtract_down (remainder - divisor) (drop_bit 1 divisor) (shift - 1)
                (quot OR push_bit (nat shift) 1)
         else subtract_down remainder (drop_bit 1 divisor) (shift - 1) quot)
      else (quot, remainder))"
  by pat_completeness auto
termination by (relation "measure (\<lambda>(r, d, s, q). nat (s + 1))") auto

function subtract_rem :: "u64 \<Rightarrow> u64 \<Rightarrow> int \<Rightarrow> u64" where
  "subtract_rem remainder divisor shift =
     (if 0 \<le> shift then
        (if divisor \<le> remainder
         then subtract_rem (remainder - divisor) (drop_bit 1 divisor) (shift - 1)
         else subtract_rem remainder (drop_bit 1 divisor) (shift - 1))
      else remainder)"
  by pat_completeness auto
termination by (relation "measure (\<lambda>(r, d, s). nat (s + 1))") auto

function count_shift :: "u64 \<Rightarrow> nat \<Rightarrow> nat" where
  "count_shift temp shift = (if 1 < temp then count_shift (drop_bit 1 temp) (Suc shift) else shift)"
  by pat_completeness auto
termination
  by (relation "measure (\<lambda>(t, s). unat t)")
    (auto simp: word_less_nat_alt drop_bit_eq_div unat_div)

definition udivdi3 :: "u64 \<Rightarrow> u64 \<Rightarrow> u64 option" where
  "udivdi3 a b =
     (if b = 0 then Some 0
      else if a < b then Some 0
      else if b AND (b - 1) = 0 then Some (drop_bit (count_shift b 0) a)
      else map_option (\<lambda>(divisor, shift). fst (subtract_down a (drop_bit 1 divisor) (shift - 1) 0))
             (shift_up a b 0))"

definition umoddi3 :: "u64 \<Rightarrow> u64 \<Rightarrow> u64 option" where
  "umoddi3 a b =
     (if b = 0 then Some 0
      else if a < b then Some a
      else if b AND (b - 1) = 0 then Some (a AND (b - 1))
      else map_option (\<lambda>(divisor, shift). subtract_rem a (drop_bit 1 divisor) (shift - 1))
             (shift_up a b 0))"

partial_function (option) subtract_all :: "u64 \<Rightarrow> u64 \<Rightarrow> u64 \<Rightarrow> (u64 \<times> u64) option" where
  "subtract_all a b result =
     (if sint b \<le> sint a then subtract_all (a - b) b (result + 1) else Some (result, a))"

definition divdi3 :: "u64 \<Rightarrow> u64 \<Rightarrow> u64 option" where
  "divdi3 a b =
     (if b = 0 then Some 0
      else let s1 = (if sint a < 0 then - 1 else 1);
               a1 = (if sint a < 0 then - a else a);
               s2 = (if sint b < 0 then - s1 else s1);
               b1 = (if sint b < 0 then - b else b)
           in map_option (\<lambda>(result, r). result * s2) (subtract_all a1 b1 0))"

definition moddi3 :: "u64 \<Rightarrow> u64 \<Rightarrow> u64 option" where
  "moddi3 a b =
     (if b = 0 then Some 0
      else let s1 = (if sint a < 0 then - 1 else 1);
               a1 = (if sint a < 0 then - a else a);
               b1 = (if sint b < 0 then - b else b)
           in map_option (\<lambda>(result, r). r * s1) (subtract_all a1 b1 0))"

declare subtract_down.simps [simp del] subtract_rem.simps [simp del] count_shift.simps [simp del]

subsection \<open>Instructions as arithmetic\<close>

lemma push_or_add:
  fixes x y :: u32
  assumes "drop_bit 16 y = 0"
  shows "push_bit 16 x OR y = push_bit 16 x + y"
proof -
  have "\<not> bit y n" if "16 \<le> n" for n
  proof -
    have "bit (drop_bit 16 y) (n - 16) = bit y n" using that by (simp add: bit_drop_bit_eq)
    then show ?thesis using assms by simp
  qed
  then have "push_bit 16 x AND y = 0" by (intro bit_word_eqI) (auto simp: bit_simps)
  then show ?thesis by (simp add: disjunctive_add_eq_or)
qed

lemma unat_push16: "unat (push_bit 16 x :: u32) = (unat x mod 65536) * 65536"
proof -
  have "unat (push_bit 16 x :: u32) = (unat x * 65536) mod 4294967296"
    by (simp add: push_bit_eq_mult unat_word_ariths)
  also have "\<dots> = (unat x mod 65536) * 65536"
    using mult_mod_right [of 65536 "unat x" 65536] by (simp add: mult.commute)
  finally show ?thesis .
qed

lemma unat_drop16: "unat (drop_bit 16 x :: u32) = unat x div 65536"
  by (simp add: drop_bit_eq_div unat_div)

lemma unat_take16: "unat (take_bit 16 x :: u32) = unat x mod 65536"
  by (simp add: take_bit_eq_mod unat_mod)

lemma unat_push_or:
  assumes "unat y < 65536"
  shows "unat (push_bit 16 x OR y :: u32) = (unat x mod 65536) * 65536 + unat y"
proof -
  have "unat (drop_bit 16 y) = 0" using assms by (simp add: unat_drop16)
  then have "drop_bit 16 y = 0" by (simp only: unat_eq_0)
  then have "push_bit 16 x OR y = push_bit 16 x + y" by (rule push_or_add)
  moreover have "(unat x mod 65536) * 65536 + unat y < 4294967296"
  proof -
    have "unat x mod 65536 \<le> 65535" by (simp add: less_Suc_eq_le [symmetric])
    then show ?thesis using assms by linarith
  qed
  ultimately show ?thesis by (simp add: unat_word_ariths unat_push16)
qed

lemma div16_less: "unat (x :: u32) div 65536 < 65536"
  by (simp add: less_mult_imp_div_less)

lemma unat_swap: "unat (swap x) = (unat x mod 65536) * 65536 + unat x div 65536"
  unfolding swap_def by (subst unat_push_or) (simp_all add: unat_drop16 div16_less)

lemma unat_clr_w: "unat (clr_w x) = (unat x div 65536) * 65536"
  by (simp add: clr_w_def unat_push16 unat_drop16 div16_less)

lemma unat_move_w: "unat (move_w s d) = (unat d div 65536) * 65536 + unat s mod 65536"
  unfolding move_w_def clr_w_def by (subst unat_push_or) (simp_all add: unat_take16 unat_drop16 div16_less)

lemma unat_mulu_w: "unat (mulu_w s d) = (unat s mod 65536) * (unat d mod 65536)"
proof -
  have "unat s mod 65536 \<le> 65535" "unat d mod 65536 \<le> 65535" by (simp_all add: less_Suc_eq_le [symmetric])
  then have "(unat s mod 65536) * (unat d mod 65536) \<le> 65535 * 65535" by (rule mult_le_mono)
  then show ?thesis by (simp add: mulu_w_def unat_word_ariths unat_take16)
qed

lemma divu_w_zero: "unat s mod 65536 = 0 \<Longrightarrow> divu_w s d = None"
  by (simp add: divu_w_def unat_take16 flip: unat_eq_0)

lemma divu_w_fits:
  assumes "b = unat s mod 65536" and "0 < b" and "unat d div b < 65536"
  shows "\<exists>r. divu_w s d = Some r \<and> unat r = (unat d mod b) * 65536 + unat d div b"
proof -
  have nz: "take_bit 16 s \<noteq> 0" using assms(1,2) by (simp add: unat_take16 flip: unat_eq_0)
  have q: "unat (d div take_bit 16 s) = unat d div b" and r: "unat (d mod take_bit 16 s) = unat d mod b"
    using assms(1) by (simp_all add: unat_div unat_mod unat_take16)
  have "unat (drop_bit 16 (d div take_bit 16 s)) = 0" using assms(3) by (simp add: unat_drop16 q)
  then have z: "drop_bit 16 (d div take_bit 16 s) = 0" by (simp only: unat_eq_0)
  have "b < 65536" using assms(1) by simp
  then have "unat d mod b < 65536" using assms(2) by (meson less_trans mod_less_divisor)
  then have "unat (push_bit 16 (d mod take_bit 16 s) OR (d div take_bit 16 s)) = (unat d mod b) * 65536 + unat d div b"
    using assms(3) by (subst unat_push_or) (simp_all add: q r)
  then show ?thesis using nz z by (simp add: divu_w_def Let_def)
qed

lemma unat_clr_swap: "unat (clr_w (swap x)) = (unat x mod 65536) * 65536"
  by (simp add: unat_clr_w unat_swap div16_less)

lemma clr_swap_mult: "clr_w (swap x) = x * 65536"
proof -
  have "unat (clr_w (swap x)) = unat (push_bit 16 x)" by (simp add: unat_clr_swap unat_push16)
  then have "clr_w (swap x) = push_bit 16 x" by (simp only: word_unat_eq_iff)
  then show ?thesis by (simp add: push_bit_eq_mult)
qed

lemma take_swap: "take_bit 16 (swap x) = drop_bit 16 x"
proof -
  have "unat (take_bit 16 (swap x)) = unat (drop_bit 16 x)"
    by (simp add: unat_take16 unat_swap unat_drop16 div16_less)
  then show ?thesis by (simp only: word_unat_eq_iff)
qed

lemma take_move: "take_bit 16 (move_w s d) = take_bit 16 s"
proof -
  have "unat (take_bit 16 (move_w s d)) = unat (take_bit 16 s)"
    by (simp add: unat_take16 unat_move_w)
  then show ?thesis by (simp only: word_unat_eq_iff)
qed

lemma split16: "x = drop_bit 16 x * 65536 + take_bit 16 (x :: u32)"
proof -
  have "unat x div 65536 * 65536 \<le> unat x" by simp
  then have "unat x div 65536 * 65536 < 4294967296" using unat_less32 [of x] by (rule le_less_trans)
  then have "unat (drop_bit 16 x * 65536 + take_bit 16 x) = unat x"
    by (simp add: unat_word_ariths unat_drop16 unat_take16)
  then show ?thesis by (simp only: word_unat_eq_iff)
qed

lemma word32_overflow: "(4294967296 :: u32) = 0"
  by simp

lemma umulsi3_mult: "umulsi3 a b = a * b"
proof -
  have "umulsi3 a b = take_bit 16 b * take_bit 16 a + drop_bit 16 a * take_bit 16 b * 65536
      + drop_bit 16 b * take_bit 16 a * 65536"
    by (simp add: umulsi3_def Let_def clr_swap_mult mulu_w_def take_swap take_move)
  also have "\<dots> = (drop_bit 16 a * 65536 + take_bit 16 a) * (drop_bit 16 b * 65536 + take_bit 16 b)"
    by (simp add: algebra_simps) (simp add: word32_overflow)
  also have "\<dots> = a * b" by (simp flip: split16)
  finally show ?thesis .
qed

lemma mulsi3_umulsi3: "mulsi3 = umulsi3"
  by (simp add: fun_eq_iff mulsi3_def umulsi3_def)

lemma two_step_div:
  fixes H L b :: nat
  shows "(H * 65536 + L) div b = (H div b) * 65536 + ((H mod b) * 65536 + L) div b"
    and "(H * 65536 + L) mod b = ((H mod b) * 65536 + L) mod b"
proof -
  have "H * 65536 + L = (H div b * b + H mod b) * 65536 + L" by simp
  also have "\<dots> = ((H mod b) * 65536 + L) + b * ((H div b) * 65536)" by (simp only: algebra_simps)
  finally have e: "H * 65536 + L = ((H mod b) * 65536 + L) + b * ((H div b) * 65536)" .
  show "(H * 65536 + L) div b = (H div b) * 65536 + ((H mod b) * 65536 + L) div b"
  proof (cases "b = 0")
    case False
    then show ?thesis unfolding e by simp
  qed simp
  show "(H * 65536 + L) mod b = ((H mod b) * 65536 + L) mod b" unfolding e by simp
qed

text \<open>The two processor divisions the four 32-bit helpers share.\<close>

lemma two_divu:
  assumes "b0 = unat b mod 65536" and "0 < b0"
  shows "\<exists>r s. divu_w (move_w b 0) (swap (clr_w a)) = Some r \<and> divu_w (move_w b 0) (move_w a 0 + clr_w r) = Some s
    \<and> unat r mod 65536 = unat a div 65536 div b0
    \<and> unat s mod 65536 + (unat a div 65536 div b0) * 65536 = unat a div b0
    \<and> unat s div 65536 = unat a mod b0"
proof -
  define H where "H = unat a div 65536"
  define L where "L = unat a mod 65536"
  define R where "R = H mod b0"
  define Q where "Q = H div b0"
  have a: "unat a = H * 65536 + L" by (simp add: H_def L_def)
  have bounds: "L < 65536" "b0 < 65536" "H < 65536"
    using assms(1) div16_less [of a] by (simp_all add: L_def H_def)
  have Q: "Q < 65536" unfolding Q_def by (rule le_less_trans [OF div_le_dividend bounds(3)])
  have R: "R + 1 \<le> b0" using mod_less_divisor [OF assms(2), of H] unfolding R_def by linarith
  have b1: "b0 = unat (move_w b 0) mod 65536" using assms(1) by (simp add: unat_move_w)
  have hi: "unat (swap (clr_w a)) = H" by (simp add: unat_swap unat_clr_w H_def)
  have "unat (swap (clr_w a)) div b0 < 65536" using Q by (simp add: hi Q_def)
  from divu_w_fits [OF b1 assms(2) this]
  obtain r where r: "divu_w (move_w b 0) (swap (clr_w a)) = Some r" "unat r = R * 65536 + Q"
    unfolding hi R_def Q_def by blast
  have rl: "unat r mod 65536 = Q" and rh: "unat r div 65536 = R" using r(2) Q by simp_all
  define D where "D = R * 65536 + L"
  have D: "D < b0 * 65536"
  proof -
    have "D < (R + 1) * 65536" using bounds(1) by (simp add: D_def)
    also have "\<dots> \<le> b0 * 65536" using R by (rule mult_le_mono1)
    finally show ?thesis .
  qed
  then have "D < 4294967296" using bounds(2) by linarith
  then have D': "R * 65536 + L < 4294967296" by (simp only: D_def)
  have x: "unat (move_w a 0) = L" by (simp add: unat_move_w L_def)
  have y: "unat (clr_w r) = R * 65536" by (simp only: unat_clr_w rh)
  have "unat (move_w a 0 + clr_w r) = (L + R * 65536) mod 4294967296"
    using x y by (simp add: unat_word_ariths)
  also have "\<dots> = R * 65536 + L" using D' by (subst mod_less) (simp_all add: add.commute)
  finally have d0: "unat (move_w a 0 + clr_w r) = D" by (simp only: D_def)
  have q: "D div b0 < 65536" using D by (simp add: less_mult_imp_div_less mult.commute)
  then have "unat (move_w a 0 + clr_w r) div b0 < 65536" unfolding d0 .
  from divu_w_fits [OF b1 assms(2) this]
  obtain s where s: "divu_w (move_w b 0) (move_w a 0 + clr_w r) = Some s" "unat s = (D mod b0) * 65536 + D div b0"
    unfolding d0 by blast
  have T: "unat a div b0 = Q * 65536 + D div b0" "unat a mod b0 = D mod b0"
    unfolding a D_def Q_def R_def by (rule two_step_div)+
  have "unat s mod 65536 = D div b0" "unat s div 65536 = D mod b0" using s(2) q by simp_all
  then show ?thesis using r(1) s(1) T rl unfolding H_def [symmetric] Q_def [symmetric]
    by (intro exI [of _ r] exI [of _ s]) simp
qed

lemma udivsi3_quotient:
  assumes "b0 = unat b mod 65536" and "0 < b0"
  shows "\<exists>q. udivsi3 g a b = Some q \<and> unat q = unat a div b0"
proof -
  from two_divu [OF assms, of a] obtain r s where r: "divu_w (move_w b 0) (swap (clr_w a)) = Some r"
    and s: "divu_w (move_w b 0) (move_w a 0 + clr_w r) = Some s"
    and e: "unat r mod 65536 = unat a div 65536 div b0"
      "unat s mod 65536 + (unat a div 65536 div b0) * 65536 = unat a div b0" by blast
  let ?q = "swap (clr_w (swap s)) + clr_w (swap (move_w r g))"
  have "unat (swap (clr_w (swap s))) = unat s mod 65536" by (simp add: unat_swap unat_clr_w div16_less)
  moreover have "unat (clr_w (swap (move_w r g))) = (unat a div 65536 div b0) * 65536"
    using e(1) mod_less_divisor [of 65536 "unat r"] by (simp add: unat_clr_swap unat_move_w)
  moreover have "unat a div b0 < 4294967296" by (rule le_less_trans [OF div_le_dividend unat_less32])
  ultimately have "unat ?q = unat a div b0" using e(2) by (simp add: unat_word_ariths)
  moreover have "udivsi3 g a b = Some ?q" by (simp add: udivsi3_def Let_def r s)
  ultimately show ?thesis by blast
qed

lemma umodsi3_remainder:
  assumes "b0 = unat b mod 65536" and "0 < b0"
  shows "\<exists>r. umodsi3 g a b = Some r \<and> unat r = (unat g div 65536) * 65536 + unat a mod b0"
proof -
  from two_divu [OF assms, of a] obtain r s where r: "divu_w (move_w b 0) (swap (clr_w a)) = Some r"
    and s: "divu_w (move_w b 0) (move_w a 0 + clr_w r) = Some s"
    and e: "unat s div 65536 = unat a mod b0" by blast
  have "b0 < 65536" using assms(1) by simp
  then have m: "unat a mod b0 < 65536" using mod_less_divisor [OF assms(2)] by (meson less_trans)
  have "unat (move_w (swap (clr_w s)) g) = (unat g div 65536) * 65536 + unat a mod b0"
    using m by (simp add: unat_move_w unat_swap unat_clr_w e)
  moreover have "umodsi3 g a b = Some (move_w (swap (clr_w s)) g)" by (simp add: umodsi3_def Let_def r s)
  ultimately show ?thesis by blast
qed

lemma si3_zero_word:
  assumes "unat b mod 65536 = 0"
  shows "udivsi3 g a b = None" "umodsi3 g a b = None"
  using assms by (simp_all add: udivsi3_def umodsi3_def divu_w_zero unat_move_w)

lemma divsi3_udivsi3: "divsi3 = udivsi3" and modsi3_umodsi3: "modsi3 = umodsi3"
  by (simp_all add: fun_eq_iff divsi3_def udivsi3_def modsi3_def umodsi3_def)

subsection \<open>64-bit multiplication\<close>

lemma and_low32: "(ucast (ucast (a AND 0xFFFFFFFF :: u64) :: u32) :: u64) = take_bit 32 a"
proof -
  have m: "(0xFFFFFFFF :: u64) = mask 32" by (simp add: mask_eq_exp_minus_1)
  show ?thesis unfolding m by (intro bit_word_eqI) (auto simp: bit_simps)
qed

lemma high32: "(ucast (ucast (drop_bit 32 a) :: u32) :: u64) = drop_bit 32 (a :: u64)"
  by (intro bit_word_eqI) (auto simp: bit_simps dest: bit_imp_le_length)

lemma high32_signed: "(ucast (signed_drop_bit 32 a) :: u32) = ucast (drop_bit 32 (a :: u64))"
  by (intro bit_word_eqI) (auto simp: bit_simps)

lemma split32: "(a :: u64) = drop_bit 32 a * 4294967296 + take_bit 32 a"
proof -
  have "a = push_bit 32 (drop_bit 32 a) OR take_bit 32 a"
    by (intro bit_word_eqI) (auto simp: bit_simps)
  also have "\<dots> = push_bit 32 (drop_bit 32 a) + take_bit 32 a"
    by (rule disjunctive_add_eq_or [symmetric], intro bit_word_eqI) (auto simp: bit_simps)
  finally show ?thesis by (simp add: push_bit_eq_mult)
qed

lemma word64_overflow: "(18446744073709551616 :: u64) = 0"
  by simp

lemma umuldi3_parts:
  "umuldi3 a b =
    (let p0 = take_bit 32 a * take_bit 32 b;
         p1 = drop_bit 32 a * take_bit 32 b + take_bit 32 a * drop_bit 32 b;
         p2 = drop_bit 32 a * drop_bit 32 b
     in push_bit 32 ((if a * b < push_bit 32 p1 then p2 + 1 else p2) + drop_bit 32 p1 + p2) OR (a * b))"
proof -
  let ?p1 = "drop_bit 32 a * take_bit 32 b + take_bit 32 a * drop_bit 32 b"
  have "a * b = (drop_bit 32 a * 4294967296 + take_bit 32 a) * (drop_bit 32 b * 4294967296 + take_bit 32 b)"
    by (simp flip: split32)
  also have "\<dots> = take_bit 32 a * take_bit 32 b + push_bit 32 ?p1"
    by (simp add: push_bit_eq_mult algebra_simps) (simp add: word64_overflow)
  finally show ?thesis
    by (simp only: umuldi3_def Let_def and_low32 high32)
qed

lemma drop32_small: "unat (x :: u64) < 4294967296 \<Longrightarrow> drop_bit 32 x = 0"
  by (simp add: drop_bit_eq_div word_unat_eq_iff unat_div)

lemma push32_small: "unat (x :: u64) < 4294967296 \<Longrightarrow> unat (push_bit 32 x) = unat x * 4294967296"
  by (simp add: push_bit_eq_mult unat_word_ariths)

lemma umuldi3_fits:
  assumes "unat a * unat b < 2 ^ 64"
  shows "umuldi3 a b = a * b"
proof -
  define ah where "ah = unat a div 4294967296"
  define al where "al = unat a mod 4294967296"
  define bh where "bh = unat b div 4294967296"
  define bl where "bl = unat b mod 4294967296"
  have a: "unat a = ah * 4294967296 + al" and b: "unat b = bh * 4294967296 + bl"
    by (simp_all add: ah_def al_def bh_def bl_def)
  have u: "unat (drop_bit 32 a) = ah" "unat (take_bit 32 a) = al" "unat (drop_bit 32 b) = bh" "unat (take_bit 32 b) = bl"
    by (simp_all add: ah_def al_def bh_def bl_def drop_bit_eq_div take_bit_eq_mod unat_div unat_mod)
  have prod: "unat a * unat b = ah * bh * 18446744073709551616 + (ah * bl + al * bh) * 4294967296 + al * bl"
    by (simp add: a b algebra_simps)
  then have lt: "ah * bh * 18446744073709551616 + (ah * bl + al * bh) * 4294967296 + al * bl < 18446744073709551616"
    using assms by simp
  have "ah * bh * 18446744073709551616 < 18446744073709551616"
    using le_less_trans [OF _ lt, of "ah * bh * 18446744073709551616"] by linarith
  then have hh: "ah * bh = 0" by simp
  have "(ah * bl + al * bh) * 4294967296 < 18446744073709551616"
    using le_less_trans [OF _ lt, of "(ah * bl + al * bh) * 4294967296"] by linarith
  then have p1: "ah * bl + al * bh < 4294967296" by simp
  let ?p1 = "drop_bit 32 a * take_bit 32 b + take_bit 32 a * drop_bit 32 b"
  have m: "ah * bl < 18446744073709551616" "al * bh < 18446744073709551616" using p1 by linarith+
  have up1: "unat ?p1 = ah * bl + al * bh"
    using p1 m by (simp add: unat_word_ariths u)
  have p1l: "unat ?p1 < 4294967296" unfolding up1 by (rule p1)
  then have d: "drop_bit 32 ?p1 = 0" by (rule drop32_small)
  have "unat (drop_bit 32 a * drop_bit 32 b) = 0" by (simp only: unat_word_ariths u hh) simp
  then have p2: "drop_bit 32 a * drop_bit 32 b = 0" by (simp only: unat_eq_0)
  have "unat (push_bit 32 ?p1) = (ah * bl + al * bh) * 4294967296"
    unfolding push32_small [OF p1l] up1 ..
  moreover have "unat (a * b) = unat a * unat b" using assms by (simp add: unat_word_ariths)
  ultimately have "\<not> a * b < push_bit 32 ?p1" using prod by (simp add: word_less_nat_alt)
  then show ?thesis by (simp add: umuldi3_parts Let_def d p2)
qed

lemma muldi3_nonneg:
  assumes "0 \<le> sint a" and "0 \<le> sint b"
  shows "muldi3 a b = umuldi3 a b"
  using assms by (simp add: muldi3_def umuldi3_def high32_signed Let_def)

subsection \<open>64-bit unsigned division\<close>

lemma unat_times_power:
  fixes b :: u64
  assumes "unat b * 2 ^ k < 2 ^ 64"
  shows "unat (push_bit k b) = unat b * 2 ^ k"
proof -
  have "unat (push_bit k b) = take_bit 64 (push_bit k (unat b))" by (simp add: unsigned_push_bit_eq)
  also have "\<dots> = take_bit 64 (unat b * 2 ^ k)" by (simp add: push_bit_eq_mult)
  also have "\<dots> = unat b * 2 ^ k" using assms by (rule take_bit_nat_eq_self)
  finally show ?thesis .
qed

lemma unat_power64: "k < 64 \<Longrightarrow> unat (push_bit k 1 :: u64) = 2 ^ k"
  using unat_times_power [of 1 k] power_strict_increasing [of k 64 "2 :: nat"] by simp

lemma and_pred_zero:
  fixes b :: u64
  assumes "b AND (b - 1) = 0" and "b \<noteq> 0"
  shows "\<exists>k < 64. b = push_bit k 1"
proof -
  have n0: "0 < unat b" using assms(2) by (simp add: unat_gt_0)
  obtain k where k: "2 ^ k \<le> unat b" "unat b < 2 ^ Suc k" using ex_power_ivl1 [of 2 "unat b"] n0 by auto
  have "unat b < 2 ^ 64" using unsigned_less [of b, where 'a = nat] by simp
  with k(1) have "(2 :: nat) ^ k < 2 ^ 64" by (rule le_less_trans)
  then have k64: "k < 64" by (rule power_less_imp_less_exp [rotated]) simp
  have bb: "bit b k" 
  proof -
    have "unat b div 2 ^ k = 1" using k by (simp add: Suc_le_eq[symmetric] div_nat_eqI)
    then have "bit (unat b) k" by (simp add: bit_iff_odd)
    then show ?thesis using k64 by (simp add: bit_unsigned_iff)
  qed
  have "unat b = 2 ^ k"
  proof (rule ccontr)
    assume "unat b \<noteq> 2 ^ k"
    then have "2 ^ k \<le> unat b - 1" "unat b - 1 < 2 ^ Suc k" using k by auto
    then have "(unat b - 1) div 2 ^ k = 1" by (simp add: div_nat_eqI)
    then have "bit (unat b - 1) k" by (simp add: bit_iff_odd)
    then have "bit (unat (b - 1)) k" by (simp only: unat_minus_one [OF assms(2)])
    then have "bit (b - 1) k" by (simp add: bit_unsigned_iff)
    then have "bit (b AND (b - 1)) k" using bb by (simp add: bit_and_iff)
    then show False using assms(1) by simp
  qed
  then have "unat b = unat (push_bit k 1 :: u64)" by (simp only: unat_power64 [OF k64])
  then have "b = push_bit k 1" by (simp only: word_unat_eq_iff)
  then show ?thesis using k64 by blast
qed

lemma count_shift_power:
  "k < 64 \<Longrightarrow> count_shift (push_bit k 1) s = s + k"
proof (induction k arbitrary: s)
  case 0
  then show ?case by (subst count_shift.simps) simp
next
  case (Suc k)
  have "(1 :: nat) < 2 ^ Suc k" by (rule one_less_power) simp_all
  then have "1 < (push_bit (Suc k) 1 :: u64)" by (simp only: word_less_nat_alt unat_power64 [OF Suc.prems] unat_1)
  moreover have "drop_bit 1 (push_bit (Suc k) 1 :: u64) = push_bit k 1"
    using Suc.prems by (intro bit_word_eqI) (auto simp: bit_simps)
  ultimately show ?case using Suc by (subst count_shift.simps) simp
qed

lemma power_two_division:
  assumes "b AND (b - 1) = 0" and "b \<noteq> (0 :: u64)"
  shows "drop_bit (count_shift b 0) a = a div b" and "a AND (b - 1) = a mod b"
proof -
  obtain k where k: "k < 64" "b = push_bit k 1" using and_pred_zero [OF assms] by blast
  have p: "b = 2 ^ k" using k by (simp add: push_bit_eq_mult)
  show "drop_bit (count_shift b 0) a = a div b"
    unfolding k(2) count_shift_power [OF k(1)] by (simp add: drop_bit_eq_div push_bit_eq_mult)
  have "b - 1 = mask k" unfolding p by (simp add: mask_eq_exp_minus_1)
  then show "a AND (b - 1) = a mod b" unfolding p by (simp add: take_bit_eq_mod flip: take_bit_eq_mask)
qed

lemma shift_up_stops:
  assumes "\<forall>j < k. unat b * 2 ^ j \<le> unat a" and "unat a < unat b * 2 ^ k" and "unat b * 2 ^ k < 2 ^ 64"
  shows "i \<le> k \<Longrightarrow> shift_up a (push_bit i b) (int i) = Some (push_bit k b, int k)"
proof (induction "k - i" arbitrary: i)
  case 0
  then have i: "i = k" by simp
  have "\<not> push_bit k b \<le> a" using assms(2) unat_times_power [OF assms(3)] by (simp add: word_le_nat_alt)
  then show ?case unfolding i by (subst shift_up.simps) simp
next
  case (Suc n)
  then have ik: "i < k" by simp
  then have "unat b * 2 ^ i \<le> unat b * 2 ^ k" by simp
  then have "unat b * 2 ^ i < 2 ^ 64" using assms(3) by (rule le_less_trans)
  then have "push_bit i b \<le> a" using assms(1) ik unat_times_power [of b i] by (simp add: word_le_nat_alt)
  moreover have "push_bit 1 (push_bit i b) = push_bit (Suc i) b" by (simp add: push_bit_push_bit)
  ultimately have "shift_up a (push_bit i b) (int i) = shift_up a (push_bit (Suc i) b) (int (Suc i))"
    by (subst shift_up.simps) (simp add: add.commute del: push_bit_Suc)
  moreover have "shift_up a (push_bit (Suc i) b) (int (Suc i)) = Some (push_bit k b, int k)"
    using Suc ik by (intro Suc.hyps(1)) simp_all
  ultimately show ?case by (simp only:)
qed

lemma unat_or_bit:
  assumes "s < 64" and "unat (q :: u64) = Q * 2 ^ Suc s"
  shows "unat (q OR push_bit s 1) = (2 * Q + 1) * 2 ^ s"
proof -
  have nb: "\<not> bit (unat q) s" unfolding assms(2) by (simp add: bit_iff_odd)
  have "unat (q OR push_bit s 1) = unat q OR 2 ^ s"
    using unat_power64 [OF assms(1)] by (simp add: unsigned_or_eq)
  also have "\<dots> = unat q + 2 ^ s"
  proof (rule disjunctive_add_eq_or [symmetric])
    show "unat q AND 2 ^ s = 0" using nb by (intro bit_eqI) (auto simp: bit_and_iff bit_exp_iff)
  qed
  finally show ?thesis by (simp add: assms(2) algebra_simps)
qed

lemma halve_push:
  fixes b :: u64
  assumes "unat b * 2 ^ Suc s < 2 ^ 64"
  shows "drop_bit 1 (push_bit (Suc s) b) = push_bit s b"
proof -
  have "unat b * 2 ^ s < 2 ^ 64" using assms by simp
  then have "unat (drop_bit 1 (push_bit (Suc s) b)) = unat (push_bit s b)"
    using unat_times_power [OF assms] by (simp add: unat_times_power drop_bit_eq_div unat_div del: push_bit_Suc)
  then show ?thesis by (simp only: word_unat_eq_iff)
qed

lemma subtract_down_end: "sh < 0 \<Longrightarrow> subtract_down r d sh q = (q, r)"
  by (subst subtract_down.simps) simp

lemma subtract_down_step:
  fixes b r :: u64
  assumes "push_bit s b \<le> r" and "unat b * 2 ^ s < 2 ^ 64" and "0 < unat b"
  shows "unat (r - push_bit s b) = unat r - unat b * 2 ^ s"
    and "unat r div unat b = 2 ^ s + (unat r - unat b * 2 ^ s) div unat b"
    and "(unat r - unat b * 2 ^ s) mod unat b = unat r mod unat b"
proof -
  have u: "unat (push_bit s b) = unat b * 2 ^ s" using assms(2) by (rule unat_times_power)
  then have le: "unat b * 2 ^ s \<le> unat r" using assms(1) by (simp add: word_le_nat_alt)
  show "unat (r - push_bit s b) = unat r - unat b * 2 ^ s" using assms(1) u by (simp add: unat_sub)
  obtain d where d: "unat r = unat b * 2 ^ s + d" using le le_Suc_ex by blast
  show "unat r div unat b = 2 ^ s + (unat r - unat b * 2 ^ s) div unat b"
    and "(unat r - unat b * 2 ^ s) mod unat b = unat r mod unat b"
    using assms(3) by (simp_all add: d)
qed

lemma subtract_down_divides:
  assumes "0 < unat b"
  shows "s < 64 \<Longrightarrow> unat b * 2 ^ s < 2 ^ 64 \<Longrightarrow> unat r < unat b * 2 ^ Suc s \<Longrightarrow> unat q = Q * 2 ^ Suc s \<Longrightarrow>
    unat (fst (subtract_down r (push_bit s b) (int s) q)) = unat q + unat r div unat b
    \<and> unat (snd (subtract_down r (push_bit s b) (int s) q)) = unat r mod unat b"
proof (induction s arbitrary: r q Q)
  case 0
  show ?case
  proof (cases "b \<le> r")
    case True
    note S = subtract_down_step [of 0 b r] 
    have "unat r - unat b < unat b" using 0 True by (simp add: word_le_nat_alt)
    moreover have "unat (q OR 1) = unat q + 1" using unat_or_bit [of 0 q Q] 0 by simp
    moreover have "subtract_down r b 0 q = (q OR 1, r - b)"
      using True by (subst subtract_down.simps) (simp add: subtract_down_end)
    ultimately show ?thesis using S True 0 assms by simp
  next
    case False
    have "subtract_down r b 0 q = (q, r)"
      using False by (subst subtract_down.simps) (simp add: subtract_down_end)
    then show ?thesis using False by (simp add: word_le_nat_alt)
  qed
next
  case (Suc s)
  have b2: "unat b * 2 ^ s < 2 ^ 64" using Suc.prems(2) by simp
  have st: "int (Suc s) - 1 = int s" by simp
  note h = halve_push [OF Suc.prems(2)]
  show ?case
  proof (cases "push_bit (Suc s) b \<le> r")
    case True
    let ?r = "r - push_bit (Suc s) b" and ?q = "q OR push_bit (Suc s) 1"
    note S = subtract_down_step [OF True Suc.prems(2) assms]
    have run: "subtract_down r (push_bit (Suc s) b) (int (Suc s)) q = subtract_down ?r (push_bit s b) (int s) ?q"
      using True h by (subst subtract_down.simps) (simp del: push_bit_Suc of_nat_Suc add: st)
    have uq: "unat ?q = (2 * Q + 1) * 2 ^ Suc s" by (rule unat_or_bit [OF Suc.prems(1,4)])
    have "unat ?r < unat b * 2 ^ Suc s" using S(1) Suc.prems(3) by simp
    from Suc.IH [OF _ b2 this uq] Suc.prems(1)
    have "unat (fst (subtract_down ?r (push_bit s b) (int s) ?q)) = unat ?q + unat ?r div unat b
      \<and> unat (snd (subtract_down ?r (push_bit s b) (int s) ?q)) = unat ?r mod unat b" by simp
    then show ?thesis unfolding run using S uq Suc.prems(4) by (simp del: push_bit_Suc)
  next
    case False
    have run: "subtract_down r (push_bit (Suc s) b) (int (Suc s)) q = subtract_down r (push_bit s b) (int s) q"
      using False h by (subst subtract_down.simps) (simp del: push_bit_Suc of_nat_Suc add: st)
    have "unat r < unat b * 2 ^ Suc s"
      using False unat_times_power [OF Suc.prems(2)] by (simp add: word_le_nat_alt del: push_bit_Suc)
    moreover have "unat q = (2 * Q) * 2 ^ Suc s" using Suc.prems(4) by simp
    moreover have "s < 64" using Suc.prems(1) by simp
    ultimately show ?thesis unfolding run by (intro Suc.IH [OF _ b2])
  qed
qed

lemma subtract_rem_snd: "subtract_rem r d s = snd (subtract_down r d s q)"
  by (induction r d s q rule: subtract_down.induct)
    (subst subtract_rem.simps, subst subtract_down.simps, simp)

text \<open>A normalising shift exists below \<open>2\<^sup>6\<^sup>3\<close>; above, it may fall out of the word.\<close>

definition normalises :: "u64 \<Rightarrow> u64 \<Rightarrow> bool" where
  "normalises a b \<longleftrightarrow> (\<exists>k. unat a < unat b * 2 ^ k \<and> unat b * 2 ^ k < 2 ^ 64)"

lemma normalises_below:
  assumes "unat a < 2 ^ 63" and "b \<noteq> 0" and "unat b < 2 ^ 64"
  shows "normalises a b"
proof -
  have b: "0 < unat b" using assms(2) by (simp add: unat_gt_0)
  have "\<exists>k. unat a < unat b * 2 ^ k"
  proof
    show "unat a < unat b * 2 ^ unat a"
      using b less_exp [of "unat a"] by (metis less_le_trans mult_le_mono1 One_nat_def Suc_leI nat_mult_1)
  qed
  define k where "k = (LEAST k. unat a < unat b * 2 ^ k)"
  have k: "unat a < unat b * 2 ^ k" unfolding k_def by (rule LeastI_ex) fact
  have "unat b * 2 ^ k < 2 ^ 64"
  proof (cases k)
    case 0
    then show ?thesis using assms(3) by simp
  next
    case (Suc j)
    then have "\<not> unat a < unat b * 2 ^ j" unfolding k_def using not_less_Least by (metis lessI)
    then show ?thesis using assms(1) Suc by simp
  qed
  then show ?thesis using k by (auto simp: normalises_def)
qed

lemma shift_subtract:
  assumes "normalises a b" and "b \<le> a" and "b \<noteq> 0"
  shows "\<exists>d n. shift_up a b 0 = Some (d, n) \<and> subtract_down a (drop_bit 1 d) (n - 1) 0 = (a div b, a mod b)"
proof -
  have b: "0 < unat b" using assms(3) by (simp add: unat_gt_0)
  obtain m where m: "unat a < unat b * 2 ^ m" "unat b * 2 ^ m < 2 ^ 64" using assms(1) by (auto simp: normalises_def)
  define k where "k = (LEAST k. unat a < unat b * 2 ^ k)"
  have k: "unat a < unat b * 2 ^ k" unfolding k_def by (rule LeastI) (rule m(1))
  have "k \<le> m" unfolding k_def by (rule Least_le) (rule m(1))
  then have "unat b * 2 ^ k \<le> unat b * 2 ^ m" by simp
  then have k2: "unat b * 2 ^ k < 2 ^ 64" using m(2) by (rule le_less_trans)
  have below: "\<forall>j < k. unat b * 2 ^ j \<le> unat a"
    unfolding k_def using not_less_Least by (metis not_less)
  have run: "shift_up a b 0 = Some (push_bit k b, int k)"
    using shift_up_stops [OF below k k2, of 0] by simp
  have "k \<noteq> 0" using k assms(2) by (cases k) (auto simp: word_le_nat_alt)
  then obtain s where s: "k = Suc s" by (cases k) auto
  have s2: "unat b * 2 ^ s < 2 ^ 64" using k2 s by simp
  have "(2 :: nat) ^ s \<le> unat b * 2 ^ s" using b by simp
  then have "(2 :: nat) ^ s < 2 ^ 64" using s2 by (rule le_less_trans)
  then have s64: "s < 64" by (rule power_less_imp_less_exp [rotated]) simp
  have "unat (0 :: u64) = 0 * 2 ^ Suc s" by simp
  from subtract_down_divides [OF b s64 s2 _ this, of a] k s
  have "unat (fst (subtract_down a (push_bit s b) (int s) 0)) = unat (a div b)
    \<and> unat (snd (subtract_down a (push_bit s b) (int s) 0)) = unat (a mod b)"
    by (simp add: unat_div unat_mod)
  then have "subtract_down a (push_bit s b) (int s) 0 = (a div b, a mod b)"
    by (simp add: prod_eq_iff word_unat_eq_iff)
  moreover have "drop_bit 1 (push_bit k b) = push_bit s b" unfolding s by (rule halve_push) (use k2 s in simp)
  ultimately show ?thesis using run s by (intro exI [of _ "push_bit k b"] exI [of _ "int k"]) simp
qed

lemma shift_up_diverges: "shift_up (- 1) d n = None"
proof (cases "shift_up (- 1) d n")
  case (Some y)
  have "(- 1 :: u64) \<noteq> - 1"
  proof (rule shift_up.raw_induct [where P = "\<lambda>r d n y. r \<noteq> - 1", OF _ Some])
    fix f :: "u64 \<Rightarrow> u64 \<Rightarrow> int \<Rightarrow> (u64 \<times> int) option" and r d :: u64 and n y
    assume IH: "\<And>r d n y. f r d n = Some y \<Longrightarrow> r \<noteq> - 1"
      and eq: "(if d \<le> r then f r (push_bit 1 d) (n + 1) else Some (d, n)) = Some y"
    show "r \<noteq> - 1"
    proof (cases "d \<le> r")
      case True
      then show ?thesis using eq IH by simp
    qed auto
  qed
  then show ?thesis by simp
qed

subsection \<open>64-bit signed division\<close>

lemma sint_nonneg:
  fixes a :: u64
  assumes "0 \<le> sint a"
  shows "sint a = uint a" "unat a < 2 ^ 63"
proof -
  have "uint a < 2 ^ 64" using unsigned_less [of a, where 'a = int] by simp
  then show s: "sint a = uint a" using assms by (auto simp: sint_cases split: if_splits)
  then have "uint a < 2 ^ 63" using \<open>uint a < 2 ^ 64\<close> by (auto simp: sint_cases split: if_splits)
  then have "nat (uint a) < 2 ^ 63" by (subst nat_less_iff) simp_all
  then show "unat a < 2 ^ 63" by (simp only: unat_eq_nat_uint)
qed

lemma sint_zero: "sint (b :: u64) = 0 \<longleftrightarrow> b = 0"
proof
  assume z: "sint b = 0"
  have "b = word_of_int (sint b)" by simp
  then show "b = 0" using z by simp
qed simp

lemma sint_of_nat63:
  assumes "n < 2 ^ 63"
  shows "sint (word_of_nat n :: u64) = int n"
proof -
  have "unat (word_of_nat n :: u64) = n" using assms by (simp add: unat_of_nat)
  then have "uint (word_of_nat n :: u64) = int n" by (metis uint_nat)
  then show ?thesis using assms by (simp add: sint_cases)
qed

lemma subtract_all_divides:
  "m < 2 ^ 63 \<Longrightarrow> 0 < n \<Longrightarrow> n < 2 ^ 63 \<Longrightarrow>
    subtract_all (word_of_nat m) (word_of_nat n) r = Some (r + word_of_nat (m div n), word_of_nat (m mod n))"
proof (induction m arbitrary: r rule: less_induct)
  case (less m)
  have s: "sint (word_of_nat m :: u64) = int m" "sint (word_of_nat n :: u64) = int n"
    using less.prems by (simp_all only: sint_of_nat63)
  show ?case
  proof (cases "n \<le> m")
    case False
    then show ?thesis by (subst subtract_all.simps) (simp add: s)
  next
    case True
    have "subtract_all (word_of_nat m) (word_of_nat n) r = subtract_all (word_of_nat (m - n)) (word_of_nat n) (r + 1)"
      using True by (subst subtract_all.simps) (simp add: s of_nat_diff)
    also have "\<dots> = Some (r + 1 + word_of_nat ((m - n) div n), word_of_nat ((m - n) mod n))"
      using True less.prems by (intro less.IH) simp_all
    also have "\<dots> = Some (r + word_of_nat (m div n), word_of_nat (m mod n))"
      using True less.prems(2) by (simp add: le_div_geq le_mod_geq)
    finally show ?thesis .
  qed
qed

lemma magnitude:
  fixes a :: u64
  assumes "sint a \<noteq> - (2 ^ 63)"
  shows "(if sint a < 0 then - a else a) = word_of_nat (nat \<bar>sint a\<bar>)" and "nat \<bar>sint a\<bar> < 2 ^ 63"
proof -
  have "- (2 ^ 63) \<le> sint a" "sint a < 2 ^ 63" using sint_ge [of a] sint_lt [of a] by simp_all
  then show "nat \<bar>sint a\<bar> < 2 ^ 63" using assms by (simp add: nat_less_iff abs_if)
  have "a = word_of_int (sint a)" by simp
  then show "(if sint a < 0 then - a else a) = word_of_nat (nat \<bar>sint a\<bar>)"
    by (cases "sint a < 0") (auto simp: of_nat_nat)
qed

lemma signed_word:
  fixes i j :: int
  assumes "j \<noteq> 0"
  shows "(word_of_int (\<bar>i\<bar> div \<bar>j\<bar>) :: u64) * (if j < 0 then - (if i < 0 then - 1 else 1) else if i < 0 then - 1 else 1)
      = word_of_int (i sdiv j)"
    and "(word_of_int (\<bar>i\<bar> mod \<bar>j\<bar>) :: u64) * (if i < 0 then - 1 else 1) = word_of_int (i smod j)"
  using assms by (cases "i < 0"; cases "j < 0"; cases "i = 0"; simp add: signed_divide_int_def signed_modulo_int_def sgn_if)+

lemma subtract_all_diverges:
  assumes "sint b = - (2 ^ 63)"
  shows "subtract_all a b r = None"
proof (cases "subtract_all a b r")
  case (Some y)
  have "sint b \<noteq> - (2 ^ 63)"
  proof (rule subtract_all.raw_induct [where P = "\<lambda>a b r y. sint b \<noteq> - (2 ^ 63)", OF _ Some])
    fix f :: "u64 \<Rightarrow> u64 \<Rightarrow> u64 \<Rightarrow> (u64 \<times> u64) option" and a b r :: u64 and y
    assume IH: "\<And>a b r y. f a b r = Some y \<Longrightarrow> sint b \<noteq> - (2 ^ 63)"
      and eq: "(if sint b \<le> sint a then f (a - b) b (r + 1) else Some (r, a)) = Some y"
    show "sint b \<noteq> - (2 ^ 63)"
    proof (cases "sint b \<le> sint a")
      case True
      then show ?thesis using eq IH by simp
    next
      case False
      then show ?thesis using sint_ge [of a] by auto
    qed
  qed
  then show ?thesis using assms by simp
qed

subsection \<open>Division, from its contract\<close>

text \<open>A pair of helpers that return, on the operands of \<open>dom\<close>, a quotient and a remainder below the
  divisor that multiply back to the dividend: that is division, whatever the algorithm.\<close>

locale division_pair =
  fixes dom :: "'a::len word \<Rightarrow> 'a word \<Rightarrow> bool"
    and quo :: "'a word \<Rightarrow> 'a word \<Rightarrow> 'a word option" and rm :: "'a word \<Rightarrow> 'a word \<Rightarrow> 'a word option"
  assumes divides: "dom a b \<Longrightarrow> \<exists>q r. quo a b = Some q \<and> rm a b = Some r
    \<and> unat q * unat b + unat r = unat a \<and> unat r < unat b"
begin

lemma is_division:
  assumes "dom a b"
  shows "quo a b = Some (a div b) \<and> rm a b = Some (a mod b)"
proof -
  obtain q r where qr: "quo a b = Some q" "rm a b = Some r"
    and e: "unat a = unat r + unat b * unat q" and l: "unat r < unat b"
    using divides [OF assms] by (metis add.commute mult.commute)
  have "unat q = unat (a div b)" "unat r = unat (a mod b)" using l by (simp_all add: unat_div unat_mod e)
  then have "q = a div b" "r = a mod b" by (simp_all only: word_unat_eq_iff)
  then show ?thesis using qr by simp
qed

lemma recombine:
  assumes "dom a b"
  shows "\<exists>q r. quo a b = Some q \<and> rm a b = Some r \<and> q * b + r = a"
  using is_division [OF assms] by (metis word_mod_div_equality mult.commute div_mult_mod_eq)

end

interpretation div32: division_pair "\<lambda>a b. 0 < unat b \<and> unat b < 65536" "udivsi3 g" "umodsi3 0" for g
proof
  fix a b :: u32
  assume b: "0 < unat b \<and> unat b < 65536"
  then have eq: "unat b = unat b mod 65536" by simp
  have pos: "0 < unat b" using b by simp
  obtain q r where "udivsi3 g a b = Some q" "unat q = unat a div unat b"
    "umodsi3 0 a b = Some r" "unat r = unat a mod unat b"
    using udivsi3_quotient [OF eq pos, of g a] umodsi3_remainder [OF eq pos, of 0 a] by auto
  then show "\<exists>q r. udivsi3 g a b = Some q \<and> umodsi3 0 a b = Some r
      \<and> unat q * unat b + unat r = unat a \<and> unat r < unat b"
    using pos by simp
qed

lemma udivmoddi3_run:
  assumes "b \<noteq> 0" and "b AND (b - 1) = 0 \<or> normalises a b"
  shows "udivdi3 a b = Some (a div b) \<and> umoddi3 a b = Some (a mod b)"
proof -
  consider (less) "a < b" | (pow) "\<not> a < b" "b AND (b - 1) = 0" | (loop) "\<not> a < b" "b AND (b - 1) \<noteq> 0" "normalises a b"
    using assms(2) by blast
  then show ?thesis
  proof cases
    case less
    then have "unat a < unat b" by (simp add: word_less_nat_alt)
    then have "a div b = 0" "a mod b = a" by (simp_all add: word_unat_eq_iff unat_div unat_mod)
    then show ?thesis using less assms(1) by (simp add: udivdi3_def umoddi3_def)
  next
    case pow
    then show ?thesis using power_two_division [OF pow(2) assms(1), of a] assms(1) by (simp add: udivdi3_def umoddi3_def)
  next
    case loop
    then have "b \<le> a" by simp
    from shift_subtract [OF loop(3) this assms(1)] obtain d n
      where "shift_up a b 0 = Some (d, n)" "subtract_down a (drop_bit 1 d) (n - 1) 0 = (a div b, a mod b)" by blast
    then show ?thesis using loop assms(1) by (simp add: udivdi3_def umoddi3_def subtract_rem_snd [where q = 0])
  qed
qed

interpretation div64: division_pair "\<lambda>a b. b \<noteq> 0 \<and> (b AND (b - 1) = 0 \<or> normalises a b)" udivdi3 umoddi3
proof
  fix a b :: u64
  assume d: "b \<noteq> 0 \<and> (b AND (b - 1) = 0 \<or> normalises a b)"
  then have "0 < unat b" by (simp add: unat_gt_0)
  then show "\<exists>q r. udivdi3 a b = Some q \<and> umoddi3 a b = Some r
      \<and> unat q * unat b + unat r = unat a \<and> unat r < unat b"
    using udivmoddi3_run d by (simp add: unat_div unat_mod)
qed

subsection \<open>Properties\<close>

text \<open>The 32-bit multiplication helpers compute the product modulo \<open>2 ^ 32\<close> on all operands.\<close>

theorem mulsi3_correct: "umulsi3 a b = a * b \<and> mulsi3 a b = a * b"
  by (simp add: mulsi3_umulsi3 umulsi3_mult)



text \<open>The unsigned 64-bit product is exact when it fits in 64 bits, and so is the signed one
  for operands that are not negative; outside that range the helpers are wrong: they answer
  \<open>1\<close> for \<open>(-1) * 1\<close>, and not \<open>1\<close> for the product of the largest unsigned value with itself.\<close>

theorem muldi3_exact_when_fits:
  "(unat a * unat b < 2 ^ 64 \<longrightarrow> umuldi3 a b = a * b
      \<and> (0 \<le> sint a \<and> 0 \<le> sint b \<longrightarrow> muldi3 a b = a * b))
   \<and> muldi3 (- 1) 1 = 1 \<and> umuldi3 (- 1) (- 1) \<noteq> (- 1) * (- 1)"
proof (intro conjI impI)
  assume "unat a * unat b < 2 ^ 64"
  then show m: "umuldi3 a b = a * b" by (rule umuldi3_fits)
  assume "0 \<le> sint a \<and> 0 \<le> sint b"
  then show "muldi3 a b = a * b" using muldi3_nonneg [of a b] m by simp
next
  show "muldi3 (- 1) 1 = 1" by code_simp
  show "umuldi3 (- 1) (- 1) \<noteq> (- 1) * (- 1)" by code_simp
qed

theorem muldi3_exact_when_fits_witness:
  "muldi3 123456789012 1000000 = 123456789012000000"
  using muldi3_exact_when_fits [of 123456789012 1000000] by (simp add: sint_cases)

text \<open>Claim C36. The shift-and-subtract 64-bit helpers return quotient and remainder when the divisor
  is a power of two, when the dividend is below \<open>2 ^ 63\<close>, or whenever some shift of the divisor
  exceeds the dividend without leaving the word. Without such a shift they may never return: the
  largest 64-bit value divided by anything that is not a power of two loops for ever.\<close>

theorem udivdi3_correct:
  assumes "b \<noteq> 0"
  shows "(b AND (b - 1) = 0 \<or> unat a < 2 ^ 63 \<or> normalises a b \<longrightarrow>
      udivdi3 a b = Some (a div b) \<and> umoddi3 a b = Some (a mod b))
    \<and> (b AND (b - 1) \<noteq> 0 \<longrightarrow> udivdi3 (- 1) b = None \<and> umoddi3 (- 1) b = None)
    \<and> udivdi3 a 0 = Some 0 \<and> umoddi3 a 0 = Some 0"
proof (intro conjI impI)
  assume "b AND (b - 1) = 0 \<or> unat a < 2 ^ 63 \<or> normalises a b"
  then have d: "b \<noteq> 0 \<and> (b AND (b - 1) = 0 \<or> normalises a b)"
    using normalises_below [of a b] assms unsigned_less [of b, where 'a = nat] by auto
  show "udivdi3 a b = Some (a div b)" "umoddi3 a b = Some (a mod b)" using div64.is_division [OF d] by simp_all
next
  assume b: "b AND (b - 1) \<noteq> 0"
  have "\<not> - 1 < b" using word_order.extremum [of b] by (simp add: not_less)
  then show "udivdi3 (- 1) b = None" "umoddi3 (- 1) b = None"
    using b assms by (simp_all add: udivdi3_def umoddi3_def shift_up_diverges)
qed (simp_all add: udivdi3_def umoddi3_def)

theorem udivdi3_correct_witness:
  "udivdi3 1000000000000 7 = Some 142857142857 \<and> umoddi3 1000000000000 7 = Some 1 \<and> udivdi3 (- 1) 3 = None"
  using udivdi3_correct [of 7 1000000000000] udivdi3_correct [of 3 0] by (simp add: word_unat_eq_iff)

text \<open>The signed 64-bit helpers divide by repeated subtraction: away from the most negative
  value they return the truncated quotient and the remainder with the sign of the dividend. The most
  negative divisor makes the loop endless; the most negative dividend is answered with quotient 0.\<close>

theorem divdi3_correct:
  "(b \<noteq> 0 \<and> sint a \<noteq> - (2 ^ 63) \<and> sint b \<noteq> - (2 ^ 63) \<longrightarrow>
      divdi3 a b = Some (word_of_int (sint a sdiv sint b)) \<and> moddi3 a b = Some (word_of_int (sint a smod sint b)))
   \<and> (sint b = - (2 ^ 63) \<longrightarrow> divdi3 a b = None \<and> moddi3 a b = None)
   \<and> (sint a = - (2 ^ 63) \<and> 0 < sint b \<longrightarrow> divdi3 a b = Some 0)"
proof (intro conjI impI)
  assume d: "b \<noteq> 0 \<and> sint a \<noteq> - (2 ^ 63) \<and> sint b \<noteq> - (2 ^ 63)"
  let ?m = "nat \<bar>sint a\<bar>" and ?n = "nat \<bar>sint b\<bar>"
  have n0: "0 < ?n" using d by (simp add: sint_zero)
  have a: "(if sint a < 0 then - a else a) = word_of_nat ?m" "?m < 2 ^ 63" and
    b: "(if sint b < 0 then - b else b) = word_of_nat ?n" "?n < 2 ^ 63"
    using magnitude [of a] magnitude [of b] d by simp_all
  have run: "subtract_all (if sint a < 0 then - a else a) (if sint b < 0 then - b else b) 0
     = Some (word_of_nat (?m div ?n), word_of_nat (?m mod ?n))"
    unfolding a(1) b(1) using subtract_all_divides [OF a(2) n0 b(2), of 0] by simp
  have q: "int (?m div ?n) = \<bar>sint a\<bar> div \<bar>sint b\<bar>" "int (?m mod ?n) = \<bar>sint a\<bar> mod \<bar>sint b\<bar>"
    by (simp_all add: zdiv_int zmod_int)
  have wq: "(word_of_nat (?m div ?n) :: u64) = word_of_int (\<bar>sint a\<bar> div \<bar>sint b\<bar>)"
    "(word_of_nat (?m mod ?n) :: u64) = word_of_int (\<bar>sint a\<bar> mod \<bar>sint b\<bar>)"
    unfolding q [symmetric] by simp_all
  have sb: "sint b \<noteq> 0" using d by (simp add: sint_zero)
  have "divdi3 a b = Some (word_of_nat (?m div ?n) * (if sint b < 0 then - (if sint a < 0 then - 1 else 1) else if sint a < 0 then - 1 else 1))"
    using d by (simp only: divdi3_def Let_def run option.map split if_False)
  then show "divdi3 a b = Some (word_of_int (sint a sdiv sint b))" unfolding wq signed_word(1) [OF sb] .
  have "moddi3 a b = Some (word_of_nat (?m mod ?n) * (if sint a < 0 then - 1 else 1))"
    using d by (simp only: moddi3_def Let_def run option.map split if_False)
  then show "moddi3 a b = Some (word_of_int (sint a smod sint b))" unfolding wq signed_word(2) [OF sb] .
next
  assume b: "sint b = - (2 ^ 63)"
  then have "b \<noteq> 0" by auto
  have "b = word_of_int (sint b)" by simp
  then have nb: "- b = b" unfolding b by simp
  have "subtract_all x (- b) 0 = None" for x unfolding nb by (rule subtract_all_diverges [OF b])
  then show "divdi3 a b = None" "moddi3 a b = None"
    using b \<open>b \<noteq> 0\<close> by (simp_all add: divdi3_def moddi3_def)
next
  assume ab: "sint a = - (2 ^ 63) \<and> 0 < sint b"
  then have "b \<noteq> 0" by auto
  have "a = word_of_int (sint a)" by simp
  then have na: "- a = a" using ab by simp
  have "subtract_all (- a) b 0 = Some (0, a)" unfolding na using ab by (subst subtract_all.simps) simp
  then show "divdi3 a b = Some 0" using ab \<open>b \<noteq> 0\<close> by (simp add: divdi3_def)
qed

theorem divdi3_correct_witness:
  "divdi3 (- 7) 2 = Some (- 3) \<and> moddi3 (- 7) 2 = Some (- 1)"
  using divdi3_correct [of 2 "- 7"] by (simp add: sint_cases)

end
