(* ===== verification/KNumIn.thy ===== *)
theory KNumIn
  imports KNumOut KArith
begin

text \<open>
  Text to numbers: strtol, strtoul, atoi and atol of lib/klibc/strtol.c, the second strtol and
  strtoul of lib/stdlib, strntoumax and strtoll, the character classes (isdigit and the rest),
  the case functions and strcasecmp. A parser returns its value together with the pointer it stores
  through \<open>endptr\<close>; \<open>base\<close>, an int passed by value, is an \<open>int\<close> here, characters are bytes read as
  signed chars where the source compares them as such. The limits of strtol are quotients and
  remainders of longs by the base, which on a 68000 are calls of __divsi3 and __modsi3: the model calls
  \<open>divsi3\<close> and \<open>modsi3\<close> of KArith. The divisions of strtoul in lib/stdlib are of an unsigned long
  by a base below 65536; \<open>udivsi3_quotient\<close> and \<open>umodsi3_remainder\<close> of KArith show that the helpers
  give the exact quotient, and the exact remainder in a register whose high half is clear, so they are
  written \<open>div\<close> and \<open>mod\<close>.
\<close>

subsection \<open>Character classes\<close>

definition isalpha :: "u8 \<Rightarrow> u8" where
  "isalpha c = (if 0x41 \<le> sint c \<and> sint c \<le> 0x5A \<or> 0x61 \<le> sint c \<and> sint c \<le> 0x7A then 1 else 0)"

text \<open>The upper bound of isdigit is the decimal 39 of the source.\<close>

definition isdigit :: "u8 \<Rightarrow> u8" where
  "isdigit c = (if 0x30 \<le> sint c \<and> sint c \<le> 39 then 1 else 0)"

definition islower :: "u8 \<Rightarrow> u8" where
  "islower c = (if 0x61 \<le> sint c \<and> sint c \<le> 0x7A then 1 else 0)"

definition isupper :: "u8 \<Rightarrow> u8" where
  "isupper c = (if 0x41 \<le> sint c \<and> sint c \<le> 0x5A then 1 else 0)"

definition isspace :: "u8 \<Rightarrow> u8" where
  "isspace c = (if sint c = 0x20 then 1 else 0)"

definition tolower :: "int \<Rightarrow> int" where
  "tolower c = (if 0x41 \<le> c \<and> c \<le> 0x5A then c + (0x61 - 0x41) else c)"

definition toupper :: "int \<Rightarrow> int" where
  "toupper c = (if 0x61 \<le> c \<and> c \<le> 0x7A then c - (0x61 - 0x41) else c)"

partial_function (option) tolower_str :: "mem \<Rightarrow> addr \<Rightarrow> mem option" where
  "tolower_str m str =
     (if m str \<noteq> 0
      then tolower_str (if 0x41 \<le> sint (m str) \<and> sint (m str) \<le> 0x5A
                        then m(str := m str + (0x61 - 0x41)) else m) (str + 1)
      else Some m)"

partial_function (option) toupper_str :: "mem \<Rightarrow> addr \<Rightarrow> mem option" where
  "toupper_str m str =
     (if m str \<noteq> 0
      then toupper_str (if 0x61 \<le> sint (m str) \<and> sint (m str) \<le> 0x7A
                        then m(str := m str - (0x61 - 0x41)) else m) (str + 1)
      else Some m)"

definition fold_case :: "u8 \<Rightarrow> u8" where
  "fold_case c = (if 0x41 \<le> sint c \<and> sint c \<le> 0x5A then c + 32 else c)"

partial_function (option) strcasecmp :: "mem \<Rightarrow> addr \<Rightarrow> addr \<Rightarrow> int option" where
  "strcasecmp m s1 s2 =
     (if m s1 \<noteq> 0 \<and> m s2 \<noteq> 0
      then let c1 = fold_case (m s1); c2 = fold_case (m s2)
           in if c1 \<noteq> c2 then Some (sint c1 - sint c2) else strcasecmp m (s1 + 1) (s2 + 1)
      else Some (sint (m s1) - sint (m s2)))"

subsection \<open>klibc/strtol.c\<close>

definition LONG_MAX :: int where "LONG_MAX = 2 ^ 31 - 1"
definition LONG_MIN :: int where "LONG_MIN = - (2 ^ 31)"
definition ULONG_MAX :: u32 where "ULONG_MAX = 0xFFFFFFFF"

text \<open>The digit a character stands for; the order of the tests differs between the two files, the
  ranges do not overlap.\<close>

definition digit_value :: "int \<Rightarrow> int option" where
  "digit_value c =
     (if 0x30 \<le> c \<and> c \<le> 0x39 then Some (c - 0x30)
      else if 0x41 \<le> c \<and> c \<le> 0x5A then Some (10 + (c - 0x41))
      else if 0x61 \<le> c \<and> c \<le> 0x7A then Some (10 + (c - 0x61))
      else None)"

partial_function (option) skip_blanks :: "mem \<Rightarrow> u8 list \<Rightarrow> addr \<Rightarrow> addr option" where
  "skip_blanks m blanks s = (if m s \<in> set blanks then skip_blanks m blanks (s + 1) else Some s)"

text \<open>The base and the first digit when \<open>base\<close> is 0.\<close>

definition detect_base :: "mem \<Rightarrow> addr \<Rightarrow> int \<Rightarrow> addr \<times> int" where
  "detect_base m s base =
     (if base = 0 then
        (if m s = 0x30 then
           (let s = s + 1
            in if m s = 0x78 \<or> m s = 0x58 then (s + 1, 16) else (s - 1, 8))
         else (s, 10))
      else (s, base))"

text \<open>The quotient and the remainder of two longs, as the program computes them. \<open>g\<close> is what the
  result register held before __modsi3 wrote its low half. A divisor with a zero low word is a processor
  exception, whatever the dividend, so the four of one turn of the loop may be evaluated at once; \<open>C\<close>
  evaluates those its short circuits reach.\<close>

definition long_div :: "u32 \<Rightarrow> int \<Rightarrow> int \<Rightarrow> int option" where
  "long_div g a b = map_option sint (divsi3 g (word_of_int a) (word_of_int b))"

definition long_mod :: "u32 \<Rightarrow> int \<Rightarrow> int \<Rightarrow> int option" where
  "long_mod g a b = map_option sint (modsi3 g (word_of_int a) (word_of_int b))"

definition strtol_limits :: "u32 \<Rightarrow> int \<Rightarrow> (int \<times> int \<times> int \<times> int) option" where
  "strtol_limits g base =
     (case (long_div g LONG_MAX base, long_mod g LONG_MAX base, long_div g LONG_MIN base, long_mod g LONG_MIN base) of
        (Some max_quot, Some max_rem, Some min_quot, Some min_rem) \<Rightarrow> Some (max_quot, max_rem, min_quot, min_rem)
      | _ \<Rightarrow> None)"

partial_function (option) strtol_loop :: "u32 \<Rightarrow> mem \<Rightarrow> addr \<Rightarrow> u32 \<Rightarrow> int \<Rightarrow> int \<Rightarrow> (u32 \<times> addr \<times> bool) option" where
  "strtol_loop g m s result sign base =
     (if m s = 0 then Some (result, s, False)
      else case digit_value (sint (m s)) of
             None \<Rightarrow> Some (result, s, False)
           | Some digit \<Rightarrow>
               if digit \<ge> base then Some (result, s, False)
               else (case strtol_limits g base of
                 None \<Rightarrow> None
               | Some (max_quot, max_rem, min_quot, min_rem) \<Rightarrow>
                   let next_result = result * word_of_int base + word_of_int digit
                   in if sint result > max_quot \<or> sint result = max_quot \<and> digit > max_rem
                      then Some (word_of_int LONG_MAX, s, True)
                      else if sign = - 1
                         \<and> (sint result < min_quot \<or> sint result = min_quot \<and> digit > - min_rem)
                      then Some (word_of_int LONG_MIN, s, True)
                      else strtol_loop g m (s + 1) next_result sign base))"

definition strtol :: "u32 \<Rightarrow> mem \<Rightarrow> addr \<Rightarrow> int \<Rightarrow> (u32 \<times> addr) option" where
  "strtol g m nptr base =
     (case skip_blanks m [0x20, 0x09, 0x0A, 0x0D, 0x0B, 0x0C] nptr of
        None \<Rightarrow> None
      | Some s \<Rightarrow>
          let (s, sign) = (if m s = 0x2D then (s + 1, - 1) else if m s = 0x2B then (s + 1, 1) else (s, 1));
              (s, base) = detect_base m s base
          in if base < 2 \<or> base > 36 then Some (0, nptr)
             else map_option (\<lambda>(result, s, overflow).
                    (if sign = - 1 \<and> \<not> overflow then - result else result, s))
                  (strtol_loop g m s 0 sign base))"

definition atol :: "u32 \<Rightarrow> mem \<Rightarrow> addr \<Rightarrow> u32 option" where
  "atol g m nptr = map_option fst (strtol g m nptr 10)"

definition atoi :: "u32 \<Rightarrow> mem \<Rightarrow> addr \<Rightarrow> u32 option" where
  "atoi g m nptr = map_option fst (strtol g m nptr 10)"

partial_function (option) strtoul_loop :: "mem \<Rightarrow> addr \<Rightarrow> u32 \<Rightarrow> int \<Rightarrow> (u32 \<times> addr) option" where
  "strtoul_loop m s result base =
     (if m s = 0 then Some (result, s)
      else case digit_value (sint (m s)) of
             None \<Rightarrow> Some (result, s)
           | Some digit \<Rightarrow>
               if digit \<ge> base then Some (result, s)
               else let next_result = result * word_of_int base + word_of_int digit
                 in if next_result < result then Some (ULONG_MAX, s)
                    else strtoul_loop m (s + 1) next_result base)"

definition strtoul :: "mem \<Rightarrow> addr \<Rightarrow> int \<Rightarrow> (u32 \<times> addr) option" where
  "strtoul m nptr base =
     (case skip_blanks m [0x20, 0x09, 0x0A] nptr of
        None \<Rightarrow> None
      | Some s \<Rightarrow>
          let (s, base) = detect_base m s base
          in if base < 2 \<or> base > 36 then Some (0, nptr) else strtoul_loop m s 0 base)"

subsection \<open>stdlib/strtoul.c and stdlib/strtol.c\<close>

text \<open>\<open>c\<close> is the character already read and \<open>s\<close> the pointer behind it.\<close>

partial_function (option) stdlib_strtoul_loop ::
    "mem \<Rightarrow> int \<Rightarrow> addr \<Rightarrow> u32 \<Rightarrow> int \<Rightarrow> int \<Rightarrow> u32 \<Rightarrow> int \<Rightarrow> (u32 \<times> int \<times> addr) option" where
  "stdlib_strtoul_loop m c s acc any base cutoff cutlim =
     (case digit_value c of
        None \<Rightarrow> Some (acc, any, s)
      | Some c \<Rightarrow>
          if c \<ge> base then Some (acc, any, s)
          else let (acc, any) =
                 (if any < 0 then (acc, any)
                  else if acc > cutoff \<or> acc = cutoff \<and> c > cutlim then (ULONG_MAX, - 1)
                  else (acc * word_of_int base + word_of_int c, 1))
               in stdlib_strtoul_loop m (sint (m s)) (s + 1) acc any base cutoff cutlim)"

partial_function (option) read_nonblank :: "mem \<Rightarrow> addr \<Rightarrow> (int \<times> addr) option" where
  "read_nonblank m s =
     (let c = sint (m s); s = s + 1
      in if c \<in> {0x20, 0x09, 0x0A, 0x0D, 0x0B, 0x0C} then read_nonblank m s else Some (c, s))"

definition stdlib_strtoul :: "mem \<Rightarrow> addr \<Rightarrow> int \<Rightarrow> (u32 \<times> addr) option" where
  "stdlib_strtoul m nptr base =
     (case read_nonblank m nptr of
        None \<Rightarrow> None
      | Some (c, s) \<Rightarrow>
          let (neg, c, s) = (if c = 0x2D then (True, sint (m s), s + 1)
                             else if c = 0x2B then (False, sint (m s), s + 1) else (False, c, s));
              (c, s, base) = (if (base = 0 \<or> base = 16) \<and> c = 0x30 \<and> (m s = 0x78 \<or> m s = 0x58)
                              then (sint (m (s + 1)), s + 2, 16) else (c, s, base));
              base = (if base = 0 then if c = 0x30 then 8 else 10 else base);
              cutoff = ULONG_MAX div word_of_int base;
              cutlim = sint (ULONG_MAX mod word_of_int base)
          in map_option (\<lambda>(acc, any, s).
               (if neg \<and> any > 0 then - acc else acc, if any \<noteq> 0 then s - 1 else nptr))
             (stdlib_strtoul_loop m c s 0 0 base cutoff cutlim))"

partial_function (option) stdlib_strtol :: "mem \<Rightarrow> addr \<Rightarrow> u32 \<Rightarrow> u32 option" where
  "stdlib_strtol m str resultado =
     (if 0x30 \<le> sint (m str) \<and> sint (m str) \<le> 0x39
      then stdlib_strtol m (str + 1) (resultado * 10 + (scast (m str) - 0x30))
      else Some resultado)"

subsection \<open>stdlib/strntoumax.c and strtoll.c\<close>

definition digitval :: "u8 \<Rightarrow> int" where
  "digitval ch =
     (let d = (ucast ch - 0x30 :: u32) in if d < 10 then uint d
      else let d = (ucast ch - 0x61 :: u32) in if d < 6 then uint (d + 10)
      else let d = (ucast ch - 0x41 :: u32) in if d < 6 then uint (d + 10) else - 1)"

function skip_spaces :: "mem \<Rightarrow> addr \<Rightarrow> addr \<Rightarrow> addr" where
  "skip_spaces m p e = (if p < e \<and> isspace (m p) \<noteq> 0 then skip_spaces m (p + 1) e else p)"
  by pat_completeness auto
termination
proof (relation "measure (\<lambda>(m, p, e). unat e - unat p)")
  fix m :: mem and p e :: addr assume c: "p < e \<and> isspace (m p) \<noteq> (0 :: u8)"
  then have "unat p < unat e" by (simp add: word_less_nat_alt)
  moreover have "unat (p + 1) = unat p + 1"
    using unat_plus_small [of p 1] \<open>unat p < unat e\<close> unat_less32 [of e] by simp
  ultimately show "((m, p + 1, e), (m, p, e)) \<in> measure (\<lambda>(m, p, e). unat e - unat p)" by simp
qed simp

function umax_loop :: "mem \<Rightarrow> addr \<Rightarrow> addr \<Rightarrow> u64 \<Rightarrow> int \<Rightarrow> u64 \<times> addr" where
  "umax_loop m p e v base =
     (if p < e \<and> digitval (m p) \<ge> 0 \<and> digitval (m p) < base
      then umax_loop m (p + 1) e (v * word_of_int base + word_of_int (digitval (m p))) base
      else (v, p))"
  by pat_completeness auto
termination
proof (relation "measure (\<lambda>(m, p, e, v, b). unat e - unat p)")
  fix m :: mem and p e :: addr and v :: u64 and b :: int assume c: "p < e \<and> digitval (m p) \<ge> 0 \<and> digitval (m p) < b"
  then have "unat p < unat e" by (simp add: word_less_nat_alt)
  moreover have "unat (p + 1) = unat p + 1"
    using unat_plus_small [of p 1] \<open>unat p < unat e\<close> unat_less32 [of e] by simp
  ultimately show "((m, p + 1, e, v * word_of_int b + word_of_int (digitval (m p)), b), (m, p, e, v, b))
      \<in> measure (\<lambda>(m, p, e, v, b). unat e - unat p)" by simp
qed simp

declare skip_spaces.simps [simp del] umax_loop.simps [simp del]

definition strntoumax :: "mem \<Rightarrow> addr \<Rightarrow> int \<Rightarrow> u32 \<Rightarrow> u64 \<times> addr" where
  "strntoumax m nptr base n =
     (let e = nptr + n;
          p = skip_spaces m nptr e;
          (minus, p) = (if p < e \<and> (m p = 0x2D \<or> m p = 0x2B) then (m p = 0x2D, p + 1) else (False, p));
          hex = (p + 2 < e \<and> m p = 0x30 \<and> (m (p + 1) = 0x78 \<or> m (p + 1) = 0x58));
          (p, base) =
            (if base = 0 then
               (if hex then (p + 2, 16) else if p + 1 < e \<and> m p = 0x30 then (p + 1, 8) else (p, 10))
             else if base = 16 \<and> hex then (p + 2, 16) else (p, base));
          (v, p) = umax_loop m p e 0 base
      in (if minus then - v else v, p))"

definition strtoll :: "mem \<Rightarrow> addr \<Rightarrow> int \<Rightarrow> u64 \<times> addr" where
  "strtoll m nptr base = strntoumax m nptr base (NOT 0)"

definition atoll :: "mem \<Rightarrow> addr \<Rightarrow> u64" where
  "atoll m str = fst (strtoll m str 10)"

section \<open>Runs of digits\<close>

text \<open>\<open>digits_at m p b ds\<close>: the longest run of base \<open>b\<close> digits at \<open>p\<close> has the values \<open>ds\<close>.\<close>

fun digits_at :: "mem \<Rightarrow> addr \<Rightarrow> int \<Rightarrow> int list \<Rightarrow> bool" where
  "digits_at m p b [] \<longleftrightarrow> (case digit_value (sint (m p)) of None \<Rightarrow> True | Some d \<Rightarrow> b \<le> d)"
| "digits_at m p b (d # ds) \<longleftrightarrow> digit_value (sint (m p)) = Some d \<and> d < b \<and> digits_at m (p + 1) b ds"

definition value_of :: "int \<Rightarrow> int \<Rightarrow> int list \<Rightarrow> int" where
  "value_of b r ds = foldl (\<lambda>a d. a * b + d) r ds"

lemma value_of_simps [simp]:
  "value_of b r [] = r" "value_of b r (d # ds) = value_of b (r * b + d) ds"
  by (simp_all add: value_of_def)

lemma digit_value_nonneg: "digit_value c = Some d \<Longrightarrow> 0 \<le> d \<and> c \<noteq> 0"
  by (auto simp: digit_value_def split: if_splits)

lemma value_of_ge:
  assumes "1 \<le> b"
  shows "0 \<le> r \<Longrightarrow> digits_at m p b ds \<Longrightarrow> r \<le> value_of b r ds"
proof (induction ds arbitrary: r p)
  case (Cons d ds)
  have d: "0 \<le> d" using Cons.prems(2) digit_value_nonneg [of "sint (m p)" d] by simp
  have "r \<le> r * b" using mult_left_mono [OF assms Cons.prems(1)] by simp
  then have "r \<le> r * b + d" using d by simp
  moreover have "r * b + d \<le> value_of b (r * b + d) ds"
    using Cons.prems d \<open>r \<le> r * b\<close> by (intro Cons.IH [of _ "p + 1"]) simp_all
  ultimately show ?case by simp
qed simp

lemma overflow_test:
  fixes M b r d :: int
  assumes "0 < b" and "0 \<le> d" and "d < b"
  shows "(r > M div b \<or> r = M div b \<and> d > M mod b) \<longleftrightarrow> r * b + d > M"
proof -
  have M: "M = (M div b) * b + M mod b" by simp
  consider "r \<le> M div b - 1" | "r = M div b" | "M div b + 1 \<le> r" by linarith
  then show ?thesis
  proof cases
    case 1
    then have "r * b \<le> (M div b - 1) * b" using assms(1) by (intro mult_right_mono) simp_all
    moreover have "(M div b - 1) * b = M div b * b - b" by (simp add: left_diff_distrib)
    ultimately have "r * b + d \<le> M" using assms M pos_mod_sign [OF assms(1), of M] by linarith
    then show ?thesis using 1 by simp
  next
    case 2
    have "M mod b < d \<longleftrightarrow> M < M div b * b + d" using M by linarith
    then show ?thesis unfolding 2 by (simp only: less_irrefl simp_thms)
  next
    case 3
    then have "(M div b + 1) * b \<le> r * b" using assms(1) by (intro mult_right_mono) simp_all
    moreover have "(M div b + 1) * b = M div b * b + b" by (simp add: distrib_right)
    ultimately have "M < r * b + d" using assms M pos_mod_bound [OF assms(1), of M] by linarith
    then show ?thesis using 3 by simp
  qed
qed

lemma sint_word_of_int: "0 \<le> r \<Longrightarrow> r \<le> LONG_MAX \<Longrightarrow> sint (word_of_int r :: u32) = r"
  unfolding LONG_MAX_def signed_of_int by (simp add: signed_take_bit_int_eq_self)

lemma uint_word_of_int32: "0 \<le> r \<Longrightarrow> r < 2 ^ 32 \<Longrightarrow> uint (word_of_int r :: u32) = r"
  unfolding unsigned_of_int by (simp add: take_bit_int_eq_self)

text \<open>The helpers divide the bit pattern of LONG_MIN as an unsigned number: the quotient by a base is
  positive, where C has it negative.\<close>

lemma long_div_base:
  assumes "2 \<le> b" "b \<le> 36" and "N = uint (word_of_int n :: u32)"
  shows "long_div g n b = Some (N div b)" and "unat g < 65536 \<Longrightarrow> long_mod g n b = Some (N mod b)"
proof -
  let ?n = "word_of_int n :: u32"
  have ub: "unat (word_of_int b :: u32) = nat b" using assms(1,2) by (simp add: unat_eq_nat_uint uint_word_of_int32)
  have N: "N = int (unat ?n)" "N < 2 ^ 32" using assms(3) uint_less32 [of ?n] by simp_all
  have b: "b = int (nat b)" using assms(1) by simp
  have b0: "nat b = unat (word_of_int b :: u32) mod 65536" "0 < nat b" using ub assms(1,2) by simp_all
  have q: "int (unat ?n div nat b) = N div b" and r: "int (unat ?n mod nat b) = N mod b"
    using N(1) b by (simp_all add: zdiv_int zmod_int del: of_nat_unat)
  have "N div b \<le> N div 2" using assms(1) N(1) by (intro zdiv_mono2) simp_all
  then have small: "N div b < 2 ^ 31" using N(2) by simp
  have "N mod b < b" using assms(1) by simp
  then have small_mod: "N mod b < 2 ^ 31" using assms(2) by simp
  have s: "sint w = int (unat w)" if "int (unat w) < 2 ^ 31" for w :: u32
    using that by (auto simp: sint_cases)
  obtain w where w: "divsi3 g ?n (word_of_int b) = Some w" "unat w = unat ?n div nat b"
    using udivsi3_quotient [OF b0] unfolding divsi3_udivsi3 by blast
  then show "long_div g n b = Some (N div b)" using s [of w] small q by (simp add: long_div_def)
  assume "unat g < 65536"
  moreover obtain w where "modsi3 g ?n (word_of_int b) = Some w"
    "unat w = (unat g div 65536) * 65536 + unat ?n mod nat b"
    using umodsi3_remainder [OF b0] unfolding modsi3_umodsi3 by blast
  ultimately show "long_mod g n b = Some (N mod b)" using s [of w] small_mod r by (simp add: long_mod_def)
qed

lemma strtol_limits_base:
  assumes "2 \<le> b" "b \<le> 36" and "unat g < 65536"
  shows "strtol_limits g b = Some (LONG_MAX div b, LONG_MAX mod b, 2 ^ 31 div b, 2 ^ 31 mod b)"
proof -
  have "LONG_MAX = uint (word_of_int LONG_MAX :: u32)" "2 ^ 31 = uint (word_of_int LONG_MIN :: u32)"
    by (simp_all add: LONG_MAX_def LONG_MIN_def)
  then show ?thesis using long_div_base [OF assms(1,2)] assms(3) by (simp add: strtol_limits_def)
qed

lemma strtol_loop_eq:
  assumes b: "2 \<le> b" "b \<le> 36" and g: "unat g < 65536"
  shows "0 \<le> r \<Longrightarrow> r \<le> LONG_MAX \<Longrightarrow> digits_at m p b ds \<Longrightarrow>
    (if value_of b r ds \<le> LONG_MAX
     then strtol_loop g m p (word_of_int r) 1 b
       = Some (word_of_int (value_of b r ds), p + word_of_nat (length ds), False)
     else \<exists>s. strtol_loop g m p (word_of_int r) 1 b = Some (word_of_int LONG_MAX, s, True))"
proof (induction ds arbitrary: r p)
  case Nil
  then show ?case by (subst strtol_loop.simps) (auto split: option.splits)
next
  case (Cons d ds)
  have dv: "digit_value (sint (m p)) = Some d" and db: "d < b" and rest: "digits_at m (p + 1) b ds"
    using Cons.prems(3) by simp_all
  have d0: "0 \<le> d" and nz: "m p \<noteq> 0" using digit_value_nonneg [OF dv] by auto
  have sr: "sint (word_of_int r :: u32) = r" using Cons.prems by (intro sint_word_of_int)
  have test: "(r > LONG_MAX div b \<or> r = LONG_MAX div b \<and> d > LONG_MAX mod b) \<longleftrightarrow> r * b + d > LONG_MAX"
    using b d0 db by (intro overflow_test) simp_all
  have nx: "word_of_int r * word_of_int b + word_of_int d = (word_of_int (r * b + d) :: u32)" by simp
  have step: "strtol_loop g m p (word_of_int r) 1 b
      = (if r * b + d > LONG_MAX then Some (word_of_int LONG_MAX, p, True)
         else strtol_loop g m (p + 1) (word_of_int (r * b + d)) 1 b)"
    using nz dv db test strtol_limits_base [OF b g] unfolding nx [symmetric]
    by (subst strtol_loop.simps) (simp add: sr Let_def)
  have ge: "0 \<le> r * b + d" using Cons.prems(1) b d0 by simp
  show ?case
  proof (cases "r * b + d > LONG_MAX")
    case True
    have "r * b + d \<le> value_of b (r * b + d) ds" using b rest ge by (intro value_of_ge) simp_all
    then show ?thesis using True step by simp
  next
    case False
    then show ?thesis using Cons.IH [OF ge _ rest] step by (simp add: add.assoc del: of_int_add of_int_mult)
  qed
qed

text \<open>With a minus sign the first digit already fails the test against \<open>LONG_MIN / base\<close>.\<close>

lemma strtol_loop_negative:
  assumes b: "2 \<le> b" "b \<le> 36" and g: "unat g < 65536" and ds: "digits_at m p b ds"
  shows "strtol_loop g m p 0 (- 1) b = Some (if ds = [] then 0 else word_of_int LONG_MIN, p, ds \<noteq> [])"
proof (cases ds)
  case Nil
  then show ?thesis using ds by (subst strtol_loop.simps) (auto split: option.splits)
next
  case (Cons d ds')
  then have dv: "digit_value (sint (m p)) = Some d" "d < b" using ds by simp_all
  have nz: "m p \<noteq> 0" using digit_value_nonneg [OF dv(1)] by auto
  have "0 < LONG_MAX div b" "0 < 2 ^ 31 div b" using b by (simp_all add: pos_imp_zdiv_pos_iff LONG_MAX_def)
  then show ?thesis using nz dv Cons strtol_limits_base [OF b g] by (subst strtol_loop.simps) simp
qed

lemma strtoul_loop_eq:
  assumes b: "2 \<le> b" "b \<le> 36"
  shows "0 \<le> r \<Longrightarrow> digits_at m p b ds \<Longrightarrow> value_of b r ds < 2 ^ 32 \<Longrightarrow>
    strtoul_loop m p (word_of_int r) b = Some (word_of_int (value_of b r ds), p + word_of_nat (length ds))"
proof (induction ds arbitrary: r p)
  case Nil
  then show ?case by (subst strtoul_loop.simps) (auto split: option.splits)
next
  case (Cons d ds)
  have dv: "digit_value (sint (m p)) = Some d" and db: "d < b" and rest: "digits_at m (p + 1) b ds"
    using Cons.prems(2) by simp_all
  have d0: "0 \<le> d" and nz: "m p \<noteq> 0" using digit_value_nonneg [OF dv] by auto
  have ge: "0 \<le> r * b + d" using Cons.prems(1) b d0 by simp
  have le: "r \<le> r * b + d" using mult_left_mono [of 1 b r] Cons.prems(1) b d0 by simp
  have "r * b + d \<le> value_of b (r * b + d) ds" using b rest ge by (intro value_of_ge) simp_all
  then have small: "r * b + d < 2 ^ 32" using Cons.prems(3) by simp
  have nx: "word_of_int r * word_of_int b + word_of_int d = (word_of_int (r * b + d) :: u32)" by simp
  have rs: "r < 2 ^ 32" using le small by simp
  have "\<not> (word_of_int (r * b + d) :: u32) < word_of_int r"
    using le small ge Cons.prems(1)
    by (simp only: word_less_def uint_word_of_int32 [OF Cons.prems(1) rs] uint_word_of_int32 [OF ge small] not_less)
  then have "strtoul_loop m p (word_of_int r) b = strtoul_loop m (p + 1) (word_of_int (r * b + d)) b"
    using nz dv db unfolding nx [symmetric]
    by (subst strtoul_loop.simps) (simp only: Let_def option.simps if_False not_le [symmetric] not_not simp_thms split: if_split)
  then show ?case using Cons.IH [OF ge rest] Cons.prems(3) by (simp add: add.assoc del: of_int_add of_int_mult)
qed

text \<open>The loop of stdlib/strtoul.c reads all the digits, and saturates.\<close>

lemma stdlib_loop_full:
  "digits_at m p b ds \<Longrightarrow>
    stdlib_strtoul_loop m (sint (m p)) (p + 1) acc (- 1) b co cl
      = Some (acc, - 1, p + 1 + word_of_nat (length ds))"
proof (induction ds arbitrary: p)
  case Nil
  then show ?case by (subst stdlib_strtoul_loop.simps) (auto split: option.splits)
next
  case (Cons d ds)
  then show ?case using Cons.IH [of "p + 1"] by (subst stdlib_strtoul_loop.simps) (simp add: add.assoc)
qed

lemma stdlib_loop_eq:
  assumes b: "2 \<le> b" "b \<le> 36"
    and co: "co = ULONG_MAX div word_of_int b" and cl: "cl = sint (ULONG_MAX mod word_of_int b)"
  shows "0 \<le> r \<Longrightarrow> r < 2 ^ 32 \<Longrightarrow> digits_at m p b ds \<Longrightarrow> 0 \<le> any \<Longrightarrow>
    stdlib_strtoul_loop m (sint (m p)) (p + 1) (word_of_int r) any b co cl
      = (if value_of b r ds < 2 ^ 32
         then Some (word_of_int (value_of b r ds), if ds = [] then any else 1, p + 1 + word_of_nat (length ds))
         else Some (ULONG_MAX, - 1, p + 1 + word_of_nat (length ds)))"
proof (induction ds arbitrary: r p any)
  case Nil
  then show ?case by (subst stdlib_strtoul_loop.simps) (auto split: option.splits)
next
  case (Cons d ds)
  let ?M = "2 ^ 32 - 1 :: int"
  have dv: "digit_value (sint (m p)) = Some d" and db: "d < b" and rest: "digits_at m (p + 1) b ds"
    using Cons.prems(3) by simp_all
  have d0: "0 \<le> d" using digit_value_nonneg [OF dv] by simp
  have ge: "0 \<le> r * b + d" using Cons.prems(1) b d0 by simp
  have ub: "uint (word_of_int b :: u32) = b" using b by (intro uint_word_of_int32) simp_all
  have uM: "uint ULONG_MAX = ?M" by (simp add: ULONG_MAX_def)
  have uco: "uint co = ?M div b" unfolding co uint_div ub uM ..
  have um: "uint (ULONG_MAX mod word_of_int b :: u32) = ?M mod b" unfolding uint_mod ub uM ..
  have "?M mod b < 36" using b pos_mod_bound [of b ?M] by linarith
  then have ucl: "cl = ?M mod b" unfolding cl sint_cases um by simp
  have ur: "uint (word_of_int r :: u32) = r" using Cons.prems by (intro uint_word_of_int32)
  have acc: "(word_of_int r > co \<or> word_of_int r = co \<and> d > cl) \<longleftrightarrow> r * b + d > ?M"
    unfolding word_less_def word_uint_eq_iff uco ucl ur using overflow_test [of b d ?M r] b d0 db by simp
  have nx: "word_of_int r * word_of_int b + word_of_int d = (word_of_int (r * b + d) :: u32)" by simp
  have grow: "r * b + d \<le> value_of b (r * b + d) ds" using b rest ge by (intro value_of_ge) simp_all
  show ?case
  proof (cases "r * b + d > ?M")
    case True
    then have "stdlib_strtoul_loop m (sint (m p)) (p + 1) (word_of_int r) any b co cl
        = stdlib_strtoul_loop m (sint (m (p + 1))) (p + 1 + 1) ULONG_MAX (- 1) b co cl"
      using dv db acc Cons.prems(4) by (subst stdlib_strtoul_loop.simps) simp
    then show ?thesis using stdlib_loop_full [OF rest] True grow by (simp add: add.assoc)
  next
    case False
    then have small: "r * b + d < 2 ^ 32" by simp
    have nt: "\<not> (word_of_int r > co \<or> word_of_int r = co \<and> d > cl)" using acc False by blast
    have na: "\<not> any < 0" and nb: "\<not> b \<le> d" using Cons.prems(4) db by simp_all
    have "stdlib_strtoul_loop m (sint (m p)) (p + 1) (word_of_int r) any b co cl
        = stdlib_strtoul_loop m (sint (m (p + 1))) (p + 1 + 1) (word_of_int (r * b + d)) 1 b co cl"
      unfolding nx [symmetric]
      by (subst stdlib_strtoul_loop.simps) (simp only: dv option.simps Let_def na nb nt if_False prod.case)
    also have "\<dots> = (if value_of b (r * b + d) ds < 2 ^ 32
         then Some (word_of_int (value_of b (r * b + d) ds), if ds = [] then 1 else 1, p + 1 + 1 + word_of_nat (length ds))
         else Some (ULONG_MAX, - 1, p + 1 + 1 + word_of_nat (length ds)))"
      by (rule Cons.IH [OF ge small rest]) simp
    finally show ?thesis by (simp add: add.assoc del: of_int_add of_int_mult)
  qed
qed

section \<open>Blanks and sign\<close>

lemma skip_blanks_eq:
  "set (rd_bytes m p k) \<subseteq> set bl \<Longrightarrow> m (p + word_of_nat k) \<notin> set bl \<Longrightarrow>
    skip_blanks m bl p = Some (p + word_of_nat k)"
proof (induction k arbitrary: p)
  case 0
  then show ?case by (subst skip_blanks.simps) simp
next
  case (Suc k)
  have "set (rd_bytes m (p + 1) k) \<subseteq> set bl" "m (p + 1 + word_of_nat k) \<notin> set bl" "m p \<in> set bl"
    using Suc.prems by (simp_all add: rd_bytes_Suc add.assoc)
  then show ?case using Suc.IH [of "p + 1"] by (subst skip_blanks.simps) (simp add: add.assoc)
qed

abbreviation blanks6 :: "u8 list" where "blanks6 \<equiv> [0x20, 0x09, 0x0A, 0x0D, 0x0B, 0x0C]"

lemma sint_blank: "sint (c :: u8) \<in> {0x20, 0x09, 0x0A, 0x0D, 0x0B, 0x0C} \<longleftrightarrow> c \<in> set blanks6"
proof -
  have "sint c = sint x \<longleftrightarrow> c = x" for x :: u8 by (auto intro: signed_word_eqI)
  from this [of "0x20"] this [of "0x09"] this [of "0x0A"] this [of "0x0D"] this [of "0x0B"] this [of "0x0C"]
  show ?thesis by simp
qed

lemma read_nonblank_eq:
  "set (rd_bytes m p k) \<subseteq> set blanks6 \<Longrightarrow> m (p + word_of_nat k) \<notin> set blanks6 \<Longrightarrow>
    read_nonblank m p = Some (sint (m (p + word_of_nat k)), p + word_of_nat k + 1)"
proof (induction k arbitrary: p)
  case 0
  then have "sint (m p) \<notin> {0x20, 0x09, 0x0A, 0x0D, 0x0B, 0x0C}" unfolding sint_blank by simp
  then show ?case by (subst read_nonblank.simps) (simp only: Let_def if_False, simp)
next
  case (Suc k)
  have r: "set (rd_bytes m (p + 1) k) \<subseteq> set blanks6" and n: "m (p + 1 + word_of_nat k) \<notin> set blanks6"
    and "m p \<in> set blanks6"
    using Suc.prems by (simp_all add: rd_bytes_Suc add.assoc)
  then have "sint (m p) \<in> {0x20, 0x09, 0x0A, 0x0D, 0x0B, 0x0C}" unfolding sint_blank by simp
  then have "read_nonblank m p = read_nonblank m (p + 1)"
    by (subst read_nonblank.simps) (simp only: Let_def if_True)
  then show ?case using Suc.IH [OF r n] by (simp add: add.assoc)
qed

text \<open>What the first non-blank character says of the sign, and where the digits start.\<close>

definition sign_at :: "mem \<Rightarrow> addr \<Rightarrow> bool \<times> addr" where
  "sign_at m p = (if m p = 0x2D then (True, p + 1) else if m p = 0x2B then (False, p + 1) else (False, p))"

lemma strtol_eq:
  assumes b: "2 \<le> b" "b \<le> 36" and g: "unat g < 65536" and blank: "set (rd_bytes m p k) \<subseteq> set blanks6"
    and st: "m (p + word_of_nat k) \<notin> set blanks6" "sign_at m (p + word_of_nat k) = (neg, q)"
    and ds: "digits_at m q b ds"
  shows "if neg then strtol g m p b = Some (if ds = [] then 0 else word_of_int LONG_MIN, q)
    else if value_of b 0 ds \<le> LONG_MAX
    then strtol g m p b = Some (word_of_int (value_of b 0 ds), q + word_of_nat (length ds))
    else \<exists>e. strtol g m p b = Some (word_of_int LONG_MAX, e)"
proof -
  let ?s = "p + word_of_nat k"
  have sg: "(if m ?s = 0x2D then (?s + 1, - 1) else if m ?s = 0x2B then (?s + 1, 1) else (?s, 1))
      = (q, if neg then - 1 else 1 :: int)"
    using st(2) by (auto simp: sign_at_def split: if_splits)
  have eq: "strtol g m p b = map_option (\<lambda>(result, s, overflow).
      (if (if neg then - 1 else 1 :: int) = - 1 \<and> \<not> overflow then - result else result, s))
      (strtol_loop g m q 0 (if neg then - 1 else 1) b)"
    unfolding strtol_def skip_blanks_eq [OF blank st(1)] option.simps sg Let_def prod.case detect_base_def
    using b by simp
  have r: "if value_of b 0 ds \<le> LONG_MAX
      then strtol_loop g m q 0 1 b = Some (word_of_int (value_of b 0 ds), q + word_of_nat (length ds), False)
      else \<exists>s. strtol_loop g m q 0 1 b = Some (word_of_int LONG_MAX, s, True)"
    using strtol_loop_eq [OF b g _ _ ds, of 0] unfolding of_int_0 by (simp only: LONG_MAX_def) simp
  show ?thesis
  proof (cases neg)
    case True
    then show ?thesis using strtol_loop_negative [OF b g ds] by (simp add: eq)
  next
    case False
    then show ?thesis using r by (auto simp: eq split: if_splits)
  qed
qed

lemma digit_not_sign:
  assumes "digit_value (sint c) = Some d"
  shows "c \<noteq> 0x2D" and "c \<noteq> 0x2B" and "c \<notin> set blanks6"
  using assms by (auto simp: digit_value_def split: if_splits)

lemma stdlib_strtoul_eq:
  assumes b: "2 \<le> b" "b \<le> 36" and blank: "set (rd_bytes m p k) \<subseteq> set blanks6"
    and st: "m (p + word_of_nat k) \<notin> set blanks6" "sign_at m (p + word_of_nat k) = (neg, q)"
    and hex: "\<not> (b = 16 \<and> m q = 0x30 \<and> m (q + 1) \<in> {0x58, 0x78})"
    and ds: "digits_at m q b ds" "ds \<noteq> []"
  shows "stdlib_strtoul m p b =
    Some (if value_of b 0 ds < 2 ^ 32
          then word_of_int (if neg then - value_of b 0 ds else value_of b 0 ds) else ULONG_MAX,
          q + word_of_nat (length ds))"
proof -
  let ?s = "p + word_of_nat k"
  have s: "sint c = 0x2D \<longleftrightarrow> c = 0x2D" "sint c = 0x2B \<longleftrightarrow> c = 0x2B" "sint c = 0x30 \<longleftrightarrow> c = 0x30" for c :: u8
    using sint8_eq [of c "0x2D"] sint8_eq [of c "0x2B"] sint8_eq [of c "0x30"] by simp_all
  have sg: "(if sint (m ?s) = 0x2D then (True, sint (m (?s + 1)), ?s + 1 + 1)
      else if sint (m ?s) = 0x2B then (False, sint (m (?s + 1)), ?s + 1 + 1) else (False, sint (m ?s), ?s + 1))
      = (neg, sint (m q), q + 1)"
    using st(2) unfolding s by (auto simp: sign_at_def split: if_splits)
  have hx: "\<not> ((b = 0 \<or> b = 16) \<and> sint (m q) = 0x30 \<and> (m (q + 1) = 0x78 \<or> m (q + 1) = 0x58))"
    using hex b unfolding s by auto
  have b0: "(if b = 0 then if sint (m q) = 0x30 then 8 else 10 else b) = b" using b by simp
  have lp: "stdlib_strtoul_loop m (sint (m q)) (q + 1) 0 0 b (ULONG_MAX div word_of_int b)
        (sint (ULONG_MAX mod word_of_int b))
      = (if value_of b 0 ds < 2 ^ 32
         then Some (word_of_int (value_of b 0 ds), 1, q + 1 + word_of_nat (length ds))
         else Some (ULONG_MAX, - 1, q + 1 + word_of_nat (length ds)))"
    using stdlib_loop_eq [OF b refl refl _ _ ds(1), of 0 0] ds(2) by simp
  have "stdlib_strtoul m p b = map_option (\<lambda>(acc, any, s).
      (if neg \<and> (0 :: int) < any then - acc else acc, if any \<noteq> 0 then s - 1 else p))
    (stdlib_strtoul_loop m (sint (m q)) (q + 1) 0 0 b (ULONG_MAX div word_of_int b)
        (sint (ULONG_MAX mod word_of_int b)))"
    unfolding stdlib_strtoul_def read_nonblank_eq [OF blank st(1)] option.simps prod.case sg Let_def
    unfolding if_not_P [OF hx] prod.case b0 ..
  then show ?thesis unfolding lp by simp
qed

lemma strtoul_eq:
  assumes b: "2 \<le> b" "b \<le> 36" and blank: "set (rd_bytes m p k) \<subseteq> {0x20, 0x09, 0x0A}"
    and st: "m (p + word_of_nat k) \<notin> {0x20, 0x09, 0x0A}" and ds: "digits_at m (p + word_of_nat k) b ds"
    and small: "value_of b 0 ds < 2 ^ 32"
  shows "strtoul m p b = Some (word_of_int (value_of b 0 ds), p + word_of_nat k + word_of_nat (length ds))"
proof -
  have sk: "skip_blanks m [0x20, 0x09, 0x0A] p = Some (p + word_of_nat k)"
    using blank st by (intro skip_blanks_eq) simp_all
  have "strtoul m p b = strtoul_loop m (p + word_of_nat k) (word_of_int 0) b"
    unfolding strtoul_def sk detect_base_def using b by simp
  then show ?thesis using strtoul_loop_eq [OF b _ ds small] by simp
qed

section \<open>Numerals are runs of digits\<close>

lemma digit_value_ascii:
  assumes "d < 36"
  shows "digit_value (sint (digit_ascii d)) = Some (int d)"
proof -
  have "\<forall>d \<in> set [0..<36]. digit_value (sint (digit_ascii d)) = Some (int d)" by code_simp
  then show ?thesis using assms by simp
qed

lemma digits_at_written:
  assumes "b \<le> 36" and "\<forall>d \<in> set ds. d < b" and "length (pre @ map digit_ascii ds) < 2 ^ 32"
  shows "digits_at (wr_bytes m a (pre @ map digit_ascii ds @ [0])) (a + word_of_nat (length pre)) (int b) (map int ds)"
  using assms(2,3)
proof (induction ds arbitrary: pre)
  case Nil
  have "wr_bytes m a (pre @ [0]) (a + word_of_nat (length pre)) = 0"
    using wr_bytes_nth [of "length pre" "pre @ [0]" m a] Nil by simp
  then show ?case by (simp add: digit_value_def)
next
  case (Cons d ds)
  have "wr_bytes m a (pre @ map digit_ascii (d # ds) @ [0]) (a + word_of_nat (length pre)) = digit_ascii d"
    using wr_bytes_nth [of "length pre" "pre @ map digit_ascii (d # ds) @ [0]" m a] Cons.prems by simp
  moreover have "digits_at (wr_bytes m a ((pre @ [digit_ascii d]) @ map digit_ascii ds @ [0]))
      (a + word_of_nat (length (pre @ [digit_ascii d]))) (int b) (map int ds)"
    using Cons.prems by (intro Cons.IH) simp_all
  ultimately show ?case using Cons.prems(1) digit_value_ascii [of d] assms(1)
    by (simp add: ac_simps)
qed

lemma value_of_digits: "2 \<le> b \<Longrightarrow> value_of (int b) 0 (map int (digits b n)) = int n"
proof -
  have "value_of (int b) (int r) (map int ds) = int (foldl (\<lambda>a d. a * b + d) r ds)" for r ds
    by (induction ds arbitrary: r) (simp_all flip: of_nat_mult of_nat_add)
  from this [of 0 "digits b n"] show "2 \<le> b \<Longrightarrow> ?thesis" by (simp add: digits_value)
qed

lemma numeral_digits_at:
  assumes "2 \<le> b" "b \<le> 36" and "length pre < 2 ^ 31"
  shows "digits_at (wr_bytes m a (pre @ numeral_of b (unat (v :: u32)) @ [0])) (a + word_of_nat (length pre))
    (int b) (map int (digits b (unat v)))"
  unfolding numeral_of_def
  using digits_below [OF assms(1)] digits_length32 [OF assms(1), of v] assms
  by (intro digits_at_written) auto

lemma numeral_head:
  assumes "2 \<le> b" "b \<le> 36"
  shows "\<exists>c cs d. numeral_of b n = c # cs \<and> digit_value (sint c) = Some d"
proof -
  have "digits b n \<noteq> []" by (subst digits.simps) simp
  then obtain d ds where ds: "digits b n = d # ds" by (auto simp: neq_Nil_conv)
  then have "d < 36" using digits_below [OF assms(1), of d n] assms(2) by simp
  then show ?thesis using ds digit_value_ascii [of d] by (simp add: numeral_of_def)
qed

lemma numeral_start:
  assumes "2 \<le> b" "b \<le> 36" and "length pre < 2 ^ 31"
  shows "\<exists>d. digit_value (sint (wr_bytes m a (pre @ numeral_of b (unat (v :: u32)) @ [0]) (a + word_of_nat (length pre)))) = Some d"
proof -
  obtain c cs d where n: "numeral_of b (unat v) = c # cs" "digit_value (sint c) = Some d"
    using numeral_head [OF assms(1,2)] by blast
  have "wr_bytes m a (pre @ numeral_of b (unat v) @ [0]) (a + word_of_nat (length pre)) = c"
    using wr_bytes_nth [of "length pre" "pre @ numeral_of b (unat v) @ [0]" m a]
      length_numeral32 [OF assms(1), of v] assms(3) n(1) by simp
  then show ?thesis using n(2) by simp
qed

text \<open>Reading back what the printers wrote, without a sign and with one.\<close>

lemma read_unsigned:
  fixes v :: u32 and m :: mem and a :: addr and b :: nat
  assumes b: "2 \<le> b" "b \<le> 36"
  defines "m' \<equiv> wr_bytes m a (numeral_of b (unat (v :: u32)) @ [0])"
  shows "strtoul m' a (int b) = Some (v, a + word_of_nat (length (numeral_of b (unat v))))"
    and "stdlib_strtoul m' a (int b) = Some (v, a + word_of_nat (length (numeral_of b (unat v))))"
    and "unat v < 2 ^ 31 \<Longrightarrow> unat g < 65536 \<Longrightarrow> strtol g m' a (int b) = Some (v, a + word_of_nat (length (numeral_of b (unat v))))"
proof -
  have ds: "digits_at m' a (int b) (map int (digits b (unat v)))"
    using numeral_digits_at [OF b, of "[]" m a v] by (simp add: m'_def)
  obtain d where d: "digit_value (sint (m' a)) = Some d"
    using numeral_start [OF b, of "[]" m a v] by (auto simp: m'_def)
  have st: "m' (a + word_of_nat 0) \<notin> set blanks6" "sign_at m' (a + word_of_nat 0) = (False, a)"
    using digit_not_sign [OF d] by (simp_all add: sign_at_def)
  have val: "value_of (int b) 0 (map int (digits b (unat v))) = int (unat v)" by (rule value_of_digits [OF b(1)])
  have w: "(word_of_int (int (unat v)) :: u32) = v" by simp
  have b': "2 \<le> int b" "int b \<le> 36" using b by simp_all
  have len: "length (map int (digits b (unat v))) = length (numeral_of b (unat v))" by (simp add: numeral_of_def)
  have lim: "int (unat v) < 2 ^ 32" using uint_less32 [of v] by simp
  have nohex: "\<not> (int b = 16 \<and> m' a = 0x30 \<and> m' (a + 1) \<in> {0x58, 0x78})"
  proof
    assume h: "int b = 16 \<and> m' a = 0x30 \<and> m' (a + 1) \<in> {0x58, 0x78}"
    then have "digit_value (sint (m' (a + 1))) \<in> {Some 33}" by (auto simp: digit_value_def)
    moreover have "m' (a + 1) = 0 \<or> (\<exists>e < 16. digit_value (sint (m' (a + 1))) = Some e)"
    proof (cases "digits b (unat v)")
      case Nil
      then show ?thesis by (subst (asm) digits.simps) (auto split: if_splits)
    next
      case (Cons d0 ds0)
      then have dd: "digits_at m' (a + 1) (int b) (map int ds0)" using ds by simp
      show ?thesis
      proof (cases ds0)
        case Nil
        then have "m' = wr_bytes m a [digit_ascii d0, 0]" using Cons by (simp add: m'_def numeral_of_def)
        then show ?thesis using wr_bytes_nth [of 1 "[digit_ascii d0, 0]" m a] by simp
      next
        case (Cons d1 ds1)
        then show ?thesis using dd h by auto
      qed
    qed
    ultimately show False by (auto simp: digit_value_def)
  qed
  show "strtoul m' a (int b) = Some (v, a + word_of_nat (length (numeral_of b (unat v))))"
    using strtoul_eq [OF b', of m' a 0] st ds val lim w len by simp
  show "stdlib_strtoul m' a (int b) = Some (v, a + word_of_nat (length (numeral_of b (unat v))))"
    using stdlib_strtoul_eq [OF b' _ st nohex ds] val lim w len numeral_nonempty [of b "unat v"]
    by (auto simp: numeral_of_def)
  show "unat v < 2 ^ 31 \<Longrightarrow> unat g < 65536 \<Longrightarrow>
    strtol g m' a (int b) = Some (v, a + word_of_nat (length (numeral_of b (unat v))))"
  proof -
    assume "unat v < 2 ^ 31" and g: "unat g < 65536"
    then have "unat v \<le> nat LONG_MAX" by (simp add: LONG_MAX_def)
    then have le: "int (unat v) \<le> LONG_MAX" by (simp add: LONG_MAX_def nat_le_iff del: of_nat_unat)
    have "set (rd_bytes m' a 0) \<subseteq> set blanks6" by simp
    from strtol_eq [OF b' g this st ds] le show ?thesis
      unfolding val if_P [OF le] if_False w len by blast
  qed
qed

lemma read_negative:
  fixes v :: u32 and m :: mem and a :: addr
  assumes neg: "sint v < 0" and g: "unat g < 65536"
  defines "m' \<equiv> wr_bytes m a (signed_numeral (sint v) @ [0])"
  shows "strtol g m' a 10 = Some (0x80000000, a + 1)"
proof -
  note mag = sint_minus [OF neg]
  have sn: "signed_numeral (sint v) = 0x2D # numeral_of 10 (unat (- v))"
    using neg mag by (simp add: signed_numeral_def)
  have ds: "digits_at m' (a + 1) 10 (map int (digits 10 (unat (- v))))"
    using numeral_digits_at [of 10 "[0x2D]" m a "- v"] by (simp add: m'_def sn)
  have m0: "m' a = 0x2D" using wr_bytes_nth [of 0 "signed_numeral (sint v) @ [0]" m a]
      length_numeral32 [of 10 "- v"] by (simp add: m'_def sn)
  have st: "m' (a + word_of_nat 0) \<notin> set blanks6" "sign_at m' (a + word_of_nat 0) = (True, a + 1)"
    using m0 by (simp_all add: sign_at_def)
  have "map int (digits 10 (unat (- v))) \<noteq> []" using numeral_nonempty [of 10 "unat (- v)"] by (simp add: numeral_of_def)
  then show ?thesis using strtol_eq [OF _ _ g _ st ds] by (simp add: LONG_MIN_def)
qed

lemma isdigit_zero: "isdigit c = 0"
  by (simp add: isdigit_def)

lemma isalpha_cases: "isalpha c = (if isupper c = 1 \<or> islower c = 1 then 1 else 0)"
  by (simp add: isalpha_def isupper_def islower_def)

declare skip_blanks.simps [code] strtoul_loop.simps [code]

lemma klibc_strtoul_misses_overflow:
  "strtoul (wr_bytes (\<lambda>_. 0) 0x1000 (map (\<lambda>c. of_char c) ''1F0000000'')) 0x1000 16 = Some (0xF0000000, 0x1009)"
  by code_simp

section \<open>Properties\<close>

text \<open>strtol of klibc, after any blanks and one optional sign, reads the longest run of digits
  of the base: without a minus sign it returns the value and the end of the run when the value is at
  most LONG_MAX, and LONG_MAX otherwise. With a minus sign it answers LONG_MIN for every number, and
  leaves the end pointer on the first digit, because __divsi3 makes \<open>LONG_MIN / base\<close> positive.\<close>

theorem strtol_reads_run:
  assumes "2 \<le> b" and "b \<le> 36" and "unat g < 65536" and "set (rd_bytes m p k) \<subseteq> set blanks6"
    and "m (p + word_of_nat k) \<notin> set blanks6" and "sign_at m (p + word_of_nat k) = (neg, q)"
    and "digits_at m q b ds"
  shows "(\<not> neg \<and> value_of b 0 ds \<le> LONG_MAX \<longrightarrow>
      strtol g m p b = Some (word_of_int (value_of b 0 ds), q + word_of_nat (length ds)))
    \<and> (\<not> neg \<and> LONG_MAX < value_of b 0 ds \<longrightarrow> (\<exists>e. strtol g m p b = Some (0x7FFFFFFF, e)))
    \<and> (neg \<and> ds \<noteq> [] \<longrightarrow> strtol g m p b = Some (0x80000000, q))"
  using strtol_eq [OF assms] by (simp add: LONG_MAX_def LONG_MIN_def split: if_splits)

definition number_text :: "string \<Rightarrow> mem" where
  "number_text s = wr_bytes (\<lambda>_. 0) 0x1000 (map (\<lambda>c. of_char c) s)"

theorem strtol_reads_run_witness:
  "strtol 0 (number_text ''  +42z'') 0x1000 10 = Some (42, 0x1005)
   \<and> strtol 0 (number_text ''-42'') 0x1000 10 = Some (0x80000000, 0x1001)"
proof
  let ?m = "number_text ''  +42z''"
  have "set (rd_bytes ?m 0x1000 2) \<subseteq> set blanks6" "?m (0x1000 + word_of_nat 2) \<notin> set blanks6"
    "sign_at ?m (0x1000 + word_of_nat 2) = (False, 0x1003)" "digits_at ?m 0x1003 10 [4, 2]"
    by code_simp+
  from strtol_reads_run [OF _ _ _ this, of 0] show "strtol 0 ?m 0x1000 10 = Some (42, 0x1005)"
    by (simp add: LONG_MAX_def)
  let ?n = "number_text ''-42''"
  have "set (rd_bytes ?n 0x1000 0) \<subseteq> set blanks6" "?n (0x1000 + word_of_nat 0) \<notin> set blanks6"
    "sign_at ?n (0x1000 + word_of_nat 0) = (True, 0x1001)" "digits_at ?n 0x1001 10 [4, 2]"
    by code_simp+
  from strtol_reads_run [OF _ _ _ this, of 0] show "strtol 0 ?n 0x1000 10 = Some (0x80000000, 0x1001)" by simp
qed

text \<open>strtoul of stdlib reads the longest run of digits after blanks and a sign, saturates
  at ULONG_MAX when the value does not fit, and always ends behind the run (a base 16 run that starts
  with 0x is left to its prefix rule). For values that fit, without sign and with spaces, tabs and
  newlines only, the strtoul of klibc returns the same value and end; its overflow test is a comparison
  of wrapped numbers, and the text 1F0000000 in base 16 passes it with the value 0xF0000000.\<close>

theorem strtoul_saturates:
  assumes "2 \<le> b" and "b \<le> 36" and "set (rd_bytes m p k) \<subseteq> set blanks6"
    and "m (p + word_of_nat k) \<notin> set blanks6" and "sign_at m (p + word_of_nat k) = (neg, q)"
    and "\<not> (b = 16 \<and> m q = 0x30 \<and> m (q + 1) \<in> {0x58, 0x78})"
    and "digits_at m q b ds" and "ds \<noteq> []"
  shows "stdlib_strtoul m p b = Some (if value_of b 0 ds < 2 ^ 32
        then word_of_int (if neg then - value_of b 0 ds else value_of b 0 ds) else ULONG_MAX,
      q + word_of_nat (length ds))
    \<and> (value_of b 0 ds < 2 ^ 32 \<and> q = p + word_of_nat k \<and> set (rd_bytes m p k) \<subseteq> {0x20, 0x09, 0x0A}
        \<longrightarrow> strtoul m p b = stdlib_strtoul m p b)
    \<and> strtoul (number_text ''1F0000000'') 0x1000 16 = Some (0xF0000000, 0x1009)"
proof (intro conjI impI)
  show s: "stdlib_strtoul m p b = Some (if value_of b 0 ds < 2 ^ 32
        then word_of_int (if neg then - value_of b 0 ds else value_of b 0 ds) else ULONG_MAX,
      q + word_of_nat (length ds))"
    using assms by (rule stdlib_strtoul_eq)
  show "strtoul (number_text ''1F0000000'') 0x1000 16 = Some (0xF0000000, 0x1009)"
    unfolding number_text_def by (rule klibc_strtoul_misses_overflow)
  assume c: "value_of b 0 ds < 2 ^ 32 \<and> q = p + word_of_nat k \<and> set (rd_bytes m p k) \<subseteq> {0x20, 0x09, 0x0A}"
  have "\<not> neg" using assms(5) c by (auto simp: sign_at_def split: if_splits)
  moreover have "m (p + word_of_nat k) \<notin> {0x20, 0x09, 0x0A}" using assms(4) by simp
  ultimately show "strtoul m p b = stdlib_strtoul m p b"
    using s strtoul_eq [OF assms(1,2), of m p k ds] assms(7) c by simp
qed

theorem strtoul_saturates_witness:
  "stdlib_strtoul (number_text ''4294967296,'') 0x1000 10 = Some (ULONG_MAX, 0x100A)
   \<and> strtoul (number_text '' 77'') 0x1000 8 = Some (63, 0x1003)"
proof
  let ?m = "number_text ''4294967296,''"
  have "set (rd_bytes ?m 0x1000 0) \<subseteq> set blanks6" "?m (0x1000 + word_of_nat 0) \<notin> set blanks6"
    "sign_at ?m (0x1000 + word_of_nat 0) = (False, 0x1000)"
    "\<not> ((10 :: int) = 16 \<and> ?m 0x1000 = 0x30 \<and> ?m (0x1000 + 1) \<in> {0x58, 0x78})"
    "digits_at ?m 0x1000 10 [4, 2, 9, 4, 9, 6, 7, 2, 9, 6]"
    by code_simp+
  from strtoul_saturates [OF _ _ this] show "stdlib_strtoul ?m 0x1000 10 = Some (ULONG_MAX, 0x100A)" by simp
  let ?n = "number_text '' 77''"
  have sub: "set (rd_bytes ?n 0x1000 1) \<subseteq> {0x20, 0x09, 0x0A}" by code_simp
  have "set (rd_bytes ?n 0x1000 1) \<subseteq> set blanks6" "?n (0x1000 + word_of_nat 1) \<notin> set blanks6"
    "sign_at ?n (0x1000 + word_of_nat 1) = (False, 0x1001)"
    "\<not> ((8 :: int) = 16 \<and> ?n 0x1001 = 0x30 \<and> ?n (0x1001 + 1) \<in> {0x58, 0x78})"
    "digits_at ?n 0x1001 8 [7, 7]"
    by code_simp+
  from strtoul_saturates [OF _ _ this] sub show "strtoul ?n 0x1000 8 = Some (63, 0x1003)" by simp
qed



text \<open>strtoll and atoll answer 0 for every string: the end of the text is computed as the
  start plus \<open>~(size_t) 0\<close>, which is one byte before the start, so no character is ever read.\<close>

theorem strtoll_always_zero:
  assumes "p \<noteq> 0" and "unat p + 2 < 2 ^ 32"
  shows "strtoll m p b = (0, p) \<and> atoll m p = 0"
proof -
  have e: "p + NOT 0 = p - 1" by simp
  have below: "unat (p - 1) = unat p - 1" using assms(1) by (rule unat_pred)
  have "unat (p + word_of_nat 1) = unat p + 1" "unat (p + word_of_nat 2) = unat p + 2"
    using assms(2) by (simp_all only: unat_plus_small)
  then have no: "\<not> p < p - 1" "\<not> p + 1 < p - 1" "\<not> p + 2 < p - 1"
    using below by (simp_all add: word_less_nat_alt)
  have "skip_spaces m p (p - 1) = p" using no(1) by (subst skip_spaces.simps) simp
  moreover have "umax_loop m p (p - 1) 0 c = (0, p)" for c using no(1) by (subst umax_loop.simps) simp
  ultimately have "strtoll m p c = (0, p)" for c
    unfolding strtoll_def strntoumax_def e using no by (simp add: Let_def)
  then show ?thesis by (simp add: atoll_def)
qed

theorem strtoll_always_zero_witness:
  "strtoll (number_text ''123'') 0x1000 10 = (0, 0x1000) \<and> atoll (number_text ''123'') 0x1000 = 0"
  by (rule strtoll_always_zero) simp_all

end
