(* ===== verification/KPrintf.thy ===== *)
theory KPrintf
  imports KNumOut
begin

text \<open>
  kprintf (lib/stdio/kprintf.c) and ksprintf (lib/stdio/ksprintf.c). The variadic words are a stream
  \<open>args\<close>, read by an index that every \<open>va_arg\<close> advances (a double takes two words); \<open>buf\<close> and
  \<open>num_str\<close> are the addresses of the two local arrays; what kernel_putchar stores into the screen
  register is the list of bytes in the order of the stores. kprintf counts the printed characters and
  then drops the count, so the model has no counter.
\<close>

subsection \<open>Characters and strings to the screen\<close>

partial_function (option) kernel_puts :: "mem \<Rightarrow> addr \<Rightarrow> u8 list \<Rightarrow> u8 list option" where
  "kernel_puts m s out = (if m s \<noteq> 0 then kernel_puts m (s + 1) (out @ [m s]) else Some out)"

definition kernel_puthex :: "u32 \<Rightarrow> u8 list" where
  "kernel_puthex v =
     map (\<lambda>c. of_char c) ''0x''
     @ map (\<lambda>i. map (\<lambda>c. of_char c) ''0123456789ABCDEF'' ! unat (drop_bit i v AND 0xF)) [28, 24, 20, 16, 12, 8, 4, 0]"

definition kputs :: "mem \<Rightarrow> addr \<Rightarrow> u8 list option" where
  "kputs m s = map_option (\<lambda>out. out @ [0x0A]) (kernel_puts m s [])"

subsection \<open>One directive\<close>

text \<open>The loop over flags and width.\<close>

partial_function (option) scan_width :: "mem \<Rightarrow> addr \<Rightarrow> bool \<Rightarrow> u32 \<Rightarrow> (addr \<times> bool \<times> u32) option" where
  "scan_width m f zero_pad width =
     (if 0x30 \<le> sint (m f) \<and> sint (m f) \<le> 0x39 then
        (if m f = 0x30 \<and> width = 0 then scan_width m (f + 1) True width
         else scan_width m (f + 1) zero_pad (width * 10 + (scast (m f) - 0x30)))
      else Some (f, zero_pad, width))"

text \<open>The cases of the number conversions: convert into \<open>buf\<close>, then pad.\<close>

definition number_conversions :: "u8 list" where
  "number_conversions = map (\<lambda>c. of_char c) ''diuxXo''"

definition put_number :: "mem \<Rightarrow> addr \<Rightarrow> u8 \<Rightarrow> bool \<Rightarrow> u32 \<Rightarrow> u32 \<Rightarrow> mem option" where
  "put_number m buf conv zero_pad width num =
     (case (if conv = of_char (CHR ''d'') \<or> conv = of_char (CHR ''i'') then itodec m num buf
            else if conv = of_char (CHR ''u'') then itoudec m num buf
            else if conv = of_char (CHR ''o'') then Some (itooct m num buf)
            else Some (itox m num buf)) of
        None \<Rightarrow> None
      | Some m \<Rightarrow> if zero_pad \<and> 0 < sint width then pad_zeros m buf width else Some m)"

definition null_text :: "u8 list" where "null_text = map (\<lambda>c. of_char c) ''(null)''"
definition float_text :: "u8 list" where "float_text = map (\<lambda>c. of_char c) ''[float]''"

subsection \<open>kprintf\<close>

text \<open>The switch on the conversion character, which is read once: memory, index and output after it.\<close>

definition kprintf_switch ::
    "addr \<Rightarrow> addr \<Rightarrow> (nat \<Rightarrow> u32) \<Rightarrow> mem \<Rightarrow> u8 \<Rightarrow> bool \<Rightarrow> u32 \<Rightarrow> nat \<Rightarrow> u8 list \<Rightarrow> (mem \<times> nat \<times> u8 list) option" where
  "kprintf_switch buf num_str args m c zero_pad width n out =
     (if c = of_char (CHR ''c'') then Some (m, n + 1, out @ [ucast (args n)])
      else if c \<in> set number_conversions then
        (case put_number m buf c zero_pad width (args n) of
           None \<Rightarrow> None
         | Some m \<Rightarrow> map_option (\<lambda>out. (m, n + 1, out)) (kernel_puts m buf out))
      else if c = of_char (CHR ''f'') \<or> c = of_char (CHR ''F'') then Some (m, n + 2, out @ float_text)
      else if c = of_char (CHR ''s'') then
        (if args n \<noteq> 0 then map_option (\<lambda>out. (m, n + 1, out)) (kernel_puts m (args n) out)
         else Some (m, n + 1, out @ null_text))
      else if c = of_char (CHR ''%'') then Some (m, n, out @ [of_char (CHR ''%'')])
      else
        (let m = fill_up m num_str 0 10;
             out = out @ of_char (CHR ''%'') # (if zero_pad then [of_char (CHR ''0'')] else [])
         in if 0 < sint width then
              (case itodec m width num_str of
                 None \<Rightarrow> None
               | Some m \<Rightarrow> map_option (\<lambda>out. (m, n, out @ [c])) (kernel_puts m num_str out))
            else Some (m, n, out @ [c])))"

text \<open>A directive: width, an ignored length modifier, the switch; the address is that of the conversion
  character.\<close>

definition kprintf_directive ::
    "addr \<Rightarrow> addr \<Rightarrow> (nat \<Rightarrow> u32) \<Rightarrow> mem \<Rightarrow> addr \<Rightarrow> nat \<Rightarrow> u8 list \<Rightarrow> (mem \<times> addr \<times> nat \<times> u8 list) option" where
  "kprintf_directive buf num_str args m f n out =
     (case scan_width m f False 0 of
        None \<Rightarrow> None
      | Some (f, zero_pad, width) \<Rightarrow>
          (let f = (if m f = of_char (CHR ''l'') then f + 1 else f)
           in map_option (\<lambda>(m, n, out). (m, f, n, out))
                (kprintf_switch buf num_str args m (m f) zero_pad width n out)))"

partial_function (option) kprintf_loop ::
    "addr \<Rightarrow> addr \<Rightarrow> (nat \<Rightarrow> u32) \<Rightarrow> mem \<Rightarrow> addr \<Rightarrow> nat \<Rightarrow> u8 list \<Rightarrow> (mem \<times> u8 list) option" where
  "kprintf_loop buf num_str args m f n out =
     (if m f = 0 then Some (m, out)
      else if m f \<noteq> of_char (CHR ''%'') then kprintf_loop buf num_str args m (f + 1) n (out @ [m f])
      else case kprintf_directive buf num_str args m (f + 1) n out of
             None \<Rightarrow> None
           | Some (m, f, n, out) \<Rightarrow> kprintf_loop buf num_str args m (f + 1) n out)"

definition kprintf :: "addr \<Rightarrow> addr \<Rightarrow> mem \<Rightarrow> addr \<Rightarrow> (nat \<Rightarrow> u32) \<Rightarrow> (mem \<times> u8 list) option" where
  "kprintf buf num_str m format args = kprintf_loop buf num_str args m format 0 []"

subsection \<open>ksprintf\<close>

text \<open>The loops \<open>while (*temp) *str++ = *temp++\<close>.\<close>

partial_function (option) append_string :: "mem \<Rightarrow> addr \<Rightarrow> addr \<Rightarrow> (mem \<times> addr) option" where
  "append_string m str temp =
     (if m temp \<noteq> 0 then append_string (m(str := m temp)) (str + 1) (temp + 1) else Some (m, str))"

primrec append_bytes :: "mem \<Rightarrow> addr \<Rightarrow> u8 list \<Rightarrow> mem \<times> addr" where
  "append_bytes m str [] = (m, str)"
| "append_bytes m str (b # bs) = append_bytes (m(str := b)) (str + 1) bs"

text \<open>The texts [float] and (null) are literals; their copies are the stores of their bytes.\<close>

definition ksprintf_switch ::
    "addr \<Rightarrow> (nat \<Rightarrow> u32) \<Rightarrow> mem \<Rightarrow> addr \<Rightarrow> u8 \<Rightarrow> bool \<Rightarrow> u32 \<Rightarrow> nat \<Rightarrow> (mem \<times> addr \<times> nat) option" where
  "ksprintf_switch buf args m str c zero_pad width n =
     (if c = of_char (CHR ''c'') then Some (m(str := ucast (args n)), str + 1, n + 1)
      else if c \<in> set number_conversions then
        (case put_number m buf c zero_pad width (args n) of
           None \<Rightarrow> None
         | Some m \<Rightarrow> map_option (\<lambda>(m, str). (m, str, n + 1)) (append_string m str buf))
      else if c = of_char (CHR ''f'') \<or> c = of_char (CHR ''F'') then
        (case append_bytes m str float_text of (m, str) \<Rightarrow> Some (m, str, n + 2))
      else if c = of_char (CHR ''s'') then
        map_option (\<lambda>(m, str). (m, str, n + 1))
          (if args n \<noteq> 0 then append_string m str (args n) else Some (append_bytes m str null_text))
      else if c = of_char (CHR ''%'') then Some (m(str := of_char (CHR ''%'')), str + 1, n)
      else Some (m(str := of_char (CHR ''%''), str + 1 := c), str + 2, n))"

partial_function (option) ksprintf_loop ::
    "addr \<Rightarrow> (nat \<Rightarrow> u32) \<Rightarrow> mem \<Rightarrow> addr \<Rightarrow> addr \<Rightarrow> nat \<Rightarrow> (mem \<times> addr) option" where
  "ksprintf_loop buf args m str f n =
     (if m f = 0 then Some (m, str)
      else if m f \<noteq> of_char (CHR ''%'') then ksprintf_loop buf args (m(str := m f)) (str + 1) (f + 1) n
      else case scan_width m (f + 1) False 0 of
             None \<Rightarrow> None
           | Some (f, zero_pad, width) \<Rightarrow>
               (case ksprintf_switch buf args m str (m f) zero_pad width n of
                  None \<Rightarrow> None
                | Some (m, str, n) \<Rightarrow> ksprintf_loop buf args m str (f + 1) n))"

definition ksprintf :: "addr \<Rightarrow> mem \<Rightarrow> addr \<Rightarrow> addr \<Rightarrow> (nat \<Rightarrow> u32) \<Rightarrow> (mem \<times> u32) option" where
  "ksprintf buf m str format args =
     map_option (\<lambda>(m, e). (m(e := 0), e - str)) (ksprintf_loop buf args m str format 0)"

section \<open>Formats and what they render to\<close>

text \<open>A format as a list of items: a literal byte, or a directive with its digits, its length modifier
  and its conversion character.\<close>

datatype item = Lit u8 | Dir "u8 list" bool u8

fun item_text :: "item \<Rightarrow> u8 list" where
  "item_text (Lit c) = [c]"
| "item_text (Dir ds l c) = of_char (CHR ''%'') # ds @ (if l then [of_char (CHR ''l'')] else []) @ [c]"

definition format_text :: "item list \<Rightarrow> u8 list" where
  "format_text items = concat (map item_text items)"

definition is_digit_byte :: "u8 \<Rightarrow> bool" where
  "is_digit_byte c \<longleftrightarrow> 0x30 \<le> sint c \<and> sint c \<le> 0x39"

text \<open>Flag and width as the digits set them.\<close>

definition width_step :: "bool \<times> u32 \<Rightarrow> u8 \<Rightarrow> bool \<times> u32" where
  "width_step zw c =
     (if c = 0x30 \<and> snd zw = 0 then (True, snd zw) else (fst zw, snd zw * 10 + (scast c - 0x30)))"

definition flag_width :: "u8 list \<Rightarrow> bool \<times> u32" where
  "flag_width ds = foldl width_step (False, 0) ds"

text \<open>Well-formed formats: widths below 32, and no directive cut off by the end of the format.\<close>

fun item_ok :: "item \<Rightarrow> bool" where
  "item_ok (Lit c) \<longleftrightarrow> c \<noteq> 0 \<and> c \<noteq> of_char (CHR ''%'')"
| "item_ok (Dir ds l c) \<longleftrightarrow> list_all is_digit_byte ds \<and> unat (snd (flag_width ds)) < 32 \<and> c \<noteq> 0
     \<and> (l \<or> \<not> is_digit_byte c \<and> c \<noteq> of_char (CHR ''l''))"

definition padded :: "u8 list \<Rightarrow> u8 list \<Rightarrow> u8 list" where
  "padded ds s =
     (if fst (flag_width ds)
      then replicate (unat (snd (flag_width ds)) - length s) 0x30 @ s else s)"

definition number_for :: "u8 \<Rightarrow> u32 \<Rightarrow> u8 list" where
  "number_for c v =
     (if c = of_char (CHR ''d'') \<or> c = of_char (CHR ''i'') then signed_numeral (sint v)
      else if c = of_char (CHR ''u'') then numeral_of 10 (unat v)
      else if c = of_char (CHR ''o'') then numeral_of 8 (unat v)
      else numeral_of 16 (unat v))"

text \<open>\<open>S\<close> gives the strings that the pointers among the arguments point to.\<close>

fun render_item :: "(addr \<Rightarrow> u8 list) \<Rightarrow> (nat \<Rightarrow> u32) \<Rightarrow> item \<Rightarrow> nat \<Rightarrow> u8 list \<times> nat" where
  "render_item S args (Lit c) n = ([c], n)"
| "render_item S args (Dir ds l c) n =
     (if c = of_char (CHR ''c'') then ([ucast (args n)], n + 1)
      else if c \<in> set number_conversions then (padded ds (number_for c (args n)), n + 1)
      else if c = of_char (CHR ''f'') \<or> c = of_char (CHR ''F'') then (float_text, n + 2)
      else if c = of_char (CHR ''s'') then (if args n = 0 then null_text else S (args n), n + 1)
      else if c = of_char (CHR ''%'') then ([of_char (CHR ''%'')], n)
      else (of_char (CHR ''%'')
              # (if fst (flag_width ds) then [of_char (CHR ''0'')] else [])
              @ (if snd (flag_width ds) = 0 then [] else numeral_of 10 (unat (snd (flag_width ds))))
              @ [c], n))"

fun render :: "(addr \<Rightarrow> u8 list) \<Rightarrow> (nat \<Rightarrow> u32) \<Rightarrow> item list \<Rightarrow> nat \<Rightarrow> u8 list" where
  "render S args [] n = []"
| "render S args (it # its) n =
     (case render_item S args it n of (bs, n') \<Rightarrow> bs @ render S args its n')"

text \<open>The string arguments of a format are readable, in the protected part \<open>P\<close> of the memory.\<close>

definition text_at :: "addr set \<Rightarrow> mem \<Rightarrow> addr \<Rightarrow> u8 list \<Rightarrow> bool" where
  "text_at P m a s \<longleftrightarrow> cstr m a s \<and> (\<forall>i \<le> length s. a + word_of_nat i \<in> P)"

fun strings_ok :: "addr set \<Rightarrow> mem \<Rightarrow> (addr \<Rightarrow> u8 list) \<Rightarrow> (nat \<Rightarrow> u32) \<Rightarrow> item list \<Rightarrow> nat \<Rightarrow> bool" where
  "strings_ok P m S args [] n \<longleftrightarrow> True"
| "strings_ok P m S args (it # its) n \<longleftrightarrow>
     (case it of Lit c \<Rightarrow> True
      | Dir ds l c \<Rightarrow> c = of_char (CHR ''s'') \<and> args n \<noteq> 0 \<longrightarrow> text_at P m (args n) (S (args n)))
     \<and> strings_ok P m S args its (snd (render_item S args it n))"

definition agree :: "addr set \<Rightarrow> mem \<Rightarrow> mem \<Rightarrow> bool" where
  "agree P m m' \<longleftrightarrow> (\<forall>x \<in> P. m' x = m x)"

lemma text_at_agree: "agree P m m' \<Longrightarrow> text_at P m a s \<Longrightarrow> text_at P m' a s"
  unfolding text_at_def agree_def using cstr_cong [of s m' a m] by auto

lemma strings_ok_agree: "agree P m m' \<Longrightarrow> strings_ok P m S args its n \<Longrightarrow> strings_ok P m' S args its n"
proof (induction its arbitrary: n)
  case (Cons it its)
  then show ?case using text_at_agree [OF Cons.prems(1)] by (auto split: item.splits)
qed simp

lemma agree_trans: "agree P m m' \<Longrightarrow> agree P m' m'' \<Longrightarrow> agree P m m''"
  by (simp add: agree_def)

lemma agree_wr_bytes:
  assumes "\<forall>i < k. a + word_of_nat i \<notin> P" and "length bs \<le> k" and "k \<le> 2 ^ 32"
  shows "agree P m (wr_bytes m a bs)"
  unfolding agree_def
proof
  fix x assume x: "x \<in> P"
  have "k \<le> unat (x - a)"
  proof (rule ccontr)
    assume "\<not> k \<le> unat (x - a)"
    moreover have "a + word_of_nat (unat (x - a)) = x" by simp
    ultimately show False using assms(1) x by (metis not_le)
  qed
  then show "wr_bytes m a bs x = m x" using assms(2) by (intro wr_bytes_other) simp
qed

lemma text_at_Cons:
  "text_at P m a (c # s) \<longleftrightarrow> m a = c \<and> c \<noteq> 0 \<and> a \<in> P \<and> text_at P m (a + 1) s"
proof -
  have "(\<forall>i \<le> length (c # s). a + word_of_nat i \<in> P) \<longleftrightarrow> a \<in> P \<and> (\<forall>i \<le> length s. a + 1 + word_of_nat i \<in> P)"
    (is "?l = ?r")
  proof
    assume l: ?l
    have "a + word_of_nat 0 \<in> P" using l by blast
    moreover have "a + 1 + word_of_nat i \<in> P" if "i \<le> length s" for i
      using l [rule_format, of "Suc i"] that by (simp add: add.assoc)
    ultimately show ?r by simp
  next
    assume r: ?r
    have "a + word_of_nat i \<in> P" if "i \<le> length (c # s)" for i
    proof (cases i)
      case (Suc j)
      then have "a + 1 + word_of_nat j \<in> P" using r that by simp
      then show ?thesis using Suc by (simp add: add.assoc)
    qed (use r in simp)
    then show ?l by blast
  qed
  then show ?thesis by (auto simp: text_at_def)
qed

lemma text_at_append:
  "text_at P m a (s @ t) \<Longrightarrow> text_at P m (a + word_of_nat (length s)) t"
proof (induction s arbitrary: a)
  case (Cons c s)
  then show ?case using Cons.IH [of "a + 1"] by (simp add: text_at_Cons add.assoc)
qed simp

section \<open>The pieces of a directive\<close>

lemma kernel_puts_cstr: "cstr m a s \<Longrightarrow> kernel_puts m a out = Some (out @ s)"
proof (induction s arbitrary: a out)
  case Nil
  then show ?case by (subst kernel_puts.simps) simp
next
  case (Cons c s)
  then show ?case by (subst kernel_puts.simps) simp
qed

lemma scan_width_digits:
  "text_at P m f (ds @ c # rest) \<Longrightarrow> list_all is_digit_byte ds \<Longrightarrow> \<not> is_digit_byte c \<Longrightarrow>
    scan_width m f z w = Some (f + word_of_nat (length ds), foldl width_step (z, w) ds)"
proof (induction ds arbitrary: f z w)
  case Nil
  then have "m f = c" by (simp add: text_at_Cons)
  with Nil have "\<not> (0x30 \<le> sint (m f) \<and> sint (m f) \<le> 0x39)" by (simp add: is_digit_byte_def)
  then show ?case by (subst scan_width.simps) (simp only: if_False, simp)
next
  case (Cons d ds)
  have d: "m f = d" "0x30 \<le> sint d \<and> sint d \<le> 0x39" and rest: "text_at P m (f + 1) (ds @ c # rest)"
    using Cons.prems by (simp_all add: text_at_Cons is_digit_byte_def)
  have "list_all is_digit_byte ds" using Cons.prems by simp
  note IH = Cons.IH [OF rest this Cons.prems(3)]
  show ?case using d IH by (subst scan_width.simps) (auto simp: width_step_def [of "(z, w)"] add.assoc)
qed

lemma length_number_for: "length (number_for c v) \<le> 11"
proof -
  have "length (numeral_of 10 (unat w)) \<le> 10" "length (numeral_of 8 (unat w)) \<le> 11"
    "length (numeral_of 16 (unat w)) \<le> 8" for w :: u32
    using digits_length [of 10 "unat w" 10] digits_length [of 8 "unat w" 11] digits_length [of 16 "unat w" 8]
      less_trans [OF unat_less32 [of w], of "10 ^ 10"] less_trans [OF unat_less32 [of w], of "8 ^ 11"]
      unat_less32 [of w]
    by (simp_all add: numeral_of_def)
  note len = this
  have "length (signed_numeral (sint v)) \<le> 11"
    using sint_minus(1) [of v] sint_nonneg32 [of v] len(1) [of "- v"] len(1) [of v]
    by (cases "sint v < 0") (simp_all add: signed_numeral_def)
  then show ?thesis unfolding number_for_def
    using len(1) [of v] len(2) [of v] len(3) [of v] by (auto intro: order_trans)
qed

lemma digit_ascii_nonzero: "d < 36 \<Longrightarrow> digit_ascii d \<noteq> 0"
proof -
  assume d: "d < 36"
  have "\<forall>d \<in> set [0..<36]. digit_ascii d \<noteq> 0" by code_simp
  then show ?thesis using d by simp
qed

lemma number_for_nonzero: "0 \<notin> set (number_for c v)"
proof -
  have "0 \<notin> set (numeral_of b n)" if "2 \<le> b" "b \<le> 36" for b n
    using digits_below [OF that(1), of _ n] digit_ascii_nonzero that(2) by (fastforce simp: numeral_of_def)
  then show ?thesis by (auto simp: number_for_def signed_numeral_def)
qed

text \<open>The outcome of a number conversion in the buffer of 32 bytes.\<close>

lemma put_number_eq:
  assumes "c \<in> set number_conversions" and "unat w < 2 ^ 31"
  shows "put_number m buf c z w v = Some (
    if z \<and> w \<noteq> 0 \<and> length (number_for c v) < unat w
    then wr_bytes (wr_bytes m buf (number_for c v @ [0])) buf
           (replicate (unat w - length (number_for c v)) 0x30 @ number_for c v @ [0])
    else wr_bytes m buf (number_for c v @ [0]))"
proof -
  let ?s = "number_for c v"
  let ?m = "wr_bytes m buf (?s @ [0])"
  have conv: "(if c = of_char (CHR ''d'') \<or> c = of_char (CHR ''i'') then itodec m v buf
            else if c = of_char (CHR ''u'') then itoudec m v buf
            else if c = of_char (CHR ''o'') then Some (itooct m v buf)
            else Some (itox m v buf)) = Some ?m"
    by (simp add: number_for_def itodec_eq itoudec_eq itooct_eq itox_eq)
  have c0: "cstr ?m buf ?s" using length_number_for [of c v] number_for_nonzero by (intro cstr_wr_bytes) simp_all
  have "length ?s < 2 ^ 31" using length_number_for [of c v] by simp
  note pad = pad_zeros_eq [OF c0 this assms(2)]
  have "0 < sint w \<longleftrightarrow> w \<noteq> 0"
    using sint_small [OF assms(2)] by (simp only: of_nat_0_less_iff unat_gt_0)
  then show ?thesis unfolding put_number_def conv using pad by auto
qed

definition outside :: "addr set \<Rightarrow> addr \<Rightarrow> nat \<Rightarrow> bool" where
  "outside P a k \<longleftrightarrow> (\<forall>i < k. a + word_of_nat i \<notin> P)"

lemma agree_wr_outside: "outside P a k \<Longrightarrow> length bs \<le> k \<Longrightarrow> k \<le> 2 ^ 32 \<Longrightarrow> agree P m (wr_bytes m a bs)"
  unfolding outside_def by (rule agree_wr_bytes)

lemma put_number_padded:
  assumes "c \<in> set number_conversions" and "flag_width ds = (z, w)" and "unat w < 32" and "outside P buf 32"
  shows "\<exists>m'. put_number m buf c z w v = Some m' \<and> agree P m m' \<and> cstr m' buf (padded ds (number_for c v))
    \<and> (\<forall>x. 32 \<le> unat (x - buf) \<longrightarrow> m' x = m x)"
proof -
  let ?s = "number_for c v"
  let ?p = "replicate (unat w - length ?s) (0x30 :: u8) @ ?s"
  have len: "length ?s \<le> 11" by (rule length_number_for)
  have w31: "unat w < 2 ^ 31" using assms(3) by simp
  note put = put_number_eq [OF assms(1) w31, of m buf z v]
  let ?m1 = "wr_bytes m buf (?s @ [0])"
  have a1: "agree P m ?m1" using agree_wr_outside [OF assms(4)] len by simp
  have o1: "?m1 x = m x" if "32 \<le> unat (x - buf)" for x using that len by (intro wr_bytes_other) simp
  show ?thesis
  proof (cases "z \<and> w \<noteq> 0 \<and> length ?s < unat w")
    case True
    let ?m2 = "wr_bytes ?m1 buf (?p @ [0])"
    have "length (?p @ [0]) \<le> 32" using True assms(3) by simp
    then have a2: "agree P ?m1 ?m2" by (intro agree_wr_outside [OF assms(4)]) simp_all
    have o2: "?m2 x = m x" if "32 \<le> unat (x - buf)" for x
      using o1 [OF that] that \<open>length (?p @ [0]) \<le> 32\<close> wr_bytes_other [of "?p @ [0]" x buf ?m1] by simp
    have "cstr ?m2 buf ?p"
      using number_for_nonzero [of c v] True assms(3) by (intro cstr_wr_bytes) auto
    moreover have "padded ds ?s = ?p" using assms(2) True by (simp add: padded_def)
    moreover have "put_number m buf c z w v = Some ?m2" using put True by simp
    ultimately show ?thesis using agree_trans [OF a1 a2] o2 by (intro exI [of _ ?m2]) simp
  next
    case False
    have "cstr ?m1 buf ?s" using number_for_nonzero [of c v] len by (intro cstr_wr_bytes) auto
    moreover have "padded ds ?s = ?s"
      using False assms(2) by (auto simp: padded_def not_less unat_eq_0)
    moreover have "put_number m buf c z w v = Some ?m1" using put False by (simp only: if_False)
    ultimately show ?thesis using a1 o1 by (intro exI [of _ ?m1]) simp
  qed
qed

lemma switch_renders:
  assumes "flag_width ds = (z, w)" and "unat w < 32" and "outside P buf 32" and "outside P num_str 10"
    and "c = of_char (CHR ''s'') \<and> args n \<noteq> 0 \<Longrightarrow> text_at P m (args n) (S (args n))"
  shows "\<exists>m'. kprintf_switch buf num_str args m c z w n out
      = Some (m', snd (render_item S args (Dir ds l c) n), out @ fst (render_item S args (Dir ds l c) n))
    \<and> agree P m m'"
proof -
  have refl: "agree P m m" by (simp add: agree_def)
  consider "c = of_char (CHR ''c'')"
    | "c \<noteq> of_char (CHR ''c'')" "c \<in> set number_conversions"
    | "c \<noteq> of_char (CHR ''c'')" "c \<notin> set number_conversions"
      "c \<in> {of_char (CHR ''f''), of_char (CHR ''F''), of_char (CHR ''s''), of_char (CHR ''%'')}"
    | "c \<noteq> of_char (CHR ''c'')" "c \<notin> set number_conversions"
      "c \<notin> {of_char (CHR ''f''), of_char (CHR ''F''), of_char (CHR ''s''), of_char (CHR ''%'')}"
    by blast
  then show ?thesis
  proof cases
    case 1
    then show ?thesis using refl by (simp add: kprintf_switch_def)
  next
    case 2
    from put_number_padded [OF 2(2) assms(1-3), of m "args n"] obtain m' where
      m': "put_number m buf c z w (args n) = Some m'" "agree P m m'" "cstr m' buf (padded ds (number_for c (args n)))"
      by blast
    from 2 m'(1,2) kernel_puts_cstr [OF m'(3), of out] show ?thesis by (simp add: kprintf_switch_def)
  next
    case 3
    show ?thesis
    proof (cases "c = of_char (CHR ''s'') \<and> args n \<noteq> 0")
      case True
      then have "cstr m (args n) (S (args n))" using assms(5) by (simp add: text_at_def)
      from 3 True refl kernel_puts_cstr [OF this, of out] show ?thesis by (auto simp: kprintf_switch_def)
    next
      case False
      with 3 refl show ?thesis by (auto simp: kprintf_switch_def)
    qed
  next
    case 4
    let ?m0 = "wr_bytes m num_str (replicate 10 0)"
    let ?s = "numeral_of 10 (unat w)"
    have fill: "fill_up m num_str 0 10 = ?m0" by (rule fill_up_eq) simp
    have a0: "agree P m ?m0" by (rule agree_wr_outside [OF assms(4)]) simp_all
    have sw: "sint w = int (unat w)" using assms(2) by (intro sint_small) simp
    then have pos: "0 < sint w \<longleftrightarrow> w \<noteq> 0" by (simp only: of_nat_0_less_iff unat_gt_0)
    have sn: "signed_numeral (sint w) = ?s" unfolding sw by (simp add: signed_numeral_def del: of_nat_unat)
    let ?m1 = "wr_bytes ?m0 num_str (?s @ [0])"
    have "length ?s \<le> 2" using digits_length [of 10 "unat w" 2] assms(2) by (simp add: numeral_of_def)
    then have a1: "agree P ?m0 ?m1" by (intro agree_wr_outside [OF assms(4)]) simp_all
    have "0 \<notin> set ?s"
      using digits_below [of 10 _ "unat w"] digit_ascii_nonzero by (fastforce simp: numeral_of_def)
    then have "cstr ?m1 num_str ?s" using \<open>length ?s \<le> 2\<close> by (intro cstr_wr_bytes) simp_all
    note puts = kernel_puts_cstr [OF this]
    show ?thesis
      using 4 a0 agree_trans [OF a0 a1] puts assms(1) pos
      by (cases "w = 0") (auto simp: kprintf_switch_def fill itodec_eq sn Let_def)
  qed
qed

lemma percent_nonzero: "(of_char (CHR ''%'') :: u8) \<noteq> 0"
  by code_simp

lemma ell_not_digit: "\<not> is_digit_byte (of_char (CHR ''l''))"
  by code_simp

text \<open>Where the conversion character of a directive is, and what follows it.\<close>

lemma directive_scan:
  assumes t: "text_at P m f (item_text (Dir ds l c) @ rest)" and ok: "item_ok (Dir ds l c)"
  shows "\<exists>e. m f = of_char (CHR ''%'') \<and> scan_width m (f + 1) False 0 = Some (e, flag_width ds)
    \<and> m (if m e = of_char (CHR ''l'') then e + 1 else e) = c
    \<and> text_at P m ((if m e = of_char (CHR ''l'') then e + 1 else e) + 1) rest
    \<and> (\<not> l \<longrightarrow> m e = c)"
proof -
  let ?e = "f + 1 + word_of_nat (length ds)"
  have ds: "list_all is_digit_byte ds" using ok by simp
  have f: "m f = of_char (CHR ''%'')" and t1: "text_at P m (f + 1) (ds @ (if l then [of_char (CHR ''l'')] else []) @ c # rest)"
    using t by (simp_all add: text_at_Cons)
  note t2 = text_at_append [OF t1]
  show ?thesis
  proof (cases l)
    case True
    with t1 scan_width_digits [OF _ ds ell_not_digit, of P m "f + 1" "c # rest" False 0]
    have "scan_width m (f + 1) False 0 = Some (?e, flag_width ds)" by (simp add: flag_width_def)
    moreover have "m ?e = of_char (CHR ''l'')" "m (?e + 1) = c" "text_at P m (?e + 1 + 1) rest"
      using t2 True by (simp_all add: text_at_Cons add.assoc)
    ultimately show ?thesis using f True by (intro exI [of _ ?e]) simp
  next
    case False
    then have c: "\<not> is_digit_byte c" "c \<noteq> of_char (CHR ''l'')" using ok by simp_all
    with t1 scan_width_digits [OF _ ds c(1), of P m "f + 1" rest False 0] False
    have "scan_width m (f + 1) False 0 = Some (?e, flag_width ds)" by (simp add: flag_width_def)
    moreover have "m ?e = c" "text_at P m (?e + 1) rest"
      using t2 False by (simp_all add: text_at_Cons)
    ultimately show ?thesis using f c(2) by (intro exI [of _ ?e]) simp
  qed
qed

lemma kprintf_loop_renders:
  assumes "outside P buf 32" and "outside P num_str 10"
  shows "text_at P m f (format_text items) \<Longrightarrow> list_all item_ok items \<Longrightarrow> strings_ok P m S args items n \<Longrightarrow>
    \<exists>m'. kprintf_loop buf num_str args m f n out = Some (m', out @ render S args items n) \<and> agree P m m'"
proof (induction items arbitrary: m f n out)
  case Nil
  then have "m f = 0" by (simp add: format_text_def text_at_def)
  then show ?case by (subst kprintf_loop.simps) (simp add: agree_def)
next
  case (Cons it items)
  have t: "text_at P m f (item_text it @ format_text items)" using Cons.prems(1) by (simp add: format_text_def)
  have ok: "item_ok it" "list_all item_ok items" using Cons.prems(2) by simp_all
  show ?case
  proof (cases it)
    case (Lit c)
    then have "m f = c" "c \<noteq> 0" "c \<noteq> of_char (CHR ''%'')" and t': "text_at P m (f + 1) (format_text items)"
      using t ok(1) by (simp_all add: text_at_Cons)
    moreover have "strings_ok P m S args items n" using Cons.prems(3) Lit by simp
    note Cons.IH [OF t' ok(2) this, of "out @ [c]"]
    ultimately show ?thesis using Lit by (subst kprintf_loop.simps) simp
  next
    case (Dir ds l c)
    from directive_scan [OF t [unfolded Dir] ok(1) [unfolded Dir]] obtain e where
      e: "m f = of_char (CHR ''%'')" "scan_width m (f + 1) False 0 = Some (e, flag_width ds)"
      "m (if m e = of_char (CHR ''l'') then e + 1 else e) = c"
      "text_at P m ((if m e = of_char (CHR ''l'') then e + 1 else e) + 1) (format_text items)"
      by blast
    obtain z w where zw: "flag_width ds = (z, w)" by (cases "flag_width ds")
    have w32: "unat w < 32" using ok(1) Dir zw by simp
    obtain n' bs where r: "render_item S args it n = (bs, n')" by (cases "render_item S args it n")
    have "text_at P m (args n) (S (args n))" if "c = of_char (CHR ''s'') \<and> args n \<noteq> 0"
      using that Cons.prems(3) Dir by simp
    note sw = switch_renders [OF zw w32 assms, of c args n m S out l, OF this]
    obtain m' where
      m': "kprintf_switch buf num_str args m c z w n out = Some (m', n', out @ bs)" "agree P m m'"
      using sw r Dir by auto
    have t': "text_at P m' ((if m e = of_char (CHR ''l'') then e + 1 else e) + 1) (format_text items)"
      using text_at_agree [OF m'(2) e(4)] .
    have s': "strings_ok P m' S args items n'"
      using Cons.prems(3) r strings_ok_agree [OF m'(2)] by simp
    from Cons.IH [OF t' ok(2) s', of "out @ bs"] obtain m'' where
      m'': "kprintf_loop buf num_str args m' ((if m e = of_char (CHR ''l'') then e + 1 else e) + 1) n' (out @ bs)
        = Some (m'', (out @ bs) @ render S args items n')" "agree P m' m''" by blast
    have "kprintf_directive buf num_str args m (f + 1) n out
        = Some (m', if m e = of_char (CHR ''l'') then e + 1 else e, n', out @ bs)"
      unfolding kprintf_directive_def using e(2,3) m'(1) zw by (simp add: Let_def)
    then have "kprintf_loop buf num_str args m f n out = Some (m'', (out @ bs) @ render S args items n')"
      using e(1) m''(1) percent_nonzero by (subst kprintf_loop.simps) simp
    then show ?thesis using r agree_trans [OF m'(2) m''(2)] by auto
  qed
qed

section \<open>ksprintf stores what kprintf prints\<close>

lemma append_bytes_eq: "length bs < 2 ^ 32 \<Longrightarrow> append_bytes m a bs = (wr_bytes m a bs, a + word_of_nat (length bs))"
proof (induction bs arbitrary: m a)
  case (Cons b bs)
  then show ?case by (simp add: wr_bytes_Cons add.assoc)
qed simp

lemma append_string_eq:
  "cstr m t s \<Longrightarrow> length s < 2 ^ 32 \<Longrightarrow> (\<And>i j. i < length s \<Longrightarrow> j \<le> length s \<Longrightarrow> a + word_of_nat i \<noteq> t + word_of_nat j) \<Longrightarrow>
    append_string m a t = Some (wr_bytes m a s, a + word_of_nat (length s))"
proof (induction s arbitrary: m a t)
  case Nil
  then show ?case by (subst append_string.simps) simp
next
  case (Cons c s)
  have h: "m t = c" "c \<noteq> 0" and ts: "cstr m (t + 1) s" using Cons.prems(1) by simp_all
  have "cstr (m(a := c)) (t + 1) s = cstr m (t + 1) s"
  proof (rule cstr_cong)
    fix j assume "j \<le> length s"
    then have "a \<noteq> t + word_of_nat (Suc j)" using Cons.prems(3) [of 0 "Suc j"] by simp
    then show "(m(a := c)) (t + 1 + word_of_nat j) = m (t + 1 + word_of_nat j)" by (simp add: add.assoc)
  qed
  then have ts': "cstr (m(a := c)) (t + 1) s" using ts by simp
  have "append_string (m(a := c)) (a + 1) (t + 1) = Some (wr_bytes (m(a := c)) (a + 1) s, a + 1 + word_of_nat (length s))"
  proof (rule Cons.IH [OF ts'])
    show "length s < 2 ^ 32" using Cons.prems(2) by simp
    fix i j assume "i < length s" "j \<le> length s"
    then show "a + 1 + word_of_nat i \<noteq> t + 1 + word_of_nat j"
      using Cons.prems(3) [of "Suc i" "Suc j"] by (simp add: ac_simps)
  qed
  then show ?case using h Cons.prems(2) wr_bytes_Cons [of s m a c]
    by (subst append_string.simps) (simp add: add.assoc)
qed

text \<open>The \<open>k\<close> bytes at the destination are outside \<open>P\<close> and away from the 32 bytes of the buffer.\<close>

definition free_dest :: "addr set \<Rightarrow> addr \<Rightarrow> addr \<Rightarrow> nat \<Rightarrow> bool" where
  "free_dest P buf a k \<longleftrightarrow> (\<forall>i < k. a + word_of_nat i \<notin> P \<and> 32 \<le> unat (a + word_of_nat i - buf))"

text \<open>The memory \<open>m'\<close> differs from \<open>m\<close> in \<open>bs\<close> stored at \<open>a\<close>, and inside the buffer.\<close>

definition stored :: "addr set \<Rightarrow> addr \<Rightarrow> mem \<Rightarrow> addr \<Rightarrow> u8 list \<Rightarrow> mem \<Rightarrow> bool" where
  "stored P buf m a bs m' \<longleftrightarrow> agree P m m' \<and> rd_bytes m' a (length bs) = bs
     \<and> (\<forall>x. length bs \<le> unat (x - a) \<and> 32 \<le> unat (x - buf) \<longrightarrow> m' x = m x)"

lemma stored_wr_bytes:
  assumes "free_dest P buf a (length bs)" and "length bs \<le> 2 ^ 31" and "agree P m m1"
    and "\<forall>x. 32 \<le> unat (x - buf) \<longrightarrow> m1 x = m x"
  shows "stored P buf m a bs (wr_bytes m1 a bs)"
proof -
  have "agree P m1 (wr_bytes m1 a bs)"
    using assms(1,2) by (intro agree_wr_outside [of _ _ "length bs"]) (simp_all add: outside_def free_dest_def)
  then show ?thesis using assms agree_trans [OF assms(3)] rd_wr_bytes [of bs m1 a]
    by (simp add: stored_def wr_bytes_other)
qed

lemma stored_append:
  assumes "stored P buf m a bs m1" and "stored P buf m1 (a + word_of_nat (length bs)) cs m2"
    and "free_dest P buf a (length (bs @ cs))" and "length (bs @ cs) \<le> 2 ^ 31"
  shows "stored P buf m a (bs @ cs) m2"
proof -
  let ?b = "a + word_of_nat (length bs)"
  have b: "unat (word_of_nat (length bs) :: addr) = length bs" using assms(4) by (intro unat_of_nat32) simp
  have keep: "m2 (a + word_of_nat i) = m1 (a + word_of_nat i)" if "i < length bs" for i
  proof -
    have "word_of_nat (length bs) = (word_of_nat i + word_of_nat (length bs - i) :: addr)"
      using that by (metis le_add_diff_inverse less_imp_le of_nat_add)
    then have "a + word_of_nat i - ?b = (a + word_of_nat i) - ((a + word_of_nat i) + word_of_nat (length bs - i))"
      by (simp add: add.assoc)
    also have "unat \<dots> = 2 ^ 32 - unat (word_of_nat (length bs - i) :: addr)"
    proof (rule unat_behind)
      show "(word_of_nat (length bs - i) :: addr) \<noteq> 0"
        using that assms(4) word_of_nat_eq_small [of "length bs - i" 0] by simp
    qed
    also have "unat (word_of_nat (length bs - i) :: addr) = length bs - i"
      using assms(4) by (intro unat_of_nat32) simp
    finally have "length cs \<le> unat (a + word_of_nat i - ?b)" using assms(4) by simp
    moreover have "32 \<le> unat (a + word_of_nat i - buf)" using assms(3) that by (simp add: free_dest_def)
    ultimately show ?thesis using assms(2) by (simp add: stored_def)
  qed
  have rd: "rd_bytes m2 a (length (bs @ cs)) = rd_bytes m2 a (length bs) @ rd_bytes m2 ?b (length cs)"
  proof (rule nth_equalityI)
    fix i assume "i < length (rd_bytes m2 a (length (bs @ cs)))"
    then show "rd_bytes m2 a (length (bs @ cs)) ! i = (rd_bytes m2 a (length bs) @ rd_bytes m2 ?b (length cs)) ! i"
      by (simp add: nth_append add.assoc flip: of_nat_add)
  qed simp
  have "rd_bytes m2 a (length bs) = rd_bytes m1 a (length bs)"
    using keep by (simp add: rd_bytes_def)
  moreover have "m2 x = m x" if x: "length (bs @ cs) \<le> unat (x - a)" "32 \<le> unat (x - buf)" for x
  proof -
    have "unat ((x - a) - word_of_nat (length bs)) = unat (x - a) - length bs"
      using x(1) b by (subst unat_sub) (simp_all add: word_le_nat_alt)
    then have "length cs \<le> unat (x - ?b)" using x(1) by (simp add: diff_diff_eq)
    then show ?thesis using assms(1,2) x by (simp add: stored_def)
  qed
  ultimately show ?thesis using assms(1,2) rd agree_trans by (auto simp: stored_def)
qed

definition known_conversions :: "u8 list" where
  "known_conversions = number_conversions @ map (\<lambda>c. of_char c) ''cfFs%''"

lemma ksprintf_switch_stores:
  assumes zw: "flag_width ds = (z, w)" "unat w < 32" and buf: "outside P buf 32"
    and c: "c \<in> set known_conversions"
    and str: "c = of_char (CHR ''s'') \<and> args n \<noteq> 0 \<Longrightarrow> text_at P m (args n) (S (args n))"
    and r: "render_item S args (Dir ds l c) n = (bs, n')"
    and free: "free_dest P buf a (length bs)" "length bs \<le> 2 ^ 31"
  shows "\<exists>m'. ksprintf_switch buf args m a c z w n = Some (m', a + word_of_nat (length bs), n')
    \<and> stored P buf m a bs m'"
proof -
  have refl: "agree P m m" by (simp add: agree_def)
  have plain: "stored P buf m a bs (wr_bytes m a bs)" using stored_wr_bytes [OF free refl] by simp
  have one: "m(a := x) = wr_bytes m a [x]" for x using wr_bytes_snoc [of "[]" m a x] by simp
  consider "c = of_char (CHR ''c'')"
    | "c \<noteq> of_char (CHR ''c'')" "c \<in> set number_conversions"
    | "c \<noteq> of_char (CHR ''c'')" "c \<notin> set number_conversions" "c = of_char (CHR ''f'') \<or> c = of_char (CHR ''F'')"
    | "c \<noteq> of_char (CHR ''c'')" "c \<notin> set number_conversions" "c = of_char (CHR ''s'')"
    | "c \<noteq> of_char (CHR ''c'')" "c \<notin> set number_conversions" "c = of_char (CHR ''%'')"
    using c by (auto simp: known_conversions_def)
  then show ?thesis
  proof cases
    case 1
    then show ?thesis using r plain by (auto simp: ksprintf_switch_def one)
  next
    case 2
    from put_number_padded [OF 2(2) zw buf, of m "args n"] obtain m1 where
      m1: "put_number m buf c z w (args n) = Some m1" "agree P m m1" "cstr m1 buf (padded ds (number_for c (args n)))"
        "\<forall>x. 32 \<le> unat (x - buf) \<longrightarrow> m1 x = m x" by blast
    have bs: "bs = padded ds (number_for c (args n))" "n' = n + 1" using r 2 by simp_all
    have len: "length bs < 32"
      using zw length_number_for [of c "args n"] by (auto simp: bs padded_def split: nat_diff_split)
    have "append_string m1 a buf = Some (wr_bytes m1 a bs, a + word_of_nat (length bs))"
    proof (rule append_string_eq)
      show "cstr m1 buf bs" using m1(3) bs by simp
      show "length bs < 2 ^ 32" using len by simp
      fix i j assume ij: "i < length bs" "j \<le> length bs"
      then have "32 \<le> unat (a + word_of_nat i - buf)" using free(1) by (simp add: free_dest_def)
      moreover have "unat (buf + word_of_nat j - buf) = j" using ij len by (simp add: unat_of_nat32)
      ultimately show "a + word_of_nat i \<noteq> buf + word_of_nat j" using ij len by auto
    qed
    then show ?thesis using 2 m1 bs(2) stored_wr_bytes [OF free m1(2,4)]
      by (simp add: ksprintf_switch_def)
  next
    case 3
    then show ?thesis using r plain append_bytes_eq [of float_text m a]
      by (auto simp: ksprintf_switch_def float_text_def)
  next
    case 4
    show ?thesis
    proof (cases "args n = 0")
      case True
      then show ?thesis using 4 r plain append_bytes_eq [of null_text m a]
        by (auto simp: ksprintf_switch_def null_text_def)
    next
      case False
      then have t: "text_at P m (args n) (S (args n))" using str 4 by blast
      have bs: "bs = S (args n)" "n' = n + 1" using r 4 False by auto
      have "append_string m a (args n) = Some (wr_bytes m a bs, a + word_of_nat (length bs))"
      proof (rule append_string_eq)
        show "cstr m (args n) bs" using t bs by (simp add: text_at_def)
        show "length bs < 2 ^ 32" using free(2) by simp
        fix i j assume "i < length bs" "j \<le> length bs"
        then show "a + word_of_nat i \<noteq> args n + word_of_nat j"
          using free(1) t bs by (auto simp: free_dest_def text_at_def)
      qed
      then show ?thesis using 4 False bs(2) plain by (simp add: ksprintf_switch_def)
    qed
  next
    case 5
    then show ?thesis using r plain by (auto simp: ksprintf_switch_def one)
  qed
qed

fun item_known :: "item \<Rightarrow> bool" where
  "item_known (Lit c) \<longleftrightarrow> True"
| "item_known (Dir ds l c) \<longleftrightarrow> \<not> l \<and> c \<in> set known_conversions"

lemma ksprintf_loop_stores:
  assumes buf: "outside P buf 32"
  shows "text_at P m f (format_text items) \<Longrightarrow> list_all item_ok items \<Longrightarrow> list_all item_known items \<Longrightarrow>
    strings_ok P m S args items n \<Longrightarrow> free_dest P buf a (length (render S args items n)) \<Longrightarrow>
    length (render S args items n) \<le> 2 ^ 31 \<Longrightarrow>
    \<exists>m'. ksprintf_loop buf args m a f n = Some (m', a + word_of_nat (length (render S args items n)))
      \<and> stored P buf m a (render S args items n) m'"
proof (induction items arbitrary: m f n a)
  case Nil
  then have "m f = 0" by (simp add: format_text_def text_at_def)
  then show ?case by (subst ksprintf_loop.simps) (simp add: stored_def agree_def)
next
  case (Cons it items)
  have t: "text_at P m f (item_text it @ format_text items)" using Cons.prems(1) by (simp add: format_text_def)
  have ok: "item_ok it" "list_all item_ok items" "item_known it" "list_all item_known items"
    using Cons.prems(2,3) by simp_all
  obtain bs n' where r: "render_item S args it n = (bs, n')" by (cases "render_item S args it n")
  let ?R = "render S args items n'"
  have R: "render S args (it # items) n = bs @ ?R" using r by simp
  have free1: "free_dest P buf a (length bs)" "length bs \<le> 2 ^ 31" and lenR: "length ?R \<le> 2 ^ 31"
    and lenb: "length (bs @ ?R) \<le> 2 ^ 31" and freeall: "free_dest P buf a (length (bs @ ?R))"
    using Cons.prems(5,6) unfolding R by (simp_all add: free_dest_def)
  have free2: "free_dest P buf (a + word_of_nat (length bs)) (length ?R)"
    unfolding free_dest_def
  proof (intro allI impI)
    fix i assume "i < length ?R"
    then show "a + word_of_nat (length bs) + word_of_nat i \<notin> P
        \<and> 32 \<le> unat (a + word_of_nat (length bs) + word_of_nat i - buf)"
      using freeall unfolding free_dest_def by (auto dest!: spec [of _ "length bs + i"] simp: add.assoc)
  qed
  have step: "\<exists>m1 e. ksprintf_loop buf args m a f n = ksprintf_loop buf args m1 (a + word_of_nat (length bs)) e n'
      \<and> text_at P m1 e (format_text items) \<and> stored P buf m a bs m1"
  proof (cases it)
    case (Lit c)
    then have h: "m f = c" "c \<noteq> 0" "c \<noteq> of_char (CHR ''%'')" and t': "text_at P m (f + 1) (format_text items)"
      using t ok(1) by (simp_all add: text_at_Cons)
    have bs: "bs = [c]" "n' = n" using r Lit by simp_all
    have one: "m(a := c) = wr_bytes m a [c]" using wr_bytes_snoc [of "[]" m a c] by simp
    have st: "stored P buf m a bs (m(a := c))"
      unfolding one bs(1) using free1 by (intro stored_wr_bytes) (simp_all add: bs agree_def)
    then have "text_at P (m(a := c)) (f + 1) (format_text items)"
      using t' text_at_agree by (auto simp: stored_def)
    then show ?thesis using h st bs by (subst ksprintf_loop.simps) (auto intro!: exI [of _ "m(a := c)"] exI [of _ "f + 1"])
  next
    case (Dir ds l c)
    then have l: "\<not> l" "c \<in> set known_conversions" using ok(3) by simp_all
    have cl: "c \<noteq> of_char (CHR ''l'')" using l ok(1) Dir by simp
    from directive_scan [OF t [unfolded Dir] ok(1) [unfolded Dir]] obtain e0 where
      e0: "m f = of_char (CHR ''%'')" "scan_width m (f + 1) False 0 = Some (e0, flag_width ds)"
      "text_at P m ((if m e0 = of_char (CHR ''l'') then e0 + 1 else e0) + 1) (format_text items)"
      "\<not> l \<longrightarrow> m e0 = c" by blast
    then have e: "m e0 = c" "text_at P m (e0 + 1) (format_text items)" using l(1) cl by simp_all
    obtain z w where zw: "flag_width ds = (z, w)" by (cases "flag_width ds")
    have w32: "unat w < 32" using ok(1) Dir zw by simp
    have "text_at P m (args n) (S (args n))" if "c = of_char (CHR ''s'') \<and> args n \<noteq> 0"
      using that Cons.prems(4) Dir by simp
    note sw = ksprintf_switch_stores [OF zw w32 buf l(2), of args n m S l bs n' a, OF this]
    obtain m1 where m1: "ksprintf_switch buf args m a c z w n = Some (m1, a + word_of_nat (length bs), n')"
      "stored P buf m a bs m1"
      using sw r Dir free1 by auto
    have "text_at P m1 (e0 + 1) (format_text items)" using e(2) m1(2) text_at_agree by (auto simp: stored_def)
    then show ?thesis using e0(1,2) e(1) m1 zw percent_nonzero
      by (subst ksprintf_loop.simps) (auto intro!: exI [of _ m1] exI [of _ "e0 + 1"])
  qed
  then obtain m1 e where m1: "ksprintf_loop buf args m a f n = ksprintf_loop buf args m1 (a + word_of_nat (length bs)) e n'"
    "text_at P m1 e (format_text items)" "stored P buf m a bs m1" by blast
  have "strings_ok P m1 S args items n'"
    using Cons.prems(4) r strings_ok_agree m1(3) by (auto simp: stored_def)
  from Cons.IH [OF m1(2) ok(2,4) this free2 lenR] obtain m2 where
    m2: "ksprintf_loop buf args m1 (a + word_of_nat (length bs)) e n'
      = Some (m2, a + word_of_nat (length bs) + word_of_nat (length ?R))"
    "stored P buf m1 (a + word_of_nat (length bs)) ?R m2" by blast
  have "stored P buf m a (bs @ ?R) m2" using m1(3) m2(2) freeall lenb by (rule stored_append)
  then show ?case unfolding R using m1(1) m2(1) by (simp add: add.assoc)
qed

text \<open>Windows of memory, for concrete formats and buffers.\<close>

definition window :: "addr \<Rightarrow> nat \<Rightarrow> addr set" where
  "window a k = {x. unat (x - a) < k}"

lemma text_written:
  assumes "0 \<notin> set s" and "length s < k" and "k \<le> 2 ^ 31"
  shows "text_at (window a k) (wr_bytes m a (s @ [0])) a s"
proof -
  have "cstr (wr_bytes m a (s @ [0])) a s" using assms by (intro cstr_wr_bytes) simp_all
  moreover have "unat (word_of_nat i :: addr) = i" if "i \<le> length s" for i
    using that assms by (intro unat_of_nat32) simp
  ultimately show ?thesis using assms(2) by (simp add: text_at_def window_def)
qed

lemma window_far:
  assumes "unat a + k \<le> unat b" and "unat b + n \<le> 2 ^ 32"
  shows "outside (window a k) b n"
  unfolding outside_def window_def
proof (intro allI impI)
  fix i assume "i < n"
  then have "unat (b + word_of_nat i) = unat b + i" using assms(2) by (intro unat_plus_small) simp
  then have "k \<le> unat (b + word_of_nat i - a)" using assms by (intro unat_diff_ge) simp_all
  then show "b + word_of_nat i \<notin> {x. unat (x - a) < k}" by simp
qed

lemma window_dest:
  assumes "unat a + k \<le> unat b" and "unat buf + 32 \<le> unat b" and "unat b + n \<le> 2 ^ 32"
  shows "free_dest (window a k) buf b n"
  unfolding free_dest_def
proof (intro allI impI conjI)
  fix i assume i: "i < n"
  then show "b + word_of_nat i \<notin> window a k"
    using window_far [OF assms(1,3)] by (simp add: outside_def)
  have "unat (b + word_of_nat i) = unat b + i" using i assms(3) by (intro unat_plus_small) simp
  then show "32 \<le> unat (b + word_of_nat i - buf)" using assms by (intro unat_diff_ge) simp_all
qed

text \<open>A zero-padded width of 32 or more runs over the buffer: the terminator lands at \<open>buf + width\<close>.\<close>

lemma pad_overruns_buffer:
  assumes "c \<in> set number_conversions" and "32 \<le> unat w" and "unat w < 2 ^ 31"
  shows "\<exists>m'. put_number m buf c True w v = Some m' \<and> m' (buf + w) = 0 \<and> 32 \<le> unat (buf + w - buf)"
proof -
  let ?s = "number_for c v"
  let ?bs = "replicate (unat w - length ?s) 0x30 @ ?s @ [0]"
  have w: "w \<noteq> 0" using assms(2) by auto
  have l: "length ?s < unat w" using length_number_for [of c v] assms(2) by simp
  let ?m = "wr_bytes (wr_bytes m buf (?s @ [0])) buf ?bs"
  have "put_number m buf c True w v = Some ?m" using put_number_eq [OF assms(1,3)] w l by simp
  moreover have "((replicate (unat w - length ?s) 0x30 @ ?s) @ [0]) ! length (replicate (unat w - length ?s) 0x30 @ ?s) = (0 :: u8)"
    by (rule nth_append_length)
  then have "?bs ! unat w = 0" using l by simp
  then have "?m (buf + w) = 0" using wr_bytes_nth [of "unat w" ?bs _ buf] l assms(3) by simp
  ultimately show ?thesis using assms(2) by simp
qed

lemma pad_before_sign:
  "render_item S (\<lambda>_. - 42) (Dir (map (\<lambda>c. of_char c) ''05'') False (of_char (CHR ''d''))) 0
    = (map (\<lambda>c. of_char c) ''00-42'', 1)"
  by code_simp

section \<open>Properties\<close>

text \<open>Claim C28. kprintf prints what its format says: for a format of literal bytes and complete
  directives with widths below 32, whose string arguments are terminated strings, it returns, and the
  bytes it sent to the screen are the rendering of the format: numerals in their base, zero padded on
  the left of the sign when the zero flag is given (a width without the flag, and the length modifier,
  are ignored), strings or (null), [float] for a double, an unknown directive printed back. Only its own
  two arrays are written.\<close>

theorem kprintf_renders:
  assumes "text_at P m format (format_text items)" and "list_all item_ok items"
    and "strings_ok P m S args items 0" and "outside P buf 32" and "outside P num_str 10"
  shows "\<exists>m'. kprintf buf num_str m format args = Some (m', render S args items 0) \<and> agree P m m'"
  using kprintf_loop_renders [OF assms(4,5,1,2,3), of "[]"] by (simp add: kprintf_def)

definition demo_items :: "item list" where
  "demo_items = [Lit (of_char (CHR ''A'')), Lit 0x3D, Dir (map (\<lambda>c. of_char c) ''04'') False (of_char (CHR ''x'')),
     Lit 0x20, Dir [] False (of_char (CHR ''d''))]"

definition demo_args :: "nat \<Rightarrow> u32" where
  "demo_args n = (if n = 0 then 0x2B else - 7)"

definition demo_mem :: mem where
  "demo_mem = wr_bytes (\<lambda>_. 0) 0x1000 (format_text demo_items @ [0])"

lemma demo_format:
  "text_at (window 0x1000 64) demo_mem 0x1000 (format_text demo_items)" "list_all item_ok demo_items"
  "list_all item_known demo_items" "strings_ok P m S demo_args demo_items 0"
  "render S demo_args demo_items 0 = map (\<lambda>c. of_char c) ''A=002b -7''"
proof -
  have "0 \<notin> set (format_text demo_items)" "length (format_text demo_items) < 64" by code_simp+
  then show "text_at (window 0x1000 64) demo_mem 0x1000 (format_text demo_items)"
    unfolding demo_mem_def by (rule text_written) simp
  show "list_all item_ok demo_items" by code_simp
  show "list_all item_known demo_items" by code_simp
  show "render S demo_args demo_items 0 = map (\<lambda>c. of_char c) ''A=002b -7''" by code_simp
  show "strings_ok P m S demo_args demo_items 0" by (simp add: demo_items_def)
qed

theorem kprintf_renders_witness:
  "\<exists>m'. kprintf 0x2000 0x2100 demo_mem 0x1000 demo_args = Some (m', map (\<lambda>c. of_char c) ''A=002b -7'')"
proof -
  have "outside (window 0x1000 64) 0x2000 32" "outside (window 0x1000 64) 0x2100 10"
    by (rule window_far; simp)+
  from kprintf_renders [OF demo_format(1,2,4) this, of "\<lambda>_. []"] show ?thesis
    unfolding demo_format(5) by blast
qed

text \<open>ksprintf agrees with kprintf: for a format of complete directives that both know,
  without length modifiers and with widths below 32, and a destination apart from the format, the
  string arguments and the conversion buffer, it stores at the destination exactly the bytes kprintf
  prints, followed by a terminator, returns their number and leaves the rest of the protected memory
  unchanged.\<close>

theorem ksprintf_stores_kprintf_output:
  assumes "text_at P m format (format_text items)" and "list_all item_ok items" and "list_all item_known items"
    and "strings_ok P m S args items 0" and "outside P buf 32" and "outside P num_str 10"
    and "free_dest P buf str (Suc (length (render S args items 0)))" and "length (render S args items 0) < 2 ^ 31"
  shows "\<exists>m' out. ksprintf buf m str format args = Some (m', word_of_nat (length out))
    \<and> map_option snd (kprintf buf num_str m format args) = Some out
    \<and> rd_bytes m' str (Suc (length out)) = out @ [0] \<and> agree P m m'"
proof -
  let ?R = "render S args items 0"
  have free: "free_dest P buf str (length ?R)" "str + word_of_nat (length ?R) \<notin> P"
    using assms(7) by (simp_all add: free_dest_def)
  from ksprintf_loop_stores [OF assms(5,1,2,3,4) free(1)] assms(8) obtain m1 where
    m1: "ksprintf_loop buf args m str format 0 = Some (m1, str + word_of_nat (length ?R))"
    "stored P buf m str ?R m1" by auto
  from kprintf_loop_renders [OF assms(5,6,1,2,4), of "[]"] have
    k: "map_option snd (kprintf buf num_str m format args) = Some ?R" by (auto simp: kprintf_def)
  let ?m = "m1(str + word_of_nat (length ?R) := 0)"
  have "str + word_of_nat i \<noteq> str + word_of_nat (length ?R)" if "i < length ?R" for i
    using that assms(8) word_of_nat_eq_small [of i "length ?R"] by simp
  then have "rd_bytes ?m str (length ?R) = rd_bytes m1 str (length ?R)" by (rule rd_bytes_upd_notin)
  then have "rd_bytes ?m str (length ?R) = ?R" using m1(2) by (simp only: stored_def)
  then have "rd_bytes ?m str (Suc (length ?R)) = ?R @ [0]" by (simp add: rd_bytes_snoc)
  moreover have "agree P m ?m" using m1(2) free(2) by (auto simp: stored_def agree_def)
  moreover have "ksprintf buf m str format args = Some (?m, word_of_nat (length ?R))"
    using m1(1) by (simp add: ksprintf_def)
  ultimately show ?thesis using k by blast
qed

theorem ksprintf_stores_kprintf_output_witness:
  "\<exists>m' out. ksprintf 0x2000 demo_mem 0x3000 0x1000 demo_args = Some (m', word_of_nat (length out))
    \<and> map_option snd (kprintf 0x2000 0x2100 demo_mem 0x1000 demo_args) = Some out
    \<and> rd_bytes m' 0x3000 (Suc (length out)) = out @ [0]"
proof -
  have o: "outside (window 0x1000 64) 0x2000 32" "outside (window 0x1000 64) 0x2100 10"
    by (rule window_far; simp)+
  let ?R = "render (\<lambda>_. []) demo_args demo_items 0"
  have d: "free_dest (window 0x1000 64) 0x2000 0x3000 (Suc (length ?R))" "length ?R < 2 ^ 31"
    unfolding demo_format(5) by (rule window_dest; simp) simp
  from ksprintf_stores_kprintf_output [OF demo_format(1-4) o d] show ?thesis by blast
qed

end
