(* ===== verification/Scheduler.thy ===== *)
theory Scheduler
  imports OrionBase
begin

text \<open>
  The round-robin scheduler, scheduler.c: a fixed pool of eight task control blocks and a circular
  list of the ready ones. A TCB pointer is the index of the block in \<open>task_pool\<close> (NULL is \<open>None\<close>), and
  \<open>smem\<close> is the memory the initial task stacks are built in. The two loops over the ring only end
  when the ring is closed, so they are partial functions: \<open>None\<close> is a loop that never ends or a
  read through a null \<open>next\<close> pointer.

  \<open>ring\<close> abstracts the pointers to the list of ready tasks from \<open>ready_head\<close> on; \<open>sched_inv\<close> is the
  invariant every operation keeps.
\<close>

subsection \<open>Data\<close>

datatype task_state = TASK_UNUSED | TASK_READY | TASK_RUNNING | TASK_BLOCKED

record tcb =
  t_sp :: addr
  t_state :: task_state
  t_next :: "nat option"
  t_arg :: addr
  t_stack_base :: addr
  t_stack_size :: u32
  t_id :: u32

record sched =
  task_pool :: "nat \<Rightarrow> tcb"
  task_count :: nat
  current_task :: "nat option"
  ready_head :: "nat option"
  smem :: mem

definition OS_MAX_TASKS :: nat where "OS_MAX_TASKS = 8"

definition zero_tcb :: tcb where
  "zero_tcb = \<lparr>t_sp = 0, t_state = TASK_UNUSED, t_next = None, t_arg = 0,
     t_stack_base = 0, t_stack_size = 0, t_id = 0\<rparr>"

definition set_next :: "sched \<Rightarrow> nat \<Rightarrow> nat option \<Rightarrow> sched" where
  "set_next s t n = s\<lparr>task_pool := (task_pool s)(t := (task_pool s t)\<lparr>t_next := n\<rparr>)\<rparr>"

definition set_state :: "sched \<Rightarrow> nat \<Rightarrow> task_state \<Rightarrow> sched" where
  "set_state s t st = s\<lparr>task_pool := (task_pool s)(t := (task_pool s t)\<lparr>t_state := st\<rparr>)\<rparr>"

subsection \<open>The ready ring\<close>

partial_function (option) find_tail :: "(nat \<Rightarrow> tcb) \<Rightarrow> nat \<Rightarrow> nat \<Rightarrow> nat option" where
  "find_tail pool head tail =
     (if t_next (pool tail) = Some head then Some tail
      else (case t_next (pool tail) of None \<Rightarrow> None | Some t \<Rightarrow> find_tail pool head t))"

definition ready_insert :: "sched \<Rightarrow> nat \<Rightarrow> sched option" where
  "ready_insert s t =
     (case ready_head s of
        None \<Rightarrow> Some (set_next (s\<lparr>ready_head := Some t\<rparr>) t (Some t))
      | Some h \<Rightarrow> map_option (\<lambda>tail. set_next (set_next s tail (Some t)) t (Some h))
                    (find_tail (task_pool s) h h))"

text \<open>\<open>Some None\<close>: the loop came back to the head, the task is not in the ring.\<close>

partial_function (option) find_prev :: "(nat \<Rightarrow> tcb) \<Rightarrow> nat \<Rightarrow> nat \<Rightarrow> nat \<Rightarrow> nat option option" where
  "find_prev pool head prev t =
     (if t_next (pool prev) = Some t then Some (Some prev)
      else (case t_next (pool prev) of
              None \<Rightarrow> None
            | Some p \<Rightarrow> if p = head then Some None else find_prev pool head p t))"

definition ready_remove :: "sched \<Rightarrow> nat \<Rightarrow> sched option" where
  "ready_remove s t =
     (case ready_head s of
        None \<Rightarrow> Some s
      | Some h \<Rightarrow>
          if t_next (task_pool s t) = Some t
          then Some (set_next (if h = t then s\<lparr>ready_head := None\<rparr> else s) t None)
          else map_option (\<lambda>prev. case prev of
                   None \<Rightarrow> s
                 | Some p \<Rightarrow>
                     (let s1 = set_next s p (t_next (task_pool s t));
                          s2 = (if h = t then s1\<lparr>ready_head := t_next (task_pool s1 t)\<rparr> else s1)
                      in set_next s2 t None))
                 (find_prev (task_pool s) h h t))"

subsection \<open>Operations\<close>

definition OS_Init :: "sched \<Rightarrow> sched" where
  "OS_Init s = s\<lparr>task_pool := (\<lambda>_. zero_tcb), task_count := 0, current_task := None, ready_head := None\<rparr>"

definition OS_TaskArg :: "sched \<Rightarrow> addr" where
  "OS_TaskArg s = (case current_task s of None \<Rightarrow> 0 | Some c \<Rightarrow> t_arg (task_pool s c))"

definition push32 :: "mem \<Rightarrow> addr \<Rightarrow> u32 \<Rightarrow> mem \<times> addr" where
  "push32 m sp v = (wr32 m (sp - 4) v, sp - 4)"

definition push16 :: "mem \<Rightarrow> addr \<Rightarrow> u16 \<Rightarrow> mem \<times> addr" where
  "push16 m sp v = (wr16 m (sp - 2) v, sp - 2)"

primrec push_regs :: "mem \<Rightarrow> addr \<Rightarrow> u32 list \<Rightarrow> mem \<times> addr" where
  "push_regs m sp [] = (m, sp)"
| "push_regs m sp (v # vs) = (case push32 m sp v of (m', sp') \<Rightarrow> push_regs m' sp' vs)"

text \<open>The register block, in push order \<open>i = 14 .. 0\<close>; slot 13 is A5.\<close>

definition reg_block :: "u32 \<Rightarrow> u32 list" where
  "reg_block a5_value = map (\<lambda>i. if i = 13 then a5_value else 0) (rev [0..<15])"

definition initial_frame :: "mem \<Rightarrow> addr \<Rightarrow> u32 \<Rightarrow> u32 \<Rightarrow> u32 \<Rightarrow> mem \<times> addr" where
  "initial_frame m stack stack_size entry a5_value =
     (let sp0 = (stack + stack_size) AND NOT 1;
          (m1, sp1) = push32 m sp0 entry;
          (m2, sp2) = push16 m1 sp1 0x2000
      in push_regs m2 sp2 (reg_block a5_value))"

definition OS_TaskCreatePIC ::
  "sched \<Rightarrow> u32 \<Rightarrow> addr \<Rightarrow> addr \<Rightarrow> u32 \<Rightarrow> u32 \<Rightarrow> u32 \<Rightarrow> (nat option \<times> sched) option" where
  "OS_TaskCreatePIC s entry arg stack stack_size ident a5_value =
     (if task_count s \<ge> OS_MAX_TASKS \<or> entry = 0 \<or> stack = 0 then Some (None, s)
      else (let t = task_count s;
                (m, sp) = initial_frame (smem s) stack stack_size entry a5_value;
                b = (task_pool s t)\<lparr>t_stack_base := stack, t_stack_size := stack_size, t_arg := arg,
                      t_id := ident, t_next := None, t_sp := sp, t_state := TASK_READY\<rparr>
            in map_option (Pair (Some t))
                 (ready_insert (s\<lparr>task_count := Suc t, smem := m, task_pool := (task_pool s)(t := b)\<rparr>) t)))"

definition OS_TaskCreate ::
  "sched \<Rightarrow> u32 \<Rightarrow> addr \<Rightarrow> addr \<Rightarrow> u32 \<Rightarrow> u32 \<Rightarrow> (nat option \<times> sched) option" where
  "OS_TaskCreate s entry arg stack stack_size ident =
     (if task_count s \<ge> OS_MAX_TASKS \<or> entry = 0 \<or> stack = 0 then Some (None, s)
      else (let t = task_count s;
                sp0 = (stack + stack_size) AND NOT 1;
                (m1, sp1) = push32 (smem s) sp0 entry;
                (m2, sp2) = push16 m1 sp1 0x2000;
                (m, sp) = push_regs m2 sp2 (replicate 15 0);
                b = (task_pool s t)\<lparr>t_stack_base := stack, t_stack_size := stack_size, t_arg := arg,
                      t_id := ident, t_next := None, t_sp := sp, t_state := TASK_READY\<rparr>
            in map_option (Pair (Some t))
                 (ready_insert (s\<lparr>task_count := Suc t, smem := m, task_pool := (task_pool s)(t := b)\<rparr>) t)))"

text \<open>OS_TaskExit up to its final empty loop, where the task waits for the next tick.\<close>

definition OS_TaskExit :: "sched \<Rightarrow> sched option" where
  "OS_TaskExit s =
     (case current_task s of
        None \<Rightarrow> Some s
      | Some c \<Rightarrow> map_option (\<lambda>s'. set_state s' c TASK_UNUSED) (ready_remove s c))"

definition dispatch :: "sched \<Rightarrow> nat \<Rightarrow> sched" where
  "dispatch s h = set_state (s\<lparr>current_task := Some h, ready_head := t_next (task_pool s h)\<rparr>) h TASK_RUNNING"

definition OS_Schedule :: "sched \<Rightarrow> sched" where
  "OS_Schedule s =
     (case ready_head s of
        None \<Rightarrow> s
      | Some h \<Rightarrow>
          let s1 = (case current_task s of
                      Some c \<Rightarrow> if t_state (task_pool s c) = TASK_RUNNING then set_state s c TASK_READY else s
                    | None \<Rightarrow> s)
          in dispatch s1 h)"

text \<open>OS_Start up to OS_StartHighRdy, which never returns; False: no task to start, it returns.\<close>

definition OS_Start :: "sched \<Rightarrow> bool \<times> sched" where
  "OS_Start s = (case ready_head s of None \<Rightarrow> (False, s) | Some h \<Rightarrow> (True, dispatch s h))"

definition OS_TaskBlock :: "sched \<Rightarrow> nat option \<Rightarrow> sched option" where
  "OS_TaskBlock s task =
     (case task of
        None \<Rightarrow> Some s
      | Some t \<Rightarrow>
          if t_state (task_pool s t) \<noteq> TASK_READY \<and> t_state (task_pool s t) \<noteq> TASK_RUNNING then Some s
          else map_option (\<lambda>s'. set_state s' t TASK_BLOCKED) (ready_remove s t))"

definition OS_TaskWake :: "sched \<Rightarrow> nat option \<Rightarrow> sched option" where
  "OS_TaskWake s task =
     (case task of
        None \<Rightarrow> Some s
      | Some t \<Rightarrow>
          if t_state (task_pool s t) \<noteq> TASK_BLOCKED then Some s
          else ready_insert (set_state s t TASK_READY) t)"

lemma reg_block_zero: "reg_block 0 = replicate 15 0"
  by (simp add: reg_block_def map_replicate_const)

lemma OS_TaskCreate_PIC: "OS_TaskCreate s entry arg stack ss i = OS_TaskCreatePIC s entry arg stack ss i 0"
  by (simp add: OS_TaskCreate_def OS_TaskCreatePIC_def initial_frame_def reg_block_zero Let_def
      split: prod.splits)

subsection \<open>Abstraction of the ring\<close>

fun chain :: "(nat \<Rightarrow> tcb) \<Rightarrow> nat list \<Rightarrow> nat \<Rightarrow> bool" where
  "chain pool [] z \<longleftrightarrow> True"
| "chain pool [x] z \<longleftrightarrow> t_next (pool x) = Some z"
| "chain pool (x # y # ys) z \<longleftrightarrow> t_next (pool x) = Some y \<and> chain pool (y # ys) z"

definition ring :: "sched \<Rightarrow> nat list \<Rightarrow> bool" where
  "ring s xs \<longleftrightarrow> distinct xs \<and>
     (case xs of [] \<Rightarrow> ready_head s = None | h # _ \<Rightarrow> ready_head s = Some h \<and> chain (task_pool s) xs h)"

definition runnable :: "task_state \<Rightarrow> bool" where
  "runnable st \<longleftrightarrow> st = TASK_READY \<or> st = TASK_RUNNING"

definition sched_inv :: "sched \<Rightarrow> nat list \<Rightarrow> bool" where
  "sched_inv s xs \<longleftrightarrow> ring s xs \<and> task_count s \<le> OS_MAX_TASKS
     \<and> (\<forall>t. t \<in> set xs \<longleftrightarrow> t < task_count s \<and> runnable (t_state (task_pool s t)))
     \<and> (\<forall>t. t \<notin> set xs \<longrightarrow> t_next (task_pool s t) = None)
     \<and> (\<forall>t. t_state (task_pool s t) \<noteq> TASK_UNUSED \<longrightarrow> t < task_count s)
     \<and> (\<forall>c. current_task s = Some c \<longrightarrow> c < task_count s)
     \<and> (\<forall>t. t_state (task_pool s t) = TASK_RUNNING \<longrightarrow> current_task s = Some t)"

subsection \<open>The loops on a closed ring\<close>

lemma chain_cong:
  "(\<And>x. x \<in> set xs \<Longrightarrow> t_next (pool' x) = t_next (pool x)) \<Longrightarrow> chain pool' xs z = chain pool xs z"
  by (induction pool xs z rule: chain.induct) auto

lemma chain_append: "chain pool (xs @ y # ys) z \<longleftrightarrow> chain pool xs y \<and> chain pool (y # ys) z"
  by (induction pool xs y rule: chain.induct) auto

lemma chain_last: "chain pool (x # xs) z \<Longrightarrow> t_next (pool (last (x # xs))) = Some z"
  by (induction pool "x # xs" z arbitrary: x xs rule: chain.induct) auto

lemma find_tail_ring:
  "chain pool (x # xs) h \<Longrightarrow> h \<notin> set xs \<Longrightarrow> find_tail pool h x = Some (last (x # xs))"
proof (induction xs arbitrary: x)
  case Nil
  then show ?case by (subst find_tail.simps) simp
next
  case (Cons y ys)
  then have "t_next (pool x) = Some y" "y \<noteq> h" by auto
  then have "find_tail pool h x = find_tail pool h y"
    by (subst find_tail.simps) simp
  with Cons show ?case by simp
qed

lemma find_prev_member:
  "chain pool (ys @ p # t # zs) h \<Longrightarrow> distinct (ys @ p # t # zs) \<Longrightarrow> h \<notin> set (tl (ys @ p # t # zs))
    \<Longrightarrow> find_prev pool h (hd (ys @ [p])) t = Some (Some p)"
proof (induction ys)
  case Nil
  then show ?case by (subst find_prev.simps) simp
next
  case (Cons y ys)
  let ?n = "hd (ys @ [p])"
  have "t_next (pool y) = Some ?n" "?n \<noteq> h" "?n \<noteq> t"
    using Cons.prems by (cases ys; auto)+
  then have "find_prev pool h y t = find_prev pool h ?n t"
    by (subst find_prev.simps) simp
  moreover have "find_prev pool h ?n t = Some (Some p)"
    using Cons.prems by (intro Cons.IH) (cases ys; auto)+
  ultimately show ?case by simp
qed

lemma find_prev_head:
  "chain pool (x # xs) h \<Longrightarrow> h \<notin> set xs \<Longrightarrow> find_prev pool h x h = Some (Some (last (x # xs)))"
proof (induction xs arbitrary: x)
  case Nil
  then show ?case by (subst find_prev.simps) simp
next
  case (Cons y ys)
  then have "t_next (pool x) = Some y" "y \<noteq> h" by auto
  then have "find_prev pool h x h = find_prev pool h y h"
    by (subst find_prev.simps) simp
  with Cons show ?case by simp
qed

lemma find_prev_absent:
  "chain pool (x # xs) h \<Longrightarrow> h \<notin> set xs \<Longrightarrow> t \<notin> set xs \<Longrightarrow> t \<noteq> h \<Longrightarrow> find_prev pool h x t = Some None"
proof (induction xs arbitrary: x)
  case Nil
  then show ?case by (subst find_prev.simps) simp
next
  case (Cons y ys)
  then have "t_next (pool x) = Some y" "y \<noteq> h" "y \<noteq> t" by auto
  then have "find_prev pool h x t = find_prev pool h y t"
    by (subst find_prev.simps) simp
  with Cons show ?case by simp
qed

lemma chain_rotate:
  assumes "chain pool (h # y # ys) h" shows "chain pool ((y # ys) @ [h]) y"
  using assms by (simp add: chain_append) (metis append_Cons append_Nil chain.simps(2) chain_append)

subsection \<open>Refinement of the ring operations\<close>

lemma set_next_simps [simp]:
  "task_pool (set_next s t n) = (task_pool s)(t := (task_pool s t)\<lparr>t_next := n\<rparr>)"
  "task_count (set_next s t n) = task_count s" "current_task (set_next s t n) = current_task s"
  "ready_head (set_next s t n) = ready_head s" "smem (set_next s t n) = smem s"
  by (simp_all add: set_next_def)

lemma set_state_simps [simp]:
  "task_pool (set_state s t st) = (task_pool s)(t := (task_pool s t)\<lparr>t_state := st\<rparr>)"
  "task_count (set_state s t st) = task_count s" "current_task (set_state s t st) = current_task s"
  "ready_head (set_state s t st) = ready_head s" "smem (set_state s t st) = smem s"
  by (simp_all add: set_state_def)

text \<open>What a ring operation may change: \<open>next\<close> fields and the head.\<close>

definition unlink :: "tcb \<Rightarrow> tcb" where
  "unlink b = b\<lparr>t_next := None\<rparr>"

lemma unlink_next [simp]: "unlink (b\<lparr>t_next := n\<rparr>) = unlink b"
  by (simp add: unlink_def)

lemma unlink_eqD:
  assumes "unlink b = unlink b'"
  shows "t_state b = t_state b'" "t_arg b = t_arg b'" "t_sp b = t_sp b'" "t_id b = t_id b'"
  using assms by (cases b, cases b', simp add: unlink_def)+

definition same_tasks :: "sched \<Rightarrow> sched \<Rightarrow> bool" where
  "same_tasks s s' \<longleftrightarrow> task_count s' = task_count s \<and> current_task s' = current_task s \<and> smem s' = smem s
     \<and> (\<forall>t. unlink (task_pool s' t) = unlink (task_pool s t))"

lemma same_tasks_state: "same_tasks s s' \<Longrightarrow> t_state (task_pool s' t) = t_state (task_pool s t)"
  unfolding same_tasks_def using unlink_eqD(1) by blast

lemma same_tasks_refl: "same_tasks s s"
  by (simp add: same_tasks_def)

lemma ringI:
  "distinct xs \<Longrightarrow> xs \<noteq> [] \<Longrightarrow> ready_head s = Some (hd xs) \<Longrightarrow> chain (task_pool s) xs (hd xs) \<Longrightarrow> ring s xs"
  by (cases xs) (auto simp: ring_def)

lemma ready_insert_ring:
  assumes "ring s xs" and "t \<notin> set xs"
  shows "\<exists>s'. ready_insert s t = Some s' \<and> ring s' (xs @ [t]) \<and> same_tasks s s'
    \<and> (\<forall>u. u \<notin> insert t (set xs) \<longrightarrow> t_next (task_pool s' u) = t_next (task_pool s u))"
proof (cases xs)
  case Nil
  with assms show ?thesis
    by (auto simp: ready_insert_def ring_def same_tasks_def)
next
  case (Cons h ys)
  have hd: "ready_head s = Some h" and ch: "chain (task_pool s) (h # ys) h" and d: "distinct (h # ys)"
    using assms(1) by (auto simp: ring_def Cons)
  let ?l = "last (h # ys)"
  have tail: "find_tail (task_pool s) h h = Some ?l"
    using ch d by (intro find_tail_ring) simp_all
  let ?s = "set_next (set_next s ?l (Some t)) t (Some h)"
  have run: "ready_insert s t = Some ?s" by (simp add: ready_insert_def hd tail)
  have lt: "?l \<in> set (h # ys)" by (rule last_in_set) simp
  have "chain (task_pool ?s) (butlast (h # ys) @ ?l # [t]) h"
  proof -
    have "butlast (h # ys) @ [?l] = h # ys" by (rule append_butlast_last_id) simp
    then have "chain (task_pool s) (butlast (h # ys) @ ?l # []) h" using ch by (simp only:)
    then have "chain (task_pool s) (butlast (h # ys)) ?l" unfolding chain_append by simp
    moreover have "chain (task_pool ?s) (butlast (h # ys)) ?l = chain (task_pool s) (butlast (h # ys)) ?l"
    proof (rule chain_cong)
      fix x assume x: "x \<in> set (butlast (h # ys))"
      have "butlast (h # ys) @ [?l] = h # ys" by (rule append_butlast_last_id) simp
      then have "distinct (butlast (h # ys) @ [?l])" using d by (simp only:)
      then have "x \<noteq> ?l" using x by auto
      moreover have "x \<noteq> t" using in_set_butlastD [OF x] assms(2) Cons by auto
      ultimately show "t_next (task_pool ?s x) = t_next (task_pool s x)" by simp
    qed
    moreover have "chain (task_pool ?s) [?l, t] h" using assms(2) Cons lt by auto
    ultimately show ?thesis unfolding chain_append by blast
  qed
  moreover have bl: "butlast (h # ys) @ ?l # [t] = xs @ [t]"
    unfolding Cons by (metis append.assoc append_Cons append_Nil append_butlast_last_id list.distinct(1))
  ultimately have "chain (task_pool ?s) (xs @ [t]) h" by (simp only:)
  moreover have "distinct (xs @ [t])" using assms(2) d Cons by simp
  moreover have "ready_head ?s = Some h" "hd (xs @ [t]) = h" using hd Cons by simp_all
  ultimately have "ring ?s (xs @ [t])" by (intro ringI) simp_all
  moreover have "same_tasks s ?s" by (auto simp: same_tasks_def)
  moreover have "\<forall>u. u \<notin> insert t (set xs) \<longrightarrow> t_next (task_pool ?s u) = t_next (task_pool s u)"
    using lt Cons by auto
  ultimately show ?thesis using run by blast
qed

lemma chain_drop:
  assumes "chain pool (xs @ p # t # zs) z" and "distinct (xs @ p # t # zs)"
    and "t_next (pool' p) = t_next (pool t)"
    and "\<And>u. u \<noteq> p \<Longrightarrow> u \<noteq> t \<Longrightarrow> t_next (pool' u) = t_next (pool u)"
  shows "chain pool' (xs @ p # zs) z"
proof -
  have x: "chain pool xs p" and ptz: "chain pool (p # t # zs) z"
    using assms(1) by (auto simp: chain_append)
  have "chain pool' xs p = chain pool xs p"
  proof (rule chain_cong)
    fix u assume "u \<in> set xs"
    then have "u \<noteq> p" "u \<noteq> t" using assms(2) by auto
    then show "t_next (pool' u) = t_next (pool u)" by (rule assms(4))
  qed
  then have "chain pool' xs p" using x by simp
  moreover have "chain pool' (p # zs) z"
  proof (cases zs)
    case Nil
    then show ?thesis using ptz assms(3) by simp
  next
    case (Cons w ws)
    have "chain pool' (w # ws) z = chain pool (w # ws) z"
    proof (rule chain_cong)
      fix u assume "u \<in> set (w # ws)"
      then have "u \<noteq> p" "u \<noteq> t" using assms(2) Cons by auto
      then show "t_next (pool' u) = t_next (pool u)" by (rule assms(4))
    qed
    then show ?thesis using ptz assms(3) Cons by simp
  qed
  ultimately show ?thesis by (simp add: chain_append)
qed

lemma ready_remove_ring:
  assumes "ring s xs" and "t \<notin> set xs \<Longrightarrow> t_next (task_pool s t) = None"
  shows "\<exists>s'. ready_remove s t = Some s' \<and> ring s' (remove1 t xs) \<and> same_tasks s s'
    \<and> t_next (task_pool s' t) = None
    \<and> (\<forall>u. u \<notin> set xs \<longrightarrow> t_next (task_pool s' u) = t_next (task_pool s u))"
proof (cases "t \<in> set xs")
  case False
  then have tn: "t_next (task_pool s t) = None" by (rule assms(2))
  have "ready_remove s t = Some s"
  proof (cases xs)
    case Nil
    then show ?thesis using assms(1) by (simp add: ring_def ready_remove_def)
  next
    case (Cons h ys)
    then have "find_prev (task_pool s) h h t = Some None"
      using assms(1) False by (intro find_prev_absent [of _ _ ys]) (auto simp: ring_def)
    then show ?thesis using assms(1) Cons tn by (simp add: ring_def ready_remove_def)
  qed
  then show ?thesis using assms(1) False tn by (simp add: remove1_idem same_tasks_refl)
next
  case True
  then obtain h ys where xs: "xs = h # ys" by (cases xs) auto
  have hd: "ready_head s = Some h" and ch: "chain (task_pool s) (h # ys) h" and d: "distinct (h # ys)"
    using assms(1) by (auto simp: ring_def xs)
  consider (one) "t = h" "ys = []" | (first) y zs where "t = h" "ys = y # zs" | (later) "t \<in> set ys"
    using True xs by (cases ys) auto
  then show ?thesis
  proof cases
    case one
    then show ?thesis using ch hd xs by (simp add: ready_remove_def ring_def same_tasks_def)
  next
    case first
    let ?l = "last (y # zs)"
    have tn: "t_next (task_pool s h) = Some y" using ch first by simp
    have lx: "?l \<in> set (y # zs)" by (rule last_in_set) simp
    have l: "?l \<noteq> h" using d lx first by auto
    have "find_prev (task_pool s) h h h = Some (Some (last (h # ys)))"
      using ch d by (intro find_prev_head) auto
    then have fp: "find_prev (task_pool s) h h h = Some (Some ?l)" using first by simp
    let ?s1 = "set_next s ?l (Some y)"
    let ?s = "set_next (?s1\<lparr>ready_head := Some y\<rparr>) h None"
    have run: "ready_remove s t = Some ?s"
      using first d l by (simp add: ready_remove_def hd tn fp Let_def)
    have bl: "butlast (y # zs) @ [?l] = y # zs" by (rule append_butlast_last_id) simp
    have eq: "butlast (y # zs) @ ?l # h # [] = (y # zs) @ [h]"
      using bl by (metis append.assoc append_Cons append_Nil)
    have "chain (task_pool s) ((y # zs) @ [h]) y" using ch first by (intro chain_rotate) simp
    then have rot: "chain (task_pool s) (butlast (y # zs) @ ?l # h # []) y" by (simp only: eq)
    have "distinct ((y # zs) @ [h])" using d first by auto
    then have "distinct (butlast (y # zs) @ ?l # h # [])" by (simp only: eq)
    then have "chain (task_pool ?s) (butlast (y # zs) @ ?l # []) y"
      using l tn by (intro chain_drop [OF rot]) auto
    then have "chain (task_pool ?s) (y # zs) y" by (simp only: bl)
    then have "ring ?s (remove1 t xs)" using d first xs by (simp add: ring_def)
    moreover have "same_tasks s ?s" by (auto simp: same_tasks_def)
    ultimately show ?thesis using run first lx xs by auto
  next
    case later
    then obtain pre zs where ys: "ys = pre @ t # zs" "t \<notin> set pre" by (meson split_list_first)
    obtain pp p where hp: "h # pre = pp @ [p]" by (metis list.distinct(1) rev_exhaust)
    have sp: "h # ys = pp @ p # t # zs" using ys hp by (metis append.assoc append_Cons append_Nil)
    have th: "t \<noteq> h" using later d by auto
    have cs: "chain (task_pool s) (pp @ p # t # zs) h" using ch by (simp only: sp)
    have dd: "distinct (pp @ p # t # zs)" using d by (simp only: sp)
    have "tl (pp @ p # t # zs) = ys" using sp by (metis list.sel(3))
    then have "h \<notin> set (tl (pp @ p # t # zs))" using d by simp
    then have "find_prev (task_pool s) h (hd (pp @ [p])) t = Some (Some p)"
      by (rule find_prev_member [OF cs dd])
    moreover have "hd (pp @ [p]) = h" unfolding hp [symmetric] by simp
    ultimately have fp: "find_prev (task_pool s) h h t = Some (Some p)" by simp
    have "p \<in> set (h # ys)" unfolding sp by simp
    then have pt: "p \<noteq> t" "p \<in> set xs" using dd xs by auto
    have tn: "t_next (task_pool s t) \<noteq> Some t"
      using cs dd d sp th by (cases zs) (auto simp: chain_append)
    let ?s = "set_next (set_next s p (t_next (task_pool s t))) t None"
    have run: "ready_remove s t = Some ?s"
      using th pt tn by (auto simp: ready_remove_def hd fp Let_def)
    have "chain (task_pool ?s) (pp @ p # zs) h"
      using pt by (intro chain_drop [OF cs dd]) auto
    moreover have "remove1 t xs = pp @ p # zs"
      using dd unfolding xs sp by (simp add: remove1_append)
    moreover have "hd (pp @ p # zs) = h" using hp by (cases pp) auto
    ultimately have "ring ?s (remove1 t xs)"
      using dd hd by (intro ringI) simp_all
    moreover have "same_tasks s ?s" by (auto simp: same_tasks_def)
    ultimately show ?thesis using run pt later xs by auto
  qed
qed

subsection \<open>The invariant, operation by operation\<close>

lemma ring_cong:
  "ready_head s' = ready_head s \<Longrightarrow> (\<And>t. t_next (task_pool s' t) = t_next (task_pool s t)) \<Longrightarrow> ring s' xs = ring s xs"
  using chain_cong [of _ "task_pool s'" "task_pool s"] by (auto simp: ring_def split: list.splits)

lemma runnable_simps [simp]:
  "runnable TASK_READY" "runnable TASK_RUNNING" "\<not> runnable TASK_BLOCKED" "\<not> runnable TASK_UNUSED"
  by (simp_all add: runnable_def)

lemma sched_invD:
  assumes "sched_inv s xs"
  shows "ring s xs" "task_count s \<le> OS_MAX_TASKS"
    "t \<in> set xs \<longleftrightarrow> t < task_count s \<and> runnable (t_state (task_pool s t))"
    "t \<notin> set xs \<Longrightarrow> t_next (task_pool s t) = None"
    "t_state (task_pool s t) \<noteq> TASK_UNUSED \<Longrightarrow> t < task_count s"
    "current_task s = Some c \<Longrightarrow> c < task_count s"
    "t_state (task_pool s t) = TASK_RUNNING \<Longrightarrow> current_task s = Some t"
  using assms by (simp_all add: sched_inv_def)

lemma sched_inv_init: "sched_inv (OS_Init s) []"
  by (simp add: sched_inv_def OS_Init_def ring_def zero_tcb_def)

text \<open>Leaving the ring into a state that is not runnable: exit and block.\<close>

lemma sched_inv_leave:
  assumes inv: "sched_inv s xs" and "\<not> runnable st" and "t < task_count s"
  shows "\<exists>s'. ready_remove s t = Some s' \<and> sched_inv (set_state s' t st) (remove1 t xs)
    \<and> current_task s' = current_task s \<and> task_count s' = task_count s"
proof -
  note I = sched_invD [OF inv]
  obtain s' where r: "ready_remove s t = Some s'" and rg: "ring s' (remove1 t xs)" and st: "same_tasks s s'"
    and n: "t_next (task_pool s' t) = None"
    and o: "\<And>u. u \<notin> set xs \<Longrightarrow> t_next (task_pool s' u) = t_next (task_pool s u)"
    using ready_remove_ring [OF I(1,4)] by blast
  have eq: "task_count s' = task_count s" "current_task s' = current_task s"
    using st by (simp_all add: same_tasks_def)
  note sts = same_tasks_state [OF st]
  have d: "distinct xs" using I(1) by (simp add: ring_def)
  have "st \<noteq> TASK_RUNNING" using assms(2) by auto
  have "sched_inv (set_state s' t st) (remove1 t xs)"
    unfolding sched_inv_def
  proof (intro conjI)
    show "ring (set_state s' t st) (remove1 t xs)" using rg by (subst ring_cong [of _ s']) auto
    show "task_count (set_state s' t st) \<le> OS_MAX_TASKS" using I(2) eq by simp
    show "\<forall>u. u \<in> set (remove1 t xs) \<longleftrightarrow>
        u < task_count (set_state s' t st) \<and> runnable (t_state (task_pool (set_state s' t st) u))"
      using I(3) eq sts assms(2) d by auto
    show "\<forall>u. u \<notin> set (remove1 t xs) \<longrightarrow> t_next (task_pool (set_state s' t st) u) = None"
      using I(4) o n d by auto
    show "\<forall>u. t_state (task_pool (set_state s' t st) u) \<noteq> TASK_UNUSED \<longrightarrow> u < task_count (set_state s' t st)"
      using I(5) sts eq assms(3) by auto
    show "\<forall>c. current_task (set_state s' t st) = Some c \<longrightarrow> c < task_count (set_state s' t st)"
      using I(6) eq by simp
    show "\<forall>u. t_state (task_pool (set_state s' t st) u) = TASK_RUNNING \<longrightarrow> current_task (set_state s' t st) = Some u"
      using I(7) sts eq \<open>st \<noteq> TASK_RUNNING\<close> by auto
  qed
  then show ?thesis using r eq by blast
qed

text \<open>Entering the ring as a ready task: create and wake.\<close>

lemma sched_inv_enter:
  assumes inv: "sched_inv s xs" and nin: "t \<notin> set xs" and b: "t_state b = TASK_READY" "t_next b = None"
    and s1: "s1 = s\<lparr>task_count := n, smem := m, task_pool := (task_pool s)(t := b)\<rparr>"
    and n: "task_count s \<le> n" "n \<le> OS_MAX_TASKS" "\<And>u. u < n \<longleftrightarrow> u < task_count s \<or> u = t"
  shows "\<exists>s'. ready_insert s1 t = Some s' \<and> sched_inv s' (xs @ [t])
    \<and> current_task s' = current_task s \<and> task_count s' = n \<and> smem s' = m
    \<and> (\<forall>u. unlink (task_pool s' u) = unlink (task_pool s1 u))"
proof -
  note I = sched_invD [OF inv]
  have "t_next (task_pool s t) = None" using nin by (rule I(4))
  then have "ring s1 xs" using I(1) b(2) s1 by (subst ring_cong [of _ s]) auto
  from ready_insert_ring [OF this nin] obtain s' where r: "ready_insert s1 t = Some s'"
    and rg: "ring s' (xs @ [t])" and st: "same_tasks s1 s'"
    and o: "\<And>u. u \<notin> insert t (set xs) \<Longrightarrow> t_next (task_pool s' u) = t_next (task_pool s1 u)"
    by blast
  have eq: "task_count s' = n" "current_task s' = current_task s" "smem s' = m"
    using st s1 by (simp_all add: same_tasks_def)
  have sts: "t_state (task_pool s' u) = (if u = t then TASK_READY else t_state (task_pool s u))" for u
    using same_tasks_state [OF st, of u] s1 b(1) by simp
  have "sched_inv s' (xs @ [t])"
    unfolding sched_inv_def eq sts
  proof (intro conjI)
    show "\<forall>u. u \<in> set (xs @ [t]) \<longleftrightarrow> u < n \<and> runnable (if u = t then TASK_READY else t_state (task_pool s u))"
      using I(3) n(3) nin by auto
    show "\<forall>u. u \<notin> set (xs @ [t]) \<longrightarrow> t_next (task_pool s' u) = None"
      using o I(4) s1 by auto
    show "\<forall>u. (if u = t then TASK_READY else t_state (task_pool s u)) \<noteq> TASK_UNUSED \<longrightarrow> u < n"
      using I(5) n(3) by auto
    show "\<forall>c. current_task s = Some c \<longrightarrow> c < n" using I(6) n(3) by auto
    show "\<forall>u. (if u = t then TASK_READY else t_state (task_pool s u)) = TASK_RUNNING \<longrightarrow> current_task s = Some u"
      using I(7) by auto
  qed (use rg n in auto)
  moreover have "\<forall>u. unlink (task_pool s' u) = unlink (task_pool s1 u)"
    using st by (simp add: same_tasks_def)
  ultimately show ?thesis using r eq by blast
qed

text \<open>Taking the head: tick, yield and start.\<close>

lemma ring_rotate1:
  assumes "ring s xs" and "xs \<noteq> []"
  shows "ring (s\<lparr>ready_head := t_next (task_pool s (hd xs))\<rparr>) (rotate1 xs)"
proof (cases xs)
  case (Cons h ys)
  then have ch: "chain (task_pool s) (h # ys) h" and d: "distinct (h # ys)"
    using assms(1) by (auto simp: ring_def)
  show ?thesis
  proof (cases ys)
    case Nil
    then show ?thesis using ch Cons by (simp add: ring_def)
  next
    case (Cons y zs)
    then have "chain (task_pool s) ((y # zs) @ [h]) y" using ch by (intro chain_rotate) simp
    then show ?thesis using ch d Cons \<open>xs = h # ys\<close> by (intro ringI) auto
  qed
qed (use assms in simp)

lemma sched_inv_dispatch:
  assumes inv: "sched_inv s xs" and "xs \<noteq> []"
    and "\<And>t. t_state (task_pool s t) \<noteq> TASK_RUNNING"
  shows "sched_inv (dispatch s (hd xs)) (rotate1 xs) \<and> current_task (dispatch s (hd xs)) = Some (hd xs)"
proof -
  note I = sched_invD [OF inv]
  have h: "hd xs \<in> set xs" using assms(2) by simp
  have lt: "hd xs < task_count s" using h I(3) by blast
  let ?s = "dispatch s (hd xs)"
  have ts: "t_state (task_pool ?s u) = (if u = hd xs then TASK_RUNNING else t_state (task_pool s u))" for u
    by (simp add: dispatch_def)
  have "ring ?s (rotate1 xs)"
    using ring_rotate1 [OF I(1) assms(2)]
    by (subst ring_cong [of _ "s\<lparr>ready_head := t_next (task_pool s (hd xs))\<rparr>"]) (auto simp: dispatch_def)
  then show ?thesis
    unfolding sched_inv_def ts
    using I(2-7) h lt assms(3) by (auto simp: dispatch_def)
qed

lemma sched_inv_clear_running:
  assumes inv: "sched_inv s xs" and "t_state (task_pool s c) = TASK_RUNNING"
  shows "sched_inv (set_state s c TASK_READY) xs \<and> t_state (task_pool (set_state s c TASK_READY) t) \<noteq> TASK_RUNNING"
proof -
  note I = sched_invD [OF inv]
  have c: "c \<in> set xs" using I(3) I(5) [of c] assms(2) by simp
  have "ring (set_state s c TASK_READY) xs" using I(1) by (subst ring_cong [of _ s]) auto
  then have "sched_inv (set_state s c TASK_READY) xs"
    unfolding sched_inv_def using I(2-7) c by auto
  moreover have "t_state (task_pool (set_state s c TASK_READY) t) \<noteq> TASK_RUNNING"
    using I(7) [OF assms(2)] I(7) [of t] by auto
  ultimately show ?thesis by blast
qed

lemma sched_inv_schedule:
  assumes inv: "sched_inv s xs"
  shows "sched_inv (OS_Schedule s) (rotate1 xs)"
    and "current_task (OS_Schedule s) = (if xs = [] then current_task s else Some (hd xs))"
proof -
  note I = sched_invD [OF inv]
  have "sched_inv (OS_Schedule s) (rotate1 xs) \<and>
    current_task (OS_Schedule s) = (if xs = [] then current_task s else Some (hd xs))"
  proof (cases xs)
    case Nil
    then show ?thesis using I(1) inv by (simp add: OS_Schedule_def ring_def)
  next
    case (Cons h ys)
    then have hd: "ready_head s = Some h" using I(1) by (simp add: ring_def)
    let ?s1 = "case current_task s of Some c \<Rightarrow>
       if t_state (task_pool s c) = TASK_RUNNING then set_state s c TASK_READY else s | None \<Rightarrow> s"
    have "sched_inv ?s1 xs \<and> (\<forall>t. t_state (task_pool ?s1 t) \<noteq> TASK_RUNNING)"
    proof (cases "current_task s")
      case None
      then have "t_state (task_pool s t) \<noteq> TASK_RUNNING" for t using I(7) [of t] by auto
      then show ?thesis using inv None by simp
    next
      case (Some c)
      show ?thesis
      proof (cases "t_state (task_pool s c) = TASK_RUNNING")
        case True
        then show ?thesis using sched_inv_clear_running [OF inv True] Some by simp
      next
        case False
        then have "t_state (task_pool s t) \<noteq> TASK_RUNNING" for t using I(7) [of t] Some by auto
        then show ?thesis using inv Some False by simp
      qed
    qed
    then have "sched_inv (dispatch ?s1 h) (rotate1 xs) \<and> current_task (dispatch ?s1 h) = Some h"
      using sched_inv_dispatch [of ?s1 xs] Cons by auto
    then show ?thesis using Cons by (simp add: OS_Schedule_def hd)
  qed
  then show "sched_inv (OS_Schedule s) (rotate1 xs)"
    and "current_task (OS_Schedule s) = (if xs = [] then current_task s else Some (hd xs))" by blast+
qed

lemma sched_inv_start:
  assumes inv: "sched_inv s xs" and "current_task s = None"
  shows "OS_Start s = (xs \<noteq> [], snd (OS_Start s)) \<and> sched_inv (snd (OS_Start s)) (rotate1 xs)
    \<and> (xs \<noteq> [] \<longrightarrow> current_task (snd (OS_Start s)) = Some (hd xs))"
proof (cases xs)
  case Nil
  then show ?thesis using inv sched_invD(1) [OF inv] by (simp add: OS_Start_def ring_def)
next
  case (Cons h ys)
  then have "ready_head s = Some h" using sched_invD(1) [OF inv] by (simp add: ring_def)
  moreover have "t_state (task_pool s t) \<noteq> TASK_RUNNING" for t
    using sched_invD(7) [OF inv, of t] assms(2) by auto
  ultimately show ?thesis
    using sched_inv_dispatch [OF inv] Cons by (simp add: OS_Start_def)
qed

lemma sched_inv_exit:
  assumes inv: "sched_inv s xs"
  shows "\<exists>s'. OS_TaskExit s = Some s' \<and> current_task s' = current_task s \<and> task_count s' = task_count s
    \<and> sched_inv s' (case current_task s of None \<Rightarrow> xs | Some c \<Rightarrow> remove1 c xs)"
proof (cases "current_task s")
  case None
  then show ?thesis using inv by (simp add: OS_TaskExit_def)
next
  case (Some c)
  from sched_inv_leave [OF inv, of TASK_UNUSED c] sched_invD(6) [OF inv Some]
  show ?thesis by (auto simp: OS_TaskExit_def Some)
qed

lemma sched_inv_block:
  assumes inv: "sched_inv s xs"
  shows "\<exists>s'. OS_TaskBlock s (Some t) = Some s' \<and> sched_inv s' (remove1 t xs)
    \<and> current_task s' = current_task s \<and> task_count s' = task_count s"
proof (cases "runnable (t_state (task_pool s t))")
  case False
  then have "t \<notin> set xs" using sched_invD(3) [OF inv] by blast
  then show ?thesis using inv False by (auto simp: OS_TaskBlock_def runnable_def remove1_idem)
next
  case True
  then have "t < task_count s" using sched_invD(5) [OF inv, of t] by (auto simp: runnable_def)
  from sched_inv_leave [OF inv, of TASK_BLOCKED t] this
  show ?thesis using True by (auto simp: OS_TaskBlock_def runnable_def)
qed

lemma sched_inv_wake:
  assumes inv: "sched_inv s xs"
  shows "\<exists>s'. OS_TaskWake s (Some t) = Some s' \<and> current_task s' = current_task s \<and> task_count s' = task_count s
    \<and> sched_inv s' (if t_state (task_pool s t) = TASK_BLOCKED then xs @ [t] else xs)"
proof (cases "t_state (task_pool s t) = TASK_BLOCKED")
  case False
  then show ?thesis using inv by (simp add: OS_TaskWake_def)
next
  case True
  note I = sched_invD [OF inv]
  have nin: "t \<notin> set xs" using I(3) [of t] True by simp
  have lt: "t < task_count s" using I(5) [of t] True by simp
  let ?b = "(task_pool s t)\<lparr>t_state := TASK_READY\<rparr>"
  have "set_state s t TASK_READY = s\<lparr>task_count := task_count s, smem := smem s, task_pool := (task_pool s)(t := ?b)\<rparr>"
    by (simp add: set_state_def)
  from sched_inv_enter [OF inv nin _ _ this] I(2) I(4) [OF nin] lt
  show ?thesis using True by (auto simp: OS_TaskWake_def)
qed

lemma sched_inv_create:
  assumes inv: "sched_inv s xs" and ok: "task_count s < OS_MAX_TASKS" "entry \<noteq> 0" "stack \<noteq> 0"
  shows "\<exists>s'. OS_TaskCreatePIC s entry arg stack ss i a5 = Some (Some (task_count s), s')
    \<and> sched_inv s' (xs @ [task_count s]) \<and> task_count s' = Suc (task_count s) \<and> current_task s' = current_task s
    \<and> smem s' = fst (initial_frame (smem s) stack ss entry a5)
    \<and> t_sp (task_pool s' (task_count s)) = snd (initial_frame (smem s) stack ss entry a5)
    \<and> (\<forall>u. u \<noteq> task_count s \<longrightarrow> unlink (task_pool s' u) = unlink (task_pool s u))"
proof -
  note I = sched_invD [OF inv]
  let ?t = "task_count s"
  obtain m sp where f: "initial_frame (smem s) stack ss entry a5 = (m, sp)" by fastforce
  let ?b = "(task_pool s ?t)\<lparr>t_stack_base := stack, t_stack_size := ss, t_arg := arg,
                      t_id := i, t_next := None, t_sp := sp, t_state := TASK_READY\<rparr>"
  let ?s1 = "s\<lparr>task_count := Suc ?t, smem := m, task_pool := (task_pool s)(?t := ?b)\<rparr>"
  have nin: "?t \<notin> set xs" using I(3) [of ?t] by simp
  have "\<exists>s'. ready_insert ?s1 ?t = Some s' \<and> sched_inv s' (xs @ [?t])
    \<and> current_task s' = current_task s \<and> task_count s' = Suc ?t \<and> smem s' = m
    \<and> (\<forall>u. unlink (task_pool s' u) = unlink (task_pool ?s1 u))"
    using ok by (intro sched_inv_enter [OF inv nin]) auto
  then obtain s' where r: "ready_insert ?s1 ?t = Some s'" and inv': "sched_inv s' (xs @ [?t])"
    and eq: "current_task s' = current_task s" "task_count s' = Suc ?t" "smem s' = m"
    and un: "unlink (task_pool s' u) = unlink (task_pool ?s1 u)" for u
    by blast
  have "t_sp (task_pool s' ?t) = sp" using unlink_eqD(3) [OF un [of ?t]] by simp
  moreover have "\<forall>u. u \<noteq> ?t \<longrightarrow> unlink (task_pool s' u) = unlink (task_pool s u)" using un by simp
  ultimately show ?thesis
    using r inv' eq ok f by (simp add: OS_TaskCreatePIC_def)
qed

subsection \<open>The initial stack frame\<close>

lemma unat_sub_small:
  fixes sp :: addr
  assumes "n \<le> unat sp"
  shows "unat (sp - word_of_nat n) = unat sp - n"
proof -
  have n: "unat (word_of_nat n :: addr) = n"
    using le_less_trans [OF assms unat_less32] by (intro unat_of_nat32) simp
  then have "(word_of_nat n :: addr) \<le> sp" using assms by (simp add: word_le_nat_alt)
  then show ?thesis using n by (simp add: unat_sub)
qed

lemma rd32_above:
  fixes a :: addr
  assumes "\<And>x. unat a \<le> unat x \<Longrightarrow> m' x = m x" and "unat a + 3 < 2 ^ 32"
  shows "rd32 m' a = rd32 m a"
proof (rule rd32_cong)
  have "m' (a + word_of_nat k) = m (a + word_of_nat k)" if "k \<le> 3" for k
    using unat_plus_small [of a k] assms(2) that by (intro assms(1)) simp
  from this [of 0] this [of 1] this [of 2] this [of 3]
  show "m' a = m a" "m' (a + 1) = m (a + 1)" "m' (a + 2) = m (a + 2)" "m' (a + 3) = m (a + 3)" by simp_all
qed

lemma rd16_above:
  fixes a :: addr
  assumes "\<And>x. unat a \<le> unat x \<Longrightarrow> m' x = m x" and "unat a + 1 < 2 ^ 32"
  shows "rd16 m' a = rd16 m a"
proof (rule rd16_cong)
  show "m' a = m a" by (rule assms(1)) simp
  show "m' (a + 1) = m (a + 1)"
    using unat_plus_small [of a 1] assms(2) by (intro assms(1)) simp
qed

lemma push32_frame:
  assumes "push32 m sp v = (m', sp')" and "4 \<le> unat sp"
  shows "sp' = sp - 4" "unat sp' = unat sp - 4" "rd32 m' sp' = v"
    "unat x < unat sp' \<or> unat sp \<le> unat x \<Longrightarrow> m' x = m x"
proof -
  show sp': "sp' = sp - 4" and r: "rd32 m' sp' = v" using assms(1) by (auto simp: push32_def)
  show u: "unat sp' = unat sp - 4" using unat_sub_small [of 4 sp] assms(2) sp' by simp
  assume x: "unat x < unat sp' \<or> unat sp \<le> unat x"
  have "4 \<le> unat (x - sp')"
    using x u assms(2) unat_less32 [of sp] by (intro unat_diff_ge) (auto simp del: unat_less32)
  then show "m' x = m x" using assms(1) sp' by (auto simp: push32_def wr32_other)
qed

lemma push16_frame:
  assumes "push16 m sp v = (m', sp')" and "2 \<le> unat sp"
  shows "sp' = sp - 2" "unat sp' = unat sp - 2" "rd16 m' sp' = v"
    "unat x < unat sp' \<or> unat sp \<le> unat x \<Longrightarrow> m' x = m x"
proof -
  show sp': "sp' = sp - 2" and r: "rd16 m' sp' = v" using assms(1) by (auto simp: push16_def)
  show u: "unat sp' = unat sp - 2" using unat_sub_small [of 2 sp] assms(2) sp' by simp
  assume x: "unat x < unat sp' \<or> unat sp \<le> unat x"
  have "2 \<le> unat (x - sp')"
    using x u assms(2) unat_less32 [of sp] by (intro unat_diff_ge) (auto simp del: unat_less32)
  then show "m' x = m x" using assms(1) sp' by (auto simp: push16_def wr16_other)
qed

lemma push_regs_frame:
  "push_regs m sp vs = (m', sp') \<Longrightarrow> 4 * length vs \<le> unat sp \<Longrightarrow>
    sp' = sp - word_of_nat (4 * length vs) \<and> unat sp' = unat sp - 4 * length vs
    \<and> (\<forall>x. unat x < unat sp' \<or> unat sp \<le> unat x \<longrightarrow> m' x = m x)
    \<and> (\<forall>i < length vs. rd32 m' (sp - word_of_nat (4 * Suc i)) = vs ! i)"
proof (induction vs arbitrary: m sp)
  case (Cons v vs)
  obtain m1 sp1 where p: "push32 m sp v = (m1, sp1)" by fastforce
  have r: "push_regs m1 sp1 vs = (m', sp')" using Cons.prems(1) p by simp
  have l: "4 \<le> unat sp" using Cons.prems(2) by simp
  note F = push32_frame [OF p l]
  have l1: "4 * length vs \<le> unat sp1" using Cons.prems(2) F(2) by simp
  note I = Cons.IH [OF r l1]
  have sp': "sp' = sp - word_of_nat (4 * length (v # vs))" using I F(1) by (simp add: algebra_simps)
  have un: "unat sp' = unat sp - 4 * length (v # vs)"
    using I F(2) by (elim conjE) (simp only: list.size, simp)
  have out: "m' x = m x" if "unat x < unat sp' \<or> unat sp \<le> unat x" for x
  proof -
    have "unat x < unat sp' \<or> unat sp1 \<le> unat x" using that F(2) un by auto
    then have "m' x = m1 x" using I by blast
    moreover have "unat x < unat sp1 \<or> unat sp \<le> unat x" using that F(2) un by auto
    then have "m1 x = m x" by (rule F(4))
    ultimately show ?thesis by simp
  qed
  have reg: "rd32 m' (sp - word_of_nat (4 * Suc i)) = (v # vs) ! i" if i: "i < length (v # vs)" for i
  proof (cases i)
    case 0
    have "rd32 m' sp1 = rd32 m1 sp1"
      using I unat_less32 [of sp] F(2) l by (intro rd32_above) (auto simp del: unat_less32)
    then show ?thesis using 0 F(1,3) by simp
  next
    case (Suc j)
    have "sp - word_of_nat (4 * Suc i) = sp1 - word_of_nat (4 * Suc j)"
      using F(1) Suc by (simp add: algebra_simps)
    then show ?thesis using I Suc i by (metis Suc_less_eq length_Cons nth_Cons_Suc)
  qed
  show ?case using sp' un out reg by blast
qed simp

text \<open>The word of the frame the context switch reads: registers, then SR, then PC.\<close>

definition frame_at :: "mem \<Rightarrow> addr \<Rightarrow> (nat \<Rightarrow> u32) \<Rightarrow> u16 \<Rightarrow> u32 \<Rightarrow> bool" where
  "frame_at m sp regs sr pc \<longleftrightarrow> (\<forall>i < 15. rd32 m (sp + word_of_nat (4 * i)) = regs i)
     \<and> rd16 m (sp + 60) = sr \<and> rd32 m (sp + 62) = pc"

lemma reg_order_nth: "i < 15 \<Longrightarrow> map f (rev [0..<15]) ! (14 - i) = f i"
  by (simp add: rev_nth)

lemma length_reg_block [simp]: "length (reg_block a5) = 15"
  by (simp add: reg_block_def)


lemma slot_address:
  fixes p q x y c :: addr
  assumes "x + y = c" and "q = p - c"
  shows "p - x = q + y"
  unfolding assms(2) assms(1) [symmetric] by simp

lemma pushed_frame_layout:
  assumes p1: "push32 m tp entry = (m1, sp1)" and p2: "push16 m1 sp1 w = (m2, sp2)"
    and p3: "push_regs m2 sp2 (map f (rev [0..<15])) = (m', sp)" and room: "66 \<le> unat tp"
  shows "unat sp = unat tp - 66" "sp = tp - 66"
    "frame_at m' sp f w entry"
    "unat x < unat sp \<or> unat tp \<le> unat x \<Longrightarrow> m' x = m x"
proof -
  let ?rb = "map f (rev [0..<15])"
  have lrb: "length ?rb = 15" by simp
  have "4 \<le> unat tp" using room by simp
  note F1 = push32_frame [OF p1 this]
  have "2 \<le> unat sp1" using room F1(2) by simp
  note F2 = push16_frame [OF p2 this]
  have "4 * length (?rb) \<le> unat sp2" using room F1(2) F2(2) by simp
  note F3 = push_regs_frame [OF p3 this, unfolded lrb]
  note out3 = F3 [THEN conjunct2, THEN conjunct2, THEN conjunct1, rule_format]
  note reg3 = F3 [THEN conjunct2, THEN conjunct2, THEN conjunct2, rule_format]
  have spe: "sp = sp2 - 60" "unat sp = unat sp2 - 60"
    using conjunct1 [OF F3] conjunct1 [OF conjunct2 [OF F3]] by auto
  show sp: "sp = tp - 66" using spe(1) F1(1) F2(1) by simp
  show un: "unat sp = unat tp - 66" using spe(2) F1(2) F2(2) by simp
  obtain n where tl: "unat tp = n" "n < 2 ^ 32" using unat_less32 [of tp] by auto
  have up3: "m' x = m2 x" if "unat sp2 \<le> unat x" for x
    by (rule out3) (use that in simp)
  have "rd16 m' sp2 = rd16 m2 sp2"
    using up3 F2(2) F1(2) room tl by (intro rd16_above) auto
  then have sr: "rd16 m' (sp + 60) = w" using F2(3) spe(1) by simp
  have "rd32 m' sp1 = rd32 m1 sp1"
  proof (rule rd32_above)
    fix x :: addr assume "unat sp1 \<le> unat x"
    moreover from this have "unat sp2 \<le> unat x" using F2(2) by simp
    ultimately show "m' x = m1 x" using up3 F2(4) [of x] by simp
  next
    show "unat sp1 + 3 < 2 ^ 32" using F1(2) room tl by simp
  qed
  then have pc: "rd32 m' (sp + 62) = entry" using F1(3) spe(1) F2(1) by simp
  have regs: "rd32 m' (sp + word_of_nat (4 * i)) = f i" if i: "i < 15" for i
  proof -
    let ?j = "14 - i"
    have j: "rd32 m' (sp2 - word_of_nat (4 * Suc ?j)) = ?rb ! ?j"
      by (rule reg3) (use i in simp)
    have "4 * Suc ?j + 4 * i = 60" using i by simp
    then have "word_of_nat (4 * Suc ?j) + word_of_nat (4 * i) = (60 :: addr)"
      by (metis of_nat_add of_nat_numeral)
    then have "sp2 - word_of_nat (4 * Suc ?j) = sp + word_of_nat (4 * i)"
      using spe(1) by (rule slot_address)
    with j have "rd32 m' (sp + word_of_nat (4 * i)) = ?rb ! ?j" by (simp only:)
    then show ?thesis using reg_order_nth [OF i, of f] by (simp only:)
  qed
  then show "frame_at m' sp f w entry"
    unfolding frame_at_def using sr pc by blast
  assume x: "unat x < unat sp \<or> unat tp \<le> unat x"
  then have "m' x = m2 x" using F1(2) F2(2) by (intro out3) auto
  moreover have "m2 x = m1 x" using x un F1(2) F2(2) by (intro F2(4)) auto
  moreover have "m1 x = m x" using x un F1(2) by (intro F1(4)) auto
  ultimately show "m' x = m x" by simp
qed

lemma initial_frame_layout:
  assumes f: "initial_frame m stack ss entry a5 = (m', sp)"
    and tp: "tp = (stack + ss) AND NOT 1" and room: "66 \<le> unat tp"
  shows "unat sp = unat tp - 66" "sp = tp - 66"
    "frame_at m' sp (\<lambda>i. if i = 13 then a5 else 0) 0x2000 entry"
    "unat x < unat sp \<or> unat tp \<le> unat x \<Longrightarrow> m' x = m x"
proof -
  obtain m1 sp1 where p1: "push32 m tp entry = (m1, sp1)" by fastforce
  obtain m2 sp2 where p2: "push16 m1 sp1 0x2000 = (m2, sp2)" by fastforce
  have p3: "push_regs m2 sp2 (map (\<lambda>i. if i = 13 then a5 else 0) (rev [0..<15])) = (m', sp)"
    using f tp p1 p2 by (simp add: initial_frame_def reg_block_def)
  note L = pushed_frame_layout [OF p1 p2 p3 room]
  show "unat sp = unat tp - 66" "sp = tp - 66"
    "frame_at m' sp (\<lambda>i. if i = 13 then a5 else 0) 0x2000 entry"
    "unat x < unat sp \<or> unat tp \<le> unat x \<Longrightarrow> m' x = m x" by (fact L)+
qed

subsection \<open>Reachable schedules\<close>

inductive sched_step :: "sched \<Rightarrow> sched \<Rightarrow> bool" where
  create: "OS_TaskCreatePIC s entry arg stack ss i a5 = Some (r, s') \<Longrightarrow> sched_step s s'"
| exit: "OS_TaskExit s = Some s' \<Longrightarrow> sched_step s s'"
| schedule: "sched_step s (OS_Schedule s)"
| start: "current_task s = None \<Longrightarrow> sched_step s (snd (OS_Start s))"
| block: "OS_TaskBlock s task = Some s' \<Longrightarrow> sched_step s s'"
| wake: "OS_TaskWake s task = Some s' \<Longrightarrow> sched_step s s'"

inductive sched_reach :: "sched \<Rightarrow> bool" where
  init: "sched_reach (OS_Init s)"
| step: "sched_reach s \<Longrightarrow> sched_step s s' \<Longrightarrow> sched_reach s'"

inductive_cases sched_stepE: "sched_step s s'"

lemma sched_step_inv:
  assumes "sched_step s s'" and inv: "sched_inv s xs"
  shows "(\<exists>xs'. sched_inv s' xs') \<and> task_count s \<le> task_count s'"
  using assms(1)
proof cases
  case (create entry arg stack ss i a5 r)
  then show ?thesis
    using sched_inv_create [OF inv, of entry stack arg ss i a5] inv
    by (cases "task_count s \<ge> OS_MAX_TASKS \<or> entry = 0 \<or> stack = 0") (auto simp: OS_TaskCreatePIC_def)
next
  case exit
  then show ?thesis using sched_inv_exit [OF inv] by auto
next
  case schedule
  then show ?thesis using sched_inv_schedule(1) [OF inv]
    by (auto simp: OS_Schedule_def dispatch_def Let_def split: option.splits)
next
  case start
  then show ?thesis using sched_inv_start [OF inv]
    by (auto simp: OS_Start_def dispatch_def split: option.splits)
next
  case (block task)
  show ?thesis
  proof (cases task)
    case None
    then show ?thesis using block inv by (auto simp: OS_TaskBlock_def)
  next
    case (Some t)
    then show ?thesis using sched_inv_block [OF inv, of t] block by auto
  qed
next
  case (wake task)
  show ?thesis
  proof (cases task)
    case None
    then show ?thesis using wake inv by (auto simp: OS_TaskWake_def)
  next
    case (Some t)
    then show ?thesis using sched_inv_wake [OF inv, of t] wake by auto
  qed
qed

lemma sched_reach_inv: "sched_reach s \<Longrightarrow> \<exists>xs. sched_inv s xs"
proof (induction rule: sched_reach.induct)
  case (init s)
  then show ?case using sched_inv_init by blast
next
  case (step s s')
  then show ?case using sched_step_inv by blast
qed

subsection \<open>Round robin, from the contract of the ring alone\<close>

locale round_robin =
  fixes rep :: "'s \<Rightarrow> 't list \<Rightarrow> bool" and tick :: "'s \<Rightarrow> 's" and cur :: "'s \<Rightarrow> 't option"
  assumes tick_rep: "rep s xs \<Longrightarrow> rep (tick s) (rotate1 xs)"
    and tick_cur: "rep s xs \<Longrightarrow> xs \<noteq> [] \<Longrightarrow> cur (tick s) = Some (hd xs)"
begin

lemma ticks_rep: "rep s xs \<Longrightarrow> rep ((tick ^^ n) s) (rotate n xs)"
  by (induction n) (auto intro: tick_rep)

lemma fair: "rep s xs \<Longrightarrow> xs \<noteq> [] \<Longrightarrow> cur ((tick ^^ Suc n) s) = Some (xs ! (n mod length xs))"
  using tick_cur [OF ticks_rep] by (simp add: hd_rotate_conv_nth)

lemma served: "rep s xs \<Longrightarrow> t \<in> set xs \<Longrightarrow> \<exists>n < length xs. cur ((tick ^^ Suc n) s) = Some t"
  using fair by (metis in_set_conv_nth length_pos_if_in_set length_greater_0_conv mod_less)

lemma not_served: "rep s xs \<Longrightarrow> xs \<noteq> [] \<Longrightarrow> t \<notin> set xs \<Longrightarrow> cur ((tick ^^ Suc n) s) \<noteq> Some t"
  using fair [of s xs n] by (auto simp: in_set_conv_nth)

end

interpretation rr: round_robin sched_inv OS_Schedule current_task
  by unfold_locales (auto simp: sched_inv_schedule)


lemma sched_steps_mono:
  "sched_step\<^sup>*\<^sup>* s s' \<Longrightarrow> sched_reach s \<Longrightarrow> sched_reach s' \<and> task_count s \<le> task_count s'"
proof (induction rule: rtranclp_induct)
  case (step s1 s2)
  then have r: "sched_reach s1" "task_count s \<le> task_count s1" by auto
  then obtain xs where "sched_inv s1 xs" using sched_reach_inv by blast
  from sched_step_inv [OF step.hyps(2) this] r step.hyps(2) show ?case
    by (auto intro: sched_reach.step)
qed simp

lemma created_frame:
  assumes "sched_inv s xs" and "task_count s < OS_MAX_TASKS" and "entry \<noteq> 0" and "stack \<noteq> 0"
    and "tp = (stack + ss) AND NOT 1" and "66 \<le> unat tp"
  shows "\<exists>s'. OS_TaskCreatePIC s entry arg stack ss i a5 = Some (Some (task_count s), s')
    \<and> sched_inv s' (xs @ [task_count s]) \<and> current_task s' = current_task s
    \<and> t_sp (task_pool s' (task_count s)) = tp - 66
    \<and> frame_at (smem s') (tp - 66) (\<lambda>i. if i = 13 then a5 else 0) 0x2000 entry
    \<and> (\<forall>x. unat x < unat tp - 66 \<or> unat tp \<le> unat x \<longrightarrow> smem s' x = smem s x)"
proof -
  obtain m sp where f: "initial_frame (smem s) stack ss entry a5 = (m, sp)" by fastforce
  obtain s' where s': "OS_TaskCreatePIC s entry arg stack ss i a5 = Some (Some (task_count s), s')"
    "smem s' = m" "t_sp (task_pool s' (task_count s)) = sp" "sched_inv s' (xs @ [task_count s])"
    "current_task s' = current_task s"
    using sched_inv_create [OF assms(1-4), of arg ss i a5] f by auto
  note L = initial_frame_layout [OF f assms(5,6)]
  have "frame_at m (tp - 66) (\<lambda>i. if i = 13 then a5 else 0) 0x2000 entry" using L(2,3) by simp
  moreover have "\<forall>x. unat x < unat tp - 66 \<or> unat tp \<le> unat x \<longrightarrow> m x = smem s x"
    using L(4) unfolding L(1) by blast
  ultimately show ?thesis using s' L(2) by auto
qed

subsection \<open>Properties\<close>

definition idle_sched :: sched where
  "idle_sched = OS_Init \<lparr>task_pool = (\<lambda>_. zero_tcb), task_count = 0, current_task = None,
     ready_head = None, smem = (\<lambda>_. 0)\<rparr>"

lemma idle_reach: "sched_reach idle_sched" unfolding idle_sched_def by (rule sched_reach.init)

definition add_task :: "sched \<Rightarrow> sched" where
  "add_task s = snd (the (OS_TaskCreatePIC s 0x1000 0 0x92000 0x1000 1 0))"

lemma add_task_inv:
  assumes "sched_inv s xs" and "task_count s < OS_MAX_TASKS"
  shows "sched_inv (add_task s) (xs @ [task_count s]) \<and> task_count (add_task s) = Suc (task_count s)
    \<and> current_task (add_task s) = current_task s"
  using sched_inv_create [OF assms, of "0x1000" "0x92000" 0 "0x1000" 1 0] by (auto simp: add_task_def)

lemma idle_inv: "sched_inv idle_sched []" "task_count idle_sched = 0" "current_task idle_sched = None"
  by (simp_all add: idle_sched_def sched_inv_init) (simp_all add: OS_Init_def)

lemma three_tasks: "sched_inv (add_task (add_task (add_task idle_sched))) [0, 1, 2]"
  using add_task_inv [OF idle_inv(1)] add_task_inv [of "add_task idle_sched" "[0]"]
    add_task_inv [of "add_task (add_task idle_sched)" "[0, 1]"]
  by (simp add: idle_inv OS_MAX_TASKS_def numeral_2_eq_2)

text \<open>Claim C12. In every state the scheduler can reach through its operations, the loops of every
  operation end, and the invariant holds afterwards: the pointers form one closed ring of the
  ready tasks, exactly the created tasks that are ready or running, and only the current task
  is marked running.\<close>

theorem sched_operations_total:
  assumes "sched_reach s"
  shows "\<exists>xs. sched_inv s xs
    \<and> OS_TaskCreatePIC s entry arg stack ss i a5 \<noteq> None \<and> OS_TaskExit s \<noteq> None
    \<and> OS_TaskBlock s task \<noteq> None \<and> OS_TaskWake s task \<noteq> None
    \<and> (\<forall>s'. sched_step s s' \<longrightarrow> (\<exists>xs'. sched_inv s' xs'))"
proof -
  from sched_reach_inv [OF assms] obtain xs where inv: "sched_inv s xs" ..
  have "OS_TaskCreatePIC s entry arg stack ss i a5 \<noteq> None"
    using sched_inv_create [OF inv, of entry stack arg ss i a5]
    by (cases "task_count s \<ge> OS_MAX_TASKS \<or> entry = 0 \<or> stack = 0") (auto simp: OS_TaskCreatePIC_def)
  moreover have "OS_TaskExit s \<noteq> None" using sched_inv_exit [OF inv] by auto
  moreover have "OS_TaskBlock s task \<noteq> None"
    using sched_inv_block [OF inv] by (cases task) (simp add: OS_TaskBlock_def, metis option.distinct(1))
  moreover have "OS_TaskWake s task \<noteq> None"
    using sched_inv_wake [OF inv] by (cases task) (simp add: OS_TaskWake_def, metis option.distinct(1))
  ultimately show ?thesis using inv sched_step_inv [OF _ inv] by blast
qed

theorem sched_operations_total_witness:
  "\<exists>xs. sched_inv idle_sched xs \<and> OS_TaskExit idle_sched \<noteq> None
    \<and> OS_TaskCreatePIC idle_sched 0x1000 0 0x92000 0x1000 1 0 \<noteq> None"
  using sched_operations_total [OF idle_reach] by blast

text \<open>Claim C3. The pointer code refines a list queue: create and wake append the task at the end,
  exit and block take it out wherever it is, a tick runs the head and rotates the queue by one.\<close>

theorem sched_refines_queue:
  assumes "sched_inv s xs"
  shows "(\<exists>s'. OS_TaskBlock s (Some t) = Some s' \<and> sched_inv s' (remove1 t xs))
    \<and> (\<exists>s'. OS_TaskWake s (Some t) = Some s'
        \<and> sched_inv s' (if t_state (task_pool s t) = TASK_BLOCKED then xs @ [t] else xs))
    \<and> (\<exists>s'. OS_TaskExit s = Some s' \<and> sched_inv s' (case current_task s of None \<Rightarrow> xs | Some c \<Rightarrow> remove1 c xs))
    \<and> sched_inv (OS_Schedule s) (rotate1 xs)
    \<and> current_task (OS_Schedule s) = (if xs = [] then current_task s else Some (hd xs))
    \<and> (if task_count s \<ge> OS_MAX_TASKS \<or> entry = 0 \<or> stack = 0
       then OS_TaskCreate s entry arg stack ss i = Some (None, s)
       else \<exists>s'. OS_TaskCreate s entry arg stack ss i = Some (Some (task_count s), s')
          \<and> sched_inv s' (xs @ [task_count s]))"
proof (intro conjI)
  show "\<exists>s'. OS_TaskBlock s (Some t) = Some s' \<and> sched_inv s' (remove1 t xs)"
    using sched_inv_block [OF assms, of t] by blast
  show "\<exists>s'. OS_TaskWake s (Some t) = Some s'
      \<and> sched_inv s' (if t_state (task_pool s t) = TASK_BLOCKED then xs @ [t] else xs)"
    using sched_inv_wake [OF assms, of t] by blast
  show "\<exists>s'. OS_TaskExit s = Some s' \<and> sched_inv s' (case current_task s of None \<Rightarrow> xs | Some c \<Rightarrow> remove1 c xs)"
    using sched_inv_exit [OF assms] by blast
  show "if task_count s \<ge> OS_MAX_TASKS \<or> entry = 0 \<or> stack = 0
       then OS_TaskCreate s entry arg stack ss i = Some (None, s)
       else \<exists>s'. OS_TaskCreate s entry arg stack ss i = Some (Some (task_count s), s')
          \<and> sched_inv s' (xs @ [task_count s])"
    using sched_inv_create [OF assms, of entry stack arg ss i 0]
    by (auto simp: OS_TaskCreate_PIC) (auto simp: OS_TaskCreatePIC_def)
qed (rule sched_inv_schedule [OF assms])+

theorem sched_refines_queue_witness:
  "sched_inv (OS_Schedule (add_task (add_task (add_task idle_sched)))) [1, 2, 0]"
  using sched_refines_queue [OF three_tasks] by simp

text \<open>Claim C18. Round robin is fair: over successive ticks the ready tasks run in ring order, each
  of them within as many ticks as there are ready tasks.\<close>

theorem round_robin_fair:
  assumes "sched_inv s xs" and "xs \<noteq> []"
  shows "current_task ((OS_Schedule ^^ Suc n) s) = Some (xs ! (n mod length xs))
    \<and> (\<forall>t \<in> set xs. \<exists>k < length xs. current_task ((OS_Schedule ^^ Suc k) s) = Some t)"
  using rr.fair [OF assms] rr.served [OF assms(1)] by blast

theorem round_robin_fair_witness:
  "current_task ((OS_Schedule ^^ Suc 7) (add_task (add_task (add_task idle_sched)))) = Some 1"
  using round_robin_fair [OF three_tasks, of 7] by simp

text \<open>
  Claim C40. OS_TaskBlock takes a task of the ready queue out of it and marks it blocked. When another task
  is ready, the blocked task is not the current one after any later tick, whatever number of ticks pass
  (without an OS_TaskWake). When it was the only ready task, no tick changes anything any more: if it
  was the running task it stays the current one and goes on running, although it is blocked.
\<close>

theorem blocked_task_not_scheduled:
  assumes "sched_inv s xs" and "t \<in> set xs" and "OS_TaskBlock s (Some t) = Some s'"
  shows "t_state (task_pool s' t) = TASK_BLOCKED \<and> sched_inv s' (remove1 t xs)
    \<and> (if xs = [t] then (OS_Schedule ^^ n) s' = s' \<and> current_task s' = current_task s
       else current_task ((OS_Schedule ^^ Suc n) s') \<noteq> Some t)"
proof -
  have "runnable (t_state (task_pool s t))" using sched_invD(3) [OF assms(1)] assms(2) by blast
  then have st: "t_state (task_pool s' t) = TASK_BLOCKED"
    using assms(3) by (auto simp: OS_TaskBlock_def runnable_def)
  have inv: "sched_inv s' (remove1 t xs)" and cur: "current_task s' = current_task s"
    using sched_inv_block [OF assms(1), of t] assms(3) by auto
  have d: "distinct xs" using sched_invD(1) [OF assms(1)] by (simp add: ring_def)
  show ?thesis
  proof (cases "xs = [t]")
    case True
    then have "ready_head s' = None" using sched_invD(1) [OF inv] by (simp add: ring_def)
    then have "OS_Schedule s' = s'" by (simp add: OS_Schedule_def)
    then have "(OS_Schedule ^^ n) s' = s'" by (induction n) simp_all
    then show ?thesis using st inv cur True by simp
  next
    case False
    then have ne: "remove1 t xs \<noteq> []" using assms(2) by (cases xs) (auto split: if_splits)
    have "t \<notin> set (remove1 t xs)" using d by simp
    then show ?thesis using rr.not_served [OF inv ne] st inv False by (simp only: if_False simp_thms)
  qed
qed

theorem blocked_task_not_scheduled_witness:
  "\<exists>s'. OS_TaskBlock (add_task (add_task (add_task idle_sched))) (Some 1) = Some s'
     \<and> t_state (task_pool s' 1) = TASK_BLOCKED \<and> current_task ((OS_Schedule ^^ Suc 100) s') \<noteq> Some 1"
proof -
  obtain s' where s': "OS_TaskBlock (add_task (add_task (add_task idle_sched))) (Some 1) = Some s'"
    using sched_inv_block [OF three_tasks, of 1] by blast
  have "1 \<in> set [0, 1, 2 :: nat]" "[0, 1, 2] \<noteq> [1 :: nat]" by simp_all
  with blocked_task_not_scheduled [OF three_tasks _ s', of 100] s' show ?thesis
    by (simp only: if_False simp_thms) blast
qed

text \<open>The pool is never reused: once eight tasks have been created, no later creation
  succeeds, however many of the tasks have exited in between.\<close>

theorem task_pool_never_reused:
  assumes "sched_reach s" and "task_count s = OS_MAX_TASKS" and "sched_step\<^sup>*\<^sup>* s s'"
  shows "OS_TaskCreatePIC s' entry arg stack ss i a5 = Some (None, s')"
proof -
  have "sched_reach s'" "task_count s \<le> task_count s'" using sched_steps_mono [OF assms(3,1)] by auto
  then show ?thesis using assms(2) by (simp add: OS_TaskCreatePIC_def)
qed

theorem task_pool_never_reused_witness:
  "\<exists>s s'. sched_step\<^sup>*\<^sup>* s s' \<and> OS_TaskExit (OS_Schedule s) = Some s'
     \<and> OS_TaskCreatePIC s' 0x1000 0 0x92000 0x1000 9 0 = Some (None, s')"
proof -
  let ?s = "(add_task ^^ 8) idle_sched"
  have st: "sched_reach (add_task s)"
    if r: "sched_reach s" and inv: "sched_inv s xs" and c: "task_count s < OS_MAX_TASKS" for s xs
  proof -
    obtain s' where "OS_TaskCreatePIC s 0x1000 0 0x92000 0x1000 1 0 = Some (Some (task_count s), s')"
      using sched_inv_create [OF inv c, of "0x1000" "0x92000" 0 "0x1000" 1 0] by auto
    then show ?thesis
      using sched_reach.step [OF r sched_step.create] by (simp add: add_task_def)
  qed
  have "n \<le> 8 \<Longrightarrow> sched_reach ((add_task ^^ n) idle_sched) \<and> task_count ((add_task ^^ n) idle_sched) = n
    \<and> (\<exists>xs. sched_inv ((add_task ^^ n) idle_sched) xs)" for n
  proof (induction n)
    case (Suc n)
    let ?u = "(add_task ^^ n) idle_sched"
    obtain xs where r: "sched_reach ?u" and inv: "sched_inv ?u xs" and c: "task_count ?u = n"
      using Suc by auto
    have lt: "task_count ?u < OS_MAX_TASKS" using c Suc.prems by (simp add: OS_MAX_TASKS_def)
    show ?case using st [OF r inv lt] add_task_inv [OF inv lt] c by auto
  qed (use idle_reach idle_inv in auto)
  then obtain xs where s: "sched_reach ?s" "task_count ?s = OS_MAX_TASKS" and inv: "sched_inv ?s xs"
    by (auto simp: OS_MAX_TASKS_def)
  obtain s' where e: "OS_TaskExit (OS_Schedule ?s) = Some s'"
    using sched_inv_exit [OF sched_inv_schedule(1) [OF inv]] by blast
  have "sched_step\<^sup>*\<^sup>* ?s s'" using sched_step.schedule [of ?s] sched_step.exit [OF e] by auto
  with task_pool_never_reused [OF s this] e show ?thesis by blast
qed

text \<open>Creating a task writes only the 66 bytes below the (word aligned) top of its stack:
  the frame there holds the entry point, the supervisor status word with all interrupts enabled
  and zero registers but A5, and the task control block points at it.\<close>

theorem task_create_frame:
  assumes "sched_inv s xs" and "task_count s < OS_MAX_TASKS" and "entry \<noteq> 0" and "stack \<noteq> 0"
    and "tp = (stack + ss) AND NOT 1" and "66 \<le> unat tp"
  shows "\<exists>s'. OS_TaskCreatePIC s entry arg stack ss i a5 = Some (Some (task_count s), s')
    \<and> t_sp (task_pool s' (task_count s)) = tp - 66
    \<and> frame_at (smem s') (tp - 66) (\<lambda>i. if i = 13 then a5 else 0) 0x2000 entry
    \<and> (\<forall>x. unat x < unat tp - 66 \<or> unat tp \<le> unat x \<longrightarrow> smem s' x = smem s x)"
  using created_frame [OF assms] by blast

theorem task_create_frame_witness:
  "\<exists>s'. OS_TaskCreatePIC idle_sched 0x1000 0 0x92000 0x1001 1 0x9A000 = Some (Some 0, s')
     \<and> frame_at (smem s') 0x92FBE (\<lambda>i. if i = 13 then 0x9A000 else 0) 0x2000 0x1000"
  using task_create_frame [OF idle_inv(1), of "0x1000" "0x92000" "0x93000" "0x1001" 0 1 "0x9A000"]
  by (auto simp: idle_inv OS_MAX_TASKS_def)

end
