(* ===== verification/CtxSwitch.thy ===== *)
theory CtxSwitch
  imports Scheduler
begin

text \<open>
  The context switch, ctx_switch_68000.S and os_yield.s, on a 68000 in supervisor mode (the only
  mode the kernel runs tasks in). The fifteen registers D0..D7, A0..A6 are numbered 0..14 in the
  order \<open>movem.l (A7)+\<close> loads them. An exception pushes PC and then SR; \<open>rte\<close> pops them in the other
  order. The stack OS_Schedule itself uses below the saved frame is not modelled.
\<close>

subsection \<open>Processor\<close>

record cpu =
  regs :: "nat \<Rightarrow> u32"
  a7 :: addr
  sr :: u16
  pc :: u32

record machine =
  sch :: sched
  cpu :: cpu
  systemTick :: u32
  tick_count :: u16
  ports :: "(addr \<times> u8) list"

definition movem_load :: "mem \<Rightarrow> cpu \<Rightarrow> cpu" where
  "movem_load m c = c\<lparr>regs := (\<lambda>i. if i < 15 then rd32 m (a7 c + word_of_nat (4 * i)) else regs c i), a7 := a7 c + 60\<rparr>"

definition rte :: "mem \<Rightarrow> cpu \<Rightarrow> cpu" where
  "rte m c = c\<lparr>sr := rd16 m (a7 c), pc := rd32 m (a7 c + 2), a7 := a7 c + 6\<rparr>"

definition exception_entry :: "mem \<Rightarrow> cpu \<Rightarrow> mem \<times> cpu" where
  "exception_entry m c =
     (let (m1, sp1) = push32 m (a7 c) (pc c);
          (m2, sp2) = push16 m1 sp1 (sr c)
      in (m2, c\<lparr>a7 := sp2, sr := (sr c OR 0x2000) AND 0x7FFF\<rparr>))"

definition movem_save :: "mem \<Rightarrow> cpu \<Rightarrow> mem \<times> cpu" where
  "movem_save m c = (let (m', sp) = push_regs m (a7 c) (map (regs c) (rev [0..<15])) in (m', c\<lparr>a7 := sp\<rparr>))"

subsection \<open>The handlers\<close>

definition set_sp :: "sched \<Rightarrow> nat \<Rightarrow> addr \<Rightarrow> sched" where
  "set_sp s t sp = s\<lparr>task_pool := (task_pool s)(t := (task_pool s t)\<lparr>t_sp := sp\<rparr>)\<rparr>"

definition current_sp :: "sched \<Rightarrow> addr" where
  "current_sp s = (case current_task s of None \<Rightarrow> 0 | Some c \<Rightarrow> t_sp (task_pool s c))"

definition restore_context :: "sched \<Rightarrow> cpu \<Rightarrow> cpu" where
  "restore_context s c = rte (smem s) (movem_load (smem s) c)"

definition OS_StartHighRdy :: "machine \<Rightarrow> machine" where
  "OS_StartHighRdy k = k\<lparr>cpu := restore_context (sch k) ((cpu k)\<lparr>a7 := current_sp (sch k)\<rparr>)\<rparr>"

definition save_context :: "machine \<Rightarrow> machine" where
  "save_context k =
     (let (m1, c1) = exception_entry (smem (sch k)) (cpu k);
          (m2, c2) = movem_save m1 c1
      in k\<lparr>sch := (sch k)\<lparr>smem := m2\<rparr>, cpu := c2\<rparr>)"

definition blink :: "machine \<Rightarrow> machine" where
  "blink k =
     (let n = tick_count k + 1
      in if n = 400 then k\<lparr>tick_count := n, ports := ports k @ [(0xFF901D, 0x08)]\<rparr>
         else if n = 800 then k\<lparr>tick_count := 0, ports := ports k @ [(0xFF901F, 0x08)]\<rparr>
         else k\<lparr>tick_count := n\<rparr>)"

definition switch_task :: "machine \<Rightarrow> nat \<Rightarrow> machine" where
  "switch_task k c =
     (let s1 = OS_Schedule (set_sp (sch k) c (a7 (cpu k)))
      in k\<lparr>sch := s1, cpu := restore_context s1 ((cpu k)\<lparr>a7 := current_sp s1\<rparr>)\<rparr>)"

definition OS_TickISR :: "machine \<Rightarrow> machine" where
  "OS_TickISR k =
     (let k1 = save_context k;
          k2 = blink (k1\<lparr>systemTick := systemTick k1 + 1\<rparr>)
      in case current_task (sch k2) of
           None \<Rightarrow> k2\<lparr>cpu := restore_context (sch k2) (cpu k2)\<rparr>
         | Some c \<Rightarrow> switch_task k2 c)"

text \<open>TRAP #15; the handler has no test for a missing current task, so it only runs with one.\<close>

definition OS_YieldTrap :: "machine \<Rightarrow> machine" where
  "OS_YieldTrap k =
     (let k1 = save_context k
      in case current_task (sch k1) of None \<Rightarrow> k1 | Some c \<Rightarrow> switch_task k1 c)"

subsection \<open>Frames in memory\<close>

definition context_at :: "mem \<Rightarrow> addr \<Rightarrow> cpu \<Rightarrow> bool" where
  "context_at m sp c \<longleftrightarrow> frame_at m sp (regs c) (sr c) (pc c) \<and> a7 c = sp + 66"

definition same_frame :: "mem \<Rightarrow> mem \<Rightarrow> addr \<Rightarrow> bool" where
  "same_frame m m' sp \<longleftrightarrow> (\<forall>k < 66. m' (sp + word_of_nat k) = m (sp + word_of_nat k))"

lemma rd32_same_frame:
  assumes "same_frame m m' sp" and "k + 3 < 66"
  shows "rd32 m' (sp + word_of_nat k) = rd32 m (sp + word_of_nat k)"
proof (rule rd32_cong)
  have f: "m' (sp + word_of_nat (k + j)) = m (sp + word_of_nat (k + j))" if "j \<le> 3" for j
    using assms that by (simp add: same_frame_def del: of_nat_add)
  from f [of 0] f [of 1] f [of 2] f [of 3]
  show "m' (sp + word_of_nat k) = m (sp + word_of_nat k)"
    "m' (sp + word_of_nat k + 1) = m (sp + word_of_nat k + 1)"
    "m' (sp + word_of_nat k + 2) = m (sp + word_of_nat k + 2)"
    "m' (sp + word_of_nat k + 3) = m (sp + word_of_nat k + 3)"
    by (simp_all add: ac_simps)
qed

lemma rd16_same_frame:
  assumes "same_frame m m' sp" and "k + 1 < 66"
  shows "rd16 m' (sp + word_of_nat k) = rd16 m (sp + word_of_nat k)"
proof (rule rd16_cong)
  have f: "m' (sp + word_of_nat (k + j)) = m (sp + word_of_nat (k + j))" if "j \<le> 1" for j
    using assms that by (simp add: same_frame_def del: of_nat_add)
  from f [of 0] f [of 1]
  show "m' (sp + word_of_nat k) = m (sp + word_of_nat k)"
    "m' (sp + word_of_nat k + 1) = m (sp + word_of_nat k + 1)"
    by (simp_all add: ac_simps)
qed

lemma frame_at_same_frame:
  assumes "same_frame m m' sp" and "frame_at m sp rs s p"
  shows "frame_at m' sp rs s p"
proof -
  have "rd32 m' (sp + word_of_nat (4 * i)) = rd32 m (sp + word_of_nat (4 * i))" if "i < 15" for i
    using that by (intro rd32_same_frame [OF assms(1)]) simp
  moreover have "rd16 m' (sp + 60) = rd16 m (sp + 60)" "rd32 m' (sp + 62) = rd32 m (sp + 62)"
    using rd16_same_frame [OF assms(1), of 60] rd32_same_frame [OF assms(1), of 62] by simp_all
  ultimately show ?thesis using assms(2) by (simp add: frame_at_def)
qed

lemma restore_frame:
  assumes "frame_at (smem s) (a7 c) rs w p"
  shows "restore_context s c = c\<lparr>regs := (\<lambda>i. if i < 15 then rs i else regs c i), a7 := a7 c + 66, sr := w, pc := p\<rparr>"
  using assms by (simp add: restore_context_def rte_def movem_load_def frame_at_def fun_eq_iff add.assoc)

lemma save_context_frame:
  assumes "66 \<le> unat (a7 (cpu k))"
  shows "a7 (cpu (save_context k)) = a7 (cpu k) - 66"
    and "context_at (smem (sch (save_context k))) (a7 (cpu k) - 66) (cpu k)"
    and "unat x < unat (a7 (cpu k)) - 66 \<or> unat (a7 (cpu k)) \<le> unat x \<Longrightarrow> smem (sch (save_context k)) x = smem (sch k) x"
    and "\<exists>m. sch (save_context k) = (sch k)\<lparr>smem := m\<rparr>"
    and "regs (cpu (save_context k)) = regs (cpu k)"
proof -
  let ?a = "a7 (cpu k)"
  obtain m1 sp1 where p1: "push32 (smem (sch k)) ?a (pc (cpu k)) = (m1, sp1)" by fastforce
  obtain m2 sp2 where p2: "push16 m1 sp1 (sr (cpu k)) = (m2, sp2)" by fastforce
  obtain m3 sp3 where p3: "push_regs m2 sp2 (map (regs (cpu k)) (rev [0..<15])) = (m3, sp3)" by fastforce
  note L = pushed_frame_layout [OF p1 p2 p3 assms]
  have k': "save_context k = k\<lparr>sch := (sch k)\<lparr>smem := m3\<rparr>,
      cpu := (cpu k)\<lparr>a7 := sp3, sr := (sr (cpu k) OR 0x2000) AND 0x7FFF\<rparr>\<rparr>"
    by (simp only: save_context_def exception_entry_def movem_save_def p1 p2 p3 Let_def split cpu.simps)
      (simp add: p3)
  show "a7 (cpu (save_context k)) = ?a - 66" using L(2) by (simp add: k')
  show "context_at (smem (sch (save_context k))) (?a - 66) (cpu k)"
    using L(3) unfolding L(2) by (simp add: k' context_at_def)
  show "\<exists>m. sch (save_context k) = (sch k)\<lparr>smem := m\<rparr>" "regs (cpu (save_context k)) = regs (cpu k)"
    by (auto simp: k')
  assume "unat x < unat ?a - 66 \<or> unat ?a \<le> unat x"
  then have "m3 x = smem (sch k) x" using L(4) unfolding L(1) by blast
  then show "smem (sch (save_context k)) x = smem (sch k) x" by (simp add: k')
qed

lemma apart_same_frame:
  assumes "apart 66 (b - 66) 66 sp" and "66 \<le> unat b"
    and "\<And>x. unat x < unat b - 66 \<or> unat b \<le> unat x \<Longrightarrow> m' x = m x"
  shows "same_frame m m' sp"
  unfolding same_frame_def
proof (intro allI impI)
  fix j :: nat assume j: "j < 66"
  have "unat sp + j < 2 ^ 32" using assms(1) j by (simp add: apart_def)
  then have "unat (sp + word_of_nat j) = unat sp + j" by (rule unat_plus_small)
  moreover have "unat (b - 66) = unat b - 66" using unat_sub_small [of 66 b] assms(2) by simp
  ultimately show "m' (sp + word_of_nat j) = m (sp + word_of_nat j)"
    using assms(1,2) j by (intro assms(3)) (auto simp: apart_def)
qed

subsection \<open>The scheduler under the handlers\<close>

lemma sched_inv_smem [simp]: "sched_inv (s\<lparr>smem := m\<rparr>) xs = sched_inv s xs"
proof -
  have "ring (s\<lparr>smem := m\<rparr>) xs = ring s xs" by (rule ring_cong) simp_all
  then show ?thesis by (simp add: sched_inv_def)
qed

lemma sched_inv_set_sp [simp]: "sched_inv (set_sp s t sp) xs = sched_inv s xs"
proof -
  have "ring (set_sp s t sp) xs = ring s xs" by (rule ring_cong) (simp_all add: set_sp_def)
  moreover have "t_state (task_pool (set_sp s t sp) u) = t_state (task_pool s u)"
    "t_next (task_pool (set_sp s t sp) u) = t_next (task_pool s u)" for u
    by (simp_all add: set_sp_def)
  ultimately show ?thesis by (simp add: sched_inv_def) (simp add: set_sp_def)
qed

lemma schedule_keeps [simp]:
  "t_sp (task_pool (OS_Schedule s) t) = t_sp (task_pool s t)" "smem (OS_Schedule s) = smem s"
  by (auto simp: OS_Schedule_def dispatch_def split: option.splits)

lemma set_sp_simps [simp]:
  "t_sp (task_pool (set_sp s t sp) u) = (if u = t then sp else t_sp (task_pool s u))"
  "smem (set_sp s t sp) = smem s" "current_task (set_sp s t sp) = current_task s"
  by (simp_all add: set_sp_def)

lemma blink_simps [simp]: "sch (blink k) = sch k" "cpu (blink k) = cpu k"
  by (simp_all add: blink_def Let_def)

lemma switch_task_effect:
  assumes inv: "sched_inv (sch k) xs" and ne: "xs \<noteq> []"
    and f: "frame_at (smem (sch k)) (if hd xs = c then a7 (cpu k) else t_sp (task_pool (sch k) (hd xs))) rs w p"
  shows "let k' = switch_task k c; sp = (if hd xs = c then a7 (cpu k) else t_sp (task_pool (sch k) (hd xs)))
    in sched_inv (sch k') (rotate1 xs) \<and> current_task (sch k') = Some (hd xs) \<and> smem (sch k') = smem (sch k)
      \<and> t_sp (task_pool (sch k') c) = a7 (cpu k)
      \<and> (\<forall>i < 15. regs (cpu k') i = rs i) \<and> sr (cpu k') = w \<and> pc (cpu k') = p \<and> a7 (cpu k') = sp + 66"
proof -
  let ?s = "set_sp (sch k) c (a7 (cpu k))"
  have i: "sched_inv ?s xs" using inv by simp
  note S = sched_inv_schedule [OF i]
  have sp: "current_sp (OS_Schedule ?s) = (if hd xs = c then a7 (cpu k) else t_sp (task_pool (sch k) (hd xs)))"
    using S(2) ne by (simp add: current_sp_def)
  have "frame_at (smem (OS_Schedule ?s)) (a7 ((cpu k)\<lparr>a7 := current_sp (OS_Schedule ?s)\<rparr>)) rs w p"
    using f sp by simp
  note R = restore_frame [OF this]
  have cpu': "cpu (switch_task k c) = restore_context (OS_Schedule ?s) ((cpu k)\<lparr>a7 := current_sp (OS_Schedule ?s)\<rparr>)"
    and sch': "sch (switch_task k c) = OS_Schedule ?s"
    by (simp_all add: switch_task_def Let_def)
  show ?thesis
    unfolding Let_def cpu' sch' R using S ne sp by simp
qed

text \<open>What an interrupt handler does when it finds a current task \<open>c\<close>: its context goes to a frame
  below its stack pointer, the head of the queue gets the processor.\<close>

definition switched :: "machine \<Rightarrow> machine \<Rightarrow> nat list \<Rightarrow> nat \<Rightarrow> bool" where
  "switched k k' xs c \<longleftrightarrow> sched_inv (sch k') (rotate1 xs) \<and> current_task (sch k') = Some (hd xs)
     \<and> t_sp (task_pool (sch k') c) = a7 (cpu k) - 66
     \<and> context_at (smem (sch k')) (a7 (cpu k) - 66) (cpu k)
     \<and> (\<forall>x. unat x < unat (a7 (cpu k)) - 66 \<or> unat (a7 (cpu k)) \<le> unat x \<longrightarrow> smem (sch k') x = smem (sch k) x)"

lemma save_switch:
  assumes inv: "sched_inv (sch k) xs" and ne: "xs \<noteq> []" and cur: "current_task (sch k) = Some c"
    and room: "66 \<le> unat (a7 (cpu k))"
    and k2: "sch k2 = sch (save_context k)" "cpu k2 = cpu (save_context k)"
  shows "hd xs = c \<Longrightarrow> switched k (switch_task k2 c) xs c \<and> context_at (smem (sch (switch_task k2 c))) (a7 (cpu k) - 66) (cpu (switch_task k2 c))"
    and "hd xs \<noteq> c \<Longrightarrow> frame_at (smem (sch k)) (t_sp (task_pool (sch k) (hd xs))) rs w p \<Longrightarrow>
      apart 66 (a7 (cpu k) - 66) 66 (t_sp (task_pool (sch k) (hd xs))) \<Longrightarrow>
      switched k (switch_task k2 c) xs c \<and> (\<forall>i < 15. regs (cpu (switch_task k2 c)) i = rs i)
        \<and> sr (cpu (switch_task k2 c)) = w \<and> pc (cpu (switch_task k2 c)) = p
        \<and> a7 (cpu (switch_task k2 c)) = t_sp (task_pool (sch k) (hd xs)) + 66"
proof -
  note S = save_context_frame [OF room]
  obtain m where m: "sch k2 = (sch k)\<lparr>smem := m\<rparr>" using S(4) k2 by auto
  have inv2: "sched_inv (sch k2) xs" and tp: "task_pool (sch k2) = task_pool (sch k)"
    using inv m by simp_all
  have a: "a7 (cpu k2) = a7 (cpu k) - 66" using S(1) k2 by simp
  have ctx: "context_at (smem (sch k2)) (a7 (cpu k) - 66) (cpu k)" using S(2) k2 by simp
  have out: "smem (sch k2) x = smem (sch k) x"
    if "unat x < unat (a7 (cpu k)) - 66 \<or> unat (a7 (cpu k)) \<le> unat x" for x
    using S(3) [OF that] k2 by simp
  show "switched k (switch_task k2 c) xs c \<and> context_at (smem (sch (switch_task k2 c))) (a7 (cpu k) - 66) (cpu (switch_task k2 c))"
    if h: "hd xs = c"
  proof -
    have "frame_at (smem (sch k2)) (if hd xs = c then a7 (cpu k2) else t_sp (task_pool (sch k2) (hd xs)))
        (regs (cpu k)) (sr (cpu k)) (pc (cpu k))"
      using ctx h a by (simp add: context_at_def)
    from switch_task_effect [OF inv2 ne this] show ?thesis
      using ctx h a out by (simp add: Let_def switched_def context_at_def frame_at_def)
  qed
  show "switched k (switch_task k2 c) xs c \<and> (\<forall>i < 15. regs (cpu (switch_task k2 c)) i = rs i)
        \<and> sr (cpu (switch_task k2 c)) = w \<and> pc (cpu (switch_task k2 c)) = p
        \<and> a7 (cpu (switch_task k2 c)) = t_sp (task_pool (sch k) (hd xs)) + 66"
    if h: "hd xs \<noteq> c" and f: "frame_at (smem (sch k)) (t_sp (task_pool (sch k) (hd xs))) rs w p"
      and ap: "apart 66 (a7 (cpu k) - 66) 66 (t_sp (task_pool (sch k) (hd xs)))"
  proof -
    have "same_frame (smem (sch k)) (smem (sch k2)) (t_sp (task_pool (sch k) (hd xs)))"
      using ap room out by (rule apart_same_frame)
    then have "frame_at (smem (sch k2)) (t_sp (task_pool (sch k) (hd xs))) rs w p"
      using f by (rule frame_at_same_frame)
    then have "frame_at (smem (sch k2)) (if hd xs = c then a7 (cpu k2) else t_sp (task_pool (sch k2) (hd xs))) rs w p"
      using h tp by simp
    from switch_task_effect [OF inv2 ne this] show ?thesis
      using ctx h a out tp by (simp add: Let_def switched_def)
  qed
qed

subsection \<open>Properties\<close>

lemma tick_is_switch:
  assumes "current_task (sch k) = Some c" and "66 \<le> unat (a7 (cpu k))"
  shows "\<exists>k2. sch k2 = sch (save_context k) \<and> cpu k2 = cpu (save_context k) \<and> OS_TickISR k = switch_task k2 c"
proof -
  let ?k2 = "blink ((save_context k)\<lparr>systemTick := systemTick (save_context k) + 1\<rparr>)"
  have "current_task (sch ?k2) = Some c" using save_context_frame(4) [OF assms(2)] assms(1) by auto
  then have "OS_TickISR k = switch_task ?k2 c" by (simp add: OS_TickISR_def Let_def)
  then show ?thesis by (intro exI [of _ ?k2]) simp
qed

lemma yield_is_switch:
  assumes "current_task (sch k) = Some c" and "66 \<le> unat (a7 (cpu k))"
  shows "OS_YieldTrap k = switch_task (save_context k) c"
  using save_context_frame(4) [OF assms(2)] assms(1) by (auto simp: OS_YieldTrap_def Let_def)

definition same_context :: "cpu \<Rightarrow> cpu \<Rightarrow> bool" where
  "same_context c c' \<longleftrightarrow> (\<forall>i < 15. regs c' i = regs c i) \<and> a7 c' = a7 c \<and> sr c' = sr c \<and> pc c' = pc c"

lemma same_context_frame: "context_at m sp c \<Longrightarrow> context_at m sp c' \<Longrightarrow> same_context c c'"
  by (simp add: same_context_def context_at_def frame_at_def)

lemma two_task_machine:
  "\<exists>(k :: machine) s. OS_TaskCreatePIC (add_task idle_sched) 0x2000 0 0xA0000 0x1000 2 0x55 = Some (Some 1, s)
    \<and> sched_inv s [0, 1] \<and> sched_inv (sch k) [1, 0] \<and> current_task (sch k) = Some 0 \<and> a7 (cpu k) = 0x92F00
    \<and> smem (sch k) = smem s \<and> t_sp (task_pool (sch k) 1) = t_sp (task_pool s 1)
    \<and> t_sp (task_pool s 1) = 0xA0FBE
    \<and> frame_at (smem s) 0xA0FBE (\<lambda>i. if i = 13 then 0x55 else 0) 0x2000 0x2000"
proof -
  note T = add_task_inv [OF idle_inv(1)]
  obtain s where s: "OS_TaskCreatePIC (add_task idle_sched) 0x2000 0 0xA0000 0x1000 2 0x55 = Some (Some 1, s)"
    "sched_inv s [0, 1]" "current_task s = None" "t_sp (task_pool s 1) = 0xA0FBE"
    "frame_at (smem s) 0xA0FBE (\<lambda>i. if i = 13 then 0x55 else 0) 0x2000 0x2000"
    using created_frame [of "add_task idle_sched" "[0]" "0x2000" "0xA0000" "0xA1000" "0x1000" 0 2 "0x55"] T
    by (auto simp: idle_inv OS_MAX_TASKS_def)
  let ?s1 = "snd (OS_Start s)"
  have 1: "sched_inv ?s1 [1, 0]" "current_task ?s1 = Some 0"
    using sched_inv_start [OF s(2,3)] by auto
  have 2: "smem ?s1 = smem s" "t_sp (task_pool ?s1 1) = t_sp (task_pool s 1)"
    by (auto simp: OS_Start_def dispatch_def split: option.splits)
  let ?k = "\<lparr>sch = ?s1, cpu = \<lparr>regs = (\<lambda>_. 7), a7 = 0x92F00, sr = 0x2000, pc = 0x1234\<rparr>,
     systemTick = 0, tick_count = 0, ports = []\<rparr> :: machine"
  show ?thesis using s 1 2 by (intro exI [of _ ?k] exI [of _ s]) simp
qed

text \<open>Claim C1. Preemption is transparent. A timer tick takes the processor from the running task;
  whatever runs meanwhile, as long as the saved stack pointer and the 66 bytes of the frame stay as
  they are, the tick that picks the task again gives it back every register, its stack pointer, its
  status register and its program counter.\<close>

theorem preemption_transparent:
  assumes "sched_inv (sch k) xs" and "xs \<noteq> []" and "hd xs \<noteq> c"
    and "current_task (sch k) = Some c" and "66 \<le> unat (a7 (cpu k))"
    and "frame_at (smem (sch k)) (t_sp (task_pool (sch k) (hd xs))) rs w p"
    and "apart 66 (a7 (cpu k) - 66) 66 (t_sp (task_pool (sch k) (hd xs)))"
    and "sched_inv (sch k2) ys" and "ys \<noteq> []" and "hd ys = c"
    and "current_task (sch k2) = Some d" and "d \<noteq> c" and "66 \<le> unat (a7 (cpu k2))"
    and "t_sp (task_pool (sch k2) c) = t_sp (task_pool (sch (OS_TickISR k)) c)"
    and "same_frame (smem (sch (OS_TickISR k))) (smem (sch k2)) (t_sp (task_pool (sch k2) c))"
    and "apart 66 (a7 (cpu k2) - 66) 66 (t_sp (task_pool (sch k2) c))"
  shows "same_context (cpu k) (cpu (OS_TickISR k2)) \<and> current_task (sch (OS_TickISR k2)) = Some c
    \<and> same_context (cpu k) (cpu (OS_YieldTrap k2))"
proof -
  obtain k' where k': "sch k' = sch (save_context k)" "cpu k' = cpu (save_context k)" "OS_TickISR k = switch_task k' c"
    using tick_is_switch [OF assms(4,5)] by blast
  have 1: "switched k (OS_TickISR k) xs c"
    using save_switch(2) [OF assms(1,2,4,5) k'(1,2) assms(3,6,7)] k'(3) by simp
  let ?sp = "t_sp (task_pool (sch k2) c)"
  have sp: "?sp = a7 (cpu k) - 66" using 1 assms(14) by (simp add: switched_def)
  have ctx: "context_at (smem (sch (OS_TickISR k))) ?sp (cpu k)" using 1 sp by (simp add: switched_def)
  have f: "frame_at (smem (sch k2)) (t_sp (task_pool (sch k2) (hd ys))) (regs (cpu k)) (sr (cpu k)) (pc (cpu k))"
    using frame_at_same_frame [OF assms(15)] ctx assms(10) by (simp add: context_at_def)
  have top: "?sp + 66 = a7 (cpu k)" using sp by simp
  have ne: "hd ys \<noteq> d" using assms(10,12) by simp
  have ap: "apart 66 (a7 (cpu k2) - 66) 66 (t_sp (task_pool (sch k2) (hd ys)))" using assms(10,16) by simp
  obtain k3 where k3: "sch k3 = sch (save_context k2)" "cpu k3 = cpu (save_context k2)" "OS_TickISR k2 = switch_task k3 d"
    using tick_is_switch [OF assms(11,13)] by blast
  show ?thesis
    using save_switch(2) [OF assms(8,9,11,13) k3(1,2) ne f ap] save_switch(2) [OF assms(8,9,11,13) refl refl ne f ap]
      k3(3) yield_is_switch [OF assms(11,13)] top assms(10)
    by (simp add: same_context_def switched_def)
qed

theorem preemption_transparent_witness:
  "\<exists>k. current_task (sch k) = Some 0 \<and> same_context (cpu k) (cpu (OS_TickISR (OS_TickISR k)))
     \<and> current_task (sch (OS_TickISR (OS_TickISR k))) = Some 0"
proof -
  obtain k :: machine and s where k: "sched_inv (sch k) [1, 0]" "current_task (sch k) = Some 0" "a7 (cpu k) = 0x92F00"
    "t_sp (task_pool (sch k) 1) = 0xA0FBE"
    "frame_at (smem (sch k)) 0xA0FBE (\<lambda>i. if i = 13 then 0x55 else 0) 0x2000 0x2000"
    using two_task_machine by metis
  have room: "66 \<le> unat (a7 (cpu k))" using k by simp
  have ap: "apart 66 (a7 (cpu k) - 66) 66 (t_sp (task_pool (sch k) (hd [1, 0])))"
    using k by (simp add: apart_def)
  have fr: "frame_at (smem (sch k)) (t_sp (task_pool (sch k) (hd [1, 0]))) (\<lambda>i. if i = 13 then 0x55 else 0) 0x2000 0x2000"
    using k by simp
  have ne: "hd [1, 0] \<noteq> (0 :: nat)" by simp
  obtain k' where k': "sch k' = sch (save_context k)" "cpu k' = cpu (save_context k)" "OS_TickISR k = switch_task k' 0"
    using tick_is_switch [OF k(2) room] by blast
  have sw: "switched k (OS_TickISR k) [1, 0] 0" and a: "a7 (cpu (OS_TickISR k)) = 0xA1000"
    using save_switch(2) [OF k(1) _ k(2) room k'(1,2) ne fr ap] k'(3) k(4) by auto
  have 2: "sched_inv (sch (OS_TickISR k)) [0, 1]" "current_task (sch (OS_TickISR k)) = Some 1"
    "t_sp (task_pool (sch (OS_TickISR k)) 0) = 0x92EBE"
    using sw k(3) by (simp_all add: switched_def)
  show ?thesis
    using preemption_transparent [OF k(1) _ ne k(2) room fr ap 2(1) _ _ 2(2)] k(2) a 2(3)
    by (auto simp: apart_def same_frame_def)
qed

text \<open>A tick that finds no other ready task returns to the interrupted code with its
  whole context, and so does a tick before the first task has started; memory changes at most in
  the 66 bytes below the interrupted stack pointer.\<close>

theorem tick_alone_returns:
  assumes "sched_inv (sch k) xs" and "66 \<le> unat (a7 (cpu k))"
    and "(xs = [] \<or> hd xs = c) \<and> current_task (sch k) = Some c \<or> current_task (sch k) = None"
  shows "same_context (cpu k) (cpu (OS_TickISR k))
    \<and> (\<forall>x. unat x < unat (a7 (cpu k)) - 66 \<or> unat (a7 (cpu k)) \<le> unat x \<longrightarrow>
        smem (sch (OS_TickISR k)) x = smem (sch k) x)"
proof (cases "current_task (sch k)")
  case None
  note S = save_context_frame [OF assms(2)]
  let ?k2 = "blink ((save_context k)\<lparr>systemTick := systemTick (save_context k) + 1\<rparr>)"
  have "current_task (sch ?k2) = None" using S(4) None by auto
  then have t: "OS_TickISR k = ?k2\<lparr>cpu := restore_context (sch (save_context k)) (cpu (save_context k))\<rparr>"
    by (simp add: OS_TickISR_def Let_def)
  have "frame_at (smem (sch (save_context k))) (a7 (cpu (save_context k))) (regs (cpu k)) (sr (cpu k)) (pc (cpu k))"
    using S(1,2) by (simp add: context_at_def)
  from restore_frame [OF this] show ?thesis using S(1,3) by (simp add: t same_context_def)
next
  case (Some d)
  then have d: "d = c" and h: "xs = [] \<or> hd xs = c" using assms(3) by auto
  obtain k' where k': "sch k' = sch (save_context k)" "cpu k' = cpu (save_context k)" "OS_TickISR k = switch_task k' c"
    using tick_is_switch [OF Some assms(2)] d by blast
  show ?thesis
  proof (cases "xs = []")
    case False
    from save_switch(1) [OF assms(1) False _ assms(2) k'(1,2)] Some d h False k'(3)
    have "switched k (OS_TickISR k) xs c"
      and c2: "context_at (smem (sch (OS_TickISR k))) (a7 (cpu k) - 66) (cpu (OS_TickISR k))" by auto
    then show ?thesis using same_context_frame [OF _ c2] by (auto simp: switched_def)
  next
    case True
    note S = save_context_frame [OF assms(2)]
    have "ready_head (sch k') = None"
      using sched_invD(1) [OF assms(1)] True S(4) k'(1) by (auto simp: ring_def)
    then have os: "OS_Schedule (set_sp (sch k') c (a7 (cpu k'))) = set_sp (sch k') c (a7 (cpu k'))"
      by (simp add: OS_Schedule_def set_sp_def)
    have cs: "current_sp (set_sp (sch k') c (a7 (cpu k'))) = a7 (cpu k')"
      using S(4) k'(1) Some d by (auto simp: current_sp_def)
    have "frame_at (smem (sch (save_context k))) (a7 (cpu (save_context k))) (regs (cpu k)) (sr (cpu k)) (pc (cpu k))"
      using S(1,2) by (simp add: context_at_def)
    then have "frame_at (smem (set_sp (sch k') c (a7 (cpu k')))) (a7 ((cpu k')\<lparr>a7 := a7 (cpu k')\<rparr>)) (regs (cpu k)) (sr (cpu k)) (pc (cpu k))"
      using k' by simp
    note R = restore_frame [OF this]
    have "OS_TickISR k = k'\<lparr>sch := set_sp (sch k') c (a7 (cpu k')),
        cpu := restore_context (set_sp (sch k') c (a7 (cpu k'))) ((cpu k')\<lparr>a7 := a7 (cpu k')\<rparr>)\<rparr>"
      by (simp only: k'(3) switch_task_def os cs Let_def)
    then show ?thesis unfolding R using S(1,3) k'(1,2) by (simp add: same_context_def)
  qed
qed

theorem tick_alone_returns_witness:
  "\<exists>k. a7 (cpu k) = 0x92F00 \<and> same_context (cpu k) (cpu (OS_TickISR k))"
proof -
  let ?k = "\<lparr>sch = idle_sched, cpu = \<lparr>regs = (\<lambda>_. 7), a7 = 0x92F00, sr = 0x2000, pc = 0x1234\<rparr>,
     systemTick = 0, tick_count = 0, ports = []\<rparr> :: machine"
  have "sched_inv (sch ?k) []" "current_task (sch ?k) = None" by (simp_all add: idle_inv)
  from tick_alone_returns [OF this(1)] this(2) show ?thesis by (intro exI [of _ ?k]) simp
qed

text \<open>Claim C35. The first time a created task is picked it starts at its entry point, in supervisor
  mode with every interrupt enabled, with \<open>a5_value\<close> in A5, zero in the other registers, and its
  stack pointer at the (word aligned) top of its stack.\<close>

theorem new_task_starts_at_entry:
  assumes "sched_inv (sch k) xs" and "task_count (sch k) < OS_MAX_TASKS" and "entry \<noteq> 0" and "stack \<noteq> 0"
    and "tp = (stack + ss) AND NOT 1" and "66 \<le> unat tp"
    and "OS_TaskCreatePIC (sch k) entry arg stack ss i a5 = Some (Some t, s)"
    and "sched_inv (sch k2) ys" and "ys \<noteq> []" and "hd ys = t"
    and "t_sp (task_pool (sch k2) t) = t_sp (task_pool s t)"
    and "same_frame (smem s) (smem (sch k2)) (t_sp (task_pool s t))"
    and "current_task (sch k2) = Some d" and "d \<noteq> t" and "66 \<le> unat (a7 (cpu k2))"
    and "apart 66 (a7 (cpu k2) - 66) 66 (tp - 66)"
  shows "pc (cpu (OS_TickISR k2)) = entry \<and> sr (cpu (OS_TickISR k2)) = 0x2000 \<and> a7 (cpu (OS_TickISR k2)) = tp
    \<and> (\<forall>j < 15. regs (cpu (OS_TickISR k2)) j = (if j = 13 then a5 else 0))"
proof -
  obtain s' where s': "OS_TaskCreatePIC (sch k) entry arg stack ss i a5 = Some (Some (task_count (sch k)), s')"
    and sm: "smem s' = fst (initial_frame (smem (sch k)) stack ss entry a5)"
    and tsp: "t_sp (task_pool s' (task_count (sch k))) = snd (initial_frame (smem (sch k)) stack ss entry a5)"
    using sched_inv_create [OF assms(1-4), of arg ss i a5] by blast
  have eq: "s = s'" "t = task_count (sch k)" using s' assms(7) by auto
  obtain m sp where fe: "initial_frame (smem (sch k)) stack ss entry a5 = (m, sp)" by fastforce
  note L = initial_frame_layout [OF fe assms(5,6)]
  have sp: "t_sp (task_pool s t) = tp - 66" and fr: "frame_at (smem s) (tp - 66) (\<lambda>i. if i = 13 then a5 else 0) 0x2000 entry"
    using L(2,3) sm tsp eq fe by simp_all
  have f: "frame_at (smem (sch k2)) (t_sp (task_pool (sch k2) (hd ys))) (\<lambda>i. if i = 13 then a5 else 0) 0x2000 entry"
    using frame_at_same_frame [OF assms(12)] fr sp assms(10,11) by simp
  have ne: "hd ys \<noteq> d" using assms(10,14) by simp
  have ap: "apart 66 (a7 (cpu k2) - 66) 66 (t_sp (task_pool (sch k2) (hd ys)))" using assms(10,11,16) sp by simp
  obtain k3 where k3: "sch k3 = sch (save_context k2)" "cpu k3 = cpu (save_context k2)" "OS_TickISR k2 = switch_task k3 d"
    using tick_is_switch [OF assms(13,15)] by blast
  show ?thesis
    using save_switch(2) [OF assms(8,9,13,15) k3(1,2) ne f ap] k3(3) assms(10,11) sp by simp
qed

theorem new_task_starts_at_entry_witness:
  "\<exists>k. pc (cpu (OS_TickISR k)) = 0x2000 \<and> a7 (cpu (OS_TickISR k)) = 0xA1000 \<and> regs (cpu (OS_TickISR k)) 13 = 0x55"
proof -
  obtain k :: machine and s where k: "OS_TaskCreatePIC (add_task idle_sched) 0x2000 0 0xA0000 0x1000 2 0x55 = Some (Some 1, s)"
    "sched_inv (sch k) [1, 0]" "current_task (sch k) = Some 0" "a7 (cpu k) = 0x92F00"
    "smem (sch k) = smem s" "t_sp (task_pool (sch k) 1) = t_sp (task_pool s 1)"
    using two_task_machine by metis
  note T = add_task_inv [OF idle_inv(1)]
  let ?k0 = "k\<lparr>sch := add_task idle_sched\<rparr>"
  have "sched_inv (sch ?k0) [0]" "task_count (sch ?k0) < OS_MAX_TASKS"
    "OS_TaskCreatePIC (sch ?k0) 0x2000 0 0xA0000 0x1000 2 0x55 = Some (Some 1, s)"
    using T k(1) by (simp_all add: idle_inv OS_MAX_TASKS_def)
  note N = new_task_starts_at_entry [OF this(1,2) _ _ _ _ this(3) k(2) _ _ k(6) _ k(3)]
  show ?thesis
    using N [of "0xA1000"] k by (intro exI [of _ k]) (simp add: apart_def same_frame_def)
qed

end
