(* ===== verification/Kernel.thy ===== *)
theory Kernel
  imports CtxSwitch Kmalloc
begin

text \<open>
  The kernel's fixed tables: program slots (mm/slots.c, slots.h), the vectors kernel_main writes
  into the RAM stubs (kfunctions.c, kernel.c), the system call table (syscall/trap_table.c with the
  numbers of sys/syscall.h) and the exception reports (exceptions.c, exceptions_asm.S).

  A function pointer of the call table is the name of the function; what each of them returns is a
  parameter of the dispatcher, since their bodies in kfunctions.c are empty.
\<close>

subsection \<open>Slots\<close>

definition SLOT_BASE :: u32 where "SLOT_BASE = 0x92000"
definition SLOT_SIZE :: u32 where "SLOT_SIZE = 0x40000"
definition SLOT_COUNT :: nat where "SLOT_COUNT = 10"

definition Slots_Init :: "u8 list" where
  "Slots_Init = replicate SLOT_COUNT 0"

fun alloc_loop :: "u8 list \<Rightarrow> nat \<Rightarrow> (nat \<times> u8 list) option" where
  "alloc_loop [] i = None"
| "alloc_loop (u # us) i =
     (if u = 0 then Some (i, 1 # us) else map_option (\<lambda>(j, us'). (j, u # us')) (alloc_loop us (Suc i)))"

definition Slots_Alloc :: "u8 list \<Rightarrow> int \<times> u8 list" where
  "Slots_Alloc slot_in_use =
     (case alloc_loop slot_in_use 0 of None \<Rightarrow> (- 1, slot_in_use) | Some (i, us) \<Rightarrow> (int i, us))"

definition Slots_Free :: "u8 list \<Rightarrow> int \<Rightarrow> u8 list" where
  "Slots_Free slot_in_use slot_index =
     (if slot_index \<ge> 0 \<and> slot_index < int SLOT_COUNT then slot_in_use[nat slot_index := 0] else slot_in_use)"

definition Slots_BaseAddr :: "int \<Rightarrow> addr" where
  "Slots_BaseAddr slot_index = SLOT_BASE + word_of_int slot_index * SLOT_SIZE"

subsection \<open>RAM vectors\<close>

definition sys_setramvector :: "mem \<Rightarrow> addr \<Rightarrow> addr \<Rightarrow> mem" where
  "sys_setramvector m stub_addr handler_addr =
     m(stub_addr := 0x4E, stub_addr + 1 := 0xF9,
       stub_addr + 2 := ucast (drop_bit 24 handler_addr AND 0xFF),
       stub_addr + 3 := ucast (drop_bit 16 handler_addr AND 0xFF),
       stub_addr + 4 := ucast (drop_bit 8 handler_addr AND 0xFF),
       stub_addr + 5 := ucast (handler_addr AND 0xFF))"

text \<open>The stubs in the order kernel_main fills them: TRAP #0 handler, tick, bus error, address
  error, illegal instruction, division by zero, privilege, TRAPV, line A, line F.\<close>

definition kernel_stubs :: "addr list" where
  "kernel_stubs = [0x000800b4, 0x00080090, 0x00080008, 0x0008000C, 0x00080010,
     0x00080014, 0x00080020, 0x0008001C, 0x00080028, 0x0008002C]"

definition install_vectors :: "mem \<Rightarrow> addr list \<Rightarrow> mem" where
  "install_vectors m handlers = foldl (\<lambda>m (a, h). sys_setramvector m a h) m (zip kernel_stubs handlers)"

text \<open>What the processor does at a stub: an absolute long jump.\<close>

definition jump_target :: "mem \<Rightarrow> addr \<Rightarrow> addr option" where
  "jump_target m a = (if m a = 0x4E \<and> m (a + 1) = 0xF9 then Some (rd32 m (a + 2)) else None)"

text \<open>The stub of exception vector \<open>v\<close>: VETOR_BASE and VETOR_STRIDE of bootstrap/jumptable.c, whose entry
  0 is vector 2 (bus error).\<close>

definition VETOR :: "nat \<Rightarrow> addr" where
  "VETOR v = 0x00080000 + word_of_nat ((v - 2) * 6)"

subsection \<open>System calls\<close>

type_synonym sysfn = string

definition sys_call_table :: "sysfn list" where
  "sys_call_table =
    [''sys_exit'', ''sys_spawn'', ''sys_sleep'', ''sys_yield'', ''sys_open'', ''sys_close'',
     ''sys_read'', ''sys_write'', ''sys_sinc'', ''sys_lseek'', ''sys_ioctl'', ''sys_dup'',
     ''sys_unlink'', ''sys_chmod'', ''sys_tell'', ''sys_size'', ''sys_eof'', ''sys_rename'',
     ''sys_stat'', ''sys_opendir'', ''sys_readdir'', ''sys_mount'', ''sys_closedir'', ''sys_fmkdir'',
     ''sys_unmount'', ''sys_findfirst'', ''sys_findnext'', ''sys_vga_putchar'', ''sys_gotoxy'', ''sys_gohome'',
     ''sys_settextcolor'', ''sys_clrscr'', ''sys_drawvline'', ''sys_drawhline'', ''sys_drawline'', ''sys_drawcircle'',
     ''sys_drawcirclehelper'', ''sys_fillcircle'', ''sys_fillcirclehelper'', ''sys_drawroundrect'', ''sys_fillroundrect'', ''sys_fillrect'',
     ''sys_readtime'', ''sys_writetime'', ''sys_eepromreadbyte'', ''sys_eepromwritebyte'', ''sys_ringbufferread'', ''sys_ringbufferwrite'',
     ''sys_duartacfg'', ''sys_duartaread'', ''sys_duartawrite'', ''sys_duartbcfg'', ''sys_duartbread'', ''sys_duartbwrite'',
     ''sys_ppiacfg'', ''sys_ppiportaread'', ''sys_ppiportawrite'', ''sys_ppibcfg'', ''sys_ppiportbread'', ''sys_ppiportbwrite'',
     ''sys_ppiccfg'', ''sys_ppiportcread'', ''sys_ppiportcwrite'', ''sys_connect'', ''sys_bind'', ''sys_listen'',
     ''sys_accept'', ''sys_setsockopt'', ''sys_getpid'', ''sys_setramvector'']"

definition header_numbers :: "(sysfn \<times> int) list" where
  "header_numbers =
    [(''sys_exit'', 0x0), (''sys_spawn'', 0x1), (''sys_sleep'', 0x2), (''sys_yield'', 0x3),
     (''sys_open'', 0x4), (''sys_close'', 0x5), (''sys_read'', 0x6), (''sys_write'', 0x7),
     (''sys_sinc'', 0x8), (''sys_lseek'', 0x9), (''sys_ioctl'', 0xA), (''sys_dup'', 0xB),
     (''sys_unlink'', 0xC), (''sys_chmod'', 0xD), (''sys_tell'', 0xE), (''sys_size'', 0xF),
     (''sys_eof'', 0x10), (''sys_rename'', 0x11), (''sys_stat'', 0x12), (''sys_opendir'', 0x13),
     (''sys_readdir'', 0x14), (''sys_mount'', 0x15), (''sys_closedir'', 0x16), (''sys_fmkdir'', 0x17),
     (''sys_unmount'', 0x18), (''sys_findfirst'', 0x19), (''sys_findnext'', 0x1A), (''sys_vga_putchar'', 0x1B),
     (''sys_gotoxy'', 0x1C), (''sys_gohome'', 0x1D), (''sys_settextcolor'', 0x1E), (''sys_clrscr'', 0x1F),
     (''sys_drawvline'', 0x20), (''sys_drawhline'', 0x21), (''sys_drawline'', 0x22), (''sys_drawcircle'', 0x23),
     (''sys_drawcirclehelper'', 0x24), (''sys_fillcircle'', 0x25), (''sys_fillcirclehelper'', 0x26), (''sys_drawroundrect'', 0x27),
     (''sys_fillroundrect'', 0x28), (''sys_fillrect'', 0x29), (''sys_readtime'', 0x2A), (''sys_writetime'', 0x2B),
     (''sys_eepromreadbyte'', 0x2C), (''sys_eepromwritebyte'', 0x2D), (''sys_ringbufferread'', 0x2E), (''sys_ringbufferwrite'', 0x2F),
     (''sys_duartacfg'', 0x30), (''sys_duartaread'', 0x31), (''sys_duartawrite'', 0x32), (''sys_duartbcfg'', 0x33),
     (''sys_duartbread'', 0x34), (''sys_duartbwrite'', 0x35), (''sys_ppiacfg'', 0x36), (''sys_ppiportaread'', 0x37),
     (''sys_ppiportawrite'', 0x38), (''sys_ppibcfg'', 0x39), (''sys_ppiportbread'', 0x3A), (''sys_ppiportbwrite'', 0x3B),
     (''sys_ppiccfg'', 0x3C), (''sys_ppiportcread'', 0x3D), (''sys_ppiportcwrite'', 0x3E), (''sys_connect'', 0x3F),
     (''sys_bind'', 0x40), (''sys_listen'', 0x41), (''sys_accept'', 0x42), (''sys_setsockopt'', 0x43),
     (''sys_getpid'', 0x44), (''sys_setramvector'', 0x44)]"

definition NUM_SYSCALLS :: nat where "NUM_SYSCALLS = length sys_call_table"

definition kernel_syscall_dispatcher :: "(sysfn \<Rightarrow> u32) \<Rightarrow> u32 \<Rightarrow> u32" where
  "kernel_syscall_dispatcher call trap_num =
     (if sint trap_num < 0 \<or> NUM_SYSCALLS \<le> unat trap_num then - 1
      else call (sys_call_table ! unat trap_num))"

subsection \<open>Exception reports\<close>

text \<open>The lines dump_frame prints: the label and the value read through the frame pointer.\<close>

definition dump_frame :: "mem \<Rightarrow> addr \<Rightarrow> (string \<times> u32) list" where
  "dump_frame m f =
     [(''PC'', rd32 m (f + 60)), (''SR'', ucast (rd16 m (f + 64))),
      (''D0'', rd32 m f), (''D1'', rd32 m (f + 4)), (''D2'', rd32 m (f + 8)), (''D3'', rd32 m (f + 12)),
      (''D4'', rd32 m (f + 16)), (''D5'', rd32 m (f + 20)), (''D6'', rd32 m (f + 24)), (''D7'', rd32 m (f + 28)),
      (''A0'', rd32 m (f + 32)), (''A1'', rd32 m (f + 36)), (''A2'', rd32 m (f + 40)), (''A3'', rd32 m (f + 44)),
      (''A4'', rd32 m (f + 48)), (''A5'', rd32 m (f + 52)), (''A6'', rd32 m (f + 56))]"

text \<open>exc_generic prints the name and the dump and then spins for ever; this is what it prints.\<close>

definition exc_generic :: "mem \<Rightarrow> addr \<Rightarrow> string \<Rightarrow> string \<times> (string \<times> u32) list" where
  "exc_generic m f nome = (nome, dump_frame m f)"

definition exc_bus_error :: "mem \<Rightarrow> addr \<Rightarrow> string \<times> (string \<times> u32) list" where
  "exc_bus_error m f = exc_generic m f ''BUS ERROR''"

definition exc_address_error :: "mem \<Rightarrow> addr \<Rightarrow> string \<times> (string \<times> u32) list" where
  "exc_address_error m f = exc_generic m f ''ADDRESS ERROR''"

definition exc_illegal :: "mem \<Rightarrow> addr \<Rightarrow> string \<times> (string \<times> u32) list" where
  "exc_illegal m f = exc_generic m f ''ILLEGAL INSTRUCTION''"

definition exc_div0 :: "mem \<Rightarrow> addr \<Rightarrow> string \<times> (string \<times> u32) list" where
  "exc_div0 m f = exc_generic m f ''DIVISAO POR ZERO''"

definition exc_priv :: "mem \<Rightarrow> addr \<Rightarrow> string \<times> (string \<times> u32) list" where
  "exc_priv m f = exc_generic m f ''PRIVILEGE VIOLATION''"

definition exc_trapv :: "mem \<Rightarrow> addr \<Rightarrow> string \<times> (string \<times> u32) list" where
  "exc_trapv m f = exc_generic m f ''TRAPV''"

definition exc_linea :: "mem \<Rightarrow> addr \<Rightarrow> string \<times> (string \<times> u32) list" where
  "exc_linea m f = exc_generic m f ''LINE A (nao implementado)''"

definition exc_linef :: "mem \<Rightarrow> addr \<Rightarrow> string \<times> (string \<times> u32) list" where
  "exc_linef m f = exc_generic m f ''LINE F (nao implementado)''"

text \<open>
  What the 68000 pushes when it takes the exception of vector \<open>v\<close>: PC and SR, and for a bus error (2) and
  an address error (3) three more items below them, the instruction register, the access address and
  a word with the function code.
\<close>

record fault =
  function_word :: u16
  access_address :: addr
  instruction_register :: u16

definition hardware_frame :: "nat \<Rightarrow> fault \<Rightarrow> mem \<Rightarrow> cpu \<Rightarrow> mem \<times> cpu" where
  "hardware_frame v fl m c =
     (let (m1, c1) = exception_entry m c
      in if v = 2 \<or> v = 3
         then (let (m2, sp2) = push16 m1 (a7 c1) (instruction_register fl);
                   (m3, sp3) = push32 m2 sp2 (access_address fl);
                   (m4, sp4) = push16 m3 sp3 (function_word fl)
               in (m4, c1\<lparr>a7 := sp4\<rparr>))
         else (m1, c1))"

text \<open>EXC_HANDLER for the vector \<open>v\<close>: D0..D7 pushed first, A0..A6 after them, then the address of the
  frame; the argument its C function gets.\<close>

definition exc_handler_stub :: "nat \<Rightarrow> fault \<Rightarrow> mem \<Rightarrow> cpu \<Rightarrow> mem \<times> addr" where
  "exc_handler_stub v fl m c =
     (let (m1, c1) = hardware_frame v fl m c;
          (m2, sp2) = push_regs m1 (a7 c1) (map (regs c) (rev [0..<8]));
          (m3, sp3) = push_regs m2 sp2 (map (regs c) (rev [8..<15]))
      in (m3, sp3))"

text \<open>kernel_main stores the C functions themselves in the vectors: the processor jumps to them with
  only PC and SR pushed (seven words for the vectors 2 and 3, which this leaves out), and the argument is the long word above the place of a return address.\<close>

definition direct_vector_argument :: "mem \<Rightarrow> cpu \<Rightarrow> addr" where
  "direct_vector_argument m c = (let (m1, c1) = exception_entry m c in rd32 m1 (a7 c1 + 4))"

lemma table_length: "NUM_SYSCALLS = 70"
  by (simp add: NUM_SYSCALLS_def sys_call_table_def)

subsection \<open>Slots\<close>

lemma alloc_loop_spec:
  "alloc_loop us i = (if \<forall>u \<in> set us. u \<noteq> 0 then None
     else let j = LEAST j. j < length us \<and> us ! j = 0 in Some (i + j, us[j := 1]))"
proof (induction us arbitrary: i)
  case (Cons u us)
  let ?P = "\<lambda>us j. j < length us \<and> us ! j = 0"
  show ?case
  proof (cases "u = 0")
    case True
    have "(LEAST j. ?P (u # us) j) = 0" using True by (intro Least_equality) auto
    then show ?thesis using True by (simp add: Let_def)
  next
    case False
    show ?thesis
    proof (cases "\<forall>v \<in> set us. v \<noteq> 0")
      case True
      then show ?thesis using False Cons by simp
    next
      case ex: False
      then obtain j where "?P us j" by (metis in_set_conv_nth)
      then have "?P (u # us) (Suc j)" by simp
      moreover have "\<not> ?P (u # us) 0" using False by simp
      ultimately have "(LEAST j. ?P (u # us) j) = Suc (LEAST j. ?P (u # us) (Suc j))"
        by (rule Least_Suc)
      then show ?thesis using False ex Cons [of "Suc i"] by (auto simp: Let_def)
    qed
  qed
qed simp

lemma Slots_Alloc_spec:
  "Slots_Alloc us = (if \<forall>u \<in> set us. u \<noteq> 0 then (- 1, us)
     else let j = LEAST j. j < length us \<and> us ! j = 0 in (int j, us[j := 1]))"
  by (auto simp: Slots_Alloc_def alloc_loop_spec Let_def)

lemma least_free:
  assumes "\<exists>u \<in> set us. u = (0 :: u8)"
  shows "(LEAST j. j < length us \<and> us ! j = 0) < length us \<and> us ! (LEAST j. j < length us \<and> us ! j = 0) = 0"
  using LeastI_ex [of "\<lambda>j. j < length us \<and> us ! j = 0"] assms by (auto simp: in_set_conv_nth)

lemma slot_base_unat:
  assumes "0 \<le> i" and "i < int SLOT_COUNT"
  shows "unat (Slots_BaseAddr i) = 0x92000 + nat i * 0x40000"
proof -
  have "nat i * 0x40000 + 0x92000 < 2 ^ 32" using assms by (simp add: SLOT_COUNT_def)
  moreover have "Slots_BaseAddr i = word_of_nat (0x92000 + nat i * 0x40000)"
    using assms by (simp add: Slots_BaseAddr_def SLOT_BASE_def SLOT_SIZE_def)
  ultimately show ?thesis by (simp only: unat_of_nat32 add.commute)
qed

lemma Slots_Alloc_free:
  assumes "length us = SLOT_COUNT" and "Slots_Alloc us = (i, us')" and "\<not> (\<forall>u \<in> set us. u \<noteq> 0)"
  shows "0 \<le> i" "i < int SLOT_COUNT" "us' = us[nat i := 1]" "Slots_Free us' i = us"
proof -
  define j where "j = (LEAST j. j < length us \<and> us ! j = 0)"
  have j: "j < length us" "us ! j = 0" using least_free assms(3) unfolding j_def by blast+
  have i: "i = int j" "us' = us[j := 1]"
    using assms(2,3) unfolding Slots_Alloc_spec j_def by (auto simp: Let_def)
  have "us[j := 1, j := 0] = us" using j by (simp add: list_update_same_conv)
  then show "0 \<le> i" "i < int SLOT_COUNT" "us' = us[nat i := 1]" "Slots_Free us' i = us"
    using i j assms(1) by (simp_all add: Slots_Free_def)
qed

subsection \<open>Vectors\<close>

lemma setramvector_wr: "sys_setramvector m a h = wr32 (m(a := 0x4E, a + 1 := 0xF9)) (a + 2) h"
  by (simp only: sys_setramvector_def wr32_def ucast_FF) (simp add: add.assoc)

lemma jump_setramvector_same: "jump_target (sys_setramvector m a h) a = Some h"
proof -
  have "sys_setramvector m a h a = 0x4E" "sys_setramvector m a h (a + 1) = 0xF9"
    by (simp_all only: sys_setramvector_def) simp_all
  then show ?thesis by (simp add: jump_target_def setramvector_wr)
qed

lemma jump_setramvector_other:
  assumes "apart 6 a 6 b"
  shows "jump_target (sys_setramvector m a h) b = jump_target m b"
proof -
  have o: "sys_setramvector m a h (b + word_of_nat i) = m (b + word_of_nat i)" if "i < 6" for i
  proof -
    have "6 \<le> unat (b + word_of_nat i - a)" using apart_byte [OF assms that] .
    then show ?thesis by (auto simp: sys_setramvector_def)
  qed
  from o [of 0] o [of 1] o [of 2] o [of 3] o [of 4] o [of 5] show ?thesis
    by (simp add: jump_target_def rd32_def add.assoc)
qed

lemma ten_list:
  assumes "length hs = 10"
  shows "hs = [hs ! 0, hs ! 1, hs ! 2, hs ! 3, hs ! 4, hs ! 5, hs ! 6, hs ! 7, hs ! 8, hs ! 9]"
  using assms by (intro nth_equalityI) (auto simp: less_Suc_eq numeral_eq_Suc)

lemma install_vectors_eq:
  assumes "length hs = 10"
  shows "install_vectors m hs =
    sys_setramvector (sys_setramvector (sys_setramvector (sys_setramvector (sys_setramvector
     (sys_setramvector (sys_setramvector (sys_setramvector (sys_setramvector (sys_setramvector m
      0x800B4 (hs ! 0)) 0x80090 (hs ! 1)) 0x80008 (hs ! 2)) 0x8000C (hs ! 3)) 0x80010 (hs ! 4))
      0x80014 (hs ! 5)) 0x80020 (hs ! 6)) 0x8001C (hs ! 7)) 0x80028 (hs ! 8)) 0x8002C (hs ! 9)"
  by (subst ten_list [OF assms]) (simp only: install_vectors_def kernel_stubs_def zip_Cons_Cons foldl.simps split zip_Nil)

lemma rd32_halves:
  "(ucast (rd32 m a) :: u16) = rd16 m (a + 2)" "(ucast (drop_bit 16 (rd32 m a)) :: u16) = rd16 m a"
proof -
  show "(ucast (rd32 m a) :: u16) = rd16 m (a + 2)"
    by (rule bit_word_eqI) (auto simp: rd32_def rd16_def bit_simps add.assoc)
  show "(ucast (drop_bit 16 (rd32 m a)) :: u16) = rd16 m a"
    by (rule bit_word_eqI) (auto simp: rd32_def rd16_def bit_simps add.assoc dest: bit_imp_le_length)
qed

lemma setramvector_byte:
  "sys_setramvector m a h x =
     (if x = a then 0x4E else if x = a + 1 then 0xF9
      else if 4 \<le> unat (x - (a + 2)) then m x else wr32 m (a + 2) h x)"
  by (simp add: setramvector_wr) (auto simp: wr32_def)

lemma rd16_setramvector_high: "rd16 (sys_setramvector m a h) (a + 2) = ucast (drop_bit 16 h)"
  using rd32_halves(2) [of "sys_setramvector m a h" "a + 2"] by (simp add: setramvector_wr)

subsection \<open>Exception frames\<close>

lemma push_regs_append:
  "push_regs m sp (xs @ ys) = (case push_regs m sp xs of (m', sp') \<Rightarrow> push_regs m' sp' ys)"
  by (induction xs arbitrary: m sp) (auto split: prod.splits)

lemma stub_order:
  "map g (rev [0..<8]) @ map g (rev [8..<15]) = map (\<lambda>i. g (if i < 7 then i + 8 else i - 7)) (rev [0..<15])"
  by (simp add: upt_rec)

text \<open>The word and the long word the processor pushes last.\<close>

definition last_pushed :: "nat \<Rightarrow> fault \<Rightarrow> cpu \<Rightarrow> u16 \<times> u32" where
  "last_pushed v fl c = (if v = 2 \<or> v = 3 then (function_word fl, access_address fl) else (sr c, pc c))"

lemma hardware_frame_last:
  assumes "74 \<le> unat (a7 c)" and "last_pushed v fl c = (w, a)"
  obtains m0 sp0 m1 sp1 m2 sp2 where "push32 m0 sp0 a = (m1, sp1)" "push16 m1 sp1 w = (m2, sp2)"
    "66 \<le> unat sp0" "\<exists>c1. hardware_frame v fl m c = (m2, c1) \<and> a7 c1 = sp2"
proof -
  obtain m1 sp1 where p1: "push32 m (a7 c) (pc c) = (m1, sp1)" by fastforce
  obtain m2 sp2 where p2: "push16 m1 sp1 (sr c) = (m2, sp2)" by fastforce
  obtain m3 sp3 where p3: "push16 m2 sp2 (instruction_register fl) = (m3, sp3)" by fastforce
  obtain m4 sp4 where p4: "push32 m3 sp3 (access_address fl) = (m4, sp4)" by fastforce
  obtain m5 sp5 where p5: "push16 m4 sp4 (function_word fl) = (m5, sp5)" by fastforce
  have "unat sp1 = unat (a7 c) - 4" using push32_frame(2) [OF p1] assms(1) by simp
  moreover from this have "unat sp2 = unat (a7 c) - 6" using push16_frame(2) [OF p2] assms(1) by simp
  moreover from this have "unat sp3 = unat (a7 c) - 8" using push16_frame(2) [OF p3] assms(1) by simp
  ultimately have r: "66 \<le> unat sp3" "66 \<le> unat (a7 c)" using assms(1) by simp_all
  show thesis
  proof (cases "v = 2 \<or> v = 3")
    case True
    then show thesis using that [OF _ _ r(1)] p1 p2 p3 p4 p5 assms(2)
      by (auto simp: last_pushed_def hardware_frame_def exception_entry_def)
  next
    case False
    then show thesis using that [OF _ _ r(2)] p1 p2 assms(2)
      by (auto simp: last_pushed_def hardware_frame_def exception_entry_def)
  qed
qed

lemma exc_stub_frame:
  assumes "74 \<le> unat (a7 c)" and "exc_handler_stub v fl m c = (m', f)" and "last_pushed v fl c = (w, a)"
  shows "frame_at m' f (\<lambda>i. regs c (if i < 7 then i + 8 else i - 7)) w a"
proof -
  obtain m0 sp0 m1 sp1 m2 sp2 c1 where p: "push32 m0 sp0 a = (m1, sp1)" "push16 m1 sp1 w = (m2, sp2)"
    and r: "66 \<le> unat sp0" and h: "hardware_frame v fl m c = (m2, c1)" "a7 c1 = sp2"
    using hardware_frame_last [OF assms(1,3)] by metis
  have "push_regs m2 sp2 (map (regs c) (rev [0..<8]) @ map (regs c) (rev [8..<15])) = (m', f)"
    unfolding push_regs_append using assms(2) h by (simp add: exc_handler_stub_def split: prod.splits)
  then have p3: "push_regs m2 sp2 (map (\<lambda>i. regs c (if i < 7 then i + 8 else i - 7)) (rev [0..<15])) = (m', f)"
    by (simp only: stub_order)
  show ?thesis by (rule pushed_frame_layout(3) [OF p p3 r])
qed

subsection \<open>Properties\<close>

text \<open>Slots_Alloc answers -1 exactly when every slot is in use, and otherwise the lowest
  free slot, now marked in use, which freeing it undoes; the 256 KB region of the slot lies below
  the end of the address space and does not meet the region of any other slot.\<close>

theorem slots_alloc_disjoint:
  assumes "length us = SLOT_COUNT" and "Slots_Alloc us = (i, us')"
  shows "if \<forall>u \<in> set us. u \<noteq> 0 then i = - 1 \<and> us' = us
    else 0 \<le> i \<and> i < int SLOT_COUNT \<and> us ! nat i = 0 \<and> us' = us[nat i := 1] \<and> Slots_Free us' i = us
      \<and> (\<forall>j < nat i. us ! j \<noteq> 0)
      \<and> (\<forall>j. 0 \<le> j \<and> j < int SLOT_COUNT \<and> j \<noteq> i \<longrightarrow>
           apart (unat SLOT_SIZE) (Slots_BaseAddr i) (unat SLOT_SIZE) (Slots_BaseAddr j))"
proof (cases "\<forall>u \<in> set us. u \<noteq> 0")
  case True
  then show ?thesis using assms by (simp add: Slots_Alloc_spec)
next
  case False
  define j where "j = (LEAST j. j < length us \<and> us ! j = 0)"
  have j: "j < length us" "us ! j = 0" using least_free False unfolding j_def by blast+
  have i: "i = int j" "us' = us[j := 1]"
    using assms(2) False unfolding Slots_Alloc_spec j_def by (auto simp: Let_def)
  have "us ! k \<noteq> 0" if "k < j" for k
    using not_less_Least [of k "\<lambda>j. j < length us \<and> us ! j = 0"] that j(1) unfolding j_def by auto
  moreover have "us[j := 1, j := 0] = us" using j by (simp add: list_update_same_conv)
  moreover have "apart (unat SLOT_SIZE) (Slots_BaseAddr (int j)) (unat SLOT_SIZE) (Slots_BaseAddr k)"
    if "0 \<le> k" "k < int SLOT_COUNT" "k \<noteq> int j" for k
    using slot_base_unat [of "int j"] slot_base_unat [of k] that j assms(1)
    by (auto simp: apart_def SLOT_SIZE_def SLOT_COUNT_def nat_less_iff)
  ultimately show ?thesis using False i j assms(1) by (simp add: Slots_Free_def)
qed

theorem slots_alloc_disjoint_witness:
  "Slots_Alloc [1, 0, 1, 1, 0, 1, 1, 1, 1, 1] = (1, [1, 1, 1, 1, 0, 1, 1, 1, 1, 1])
    \<and> Slots_Free [1, 1, 1, 1, 0, 1, 1, 1, 1, 1] 1 = [1, 0, 1, 1, 0, 1, 1, 1, 1, 1]"
proof -
  have a: "Slots_Alloc [1, 0, 1, 1, 0, 1, 1, 1, 1, 1] = (1, [1, 1, 1, 1, 0, 1, 1, 1, 1, 1])"
    by (simp add: Slots_Alloc_def)
  show ?thesis using slots_alloc_disjoint [OF _ a] a by (simp add: SLOT_COUNT_def)
qed

text \<open>Of the vectors kernel_main fills, the ones of the tick and of TRAP #0 are at the stubs
  the ROM vectors point to and jump to their handlers. The exception handlers are written 4 bytes
  apart, while a stub is 6 bytes long: the bus error stub is never written, the stub of the illegal
  instruction jumps into the address error handler with its low half overwritten by the next JMP
  opcode, and the stub of division by zero is no jump at all.\<close>

theorem kernel_vectors_installed:
  assumes "length hs = 10"
  shows "jump_target (install_vectors m hs) (VETOR 32) = Some (hs ! 0)
    \<and> jump_target (install_vectors m hs) (VETOR 26) = Some (hs ! 1)
    \<and> jump_target (install_vectors m hs) (VETOR 2) = jump_target m (VETOR 2)
    \<and> (\<exists>t. jump_target (install_vectors m hs) (VETOR 4) = Some t
        \<and> ucast (drop_bit 16 t) = (ucast (drop_bit 16 (hs ! 3)) :: u16) \<and> ucast t = (0x4EF9 :: u16))
    \<and> rd16 (install_vectors m hs) (VETOR 5) = ucast (drop_bit 16 (hs ! 4))"
proof (intro conjI)
  let ?M = "install_vectors m hs"
  note eq = install_vectors_eq [OF assms]
  have v: "VETOR 32 = 0x800B4" "VETOR 26 = 0x80090" "VETOR 2 = 0x80000" "VETOR 4 = 0x8000C" "VETOR 5 = 0x80012"
    by (simp_all add: VETOR_def)
  show "jump_target ?M (VETOR 32) = Some (hs ! 0)" "jump_target ?M (VETOR 26) = Some (hs ! 1)"
    unfolding eq v by (simp_all add: jump_setramvector_other apart_def jump_setramvector_same)
  show "jump_target ?M (VETOR 2) = jump_target m (VETOR 2)"
    unfolding eq v by (simp add: jump_setramvector_other apart_def)
  have "rd16 ?M 0x80012 = rd16 (sys_setramvector (\<lambda>_. 0) 0x80010 (hs ! 4)) 0x80012"
    unfolding eq by (rule rd16_cong) (simp_all add: setramvector_byte wr32_def)
  then show "rd16 ?M (VETOR 5) = ucast (drop_bit 16 (hs ! 4))"
    unfolding v using rd16_setramvector_high [of _ "0x80010"] by simp
  have h: "rd16 ?M 0x8000E = ucast (drop_bit 16 (hs ! 3))"
  proof -
    have "rd16 ?M 0x8000E = rd16 (sys_setramvector (\<lambda>_. 0) 0x8000C (hs ! 3)) 0x8000E"
      unfolding eq by (rule rd16_cong) (simp_all add: setramvector_byte wr32_def)
    then show ?thesis using rd16_setramvector_high [of _ "0x8000C"] by simp
  qed
  have l: "rd16 ?M 0x80010 = 0x4EF9" and "?M 0x8000C = 0x4E" "?M 0x8000D = 0xF9"
    unfolding eq by (simp_all add: setramvector_byte rd16_def)
  then have "jump_target ?M 0x8000C = Some (rd32 ?M 0x8000E)" by (simp add: jump_target_def)
  then show "\<exists>t. jump_target ?M (VETOR 4) = Some t
        \<and> ucast (drop_bit 16 t) = (ucast (drop_bit 16 (hs ! 3)) :: u16) \<and> ucast t = (0x4EF9 :: u16)"
    unfolding v using rd32_halves [of ?M "0x8000E"] h l by simp
qed

theorem kernel_vectors_installed_witness:
  "jump_target (install_vectors (\<lambda>_. 0) (replicate 10 0x82ABC)) (VETOR 26) = Some 0x82ABC
    \<and> rd16 (install_vectors (\<lambda>_. 0) (replicate 10 0x82ABC)) (VETOR 5) = 8"
  using kernel_vectors_installed [of "replicate 10 0x82ABC" "\<lambda>_. 0"] by simp

text \<open>The dispatcher rejects every number outside the table with -1 and calls the function
  the header names for every number up to SYS_SETSOCKOPT and SYS_GETPID; but SYS_SETRAMVECTOR shares
  the number of SYS_GETPID, so it calls sys_getpid, and sys_setramvector sits at 0x45, the number the
  header gives to SYS_READRTC.\<close>

theorem syscall_dispatch:
  "(\<forall>(f, n) \<in> set header_numbers. f \<noteq> ''sys_setramvector'' \<longrightarrow>
      kernel_syscall_dispatcher call (word_of_int n) = call f)
   \<and> (''sys_setramvector'', 0x44) \<in> set header_numbers
   \<and> kernel_syscall_dispatcher call 0x44 = call ''sys_getpid''
   \<and> kernel_syscall_dispatcher call 0x45 = call ''sys_setramvector''
   \<and> (\<forall>t. 70 \<le> unat t \<longrightarrow> kernel_syscall_dispatcher call t = - 1)"
proof -
  have in_range: "kernel_syscall_dispatcher call (word_of_int n) = call (sys_call_table ! nat n)"
    if "0 \<le> n" "n < 70" for n
  proof -
    have u: "unat (word_of_int n :: u32) = nat n"
      using that by (simp add: unsigned_of_int take_bit_int_eq_self)
    then have "sint (word_of_int n :: u32) = int (nat n)" using that by (subst sint_small) simp_all
    then have "\<not> sint (word_of_int n :: u32) < 0" using that by simp
    moreover have "\<not> 70 \<le> nat n" using that by linarith
    ultimately show ?thesis using u by (simp only: kernel_syscall_dispatcher_def table_length) simp
  qed
  have "\<forall>(f, n) \<in> set header_numbers. f \<noteq> ''sys_setramvector'' \<longrightarrow> 0 \<le> n \<and> n < 70 \<and> sys_call_table ! nat n = f"
    by code_simp
  then have "\<forall>(f, n) \<in> set header_numbers. f \<noteq> ''sys_setramvector'' \<longrightarrow>
      kernel_syscall_dispatcher call (word_of_int n) = call f"
    using in_range by fastforce
  moreover have "(''sys_setramvector'', 0x44) \<in> set header_numbers" by (simp add: header_numbers_def)
  moreover have "kernel_syscall_dispatcher call 0x44 = call ''sys_getpid''"
    "kernel_syscall_dispatcher call 0x45 = call ''sys_setramvector''"
    using in_range [of "0x44"] in_range [of "0x45"] by (simp_all add: sys_call_table_def)
  moreover have "\<forall>t. 70 \<le> unat t \<longrightarrow> kernel_syscall_dispatcher call t = - 1"
    by (simp add: kernel_syscall_dispatcher_def table_length)
  ultimately show ?thesis by blast
qed

theorem syscall_dispatch_witness:
  "kernel_syscall_dispatcher (\<lambda>f. if f = ''sys_getpid'' then 7 else 0) 0x44 = 7
    \<and> kernel_syscall_dispatcher (\<lambda>f. if f = ''sys_getpid'' then 7 else 0) 0x46 = - 1"
  using syscall_dispatch [of "\<lambda>f. if f = ''sys_getpid'' then 7 else 0"] by simp

text \<open>
  Claim C39. The frame the exception stub builds has the address registers below the data registers, the
  reverse of what ExcFrame says: for each of the eight exceptions the report prints A0 to A6 and D0
  under the labels of D0 to D7, and D1 to D7 under those of A0 to A6. The lines of PC and SR are two
  bytes off what the processor pushed: for an exception other than a bus or address error, PC shows SR
  and the high half of PC, and SR the low half of PC; for a bus (2) or address error (3), which push
  seven words, they show the function code word and the high half of the access address, and its low
  half. Neither PC nor SR is ever shown.
\<close>

theorem exception_dump_swapped:
  assumes "74 \<le> unat (a7 c)" and "exc_handler_stub v fl m c = (m', f)"
  shows "drop 2 (dump_frame m' f) =
      zip [''D0'', ''D1'', ''D2'', ''D3'', ''D4'', ''D5'', ''D6'', ''D7'', ''A0'', ''A1'', ''A2'', ''A3'', ''A4'', ''A5'', ''A6'']
        (map (regs c) ([8..<15] @ [0..<8]))
    \<and> take 2 (dump_frame m' f) =
        (let (w, a) = (if v = 2 \<or> v = 3 then (function_word fl, access_address fl) else (sr c, pc c))
         in [(''PC'', push_bit 16 (ucast w) OR drop_bit 16 a), (''SR'', ucast (ucast a :: u16))])"
proof -
  obtain w a where wa: "last_pushed v fl c = (w, a)" by fastforce
  note L = exc_stub_frame [OF assms wa]
  have r': "rd32 m' (f + word_of_nat (4 * i)) = regs c (if i < 7 then i + 8 else i - 7)" if "i < 15" for i
    using L that by (simp add: frame_at_def)
  have r: "rd32 m' f = regs c 8" using r' [of 0] by simp
  have h: "rd16 m' (f + 60) = w" "rd32 m' (f + 62) = a" using L by (simp_all add: frame_at_def)
  have lo: "rd16 m' (f + 64) = ucast a" using rd32_halves(1) [of m' "f + 62"] h(2) by (simp add: add.assoc)
  have hi: "rd16 m' (f + 62) = ucast (drop_bit 16 a)" using rd32_halves(2) [of m' "f + 62"] h(2) by simp
  have "rd32 m' (f + 60) = push_bit 16 (ucast (rd16 m' (f + 60))) OR ucast (rd16 m' (f + 62))"
    by (rule bit_word_eqI) (auto simp: rd32_def rd16_def bit_simps add.assoc dest: bit_imp_le_length)
  also have "ucast (rd16 m' (f + 62)) = drop_bit 16 a"
    unfolding hi by (rule bit_word_eqI) (auto simp: bit_simps dest: bit_imp_le_length)
  finally have "rd32 m' (f + 60) = push_bit 16 (ucast w) OR drop_bit 16 a" using h(1) by simp
  moreover have "[8..<15] = [8, 9, 10, 11, 12, 13, 14 :: nat]" "[0..<8] = [0, 1, 2, 3, 4, 5, 6, 7 :: nat]"
    by (simp_all add: upt_rec)
  ultimately show ?thesis
    using r r' [of 1] r' [of 2] r' [of 3] r' [of 4] r' [of 5] r' [of 6] r' [of 7] r' [of 8] r' [of 9]
      r' [of 10] r' [of 11] r' [of 12] r' [of 13] r' [of 14] lo wa
    by (simp add: dump_frame_def last_pushed_def split: if_splits)
qed

theorem exception_dump_swapped_witness:
  "let c = \<lparr>regs = (\<lambda>i. word_of_nat i), a7 = 0x90000, sr = 0x2000, pc = 0x82ABC\<rparr>;
       fl = \<lparr>function_word = 0x15, access_address = 0xA1B2C3, instruction_register = 0x4E75\<rparr>
   in take 2 (dump_frame (fst (exc_handler_stub 4 fl (\<lambda>_. 0) c)) (snd (exc_handler_stub 4 fl (\<lambda>_. 0) c)))
        = [(''PC'', 0x20000008), (''SR'', 0x2ABC)]
    \<and> take 2 (dump_frame (fst (exc_handler_stub 3 fl (\<lambda>_. 0) c)) (snd (exc_handler_stub 3 fl (\<lambda>_. 0) c)))
        = [(''PC'', 0x001500A1), (''SR'', 0xB2C3)]"
proof -
  let ?c = "\<lparr>regs = (\<lambda>i. word_of_nat i), a7 = 0x90000, sr = 0x2000, pc = 0x82ABC\<rparr> :: cpu"
  let ?fl = "\<lparr>function_word = 0x15, access_address = 0xA1B2C3, instruction_register = 0x4E75\<rparr> :: fault"
  have "74 \<le> unat (a7 ?c)" by simp
  note E = exception_dump_swapped [OF this prod.collapse [symmetric], of _ ?fl "\<lambda>_. 0"]
  show ?thesis using E [of 4] E [of 3] by (simp add: Let_def)
qed

text \<open>The handlers kernel_main puts in the vectors are the C functions themselves: the frame
  pointer such a function finds on the stack has the low half of the interrupted PC as its high
  half, and the next word of the interrupted stack as its low half.\<close>

theorem direct_vector_argument_garbage:
  assumes "66 \<le> unat (a7 c)" and "unat (a7 c) + 2 < 2 ^ 32"
  shows "ucast (drop_bit 16 (direct_vector_argument m c)) = (ucast (pc c) :: u16)
    \<and> ucast (direct_vector_argument m c) = rd16 m (a7 c)"
proof -
  obtain m1 sp1 where p1: "push32 m (a7 c) (pc c) = (m1, sp1)" by fastforce
  obtain m2 sp2 where p2: "push16 m1 sp1 (sr c) = (m2, sp2)" by fastforce
  have r1: "4 \<le> unat (a7 c)" using assms by simp
  note F1 = push32_frame [OF p1 r1]
  have r2: "2 \<le> unat sp1" using F1(2) assms by simp
  note F2 = push16_frame [OF p2 r2]
  have arg: "direct_vector_argument m c = rd32 m2 (sp1 + 2)"
    using F2(1) by (simp add: direct_vector_argument_def exception_entry_def p1 p2 add.commute)
  have "rd16 m2 (sp1 + 2) = rd16 m1 (sp1 + 2)"
    using F2(2,4) unat_plus_small [of sp1 2] F1(2) assms by (intro rd16_above) auto
  moreover have "rd16 m1 (sp1 + 2) = ucast (pc c)" using rd32_halves(1) [of m1 sp1] F1(3) by simp
  moreover have "rd16 m2 (a7 c) = rd16 m (a7 c)"
  proof (rule rd16_above)
    fix x :: addr assume x: "unat (a7 c) \<le> unat x"
    then have "m2 x = m1 x" using F1(2) by (intro F2(4) disjI2) linarith
    also have "\<dots> = m x" using x by (intro F1(4) disjI2)
    finally show "m2 x = m x" .
  qed (use assms in simp)
  moreover have "sp1 + 2 + 2 = a7 c" using F1(1) by simp
  ultimately show ?thesis using rd32_halves [of m2 "sp1 + 2"] arg by simp
qed

theorem direct_vector_argument_garbage_witness:
  "ucast (drop_bit 16 (direct_vector_argument (\<lambda>_. 0) \<lparr>regs = (\<lambda>_. 0), a7 = 0x90000, sr = 0x2000, pc = 0x82ABC\<rparr>))
    = (0x2ABC :: u16)"
  using direct_vector_argument_garbage [of "\<lparr>regs = (\<lambda>_. 0), a7 = 0x90000, sr = 0x2000, pc = 0x82ABC\<rparr>" "\<lambda>_. 0"]
  by simp

text \<open>The heap of kernel_main lies on slot 0: loading a program there whose first long word
  has a clear top bit (68000 code such as LINK or MOVEA, for instance) and is at least the heap size
  turns the first header into the program's code, and every later kmalloc answers NULL.\<close>

theorem slot0_load_breaks_heap:
  assumes "unat w < 2 ^ 31" and "0x8000 \<le> unat w + 4"
    and "k = (boot_heap m)\<lparr>hmem := wr32 (hmem (boot_heap m)) (Slots_BaseAddr 0) w\<rparr>"
  shows "heap_base k = Slots_BaseAddr 0 \<and> kmalloc k n = Some (0, k)"
proof -
  have b: "Slots_BaseAddr 0 = 0x92000" by (simp add: Slots_BaseAddr_def SLOT_BASE_def)
  have hb: "heap_base k = 0x92000" "heap_size k = 0x8000"
    using assms(3) by (simp_all add: boot_heap_def kmalloc_init_def)
  have rd: "rd32 (hmem k) 0x92000 = w" using assms(3) b by simp
  have h: "w = km_hdr w False"
    using not_bit31 [OF assms(1)]
    by (intro bit_word_eqI) (auto simp: km_hdr_def bit_KM_FREE_BIT bit_and_iff bit_or_iff bit_not_iff)
  have free: "\<not> KM_IS_FREE (hmem k) 0x92000" and sz: "KM_SIZE (hmem k) 0x92000 = w"
    using km_hdr_free [OF assms(1), of False] km_hdr_size [OF assms(1), of False]
    unfolding KM_IS_FREE_def KM_SIZE_def rd h [symmetric] by simp_all
  have "unat (0x92000 + (4 + w)) = 0x92000 + 4 + unat w"
    using assms(1) by (simp add: unat_word_ariths)
  then have "\<not> 0x92000 + (4 + w) < (0x9A000 :: addr)" using assms(2) by (simp add: word_less_nat_alt)
  then have "kmalloc_loop (hmem k) sz' (0x92000 + (4 + w)) 0x9A000 = Some (0, hmem k)" for sz'
    by (subst kmalloc_loop.simps) simp
  then have "kmalloc_loop (hmem k) sz' 0x92000 0x9A000 = Some (0, hmem k)" for sz'
    by (subst kmalloc_loop.simps) (simp add: free sz HDR_SIZE_def)
  then show ?thesis using hb b by (simp add: kmalloc_def)
qed

theorem slot0_load_breaks_heap_witness:
  "kmalloc ((boot_heap (\<lambda>_. 0))\<lparr>hmem := wr32 (hmem (boot_heap (\<lambda>_. 0))) (Slots_BaseAddr 0) 0x4E560000\<rparr>) 4
    = Some (0, (boot_heap (\<lambda>_. 0))\<lparr>hmem := wr32 (hmem (boot_heap (\<lambda>_. 0))) (Slots_BaseAddr 0) 0x4E560000\<rparr>)"
  using slot0_load_breaks_heap [of "0x4E560000" _ "\<lambda>_. 0" 4, OF _ _ refl] by simp

end
