(* ===== verification/Loader.thy ===== *)
theory Loader
  imports KMem KString Kernel
begin

text \<open>
  The loader of position independent programs, spawn/loader_pic_final.c: it takes a free slot, reads
  the ELF header and the program headers of an open file, copies the PT_LOAD segments into the slot,
  adds the base of the slot to every word of the GOT and to every word an R_68K_32 entry of
  .rela.data names, and creates the task.

  The file is an object of FatFs, which this development does not model: \<open>'f\<close> is the FIL together
  with its volume, \<open>fl_lseek\<close> and \<open>fl_read\<close> are f_lseek and f_read, and the bytes \<open>fl_read\<close> returns
  are the ones it has stored in the buffer, whose number it reports, with True for FR_OK. The memory
  the segments are copied to is \<open>smem\<close>, the memory of the task stacks. Local buffers are byte lists.
  The slot table and the task records are variables of the kernel, below the first slot, and are kept
  apart from memory: nothing here says what an image that leaves its slot would do to them, and the
  properties about them ask for an image that stays inside (\<open>image_fits\<close>).
  What kprintf writes on the console is not modelled; \<open>load_error\<close> has one value for each of the
  places that print a message and fail.
\<close>

subsection \<open>Data\<close>

record 'f fil_ops =
  fl_lseek :: "u32 \<Rightarrow> 'f \<Rightarrow> 'f"
  fl_read :: "u32 \<Rightarrow> 'f \<Rightarrow> bool \<times> u8 list \<times> 'f"

datatype load_error = No_free_slot | Header_unreadable | Header_invalid | Not_32bit_big_endian | Not_executable
  | Not_68k | Program_header_unreadable | Segment_unreadable | Got_not_found | Dynamically_linked
  | Needs_interpreter | Not_two_segments | Task_not_created

record elf32_header =
  e_entry :: u32
  e_phoff :: u32
  e_shoff :: u32
  e_phentsize :: u16
  e_phnum :: u16
  e_shentsize :: u16
  e_shnum :: u16
  e_shstrndx :: u16

record elf32_program_header =
  p_type :: u32
  p_offset :: u32
  p_paddr :: u32
  p_filesz :: u32
  p_memsz :: u32

record 'f load_state =
  lmem :: mem
  fd :: 'f
  pt_load_seen :: nat
  text_load_addr :: addr
  data_load_addr :: addr
  got_addr_saved :: u32
  got_size_saved :: u32

record 'f spawner =
  slot_in_use :: "u8 list"
  tasks :: sched
  elf :: 'f

definition PT_LOAD :: u32 where "PT_LOAD = 1"
definition PT_DYNAMIC :: u32 where "PT_DYNAMIC = 2"
definition PT_INTERP :: u32 where "PT_INTERP = 3"
definition PT_SHLIB :: u32 where "PT_SHLIB = 5"
definition ET_EXEC :: u16 where "ET_EXEC = 2"
definition EM_68K :: u16 where "EM_68K = 4"
definition ID_32BIT :: u8 where "ID_32BIT = 1"
definition ID_BIG_ENDIAN :: u8 where "ID_BIG_ENDIAN = 2"
definition TASK_STACK_SIZE :: u32 where "TASK_STACK_SIZE = 8192"

subsection \<open>Reading the file\<close>

text \<open>The expressions that put a big-endian number together from the bytes of a buffer.\<close>

definition be16 :: "u8 list \<Rightarrow> nat \<Rightarrow> u16" where
  "be16 b i = push_bit 8 (ucast (b ! i)) OR ucast (b ! (i + 1))"

definition be32 :: "u8 list \<Rightarrow> nat \<Rightarrow> u32" where
  "be32 b i = push_bit 24 (ucast (b ! i)) OR push_bit 16 (ucast (b ! (i + 1)))
     OR push_bit 8 (ucast (b ! (i + 2))) OR ucast (b ! (i + 3))"

text \<open>f_lseek and then f_read of exactly \<open>n\<close> bytes: None when it fails or reads fewer.\<close>

definition read_exactly :: "'f fil_ops \<Rightarrow> u32 \<Rightarrow> u32 \<Rightarrow> 'f \<Rightarrow> u8 list option \<times> 'f" where
  "read_exactly F ofs n f =
     (case fl_read F n (fl_lseek F ofs f) of
        (ok, bs, f) \<Rightarrow> (if ok \<and> length bs = unat n then Some bs else None, f))"

text \<open>f_lseek and then f_read of a section name, whose result is not looked at: the bytes it stored.\<close>

definition read_name :: "'f fil_ops \<Rightarrow> u32 \<Rightarrow> u32 \<Rightarrow> 'f \<Rightarrow> u8 list \<times> 'f" where
  "read_name F n ofs f = (case fl_read F n (fl_lseek F ofs f) of (_, bs, f) \<Rightarrow> (bs, f))"

text \<open>The local buffer \<open>name_buf\<close>, closed with a null byte, and a string literal, somewhere in memory.\<close>

definition name_mem :: "u8 list \<Rightarrow> u8 list \<Rightarrow> mem" where
  "name_mem name lit = wr_bytes (wr_bytes (\<lambda>_. 0) 0x1000 (name @ [0])) 0x2000 (lit @ [0])"

definition is_got_name :: "u8 list \<Rightarrow> bool" where
  "is_got_name name \<longleftrightarrow> strncmp (name_mem name [0x2E, 0x67, 0x6F, 0x74]) 0x1000 0x2000 4 = 0"

definition is_rela_data_name :: "u8 list \<Rightarrow> bool" where
  "is_rela_data_name name \<longleftrightarrow>
     strcmp (name_mem name [0x2E, 0x72, 0x65, 0x6C, 0x61, 0x2E, 0x64, 0x61, 0x74, 0x61]) 0x1000 0x2000 = Some 0"

subsection \<open>The GOT\<close>

text \<open>One turn of the loop over the sections: \<open>min_addr\<close>, \<open>max_end\<close> and \<open>found\<close>.\<close>

definition extend_hull :: "u8 list \<Rightarrow> u8 list \<Rightarrow> u32 \<times> u32 \<times> bool \<Rightarrow> u32 \<times> u32 \<times> bool" where
  "extend_hull name_buf hdr_buf acc =
     (if is_got_name name_buf
      then let (min_addr, max_end, found) = acc; addr = be32 hdr_buf 0x0C; size = be32 hdr_buf 0x14
           in (if addr < min_addr then addr else min_addr,
               if addr + size > max_end then addr + size else max_end, True)
      else acc)"

primrec got_scan :: "'f fil_ops \<Rightarrow> u32 \<Rightarrow> u16 \<Rightarrow> u32 \<Rightarrow> u32 \<times> u32 \<times> bool \<Rightarrow> u32 \<Rightarrow> 'f \<Rightarrow> nat
    \<Rightarrow> (u32 \<times> u32 \<times> bool) option \<times> 'f" where
  "got_scan F shoff shentsize strtab_offset acc i f 0 = (Some acc, f)"
| "got_scan F shoff shentsize strtab_offset acc i f (Suc n) =
     (case read_exactly F (i * ucast shentsize + shoff) 40 f of
        (None, f) \<Rightarrow> (None, f)
      | (Some hdr_buf, f) \<Rightarrow>
          (case read_name F 9 (strtab_offset + be32 hdr_buf 0) f of
             (name_buf, f) \<Rightarrow>
               got_scan F shoff shentsize strtab_offset (extend_hull name_buf hdr_buf acc) (i + 1) f n))"

definition find_got_section :: "'f fil_ops \<Rightarrow> u32 \<Rightarrow> u16 \<Rightarrow> u16 \<Rightarrow> u16 \<Rightarrow> 'f \<Rightarrow> (u32 \<times> u32) option \<times> 'f" where
  "find_got_section F shoff shnum shentsize shstrndx f =
     (case read_exactly F (ucast shstrndx * ucast shentsize + shoff) 40 f of
        (None, f) \<Rightarrow> (None, f)
      | (Some hdr_buf, f) \<Rightarrow>
          (case got_scan F shoff shentsize (be32 hdr_buf 0x10) (0xFFFFFFFF, 0, False) 0 f (unat shnum) of
             (None, f) \<Rightarrow> (None, f)
           | (Some (min_addr, max_end, found), f) \<Rightarrow>
               (if found then Some (min_addr, max_end - min_addr) else None, f)))"

text \<open>\<open>got[w] += task_base\<close> for the words of the table.\<close>

primrec patch_got :: "mem \<Rightarrow> u32 \<Rightarrow> addr \<Rightarrow> nat \<Rightarrow> mem" where
  "patch_got m task_base got 0 = m"
| "patch_got m task_base got (Suc n) = patch_got (wr32 m got (rd32 m got + task_base)) task_base (got + 4) n"

subsection \<open>Relocations\<close>

definition apply_rela :: "u32 \<Rightarrow> mem \<Rightarrow> u8 list \<Rightarrow> mem" where
  "apply_rela task_base m rela_buf =
     (let r_offset = be32 rela_buf 0; r_type = be32 rela_buf 4 AND 0xFF; patch_addr = task_base + r_offset
      in if r_type \<noteq> 1 then m else wr32 m patch_addr (rd32 m patch_addr + task_base))"

primrec rela_loop :: "'f fil_ops \<Rightarrow> u32 \<Rightarrow> u32 \<Rightarrow> u32 \<Rightarrow> mem \<Rightarrow> 'f \<Rightarrow> nat \<Rightarrow> mem \<times> 'f" where
  "rela_loop F task_base rela_offset r m f 0 = (m, f)"
| "rela_loop F task_base rela_offset r m f (Suc n) =
     (case read_exactly F (rela_offset + r * 12) 12 f of
        (None, f) \<Rightarrow> rela_loop F task_base rela_offset (r + 1) m f n
      | (Some rela_buf, f) \<Rightarrow> rela_loop F task_base rela_offset (r + 1) (apply_rela task_base m rela_buf) f n)"

text \<open>The loop over the sections returns after the first section named .rela.data.\<close>

primrec rela_scan :: "'f fil_ops \<Rightarrow> u32 \<Rightarrow> u16 \<Rightarrow> u32 \<Rightarrow> u32 \<Rightarrow> u32 \<Rightarrow> mem \<Rightarrow> 'f \<Rightarrow> nat \<Rightarrow> mem \<times> 'f" where
  "rela_scan F shoff shentsize strtab_offset task_base i m f 0 = (m, f)"
| "rela_scan F shoff shentsize strtab_offset task_base i m f (Suc n) =
     (case read_exactly F (i * ucast shentsize + shoff) 40 f of
        (None, f) \<Rightarrow> rela_scan F shoff shentsize strtab_offset task_base (i + 1) m f n
      | (Some hdr_buf, f) \<Rightarrow>
          (case read_name F 15 (strtab_offset + be32 hdr_buf 0) f of
             (name_buf, f) \<Rightarrow>
               if \<not> is_rela_data_name name_buf
               then rela_scan F shoff shentsize strtab_offset task_base (i + 1) m f n
               else rela_loop F task_base (be32 hdr_buf 0x10) 0 m f (unat (be32 hdr_buf 0x14 div 12))))"

definition apply_data_relocations :: "'f fil_ops \<Rightarrow> u32 \<Rightarrow> u16 \<Rightarrow> u16 \<Rightarrow> u16 \<Rightarrow> u32 \<Rightarrow> mem \<Rightarrow> 'f \<Rightarrow> mem \<times> 'f" where
  "apply_data_relocations F shoff shnum shentsize shstrndx task_base m f =
     (case read_exactly F (ucast shstrndx * ucast shentsize + shoff) 40 f of
        (None, f) \<Rightarrow> (m, f)
      | (Some hdr_buf, f) \<Rightarrow>
          rela_scan F shoff shentsize (be32 hdr_buf 0x10) task_base 0 m f (unat shnum))"

subsection \<open>Segments\<close>

definition parse_program_header :: "u8 list \<Rightarrow> elf32_program_header" where
  "parse_program_header b = \<lparr>p_type = be32 b 0, p_offset = be32 b 4, p_paddr = be32 b 12,
     p_filesz = be32 b 16, p_memsz = be32 b 20\<rparr>"

text \<open>The first two PT_LOAD segments are text and data; the data segment brings the GOT with it.\<close>

definition finish_segment :: "'f fil_ops \<Rightarrow> elf32_header \<Rightarrow> u32 \<Rightarrow> addr \<Rightarrow> 'f load_state
    \<Rightarrow> load_error option \<times> 'f load_state" where
  "finish_segment F h task_base actual_addr s =
     (if pt_load_seen s = 0 then (None, s\<lparr>text_load_addr := actual_addr, pt_load_seen := 1\<rparr>)
      else if pt_load_seen s = 1 then
        (case find_got_section F (e_shoff h) (e_shnum h) (e_shentsize h) (e_shstrndx h) (fd s) of
           (None, f) \<Rightarrow> (Some Got_not_found, s\<lparr>data_load_addr := actual_addr, fd := f\<rparr>)
         | (Some (got_addr, got_size), f) \<Rightarrow>
             (case apply_data_relocations F (e_shoff h) (e_shnum h) (e_shentsize h) (e_shstrndx h) task_base
                     (patch_got (lmem s) task_base (task_base + got_addr) (unat (got_size div 4))) f of
                (m, f) \<Rightarrow> (None, s\<lparr>lmem := m, fd := f, pt_load_seen := 2, data_load_addr := actual_addr,
                    got_addr_saved := got_addr, got_size_saved := got_size\<rparr>)))
      else (None, s\<lparr>pt_load_seen := pt_load_seen s + 1\<rparr>))"

definition load_segment :: "'f fil_ops \<Rightarrow> elf32_header \<Rightarrow> u32 \<Rightarrow> elf32_program_header \<Rightarrow> 'f load_state
    \<Rightarrow> load_error option \<times> 'f load_state" where
  "load_segment F h task_base ph s =
     (if p_type ph = PT_LOAD then
        (let actual_addr = task_base + p_paddr ph in
         case fl_read F (p_filesz ph) (fl_lseek F (p_offset ph) (fd s)) of
           (ok, bs, f) \<Rightarrow>
             let m = wr_bytes (lmem s) actual_addr bs in
             if \<not> ok \<or> length bs \<noteq> unat (p_filesz ph) then (Some Segment_unreadable, s\<lparr>lmem := m, fd := f\<rparr>)
             else let m = (if p_memsz ph > p_filesz ph
                           then memset m (actual_addr + p_filesz ph) 0 (p_memsz ph - p_filesz ph) else m)
                  in finish_segment F h task_base actual_addr (s\<lparr>lmem := m, fd := f\<rparr>))
      else if p_type ph = PT_DYNAMIC \<or> p_type ph = PT_SHLIB then (Some Dynamically_linked, s)
      else if p_type ph = PT_INTERP then (Some Needs_interpreter, s)
      else (None, s))"

primrec load_segments :: "'f fil_ops \<Rightarrow> elf32_header \<Rightarrow> u32 \<Rightarrow> u32 \<Rightarrow> 'f load_state \<Rightarrow> nat
    \<Rightarrow> load_error option \<times> 'f load_state" where
  "load_segments F h task_base progIndex s 0 = (None, s)"
| "load_segments F h task_base progIndex s (Suc n) =
     (case read_exactly F (progIndex * ucast (e_phentsize h) + e_phoff h) 32 (fd s) of
        (None, f) \<Rightarrow> (Some Program_header_unreadable, s\<lparr>fd := f\<rparr>)
      | (Some ph, f) \<Rightarrow>
          (case load_segment F h task_base (parse_program_header ph) (s\<lparr>fd := f\<rparr>) of
             (Some e, s) \<Rightarrow> (Some e, s)
           | (None, s) \<Rightarrow> load_segments F h task_base (progIndex + 1) s n))"

subsection \<open>The loader\<close>

definition parse_header :: "u8 list \<Rightarrow> elf32_header" where
  "parse_header b = \<lparr>e_entry = be32 b 0x18, e_phoff = be32 b 0x1C, e_shoff = be32 b 0x20, e_phentsize = be16 b 0x2A,
     e_phnum = be16 b 0x2C, e_shentsize = be16 b 0x2E, e_shnum = be16 b 0x30, e_shstrndx = be16 b 0x32\<rparr>"

definition check_header :: "u8 list \<Rightarrow> load_error option" where
  "check_header b =
     (if b ! 0 \<noteq> 0x7F \<or> b ! 1 \<noteq> 0x45 \<or> b ! 2 \<noteq> 0x4C \<or> b ! 3 \<noteq> 0x46 \<or> b ! 6 \<noteq> 1 then Some Header_invalid
      else if b ! 4 \<noteq> ID_32BIT \<or> b ! 5 \<noteq> ID_BIG_ENDIAN then Some Not_32bit_big_endian
      else if be16 b 0x10 \<noteq> ET_EXEC then Some Not_executable
      else if be16 b 0x12 \<noteq> EM_68K then Some Not_68k
      else None)"

text \<open>Everything from the header to the check of the two segments.\<close>

definition load_image :: "'f fil_ops \<Rightarrow> u32 \<Rightarrow> mem \<Rightarrow> 'f \<Rightarrow> (load_error + elf32_header) \<times> 'f load_state" where
  "load_image F task_base m f =
     (let s = \<lparr>lmem = m, fd = f, pt_load_seen = 0, text_load_addr = 0, data_load_addr = 0,
               got_addr_saved = 0, got_size_saved = 0\<rparr>
      in case read_exactly F 0 52 f of
           (None, f) \<Rightarrow> (Inl Header_unreadable, s\<lparr>fd := f\<rparr>)
         | (Some header_buf, f) \<Rightarrow>
             (case check_header header_buf of
                Some e \<Rightarrow> (Inl e, s\<lparr>fd := f\<rparr>)
              | None \<Rightarrow>
                  (let h = parse_header header_buf in
                   case load_segments F h task_base 0 (s\<lparr>fd := f\<rparr>) (unat (e_phnum h)) of
                     (Some e, s) \<Rightarrow> (Inl e, s)
                   | (None, s) \<Rightarrow> (if pt_load_seen s \<noteq> 2 then Inl Not_two_segments else Inr h, s))))"

text \<open>None for the value 0, \<open>Some e\<close> for -1 after the message of \<open>e\<close>; the outer option is the one of
  \<open>OS_TaskCreatePIC\<close>.\<close>

definition load_pic_elf_standalone :: "'f fil_ops \<Rightarrow> 'f spawner \<Rightarrow> (load_error option \<times> 'f spawner) option" where
  "load_pic_elf_standalone F k =
     (case Slots_Alloc (slot_in_use k) of
        (slot_index, us) \<Rightarrow>
          if slot_index < 0 then Some (Some No_free_slot, k)
          else
            let task_base = Slots_BaseAddr slot_index in
            (case load_image F task_base (smem (tasks k)) (elf k) of
               (r, ls) \<Rightarrow>
                 let k = k\<lparr>slot_in_use := us, tasks := (tasks k)\<lparr>smem := lmem ls\<rparr>, elf := fd ls\<rparr>;
                     fail = (\<lambda>e. (Some e, k\<lparr>slot_in_use := Slots_Free us slot_index\<rparr>))
                 in (case r of
                       Inl e \<Rightarrow> Some (fail e)
                     | Inr h \<Rightarrow>
                         map_option (\<lambda>(tcb, s). if tcb = None then fail Task_not_created else (None, k\<lparr>tasks := s\<rparr>))
                           (OS_TaskCreatePIC (tasks k) (task_base + e_entry h) 0
                              (task_base + SLOT_SIZE - TASK_STACK_SIZE) TASK_STACK_SIZE
                              (word_of_int slot_index) (task_base + got_addr_saved ls)))))"

subsection \<open>Reading a file\<close>

text \<open>
  What f_lseek and f_read do with a file whose bytes are \<open>img\<close>, on the good FIL objects: f_read
  stores a prefix of the bytes that are there, all it was asked for up to the end of the file when
  it answers FR_OK, and leaves a good object. \<open>clean_file\<close>: and it always answers FR_OK.
\<close>

definition bytes_at :: "u8 list \<Rightarrow> u32 \<Rightarrow> u32 \<Rightarrow> u8 list" where
  "bytes_at img ofs n = take (unat n) (drop (unat ofs) img)"

definition file_of :: "'f fil_ops \<Rightarrow> u8 list \<Rightarrow> ('f \<Rightarrow> bool) \<Rightarrow> bool" where
  "file_of F img good \<longleftrightarrow> (\<forall>f ofs n ok bs f'. good f \<longrightarrow> fl_read F n (fl_lseek F ofs f) = (ok, bs, f') \<longrightarrow>
     good f' \<and> (\<exists>k. bs = take k (bytes_at img ofs n)) \<and> (ok \<longrightarrow> bs = bytes_at img ofs n))"

definition clean_file :: "'f fil_ops \<Rightarrow> u8 list \<Rightarrow> ('f \<Rightarrow> bool) \<Rightarrow> bool" where
  "clean_file F img good \<longleftrightarrow> (\<forall>f ofs n. good f \<longrightarrow>
     (\<exists>f'. good f' \<and> fl_read F n (fl_lseek F ofs f) = (True, bytes_at img ofs n, f')))"

lemma clean_is_file: "clean_file F img good \<Longrightarrow> file_of F img good"
  unfolding clean_file_def file_of_def by (metis Pair_inject take_all_iff order_refl)

lemma read_exactly_file:
  assumes "file_of F img good" and "good f" and "read_exactly F ofs n f = (r, f')"
  shows "good f'" "r = Some bs \<Longrightarrow> bs = bytes_at img ofs n \<and> length bs = unat n"
  using assms unfolding file_of_def read_exactly_def by (force split: prod.splits if_splits)+

lemma read_name_file:
  assumes "file_of F img good" and "good f" and "read_name F n ofs f = (bs, f')"
  shows "good f'" "\<exists>k. bs = take k (bytes_at img ofs n)"
  using assms unfolding file_of_def read_name_def by (force split: prod.splits)+

lemma read_exactly_clean:
  assumes "clean_file F img good" and "good f"
  shows "\<exists>f'. good f' \<and> read_exactly F ofs n f =
    (if unat ofs + unat n \<le> length img \<or> n = 0 then Some (bytes_at img ofs n) else None, f')"
proof -
  obtain f' where f': "good f'" "fl_read F n (fl_lseek F ofs f) = (True, bytes_at img ofs n, f')"
    using assms unfolding clean_file_def by blast
  have "length (bytes_at img ofs n) = unat n \<longleftrightarrow> unat ofs + unat n \<le> length img \<or> n = 0"
    using unat_gt_0 [of n] by (auto simp: bytes_at_def min_def)
  then show ?thesis using f' by (auto simp: read_exactly_def)
qed

lemma read_name_clean:
  assumes "clean_file F img good" and "good f"
  shows "\<exists>f'. good f' \<and> read_name F n ofs f = (bytes_at img ofs n, f')"
proof -
  obtain f' where "good f'" "fl_read F n (fl_lseek F ofs f) = (True, bytes_at img ofs n, f')"
    using assms unfolding clean_file_def by blast
  then show ?thesis by (simp add: read_name_def)
qed

subsection \<open>Section names\<close>

lemma rd_bytes_cstr:
  "rd_bytes m a (Suc (length s)) = s @ [0] \<Longrightarrow> cstr m a (takeWhile (\<lambda>c. c \<noteq> 0) s)"
proof (induction s arbitrary: a)
  case (Cons c s)
  then have "m a = c" "rd_bytes m (a + 1) (Suc (length s)) = s @ [0]"
    by (simp_all add: rd_bytes_Suc [of _ _ "Suc _"])
  then show ?case using Cons.IH by simp
qed (simp add: rd_bytes_Suc)

lemma strncmp_loop_prefix:
  "0 \<notin> set t \<Longrightarrow> rd_bytes m b (length t) = t \<Longrightarrow>
     strncmp_loop m a b (length t) = 0 \<longleftrightarrow> rd_bytes m a (length t) = t"
proof (induction t arbitrary: a b)
  case (Cons c t)
  then have "m b = c" "c \<noteq> 0" "rd_bytes m (b + 1) (length t) = t" "0 \<notin> set t" by (auto simp: rd_bytes_Suc)
  then show ?case using Cons.IH [of "b + 1" "a + 1"] by (auto simp: rd_bytes_Suc dest: signed_word_eqI)
qed simp

lemma name_mem_bytes:
  assumes "length name < 16" and "length lit < 16"
  shows "rd_bytes (name_mem name lit) 0x1000 (Suc (length name)) = name @ [0]"
    "rd_bytes (name_mem name lit) 0x2000 (Suc (length lit)) = lit @ [0]"
proof -
  let ?m = "wr_bytes (\<lambda>_. 0) 0x1000 (name @ [0])"
  have "rd_bytes (name_mem name lit) 0x1000 (Suc (length name)) = rd_bytes ?m 0x1000 (length (name @ [0]))"
  proof (rule nth_equalityI, goal_cases)
    case (2 i)
    then have i: "i < 16" using assms by simp
    then have "unat (0x1000 + word_of_nat i :: addr) = 0x1000 + i" using unat_plus_small [of "0x1000" i] by simp
    then have "length (lit @ [0]) \<le> unat (0x1000 + word_of_nat i - 0x2000 :: addr)"
      using i assms(2) by (intro unat_diff_ge) simp_all
    then show ?case using 2 by (simp add: name_mem_def wr_bytes_other)
  qed simp
  then show "rd_bytes (name_mem name lit) 0x1000 (Suc (length name)) = name @ [0]"
    using rd_wr_bytes [of "name @ [0]" "\<lambda>_. 0" "0x1000"] assms(1) by simp
  show "rd_bytes (name_mem name lit) 0x2000 (Suc (length lit)) = lit @ [0]"
    using rd_wr_bytes [of "lit @ [0]" ?m "0x2000"] assms(2) by (simp add: name_mem_def)
qed

lemma take_rd_bytes: "k \<le> n \<Longrightarrow> take k (rd_bytes m a n) = rd_bytes m a k"
  by (simp add: rd_bytes_def take_map)

definition got_prefix :: "u8 list" where "got_prefix = [0x2E, 0x67, 0x6F, 0x74]"

definition rela_data :: "u8 list" where
  "rela_data = [0x2E, 0x72, 0x65, 0x6C, 0x61, 0x2E, 0x64, 0x61, 0x74, 0x61]"

lemma is_got_name_iff:
  assumes "length name < 16"
  shows "is_got_name name \<longleftrightarrow> take 4 name = got_prefix"
proof -
  let ?m = "name_mem name got_prefix"
  have l: "length got_prefix = 4" "0 \<notin> set got_prefix" by (simp_all add: got_prefix_def)
  note B = name_mem_bytes [OF assms, of got_prefix, unfolded l(1)]
  have "rd_bytes ?m 0x2000 4 = got_prefix"
    using B(2) take_rd_bytes [of 4 5 ?m "0x2000"] l(1) by simp
  then have "is_got_name name \<longleftrightarrow> rd_bytes ?m 0x1000 4 = got_prefix"
    using strncmp_loop_prefix [OF l(2), unfolded l(1)]
    by (simp add: is_got_name_def strncmp_def got_prefix_def [symmetric] del: strncmp_loop.simps)
  also have "\<dots> \<longleftrightarrow> take 4 name = got_prefix"
  proof (cases "4 \<le> length name")
    case True
    then show ?thesis using B(1) take_rd_bytes [of 4 "Suc (length name)" ?m "0x1000"] by simp
  next
    case False
    then have "rd_bytes ?m 0x1000 4 ! length name = 0"
      using arg_cong [OF B(1), of "\<lambda>x. x ! length name"] by (simp add: nth_append)
    moreover have "got_prefix ! length name \<in> set got_prefix" using False l by (intro nth_mem) simp
    ultimately have "rd_bytes ?m 0x1000 4 \<noteq> got_prefix" using l(2) by metis
    moreover have "length (take 4 name) \<noteq> length got_prefix" using False l by simp
    then have "take 4 name \<noteq> got_prefix" by (rule contrapos_nn) (simp only:)
    ultimately show ?thesis by simp
  qed
  finally show ?thesis .
qed

lemma is_rela_data_name_iff:
  assumes "length name < 16"
  shows "is_rela_data_name name \<longleftrightarrow> takeWhile (\<lambda>c. c \<noteq> 0) name = rela_data"
proof -
  let ?m = "name_mem name rela_data"
  have l: "length rela_data < 16" "takeWhile (\<lambda>c. c \<noteq> 0) rela_data = rela_data" by (simp_all add: rela_data_def)
  have "cstr ?m 0x2000 rela_data" using rd_bytes_cstr [OF name_mem_bytes(2) [OF assms l(1)]] l(2) by simp
  with rd_bytes_cstr [OF name_mem_bytes(1) [OF assms l(1)]]
  obtain r where "strcmp ?m 0x1000 0x2000 = Some r" "r = 0 \<longleftrightarrow> takeWhile (\<lambda>c. c \<noteq> 0) name = rela_data"
    using strcmp_cstr by blast
  then show ?thesis by (simp add: is_rela_data_name_def rela_data_def)
qed

subsection \<open>Patching words\<close>

lemma wr32_outside: "4 \<le> n \<Longrightarrow> same_outside a n m (wr32 m a v)"
  by (simp add: same_outside_def wr32_other)

lemma patch_got_outside: "same_outside got (4 * n) m (patch_got m task_base got n)"
proof (induction n arbitrary: m got)
  case (Suc n)
  let ?m = "wr32 m got (rd32 m got + task_base)"
  have "same_outside got (4 * Suc n) ?m (patch_got ?m task_base (got + 4) n)"
    using Suc [of "got + 4" ?m] by (intro same_outside_mono [of got 4 "4 * n"]) simp_all
  then show ?case using same_outside_trans [OF wr32_outside] by simp
qed simp

lemma rd32_at:
  assumes "\<And>j. j < 4 \<Longrightarrow> m (a + word_of_nat j) = m' (a + word_of_nat j)"
  shows "rd32 m a = rd32 m' a"
  using assms [of 0] assms [of 1] assms [of 2] assms [of 3] by (intro rd32_cong) simp_all

lemma patch_got_word:
  "i < n \<Longrightarrow> 4 * n \<le> 2 ^ 32 \<Longrightarrow>
     rd32 (patch_got m task_base got n) (got + word_of_nat (4 * i)) = rd32 m (got + word_of_nat (4 * i)) + task_base"
proof (induction n arbitrary: i m got)
  case (Suc n)
  let ?m = "wr32 m got (rd32 m got + task_base)"
  show ?case
  proof (cases i)
    case 0
    have "rd32 (patch_got ?m task_base (got + 4) n) got = rd32 ?m got"
    proof (rule rd32_at)
      fix j :: nat assume "j < 4"
      have "unat (word_of_nat j - 4 :: u32) = 2 ^ 32 + j - 4"
        using \<open>j < 4\<close> by (simp add: unat_sub_if' word_le_nat_alt unat_of_nat)
      then have "4 * n \<le> unat (got + word_of_nat j - (got + 4))" using Suc.prems(2) \<open>j < 4\<close> by simp
      then show "patch_got ?m task_base (got + 4) n (got + word_of_nat j) = ?m (got + word_of_nat j)"
        using patch_got_outside [of "got + 4" n ?m task_base] by (simp add: same_outside_def)
    qed
    then show ?thesis using 0 by simp
  next
    case (Suc k)
    have a: "got + word_of_nat (4 * i) = got + 4 + word_of_nat (4 * k)" using Suc by simp
    have "rd32 ?m (got + word_of_nat (4 * i)) = rd32 m (got + word_of_nat (4 * i))"
    proof (rule rd32_at)
      fix j :: nat assume "j < 4"
      have "4 * i + j < 2 ^ 32" using Suc.prems \<open>j < 4\<close> by simp
      then have "unat (word_of_nat (4 * i + j) :: u32) = 4 * i + j" by (rule unat_of_nat32)
      moreover have "got + word_of_nat (4 * i) + word_of_nat j - got = word_of_nat (4 * i + j)" by simp
      ultimately have "4 \<le> unat (got + word_of_nat (4 * i) + word_of_nat j - got)" using Suc by (simp only:) simp
      then show "?m (got + word_of_nat (4 * i) + word_of_nat j) = m (got + word_of_nat (4 * i) + word_of_nat j)"
        by (rule wr32_other)
    qed
    then show ?thesis using Suc.IH [of k ?m "got + 4"] Suc Suc.prems by (simp only: a patch_got.simps) (simp add: add.assoc)
  qed
qed simp

subsection \<open>What a file says\<close>

definition program_header_at :: "u8 list \<Rightarrow> elf32_header \<Rightarrow> nat \<Rightarrow> elf32_program_header" where
  "program_header_at img h i = parse_program_header (bytes_at img (word_of_nat i * ucast (e_phentsize h) + e_phoff h) 32)"

definition section_at :: "u8 list \<Rightarrow> elf32_header \<Rightarrow> nat \<Rightarrow> u8 list" where
  "section_at img h i = bytes_at img (word_of_nat i * ucast (e_shentsize h) + e_shoff h) 40"

definition strtab_of :: "u8 list \<Rightarrow> elf32_header \<Rightarrow> u32" where
  "strtab_of img h = be32 (bytes_at img (ucast (e_shstrndx h) * ucast (e_shentsize h) + e_shoff h) 40) 0x10"

definition name_at :: "u8 list \<Rightarrow> elf32_header \<Rightarrow> u32 \<Rightarrow> nat \<Rightarrow> u8 list" where
  "name_at img h k i = bytes_at img (strtab_of img h + be32 (section_at img h i) 0) k"

definition rela_at :: "u8 list \<Rightarrow> u8 list \<Rightarrow> nat \<Rightarrow> u8 list" where
  "rela_at img sec r = bytes_at img (be32 sec 0x10 + word_of_nat r * 12) 12"

text \<open>Everything the loader writes for this file lies in the first \<open>N\<close> bytes of the slot.\<close>

definition got_fits :: "u8 list \<Rightarrow> elf32_header \<Rightarrow> nat \<Rightarrow> bool" where
  "got_fits img h N \<longleftrightarrow>
     list_all (\<lambda>i. unat (be32 (section_at img h i) 0x0C) + unat (be32 (section_at img h i) 0x14) \<le> N)
       (filter (\<lambda>i. take 4 (name_at img h 9 i) = got_prefix) [0..<unat (e_shnum h)])"

definition relas_fit :: "u8 list \<Rightarrow> elf32_header \<Rightarrow> nat \<Rightarrow> bool" where
  "relas_fit img h N \<longleftrightarrow>
     list_all (\<lambda>i. list_all (\<lambda>r. unat (be32 (rela_at img (section_at img h i) r) 0) + 4 \<le> N)
         (filter (\<lambda>r. be32 (rela_at img (section_at img h i) r) 4 AND 0xFF = 1)
            [0..<unat (be32 (section_at img h i) 0x14 div 12)]))
       (filter (\<lambda>i. take 10 (name_at img h 15 i) = rela_data) [0..<unat (e_shnum h)])"

definition segments_fit :: "u8 list \<Rightarrow> elf32_header \<Rightarrow> nat \<Rightarrow> bool" where
  "segments_fit img h N \<longleftrightarrow>
     list_all (\<lambda>p. unat (p_paddr p) + max (unat (p_filesz p)) (unat (p_memsz p)) \<le> N)
       (filter (\<lambda>p. p_type p = PT_LOAD) (map (program_header_at img h) [0..<unat (e_phnum h)]))"

definition image_fits :: "u8 list \<Rightarrow> nat \<Rightarrow> bool" where
  "image_fits img N \<longleftrightarrow> (let h = parse_header (bytes_at img 0 52)
     in segments_fit img h N \<and> got_fits img h N \<and> relas_fit img h N)"

lemma word_of_nat_Suc: "(word_of_nat i :: u32) + 1 = word_of_nat (Suc i)"
  by simp

lemma take_prefix:
  assumes "take n (take k xs) = ys" and "length ys = n"
  shows "take n xs = ys"
proof -
  have "length (take n (take k xs)) = n" using assms by simp
  then have "n \<le> k" by simp
  then show ?thesis using assms(1) by (simp add: min_def)
qed

lemma bytes_at_length: "length (bytes_at img ofs n) \<le> unat n"
  by (simp add: bytes_at_def)

subsection \<open>The loader stays in the slot\<close>

lemma same_outside_in:
  assumes "same_outside (base + p) n m m'" and "unat (p :: u32) + n \<le> N"
  shows "same_outside base N m m'"
  using same_outside_mono [of base "unat p" n m m' N] assms by simp

definition hull_ok :: "nat \<Rightarrow> u32 \<times> u32 \<times> bool \<Rightarrow> bool" where
  "hull_ok N acc = (case acc of (mn, mx, found) \<Rightarrow> unat mx \<le> N \<and> (found \<longrightarrow> mn \<le> mx))"

lemma hull_ok_extend:
  assumes "hull_ok N acc" and "N < 2 ^ 32"
    and "is_got_name nm \<Longrightarrow> unat (be32 b 0x0C) + unat (be32 b 0x14) \<le> N"
  shows "hull_ok N (extend_hull nm b acc)"
proof (cases "is_got_name nm")
  case True
  then have "unat (be32 b 0x0C + be32 b 0x14) = unat (be32 b 0x0C) + unat (be32 b 0x14)"
    using assms(2,3) unat_plus_small [of "be32 b 0x0C" "unat (be32 b 0x14)"] by simp
  then show ?thesis using assms True
    by (cases acc) (auto simp: hull_ok_def extend_hull_def Let_def word_less_nat_alt word_le_nat_alt split: if_splits)
qed (use assms(1) in \<open>simp add: extend_hull_def\<close>)

lemma got_name_prefix:
  assumes "is_got_name (take k (bytes_at img ofs 9))"
  shows "take 4 (bytes_at img ofs 9) = got_prefix"
proof -
  have "length (take k (bytes_at img ofs 9)) < 16" using bytes_at_length [of img ofs 9] by simp
  from is_got_name_iff [OF this] assms have "take 4 (take k (bytes_at img ofs 9)) = got_prefix" by blast
  then show ?thesis by (rule take_prefix) (simp add: got_prefix_def)
qed

lemma got_scan_fits:
  assumes of: "file_of F img good" and fits: "got_fits img h N" and N: "N < 2 ^ 32"
  shows "good f \<Longrightarrow> i + n \<le> unat (e_shnum h) \<Longrightarrow> hull_ok N acc \<Longrightarrow>
    got_scan F (e_shoff h) (e_shentsize h) (strtab_of img h) acc (word_of_nat i) f n = (r, f') \<Longrightarrow>
    good f' \<and> (\<forall>acc'. r = Some acc' \<longrightarrow> hull_ok N acc')"
proof (induction n arbitrary: i f acc)
  case (Suc n)
  obtain r1 f1 where h: "read_exactly F (word_of_nat i * ucast (e_shentsize h) + e_shoff h) 40 f = (r1, f1)" by fastforce
  note H = read_exactly_file [OF of Suc.prems(1) h]
  show ?case
  proof (cases r1)
    case None
    then show ?thesis using Suc.prems(4) h H(1) by simp
  next
    case (Some b)
    then have b: "b = section_at img h i" using H(2) by (simp add: section_at_def)
    obtain nm f2 where n: "read_name F 9 (strtab_of img h + be32 b 0) f1 = (nm, f2)" by fastforce
    obtain k where k: "nm = take k (name_at img h 9 i)"
      using read_name_file(2) [OF of H(1) n] b by (auto simp: name_at_def)
    have "hull_ok N (extend_hull nm b acc)"
    proof (rule hull_ok_extend [OF Suc.prems(3) N])
      assume "is_got_name nm"
      then have "take 4 (name_at img h 9 i) = got_prefix" unfolding k name_at_def by (rule got_name_prefix)
      then show "unat (be32 b 0x0C) + unat (be32 b 0x14) \<le> N"
        using fits Suc.prems(2) b by (simp add: got_fits_def list_all_iff)
    qed
    moreover have "got_scan F (e_shoff h) (e_shentsize h) (strtab_of img h) (extend_hull nm b acc)
        (word_of_nat (Suc i)) f2 n = (r, f')"
      using Suc.prems(4) h Some n by (simp add: add.commute)
    ultimately show ?thesis
      using Suc.IH [of f2 "Suc i" "extend_hull nm b acc"] read_name_file(1) [OF of H(1) n] Suc.prems(2) by simp
  qed
qed auto

lemma find_got_section_fits:
  assumes of: "file_of F img good" and "got_fits img h N" and N: "N < 2 ^ 32" and g: "good f"
    and run: "find_got_section F (e_shoff h) (e_shnum h) (e_shentsize h) (e_shstrndx h) f = (r, f')"
  shows "good f' \<and> (\<forall>ga gs. r = Some (ga, gs) \<longrightarrow> unat ga + unat gs \<le> N)"
proof -
  obtain r1 f1 where h: "read_exactly F (ucast (e_shstrndx h) * ucast (e_shentsize h) + e_shoff h) 40 f = (r1, f1)"
    by fastforce
  note H = read_exactly_file [OF of g h]
  show ?thesis
  proof (cases r1)
    case None
    then show ?thesis using run h H(1) by (simp add: find_got_section_def)
  next
    case (Some b)
    then have b: "be32 b 0x10 = strtab_of img h" using H(2) by (simp add: strtab_of_def)
    obtain r2 f2 where s: "got_scan F (e_shoff h) (e_shentsize h) (strtab_of img h) (0xFFFFFFFF, 0, False)
        (word_of_nat 0) f1 (unat (e_shnum h)) = (r2, f2)" by fastforce
    have "hull_ok N (0xFFFFFFFF, 0, False)" by (simp add: hull_ok_def)
    note S = got_scan_fits [OF assms(1-3) H(1) _ this s]
    have r: "(r, f') = (case r2 of None \<Rightarrow> (None, f2) | Some (mn, mx, found) \<Rightarrow> (if found then Some (mn, mx - mn) else None, f2))"
      using run h Some b s by (simp add: find_got_section_def split: option.splits)
    show ?thesis
    proof (cases r2)
      case None
      then show ?thesis using r S by simp
    next
      case (Some acc)
      then obtain mn mx found where acc: "r2 = Some (mn, mx, found)" by (cases acc) simp
      then have "hull_ok N (mn, mx, found)" using S by simp
      moreover have "mn \<le> mx \<Longrightarrow> unat mn + unat (mx - mn) = unat mx" by (simp add: unat_sub word_le_nat_alt)
      ultimately show ?thesis using r S acc by (auto simp: hull_ok_def split: if_splits)
    qed
  qed
qed

lemma apply_rela_outside:
  assumes "be32 b 4 AND 0xFF = 1 \<Longrightarrow> unat (be32 b 0) + 4 \<le> N"
  shows "same_outside base N m (apply_rela base m b)"
  using assms same_outside_in [OF wr32_outside [of 4 "base + be32 b 0" m]]
  by (auto simp: apply_rela_def Let_def)

lemma rela_loop_outside:
  assumes of: "file_of F img good"
    and fits: "\<forall>r < k. be32 (rela_at img sec r) 4 AND 0xFF = 1 \<longrightarrow> unat (be32 (rela_at img sec r) 0) + 4 \<le> N"
  shows "good f \<Longrightarrow> i + n \<le> k \<Longrightarrow> rela_loop F base (be32 sec 0x10) (word_of_nat i) m f n = (m', f') \<Longrightarrow>
    good f' \<and> same_outside base N m m'"
proof (induction n arbitrary: i m f)
  case (Suc n)
  obtain r1 f1 where h: "read_exactly F (be32 sec 0x10 + word_of_nat i * 12) 12 f = (r1, f1)" by fastforce
  note H = read_exactly_file [OF of Suc.prems(1) h]
  show ?case
  proof (cases r1)
    case None
    then show ?thesis using Suc.IH [of f1 "Suc i" m] Suc.prems h H(1) by (simp add: add.commute)
  next
    case (Some b)
    then have b: "b = rela_at img sec i" using H(2) by (simp add: rela_at_def)
    have "same_outside base N m (apply_rela base m b)"
      using fits Suc.prems(2) b by (intro apply_rela_outside) simp
    then show ?thesis
      using Suc.IH [of f1 "Suc i" "apply_rela base m b"] Suc.prems h H(1) Some same_outside_trans
      by (auto simp: add.commute)
  qed
qed simp

lemma rela_name_prefix:
  assumes "is_rela_data_name (take k (bytes_at img ofs 15))"
  shows "take 10 (bytes_at img ofs 15) = rela_data"
proof -
  let ?b = "bytes_at img ofs 15"
  have "length (take k ?b) < 16" using bytes_at_length [of img ofs 15] by simp
  from is_rela_data_name_iff [OF this] assms have t: "takeWhile (\<lambda>c. c \<noteq> 0) (take k ?b) = rela_data" by blast
  have l: "length rela_data = 10" by (simp add: rela_data_def)
  have "take 10 (take k ?b) = rela_data"
    using takeWhile_eq_take [of "\<lambda>c. c \<noteq> 0" "take k ?b"] unfolding t l by simp
  then show ?thesis by (rule take_prefix) (rule l)
qed

lemma rela_scan_outside:
  assumes of: "file_of F img good" and fits: "relas_fit img h N"
  shows "good f \<Longrightarrow> i + n \<le> unat (e_shnum h) \<Longrightarrow>
    rela_scan F (e_shoff h) (e_shentsize h) (strtab_of img h) base (word_of_nat i) m f n = (m', f') \<Longrightarrow>
    good f' \<and> same_outside base N m m'"
proof (induction n arbitrary: i f)
  case (Suc n)
  obtain r1 f1 where h: "read_exactly F (word_of_nat i * ucast (e_shentsize h) + e_shoff h) 40 f = (r1, f1)" by fastforce
  note H = read_exactly_file [OF of Suc.prems(1) h]
  show ?case
  proof (cases r1)
    case None
    then show ?thesis using Suc.IH [of f1 "Suc i"] Suc.prems h H(1) by (simp add: add.commute)
  next
    case (Some b)
    then have b: "b = section_at img h i" using H(2) by (simp add: section_at_def)
    obtain nm f2 where n: "read_name F 15 (strtab_of img h + be32 b 0) f1 = (nm, f2)" by fastforce
    obtain k where k: "nm = take k (name_at img h 15 i)"
      using read_name_file(2) [OF of H(1) n] b by (auto simp: name_at_def)
    note g = read_name_file(1) [OF of H(1) n]
    show ?thesis
    proof (cases "is_rela_data_name nm")
      case True
      then have "take 10 (name_at img h 15 i) = rela_data"
        unfolding k name_at_def by (rule rela_name_prefix)
      then have "\<forall>r < unat (be32 b 0x14 div 12). be32 (rela_at img b r) 4 AND 0xFF = 1 \<longrightarrow>
          unat (be32 (rela_at img b r) 0) + 4 \<le> N"
        using fits Suc.prems(2) b by (simp add: relas_fit_def list_all_iff)
      from rela_loop_outside [OF of this g, of 0 "unat (be32 b 0x14 div 12)"] show ?thesis
        using Suc.prems(3) h Some n True by (simp add: add.commute)
    next
      case False
      then show ?thesis using Suc.IH [of f2 "Suc i"] Suc.prems h Some n g by (simp add: add.commute)
    qed
  qed
qed simp

lemma apply_data_relocations_outside:
  assumes of: "file_of F img good" and "relas_fit img h N" and g: "good f"
    and run: "apply_data_relocations F (e_shoff h) (e_shnum h) (e_shentsize h) (e_shstrndx h) base m f = (m', f')"
  shows "good f' \<and> same_outside base N m m'"
proof -
  obtain r1 f1 where h: "read_exactly F (ucast (e_shstrndx h) * ucast (e_shentsize h) + e_shoff h) 40 f = (r1, f1)"
    by fastforce
  note H = read_exactly_file [OF of g h]
  show ?thesis
  proof (cases r1)
    case None
    then show ?thesis using run h H(1) by (simp add: apply_data_relocations_def)
  next
    case (Some b)
    then have "be32 b 0x10 = strtab_of img h" using H(2) by (simp add: strtab_of_def)
    then show ?thesis using rela_scan_outside [OF assms(1,2) H(1), of 0 "unat (e_shnum h)"] run h Some
      by (simp add: apply_data_relocations_def)
  qed
qed

subsection \<open>Segments in the slot\<close>

lemma finish_segment_outside:
  assumes of: "file_of F img good" and fits: "got_fits img h N" "relas_fit img h N" and N: "N < 2 ^ 32"
    and g: "good (fd s)" and run: "finish_segment F h base a s = (r, s')"
  shows "good (fd s') \<and> same_outside base N (lmem s) (lmem s')"
proof (cases "pt_load_seen s = 1")
  case True
  obtain r1 f1 where gs: "find_got_section F (e_shoff h) (e_shnum h) (e_shentsize h) (e_shstrndx h) (fd s) = (r1, f1)"
    by fastforce
  note G = find_got_section_fits [OF of fits(1) N g gs]
  show ?thesis
  proof (cases r1)
    case None
    then show ?thesis using run True gs G by (auto simp: finish_segment_def)
  next
    case (Some p)
    then obtain ga gz where p: "r1 = Some (ga, gz)" by (cases p) simp
    let ?m = "patch_got (lmem s) base (base + ga) (unat (gz div 4))"
    obtain m2 f2 where a: "apply_data_relocations F (e_shoff h) (e_shnum h) (e_shentsize h) (e_shstrndx h) base ?m f1 = (m2, f2)"
      by fastforce
    have "unat ga + 4 * unat (gz div 4) \<le> N" using G p times_div_less_eq_dividend [of 4 "unat gz"] by (auto simp: unat_div)
    then have "same_outside base N (lmem s) ?m" using patch_got_outside by (rule same_outside_in [rotated])
    then have "same_outside base N (lmem s) m2"
      using apply_data_relocations_outside [OF of fits(2) _ a] G same_outside_trans by blast
    then show ?thesis using run True gs p a apply_data_relocations_outside [OF of fits(2) _ a] G
      by (auto simp: finish_segment_def)
  qed
qed (use run g in \<open>auto simp: finish_segment_def split: if_splits\<close>)

lemma load_segment_outside:
  assumes of: "file_of F img good" and fits: "got_fits img h N" "relas_fit img h N" and N: "N < 2 ^ 32"
    and seg: "p_type ph = PT_LOAD \<Longrightarrow> unat (p_paddr ph) + max (unat (p_filesz ph)) (unat (p_memsz ph)) \<le> N"
    and g: "good (fd s)" and run: "load_segment F h base ph s = (r, s')"
  shows "good (fd s') \<and> same_outside base N (lmem s) (lmem s')"
proof (cases "p_type ph = PT_LOAD")
  case True
  note S = seg [OF True]
  let ?a = "base + p_paddr ph"
  obtain ok bs f where rd: "fl_read F (p_filesz ph) (fl_lseek F (p_offset ph) (fd s)) = (ok, bs, f)"
    by (cases "fl_read F (p_filesz ph) (fl_lseek F (p_offset ph) (fd s))") auto
  have f: "good f" "\<exists>k. bs = take k (bytes_at img (p_offset ph) (p_filesz ph))"
    using of g rd unfolding file_of_def by blast+
  then have l: "length bs \<le> unat (p_filesz ph)" using bytes_at_length [of img "p_offset ph" "p_filesz ph"] by auto
  let ?m = "wr_bytes (lmem s) ?a bs"
  have m: "same_outside base N (lmem s) ?m"
    using same_outside_in [OF wr_bytes_same_outside [OF l]] S by simp
  show ?thesis
  proof (cases "ok \<and> length bs = unat (p_filesz ph)")
    case False
    then show ?thesis using run True rd f(1) m by (auto simp: load_segment_def Let_def)
  next
    case ok: True
    let ?m2 = "if p_memsz ph > p_filesz ph then memset ?m (?a + p_filesz ph) 0 (p_memsz ph - p_filesz ph) else ?m"
    have "same_outside base N ?m ?m2"
    proof (cases "p_memsz ph > p_filesz ph")
      case True
      then have u: "unat (p_memsz ph - p_filesz ph) = unat (p_memsz ph) - unat (p_filesz ph)"
        by (simp add: unat_sub)
      have v: "unat (p_paddr ph + p_filesz ph) = unat (p_paddr ph) + unat (p_filesz ph)"
        using S N unat_plus_small [of "p_paddr ph" "unat (p_filesz ph)"] by simp
      have "same_outside (base + (p_paddr ph + p_filesz ph)) (unat (p_memsz ph - p_filesz ph)) ?m ?m2"
        using True by (simp add: memset_eq add.assoc wr_bytes_same_outside)
      then show ?thesis by (rule same_outside_in) (use S True u v in \<open>simp add: word_less_nat_alt\<close>)
    qed simp
    then have m2: "same_outside base N (lmem s) ?m2" using m same_outside_trans by blast
    have "finish_segment F h base ?a (s\<lparr>lmem := ?m2, fd := f\<rparr>) = (r, s')"
      using run True rd ok by (simp add: load_segment_def Let_def)
    from finish_segment_outside [OF of fits N _ this] f(1) m2 show ?thesis
      using same_outside_trans by auto
  qed
qed (use run g in \<open>auto simp: load_segment_def split: if_splits\<close>)

lemma load_segments_outside:
  assumes of: "file_of F img good" and fits: "got_fits img h N" "relas_fit img h N" and N: "N < 2 ^ 32"
    and seg: "segments_fit img h N"
  shows "good (fd s) \<Longrightarrow> i + n \<le> unat (e_phnum h) \<Longrightarrow> load_segments F h base (word_of_nat i) s n = (r, s') \<Longrightarrow>
    good (fd s') \<and> same_outside base N (lmem s) (lmem s')"
proof (induction n arbitrary: i s)
  case (Suc n)
  obtain r1 f1 where h: "read_exactly F (word_of_nat i * ucast (e_phentsize h) + e_phoff h) 32 (fd s) = (r1, f1)" by fastforce
  note H = read_exactly_file [OF of Suc.prems(1) h]
  show ?case
  proof (cases r1)
    case None
    then show ?thesis using Suc.prems h H(1) by auto
  next
    case (Some b)
    then have b: "parse_program_header b = program_header_at img h i" using H(2) by (simp add: program_header_at_def)
    obtain e s1 where l: "load_segment F h base (parse_program_header b) (s\<lparr>fd := f1\<rparr>) = (e, s1)" by fastforce
    have "good (fd s1) \<and> same_outside base N (lmem (s\<lparr>fd := f1\<rparr>)) (lmem s1)"
      using load_segment_outside [OF of fits N _ _ l] seg Suc.prems(2) H(1) b by (simp add: segments_fit_def list_all_iff)
    then have s1: "good (fd s1)" "same_outside base N (lmem s) (lmem s1)" by simp_all
    show ?thesis
    proof (cases e)
      case None
      then show ?thesis using Suc.IH [of s1 "Suc i"] Suc.prems h Some l s1 same_outside_trans
        by (auto simp: add.commute)
    next
      case e: (Some _)
      then show ?thesis using Suc.prems h Some l s1 by simp
    qed
  qed
qed simp

lemma load_image_outside:
  assumes of: "file_of F img good" and fits: "image_fits img N" and N: "N < 2 ^ 32"
    and g: "good f" and run: "load_image F base m f = (r, ls)"
  shows "good (fd ls) \<and> same_outside base N m (lmem ls)"
proof -
  obtain r1 f1 where h: "read_exactly F 0 52 f = (r1, f1)" by fastforce
  note H = read_exactly_file [OF of g h]
  show ?thesis
  proof (cases "\<exists>b. r1 = Some b \<and> check_header b = None")
    case False
    then show ?thesis using run h H(1) by (auto simp: load_image_def Let_def split: option.splits)
  next
    case True
    then obtain b where b: "r1 = Some b" "check_header b = None" by blast
    then have bi: "b = bytes_at img 0 52" using H(2) by simp
    let ?h = "parse_header b"
    let ?s = "\<lparr>lmem = m, fd = f1, pt_load_seen = 0, text_load_addr = 0, data_load_addr = 0,
               got_addr_saved = 0, got_size_saved = 0\<rparr>"
    obtain e s where l: "load_segments F ?h base (word_of_nat 0) ?s (unat (e_phnum ?h)) = (e, s)" by fastforce
    have "good (fd s) \<and> same_outside base N m (lmem s)"
      using load_segments_outside [OF of _ _ N _ _ _ l] fits H(1) bi by (simp add: image_fits_def Let_def)
    then show ?thesis using run h b l by (auto simp: load_image_def Let_def split: option.splits if_splits)
  qed
qed

subsection \<open>The new task\<close>

lemma created_tcb:
  assumes "sched_inv s xs" and "OS_TaskCreatePIC s ent arg stack ss i a5 = Some (Some t, s')"
  shows "t_id (task_pool s' t) = i" "t_arg (task_pool s' t) = arg"
    "task_count s < OS_MAX_TASKS" "ent \<noteq> 0" "stack \<noteq> 0"
proof -
  show ok: "task_count s < OS_MAX_TASKS" "ent \<noteq> 0" "stack \<noteq> 0"
    using assms(2) by (auto simp: OS_TaskCreatePIC_def split: if_splits)
  obtain m sp where f: "initial_frame (smem s) stack ss ent a5 = (m, sp)" by fastforce
  let ?b = "(task_pool s (task_count s))\<lparr>t_stack_base := stack, t_stack_size := ss, t_arg := arg,
                      t_id := i, t_next := None, t_sp := sp, t_state := TASK_READY\<rparr>"
  let ?s1 = "s\<lparr>task_count := Suc (task_count s), smem := m, task_pool := (task_pool s)(task_count s := ?b)\<rparr>"
  have "task_count s \<notin> set xs" using sched_invD(3) [OF assms(1)] by simp
  note nin = this
  have "\<exists>s2. ready_insert ?s1 (task_count s) = Some s2 \<and> sched_inv s2 (xs @ [task_count s])
    \<and> current_task s2 = current_task s \<and> task_count s2 = Suc (task_count s) \<and> smem s2 = m
    \<and> (\<forall>u. unlink (task_pool s2 u) = unlink (task_pool ?s1 u))"
    using ok(1) by (intro sched_inv_enter [OF assms(1) nin]) auto
  then obtain s2 where s2: "ready_insert ?s1 (task_count s) = Some s2"
    "\<forall>u. unlink (task_pool s2 u) = unlink (task_pool ?s1 u)" by blast
  then have "t = task_count s" "s' = s2" using assms(2) ok f by (auto simp: OS_TaskCreatePIC_def Let_def)
  then have "unlink (task_pool s' t) = unlink ?b" using s2(2) by simp
  from unlink_eqD [OF this] show "t_id (task_pool s' t) = i" "t_arg (task_pool s' t) = arg" by simp_all
qed

lemma slot_top:
  assumes "0 \<le> i" and "i < int SLOT_COUNT"
  defines "b \<equiv> Slots_BaseAddr i"
  shows "(b + SLOT_SIZE - TASK_STACK_SIZE + TASK_STACK_SIZE) AND NOT 1 = b + SLOT_SIZE"
    "unat (b + SLOT_SIZE) = unat b + 0x40000" "b + SLOT_SIZE - TASK_STACK_SIZE \<noteq> 0" "unat b + 0x40000 < 2 ^ 32"
proof -
  have "i \<in> set [0..9]" using assms by (auto simp: SLOT_COUNT_def)
  then have "i = 0 \<or> i = 1 \<or> i = 2 \<or> i = 3 \<or> i = 4 \<or> i = 5 \<or> i = 6 \<or> i = 7 \<or> i = 8 \<or> i = 9" by (simp add: upto.simps)
  then show "(b + SLOT_SIZE - TASK_STACK_SIZE + TASK_STACK_SIZE) AND NOT 1 = b + SLOT_SIZE"
    "unat (b + SLOT_SIZE) = unat b + 0x40000" "b + SLOT_SIZE - TASK_STACK_SIZE \<noteq> 0" "unat b + 0x40000 < 2 ^ 32"
    unfolding b_def Slots_BaseAddr_def SLOT_BASE_def SLOT_SIZE_def TASK_STACK_SIZE_def
    by (elim disjE; simp)+
qed

text \<open>The three ways the call ends.\<close>

lemma load_segments_error:
  "load_segments F h base i s n = (Some e, s') \<Longrightarrow> e \<noteq> No_free_slot"
proof (induction n arbitrary: i s)
  case (Suc n)
  have "load_segment F h base ph s1 = (Some e, s2) \<Longrightarrow> e \<noteq> No_free_slot" for ph s1 s2
    by (auto simp: load_segment_def finish_segment_def Let_def split: if_splits prod.splits option.splits)
  then show ?case using Suc by (auto split: prod.splits option.splits)
qed simp

lemma load_image_error:
  assumes "load_image F base m f = (Inl e, ls)"
  shows "e \<noteq> No_free_slot"
proof -
  have "check_header b = Some e \<Longrightarrow> e \<noteq> No_free_slot" for b
    by (auto simp: check_header_def split: if_splits)
  then show ?thesis using assms
    by (auto simp: load_image_def Let_def dest: load_segments_error split: prod.splits option.splits if_splits)
qed

lemma spawn_cases:
  assumes inv: "sched_inv (tasks k) xs" and len: "length (slot_in_use k) = SLOT_COUNT"
  obtains (full) "\<forall>u \<in> set (slot_in_use k). u \<noteq> 0" "load_pic_elf_standalone F k = Some (Some No_free_slot, k)"
  | (failed) i us e r ls where "Slots_Alloc (slot_in_use k) = (i, us)" "0 \<le> i" "i < int SLOT_COUNT"
      "load_image F (Slots_BaseAddr i) (smem (tasks k)) (elf k) = (r, ls)"
      "load_pic_elf_standalone F k =
         Some (Some e, k\<lparr>tasks := (tasks k)\<lparr>smem := lmem ls\<rparr>, elf := fd ls\<rparr>)" "e \<noteq> No_free_slot"
  | (spawned) i us h ls s where "Slots_Alloc (slot_in_use k) = (i, us)" "0 \<le> i" "i < int SLOT_COUNT"
      "load_image F (Slots_BaseAddr i) (smem (tasks k)) (elf k) = (Inr h, ls)"
      "OS_TaskCreatePIC ((tasks k)\<lparr>smem := lmem ls\<rparr>) (Slots_BaseAddr i + e_entry h) 0
         (Slots_BaseAddr i + SLOT_SIZE - TASK_STACK_SIZE) TASK_STACK_SIZE (word_of_int i)
         (Slots_BaseAddr i + got_addr_saved ls) = Some (Some (task_count (tasks k)), s)"
      "load_pic_elf_standalone F k = Some (None, k\<lparr>slot_in_use := us, tasks := s, elf := fd ls\<rparr>)"
proof -
  obtain i us where a: "Slots_Alloc (slot_in_use k) = (i, us)" by fastforce
  show thesis
  proof (cases "\<forall>u \<in> set (slot_in_use k). u \<noteq> 0")
    case True
    then have "load_pic_elf_standalone F k = Some (Some No_free_slot, k)"
      using a by (simp add: Slots_Alloc_spec load_pic_elf_standalone_def)
    with True show thesis by (rule full)
  next
    case False
    then have i: "0 \<le> i" "i < int SLOT_COUNT" and free: "Slots_Free us i = slot_in_use k"
      using Slots_Alloc_free [OF len a] by blast+
    let ?b = "Slots_BaseAddr i"
    obtain r ls where l: "load_image F ?b (smem (tasks k)) (elf k) = (r, ls)" by fastforce
    let ?s = "(tasks k)\<lparr>smem := lmem ls\<rparr>"
    show thesis
    proof (cases r)
      case (Inl e)
      have "load_pic_elf_standalone F k = Some (Some e, k\<lparr>tasks := ?s, elf := fd ls\<rparr>)"
        using a i l Inl free by (simp add: load_pic_elf_standalone_def Let_def)
      moreover have "e \<noteq> No_free_slot" using l unfolding Inl by (rule load_image_error)
      ultimately show thesis by (rule failed [OF a i l])
    next
      case (Inr h)
      note L = l [unfolded Inr]
      let ?st = "?b + SLOT_SIZE - TASK_STACK_SIZE"
      let ?create = "OS_TaskCreatePIC ?s (?b + e_entry h) 0 ?st TASK_STACK_SIZE (word_of_int i) (?b + got_addr_saved ls)"
      show thesis
      proof (cases "task_count (tasks k) < OS_MAX_TASKS \<and> ?b + e_entry h \<noteq> 0")
        case True
        have "sched_inv ?s xs" using inv by simp
        from sched_inv_create [OF this _ _ slot_top(3) [OF i], of "?b + e_entry h" 0 TASK_STACK_SIZE
            "word_of_int i" "?b + got_addr_saved ls"] True
        obtain s where s: "?create = Some (Some (task_count (tasks k)), s)" by auto
        then have "load_pic_elf_standalone F k = Some (None, k\<lparr>slot_in_use := us, tasks := s, elf := fd ls\<rparr>)"
          using a i L by (simp add: load_pic_elf_standalone_def Let_def)
        then show thesis by (rule spawned [OF a i L s])
      next
        case False
        then have "?create = Some (None, ?s)" by (auto simp: OS_TaskCreatePIC_def)
        then have "load_pic_elf_standalone F k = Some (Some Task_not_created, k\<lparr>tasks := ?s, elf := fd ls\<rparr>)"
          using a i L free by (simp add: load_pic_elf_standalone_def Let_def)
        then show thesis by (intro failed [OF a i L]) auto
      qed
    qed
  qed
qed


end
