(* ===== verification/LoaderImage.thy ===== *)
theory LoaderImage
  imports Loader
begin

text \<open>
  What the loader of \<open>Loader\<close> leaves in memory, as a function of the bytes of the file: \<open>place\<close> is a
  segment with its zeroed tail, \<open>got_range\<close> the hull of the sections whose name begins with .got and
  \<open>data_relas\<close> the entries of .rela.data. The reads are assumed to succeed (\<open>clean_file\<close>).
\<close>

subsection \<open>The image of a file\<close>

definition readable :: "u8 list \<Rightarrow> u32 \<Rightarrow> u32 \<Rightarrow> bool" where
  "readable img ofs n \<longleftrightarrow> length (bytes_at img ofs n) = unat n"

definition got_sections :: "u8 list \<Rightarrow> elf32_header \<Rightarrow> u8 list list" where
  "got_sections img h = map (section_at img h)
     (filter (\<lambda>i. take 4 (name_at img h 9 i) = got_prefix) [0..<unat (e_shnum h)])"

definition sections_readable :: "u8 list \<Rightarrow> elf32_header \<Rightarrow> bool" where
  "sections_readable img h \<longleftrightarrow> readable img (ucast (e_shstrndx h) * ucast (e_shentsize h) + e_shoff h) 40
     \<and> list_all (\<lambda>i. readable img (word_of_nat i * ucast (e_shentsize h) + e_shoff h) 40) [0..<unat (e_shnum h)]"

definition got_low :: "u8 list list \<Rightarrow> u32" where
  "got_low secs = Min (set (map (\<lambda>b. be32 b 0x0C) secs))"

definition got_high :: "u8 list list \<Rightarrow> u32" where
  "got_high secs = Max (set (map (\<lambda>b. be32 b 0x0C + be32 b 0x14) secs))"

definition data_relas :: "u8 list \<Rightarrow> elf32_header \<Rightarrow> u8 list list" where
  "data_relas img h =
     (case find (\<lambda>i. readable img (word_of_nat i * ucast (e_shentsize h) + e_shoff h) 40
                   \<and> takeWhile (\<lambda>c. c \<noteq> 0) (name_at img h 15 i) = rela_data) [0..<unat (e_shnum h)] of
        None \<Rightarrow> []
      | Some i \<Rightarrow> filter (\<lambda>b. length b = 12)
          (map (rela_at img (section_at img h i)) [0..<unat (be32 (section_at img h i) 0x14 div 12)]))"

definition place :: "u8 list \<Rightarrow> u32 \<Rightarrow> elf32_program_header \<Rightarrow> mem \<Rightarrow> mem" where
  "place img base ph m = wr_bytes m (base + p_paddr ph)
     (bytes_at img (p_offset ph) (p_filesz ph) @ replicate (unat (p_memsz ph) - unat (p_filesz ph)) 0)"

definition relocate :: "u8 list \<Rightarrow> elf32_header \<Rightarrow> u32 \<Rightarrow> mem \<Rightarrow> mem" where
  "relocate img h base m =
     (let G = got_sections img h
      in foldl (apply_rela base)
           (patch_got m base (base + got_low G) (unat ((got_high G - got_low G) div 4))) (data_relas img h))"

definition loads :: "u8 list \<Rightarrow> elf32_header \<Rightarrow> elf32_program_header list" where
  "loads img h = filter (\<lambda>p. p_type p = PT_LOAD) (map (program_header_at img h) [0..<unat (e_phnum h)])"

definition loadable_header :: "u8 list \<Rightarrow> elf32_header \<Rightarrow> nat \<Rightarrow> bool" where
  "loadable_header img h i \<longleftrightarrow> readable img (word_of_nat i * ucast (e_phentsize h) + e_phoff h) 32
     \<and> (let p = program_header_at img h i in p_type p \<notin> {PT_DYNAMIC, PT_SHLIB, PT_INTERP}
          \<and> (p_type p = PT_LOAD \<longrightarrow> readable img (p_offset p) (p_filesz p)))"

definition loadable :: "u8 list \<Rightarrow> bool" where
  "loadable img \<longleftrightarrow> readable img 0 52 \<and> check_header (bytes_at img 0 52) = None
     \<and> (let h = parse_header (bytes_at img 0 52)
        in list_all (loadable_header img h) [0..<unat (e_phnum h)] \<and> length (loads img h) = 2
          \<and> sections_readable img h \<and> got_sections img h \<noteq> [])"

subsection \<open>The GOT range\<close>

lemma read_exactly_cleanE:
  assumes "clean_file F img good" and "good f"
  obtains f' where "good f'"
    "read_exactly F ofs n f = (if readable img ofs n then Some (bytes_at img ofs n) else None, f')"
proof -
  obtain f' where f': "good f'" "fl_read F n (fl_lseek F ofs f) = (True, bytes_at img ofs n, f')"
    using assms unfolding clean_file_def by blast
  then show thesis by (intro that [of f']) (simp_all add: read_exactly_def readable_def)
qed

lemma short_name: "length (name_at img h 9 i) < 16" "length (name_at img h 15 i) < 16"
  using bytes_at_length [of img "strtab_of img h + be32 (section_at img h i) 0" 9]
    bytes_at_length [of img "strtab_of img h + be32 (section_at img h i) 0" 15]
  by (simp_all add: name_at_def)

lemma got_scan_clean:
  assumes cf: "clean_file F img good"
  shows "good f \<Longrightarrow> \<exists>f'. good f' \<and> got_scan F (e_shoff h) (e_shentsize h) (strtab_of img h) acc (word_of_nat i) f n =
    (if list_all (\<lambda>i. readable img (word_of_nat i * ucast (e_shentsize h) + e_shoff h) 40) [i..<i + n]
     then Some (fold (\<lambda>i. extend_hull (name_at img h 9 i) (section_at img h i)) [i..<i + n] acc) else None, f')"
proof (induction n arbitrary: i f acc)
  case (Suc n)
  obtain f1 where f1: "good f1" "read_exactly F (word_of_nat i * ucast (e_shentsize h) + e_shoff h) 40 f =
    (if readable img (word_of_nat i * ucast (e_shentsize h) + e_shoff h) 40 then Some (section_at img h i) else None, f1)"
    using read_exactly_cleanE [OF cf Suc.prems] unfolding section_at_def by blast
  obtain f2 where f2: "good f2" "read_name F 9 (strtab_of img h + be32 (section_at img h i) 0) f1 = (name_at img h 9 i, f2)"
    using read_name_clean [OF cf f1(1)] unfolding name_at_def by blast
  have u: "[i..<i + Suc n] = i # [Suc i..<Suc i + n]" by (simp add: upt_rec)
  show ?case
    using Suc.IH [OF f2(1), where i = "Suc i" and acc = "extend_hull (name_at img h 9 i) (section_at img h i) acc"] f1 f2
    unfolding u by (auto simp: add.commute)
qed auto

lemma fold_extend_hull:
  "fold (\<lambda>i. extend_hull (name_at img h 9 i) (section_at img h i)) is (mn, mx, found) =
     (let G = map (section_at img h) (filter (\<lambda>i. take 4 (name_at img h 9 i) = got_prefix) is)
      in (fold min (map (\<lambda>b. be32 b 0x0C) G) mn, fold max (map (\<lambda>b. be32 b 0x0C + be32 b 0x14) G) mx,
          found \<or> G \<noteq> []))"
proof (induction "is" arbitrary: mn mx found)
  case (Cons i "is")
  show ?case
  proof (cases "is_got_name (name_at img h 9 i)")
    case True
    then have "take 4 (name_at img h 9 i) = got_prefix" using is_got_name_iff short_name(1) by blast
    moreover have "extend_hull (name_at img h 9 i) (section_at img h i) (mn, mx, found) =
      (min (be32 (section_at img h i) 0x0C) mn, max (be32 (section_at img h i) 0x0C + be32 (section_at img h i) 0x14) mx, True)"
      using True by (auto simp: extend_hull_def Let_def min_def max_def)
    ultimately show ?thesis using Cons by (simp add: Let_def)
  next
    case False
    then have "take 4 (name_at img h 9 i) \<noteq> got_prefix" using is_got_name_iff short_name(1) by blast
    then show ?thesis using Cons False by (simp add: extend_hull_def Let_def)
  qed
qed simp

lemma fold_min_top:
  assumes "xs \<noteq> []"
  shows "fold min xs (- 1 :: u32) = Min (set xs)"
proof -
  have "fold min xs (- 1) = Min (insert (- 1) (set xs))" by (subst Min.set_eq_fold [symmetric]) simp
  also have "\<dots> = min (- 1) (Min (set xs))" using assms by (simp add: Min_insert)
  finally show ?thesis by (simp add: min_absorb2)
qed

lemma fold_max_bot:
  assumes "xs \<noteq> []"
  shows "fold max xs (0 :: u32) = Max (set xs)"
proof -
  have "fold max xs 0 = Max (insert 0 (set xs))" by (subst Max.set_eq_fold [symmetric]) simp
  also have "\<dots> = max 0 (Max (set xs))" using assms by (simp add: Max_insert)
  finally show ?thesis by (simp add: max_absorb2)
qed

lemma find_got_section_clean:
  assumes cf: "clean_file F img good" and g: "good f"
  shows "\<exists>f'. good f' \<and> find_got_section F (e_shoff h) (e_shnum h) (e_shentsize h) (e_shstrndx h) f =
    (if sections_readable img h \<and> got_sections img h \<noteq> []
     then Some (got_low (got_sections img h), got_high (got_sections img h) - got_low (got_sections img h)) else None, f')"
proof -
  let ?o = "ucast (e_shstrndx h) * ucast (e_shentsize h) + e_shoff h"
  obtain f1 where f1: "good f1" "read_exactly F ?o 40 f = (if readable img ?o 40 then Some (bytes_at img ?o 40) else None, f1)"
    using read_exactly_cleanE [OF cf g] by blast
  have s: "be32 (bytes_at img ?o 40) 0x10 = strtab_of img h" by (simp add: strtab_of_def)
  let ?L = "[0..<unat (e_shnum h)]" and ?G = "got_sections img h"
  obtain f2 where f2: "good f2" "got_scan F (e_shoff h) (e_shentsize h) (strtab_of img h) (- 1, 0, False) 0 f1 (unat (e_shnum h)) =
    (if list_all (\<lambda>i. readable img (word_of_nat i * ucast (e_shentsize h) + e_shoff h) 40) ?L
     then Some (fold min (map (\<lambda>b. be32 b 0x0C) ?G) (- 1),
        fold max (map (\<lambda>b. be32 b 0x0C + be32 b 0x14) ?G) 0, ?G \<noteq> []) else None, f2)"
    using got_scan_clean [OF cf f1(1), of h "(- 1, 0, False)" 0 "unat (e_shnum h)"]
    by (auto simp: fold_extend_hull Let_def got_sections_def [symmetric])
  have "?G \<noteq> [] \<Longrightarrow> fold min (map (\<lambda>b. be32 b 0x0C) ?G) (- 1) = got_low ?G"
    "?G \<noteq> [] \<Longrightarrow> fold max (map (\<lambda>b. be32 b 0x0C + be32 b 0x14) ?G) 0 = got_high ?G"
    using fold_min_top [of "map (\<lambda>b. be32 b 0x0C) ?G"] fold_max_bot [of "map (\<lambda>b. be32 b 0x0C + be32 b 0x14) ?G"]
    by (simp_all add: got_low_def got_high_def)
  moreover have m1: "(0xFFFFFFFF :: u32) = - 1" by simp
  ultimately show ?thesis using f1 f2 s unfolding find_got_section_def sections_readable_def m1 by auto
qed

subsection \<open>The relocations\<close>

lemma rela_loop_clean:
  assumes cf: "clean_file F img good"
  shows "good f \<Longrightarrow> \<exists>f'. good f' \<and> rela_loop F base (be32 sec 0x10) (word_of_nat i) m f n =
    (foldl (apply_rela base) m (filter (\<lambda>b. length b = 12) (map (rela_at img sec) [i..<i + n])), f')"
proof (induction n arbitrary: i f m)
  case (Suc n)
  obtain f1 where f1: "good f1" "read_exactly F (be32 sec 0x10 + word_of_nat i * 12) 12 f =
    (if length (rela_at img sec i) = 12 then Some (rela_at img sec i) else None, f1)"
    using read_exactly_cleanE [OF cf Suc.prems, of "be32 sec 0x10 + word_of_nat i * 12" 12]
    unfolding rela_at_def readable_def by auto
  have u: "[i..<i + Suc n] = i # [Suc i..<Suc i + n]" by (simp add: upt_rec)
  show ?case
    using Suc.IH [OF f1(1), where i = "Suc i" and m = m]
      Suc.IH [OF f1(1), where i = "Suc i" and m = "apply_rela base m (rela_at img sec i)"] f1
    unfolding u by (auto simp: add.commute)
qed auto

lemma rela_scan_clean:
  assumes cf: "clean_file F img good"
  shows "good f \<Longrightarrow> \<exists>f'. good f' \<and> rela_scan F (e_shoff h) (e_shentsize h) (strtab_of img h) base (word_of_nat i) m f n =
    (case find (\<lambda>i. readable img (word_of_nat i * ucast (e_shentsize h) + e_shoff h) 40
                   \<and> takeWhile (\<lambda>c. c \<noteq> 0) (name_at img h 15 i) = rela_data) [i..<i + n] of
       None \<Rightarrow> m
     | Some i \<Rightarrow> foldl (apply_rela base) m (filter (\<lambda>b. length b = 12)
          (map (rela_at img (section_at img h i)) [0..<unat (be32 (section_at img h i) 0x14 div 12)])), f')"
proof (induction n arbitrary: i f)
  case (Suc n)
  let ?ok = "readable img (word_of_nat i * ucast (e_shentsize h) + e_shoff h) 40"
  obtain f1 where f1: "good f1" "read_exactly F (word_of_nat i * ucast (e_shentsize h) + e_shoff h) 40 f =
    (if ?ok then Some (section_at img h i) else None, f1)"
    using read_exactly_cleanE [OF cf Suc.prems] unfolding section_at_def by blast
  obtain f2 where f2: "good f2" "read_name F 15 (strtab_of img h + be32 (section_at img h i) 0) f1 = (name_at img h 15 i, f2)"
    using read_name_clean [OF cf f1(1)] unfolding name_at_def by blast
  have nm: "is_rela_data_name (name_at img h 15 i) \<longleftrightarrow> takeWhile (\<lambda>c. c \<noteq> 0) (name_at img h 15 i) = rela_data"
    using is_rela_data_name_iff short_name(2) by blast
  have u: "[i..<i + Suc n] = i # [Suc i..<Suc i + n]" by (simp add: upt_rec)
  show ?case
    using Suc.IH [OF f1(1), of "Suc i"] Suc.IH [OF f2(1), of "Suc i"] f1 f2 nm
      rela_loop_clean [OF cf f2(1), of base "section_at img h i" 0 m "unat (be32 (section_at img h i) 0x14 div 12)"]
    unfolding u by (cases ?ok; cases "is_rela_data_name (name_at img h 15 i)") (auto simp: add.commute)
qed auto

lemma apply_data_relocations_clean:
  assumes cf: "clean_file F img good" and g: "good f" and r: "sections_readable img h"
  shows "\<exists>f'. good f' \<and> apply_data_relocations F (e_shoff h) (e_shnum h) (e_shentsize h) (e_shstrndx h) base m f =
    (foldl (apply_rela base) m (data_relas img h), f')"
proof -
  let ?o = "ucast (e_shstrndx h) * ucast (e_shentsize h) + e_shoff h"
  obtain f1 where f1: "good f1" "read_exactly F ?o 40 f = (Some (bytes_at img ?o 40), f1)"
    using read_exactly_cleanE [OF cf g, of ?o 40] r unfolding sections_readable_def by auto
  have s: "be32 (bytes_at img ?o 40) 0x10 = strtab_of img h" by (simp add: strtab_of_def)
  show ?thesis using rela_scan_clean [OF cf f1(1), of h base 0 m "unat (e_shnum h)"] f1 s
    by (auto simp: apply_data_relocations_def data_relas_def split: option.splits)
qed

subsection \<open>The segments\<close>

lemma place_eq:
  assumes "readable img (p_offset ph) (p_filesz ph)"
  shows "(let m = wr_bytes m (base + p_paddr ph) (bytes_at img (p_offset ph) (p_filesz ph))
    in if p_memsz ph > p_filesz ph
       then memset m (base + p_paddr ph + p_filesz ph) 0 (p_memsz ph - p_filesz ph) else m) = place img base ph m"
proof (cases "p_memsz ph > p_filesz ph")
  case True
  let ?bs = "bytes_at img (p_offset ph) (p_filesz ph)"
  have l: "length ?bs = unat (p_filesz ph)" using assms by (simp add: readable_def)
  have u: "unat (p_memsz ph - p_filesz ph) = unat (p_memsz ph) - unat (p_filesz ph)" using True by (simp add: unat_sub)
  have "length ?bs + length (replicate (unat (p_memsz ph) - unat (p_filesz ph)) (0 :: u8)) \<le> 2 ^ 32"
    using True l by (simp add: word_less_nat_alt)
  from wr_bytes_after [OF this, of m "base + p_paddr ph"] show ?thesis
    using True l u by (simp add: place_def memset_eq Let_def)
next
  case False
  then show ?thesis by (simp add: place_def word_less_nat_alt not_less)
qed

text \<open>The memory after the PT_LOAD segments of a list, when \<open>seen\<close> came before them.\<close>

primrec placed :: "u8 list \<Rightarrow> elf32_header \<Rightarrow> u32 \<Rightarrow> nat \<Rightarrow> elf32_program_header list \<Rightarrow> mem \<Rightarrow> mem" where
  "placed img h base seen [] m = m"
| "placed img h base seen (p # ps) m =
     placed img h base (Suc seen) ps
       (if seen = 1 then relocate img h base (place img base p m) else place img base p m)"

definition has_got :: "u8 list \<Rightarrow> elf32_header \<Rightarrow> bool" where
  "has_got img h \<longleftrightarrow> sections_readable img h \<and> got_sections img h \<noteq> []"

lemma finish_segment_clean:
  assumes cf: "clean_file F img good" and g: "good (fd s)"
  shows "\<exists>r s'. finish_segment F h base a s = (r, s') \<and> good (fd s')
    \<and> (r = None \<longleftrightarrow> (pt_load_seen s = 1 \<longrightarrow> has_got img h))
    \<and> (r = None \<longrightarrow> pt_load_seen s' = Suc (pt_load_seen s)
        \<and> lmem s' = (if pt_load_seen s = 1 then relocate img h base (lmem s) else lmem s)
        \<and> got_addr_saved s' = (if pt_load_seen s = 1 then got_low (got_sections img h) else got_addr_saved s))"
proof (cases "pt_load_seen s = 1")
  case True
  obtain f1 where f1: "good f1" "find_got_section F (e_shoff h) (e_shnum h) (e_shentsize h) (e_shstrndx h) (fd s) =
    (if has_got img h then Some (got_low (got_sections img h), got_high (got_sections img h) - got_low (got_sections img h))
     else None, f1)"
    using find_got_section_clean [OF cf g] unfolding has_got_def by blast
  show ?thesis
  proof (cases "has_got img h")
    case hg: True
    then have "sections_readable img h" by (simp add: has_got_def)
    note A = apply_data_relocations_clean [OF cf f1(1) this]
    let ?G = "got_sections img h"
    obtain f2 where "good f2" "apply_data_relocations F (e_shoff h) (e_shnum h) (e_shentsize h) (e_shstrndx h) base
        (patch_got (lmem s) base (base + got_low ?G) (unat ((got_high ?G - got_low ?G) div 4))) f1 =
      (relocate img h base (lmem s), f2)"
      using A [of base "patch_got (lmem s) base (base + got_low ?G) (unat ((got_high ?G - got_low ?G) div 4))"]
      by (auto simp: relocate_def Let_def)
    then show ?thesis using True f1 hg by (simp add: finish_segment_def)
  next
    case False
    then show ?thesis using True f1 by (simp add: finish_segment_def)
  qed
next
  case False
  then show ?thesis using g by (auto simp: finish_segment_def)
qed

lemma load_segment_clean:
  assumes cf: "clean_file F img good" and g: "good (fd s)"
  shows "\<exists>r s'. load_segment F h base ph s = (r, s') \<and> good (fd s')
    \<and> (r = None \<longleftrightarrow> p_type ph \<notin> {PT_DYNAMIC, PT_SHLIB, PT_INTERP}
        \<and> (p_type ph = PT_LOAD \<longrightarrow> readable img (p_offset ph) (p_filesz ph) \<and> (pt_load_seen s = 1 \<longrightarrow> has_got img h)))
    \<and> (r = None \<longrightarrow> (if p_type ph = PT_LOAD
        then pt_load_seen s' = Suc (pt_load_seen s)
          \<and> lmem s' = (if pt_load_seen s = 1 then relocate img h base (place img base ph (lmem s)) else place img base ph (lmem s))
          \<and> got_addr_saved s' = (if pt_load_seen s = 1 then got_low (got_sections img h) else got_addr_saved s)
        else pt_load_seen s' = pt_load_seen s \<and> lmem s' = lmem s \<and> got_addr_saved s' = got_addr_saved s))"
proof (cases "p_type ph = PT_LOAD")
  case True
  then have t: "p_type ph \<notin> {PT_DYNAMIC, PT_SHLIB, PT_INTERP}"
    by (simp add: PT_LOAD_def PT_DYNAMIC_def PT_SHLIB_def PT_INTERP_def)
  let ?bs = "bytes_at img (p_offset ph) (p_filesz ph)"
  obtain f where f: "good f" "fl_read F (p_filesz ph) (fl_lseek F (p_offset ph) (fd s)) = (True, ?bs, f)"
    using cf g unfolding clean_file_def by blast
  show ?thesis
  proof (cases "readable img (p_offset ph) (p_filesz ph)")
    case rd: True
    let ?s = "s\<lparr>lmem := place img base ph (lmem s), fd := f\<rparr>"
    have "load_segment F h base ph s = finish_segment F h base (base + p_paddr ph) ?s"
      unfolding place_eq [OF rd, symmetric] using True f rd by (simp add: load_segment_def readable_def Let_def)
    then show ?thesis using finish_segment_clean [OF cf, of ?s h base "base + p_paddr ph"] f(1) True t rd by auto
  next
    case False
    then show ?thesis using f True by (simp add: load_segment_def readable_def)
  qed
next
  case False
  then show ?thesis using g by (auto simp: load_segment_def PT_DYNAMIC_def PT_SHLIB_def PT_INTERP_def)
qed

lemma load_segments_clean:
  assumes cf: "clean_file F img good"
  shows "good (fd s) \<Longrightarrow> let ps = filter (\<lambda>p. p_type p = PT_LOAD) (map (program_header_at img h) [i..<i + n])
    in \<exists>r s'. load_segments F h base (word_of_nat i) s n = (r, s') \<and> good (fd s')
      \<and> (r = None \<longleftrightarrow> list_all (loadable_header img h) [i..<i + n]
          \<and> (pt_load_seen s \<le> 1 \<and> 2 \<le> pt_load_seen s + length ps \<longrightarrow> has_got img h))
      \<and> (r = None \<longrightarrow> pt_load_seen s' = pt_load_seen s + length ps
          \<and> lmem s' = placed img h base (pt_load_seen s) ps (lmem s)
          \<and> got_addr_saved s' = (if pt_load_seen s \<le> 1 \<and> 2 \<le> pt_load_seen s + length ps
               then got_low (got_sections img h) else got_addr_saved s))"
proof (induction n arbitrary: i s)
  case (Suc n)
  let ?o = "word_of_nat i * ucast (e_phentsize h) + e_phoff h" and ?p = "program_header_at img h i"
  obtain f1 where f1: "good f1" "read_exactly F ?o 32 (fd s) = (if readable img ?o 32 then Some (bytes_at img ?o 32) else None, f1)"
    using read_exactly_cleanE [OF cf Suc.prems] by blast
  have p: "parse_program_header (bytes_at img ?o 32) = ?p" by (simp add: program_header_at_def)
  have u: "[i..<i + Suc n] = i # [Suc i..<Suc i + n]" by (simp add: upt_rec)
  show ?case
  proof (cases "readable img ?o 32")
    case False
    then have "\<not> loadable_header img h i" by (simp add: loadable_header_def)
    then show ?thesis using f1 False unfolding u by (simp add: Let_def)
  next
    case True
    obtain r1 s1 where l: "load_segment F h base ?p (s\<lparr>fd := f1\<rparr>) = (r1, s1)" by fastforce
    note L = load_segment_clean [OF cf, of "s\<lparr>fd := f1\<rparr>" h base ?p, simplified, OF f1(1), unfolded l, simplified]
    have lh: "loadable_header img h i \<longleftrightarrow> p_type ?p \<notin> {PT_DYNAMIC, PT_SHLIB, PT_INTERP}
        \<and> (p_type ?p = PT_LOAD \<longrightarrow> readable img (p_offset ?p) (p_filesz ?p))"
      using True by (simp add: loadable_header_def Let_def)
    show ?thesis
    proof (cases r1)
      case (Some e)
      then have "\<not> (loadable_header img h i \<and> (p_type ?p = PT_LOAD \<and> pt_load_seen s = 1 \<longrightarrow> has_got img h))"
        using L lh by auto
      moreover have "load_segments F h base (word_of_nat i) s (Suc n) = (Some e, s1)"
        using f1 True p l Some by simp
      ultimately show ?thesis using L unfolding u by (auto simp: Let_def)
    next
      case None
      have "load_segments F h base (word_of_nat i) s (Suc n) = load_segments F h base (word_of_nat (Suc i)) s1 n"
        using f1 True p l None by (simp add: add.commute)
      moreover obtain r s' where R: "load_segments F h base (word_of_nat (Suc i)) s1 n = (r, s')" by fastforce
      ultimately have run: "load_segments F h base (word_of_nat i) s (Suc n) = (r, s')" by simp
      have "good (fd s1)" using L by blast
      note IH = Suc.IH [OF this, of "Suc i", unfolded Let_def R, simplified]
      have L1: "p_type ?p \<notin> {PT_DYNAMIC, PT_SHLIB, PT_INTERP}" using L None by simp
      show ?thesis
      proof (cases "p_type ?p = PT_LOAD")
        case True
        then have "readable img (p_offset ?p) (p_filesz ?p)" "pt_load_seen s = 1 \<longrightarrow> has_got img h"
          "pt_load_seen s1 = Suc (pt_load_seen s)"
          "lmem s1 = (if pt_load_seen s = 1 then relocate img h base (place img base ?p (lmem s)) else place img base ?p (lmem s))"
          "got_addr_saved s1 = (if pt_load_seen s = 1 then got_low (got_sections img h) else got_addr_saved s)"
          using L None by simp_all
        moreover from this have "loadable_header img h i" using lh L1 by simp
        ultimately show ?thesis using IH True unfolding u Let_def run by simp
      next
        case False
        then have "pt_load_seen s1 = pt_load_seen s" "lmem s1 = lmem s" "got_addr_saved s1 = got_addr_saved s"
          "loadable_header img h i"
          using L None lh L1 by simp_all
        then show ?thesis using IH False unfolding u Let_def run by simp
      qed
    qed
  qed
qed (auto simp: Let_def)

lemma load_image_clean:
  assumes cf: "clean_file F img good" and g: "good f"
  shows "\<exists>r ls. load_image F base m f = (r, ls) \<and> (case r of
      Inl e \<Rightarrow> \<not> loadable img
    | Inr h \<Rightarrow> loadable img \<and> h = parse_header (bytes_at img 0 52) \<and> got_addr_saved ls = got_low (got_sections img h)
        \<and> lmem ls = placed img h base 0 (loads img h) m)"
proof -
  let ?b = "bytes_at img 0 52" let ?h = "parse_header ?b"
  obtain f1 where f1: "good f1" "read_exactly F 0 52 f = (if readable img 0 52 then Some ?b else None, f1)"
    using read_exactly_cleanE [OF cf g] by blast
  show ?thesis
  proof (cases "readable img 0 52 \<and> check_header ?b = None")
    case False
    then show ?thesis using f1 by (auto simp: load_image_def loadable_def Let_def split: option.splits)
  next
    case True
    let ?s = "\<lparr>lmem = m, fd = f1, pt_load_seen = 0, text_load_addr = 0, data_load_addr = 0,
               got_addr_saved = 0, got_size_saved = 0\<rparr>"
    let ?ps = "loads img ?h"
    have "good (fd ?s)" using f1(1) by simp
    from load_segments_clean [OF cf this, of ?h 0 "unat (e_phnum ?h)" base]
    obtain r s' where R: "load_segments F ?h base (word_of_nat 0) ?s (unat (e_phnum ?h)) = (r, s')"
      and L: "r = None \<longleftrightarrow> list_all (loadable_header img ?h) [0..<unat (e_phnum ?h)]
          \<and> (pt_load_seen ?s \<le> 1 \<and> 2 \<le> pt_load_seen ?s + length ?ps \<longrightarrow> has_got img ?h)"
        "r = None \<longrightarrow> pt_load_seen s' = pt_load_seen ?s + length ?ps
          \<and> lmem s' = placed img ?h base (pt_load_seen ?s) ?ps (lmem ?s)
          \<and> got_addr_saved s' = (if pt_load_seen ?s \<le> 1 \<and> 2 \<le> pt_load_seen ?s + length ?ps
               then got_low (got_sections img ?h) else got_addr_saved ?s)"
      unfolding Let_def add_0 loads_def [symmetric] by blast
    have lo: "loadable img \<longleftrightarrow> list_all (loadable_header img ?h) [0..<unat (e_phnum ?h)]
        \<and> length (loads img ?h) = 2 \<and> has_got img ?h"
      using True by (auto simp: loadable_def has_got_def Let_def)
    have run: "load_image F base m f =
        (case r of Some e \<Rightarrow> (Inl e, s') | None \<Rightarrow> (if pt_load_seen s' \<noteq> 2 then Inl Not_two_segments else Inr ?h, s'))"
      using f1 True R by (simp add: load_image_def Let_def)
    show ?thesis
    proof (cases r)
      case None
      then show ?thesis using run L lo by (cases "length ?ps = 2") simp_all
    next
      case (Some e)
      then show ?thesis using run L lo by auto
    qed
  qed
qed

subsection \<open>A small program\<close>

text \<open>Two segments, a text of two instructions at 0 and eight bytes of data at 0x10 followed by eight
  zero bytes: the first data word is the GOT, the second one is named by the only entry of .rela.data.\<close>

definition demo_elf :: "u8 list" where
  "demo_elf =
     [0x7F, 0x45, 0x4C, 0x46, 1, 2, 1, 0, 0, 0, 0, 0, 0, 0, 0, 0, 0, 2, 0, 4, 0, 0, 0, 1,
      0, 0, 0, 0, 0, 0, 0, 0x34, 0, 0, 0, 0x74, 0, 0, 0, 0, 0, 0x34, 0, 0x20, 0, 2, 0, 0x28,
      0, 3, 0, 2] @
     [0, 0, 0, 1, 0, 0, 1, 7, 0, 0, 0, 0, 0, 0, 0, 0, 0, 0, 0, 4, 0, 0, 0, 4,
      0, 0, 0, 7, 0, 0, 0, 4, 0, 0, 0, 1, 0, 0, 1, 0x0B, 0, 0, 0, 0x10, 0, 0, 0, 0x10,
      0, 0, 0, 8, 0, 0, 0, 0x10, 0, 0, 0, 7, 0, 0, 0, 4] @
     [0, 0, 0, 1, 0, 0, 0, 1, 0, 0, 0, 2, 0, 0, 0, 0x10, 0, 0, 1, 0x0B, 0, 0, 0, 4,
      0, 0, 0, 0, 0, 0, 0, 0, 0, 0, 0, 0, 0, 0, 0, 0] @
     [0, 0, 0, 6, 0, 0, 0, 1, 0, 0, 0, 2, 0, 0, 0, 0, 0, 0, 1, 0x13, 0, 0, 0, 0x0C,
      0, 0, 0, 0, 0, 0, 0, 0, 0, 0, 0, 0, 0, 0, 0, 0] @
     [0, 0, 0, 0x11, 0, 0, 0, 1, 0, 0, 0, 2, 0, 0, 0, 0, 0, 0, 0, 0xEC, 0, 0, 0, 0x1B,
      0, 0, 0, 0, 0, 0, 0, 0, 0, 0, 0, 0, 0, 0, 0, 0] @
     [0, 0x2E, 0x67, 0x6F, 0x74, 0, 0x2E, 0x72, 0x65, 0x6C, 0x61, 0x2E, 0x64, 0x61, 0x74, 0x61, 0, 0x2E, 0x73, 0x68, 0x73, 0x74, 0x72, 0x74,
      0x61, 0x62, 0] @
     [0x4E, 0x71, 0x4E, 0x75] @
     [0, 0, 0, 0x10, 0, 0, 0, 0x14] @
     [0, 0, 0, 0x14, 0, 0, 0, 1, 0, 0, 0, 0]"

text \<open>A FatFs that never fails, with the position as its only state.\<close>

definition list_file :: "u8 list \<Rightarrow> u32 fil_ops" where
  "list_file img = \<lparr>fl_lseek = (\<lambda>ofs _. ofs),
     fl_read = (\<lambda>n p. (True, bytes_at img p n, p + word_of_nat (length (bytes_at img p n))))\<rparr>"

lemma list_file_clean: "clean_file (list_file img) img (\<lambda>_. True)"
  by (simp add: clean_file_def list_file_def)

subsection \<open>Properties\<close>

text \<open>The GOT patch adds the base of the slot exactly once to every word of the table and
  leaves every byte outside the table alone.\<close>

theorem got_patched_once:
  assumes "4 * n \<le> 2 ^ 32"
  shows "(\<forall>i < n. rd32 (patch_got m task_base got n) (got + word_of_nat (4 * i)) = rd32 m (got + word_of_nat (4 * i)) + task_base)
    \<and> (\<forall>x. 4 * n \<le> unat (x - got) \<longrightarrow> patch_got m task_base got n x = m x)"
  using patch_got_word [OF _ assms] patch_got_outside [of got n m task_base] by (auto simp: same_outside_def)

theorem got_patched_once_witness:
  "rd32 (patch_got (wr32 (\<lambda>_. 0) 0x92014 0x30) 0x92000 0x92010 2) 0x92014 = 0x92030"
  using got_patched_once [of 2 "wr32 (\<lambda>_. 0) 0x92014 0x30" "0x92000" "0x92010"]
  by (auto dest: spec [of _ "Suc 0"])

end
