(* ===== verification/Spawn.thy ===== *)
theory Spawn
  imports LoaderImage
begin

text \<open>
  The contract of the loader of \<open>Loader\<close> towards the scheduler, the slots and the memory of the other
  programs.
\<close>

subsection \<open>Properties\<close>

text \<open>The frame of a new task fits the slot whatever the image is.\<close>

lemma spawned_frame:
  assumes inv: "sched_inv s xs" and i: "0 \<le> i" "i < int SLOT_COUNT"
    and c: "OS_TaskCreatePIC (s\<lparr>smem := m\<rparr>) ent 0 (Slots_BaseAddr i + SLOT_SIZE - TASK_STACK_SIZE) TASK_STACK_SIZE
         (word_of_int i) a5 = Some (Some (task_count s), s')"
  shows "sched_inv s' (xs @ [task_count s])" "current_task s' = current_task s"
    "t_sp (task_pool s' (task_count s)) = Slots_BaseAddr i + SLOT_SIZE - 66"
    "t_id (task_pool s' (task_count s)) = word_of_int i"
    "t_state (task_pool s' (task_count s)) = TASK_READY"
    "frame_at (smem s') (Slots_BaseAddr i + SLOT_SIZE - 66) (\<lambda>r. if r = 13 then a5 else 0) 0x2000 ent"
    "same_outside (Slots_BaseAddr i) (unat SLOT_SIZE) m (smem s')"
    "\<forall>t. t \<noteq> task_count s \<longrightarrow> unlink (task_pool s' t) = unlink (task_pool s t)"
proof -
  let ?s = "s\<lparr>smem := m\<rparr>" let ?top = "Slots_BaseAddr i + SLOT_SIZE"
  note top = slot_top [OF i]
  have inv': "sched_inv ?s xs" using inv by simp
  note T = created_tcb [OF inv' c]
  have "66 \<le> unat ?top" using top(2) by simp
  note F = created_frame [OF inv' T(3-5) top(1) [symmetric] this, of 0 "word_of_int i" a5]
  then have r: "sched_inv s' (xs @ [task_count s])" "current_task s' = current_task s"
    "t_sp (task_pool s' (task_count s)) = ?top - 66"
    "frame_at (smem s') (?top - 66) (\<lambda>r. if r = 13 then a5 else 0) 0x2000 ent"
    and o: "\<forall>x. unat x < unat ?top - 66 \<or> unat ?top \<le> unat x \<longrightarrow> smem s' x = m x"
    using c by auto
  show "sched_inv s' (xs @ [task_count s])" "current_task s' = current_task s"
    "t_sp (task_pool s' (task_count s)) = ?top - 66"
    "frame_at (smem s') (?top - 66) (\<lambda>r. if r = 13 then a5 else 0) 0x2000 ent" by (fact r)+
  show "t_id (task_pool s' (task_count s)) = word_of_int i" by (rule T(1))
  have "task_count s \<in> set (xs @ [task_count s])" by simp
  then have "runnable (t_state (task_pool s' (task_count s)))" using sched_invD(3) [OF r(1)] by blast
  moreover have "current_task s \<noteq> Some (task_count s)" using sched_invD(6) [OF inv] by blast
  then have "t_state (task_pool s' (task_count s)) \<noteq> TASK_RUNNING" using sched_invD(7) [OF r(1)] r(2) by metis
  ultimately show "t_state (task_pool s' (task_count s)) = TASK_READY" by (auto simp: runnable_def)
  show "same_outside (Slots_BaseAddr i) (unat SLOT_SIZE) m (smem s')"
    unfolding same_outside_def
  proof (intro allI impI)
    fix x assume x: "unat SLOT_SIZE \<le> unat (x - Slots_BaseAddr i)"
    have "unat x < unat (Slots_BaseAddr i) \<or> unat ?top \<le> unat x"
    proof (rule ccontr)
      assume "\<not> ?thesis"
      then have "unat (Slots_BaseAddr i) \<le> unat x" "unat x < unat (Slots_BaseAddr i) + 0x40000" using top(2) by auto
      then have "unat (x - Slots_BaseAddr i) < 0x40000" by (simp add: unat_sub word_le_nat_alt)
      with x show False by (simp add: SLOT_SIZE_def)
    qed
    then show "smem s' x = m x" using o top(2) by auto
  qed
  show "\<forall>t. t \<noteq> task_count s \<longrightarrow> unlink (task_pool s' t) = unlink (task_pool s t)"
    using sched_inv_create [OF inv' T(3-5), of 0 TASK_STACK_SIZE "word_of_int i" a5] c by auto
qed

text \<open>What the call gives, for any file.\<close>

definition spawn_outcome :: "'f fil_ops \<Rightarrow> 'f spawner \<Rightarrow> nat list \<Rightarrow> load_error option \<Rightarrow> 'f spawner \<Rightarrow> bool" where
  "spawn_outcome F k xs r k' \<longleftrightarrow>
     (case r of
         Some e \<Rightarrow> slot_in_use k' = slot_in_use k \<and> tasks k' = (tasks k)\<lparr>smem := smem (tasks k')\<rparr>
           \<and> (e = No_free_slot \<longleftrightarrow> (\<forall>u \<in> set (slot_in_use k). u \<noteq> 0))
       | None \<Rightarrow> \<exists>i h ls. let s = tasks k'; t = task_count (tasks k); base = Slots_BaseAddr i in
           Slots_Alloc (slot_in_use k) = (i, slot_in_use k') \<and> 0 \<le> i
         \<and> load_image F base (smem (tasks k)) (elf k) = (Inr h, ls)
         \<and> sched_inv s (xs @ [t]) \<and> current_task s = current_task (tasks k)
         \<and> t_state (task_pool s t) = TASK_READY \<and> t_id (task_pool s t) = word_of_int i
         \<and> t_sp (task_pool s t) = base + SLOT_SIZE - 66
         \<and> frame_at (smem s) (base + SLOT_SIZE - 66) (\<lambda>r. if r = 13 then base + got_addr_saved ls else 0)
             0x2000 (base + e_entry h)
         \<and> (\<forall>u. u \<noteq> t \<longrightarrow> unlink (task_pool s u) = unlink (task_pool (tasks k) u)))"

lemma spawn_outcome:
  assumes "sched_inv (tasks k) xs" and "length (slot_in_use k) = SLOT_COUNT"
  shows "\<exists>r k'. load_pic_elf_standalone F k = Some (r, k') \<and> spawn_outcome F k xs r k'"
  unfolding spawn_outcome_def
proof (rule spawn_cases [OF assms, of F], goal_cases)
  case 1
  then show ?case by simp
next
  case (2 i us e r ls)
  then have "\<not> (\<forall>u \<in> set (slot_in_use k). u \<noteq> 0)" by (auto simp: Slots_Alloc_spec split: if_splits)
  then show ?case using 2 by auto
next
  case (3 i us h ls s)
  note S = spawned_frame [OF assms(1) 3(2,3,5)]
  show ?case
    by (rule exI [of _ None], rule exI [of _ "k\<lparr>slot_in_use := us, tasks := s, elf := fd ls\<rparr>"])
      (use 3 S in \<open>auto simp: Let_def intro!: exI [of _ i] exI [of _ h] exI [of _ ls]\<close>)
qed

lemma spawn_within_slot:
  assumes "sched_inv (tasks k) xs" and "length (slot_in_use k) = SLOT_COUNT"
    and "file_of F img good" and "good (elf k)" and "image_fits img (unat SLOT_SIZE)"
    and "load_pic_elf_standalone F k = Some (r, k')"
  shows "smem (tasks k') = smem (tasks k)
    \<or> (\<exists>i us. Slots_Alloc (slot_in_use k) = (i, us) \<and> 0 \<le> i
        \<and> same_outside (Slots_BaseAddr i) (unat SLOT_SIZE) (smem (tasks k)) (smem (tasks k')))"
proof -
  have N: "unat SLOT_SIZE < 2 ^ 32" by (simp add: SLOT_SIZE_def)
  note out = load_image_outside [OF assms(3,5) N assms(4)]
  show ?thesis
  proof (rule spawn_cases [OF assms(1,2), of F], goal_cases)
    case 1
    then show ?case using assms(6) by simp
  next
    case (2 i us e r ls)
    then show ?case using assms(6) out [OF 2(4)] by auto
  next
    case (3 i us h ls s)
    note S = spawned_frame [OF assms(1) 3(2,3,5)]
    have "same_outside (Slots_BaseAddr i) (unat SLOT_SIZE) (smem (tasks k)) (smem s)"
      using out [OF 3(4)] S(7) same_outside_trans by blast
    then show ?case using assms(6) 3 by auto
  qed
qed


definition demo_kernel :: "u32 spawner" where
  "demo_kernel = \<lparr>slot_in_use = [1, 0, 0, 0, 0, 0, 0, 0, 0, 0], tasks = idle_sched, elf = 0\<rparr>"

lemma demo_kernel_ok: "sched_inv (tasks demo_kernel) []" "length (slot_in_use demo_kernel) = SLOT_COUNT"
  using idle_inv(1) by (simp_all add: demo_kernel_def SLOT_COUNT_def)

lemma image_fits_mono: "image_fits img n \<Longrightarrow> n \<le> N \<Longrightarrow> image_fits img N"
  by (fastforce simp: image_fits_def segments_fit_def got_fits_def relas_fit_def list_all_iff Let_def)

lemma demo_fits: "image_fits demo_elf 0x20"
  by code_simp

lemma demo_fits_slot: "image_fits demo_elf (unat SLOT_SIZE)"
  by (rule image_fits_mono [OF demo_fits]) (simp add: SLOT_SIZE_def)




text \<open>Nothing bounds the addresses of the program headers: a one byte segment with the physical address
  0x40000, loaded to slot 0, is the first byte of slot 1.\<close>

lemma segment_may_leave_slot:
  assumes "lmem s = (\<lambda>_. 0)" and "pt_load_seen s = 0"
  shows "lmem (snd (load_segment (list_file [0xAA]) h (Slots_BaseAddr 0)
      \<lparr>p_type = PT_LOAD, p_offset = 0, p_paddr = 0x40000, p_filesz = 1, p_memsz = 1\<rparr> s)) (Slots_BaseAddr 1) = 0xAA"
  using assms by (simp add: load_segment_def finish_segment_def list_file_def bytes_at_def Let_def wr_bytes_def
      Slots_BaseAddr_def SLOT_BASE_def SLOT_SIZE_def)

end
