(* ===== verification/TaskCreate.thy ===== *)
theory TaskCreate
  imports KMem KString Scheduler Loader
begin

text \<open>
  The other two ways to turn a loaded image into a task: Task_CreateFromElf of task_create.c, which
  allocates the task record, copies the arguments to the top of the slot and builds the first frame
  by hand, and load_elf_as_task of elf_task_integration.c, which starts a trampoline that finds the
  entry point and the arguments in one global record. All memory of Task_CreateFromElf is the memory
  of the kernel heap; None is a string without end.
\<close>

subsection \<open>task_create.c\<close>

definition REGBLK_A5 :: nat where "REGBLK_A5 = 1"
definition REGBLK_NREGS :: nat where "REGBLK_NREGS = 15"
definition ARGS_AREA_SIZE :: u32 where "ARGS_AREA_SIZE = 512"

text \<open>The loop over the arguments, from the last one down; \<open>n\<close> arguments are left.\<close>

primrec copy_strings :: "mem \<Rightarrow> addr \<Rightarrow> addr \<Rightarrow> addr \<Rightarrow> nat \<Rightarrow> (mem \<times> addr) option" where
  "copy_strings m argv argv_copy str_cursor 0 = Some (m, str_cursor)"
| "copy_strings m argv argv_copy str_cursor (Suc i) =
     (let p = rd32 m (argv + word_of_nat (4 * i)) in
      case strlen m p of
        None \<Rightarrow> None
      | Some l \<Rightarrow>
          let len = l + 1; str_cursor = str_cursor - len; m = snd (memcpy m str_cursor p len)
          in copy_strings (wr32 m (argv_copy + word_of_nat (4 * i)) str_cursor) argv argv_copy str_cursor i)"

text \<open>The memory, \<open>argv_copy\<close> and the lowest address used.\<close>

definition copy_args_into_slot :: "mem \<Rightarrow> addr \<Rightarrow> u32 \<Rightarrow> addr \<Rightarrow> (mem \<times> addr \<times> addr) option" where
  "copy_args_into_slot m area_top argc argv =
     (let cursor = (area_top - (argc + 1) * 4) AND NOT 3
      in map_option (\<lambda>(m, str_cursor). (wr32 m (cursor + 4 * argc) 0, cursor, str_cursor))
           (copy_strings m argv cursor cursor (nat (sint argc))))"

text \<open>The frame below the arguments: argv, argc, a return address, PC and SR, and fifteen registers.\<close>

definition elf_frame :: "mem \<Rightarrow> addr \<Rightarrow> addr \<Rightarrow> u32 \<Rightarrow> u32 \<Rightarrow> u32 \<Rightarrow> mem \<times> addr" where
  "elf_frame m args_area_bottom argv_copy argc pc_value a5_value =
     (let sp = args_area_bottom AND NOT 3;
          sp = sp - 4; m = wr32 m sp argv_copy;
          sp = sp - 4; m = wr32 m sp argc;
          sp = sp - 4; m = wr32 m sp 0xDEADBEEF;
          sp = sp - 6; m = wr16 m sp 0x2000; m = wr32 m (sp + 2) pc_value;
          sp = sp - word_of_nat (REGBLK_NREGS * 4); m = memset m sp 0 (word_of_nat (REGBLK_NREGS * 4));
          m = wr32 m (sp + word_of_nat (4 * REGBLK_A5)) a5_value
      in (m, sp))"

text \<open>The record is 12 bytes: sp, next and state, where TASK_READY is 0.\<close>

definition Task_CreateFromElf :: "kheap \<Rightarrow> u32 \<Rightarrow> u32 \<Rightarrow> u32 \<Rightarrow> u32 \<Rightarrow> addr \<Rightarrow> (addr \<times> kheap) option" where
  "Task_CreateFromElf k task_base ent got_addr argc argv =
     (case kmalloc k 12 of
        None \<Rightarrow> None
      | Some (tcb, k) \<Rightarrow>
          if tcb = 0 then Some (0, k)
          else
            let slot_top = task_base + SLOT_SIZE in
            (case copy_args_into_slot (hmem k) slot_top argc argv of
               None \<Rightarrow> None
             | Some (m, argv_copy, _) \<Rightarrow>
                 (case elf_frame m (slot_top - ARGS_AREA_SIZE) argv_copy argc (task_base + ent)
                         (task_base + got_addr) of
                    (m, sp) \<Rightarrow> Some (tcb, k\<lparr>hmem := wr32 (wr32 (wr32 m tcb sp) (tcb + 4) 0) (tcb + 8) 0\<rparr>))))"

subsection \<open>elf_task_integration.c\<close>

record elf_task_args =
  ea_entry :: addr
  ea_argc :: u32
  ea_argv :: addr
  ea_ret :: u32

text \<open>The parameters \<open>trampoline\<close> and \<open>g_addr\<close> are the addresses of ELF_TaskTrampoline and g_elf_args.\<close>

definition load_elf_as_task :: "addr \<Rightarrow> addr \<Rightarrow> sched \<times> elf_task_args \<Rightarrow> u32 \<Rightarrow> addr \<Rightarrow> u32 \<Rightarrow> addr \<Rightarrow> u32
    \<Rightarrow> (int \<times> sched \<times> elf_task_args) option" where
  "load_elf_as_task trampoline g_addr x argc argv entry_addr task_stack task_stack_size =
     (case x of (s, g_elf_args) \<Rightarrow>
        let g_elf_args = g_elf_args\<lparr>ea_entry := entry_addr, ea_argc := argc, ea_argv := argv\<rparr>
        in map_option (\<lambda>(t, s). if t = None then (- 1, s, g_elf_args) else (0, s, g_elf_args))
             (OS_TaskCreate s trampoline g_addr task_stack task_stack_size 1))"

text \<open>The trampoline reads the record OS_TaskArg points to, which must be \<open>g_elf_args\<close>, runs the program,
  whose effect on the scheduler is the parameter \<open>run\<close>, stores its result and exits.\<close>

definition ELF_TaskTrampoline :: "(addr \<Rightarrow> u32 \<Rightarrow> addr \<Rightarrow> sched \<Rightarrow> u32 \<times> sched) \<Rightarrow> addr \<Rightarrow> sched \<times> elf_task_args
    \<Rightarrow> (sched \<times> elf_task_args) option" where
  "ELF_TaskTrampoline run g_addr x =
     (case x of (s, a) \<Rightarrow>
        if OS_TaskArg s \<noteq> g_addr then None
        else (case run (ea_entry a) (ea_argc a) (ea_argv a) s of
                (ret, s) \<Rightarrow> map_option (\<lambda>s. (s, a\<lparr>ea_ret := ret\<rparr>)) (OS_TaskExit s)))"

subsection \<open>Copying the arguments\<close>

text \<open>Memory is the same at every address outside \<open>[lo, hi)\<close>.\<close>

definition kept_outside :: "nat \<Rightarrow> nat \<Rightarrow> mem \<Rightarrow> mem \<Rightarrow> bool" where
  "kept_outside lo hi m m' \<longleftrightarrow> (\<forall>x. unat x < lo \<or> hi \<le> unat x \<longrightarrow> m' x = m x)"

lemma kept_outside_refl [simp]: "kept_outside lo hi m m"
  by (simp add: kept_outside_def)

lemma kept_outside_trans: "kept_outside lo hi m m' \<Longrightarrow> kept_outside lo hi m' m'' \<Longrightarrow> kept_outside lo hi m m''"
  by (simp add: kept_outside_def)

lemma kept_outside_mono: "kept_outside lo hi m m' \<Longrightarrow> lo' \<le> lo \<Longrightarrow> hi \<le> hi' \<Longrightarrow> kept_outside lo' hi' m m'"
  by (auto simp: kept_outside_def)

lemma kept_outside_wr_bytes:
  "unat a + length bs \<le> 2 ^ 32 \<Longrightarrow> kept_outside (unat a) (unat a + length bs) m (wr_bytes m a bs)"
  unfolding kept_outside_def by (intro allI impI wr_bytes_other unat_diff_ge) auto

lemma kept_outside_wr32: "unat a + 4 \<le> 2 ^ 32 \<Longrightarrow> kept_outside (unat a) (unat a + 4) m (wr32 m a v)"
  unfolding kept_outside_def by (intro allI impI wr32_other unat_diff_ge) auto

text \<open>The \<open>n\<close> bytes at \<open>a\<close> do not wrap around and lie outside \<open>[lo, hi)\<close>.\<close>

definition clear_of :: "nat \<Rightarrow> nat \<Rightarrow> addr \<Rightarrow> nat \<Rightarrow> bool" where
  "clear_of lo hi a n \<longleftrightarrow> unat a + n \<le> 2 ^ 32 \<and> (unat a + n \<le> lo \<or> hi \<le> unat a)"

lemma kept_outside_byte: "kept_outside lo hi m m' \<Longrightarrow> clear_of lo hi a n \<Longrightarrow> i < n \<Longrightarrow> m' (a + word_of_nat i) = m (a + word_of_nat i)"
  using unat_plus_small [of a i] by (auto simp: kept_outside_def clear_of_def)

lemma kept_outside_rd32: "kept_outside lo hi m m' \<Longrightarrow> clear_of lo hi a 4 \<Longrightarrow> rd32 m' a = rd32 m a"
  by (rule rd32_at) (rule kept_outside_byte)

lemma kept_outside_cstr: "kept_outside lo hi m m' \<Longrightarrow> clear_of lo hi a (Suc (length s)) \<Longrightarrow> cstr m' a s = cstr m a s"
  by (rule cstr_cong) (rule kept_outside_byte, auto)

text \<open>The vector of the caller: a pointer to each of the strings, all of it outside \<open>[lo, hi)\<close>.\<close>

definition arg_vector :: "nat \<Rightarrow> nat \<Rightarrow> mem \<Rightarrow> addr \<Rightarrow> u8 list list \<Rightarrow> bool" where
  "arg_vector lo hi m argv args \<longleftrightarrow> (\<forall>i < length args. clear_of lo hi (argv + word_of_nat (4 * i)) 4
     \<and> cstr m (rd32 m (argv + word_of_nat (4 * i))) (args ! i)
     \<and> clear_of lo hi (rd32 m (argv + word_of_nat (4 * i))) (Suc (length (args ! i))))"

definition args_size :: "u8 list list \<Rightarrow> nat" where
  "args_size args = sum_list (map (\<lambda>s. Suc (length s)) args)"

lemma arg_vector_kept:
  assumes "arg_vector lo hi m argv args" and "kept_outside lo hi m m'"
  shows "arg_vector lo hi m' argv args"
  using assms kept_outside_rd32 [OF assms(2)] kept_outside_cstr [OF assms(2)] by (simp add: arg_vector_def)

lemma arg_vector_butlast:
  assumes "arg_vector lo hi m argv (args @ [s])"
  shows "arg_vector lo hi m argv args"
  unfolding arg_vector_def
proof (intro allI impI)
  fix i assume i: "i < length args"
  then show "clear_of lo hi (argv + word_of_nat (4 * i)) 4 \<and> cstr m (rd32 m (argv + word_of_nat (4 * i))) (args ! i)
     \<and> clear_of lo hi (rd32 m (argv + word_of_nat (4 * i))) (Suc (length (args ! i)))"
    using assms [unfolded arg_vector_def, rule_format, of i] by (simp add: nth_append)
qed

lemma cstr_rd_bytes: "cstr m a s \<Longrightarrow> rd_bytes m a (Suc (length s)) = s @ [0]"
  using cstr_append [of m a s "[]"] by (simp add: rd_bytes_def)

lemma cstr_length:
  assumes "cstr m a s" and "clear_of lo hi a (Suc (length s))"
  shows "strlen m a = Some (word_of_nat (length s))"
  using strlen_cstr [OF assms(1)] .

lemma copy_strings_ok:
  "arg_vector (unat cur - args_size args) hi m argv args \<Longrightarrow> args_size args \<le> unat cur \<Longrightarrow> unat cur \<le> unat ac \<Longrightarrow>
    unat ac + 4 * length args \<le> hi \<Longrightarrow> hi < 2 ^ 32 \<Longrightarrow>
    \<exists>m' cur'. copy_strings m argv ac cur (length args) = Some (m', cur')
      \<and> kept_outside (unat cur - args_size args) (unat ac + 4 * length args) m m'
      \<and> (\<forall>x. unat cur \<le> unat x \<and> unat x < unat ac \<longrightarrow> m' x = m x)
      \<and> (\<forall>i < length args. \<exists>q. rd32 m' (ac + word_of_nat (4 * i)) = q \<and> cstr m' q (args ! i)
           \<and> unat cur - args_size args \<le> unat q \<and> unat q + Suc (length (args ! i)) \<le> unat cur)"
proof (induction args arbitrary: m cur rule: rev_induct)
  case Nil
  then show ?case by simp
next
  case (snoc s args)
  let ?n = "length args" and ?lo = "unat cur - args_size (args @ [s])"
  let ?p = "rd32 m (argv + word_of_nat (4 * ?n))" and ?len = "word_of_nat (Suc (length s)) :: u32"
  let ?c = "cur - ?len"
  have sz: "args_size (args @ [s]) = args_size args + Suc (length s)" by (simp add: args_size_def)
  have av: "cstr m ?p s" "clear_of ?lo hi ?p (Suc (length s))"
    using snoc.prems(1) [unfolded arg_vector_def, rule_format, of ?n] by simp_all
  have cl: "unat cur < 2 ^ 32" by simp
  have "Suc (length s) \<le> unat cur" using snoc.prems(2) sz by simp
  then have len: "unat ?len = Suc (length s)" using cl by (intro unat_of_nat32) linarith
  have c: "unat ?c = unat cur - Suc (length s)"
    using \<open>Suc (length s) \<le> unat cur\<close> len by (subst unat_sub) (simp_all add: word_le_nat_alt)
  let ?m1 = "wr_bytes m ?c (s @ [0])"
  let ?a = "ac + word_of_nat (4 * ?n)"
  let ?m2 = "wr32 ?m1 ?a ?c"
  have "Suc (length s) \<le> unat (?c - ?p)"
    by (rule unat_diff_ge) (use av(2) c sz snoc.prems in \<open>auto simp: clear_of_def\<close>)
  then have "snd (memcpy m ?c ?p ?len) = ?m1"
    using len cstr_rd_bytes [OF av(1)] by (simp add: memcpy_eq del: of_nat_Suc)
  moreover have "strlen m ?p = Some (word_of_nat (length s))" by (rule cstr_length [OF av])
  moreover have "word_of_nat (length s) + 1 = ?len" by simp
  ultimately have run: "copy_strings m argv ac cur (length (args @ [s])) = copy_strings ?m2 argv ac ?c ?n"
    by (simp add: Let_def add.commute)
  have "unat ac + 4 * ?n < 2 ^ 32" using snoc.prems(4,5) by simp
  then have a: "unat ?a = unat ac + 4 * ?n" by (rule unat_plus_small)
  have lo: "unat ?c - args_size args = ?lo" using c sz by simp
  have k1: "kept_outside (unat ?c) (unat cur) m ?m1"
  proof -
    have e: "unat ?c + length (s @ [0]) = unat cur" using c \<open>Suc (length s) \<le> unat cur\<close> by simp
    show ?thesis by (rule kept_outside_wr_bytes [of ?c "s @ [0]" m, unfolded e]) simp
  qed
  have k2: "kept_outside (unat ?a) (unat ?a + 4) ?m1 ?m2" using snoc.prems(4,5) a by (intro kept_outside_wr32) simp
  have "kept_outside ?lo hi m ?m1" by (rule kept_outside_mono [OF k1]) (use c sz snoc.prems in auto)
  moreover have "kept_outside ?lo hi ?m1 ?m2" by (rule kept_outside_mono [OF k2]) (use a c sz snoc.prems in auto)
  ultimately have "arg_vector ?lo hi ?m2 argv (args @ [s])"
    using arg_vector_kept [OF snoc.prems(1)] kept_outside_trans by blast
  then have "arg_vector ?lo hi ?m2 argv args" by (rule arg_vector_butlast)
  moreover have pr: "args_size args \<le> unat ?c" "unat ?c \<le> unat ac" "unat ac + 4 * ?n \<le> hi"
    using snoc.prems c sz by auto
  ultimately obtain m' cur' where IH: "copy_strings ?m2 argv ac ?c ?n = Some (m', cur')"
    "kept_outside ?lo (unat ac + 4 * ?n) ?m2 m'"
    "\<forall>x. unat ?c \<le> unat x \<and> unat x < unat ac \<longrightarrow> m' x = ?m2 x"
    "\<forall>i < ?n. \<exists>q. rd32 m' (ac + word_of_nat (4 * i)) = q \<and> cstr m' q (args ! i)
           \<and> ?lo \<le> unat q \<and> unat q + Suc (length (args ! i)) \<le> unat ?c"
    using snoc.IH [OF _ pr snoc.prems(5), of ?m2, unfolded lo] by blast
  have kept: "kept_outside ?lo (unat ac + 4 * length (args @ [s])) m m'"
  proof (rule kept_outside_trans [OF kept_outside_trans [OF kept_outside_mono [OF k1] kept_outside_mono [OF k2]] kept_outside_mono [OF IH(2)]])
  qed (use a c sz snoc.prems in auto)
  have mid: "m' x = m x" if "unat cur \<le> unat x" "unat x < unat ac" for x
    using IH(3) that k1 k2 a c by (auto simp: kept_outside_def)
  have new: "rd32 m' ?a = ?c"
  proof -
    have "rd32 m' ?a = rd32 ?m2 ?a" by (rule kept_outside_rd32 [OF IH(2)]) (use a snoc.prems in \<open>auto simp: clear_of_def\<close>)
    then show ?thesis by simp
  qed
  have "cstr m' ?c s"
  proof -
    have "cstr ?m1 ?c s"
      by (rule cstr_wr_bytes) (use cstr_nonzero [OF av(1)] le_less_trans [OF \<open>Suc (length s) \<le> unat cur\<close> cl] in simp_all)
    moreover have "cstr m' ?c s = cstr ?m1 ?c s"
    proof (rule cstr_cong)
      fix i assume "i \<le> length s"
      then have "unat (?c + word_of_nat i) = unat ?c + i" using c cl \<open>Suc (length s) \<le> unat cur\<close> by (intro unat_plus_small) linarith
      then have x: "unat ?c \<le> unat (?c + word_of_nat i)" "unat (?c + word_of_nat i) < unat ac"
        using c \<open>i \<le> length s\<close> snoc.prems(3) \<open>Suc (length s) \<le> unat cur\<close> by linarith+
      then have "m' (?c + word_of_nat i) = ?m2 (?c + word_of_nat i)" using IH(3) by blast
      also have "\<dots> = ?m1 (?c + word_of_nat i)" using k2 x(2) a unfolding kept_outside_def by (metis trans_less_add1)
      finally show "m' (?c + word_of_nat i) = ?m1 (?c + word_of_nat i)" .
    qed
    ultimately show ?thesis by simp
  qed
  note cs = this
  have "\<exists>q. rd32 m' (ac + word_of_nat (4 * i)) = q \<and> cstr m' q ((args @ [s]) ! i)
           \<and> ?lo \<le> unat q \<and> unat q + Suc (length ((args @ [s]) ! i)) \<le> unat cur" if i: "i < length (args @ [s])" for i
  proof (cases "i = ?n")
    case True
    have "(args @ [s]) ! i = s" using True by simp
    moreover have "?lo \<le> unat ?c" "unat ?c + Suc (length s) \<le> unat cur"
      using c sz \<open>Suc (length s) \<le> unat cur\<close> by linarith+
    ultimately show ?thesis using new cs unfolding True by simp
  next
    case False
    then have lt: "i < ?n" using i by simp
    then have nth: "(args @ [s]) ! i = args ! i" by (simp add: nth_append)
    from IH(4) lt obtain q where q: "rd32 m' (ac + word_of_nat (4 * i)) = q" "cstr m' q (args ! i)"
      "?lo \<le> unat q" "unat q + Suc (length (args ! i)) \<le> unat ?c" by blast
    have "unat ?c \<le> unat cur" unfolding c by (rule diff_le_self)
    with q(4) have "unat q + Suc (length (args ! i)) \<le> unat cur" by (rule le_trans)
    then show ?thesis unfolding nth using q(1-3) by blast
  qed
  then show ?case using run IH(1) kept mid by auto
qed

text \<open>A null-terminated vector at \<open>av\<close> of copies of the strings, kept between \<open>lo\<close> and \<open>av\<close>.\<close>

definition args_at :: "mem \<Rightarrow> nat \<Rightarrow> addr \<Rightarrow> u8 list list \<Rightarrow> bool" where
  "args_at m lo av args \<longleftrightarrow> rd32 m (av + word_of_nat (4 * length args)) = 0
     \<and> (\<forall>i < length args. \<exists>q. rd32 m (av + word_of_nat (4 * i)) = q \<and> cstr m q (args ! i)
          \<and> lo \<le> unat q \<and> unat q + Suc (length (args ! i)) \<le> unat av)"

lemma clear_ofI: "unat a = x \<Longrightarrow> x + n \<le> 2 ^ 32 \<Longrightarrow> x + n \<le> lo \<or> hi \<le> x \<Longrightarrow> clear_of lo hi a n"
  by (simp add: clear_of_def)

lemma args_at_kept:
  assumes "args_at m lo av args" and "kept_outside l h m m'" and "l \<le> h"
    and "h \<le> lo \<or> unat av + 4 * Suc (length args) \<le> l" and "lo \<le> unat av" and "unat av + 4 * Suc (length args) \<le> 2 ^ 32"
  shows "args_at m' lo av args"
proof -
  have p: "rd32 m' (av + word_of_nat (4 * i)) = rd32 m (av + word_of_nat (4 * i))" if "i \<le> length args" for i
  proof (rule kept_outside_rd32 [OF assms(2)], rule clear_ofI)
    show "unat (av + word_of_nat (4 * i)) = unat av + 4 * i" by (rule unat_plus_small) (use that assms(6) in simp)
  qed (use that assms(3-6) in auto)
  have s: "cstr m' q s = cstr m q s" if "lo \<le> unat q" "unat q + Suc (length s) \<le> unat av" for q s
    by (rule kept_outside_cstr [OF assms(2)], rule clear_ofI [OF refl]) (use that assms(3-6) in auto)
  show ?thesis unfolding args_at_def
  proof (intro conjI allI impI)
    show "rd32 m' (av + word_of_nat (4 * length args)) = 0" using p assms(1) by (simp add: args_at_def)
    fix i assume i: "i < length args"
    with assms(1) obtain q where q: "rd32 m (av + word_of_nat (4 * i)) = q" "cstr m q (args ! i)"
      "lo \<le> unat q" "unat q + Suc (length (args ! i)) \<le> unat av" unfolding args_at_def by blast
    then show "\<exists>q. rd32 m' (av + word_of_nat (4 * i)) = q \<and> cstr m' q (args ! i)
          \<and> lo \<le> unat q \<and> unat q + Suc (length (args ! i)) \<le> unat av"
      using p [of i] s i by (intro exI [of _ q]) simp
  qed
qed

lemma copy_args_ok:
  assumes av: "arg_vector (unat tp - 512) (unat tp) m argv args" and T: "4 dvd unat tp" "512 \<le> unat tp"
    and sz: "args_size args + 4 * Suc (length args) \<le> 512"
  shows "\<exists>m' low. copy_args_into_slot m tp (word_of_nat (length args)) argv
      = Some (m', tp - word_of_nat (4 * Suc (length args)), low)
    \<and> kept_outside (unat tp - 512) (unat tp) m m' \<and> args_at m' (unat tp - 512) (tp - word_of_nat (4 * Suc (length args))) args"
proof -
  let ?n = "length args"
  let ?w = "word_of_nat (4 * Suc ?n) :: u32" let ?c = "tp - ?w"
  have n: "4 * Suc ?n \<le> 512" using sz by simp
  then have w: "unat ?w = 4 * Suc ?n" by (intro unat_of_nat32) simp
  have c: "unat ?c = unat tp - 4 * Suc ?n" using n T(2) w by (subst unat_sub) (simp_all add: word_le_nat_alt)
  have tl: "unat tp < 2 ^ 32" by simp
  have "unat (?c AND NOT 3) = unat ?c" unfolding and_not_3 c using T(1) n T(2) by (simp add: dvd_imp_mod_0)
  then have cur: "(tp - (word_of_nat ?n + 1) * 4) AND NOT 3 = ?c" by (simp add: word_unat_eq_iff algebra_simps)
  have "unat (word_of_nat ?n :: u32) = ?n" using n by (intro unat_of_nat32) simp
  then have "sint (word_of_nat ?n :: u32) = int ?n" using n by (subst sint_small) simp_all
  then have cnt: "nat (sint (word_of_nat ?n :: u32)) = ?n" by simp
  have lo: "unat tp - 512 \<le> unat ?c - args_size args" unfolding c using sz T(2) by simp
  have "arg_vector (unat ?c - args_size args) (unat tp) m argv args"
    using av lo unfolding arg_vector_def clear_of_def by (meson le_trans)
  moreover have "args_size args \<le> unat ?c" "unat ?c + 4 * ?n \<le> unat tp" unfolding c using sz T(2) by simp_all
  ultimately obtain m1 low where m1: "copy_strings m argv ?c ?c ?n = Some (m1, low)"
    "kept_outside (unat ?c - args_size args) (unat ?c + 4 * ?n) m m1"
    "\<forall>i < ?n. \<exists>q. rd32 m1 (?c + word_of_nat (4 * i)) = q \<and> cstr m1 q (args ! i)
           \<and> unat ?c - args_size args \<le> unat q \<and> unat q + Suc (length (args ! i)) \<le> unat ?c"
    using copy_strings_ok [of ?c args "unat tp" m argv ?c] tl by blast
  have ce: "unat ?c + 4 * Suc ?n = unat tp" using c n T(2) by simp
  have e: "unat (?c + word_of_nat (4 * ?n)) = unat ?c + 4 * ?n" by (rule unat_plus_small, rule le_less_trans [OF _ tl]) (use ce in simp)
  have top_le: "x \<le> unat tp \<Longrightarrow> x \<le> 2 ^ 32" for x using tl by (rule less_imp_le [OF le_less_trans, rotated])
  let ?m = "wr32 m1 (?c + 4 * word_of_nat ?n) 0"
  have a: "?c + 4 * word_of_nat ?n = ?c + word_of_nat (4 * ?n)" by simp
  have e4: "unat (?c + word_of_nat (4 * ?n)) + 4 = unat tp" using e ce by simp
  have "kept_outside (unat (?c + word_of_nat (4 * ?n))) (unat tp) m1 ?m"
    unfolding a by (rule kept_outside_wr32 [of "?c + word_of_nat (4 * ?n)" m1 0, unfolded e4]) simp
  then have k: "kept_outside (unat ?c + 4 * ?n) (unat tp) m1 ?m" unfolding e .
  have "kept_outside (unat tp - 512) (unat tp) m ?m"
    by (rule kept_outside_trans [OF kept_outside_mono [OF m1(2)] kept_outside_mono [OF k]]) (use lo ce in auto)
  moreover have "args_at ?m (unat tp - 512) ?c args"
    unfolding args_at_def
  proof (intro conjI allI impI)
    show "rd32 ?m (?c + word_of_nat (4 * ?n)) = 0" unfolding a by simp
    fix i assume i: "i < ?n"
    with m1(3) obtain q where q: "rd32 m1 (?c + word_of_nat (4 * i)) = q" "cstr m1 q (args ! i)"
      "unat ?c - args_size args \<le> unat q" "unat q + Suc (length (args ! i)) \<le> unat ?c" by blast
    have "rd32 ?m (?c + word_of_nat (4 * i)) = rd32 m1 (?c + word_of_nat (4 * i))"
    proof (rule kept_outside_rd32 [OF k], rule clear_ofI)
      show "unat (?c + word_of_nat (4 * i)) = unat ?c + 4 * i" by (rule unat_plus_small, rule le_less_trans [OF _ tl]) (use i ce in simp)
      show "unat ?c + 4 * i + 4 \<le> 2 ^ 32" by (rule top_le) (use i ce in simp)
    qed (use i in linarith)
    moreover have "unat q + Suc (length (args ! i)) \<le> unat tp" using q(4) ce by linarith
    then have "clear_of (unat ?c + 4 * ?n) (unat tp) q (Suc (length (args ! i)))"
      using q(4) by (intro clear_ofI [OF refl] top_le disjI1) linarith+
    then have "cstr ?m q (args ! i) = cstr m1 q (args ! i)" by (rule kept_outside_cstr [OF k])
    ultimately show "\<exists>q. rd32 ?m (?c + word_of_nat (4 * i)) = q \<and> cstr ?m q (args ! i)
          \<and> unat tp - 512 \<le> unat q \<and> unat q + Suc (length (args ! i)) \<le> unat ?c"
      using q lo by (intro exI [of _ q]) simp
  qed
  ultimately show ?thesis using m1(1) unfolding copy_args_into_slot_def Let_def cur cnt by simp
qed

subsection \<open>The frame\<close>

lemma kept_rd16: "kept_outside lo hi m m' \<Longrightarrow> clear_of lo hi a 2 \<Longrightarrow> rd16 m' a = rd16 m a"
  using kept_outside_byte [of lo hi m m' a 2 0] kept_outside_byte [of lo hi m m' a 2 1] by (intro rd16_cong) simp_all

lemma rd32_zeros:
  assumes "k + 4 \<le> n" and "n \<le> 2 ^ 32"
  shows "rd32 (wr_bytes m a (replicate n 0)) (a + word_of_nat k) = 0"
proof -
  have "wr_bytes m a (replicate n 0) (a + word_of_nat k + word_of_nat j) = 0" if "j < 4" for j
  proof -
    have "unat (word_of_nat (k + j) :: u32) = k + j" using assms that by (intro unat_of_nat32) simp
    then show ?thesis using assms that by (simp add: wr_bytes_def)
  qed
  from this [of 0] this [of 1] this [of 2] this [of 3] show ?thesis by (simp add: rd32_def)
qed

lemma elf_frame_layout:
  assumes b: "4 dvd unat b" "78 \<le> unat b" and f: "elf_frame m b av argc pcv a5 = (m', sp)"
  shows "sp = b - 78" "kept_outside (unat b - 78) (unat b) m m'"
    "frame_at m' sp (\<lambda>r. if r = 1 then a5 else 0) 0x2000 pcv"
    "rd32 m' (sp + 66) = 0xDEADBEEF" "rd32 m' (sp + 70) = argc" "rd32 m' (sp + 74) = av"
proof -
  have "unat (b AND NOT 3) = unat b" unfolding and_not_3 using b(1) by (simp add: dvd_imp_mod_0)
  then have al: "b AND NOT 3 = b" by (simp add: word_unat_eq_iff)
  define w where "w = b - 78"
  have bw: "b = w + 78" by (simp add: w_def)
  let ?m3 = "wr32 (wr32 (wr32 m (w + 74) av) (w + 70) argc) (w + 66) 0xDEADBEEF"
  let ?m5 = "wr32 (wr16 ?m3 (w + 60) 0x2000) (w + 62) pcv"
  let ?m6 = "wr_bytes ?m5 w (replicate 60 0)"
  have sixty: "unat (word_of_nat (15 * 4) :: u32) = 60" by simp
  have m': "m' = wr32 ?m6 (w + 4) a5" and sp: "sp = w"
    using f [unfolded elf_frame_def al Let_def memset_eq REGBLK_NREGS_def REGBLK_A5_def sixty] unfolding bw
    by (auto simp: add.commute)
  show "sp = b - 78" using sp by (simp add: w_def)
  have s: "unat w = unat b - 78" unfolding w_def using b(2) by (subst unat_sub) (simp_all add: word_le_nat_alt)
  have lt: "unat w + k < 2 ^ 32" if "k \<le> 78" for k
    by (rule le_less_trans [of _ "unat b"]) (use that s b(2) in simp_all)
  have U: "unat (w + word_of_nat k) = unat w + k" if "k \<le> 78" for k by (rule unat_plus_small [OF lt [OF that]])
  note V = U [of 4, simplified] U [of 60, simplified] U [of 62, simplified] U [of 66, simplified] U [of 70, simplified]
    U [of 74, simplified]
  note L = lt [of 78, simplified]
  have w32: "kept_outside (unat w) (unat b) x (wr32 x (w + word_of_nat k) v)" if "k + 4 \<le> 78" for x k v
    by (rule kept_outside_mono [OF kept_outside_wr32]) (use U [of k] lt [of "k + 4"] that s b(2) in auto)
  have k6: "kept_outside (unat w) (unat w + 60) ?m5 ?m6"
    using kept_outside_wr_bytes [of w "replicate 60 0" ?m5] L by simp
  have k16: "kept_outside (unat w + 60) (unat w + 62) ?m3 (wr16 ?m3 (w + 60) 0x2000)"
    unfolding kept_outside_def by (intro allI impI wr16_other unat_diff_ge) (use V(2) L in auto)
  show "kept_outside (unat b - 78) (unat b) m m'"
  proof -
    let ?m4 = "wr16 ?m3 (w + 60) 0x2000"
    have a: "kept_outside (unat w) (unat b) m ?m3"
      using kept_outside_trans [OF kept_outside_trans [OF w32 [of 74 m av, simplified] w32 [of 70 _ argc, simplified]] w32 [of 66, simplified]] .
    have c: "kept_outside (unat w) (unat b) ?m3 ?m4" by (rule kept_outside_mono [OF k16]) (use s b(2) in auto)
    have d: "kept_outside (unat w) (unat b) ?m4 ?m5" using w32 [of 62 ?m4 pcv] by simp
    have e: "kept_outside (unat w) (unat b) ?m5 ?m6" by (rule kept_outside_mono [OF k6]) (use s b(2) in auto)
    have g: "kept_outside (unat w) (unat b) ?m6 m'" unfolding m' using w32 [of 4 ?m6 a5] by simp
    show ?thesis using kept_outside_trans [OF kept_outside_trans [OF kept_outside_trans [OF kept_outside_trans [OF a c] d] e] g] unfolding s .
  qed
  have hi: "rd32 m' (w + word_of_nat k) = rd32 ?m5 (w + word_of_nat k)" if "60 \<le> k" "k + 4 \<le> 78" for k
  proof -
    have "clear_of (unat w) (unat w + 60) (w + word_of_nat k) 4" "clear_of (unat (w + 4)) (unat (w + 4) + 4) (w + word_of_nat k) 4"
      using U [of k] V(1) lt [of "k + 4"] that by (auto simp: clear_of_def)
    then show ?thesis
      using kept_outside_rd32 [OF k6] kept_outside_rd32 [OF kept_outside_wr32 [of "w + 4" ?m6 a5]] V(1) L unfolding m' by simp
  qed
  have p: "apart 4 (w + 62) 4 (w + 66)" "apart 4 (w + 62) 4 (w + 70)" "apart 4 (w + 62) 4 (w + 74)"
    "apart 2 (w + 60) 4 (w + 66)" "apart 2 (w + 60) 4 (w + 70)" "apart 2 (w + 60) 4 (w + 74)"
    "apart 4 (w + 66) 4 (w + 70)" "apart 4 (w + 66) 4 (w + 74)" "apart 4 (w + 70) 4 (w + 74)"
    using L by (simp_all add: apart_def V)
  show "rd32 m' (sp + 66) = 0xDEADBEEF" "rd32 m' (sp + 70) = argc" "rd32 m' (sp + 74) = av"
    using hi [of 66, simplified] hi [of 70, simplified] hi [of 74, simplified] p
    by (simp_all add: sp rd32_wr32_apart rd32_wr16_apart)
  show "frame_at m' sp (\<lambda>r. if r = 1 then a5 else 0) 0x2000 pcv"
    unfolding frame_at_def
  proof (intro conjI allI impI)
    show "rd32 m' (sp + 62) = pcv" using hi [of 62, simplified] by (simp add: sp)
    show "rd16 m' (sp + 60) = 0x2000"
    proof -
      have "rd16 m' (w + 60) = rd16 ?m6 (w + 60)" unfolding m'
        by (rule rd16_wr32_apart) (use V L in \<open>simp add: apart_def\<close>)
      also have "\<dots> = rd16 ?m5 (w + 60)" by (rule kept_rd16 [OF k6]) (use V L in \<open>simp add: clear_of_def\<close>)
      also have "\<dots> = rd16 (wr16 ?m3 (w + 60) 0x2000) (w + 60)"
        by (rule rd16_wr32_apart) (use V L in \<open>simp add: apart_def\<close>)
      finally show ?thesis by (simp add: sp)
    qed
    fix i :: nat assume i: "i < 15"
    show "rd32 m' (sp + word_of_nat (4 * i)) = (if i = 1 then a5 else 0)"
    proof (cases "i = 1")
      case True
      then show ?thesis by (simp add: sp m')
    next
      case False
      have "apart 4 (w + 4) 4 (w + word_of_nat (4 * i))"
        using V(1) L i False U [of "4 * i"] by (auto simp: apart_def)
      then have "rd32 m' (w + word_of_nat (4 * i)) = rd32 ?m6 (w + word_of_nat (4 * i))"
        unfolding m' by (rule rd32_wr32_apart)
      also have "\<dots> = 0" using i by (intro rd32_zeros) simp_all
      finally show ?thesis using False by (simp add: sp)
    qed
  qed
qed

subsection \<open>Properties\<close>

lemma clear_of_sub:
  assumes "clear_of lo hi a n" and "i + k \<le> n" and "0 < k"
  shows "clear_of lo hi (a + word_of_nat i) k"
proof -
  have "unat a + i < 2 ^ 32" using assms by (simp add: clear_of_def)
  then have "unat (a + word_of_nat i) = unat a + i" by (rule unat_plus_small)
  then show ?thesis using assms by (auto simp: clear_of_def)
qed

lemma frame_at_kept:
  assumes "frame_at m sp rs w p" and k: "kept_outside lo hi m m'" and c: "clear_of lo hi sp 66"
  shows "frame_at m' sp rs w p"
proof -
  have r: "rd32 m' (sp + word_of_nat i) = rd32 m (sp + word_of_nat i)" if "i + 4 \<le> 66" for i
    by (rule kept_outside_rd32 [OF k clear_of_sub [OF c that]]) simp
  have "rd16 m' (sp + word_of_nat 60) = rd16 m (sp + word_of_nat 60)"
    by (rule kept_rd16 [OF k clear_of_sub [OF c]]) simp_all
  moreover have "rd32 m' (sp + 62) = rd32 m (sp + 62)" using r [of 62] by simp
  moreover have "rd32 m' (sp + word_of_nat (4 * i)) = rd32 m (sp + word_of_nat (4 * i))" if "i < 15" for i
    by (rule r) (use that in simp)
  ultimately show ?thesis using assms(1) unfolding frame_at_def by simp
qed

lemma record_kept:
  assumes "unat tcb + 12 \<le> 2 ^ 32"
  shows "kept_outside (unat tcb) (unat tcb + 12) m (wr32 (wr32 (wr32 m tcb sp) (tcb + 4) 0) (tcb + 8) 0)"
    "rd32 (wr32 (wr32 (wr32 m tcb sp) (tcb + 4) 0) (tcb + 8) 0) tcb = sp"
proof -
  have u: "unat (tcb + 4) = unat tcb + 4" "unat (tcb + 8) = unat tcb + 8"
    using unat_plus_small [of tcb 4] unat_plus_small [of tcb 8] assms by simp_all
  show "kept_outside (unat tcb) (unat tcb + 12) m (wr32 (wr32 (wr32 m tcb sp) (tcb + 4) 0) (tcb + 8) 0)"
    by (intro kept_outside_trans [OF kept_outside_trans [OF kept_outside_mono [OF kept_outside_wr32] kept_outside_mono [OF kept_outside_wr32]] kept_outside_mono [OF kept_outside_wr32]])
      (use u assms in auto)
  show "rd32 (wr32 (wr32 (wr32 m tcb sp) (tcb + 4) 0) (tcb + 8) 0) tcb = sp"
    using u assms by (simp add: rd32_wr32_apart apart_def)
qed

text \<open>Claim C34. When the strings and the pointers fit the 512 bytes reserved for them and the record of
  the task lies outside the slot, Task_CreateFromElf returns a task whose stack holds, below a
  faithful copy of the argument vector, the vector, the count, a fake return address, the entry point
  with the supervisor status word and fifteen registers. But the register that gets the address of
  the GOT is D1, the second long word of the block the context switch pops from D0 up; A5, the
  fourteenth, is zero.\<close>

theorem task_from_elf_frame:
  assumes "kmalloc k 12 = Some (tcb, k1)" and "tcb \<noteq> 0" and "4 dvd unat base" and "unat base + 0x40000 < 2 ^ 32"
    and "clear_of (unat base) (unat base + 0x40000) tcb 12"
    and "arg_vector (unat base + 0x3FE00) (unat base + 0x40000) (hmem k1) argv args"
    and "args_size args + 4 * Suc (length args) \<le> 512"
  shows "\<exists>m av. Task_CreateFromElf k base ent got (word_of_nat (length args)) argv = Some (tcb, k1\<lparr>hmem := m\<rparr>)
    \<and> rd32 m tcb = base + 0x3FDB2
    \<and> frame_at m (base + 0x3FDB2) (\<lambda>r. if r = 1 then base + got else 0) 0x2000 (base + ent)
    \<and> rd32 m (base + 0x3FDB2 + 66) = 0xDEADBEEF \<and> rd32 m (base + 0x3FDB2 + 70) = word_of_nat (length args)
    \<and> rd32 m (base + 0x3FDB2 + 74) = av \<and> args_at m (unat base + 0x3FE00) av args"
proof -
  let ?n = "length args" and ?t = "base + SLOT_SIZE" and ?argc = "word_of_nat (length args) :: u32"
  let ?av = "?t - word_of_nat (4 * Suc ?n)" and ?b = "?t - ARGS_AREA_SIZE"
  have t: "unat ?t = unat base + 0x40000" using unat_plus_small [of base "0x40000"] assms(4) by (simp add: SLOT_SIZE_def)
  have d: "4 dvd unat ?t" "512 \<le> unat ?t" using assms(3) by (auto simp: t intro!: dvd_add)
  have lo: "unat ?t - 512 = unat base + 0x3FE00" using t by simp
  have v: "arg_vector (unat ?t - 512) (unat ?t) (hmem k1) argv args" using assms(6) unfolding lo unfolding t .
  obtain m1 low where A: "copy_args_into_slot (hmem k1) ?t ?argc argv = Some (m1, ?av, low)"
    "args_at m1 (unat ?t - 512) ?av args"
    using copy_args_ok [OF v d assms(7)] by blast
  have b: "unat ?b = unat base + 0x3FE00"
    using d(2) t by (subst unat_sub) (simp_all add: word_le_nat_alt ARGS_AREA_SIZE_def)
  have bd: "4 dvd unat ?b" "78 \<le> unat ?b" using assms(3) by (auto simp: b intro!: dvd_add)
  obtain m2 sp where F: "elf_frame m1 ?b ?av ?argc (base + ent) (base + got) = (m2, sp)" by fastforce
  note L = elf_frame_layout [OF bd F]
  have sp: "sp = base + 0x3FDB2" using L(1) by (simp add: SLOT_SIZE_def ARGS_AREA_SIZE_def)
  have su: "unat sp = unat base + 0x3FDB2" using unat_plus_small [of base "0x3FDB2"] assms(4) by (simp add: sp)
  let ?m = "wr32 (wr32 (wr32 m2 tcb sp) (tcb + 4) 0) (tcb + 8) 0"
  have t12: "unat tcb + 12 \<le> 2 ^ 32" using assms(5) by (simp add: clear_of_def)
  note R = record_kept [OF t12, of m2 sp]
  have lp: "args_size args + 4 * Suc ?n \<le> 512" by (rule assms(7))
  then have av: "unat ?av + 4 * Suc ?n = unat ?t" "unat base + 0x3FE00 \<le> unat ?av"
  proof -
    have w: "unat (word_of_nat (4 * Suc ?n) :: u32) = 4 * Suc ?n" using lp by (intro unat_of_nat32) simp
    have "unat ?av = unat ?t - 4 * Suc ?n" using lp d(2) w by (subst unat_sub) (simp_all add: word_le_nat_alt)
    then show "unat ?av + 4 * Suc ?n = unat ?t" "unat base + 0x3FE00 \<le> unat ?av" using lp t by simp_all
  qed
  have "args_at m2 (unat base + 0x3FE00) ?av args"
    using args_at_kept [OF A(2) L(2)] av b t assms(4) unfolding lo by simp
  then have "args_at ?m (unat base + 0x3FE00) ?av args"
    by (rule args_at_kept [OF _ R(1)]) (use assms(4,5) av t in \<open>auto simp: clear_of_def\<close>)
  moreover have cl: "clear_of (unat tcb) (unat tcb + 12) sp 78" using assms(4,5) su by (auto simp: clear_of_def)
  then have "frame_at ?m sp (\<lambda>r. if r = 1 then base + got else 0) 0x2000 (base + ent)"
    using clear_of_sub [OF cl, of 0 66] by (intro frame_at_kept [OF L(3) R(1)]) simp
  moreover have "rd32 ?m (sp + word_of_nat i) = rd32 m2 (sp + word_of_nat i)" if "i + 4 \<le> 78" for i
    by (rule kept_outside_rd32 [OF R(1) clear_of_sub [OF cl that]]) simp
  from this [of 66] this [of 70] this [of 74] have "rd32 ?m (sp + 66) = 0xDEADBEEF" "rd32 ?m (sp + 70) = ?argc" "rd32 ?m (sp + 74) = ?av"
    using L(4-6) by simp_all
  moreover have "Task_CreateFromElf k base ent got ?argc argv = Some (tcb, k1\<lparr>hmem := ?m\<rparr>)"
    using assms(1,2) A(1) F by (simp add: Task_CreateFromElf_def Let_def)
  ultimately show ?thesis using R(2) unfolding sp by blast
qed

text \<open>Memory with one argument, the string a at 0x1000, and its vector at 0x2000.\<close>

definition one_arg :: mem where
  "one_arg = (\<lambda>_. 0)(0x1000 := 0x61, 0x2002 := 0x10)"

lemma one_arg_record:
  "\<exists>k1. kmalloc (boot_heap one_arg) 12 = Some (0x92004, k1) \<and> arg_vector (unat (0xD2000 :: u32) + 0x3FE00)
     (unat (0xD2000 :: u32) + 0x40000) (hmem k1) 0x2000 [[0x61]]"
proof -
  have al: "KM_ALIGN 12 = 12" by (simp add: KM_ALIGN_def)
  have ft: "first_fit 12 598016 [(32764, True)] = Some (598016, [(12, False), (32748, True)])" by simp
  obtain m' where m': "kmalloc (boot_heap one_arg) 12 = Some (0x92004, (boot_heap one_arg)\<lparr>hmem := m'\<rparr>)"
    "\<forall>a. unat a < 598016 \<longrightarrow> m' a = hmem (boot_heap one_arg) a"
    using kmalloc_run [OF boot_heap_wf [of one_arg], of 12] by (auto simp: al boot_heap_base ft)
  have low: "m' a = one_arg a" if "unat a < 598016" for a
  proof -
    have "4 \<le> unat (a - 0x92000)" by (rule unat_diff_ge) (use that in simp_all)
    then show ?thesis using m'(2) that by (simp add: boot_heap_def kmalloc_init_def KM_SET_def wr32_other)
  qed
  have b: "m' 0x1000 = 0x61" "m' 0x1001 = 0" "m' 0x2000 = 0" "m' 0x2001 = 0" "m' 0x2002 = 0x10" "m' 0x2003 = 0"
    by (simp_all add: low one_arg_def)
  have "rd32 m' 0x2000 = 0x1000" by (simp add: rd32_def b)
  then have "arg_vector (unat (0xD2000 :: u32) + 0x3FE00) (unat (0xD2000 :: u32) + 0x40000) m' 0x2000 [[0x61]]"
    using b by (simp add: arg_vector_def clear_of_def)
  then show ?thesis using m'(1) by auto
qed

theorem task_from_elf_frame_witness:
  "\<exists>k. Task_CreateFromElf (boot_heap one_arg) 0xD2000 0x100 0x8000 1 0x2000 = Some (0x92004, k)
     \<and> frame_at (hmem k) 0x111DB2 (\<lambda>r. if r = 1 then 0xD2000 + 0x8000 else 0) 0x2000 0xD2100"
proof -
  obtain k1 where k1: "kmalloc (boot_heap one_arg) 12 = Some (0x92004, k1)"
    and av: "arg_vector (unat (0xD2000 :: u32) + 0x3FE00) (unat (0xD2000 :: u32) + 0x40000) (hmem k1) 0x2000 [[0x61]]"
    using one_arg_record by blast
  have "args_size [[0x61]] + 4 * Suc (length [[0x61 :: u8]]) \<le> 512" by (simp add: args_size_def)
  from task_from_elf_frame [OF k1 _ _ _ _ av this, of "0x100" "0x8000"] show ?thesis
    by (auto simp: clear_of_def)
qed

text \<open>load_elf_as_task leaves the entry point and the arguments in the global record and a ready task
  whose argument is that record; when the task runs, the trampoline calls the program of the record,
  keeps its result there and retires the task.\<close>

lemma elf_task_runs_program:
  assumes "sched_inv s xs" and "task_count s < OS_MAX_TASKS" and "trampoline \<noteq> 0" and "stack \<noteq> 0"
  shows "\<exists>s1. load_elf_as_task trampoline g (s, a) argc argv ent stack sz
      = Some (0, s1, a\<lparr>ea_entry := ent, ea_argc := argc, ea_argv := argv\<rparr>)
    \<and> sched_inv s1 (xs @ [task_count s])
    \<and> (\<forall>s2 ys a2 run ret s3. current_task s2 = Some (task_count s) \<longrightarrow> t_arg (task_pool s2 (task_count s)) = g \<longrightarrow>
         run (ea_entry a2) (ea_argc a2) (ea_argv a2) s2 = (ret, s3) \<longrightarrow> sched_inv s3 ys \<longrightarrow> current_task s3 = Some (task_count s) \<longrightarrow>
         (\<exists>s4. ELF_TaskTrampoline run g (s2, a2) = Some (s4, a2\<lparr>ea_ret := ret\<rparr>)
            \<and> sched_inv s4 (remove1 (task_count s) ys)))
    \<and> t_arg (task_pool s1 (task_count s)) = g"
proof -
  obtain s1 where s1: "OS_TaskCreatePIC s trampoline g stack sz 1 0 = Some (Some (task_count s), s1)"
    "sched_inv s1 (xs @ [task_count s])"
    using sched_inv_create [OF assms, of g sz 1 0] by auto
  have "t_arg (task_pool s1 (task_count s)) = g" by (rule created_tcb(2) [OF assms(1) s1(1)])
  moreover have "\<exists>s4. ELF_TaskTrampoline run g (s2, a2) = Some (s4, a2\<lparr>ea_ret := ret\<rparr>)
            \<and> sched_inv s4 (remove1 (task_count s) ys)"
    if "current_task s2 = Some (task_count s)" "t_arg (task_pool s2 (task_count s)) = g"
      "run (ea_entry a2) (ea_argc a2) (ea_argv a2) s2 = (ret, s3)" "sched_inv s3 ys" "current_task s3 = Some (task_count s)"
    for s2 ys a2 run ret s3
    using sched_inv_exit [OF that(4)] that by (auto simp: ELF_TaskTrampoline_def OS_TaskArg_def)
  ultimately show ?thesis using s1 by (auto simp: load_elf_as_task_def OS_TaskCreate_PIC)
qed

end
