(* ===== verification/Mutex.thy ===== *)
theory Mutex
  imports OrionBase
begin

text \<open>
  The mutex of mutex.c, on the task control block that mutex.c declares for itself: \<open>sp\<close>, \<open>next\<close> and
  \<open>state\<close>, with the states READY 0, RUNNING 1 and BLOCKED 2. (It is not the TCB of scheduler.h, which has
  other states and the fields in another order, so this theory does not use \<open>Scheduler\<close>.) The queue of
  the waiting tasks is linked through their \<open>next\<close> fields. Scheduler_AddReady is not in the repository:
  it is a parameter, a function on the tasks and on the data \<open>'q\<close> the scheduler has besides, and what
  the mutex needs of it is \<open>adds_ready\<close>. Both operations run with interrupts masked, so each is one
  step; Mutex_Lock ends with OS_Yield exactly when its first component is True. None is an access
  through a null pointer.
\<close>

subsection \<open>The code\<close>

definition TASK_READY :: int where "TASK_READY = 0"
definition TASK_RUNNING :: int where "TASK_RUNNING = 1"
definition TASK_BLOCKED :: int where "TASK_BLOCKED = 2"

text \<open>The field \<open>next\<close> is \<open>next_tcb\<close>; a pointer to a TCB is the number of the task, None the null pointer.\<close>

record TCB =
  sp :: u32
  next_tcb :: "nat option"
  state :: int

record 'q system =
  tcbs :: "nat \<Rightarrow> TCB"
  current_task :: "nat option"
  queues :: 'q

definition set_next :: "'q system \<Rightarrow> nat \<Rightarrow> nat option \<Rightarrow> 'q system" where
  "set_next s t v = s\<lparr>tcbs := (tcbs s)(t := (tcbs s t)\<lparr>next_tcb := v\<rparr>)\<rparr>"

definition set_state :: "'q system \<Rightarrow> nat \<Rightarrow> int \<Rightarrow> 'q system" where
  "set_state s t v = s\<lparr>tcbs := (tcbs s)(t := (tcbs s t)\<lparr>state := v\<rparr>)\<rparr>"

lemma task_next_simps [simp]:
  "next_tcb (tcbs (set_next s t v) u) = (if u = t then v else next_tcb (tcbs s u))"
  "state (tcbs (set_next s t v) u) = state (tcbs s u)" "current_task (set_next s t v) = current_task s"
  by (simp_all add: set_next_def)

lemma task_state_simps [simp]:
  "state (tcbs (set_state s t v) u) = (if u = t then v else state (tcbs s u))"
  "next_tcb (tcbs (set_state s t v) u) = next_tcb (tcbs s u)" "current_task (set_state s t v) = current_task s"
  by (simp_all add: set_state_def)

record mutex =
  locked :: bool
  owner :: "nat option"
  wait_head :: "nat option"
  wait_tail :: "nat option"

definition Mutex_Init :: "mutex \<Rightarrow> mutex" where
  "Mutex_Init m = m\<lparr>locked := False, owner := None, wait_head := None, wait_tail := None\<rparr>"

definition Mutex_Lock :: "'q system \<Rightarrow> mutex \<Rightarrow> (bool \<times> 'q system \<times> mutex) option" where
  "Mutex_Lock s m =
     (if \<not> locked m then Some (False, s, m\<lparr>locked := True, owner := current_task s\<rparr>)
      else (case current_task s of
              None \<Rightarrow> None
            | Some me \<Rightarrow>
                let s = set_next s me None;
                    (s, m) = (case wait_tail m of
                        Some t \<Rightarrow> (set_next s t (Some me), m\<lparr>wait_tail := Some me\<rparr>)
                      | None \<Rightarrow> (s, m\<lparr>wait_head := Some me, wait_tail := Some me\<rparr>))
                in Some (True, set_state s me TASK_BLOCKED, m)))"

definition Mutex_Unlock :: "('q system \<Rightarrow> nat \<Rightarrow> 'q system) \<Rightarrow> 'q system \<Rightarrow> mutex \<Rightarrow> 'q system \<times> mutex" where
  "Mutex_Unlock add_ready s m =
     (case wait_head m of
        Some next_owner \<Rightarrow>
          let m = m\<lparr>wait_head := next_tcb (tcbs s next_owner)\<rparr>;
              m = (if wait_head m = None then m\<lparr>wait_tail := None\<rparr> else m);
              m = m\<lparr>owner := Some next_owner\<rparr>
          in (add_ready (set_state s next_owner TASK_READY) next_owner, m)
      | None \<Rightarrow> (s, m\<lparr>locked := False, owner := None\<rparr>))"

subsection \<open>The abstract lock\<close>

text \<open>The owner, and who waits in the order of arrival.\<close>

type_synonym queue_lock = "nat option \<times> nat list"

fun abs_lock :: "nat \<Rightarrow> queue_lock \<Rightarrow> queue_lock" where
  "abs_lock c (None, ws) = (Some c, ws)"
| "abs_lock c (Some t, ws) = (Some t, ws @ [c])"

fun abs_unlock :: "queue_lock \<Rightarrow> queue_lock" where
  "abs_unlock (q, []) = (None, [])"
| "abs_unlock (q, w # ws) = (Some w, ws)"

text \<open>\<open>waiting pool ws\<close>: the tasks of \<open>ws\<close> are linked in this order, the last one to NULL.\<close>

fun waiting :: "(nat \<Rightarrow> TCB) \<Rightarrow> nat list \<Rightarrow> bool" where
  "waiting pool [] \<longleftrightarrow> True"
| "waiting pool (w # ws) \<longleftrightarrow> state (pool w) = TASK_BLOCKED
     \<and> next_tcb (pool w) = (case ws of [] \<Rightarrow> None | v # _ \<Rightarrow> Some v) \<and> waiting pool ws"

definition mutex_rep :: "'q system \<Rightarrow> mutex \<Rightarrow> queue_lock \<Rightarrow> bool" where
  "mutex_rep s m q \<longleftrightarrow> (case q of (t, ws) \<Rightarrow> owner m = t \<and> (locked m \<longleftrightarrow> t \<noteq> None) \<and> (t = None \<longrightarrow> ws = [])
     \<and> distinct ws \<and> waiting (tcbs s) ws
     \<and> wait_head m = (if ws = [] then None else Some (hd ws))
     \<and> wait_tail m = (if ws = [] then None else Some (last ws)))"

lemma waiting_blocked: "waiting pool ws \<Longrightarrow> w \<in> set ws \<Longrightarrow> state (pool w) = TASK_BLOCKED"
  by (induction ws) auto

lemma waiting_cong:
  "(\<And>w. w \<in> set ws \<Longrightarrow> next_tcb (pool' w) = next_tcb (pool w) \<and> state (pool' w) = state (pool w))
    \<Longrightarrow> waiting pool' ws = waiting pool ws"
  by (induction ws) auto

lemma waiting_snoc:
  assumes "waiting pool ws" and "distinct (ws @ [c])" and "next_tcb (pool' c) = None" "state (pool' c) = TASK_BLOCKED"
    and "ws \<noteq> [] \<Longrightarrow> next_tcb (pool' (last ws)) = Some c"
    and "\<And>w. w \<in> set ws \<Longrightarrow> state (pool' w) = state (pool w)"
    and "\<And>w. w \<in> set ws \<Longrightarrow> w \<noteq> last ws \<Longrightarrow> next_tcb (pool' w) = next_tcb (pool w)"
  shows "waiting pool' (ws @ [c])"
  using assms
proof (induction ws)
  case (Cons w ws)
  have "waiting pool' (ws @ [c])"
    by (rule Cons.IH) (use Cons.prems in \<open>auto split: if_splits\<close>)
  moreover have "next_tcb (pool' w) = (case ws @ [c] of [] \<Rightarrow> None | v # _ \<Rightarrow> Some v)"
  proof (cases ws)
    case Nil
    then show ?thesis using Cons.prems(5) by simp
  next
    case (Cons v vs)
    then have "w \<noteq> last (w # ws)" using Cons.prems(2) by auto
    then show ?thesis using Cons.prems(1,7) Cons by simp
  qed
  ultimately show ?case using Cons.prems(1,6) by simp
qed simp

lemma Mutex_Init_rep: "mutex_rep s (Mutex_Init m) (None, [])"
  by (simp add: mutex_rep_def Mutex_Init_def)

lemma Mutex_Lock_rep:
  assumes rep: "mutex_rep s m q" and c: "current_task s = Some c" "state (tcbs s c) \<noteq> TASK_BLOCKED"
  shows "\<exists>b s' m'. Mutex_Lock s m = Some (b, s', m') \<and> mutex_rep s' m' (abs_lock c q)
    \<and> (b \<longleftrightarrow> fst q \<noteq> None) \<and> (if b then state (tcbs s' c) = TASK_BLOCKED else s' = s)"
proof -
  obtain t ws where q: "q = (t, ws)" by fastforce
  have R: "owner m = t" "locked m \<longleftrightarrow> t \<noteq> None" "t = None \<longrightarrow> ws = []" "distinct ws" "waiting (tcbs s) ws"
    "wait_head m = (if ws = [] then None else Some (hd ws))" "wait_tail m = (if ws = [] then None else Some (last ws))"
    using rep q by (simp_all add: mutex_rep_def)
  have nin: "c \<notin> set ws" using waiting_blocked [OF R(5)] c(2) by blast
  show ?thesis
  proof (cases t)
    case None
    then show ?thesis using R q c by (auto simp: Mutex_Lock_def mutex_rep_def intro!: exI [of _ False])
  next
    case (Some u)
    let ?s0 = "set_next s c None"
    let ?s1 = "if ws = [] then ?s0 else set_next ?s0 (last ws) (Some c)"
    let ?s' = "set_state ?s1 c TASK_BLOCKED"
    let ?m' = "m\<lparr>wait_head := Some (hd (ws @ [c])), wait_tail := Some c\<rparr>"
    have lw: "ws \<noteq> [] \<Longrightarrow> c \<noteq> last ws" using nin last_in_set by metis
    have run: "Mutex_Lock s m = Some (True, ?s', ?m')"
      using R Some c(1) by (cases "ws = []") (simp_all add: Mutex_Lock_def Let_def)
    have "waiting (tcbs ?s') (ws @ [c])"
      by (rule waiting_snoc [OF R(5)]) (use R(4) nin lw in auto)
    then have "mutex_rep ?s' ?m' (Some u, ws @ [c])"
      using R Some nin by (auto simp: mutex_rep_def)
    then show ?thesis using run q Some by (auto intro!: exI [of _ True] exI [of _ ?s'] exI [of _ ?m'])
  qed
qed

subsection \<open>What the mutex needs of the scheduler\<close>

text \<open>
  Scheduler_AddReady puts a task that is READY into the list of the ready tasks: it changes the state of
  no task and does not touch the links of the blocked ones. (It may use the links of the ready tasks.)
\<close>

definition adds_ready :: "('q system \<Rightarrow> nat \<Rightarrow> 'q system) \<Rightarrow> bool" where
  "adds_ready add_ready \<longleftrightarrow> (\<forall>s t u. state (tcbs s t) = TASK_READY \<longrightarrow>
     state (tcbs (add_ready s t) u) = state (tcbs s u)
     \<and> (state (tcbs s u) = TASK_BLOCKED \<longrightarrow> next_tcb (tcbs (add_ready s t) u) = next_tcb (tcbs s u)))"

lemma adds_readyD:
  assumes "adds_ready add_ready" and "state (tcbs s t) = TASK_READY"
  shows "state (tcbs (add_ready s t) u) = state (tcbs s u)"
    "state (tcbs s u) = TASK_BLOCKED \<Longrightarrow> next_tcb (tcbs (add_ready s t) u) = next_tcb (tcbs s u)"
  using assms by (simp_all add: adds_ready_def)

lemma unlock_refines:
  assumes add: "adds_ready add_ready" and rep: "mutex_rep s m (t, ws)" and run: "Mutex_Unlock add_ready s m = (s', m')"
  shows "mutex_rep s' m' (abs_unlock (t, ws)) \<and> (if ws = [] then s' = s else state (tcbs s' (hd ws)) = TASK_READY)"
proof (cases ws)
  case Nil
  then show ?thesis using rep run by (auto simp: Mutex_Unlock_def mutex_rep_def)
next
  case (Cons w vs)
  let ?s = "set_state s w TASK_READY"
  have R: "locked m" "distinct (w # vs)" "waiting (tcbs s) (w # vs)" "wait_head m = Some w"
    "wait_tail m = Some (last (w # vs))"
    using rep Cons by (auto simp: mutex_rep_def)
  have s': "s' = add_ready ?s w" using run R(4) by (auto simp: Mutex_Unlock_def Let_def)
  have "state (tcbs ?s w) = TASK_READY" by simp
  note A = adds_readyD [OF add this]
  have "waiting (tcbs s') vs = waiting (tcbs s) vs"
  proof (rule waiting_cong)
    fix u assume u: "u \<in> set vs"
    then have "u \<noteq> w" "state (tcbs ?s u) = TASK_BLOCKED" using R(2) waiting_blocked [OF R(3), of u] by auto
    then show "next_tcb (tcbs s' u) = next_tcb (tcbs s u) \<and> state (tcbs s' u) = state (tcbs s u)"
      using A [of u] by (simp add: s')
  qed
  then have "waiting (tcbs s') vs" using R(3) by simp
  moreover have "state (tcbs s' w) = TASK_READY" using A(1) [of w] by (simp add: s')
  ultimately show ?thesis using R Cons run rep
    by (cases vs) (auto simp: Mutex_Unlock_def mutex_rep_def Let_def)
qed

subsection \<open>Runs\<close>

text \<open>
  What happens to the mutex from a state on, in order: \<open>Lock c\<close>, the running task \<open>c\<close>, which is not
  blocked, calls Mutex_Lock; \<open>Unlock\<close>, somebody calls Mutex_Unlock; and in between anything that leaves
  the mutex and the control blocks of the blocked tasks alone: other tasks run, and the scheduler
  switches between the ones that are not blocked.
\<close>

datatype mutex_op = Lock nat | Unlock

inductive lock_run :: "('q system \<Rightarrow> nat \<Rightarrow> 'q system) \<Rightarrow> 'q system \<times> mutex \<Rightarrow> mutex_op list \<Rightarrow> 'q system \<times> mutex \<Rightarrow> bool"
  for add_ready where
  start: "lock_run add_ready x [] x"
| other: "lock_run add_ready x tr (s, m) \<Longrightarrow> (\<forall>u. state (tcbs s u) = TASK_BLOCKED \<longrightarrow> tcbs s' u = tcbs s u)
    \<Longrightarrow> lock_run add_ready x tr (s', m)"
| lock: "lock_run add_ready x tr (s, m) \<Longrightarrow> current_task s = Some c \<Longrightarrow> state (tcbs s c) \<noteq> TASK_BLOCKED
    \<Longrightarrow> Mutex_Lock s m = Some (b, s', m') \<Longrightarrow> lock_run add_ready x (tr @ [Lock c]) (s', m')"
| unlock: "lock_run add_ready x tr (s, m) \<Longrightarrow> Mutex_Unlock add_ready s m = (s', m')
    \<Longrightarrow> lock_run add_ready x (tr @ [Unlock]) (s', m')"

fun abs_op :: "mutex_op \<Rightarrow> queue_lock \<Rightarrow> queue_lock" where
  "abs_op (Lock c) q = abs_lock c q"
| "abs_op Unlock q = abs_unlock q"

lemma lock_run_rep:
  assumes "lock_run add_ready x tr y" and "adds_ready add_ready" and "mutex_rep (fst x) (snd x) q"
  shows "mutex_rep (fst y) (snd y) (fold abs_op tr q)"
  using assms
proof (induction rule: lock_run.induct)
  case (other x tr s m s')
  obtain t ws where q: "fold abs_op tr q = (t, ws)" by fastforce
  then have w: "waiting (tcbs s) ws" using other by (simp add: mutex_rep_def)
  then have "waiting (tcbs s') ws = waiting (tcbs s) ws"
    using other.hyps(2) waiting_blocked [OF w] by (intro waiting_cong) simp
  then show ?case using other q by (simp add: mutex_rep_def)
next
  case (lock x tr s m c b s' m')
  then show ?case using Mutex_Lock_rep [of s m "fold abs_op tr q" c] by auto
next
  case (unlock x tr s m s' m')
  obtain t ws where q: "fold abs_op tr q = (t, ws)" by fastforce
  have rep: "mutex_rep s m (t, ws)" using unlock q by simp
  then show ?case using unlock_refines [OF unlock.prems(1) rep unlock.hyps(2)] q by simp
qed simp

lemma fold_handover:
  "length (filter ((=) Unlock) tr) = Suc (length pre) \<Longrightarrow> \<exists>ws. fold abs_op tr (Some t, pre @ c # post) = (Some c, ws)"
proof (induction tr arbitrary: pre t post)
  case (Cons x tr)
  show ?case
  proof (cases x)
    case (Lock d)
    then show ?thesis using Cons.IH [of pre t "post @ [d]"] Cons.prems by simp
  next
    case Unlock
    show ?thesis
    proof (cases pre)
      case Nil
      have "filter ((=) Unlock) tr = [] \<Longrightarrow> \<exists>ws. fold abs_op tr (Some c, post) = (Some c, ws)" for post
      proof (induction tr arbitrary: post)
        case (Cons y tr)
        then show ?case by (cases y) auto
      qed simp
      then show ?thesis using Cons.prems Nil Unlock by simp
    next
      case (Cons p ps)
      then show ?thesis using Cons.IH [of ps p post] Cons.prems Unlock by simp
    qed
  qed
qed simp

subsection \<open>A contended mutex\<close>

text \<open>
  A scheduler for the examples: its data is the head of the list of ready tasks, linked through \<open>next\<close>,
  and a task becomes ready at the front of the list.
\<close>

definition push_ready :: "nat option system \<Rightarrow> nat \<Rightarrow> nat option system" where
  "push_ready s t = (set_next s t (queues s))\<lparr>queues := Some t\<rparr>"

lemma push_ready_ok: "adds_ready push_ready"
  by (auto simp: adds_ready_def push_ready_def TASK_READY_def TASK_BLOCKED_def)

definition free_mutex :: mutex where
  "free_mutex = \<lparr>locked = False, owner = None, wait_head = None, wait_tail = None\<rparr>"

text \<open>Task \<open>c\<close> runs and nobody is ready.\<close>

definition only :: "nat \<Rightarrow> nat option system" where
  "only c = \<lparr>tcbs = (\<lambda>_. \<lparr>sp = 0, next_tcb = None, state = TASK_RUNNING\<rparr>), current_task = Some c, queues = None\<rparr>"

definition held :: "nat option system \<times> mutex" where
  "held = (set_state (only 1) 1 TASK_BLOCKED,
     \<lparr>locked = True, owner = Some 0, wait_head = Some 1, wait_tail = Some 1\<rparr>)"

lemma held_run: "lock_run push_ready (only 0, Mutex_Init free_mutex) [Lock 0, Lock 1] held"
proof -
  let ?m = "\<lparr>locked = True, owner = Some 0, wait_head = None, wait_tail = None\<rparr>"
  have "lock_run push_ready (only 0, Mutex_Init free_mutex) ([] @ [Lock 0]) (only 0, ?m)"
    by (rule lock_run.lock [OF lock_run.start, where b = False])
      (simp_all add: only_def Mutex_Lock_def Mutex_Init_def free_mutex_def TASK_RUNNING_def TASK_BLOCKED_def)
  then have "lock_run push_ready (only 0, Mutex_Init free_mutex) [Lock 0] (only 0, ?m)" by simp
  then have "lock_run push_ready (only 0, Mutex_Init free_mutex) [Lock 0] (only 1, ?m)"
    by (rule lock_run.other) (simp add: only_def)
  then have "lock_run push_ready (only 0, Mutex_Init free_mutex) ([Lock 0] @ [Lock 1]) held"
    unfolding held_def
    by (rule lock_run.lock [where b = True])
      (simp_all add: only_def Mutex_Lock_def Let_def set_next_def set_state_def TASK_RUNNING_def TASK_BLOCKED_def)
  then show ?thesis by simp
qed

lemma held_unlock: "\<exists>s' m'. lock_run push_ready x tr held \<longrightarrow> lock_run push_ready x (tr @ [Unlock]) (s', m')"
proof -
  obtain s' m' where "Mutex_Unlock push_ready (fst held) (snd held) = (s', m')" by fastforce
  then have "lock_run push_ready x tr held \<Longrightarrow> lock_run push_ready x (tr @ [Unlock]) (s', m')"
    by (intro lock_run.unlock [of push_ready x tr "fst held" "snd held"]) simp_all
  then show ?thesis by blast
qed

subsection \<open>Properties\<close>

text \<open>
  Claim C16. Tasks lock and unlock an initialised mutex in any order, a lock being called by the running task
  while it is not blocked, and in between anything happens that leaves the mutex and the control blocks
  of the blocked tasks alone (the scheduler must not relink them; \<open>lock_run\<close>), with a Scheduler_AddReady
  that changes neither a state nor the link of a blocked task. Then the mutex is the abstract lock of an
  owner and a queue: a free mutex goes to the task that asks, a taken one queues it at the end, and an
  unlock hands it to the head of the queue without freeing it, or frees it when nobody waits. It is
  marked locked exactly when it has an owner, and the queue is duplicate free, linked in order and made
  of blocked tasks.
\<close>

theorem mutex_refines_queue_lock:
  assumes "adds_ready add_ready" and "lock_run add_ready (s, Mutex_Init m) tr (s', m')"
  shows "mutex_rep s' m' (fold abs_op tr (None, []))"
  using lock_run_rep [OF assms(2,1), of "(None, [])"] by (simp add: Mutex_Init_rep)

theorem mutex_refines_queue_lock_witness:
  "\<exists>s' m'. lock_run push_ready (only 0, Mutex_Init free_mutex) [Lock 0, Lock 1, Unlock] (s', m') \<and> owner m' = Some 1"
proof -
  obtain s' m' where r: "lock_run push_ready (only 0, Mutex_Init free_mutex) [Lock 0, Lock 1, Unlock] (s', m')"
    using held_unlock [of _ "[Lock 0, Lock 1]"] held_run by fastforce
  then show ?thesis using mutex_refines_queue_lock [OF push_ready_ok r] by (auto simp: mutex_rep_def)
qed

text \<open>
  Claim C23. In such a run, with the same conditions on the scheduler, a task that waits behind
  \<open>length pre\<close> others owns the mutex after exactly one unlock more than that, however many tasks queue up
  meanwhile: nobody overtakes it.
\<close>

theorem mutex_fifo:
  assumes "adds_ready add_ready" and "mutex_rep s m (Some t, pre @ c # post)" and "lock_run add_ready (s, m) tr (s', m')"
    and "length (filter ((=) Unlock) tr) = Suc (length pre)"
  shows "owner m' = Some c \<and> locked m'"
proof -
  obtain ws where "fold abs_op tr (Some t, pre @ c # post) = (Some c, ws)" using fold_handover [OF assms(4)] by blast
  moreover have "mutex_rep s' m' (fold abs_op tr (Some t, pre @ c # post))"
    using lock_run_rep [OF assms(3,1)] assms(2) by simp
  ultimately show ?thesis by (simp add: mutex_rep_def)
qed

theorem mutex_fifo_witness:
  "\<exists>s' m'. lock_run push_ready held [Unlock] (s', m') \<and> owner m' = Some 1"
proof -
  have rep: "mutex_rep (fst held) (snd held) (Some 0, [] @ 1 # [])"
    by (simp add: mutex_rep_def held_def only_def set_state_def)
  obtain s' m' where r: "lock_run push_ready held [Unlock] (s', m')"
    using held_unlock [of held "[]"] lock_run.start by fastforce
  then show ?thesis using mutex_fifo [OF push_ready_ok rep, of "[Unlock]" s' m'] by auto
qed

end
