(* ===== verification/Drivers.thy ===== *)
theory Drivers
  imports KNumOut
begin

text \<open>
  The device drivers behind the virtual file system: vfs/vfs_tty.c, vfs_null.c, vfs_zero.c,
  vfs_serial.c, vfs_proc.c, vfs_fat.c and drivers/duart/duart.c, and the state they work on.

  The kernel heap is that of \<open>Kmalloc\<close>: its memory holds paths, buffers and copied strings, and its
  allocator hands out the addresses of File, ProcData, FatPrivate and FIL objects. The contents of
  these objects are kept in one store per type, indexed by address, and so are the descriptor table
  and the other variables of the kernel. This is faithful as long as nothing writes bytes over them;
  a read into a buffer is the only operation that writes where the caller says, so the properties that
  read ask for a buffer outside the kernel heap (\<open>user_buffer\<close>), and apart from the kernel's variables. A function pointer is the name
  of its driver. The serial lines are lists of received and sent bytes; waiting for a byte that never
  comes is the result None, like a loop that does not end. FatFs is vendored code: it is the record
  of operations \<open>fatfs\<close>, which every definition that calls it takes as an argument; \<open>'f\<close> is the
  contents of a FIL object and \<open>'d\<close> the state of the volume.
\<close>

subsection \<open>State\<close>

datatype driver = Tty | NullDev | Zero | Serial | Proc | Duart | Fat

record File =
  fname :: addr
  position :: u32
  ref_count :: u32
  private_data :: addr
  f_read :: "driver option"
  f_write :: "driver option"
  f_close :: "driver option"
  f_ioctl :: "driver option"
  f_lseek :: "driver option"

definition zero_file :: File where
  "zero_file = \<lparr>fname = 0, position = 0, ref_count = 0, private_data = 0,
     f_read = None, f_write = None, f_close = None, f_ioctl = None, f_lseek = None\<rparr>"

record proc_data =
  pd_data :: addr
  pd_size :: u32
  pd_position :: u32

record fat_private =
  fp_file :: addr
  fp_mode :: u8
  fp_size :: u32

text \<open>FR_OK is Some; the operations of FatFs on a file change the FIL object and the volume. f_read also
  gives the bytes it has stored in the buffer, which may be some when it fails, with True for FR_OK.\<close>

record ('f, 'd) fatfs =
  ff_fil_size :: u32
  ff_open :: "mem \<Rightarrow> addr \<Rightarrow> u8 \<Rightarrow> 'd \<Rightarrow> 'f option \<times> 'd"
  ff_read :: "'f \<Rightarrow> u32 \<Rightarrow> 'd \<Rightarrow> bool \<times> u8 list \<times> 'f \<times> 'd"
  ff_write :: "'f \<Rightarrow> u8 list \<Rightarrow> 'd \<Rightarrow> u32 option \<times> 'f \<times> 'd"
  ff_lseek :: "'f \<Rightarrow> u32 \<Rightarrow> 'd \<Rightarrow> unit option \<times> 'f \<times> 'd"
  ff_close :: "'f \<Rightarrow> 'd \<Rightarrow> unit option \<times> 'd"
  ff_tell :: "'f \<Rightarrow> u32"
  ff_size :: "'f \<Rightarrow> u32"

record ('f, 'd) vfs =
  kh :: kheap
  fd_table :: "nat \<Rightarrow> addr"
  fd_count :: int
  files :: "addr \<Rightarrow> File"
  procs :: "addr \<Rightarrow> proc_data"
  fats :: "addr \<Rightarrow> fat_private"
  fils :: "addr \<Rightarrow> 'f"
  disk :: 'd
  tty_in :: "u8 list"
  tty_out :: "u8 list"
  ser_in :: "u8 option list"
  ser_out :: "u8 list"
  screen :: "u8 list"
  duart_log :: "(u32 \<times> u8) list"
  estado :: u8
  uptime :: u32

abbreviation vmem :: "('f, 'd) vfs \<Rightarrow> mem" where "vmem s \<equiv> hmem (kh s)"

definition set_mem :: "('f, 'd) vfs \<Rightarrow> mem \<Rightarrow> ('f, 'd) vfs" where
  "set_mem s m = s\<lparr>kh := (kh s)\<lparr>hmem := m\<rparr>\<rparr>"

definition upd_file :: "('f, 'd) vfs \<Rightarrow> addr \<Rightarrow> (File \<Rightarrow> File) \<Rightarrow> ('f, 'd) vfs" where
  "upd_file s f g = s\<lparr>files := (files s)(f := g (files s f))\<rparr>"

text \<open>\<open>(size_t)-1\<close> and the int -1.\<close>

abbreviation minus1 :: u32 where "minus1 \<equiv> 0xFFFFFFFF"

text \<open>What every \<open>open\<close> handler stores into the File object.\<close>

definition set_handlers ::
    "addr \<Rightarrow> driver option \<Rightarrow> driver option \<Rightarrow> driver option \<Rightarrow> driver option \<Rightarrow> driver option \<Rightarrow> File \<Rightarrow> File" where
  "set_handlers pd r w c io sk f = f\<lparr>private_data := pd, position := 0,
     f_read := r, f_write := w, f_close := c, f_ioctl := io, f_lseek := sk\<rparr>"

subsection \<open>The terminal line (getchar and putchar of duart.c)\<close>

text \<open>\<open>while (!(SRA & 1))\<close> waits for the next received byte; \<open>while (!(SRA & 4))\<close> for the transmitter,
  which always becomes ready.\<close>

definition duartA_getc :: "('f, 'd) vfs \<Rightarrow> (u8 \<times> ('f, 'd) vfs) option" where
  "duartA_getc s = (case tty_in s of [] \<Rightarrow> None | c # cs \<Rightarrow> Some (c, s\<lparr>tty_in := cs\<rparr>))"

definition duart_putc :: "u8 \<Rightarrow> ('f, 'd) vfs \<Rightarrow> ('f, 'd) vfs" where
  "duart_putc c s = s\<lparr>tty_out := tty_out s @ [c]\<rparr>"

abbreviation CR :: u8 where "CR \<equiv> 0x0D"
abbreviation LF :: u8 where "LF \<equiv> 0x0A"

subsection \<open>vfs_tty.c\<close>

text \<open>The loops count up from \<open>i\<close> to \<open>size\<close>; \<open>n\<close> is the number of rounds left.\<close>

primrec tty_read_loop :: "('f, 'd) vfs \<Rightarrow> addr \<Rightarrow> u32 \<Rightarrow> nat \<Rightarrow> (u32 \<times> ('f, 'd) vfs) option" where
  "tty_read_loop s buf i 0 = Some (i, s)"
| "tty_read_loop s buf i (Suc n) =
     (case duartA_getc s of
        None \<Rightarrow> None
      | Some (c, s) \<Rightarrow>
          let s = set_mem s ((vmem s)(buf + i := c)); s = duart_putc c s
          in if c = CR \<or> c = LF then Some (i + 1, duart_putc LF s)
             else tty_read_loop s buf (i + 1) n)"

definition tty_read :: "('f, 'd) vfs \<Rightarrow> addr \<Rightarrow> addr \<Rightarrow> u32 \<Rightarrow> (u32 \<times> ('f, 'd) vfs) option" where
  "tty_read s file buffer sz = tty_read_loop s buffer 0 (unat sz)"

primrec tty_write_loop :: "('f, 'd) vfs \<Rightarrow> addr \<Rightarrow> u32 \<Rightarrow> nat \<Rightarrow> ('f, 'd) vfs" where
  "tty_write_loop s data i 0 = s"
| "tty_write_loop s data i (Suc n) =
     (let c = vmem s (data + i); s = (if c = LF then duart_putc CR s else s)
      in tty_write_loop (duart_putc c s) data (i + 1) n)"

definition tty_write :: "('f, 'd) vfs \<Rightarrow> addr \<Rightarrow> addr \<Rightarrow> u32 \<Rightarrow> u32 \<times> ('f, 'd) vfs" where
  "tty_write s file buffer sz = (sz, tty_write_loop s buffer 0 (unat sz))"

definition tty_ioctl :: "('f, 'd) vfs \<Rightarrow> addr \<Rightarrow> u32 \<Rightarrow> addr \<Rightarrow> u32 \<times> ('f, 'd) vfs" where
  "tty_ioctl s file cmd arg =
     (if cmd = 0x01 then (0, s\<lparr>screen := screen s @ 0x1B # map (\<lambda>c. of_char c) ''[2J'' @ 0x1B # map (\<lambda>c. of_char c) ''[H''\<rparr>)
      else (minus1, s))"

definition tty_lseek :: "('f, 'd) vfs \<Rightarrow> addr \<Rightarrow> u32 \<Rightarrow> u32 \<Rightarrow> u32 \<times> ('f, 'd) vfs" where
  "tty_lseek s file offset whence = (minus1, s)"

definition tty_open :: "('f, 'd) vfs \<Rightarrow> addr \<Rightarrow> u32 \<times> ('f, 'd) vfs" where
  "tty_open s file =
     (0, upd_file s file (set_handlers 0 (Some Tty) (Some Tty) (Some Tty) (Some Tty) (Some Tty)))"

subsection \<open>vfs_null.c\<close>

definition null_read :: "('f, 'd) vfs \<Rightarrow> addr \<Rightarrow> addr \<Rightarrow> u32 \<Rightarrow> u32 \<times> ('f, 'd) vfs" where
  "null_read s file buffer sz = (0, s)"

definition null_write :: "('f, 'd) vfs \<Rightarrow> addr \<Rightarrow> addr \<Rightarrow> u32 \<Rightarrow> u32 \<times> ('f, 'd) vfs" where
  "null_write s file buffer sz = (sz, s)"

definition null_lseek :: "('f, 'd) vfs \<Rightarrow> addr \<Rightarrow> u32 \<Rightarrow> u32 \<Rightarrow> u32 \<times> ('f, 'd) vfs" where
  "null_lseek s file offset whence = (offset, s)"

definition null_open :: "('f, 'd) vfs \<Rightarrow> addr \<Rightarrow> u32 \<times> ('f, 'd) vfs" where
  "null_open s file =
     (0, upd_file s file (set_handlers 0 (Some NullDev) (Some NullDev) (Some NullDev) None (Some NullDev)))"

subsection \<open>vfs_zero.c\<close>

definition zero_read :: "('f, 'd) vfs \<Rightarrow> addr \<Rightarrow> addr \<Rightarrow> u32 \<Rightarrow> u32 \<times> ('f, 'd) vfs" where
  "zero_read s file buffer sz =
     (let s = set_mem s (memset (vmem s) buffer 0 sz)
      in (sz, upd_file s file (\<lambda>f. f\<lparr>position := position f + sz\<rparr>)))"

definition zero_write :: "('f, 'd) vfs \<Rightarrow> addr \<Rightarrow> addr \<Rightarrow> u32 \<Rightarrow> u32 \<times> ('f, 'd) vfs" where
  "zero_write s file buffer sz = (sz, s)"

definition zero_lseek :: "('f, 'd) vfs \<Rightarrow> addr \<Rightarrow> u32 \<Rightarrow> u32 \<Rightarrow> u32 \<times> ('f, 'd) vfs" where
  "zero_lseek s file offset whence =
     (if whence = 0 \<or> whence = 2 then
        (let s = upd_file s file (\<lambda>f. f\<lparr>position := offset\<rparr>) in (position (files s file), s))
      else if whence = 1 then
        (let s = upd_file s file (\<lambda>f. f\<lparr>position := position f + offset\<rparr>) in (position (files s file), s))
      else (minus1, s))"

definition zero_open :: "('f, 'd) vfs \<Rightarrow> addr \<Rightarrow> u32 \<times> ('f, 'd) vfs" where
  "zero_open s file =
     (0, upd_file s file (set_handlers 0 (Some Zero) (Some Zero) (Some Zero) None (Some Zero)))"

subsection \<open>vfs_serial.c\<close>

text \<open>A received byte, or -1 when the data ready bit is clear; each element is one poll.\<close>

definition serial_getc :: "('f, 'd) vfs \<Rightarrow> u8 option \<times> ('f, 'd) vfs" where
  "serial_getc s = (case ser_in s of [] \<Rightarrow> (None, s) | c # cs \<Rightarrow> (c, s\<lparr>ser_in := cs\<rparr>))"

definition serial_putc :: "u8 \<Rightarrow> ('f, 'd) vfs \<Rightarrow> ('f, 'd) vfs" where
  "serial_putc c s = s\<lparr>ser_out := ser_out s @ [c]\<rparr>"

primrec serial_read_loop :: "('f, 'd) vfs \<Rightarrow> addr \<Rightarrow> u32 \<Rightarrow> nat \<Rightarrow> u32 \<times> ('f, 'd) vfs" where
  "serial_read_loop s buf i 0 = (i, s)"
| "serial_read_loop s buf i (Suc n) =
     (case serial_getc s of
        (None, s) \<Rightarrow> (i, s)
      | (Some c, s) \<Rightarrow> serial_read_loop (set_mem s ((vmem s)(buf + i := c))) buf (i + 1) n)"

definition serial_read :: "('f, 'd) vfs \<Rightarrow> addr \<Rightarrow> addr \<Rightarrow> u32 \<Rightarrow> u32 \<times> ('f, 'd) vfs" where
  "serial_read s file buffer sz = serial_read_loop s buffer 0 (unat sz)"

primrec serial_write_loop :: "('f, 'd) vfs \<Rightarrow> addr \<Rightarrow> u32 \<Rightarrow> nat \<Rightarrow> ('f, 'd) vfs" where
  "serial_write_loop s data i 0 = s"
| "serial_write_loop s data i (Suc n) =
     serial_write_loop (serial_putc (vmem s (data + i)) s) data (i + 1) n"

definition serial_write :: "('f, 'd) vfs \<Rightarrow> addr \<Rightarrow> addr \<Rightarrow> u32 \<Rightarrow> u32 \<times> ('f, 'd) vfs" where
  "serial_write s file buffer sz = (sz, serial_write_loop s buffer 0 (unat sz))"

definition serial_lseek :: "('f, 'd) vfs \<Rightarrow> addr \<Rightarrow> u32 \<Rightarrow> u32 \<Rightarrow> u32 \<times> ('f, 'd) vfs" where
  "serial_lseek s file offset whence = (minus1, s)"

definition serial_open :: "('f, 'd) vfs \<Rightarrow> addr \<Rightarrow> u32 \<times> ('f, 'd) vfs" where
  "serial_open s file =
     (0, upd_file s file (set_handlers 0 (Some Serial) (Some Serial) (Some Serial) None (Some Serial)))"

subsection \<open>duart.c\<close>

definition duart_opr_init :: "('f, 'd) vfs \<Rightarrow> ('f, 'd) vfs" where
  "duart_opr_init s = s\<lparr>duart_log := duart_log s @ [(0xFF901B, 0x00), (0xFF901F, 0xFF)]\<rparr>"

definition duart_led_op3_on :: "('f, 'd) vfs \<Rightarrow> ('f, 'd) vfs" where
  "duart_led_op3_on s = s\<lparr>duart_log := duart_log s @ [(0xFF901D, 0x1C)]\<rparr>"

definition duart_led_op3_off :: "('f, 'd) vfs \<Rightarrow> ('f, 'd) vfs" where
  "duart_led_op3_off s = s\<lparr>duart_log := duart_log s @ [(0xFF901F, 0x1C)]\<rparr>"

definition duart_led_op3_toggle :: "('f, 'd) vfs \<Rightarrow> ('f, 'd) vfs" where
  "duart_led_op3_toggle s =
     (let s = s\<lparr>estado := estado s XOR 1\<rparr>
      in if estado s \<noteq> 0 then duart_led_op3_on s else duart_led_op3_off s)"

definition duart_init_canal_a :: "('f, 'd) vfs \<Rightarrow> ('f, 'd) vfs" where
  "duart_init_canal_a s = s\<lparr>duart_log := duart_log s @
     [(0xFF9005, 0x0A), (0xFF9005, 0x20), (0xFF9005, 0x30), (0xFF9005, 0x10), (0xFF9001, 0x13),
      (0xFF9001, 0x07), (0xFF9009, 0x00), (0xFF9003, 0xCC), (0xFF9005, 0x05)]\<rparr>"

text \<open>\<open>int c = duartA_getc()\<close> is the received char, sign-extended.\<close>

primrec duartA_read_loop :: "('f, 'd) vfs \<Rightarrow> addr \<Rightarrow> u32 \<Rightarrow> nat \<Rightarrow> (u32 \<times> ('f, 'd) vfs) option" where
  "duartA_read_loop s buf i 0 = Some (i, s)"
| "duartA_read_loop s buf i (Suc n) =
     (case duartA_getc s of
        None \<Rightarrow> None
      | Some (c, s) \<Rightarrow>
          if sint c < 0 then Some (i, s)
          else duartA_read_loop (set_mem s ((vmem s)(buf + i := c))) buf (i + 1) n)"

definition duartA_read :: "('f, 'd) vfs \<Rightarrow> addr \<Rightarrow> addr \<Rightarrow> u32 \<Rightarrow> (u32 \<times> ('f, 'd) vfs) option" where
  "duartA_read s file buffer sz = duartA_read_loop s buffer 0 (unat sz)"

primrec duartA_write_loop :: "('f, 'd) vfs \<Rightarrow> addr \<Rightarrow> u32 \<Rightarrow> nat \<Rightarrow> ('f, 'd) vfs" where
  "duartA_write_loop s data i 0 = s"
| "duartA_write_loop s data i (Suc n) =
     duartA_write_loop (duart_putc (vmem s (data + i)) s) data (i + 1) n"

definition duartA_write :: "('f, 'd) vfs \<Rightarrow> addr \<Rightarrow> addr \<Rightarrow> u32 \<Rightarrow> u32 \<times> ('f, 'd) vfs" where
  "duartA_write s file buffer sz = (sz, duartA_write_loop s buffer 0 (unat sz))"

definition duartA_lseek :: "('f, 'd) vfs \<Rightarrow> addr \<Rightarrow> u32 \<Rightarrow> u32 \<Rightarrow> u32 \<times> ('f, 'd) vfs" where
  "duartA_lseek s file offset whence = (minus1, s)"

definition duartA_ioctl :: "('f, 'd) vfs \<Rightarrow> addr \<Rightarrow> u32 \<Rightarrow> addr \<Rightarrow> u32 \<times> ('f, 'd) vfs" where
  "duartA_ioctl s file cmd arg =
     (if file = 0 then (minus1, s)
      else (minus1,
        if cmd = 0x01 then duart_opr_init s
        else if cmd = 0x02 then duart_led_op3_on s
        else if cmd = 0x03 then duart_led_op3_off s
        else if cmd = 0x04 then duart_led_op3_toggle s
        else s))"

definition duartA_open :: "('f, 'd) vfs \<Rightarrow> addr \<Rightarrow> u32 \<times> ('f, 'd) vfs" where
  "duartA_open s file =
     (0, duart_init_canal_a
           (upd_file s file (set_handlers 0 (Some Duart) (Some Duart) (Some Duart) (Some Duart) (Some Duart))))"

subsection \<open>vfs_proc.c\<close>

definition bytes_of :: "string \<Rightarrow> u8 list" where
  "bytes_of t = map (\<lambda>c. of_char c) t"

definition get_total_memory :: u32 where "get_total_memory = 1024"
definition get_kfree_memory :: u32 where "get_kfree_memory = 512"
definition get_cpu_name :: "u8 list" where "get_cpu_name = bytes_of ''Motorola 68000''"
definition get_cpu_clock :: u32 where "get_cpu_clock = 8"

text \<open>The texts ksprintf leaves in the local buffer; \<open>%d\<close> is the signed numeral.\<close>

definition meminfo_text :: "u8 list" where
  "meminfo_text =
     bytes_of ''MemTotal: '' @ signed_numeral (sint get_total_memory) @ bytes_of '' KB'' @ [LF]
     @ bytes_of ''Memkfree:  '' @ signed_numeral (sint get_kfree_memory) @ bytes_of '' KB'' @ [LF]
     @ bytes_of ''MemUsed:  '' @ signed_numeral (sint (get_total_memory - get_kfree_memory)) @ bytes_of '' KB'' @ [LF]
     @ bytes_of ''MemAvail: '' @ signed_numeral (sint (get_kfree_memory div 2)) @ bytes_of '' KB'' @ [LF]"

definition cpuinfo_text :: "u8 list" where
  "cpuinfo_text =
     bytes_of ''CPU:       '' @ get_cpu_name @ [LF]
     @ bytes_of ''Clock:     '' @ signed_numeral (sint get_cpu_clock) @ bytes_of '' MHz'' @ [LF]
     @ bytes_of ''Features:  FPU (sim)'' @ [LF] @ bytes_of ''Cores:     1'' @ [LF]
     @ bytes_of ''Family:    m68k'' @ [LF]"

definition uptime_text :: "u32 \<Rightarrow> u8 list" where
  "uptime_text up = signed_numeral (sint up) @ bytes_of '' seconds'' @ [LF]"

text \<open>strdup of the local buffer: allocate the length plus one and copy the text with its terminator.\<close>

definition dup_text :: "kheap \<Rightarrow> u8 list \<Rightarrow> (addr \<times> kheap) option" where
  "dup_text k t =
     map_option (\<lambda>(new, k). if new = 0 then (0, k) else (new, k\<lparr>hmem := wr_bytes (hmem k) new (t @ [0])\<rparr>))
       (kmalloc k (word_of_nat (length t) + 1))"

text \<open>The common body of the three open handlers; sizeof(ProcData) is 12. The result of strdup is not
  tested.\<close>

definition proc_open :: "('f, 'd) vfs \<Rightarrow> addr \<Rightarrow> (('f, 'd) vfs \<Rightarrow> u8 list \<times> ('f, 'd) vfs) \<Rightarrow> (u32 \<times> ('f, 'd) vfs) option" where
  "proc_open s file text_of =
     (case kmalloc (kh s) 12 of
        None \<Rightarrow> None
      | Some (data, k) \<Rightarrow>
          if data = 0 then Some (minus1, s\<lparr>kh := k\<rparr>)
          else case text_of (s\<lparr>kh := k\<rparr>) of (t, s) \<Rightarrow>
            (case dup_text (kh s) t of
               None \<Rightarrow> None
             | Some (p, k) \<Rightarrow>
                 let s = s\<lparr>kh := k, procs := (procs s)(data :=
                           \<lparr>pd_data = p, pd_size = word_of_nat (length t), pd_position = 0\<rparr>)\<rparr>
                 in Some (0, upd_file s file (set_handlers data (Some Proc) None (Some Proc) None (Some Proc)))))"

definition proc_meminfo_open :: "('f, 'd) vfs \<Rightarrow> addr \<Rightarrow> (u32 \<times> ('f, 'd) vfs) option" where
  "proc_meminfo_open s file = proc_open s file (\<lambda>s. (meminfo_text, s))"

definition proc_cpuinfo_open :: "('f, 'd) vfs \<Rightarrow> addr \<Rightarrow> (u32 \<times> ('f, 'd) vfs) option" where
  "proc_cpuinfo_open s file = proc_open s file (\<lambda>s. (cpuinfo_text, s))"

definition proc_uptime_open :: "('f, 'd) vfs \<Rightarrow> addr \<Rightarrow> (u32 \<times> ('f, 'd) vfs) option" where
  "proc_uptime_open s file =
     proc_open s file (\<lambda>s. let s = s\<lparr>uptime := uptime s + 10\<rparr> in (uptime_text (uptime s), s))"

definition proc_read :: "('f, 'd) vfs \<Rightarrow> addr \<Rightarrow> addr \<Rightarrow> u32 \<Rightarrow> u32 \<times> ('f, 'd) vfs" where
  "proc_read s file buffer sz =
     (let data = private_data (files s file) in
      if data = 0 then (minus1, s)
      else
        let d = procs s data;
            available = pd_size d - pd_position d;
            to_read = (if sz < available then sz else available)
        in if to_read = 0 then (0, s)
           else
             let s = set_mem s (snd (memcpy (vmem s) buffer (pd_data d + pd_position d) to_read));
                 s = s\<lparr>procs := (procs s)(data := d\<lparr>pd_position := pd_position d + to_read\<rparr>)\<rparr>;
                 s = upd_file s file (\<lambda>f. f\<lparr>position := pd_position d + to_read\<rparr>)
             in (to_read, s))"

definition proc_close :: "('f, 'd) vfs \<Rightarrow> addr \<Rightarrow> u32 \<times> ('f, 'd) vfs" where
  "proc_close s file =
     (let data = private_data (files s file) in
      if data \<noteq> 0 then
        (let s = s\<lparr>kh := kfree (kfree (kh s) (pd_data (procs s data))) data\<rparr>
         in (0, upd_file s file (\<lambda>f. f\<lparr>private_data := 0\<rparr>)))
      else (0, s))"

definition proc_lseek :: "('f, 'd) vfs \<Rightarrow> addr \<Rightarrow> u32 \<Rightarrow> u32 \<Rightarrow> u32 \<times> ('f, 'd) vfs" where
  "proc_lseek s file offset whence =
     (let data = private_data (files s file); d = procs s data in
      if data = 0 then (minus1, s)
      else if whence > 2 then (minus1, s)
      else
        let new_pos = (if whence = 0 then offset
                       else if whence = 1 then pd_position d + offset else pd_size d + offset);
            new_pos = (if new_pos > pd_size d then pd_size d else new_pos);
            s = s\<lparr>procs := (procs s)(data := d\<lparr>pd_position := new_pos\<rparr>)\<rparr>
        in (new_pos, upd_file s file (\<lambda>f. f\<lparr>position := new_pos\<rparr>)))"

subsection \<open>vfs_fat.c\<close>

text \<open>The FatFs mode for the flags of open: each test is \<open>flags & O_...\<close> not zero.\<close>

definition fat_mode :: "u32 \<Rightarrow> u8" where
  "fat_mode flags =
     (let b = (\<lambda>f v. if flags AND f \<noteq> 0 then v else 0)
      in b 0x01 0x01 OR b 0x02 0x02 OR b 0x03 (0x01 OR 0x02) OR b 0x04 0x08 OR b 0x08 0x08 OR b 0x10 0x30)"

text \<open>sizeof(FatPrivate) is 10.\<close>

definition fat_open :: "('f, 'd) fatfs \<Rightarrow> ('f, 'd) vfs \<Rightarrow> addr \<Rightarrow> addr \<Rightarrow> u32 \<Rightarrow> (u32 \<times> ('f, 'd) vfs) option" where
  "fat_open F s file path flags =
     (case kmalloc (kh s) (ff_fil_size F) of
        None \<Rightarrow> None
      | Some (fat_file, k) \<Rightarrow>
          let s = s\<lparr>kh := k\<rparr> in
          if fat_file = 0 then Some (minus1, s)
          else case ff_open F (vmem s) path (fat_mode flags) (disk s) of
            (None, d) \<Rightarrow> Some (minus1, s\<lparr>kh := kfree (kh s) fat_file, disk := d\<rparr>)
          | (Some fil, d) \<Rightarrow>
              (let s = s\<lparr>fils := (fils s)(fat_file := fil), disk := d\<rparr>
               in case kmalloc (kh s) 10 of
                    None \<Rightarrow> None
                  | Some (priv, k) \<Rightarrow>
                      let s = s\<lparr>kh := k\<rparr> in
                      if priv = 0 then
                        Some (minus1, s\<lparr>disk := snd (ff_close F (fils s fat_file) (disk s)),
                                        kh := kfree (kh s) fat_file\<rparr>)
                      else
                        let s = s\<lparr>fats := (fats s)(priv :=
                              \<lparr>fp_file = fat_file, fp_mode = fat_mode flags, fp_size = ff_size F (fils s fat_file)\<rparr>)\<rparr>
                        in Some (0, upd_file s file (\<lambda>f. f\<lparr>private_data := priv, position := 0,
                             f_read := Some Fat, f_write := Some Fat, f_close := Some Fat, f_lseek := Some Fat\<rparr>))))"

definition fat_read :: "('f, 'd) fatfs \<Rightarrow> ('f, 'd) vfs \<Rightarrow> addr \<Rightarrow> addr \<Rightarrow> u32 \<Rightarrow> u32 \<times> ('f, 'd) vfs" where
  "fat_read F s file buffer sz =
     (let priv = private_data (files s file) in
      if priv = 0 then (minus1, s)
      else let p = fp_file (fats s priv) in
        case ff_read F (fils s p) sz (disk s) of
          (ok, bs, fil, d) \<Rightarrow>
            let s = s\<lparr>fils := (fils s)(p := fil), disk := d\<rparr>;
                s = set_mem s (wr_bytes (vmem s) buffer bs);
                n = word_of_nat (length bs)
            in if \<not> ok then (minus1, s)
               else (n, upd_file s file (\<lambda>f. f\<lparr>position := position f + n\<rparr>)))"

definition fat_write :: "('f, 'd) fatfs \<Rightarrow> ('f, 'd) vfs \<Rightarrow> addr \<Rightarrow> addr \<Rightarrow> u32 \<Rightarrow> u32 \<times> ('f, 'd) vfs" where
  "fat_write F s file buffer sz =
     (let priv = private_data (files s file) in
      if priv = 0 then (minus1, s)
      else
        let p = fp_file (fats s priv);
            s = (if fp_mode (fats s priv) AND 0x30 \<noteq> 0
                 then (case ff_lseek F (fils s p) (ff_size F (fils s p)) (disk s) of
                         (r, fil, d) \<Rightarrow> s\<lparr>fils := (fils s)(p := fil), disk := d\<rparr>)
                 else s)
        in case ff_write F (fils s p) (rd_bytes (vmem s) buffer (unat sz)) (disk s) of
             (r, fil, d) \<Rightarrow>
               let s = s\<lparr>fils := (fils s)(p := fil), disk := d\<rparr>
               in (case r of
                     None \<Rightarrow> (minus1, s)
                   | Some n \<Rightarrow>
                       let s = upd_file s file (\<lambda>f. f\<lparr>position := position f + n\<rparr>);
                           pos = position (files s file);
                           s = (if pos > fp_size (fats s priv)
                                then s\<lparr>fats := (fats s)(priv := (fats s priv)\<lparr>fp_size := pos\<rparr>)\<rparr> else s)
                       in (n, s)))"

definition fat_close :: "('f, 'd) fatfs \<Rightarrow> ('f, 'd) vfs \<Rightarrow> addr \<Rightarrow> u32 \<times> ('f, 'd) vfs" where
  "fat_close F s file =
     (let priv = private_data (files s file) in
      if priv = 0 then (minus1, s)
      else
        let p = fp_file (fats s priv) in
        case ff_close F (fils s p) (disk s) of
          (r, d) \<Rightarrow>
            let s = s\<lparr>disk := d, kh := kfree (kfree (kh s) p) priv\<rparr>;
                s = upd_file s file (\<lambda>f. f\<lparr>private_data := 0\<rparr>)
            in (if r \<noteq> None then 0 else minus1, s))"

definition fat_lseek :: "('f, 'd) fatfs \<Rightarrow> ('f, 'd) vfs \<Rightarrow> addr \<Rightarrow> u32 \<Rightarrow> u32 \<Rightarrow> u32 \<times> ('f, 'd) vfs" where
  "fat_lseek F s file offset whence =
     (let priv = private_data (files s file); p = fp_file (fats s priv) in
      if priv = 0 then (minus1, s)
      else if whence > 2 then (minus1, s)
      else
        let new_pos = (if whence = 0 then offset
                       else if whence = 1 then ff_tell F (fils s p) + offset
                       else fp_size (fats s priv) + offset)
        in case ff_lseek F (fils s p) new_pos (disk s) of
             (r, fil, d) \<Rightarrow>
               let s = s\<lparr>fils := (fils s)(p := fil), disk := d\<rparr>
               in if r = None then (minus1, s)
                  else (new_pos, upd_file s file (\<lambda>f. f\<lparr>position := new_pos\<rparr>)))"

end
