(* ===== verification/Vfs.thy ===== *)
theory Vfs
  imports Drivers
begin

text \<open>
  The virtual file system, vfs/vfs.c, its driver table, vfs/vfs_drivers.c, and the system call entry
  trap0.c. Descriptors index a table of 256 File pointers; File objects come from the kernel heap.
  A descriptor argument is an int: the range test \<open>fd < 0 || fd >= 256\<close> is \<open>256 \<le> unat fd\<close>.
\<close>

subsection \<open>The descriptor table\<close>

definition vfs_set_fd :: "('f, 'd) vfs \<Rightarrow> u32 \<Rightarrow> addr \<Rightarrow> ('f, 'd) vfs" where
  "vfs_set_fd s fd file = (if unat fd < 256 then s\<lparr>fd_table := (fd_table s)(unat fd := file)\<rparr> else s)"

definition vfs_get_fd :: "('f, 'd) vfs \<Rightarrow> u32 \<Rightarrow> addr" where
  "vfs_get_fd s fd = (if unat fd < 256 then fd_table s (unat fd) else 0)"

primrec alloc_scan :: "(nat \<Rightarrow> addr) \<Rightarrow> nat \<Rightarrow> nat \<Rightarrow> nat option" where
  "alloc_scan t i 0 = None"
| "alloc_scan t i (Suc n) = (if t i = 0 then Some i else alloc_scan t (Suc i) n)"

definition allocate_fd :: "('f, 'd) vfs \<Rightarrow> addr \<Rightarrow> u32 \<times> ('f, 'd) vfs" where
  "allocate_fd s file =
     (case alloc_scan (fd_table s) 3 253 of
        None \<Rightarrow> (minus1, s)
      | Some i \<Rightarrow> (word_of_nat i, s\<lparr>fd_table := (fd_table s)(i := file), fd_count := fd_count s + 1\<rparr>))"

definition get_file_from_fd :: "('f, 'd) vfs \<Rightarrow> u32 \<Rightarrow> addr" where
  "get_file_from_fd s fd = (if unat fd < 256 then fd_table s (unat fd) else 0)"

definition kfree_fd :: "('f, 'd) vfs \<Rightarrow> u32 \<Rightarrow> ('f, 'd) vfs" where
  "kfree_fd s fd =
     (if unat fd < 256 then s\<lparr>fd_table := (fd_table s)(unat fd := 0), fd_count := fd_count s - 1\<rparr> else s)"

subsection \<open>The driver table\<close>

type_synonym ('f, 'd) opener = "('f, 'd) vfs \<Rightarrow> addr \<Rightarrow> (u32 \<times> ('f, 'd) vfs) option"

definition drivers :: "(string \<times> ('f, 'd) opener) list" where
  "drivers =
     [(''/dev/tty'', \<lambda>s f. Some (tty_open s f)), (''/dev/null'', \<lambda>s f. Some (null_open s f)),
      (''/dev/zero'', \<lambda>s f. Some (zero_open s f)), (''/dev/serial0'', \<lambda>s f. Some (serial_open s f)),
      (''/proc/meminfo'', proc_meminfo_open), (''/proc/cpuinfo'', proc_cpuinfo_open),
      (''/proc/uptime'', proc_uptime_open),
      (''/dev/tty0'', \<lambda>s f. Some (duartA_open s f)), (''/dev/console'', \<lambda>s f. Some (duartA_open s f))]"

text \<open>The calls through the function pointers of a File.\<close>

definition call_read :: "('f, 'd) fatfs \<Rightarrow> driver \<Rightarrow> ('f, 'd) vfs \<Rightarrow> addr \<Rightarrow> addr \<Rightarrow> u32 \<Rightarrow> (u32 \<times> ('f, 'd) vfs) option" where
  "call_read F d s file buffer sz =
     (case d of Tty \<Rightarrow> tty_read s file buffer sz | NullDev \<Rightarrow> Some (null_read s file buffer sz)
      | Zero \<Rightarrow> Some (zero_read s file buffer sz) | Serial \<Rightarrow> Some (serial_read s file buffer sz)
      | Proc \<Rightarrow> Some (proc_read s file buffer sz) | Duart \<Rightarrow> duartA_read s file buffer sz
      | Fat \<Rightarrow> Some (fat_read F s file buffer sz))"

definition call_write :: "('f, 'd) fatfs \<Rightarrow> driver \<Rightarrow> ('f, 'd) vfs \<Rightarrow> addr \<Rightarrow> addr \<Rightarrow> u32 \<Rightarrow> u32 \<times> ('f, 'd) vfs" where
  "call_write F d s file buffer sz =
     (case d of Tty \<Rightarrow> tty_write s file buffer sz | NullDev \<Rightarrow> null_write s file buffer sz
      | Zero \<Rightarrow> zero_write s file buffer sz | Serial \<Rightarrow> serial_write s file buffer sz
      | Proc \<Rightarrow> (minus1, s) | Duart \<Rightarrow> duartA_write s file buffer sz | Fat \<Rightarrow> fat_write F s file buffer sz)"

text \<open>tty_close, null_close, zero_close, serial_close and duartA_close only return 0.\<close>

definition call_close :: "('f, 'd) fatfs \<Rightarrow> driver \<Rightarrow> ('f, 'd) vfs \<Rightarrow> addr \<Rightarrow> u32 \<times> ('f, 'd) vfs" where
  "call_close F d s file =
     (case d of Proc \<Rightarrow> proc_close s file | Fat \<Rightarrow> fat_close F s file | _ \<Rightarrow> (0, s))"

definition call_ioctl :: "driver \<Rightarrow> ('f, 'd) vfs \<Rightarrow> addr \<Rightarrow> u32 \<Rightarrow> addr \<Rightarrow> u32 \<times> ('f, 'd) vfs" where
  "call_ioctl d s file cmd arg =
     (case d of Tty \<Rightarrow> tty_ioctl s file cmd arg | Duart \<Rightarrow> duartA_ioctl s file cmd arg | _ \<Rightarrow> (minus1, s))"

definition call_lseek :: "('f, 'd) fatfs \<Rightarrow> driver \<Rightarrow> ('f, 'd) vfs \<Rightarrow> addr \<Rightarrow> u32 \<Rightarrow> u32 \<Rightarrow> u32 \<times> ('f, 'd) vfs" where
  "call_lseek F d s file offset whence =
     (case d of Tty \<Rightarrow> tty_lseek s file offset whence | NullDev \<Rightarrow> null_lseek s file offset whence
      | Zero \<Rightarrow> zero_lseek s file offset whence | Serial \<Rightarrow> serial_lseek s file offset whence
      | Proc \<Rightarrow> proc_lseek s file offset whence | Duart \<Rightarrow> duartA_lseek s file offset whence
      | Fat \<Rightarrow> fat_lseek F s file offset whence)"

subsection \<open>The operations\<close>

text \<open>The two calls on the error paths.\<close>

definition drop_file :: "('f, 'd) vfs \<Rightarrow> addr \<Rightarrow> ('f, 'd) vfs" where
  "drop_file s file = s\<lparr>kh := kfree (kfree (kh s) (fname (files s file))) file\<rparr>"

text \<open>The loop over the driver table; \<open>strcmp(path, drivers[i].path) == 0\<close> is \<open>cstr\<close>. When open succeeds
  and no descriptor is free, the loop goes on.\<close>

primrec try_drivers :: "('f, 'd) vfs \<Rightarrow> addr \<Rightarrow> addr \<Rightarrow> (string \<times> ('f, 'd) opener) list \<Rightarrow> (u32 \<times> ('f, 'd) vfs) option" where
  "try_drivers s file path [] = Some (minus1, drop_file s file)"
| "try_drivers s file path (d # ds) =
     (if cstr (vmem s) path (bytes_of (fst d)) then
        (case snd d s file of
           None \<Rightarrow> None
         | Some (r, s) \<Rightarrow>
             if r = 0 then
               (case allocate_fd s file of
                  (fd, s) \<Rightarrow> if 0 \<le> sint fd then Some (fd, s) else try_drivers s file path ds)
             else try_drivers s file path ds)
      else try_drivers s file path ds)"

text \<open>sizeof(File) is 44.\<close>

definition vfs_open :: "('f, 'd) fatfs \<Rightarrow> ('f, 'd) vfs \<Rightarrow> addr \<Rightarrow> u32 \<Rightarrow> (u32 \<times> ('f, 'd) vfs) option" where
  "vfs_open F s path flags =
     (case kmalloc (kh s) 44 of
        None \<Rightarrow> None
      | Some (file, k) \<Rightarrow>
          if file = 0 then Some (minus1, s\<lparr>kh := k\<rparr>)
          else let s = s\<lparr>kh := k, files := (files s)(file := zero_file)\<rparr> in
            (case strdup (kh s) path of
               None \<Rightarrow> None
             | Some (name, k) \<Rightarrow>
                 let s = upd_file (s\<lparr>kh := k\<rparr>) file (\<lambda>f. f\<lparr>fname := name\<rparr>) in
                 (case fat_open F s file path flags of
                    None \<Rightarrow> None
                  | Some (r, s) \<Rightarrow>
                      if r = 0 then
                        (case allocate_fd s file of
                           (fd, s) \<Rightarrow> if 0 \<le> sint fd then Some (fd, s) else Some (minus1, drop_file s file))
                      else try_drivers s file path drivers)))"

definition vfs_read :: "('f, 'd) fatfs \<Rightarrow> ('f, 'd) vfs \<Rightarrow> u32 \<Rightarrow> addr \<Rightarrow> u32 \<Rightarrow> (u32 \<times> ('f, 'd) vfs) option" where
  "vfs_read F s fd buffer sz =
     (let file = get_file_from_fd s fd in
      if file = 0 then Some (minus1, s)
      else case f_read (files s file) of
             None \<Rightarrow> Some (minus1, s) | Some d \<Rightarrow> call_read F d s file buffer sz)"

definition vfs_write :: "('f, 'd) fatfs \<Rightarrow> ('f, 'd) vfs \<Rightarrow> u32 \<Rightarrow> addr \<Rightarrow> u32 \<Rightarrow> u32 \<times> ('f, 'd) vfs" where
  "vfs_write F s fd buffer sz =
     (let file = get_file_from_fd s fd in
      if file = 0 then (minus1, s)
      else case f_write (files s file) of
             None \<Rightarrow> (minus1, s) | Some d \<Rightarrow> call_write F d s file buffer sz)"

definition vfs_close :: "('f, 'd) fatfs \<Rightarrow> ('f, 'd) vfs \<Rightarrow> u32 \<Rightarrow> u32 \<times> ('f, 'd) vfs" where
  "vfs_close F s fd =
     (let file = get_file_from_fd s fd in
      if file = 0 then (minus1, s)
      else case (case f_close (files s file) of None \<Rightarrow> (0, s) | Some d \<Rightarrow> call_close F d s file) of
             (result, s) \<Rightarrow> (result, kfree_fd (drop_file s file) fd))"

definition vfs_ioctl :: "('f, 'd) vfs \<Rightarrow> u32 \<Rightarrow> u32 \<Rightarrow> addr \<Rightarrow> u32 \<times> ('f, 'd) vfs" where
  "vfs_ioctl s fd cmd arg =
     (let file = get_file_from_fd s fd in
      if file = 0 then (minus1, s)
      else case f_ioctl (files s file) of
             None \<Rightarrow> (minus1, s) | Some d \<Rightarrow> call_ioctl d s file cmd arg)"

definition vfs_lseek :: "('f, 'd) fatfs \<Rightarrow> ('f, 'd) vfs \<Rightarrow> u32 \<Rightarrow> u32 \<Rightarrow> u32 \<Rightarrow> u32 \<times> ('f, 'd) vfs" where
  "vfs_lseek F s fd offset whence =
     (let file = get_file_from_fd s fd in
      if file = 0 then (minus1, s)
      else case f_lseek (files s file) of
             Some d \<Rightarrow> call_lseek F d s file offset whence
           | None \<Rightarrow>
               if whence = 0 then
                 (let s = upd_file s file (\<lambda>f. f\<lparr>position := offset\<rparr>) in (position (files s file), s))
               else if whence = 1 then
                 (let s = upd_file s file (\<lambda>f. f\<lparr>position := position f + offset\<rparr>) in (position (files s file), s))
               else (minus1, s))"

text \<open>\<open>tty_path\<close> is the address of the literal /dev/tty, and 3 is O_RDWR.\<close>

definition vfs_restore_fd :: "('f, 'd) fatfs \<Rightarrow> addr \<Rightarrow> ('f, 'd) vfs \<Rightarrow> u32 \<Rightarrow> ('f, 'd) vfs option" where
  "vfs_restore_fd F tty_path s fd =
     (if unat fd < 256 then
        (case vfs_open F s tty_path 3 of
           None \<Rightarrow> None
         | Some (tty_fd, s) \<Rightarrow>
             if 0 \<le> sint tty_fd then
               (let s = s\<lparr>fd_table := (fd_table s)(unat fd := fd_table s (unat tty_fd))\<rparr>
                in Some (s\<lparr>fd_table := (fd_table s)(unat tty_fd := 0)\<rparr>))
             else Some s)
      else Some s)"

definition vfs_init :: "('f, 'd) fatfs \<Rightarrow> addr \<Rightarrow> ('f, 'd) vfs \<Rightarrow> ('f, 'd) vfs option" where
  "vfs_init F tty_path s =
     (case vfs_open F (s\<lparr>fd_table := (\<lambda>_. 0), fd_count := 0\<rparr>) tty_path 3 of
        None \<Rightarrow> None
      | Some (fd0, s) \<Rightarrow>
          (case vfs_open F s tty_path 3 of
             None \<Rightarrow> None
           | Some (fd1, s) \<Rightarrow> map_option snd (vfs_open F s tty_path 3)))"

subsection \<open>trap0.c\<close>

definition trap0_handler :: "('f, 'd) fatfs \<Rightarrow> ('f, 'd) vfs \<Rightarrow> u32 \<Rightarrow> u32 \<Rightarrow> u32 \<Rightarrow> u32 \<Rightarrow> (u32 \<times> ('f, 'd) vfs) option" where
  "trap0_handler F s num a1 a2 a3 =
     (if num = 0x47 then vfs_open F s a1 a2
      else if num = 0x49 then vfs_read F s a1 a2 a3
      else if num = 0x50 then Some (vfs_write F s a1 a2 a3)
      else if num = 0x48 then Some (vfs_close F s a1)
      else if num = 0x53 then Some (vfs_ioctl s a1 a2 a3)
      else if num = 0x52 then Some (vfs_lseek F s a1 a2 a3)
      else Some (0, s))"

end
