(* ===== verification/VfsInv.thy ===== *)
theory VfsInv
  imports Vfs "HOL-Library.Multiset"
begin

text \<open>
  The ownership invariant of the file system: which heap blocks an open descriptor holds (its File,
  the copied path, the data of its driver), that they are live, and that no block belongs to two
  descriptors. \<open>pend F s bs P\<close> adds a list \<open>P\<close> of blocks that an operation holds and no descriptor
  owns yet; the rules of the first section say how allocating, releasing and handing over a block
  change it. The locale \<open>driver_table\<close> is the contract between vfs_open and the open handlers.
\<close>

subsection \<open>Blocks held\<close>

abbreviation rgn :: "kheap \<Rightarrow> block list \<Rightarrow> (nat \<times> nat) set" where
  "rgn k bs \<equiv> live (unat (heap_base k)) bs"

definition holds :: "kheap \<Rightarrow> block list \<Rightarrow> addr \<times> nat \<Rightarrow> bool" where
  "holds k bs b \<longleftrightarrow> (\<exists>l. snd b \<le> l \<and> (unat (fst b), l) \<in> rgn k bs)"

definition without :: "addr set \<Rightarrow> (nat \<times> nat) set \<Rightarrow> (nat \<times> nat) set" where
  "without A R = {r \<in> R. fst r \<notin> unat ` A}"

lemma without_empty [simp]: "without {} R = R"
  by (simp add: without_def)

lemma without_without [simp]: "without A (without B R) = without (A \<union> B) R"
  by (auto simp: without_def)

lemma without_subset: "without A R \<subseteq> R"
  by (auto simp: without_def)

text \<open>What the close handler of a driver releases, in its order, and then what vfs_close releases.\<close>

definition driver_blocks :: "('f, 'd) fatfs \<Rightarrow> ('f, 'd) vfs \<Rightarrow> File \<Rightarrow> (addr \<times> nat) list" where
  "driver_blocks F s f =
     (case f_close f of
        Some Proc \<Rightarrow> (if pd_data (procs s (private_data f)) = 0 then []
                      else [(pd_data (procs s (private_data f)), unat (pd_size (procs s (private_data f))))])
                     @ [(private_data f, 12)]
      | Some Fat \<Rightarrow> [(fp_file (fats s (private_data f)), unat (ff_fil_size F)), (private_data f, 10)]
      | _ \<Rightarrow> [])"

definition name_blocks :: "File \<Rightarrow> (addr \<times> nat) list" where
  "name_blocks f = (if fname f = 0 then [] else [(fname f, 1)])"

definition file_blocks :: "('f, 'd) fatfs \<Rightarrow> ('f, 'd) vfs \<Rightarrow> addr \<Rightarrow> (addr \<times> nat) list" where
  "file_blocks F s a = driver_blocks F s (files s a) @ name_blocks (files s a) @ [(a, 44)]"

definition fd_blocks :: "('f, 'd) fatfs \<Rightarrow> ('f, 'd) vfs \<Rightarrow> nat \<Rightarrow> (addr \<times> nat) list" where
  "fd_blocks F s i = (if fd_table s i = 0 then [] else file_blocks F s (fd_table s i))"

abbreviation addrs :: "(addr \<times> nat) list \<Rightarrow> addr set" where
  "addrs bs \<equiv> fst ` set bs"

definition pend :: "('f, 'd) fatfs \<Rightarrow> ('f, 'd) vfs \<Rightarrow> block list \<Rightarrow> (addr \<times> nat) list \<Rightarrow> bool" where
  "pend F s bs P \<longleftrightarrow> heap_wf (kh s) bs
     \<and> distinct (map fst P) \<and> (\<forall>b \<in> set P. holds (kh s) bs b)
     \<and> (\<forall>i < 256. distinct (map fst (fd_blocks F s i)) \<and> (\<forall>b \<in> set (fd_blocks F s i). holds (kh s) bs b)
          \<and> addrs P \<inter> addrs (fd_blocks F s i) = {})
     \<and> (\<forall>i < 256. \<forall>j < 256. i \<noteq> j \<longrightarrow> addrs (fd_blocks F s i) \<inter> addrs (fd_blocks F s j) = {})"

abbreviation vfs_wf :: "('f, 'd) fatfs \<Rightarrow> ('f, 'd) vfs \<Rightarrow> block list \<Rightarrow> bool" where
  "vfs_wf F s bs \<equiv> pend F s bs []"

lemma pendD:
  assumes "pend F s bs P"
  shows "heap_wf (kh s) bs" and "distinct (map fst P)" and "b \<in> set P \<Longrightarrow> holds (kh s) bs b"
    and "i < 256 \<Longrightarrow> distinct (map fst (fd_blocks F s i))"
    and "i < 256 \<Longrightarrow> b \<in> set (fd_blocks F s i) \<Longrightarrow> holds (kh s) bs b"
    and "i < 256 \<Longrightarrow> addrs P \<inter> addrs (fd_blocks F s i) = {}"
    and "i < 256 \<Longrightarrow> j < 256 \<Longrightarrow> i \<noteq> j \<Longrightarrow> addrs (fd_blocks F s i) \<inter> addrs (fd_blocks F s j) = {}"
  using assms unfolding pend_def by blast+

lemma pendI:
  assumes "heap_wf (kh s) bs" and "distinct (map fst P)" and "\<And>b. b \<in> set P \<Longrightarrow> holds (kh s) bs b"
    and "\<And>i. i < 256 \<Longrightarrow> distinct (map fst (fd_blocks F s i))"
    and "\<And>i b. i < 256 \<Longrightarrow> b \<in> set (fd_blocks F s i) \<Longrightarrow> holds (kh s) bs b"
    and "\<And>i. i < 256 \<Longrightarrow> addrs P \<inter> addrs (fd_blocks F s i) = {}"
    and "\<And>i j. i < 256 \<Longrightarrow> j < 256 \<Longrightarrow> i \<noteq> j \<Longrightarrow> addrs (fd_blocks F s i) \<inter> addrs (fd_blocks F s j) = {}"
  shows "pend F s bs P"
  unfolding pend_def using assms by blast

lemma holds_nonzero:
  assumes "heap_wf k bs" and "holds k bs b"
  shows "fst b \<noteq> 0"
proof
  assume "fst b = 0"
  with assms(2) obtain l where "(0, l) \<in> rgn k bs" by (auto simp: holds_def)
  from live_bound(3) [OF assms(1) this] show False by simp
qed

lemma rgn_unique:
  assumes "(a, l) \<in> rgn k bs" and "(a, l') \<in> rgn k bs"
  shows "l' = l"
proof -
  from assms obtain q where "a = q + 4" "(q, l, False) \<in> set (spans (unat (heap_base k)) bs)"
    "(q, l', False) \<in> set (spans (unat (heap_base k)) bs)" by (auto simp: live_def)
  with spans_disjoint [OF this(2,3)] show ?thesis by auto
qed

text \<open>The blocks of a descriptor depend on the shape of its objects only.\<close>

definition shape :: "('f, 'd) vfs \<Rightarrow> addr \<Rightarrow> addr \<times> addr \<times> driver option" where
  "shape s a = (fname (files s a), private_data (files s a), f_close (files s a))"

lemma driver_blocks_cong:
  assumes "f_close f' = f_close f" and "private_data f' = private_data f"
    and "f_close f = Some Proc \<Longrightarrow> pd_data (procs s' (private_data f)) = pd_data (procs s (private_data f))
      \<and> pd_size (procs s' (private_data f)) = pd_size (procs s (private_data f))"
    and "f_close f = Some Fat \<Longrightarrow> fp_file (fats s' (private_data f)) = fp_file (fats s (private_data f))"
  shows "driver_blocks F s' f' = driver_blocks F s f"
  using assms by (auto simp: driver_blocks_def split: option.splits driver.splits)

lemma fd_blocks_cong:
  assumes "fd_table s' i = fd_table s i" and "shape s' (fd_table s i) = shape s (fd_table s i)"
    and "\<And>a. a \<in> addrs (fd_blocks F s i) \<Longrightarrow> pd_data (procs s' a) = pd_data (procs s a) \<and> pd_size (procs s' a) = pd_size (procs s a)"
    and "\<And>a. a \<in> addrs (fd_blocks F s i) \<Longrightarrow> fp_file (fats s' a) = fp_file (fats s a)"
  shows "fd_blocks F s' i = fd_blocks F s i"
proof (cases "fd_table s i = 0")
  case False
  let ?f = "files s (fd_table s i)"
  have "driver_blocks F s' (files s' (fd_table s i)) = driver_blocks F s ?f"
  proof (rule driver_blocks_cong)
    have "private_data ?f \<in> addrs (fd_blocks F s i)" if "f_close ?f = Some Proc \<or> f_close ?f = Some Fat"
    proof -
      have "(private_data ?f, 12) \<in> set (fd_blocks F s i) \<or> (private_data ?f, 10) \<in> set (fd_blocks F s i)"
        using that False by (auto simp: fd_blocks_def file_blocks_def driver_blocks_def)
      then show ?thesis by force
    qed
    then show "f_close ?f = Some Proc \<Longrightarrow> pd_data (procs s' (private_data ?f)) = pd_data (procs s (private_data ?f))
        \<and> pd_size (procs s' (private_data ?f)) = pd_size (procs s (private_data ?f))"
      and "f_close ?f = Some Fat \<Longrightarrow> fp_file (fats s' (private_data ?f)) = fp_file (fats s (private_data ?f))"
      using assms(3,4) by blast+
  qed (use assms(2) in \<open>simp_all add: shape_def\<close>)
  then show ?thesis using assms(1,2) by (simp add: fd_blocks_def file_blocks_def name_blocks_def shape_def)
qed (use assms(1) in \<open>simp add: fd_blocks_def\<close>)

lemma fd_blocks_kh [simp]: "fd_blocks F (s\<lparr>kh := k\<rparr>) i = fd_blocks F s i"
  by (rule fd_blocks_cong) (simp_all add: shape_def)

text \<open>Writes that keep the shapes and the block headers keep the invariant.\<close>

lemma pend_shape:
  assumes "pend F s bs P" and "heap_wf (kh s') bs" and "heap_base (kh s') = heap_base (kh s)"
    and "\<And>i. i < 256 \<Longrightarrow> fd_blocks F s' i = fd_blocks F s i"
  shows "pend F s' bs P"
  using pendD [OF assms(1)] assms(2-4) by (intro pendI) (simp_all add: holds_def)

subsection \<open>Allocating, releasing, handing over\<close>

lemma holds_insert:
  assumes "holds k bs b" and "heap_base k' = heap_base k" and "rgn k' bs' = insert r (rgn k bs)"
  shows "holds k' bs' b"
  using assms by (auto simp: holds_def)

lemma kmalloc_base: "kmalloc k n = Some (r, k') \<Longrightarrow> heap_base k' = heap_base k \<and> heap_size k' = heap_size k"
  by (auto simp: kmalloc_def split: if_splits)

lemma kfree_base [simp]: "heap_base (kfree k p) = heap_base k" "heap_size (kfree k p) = heap_size k"
  by (simp_all add: kfree_def Let_def)

lemma pend_alloc:
  assumes p: "pend F s bs P" and n: "0 < unat n" "unat n + 3 < 2 ^ 32"
    and r: "kmalloc (kh s) n = Some (r, k)" "r \<noteq> 0"
  shows "\<exists>bs' l. pend F (s\<lparr>kh := k\<rparr>) bs' ((r, unat n) # P) \<and> unat n \<le> l \<and> unat r + l < 2 ^ 32
    \<and> (unat r, l) \<in> rgn k bs' \<and> rgn (kh s) bs = without {r} (rgn k bs')
    \<and> (\<forall>(a, m) \<in> rgn (kh s) bs. a + m + 4 \<le> unat r \<or> unat r + l + 4 \<le> a)
    \<and> (\<forall>(a, m) \<in> rgn (kh s) bs. \<forall>x. a \<le> unat x \<and> unat x < a + m \<longrightarrow> hmem k x = vmem s x)"
proof -
  from heap.alloc_ok [OF pendD(1) [OF p] n r] obtain bs' l where wf: "heap_wf k bs'" and l: "unat n \<le> l"
    and lim: "unat r + l < 2 ^ 32" and R: "rgn k bs' = insert (unat r, l) (rgn (kh s) bs)"
    and dj: "\<forall>(a, m) \<in> rgn (kh s) bs. a + m + 4 \<le> unat r \<or> unat r + l + 4 \<le> a"
    and keep: "\<forall>(a, m) \<in> rgn (kh s) bs. \<forall>x. a \<le> unat x \<and> unat x < a + m \<longrightarrow> hmem k x = vmem s x" by blast
  note base = kmalloc_base [OF r(1), THEN conjunct1]
  have fresh: "(unat r, m) \<notin> rgn (kh s) bs" for m using dj by fastforce
  have new: "fst b \<noteq> r" if "holds (kh s) bs b" for b
    using that fresh by (auto simp: holds_def)
  have old: "holds k bs' b" if "holds (kh s) bs b" for b
    using that base R by (rule holds_insert)
  have mine: "holds k bs' (r, unat n)" using R l by (auto simp: holds_def)
  have "pend F (s\<lparr>kh := k\<rparr>) bs' ((r, unat n) # P)"
  proof (rule pendI, goal_cases)
    case 2
    have "r \<notin> addrs P" using pendD(3) [OF p] new by fastforce
    then show ?case using pendD(2) [OF p] by simp
  next
    case (6 i)
    have "r \<notin> addrs (fd_blocks F s i)" using pendD(5) [OF p 6] new by fastforce
    then show ?case using pendD(6) [OF p 6] by simp
  qed (use wf mine old pendD [OF p] in auto)
  moreover have "rgn (kh s) bs = without {r} (rgn k bs')" unfolding R without_def using fresh by auto
  ultimately show ?thesis using l lim R dj keep by blast
qed

lemma pend_free:
  assumes p: "pend F s bs ((a, n) # P)"
  shows "\<exists>bs'. pend F (s\<lparr>kh := kfree (kh s) a\<rparr>) bs' P \<and> rgn (kfree (kh s) a) bs' = without {a} (rgn (kh s) bs)
    \<and> (\<forall>x. unat x + 4 < unat a \<or> unat a \<le> unat x \<longrightarrow> hmem (kfree (kh s) a) x = vmem s x)"
proof -
  from pendD(3) [OF p, of "(a, n)"] obtain l where l: "(unat a, l) \<in> rgn (kh s) bs" by (auto simp: holds_def)
  from heap.release_ok [OF pendD(1) [OF p] l] obtain bs' where wf: "heap_wf (kfree (kh s) a) bs'"
    and R: "rgn (kfree (kh s) a) bs' = rgn (kh s) bs - {(unat a, l)}"
    and keep: "\<forall>x. unat x + 4 < unat a \<or> unat a \<le> unat x \<longrightarrow> hmem (kfree (kh s) a) x = vmem s x" by blast
  have R': "rgn (kfree (kh s) a) bs' = without {a} (rgn (kh s) bs)"
    unfolding R without_def using l by (auto dest: rgn_unique)
  have old: "holds (kfree (kh s) a) bs' b" if "holds (kh s) bs b" "fst b \<noteq> a" for b
    using that unfolding holds_def R' without_def word_unat_eq_iff by auto
  have "pend F (s\<lparr>kh := kfree (kh s) a\<rparr>) bs' P"
  proof (rule pendI, goal_cases)
    case (3 b)
    then have "fst b \<noteq> a" using pendD(2) [OF p] by (force simp: image_iff)
    then show ?case using old [OF pendD(3) [OF p, of b]] 3 by simp
  next
    case (5 i b)
    then have "b \<in> set (fd_blocks F s i)" by simp
    moreover then have "fst b \<noteq> a" using pendD(6) [OF p 5(1)] by force
    ultimately show ?case using old [OF pendD(5) [OF p 5(1), of b]] by simp
  next
    case (7 i j)
    then show ?case using pendD(7) [OF p 7] by simp
  qed (use wf pendD(2,4,6) [OF p] in simp_all)
  with R' keep show ?thesis by blast
qed

text \<open>A block may be forgotten; it stays allocated.\<close>

lemma pend_forget:
  assumes "pend F s bs (Q @ P)"
  shows "pend F s bs P"
proof (rule pendI)
  note D = pendD [OF assms]
  show "heap_wf (kh s) bs" by (rule D(1))
  show "distinct (map fst P)" using D(2) by simp
  show "holds (kh s) bs b" if "b \<in> set P" for b using D(3) that by simp
  fix i :: nat assume i: "i < 256"
  show "distinct (map fst (fd_blocks F s i))" using D(4) i .
  show "holds (kh s) bs b" if "b \<in> set (fd_blocks F s i)" for b using D(5) i that .
  show "addrs P \<inter> addrs (fd_blocks F s i) = {}" using D(6) [OF i] by (simp add: image_Un Int_Un_distrib2)
  show "addrs (fd_blocks F s i) \<inter> addrs (fd_blocks F s j) = {}" if "j < 256" "i \<noteq> j" for j
    using D(7) i that .
qed

lemma pend_perm:
  assumes "pend F s bs P" and "mset Q = mset P"
  shows "pend F s bs Q"
proof -
  have "set Q = set P" and "distinct (map fst Q) = distinct (map fst P)"
    using assms(2) mset_eq_setD mset_eq_imp_distinct_iff [of "map fst Q" "map fst P"] by auto
  with pendD [OF assms(1)] show ?thesis by (intro pendI) auto
qed

text \<open>An operation may write the objects at the addresses it holds.\<close>

lemma pend_store:
  assumes p: "pend F s bs P" and kh: "kh s' = kh s" and t: "fd_table s' = fd_table s"
    and eq: "\<And>a. a \<notin> addrs P \<Longrightarrow> files s' a = files s a \<and> procs s' a = procs s a \<and> fats s' a = fats s a"
  shows "pend F s' bs P"
proof (rule pend_shape [OF p])
  fix i :: nat assume i: "i < 256"
  have out: "files s' a = files s a \<and> procs s' a = procs s a \<and> fats s' a = fats s a"
    if "a \<in> addrs (fd_blocks F s i)" for a
    using pendD(6) [OF p i] that by (intro eq) blast
  have "shape s' (fd_table s i) = shape s (fd_table s i)"
  proof (cases "fd_table s i = 0")
    case True
    show ?thesis
    proof (cases "0 \<in> addrs P")
      case True
      then obtain n where "(0, n) \<in> set P" by auto
      with holds_nonzero [OF pendD(1) [OF p] pendD(3) [OF p]] show ?thesis by force
    next
      case False
      with eq True show ?thesis by (simp add: shape_def)
    qed
  next
    case False
    then have "fd_table s i \<in> addrs (fd_blocks F s i)" by (simp add: fd_blocks_def file_blocks_def)
    from out [OF this] show ?thesis by (simp add: shape_def)
  qed
  then show "fd_blocks F s' i = fd_blocks F s i" using t out by (intro fd_blocks_cong) simp_all
qed (use pendD(1) [OF p] kh in simp_all)

text \<open>A descriptor takes over the blocks of an open file, and gives them back.\<close>

lemma fd_blocks_table:
  "fd_blocks F (s\<lparr>fd_table := (fd_table s)(i := a)\<rparr>) j =
    (if j = i then (if a = 0 then [] else file_blocks F s a) else fd_blocks F s j)"
  by (auto simp: fd_blocks_def file_blocks_def intro: driver_blocks_cong)

lemma fd_blocks_count [simp]: "fd_blocks F (s\<lparr>fd_count := c\<rparr>) i = fd_blocks F s i"
  by (rule fd_blocks_cong) (simp_all add: shape_def)

lemma pend_install:
  assumes p: "pend F s bs (file_blocks F s a)" and a: "a \<noteq> 0"
  shows "pend F (s\<lparr>fd_table := (fd_table s)(i := a), fd_count := c\<rparr>) bs []"
proof -
  note D = pendD [OF p]
  have cross: "addrs (file_blocks F s a) \<inter> addrs (fd_blocks F s j) = {}" if "j < 256" for j
    using D(6) that by blast
  show ?thesis
  proof (rule pendI, goal_cases)
    case (5 j b)
    then show ?case using D(3) [of b] D(5) [of j b] a by (auto simp: fd_blocks_table split: if_splits)
  next
    case (7 j k)
    then show ?case using cross [of j] cross [of k] D(7) [of j k] a
      by (simp add: fd_blocks_table Int_commute)
  qed (use D a in \<open>auto simp: fd_blocks_table\<close>)
qed

lemma pend_remove:
  assumes p: "pend F s bs []" and i: "i < 256" and a: "fd_table s i = a" "a \<noteq> 0"
  shows "pend F (s\<lparr>fd_table := (fd_table s)(i := 0), fd_count := c\<rparr>) bs (file_blocks F s a)"
proof -
  note D = pendD [OF p]
  have f: "fd_blocks F s i = file_blocks F s a" using a by (simp add: fd_blocks_def)
  show ?thesis
  proof (rule pendI, goal_cases)
    case (6 j)
    then show ?case using D(7) [OF i 6] f by (auto simp: fd_blocks_table)
  next
    case (7 j k)
    then show ?case using D(7) [of j k] by (simp add: fd_blocks_table)
  qed (use D(1) D(4) [OF i] D(5) [OF i] D(4) D(5) f in \<open>auto simp: fd_blocks_table split: if_splits\<close>)
qed

subsection \<open>Copying a string into the heap\<close>

lemma copy_up_frame: "n < 2 ^ 32 \<Longrightarrow> n \<le> unat (x - d) \<Longrightarrow> copy_up m d s n x = m x"
proof (induction n arbitrary: m d s)
  case (Suc n)
  then have "x \<noteq> d" by auto
  with Suc.prems have "n \<le> unat (x - (d + 1))" using unat_diff_Suc [of x d] by simp
  with Suc \<open>x \<noteq> d\<close> show ?case by simp
qed simp

text \<open>A write of at most the block's length at its start is a data write.\<close>

lemma pend_data_write:
  assumes p: "pend F (s\<lparr>kh := k\<rparr>) bs P" and blk: "(unat r, l) \<in> rgn k bs" and lim: "unat r + l < 2 ^ 32"
    and fr: "\<And>x. l \<le> unat (x - r) \<Longrightarrow> m' x = hmem k x"
  shows "pend F (s\<lparr>kh := k\<lparr>hmem := m'\<rparr>\<rparr>) bs P"
proof (rule pend_shape [OF p])
  have "heap_wf (k\<lparr>hmem := m'\<rparr>) bs"
  proof (rule heap_wf_data_write [OF _ blk])
    show "heap_wf k bs" using pendD(1) [OF p] by simp
    show "m' x = hmem k x" if "unat x < unat r \<or> unat r + l \<le> unat x" for x
      using that lim by (intro fr unat_diff_ge) auto
  qed
  then show "heap_wf (kh (s\<lparr>kh := k\<lparr>hmem := m'\<rparr>\<rparr>)) bs" by simp
qed simp_all

lemma pend_alloc_fail:
  assumes "pend F s bs P" and "kmalloc (kh s) n = Some (0, k)"
  shows "k = kh s"
  using kmalloc_fail [OF pendD(1) [OF assms(1)] assms(2)] .

lemma pend_smaller:
  assumes p: "pend F s bs ((a, n) # P)" and m: "m \<le> n"
  shows "pend F s bs ((a, m) # P)"
proof -
  have "holds (kh s) bs (a, m)" using pendD(3) [OF p, of "(a, n)"] m unfolding holds_def
    by (metis fst_conv le_trans list.set_intros(1) snd_conv)
  with p show ?thesis by (simp add: pend_def)
qed

lemma pend_strdup:
  assumes p: "pend F s bs P" and c: "cstr (vmem s) a t" "length t + 5 < 2 ^ 32"
    and run: "strdup (kh s) a = Some (name, k)"
  shows "heap_base k = heap_base (kh s) \<and> (\<exists>bs'. pend F (s\<lparr>kh := k\<rparr>) bs' ((if name = 0 then [] else [(name, 1)]) @ P)
    \<and> rgn (kh s) bs = without (if name = 0 then {} else {name}) (rgn k bs'))"
proof -
  define n :: u32 where "n = word_of_nat (length t) + 1"
  have un: "unat n = length t + 1" unfolding n_def using c(2) unat_of_nat32 [of "length t + 1"] by (simp add: add.commute)
  from run obtain new k1 where al: "kmalloc (kh s) n = Some (new, k1)"
    and res: "(name, k) = (if new = 0 then (0, k1) else (new, k1\<lparr>hmem := copy_up (hmem k1) new a (unat n)\<rparr>))"
    by (auto simp: strdup_def strlen_cstr [OF c(1)] n_def memcpy_def Let_def split: if_splits)
  show ?thesis
  proof (cases "new = 0")
    case True
    with pend_alloc_fail [OF p, of n k1] al res have "k = kh s" and "name = 0" by auto
    with p show ?thesis by (intro conjI exI [of _ bs]) simp_all
  next
    case False
    have n: "0 < unat n" "unat n + 3 < 2 ^ 32" using un c(2) by simp_all
    from pend_alloc [OF p n al False] obtain bs' l where
      p1: "pend F (s\<lparr>kh := k1\<rparr>) bs' ((new, unat n) # P)" and l: "unat n \<le> l" "unat new + l < 2 ^ 32"
      and blk: "(unat new, l) \<in> rgn k1 bs'" and R: "rgn (kh s) bs = without {new} (rgn k1 bs')" by blast
    have "pend F (s\<lparr>kh := k1\<lparr>hmem := copy_up (hmem k1) new a (unat n)\<rparr>\<rparr>) bs' ((new, unat n) # P)"
      by (rule pend_data_write [OF p1 blk l(2)]) (use l(1) in \<open>auto intro!: copy_up_frame\<close>)
    then have "pend F (s\<lparr>kh := k\<rparr>) bs' ((name, unat n) # P)" using res False by simp
    then have "pend F (s\<lparr>kh := k\<rparr>) bs' ((name, 1) # P)"
      by (rule pend_smaller) (use un in simp)
    moreover have "heap_base k = heap_base (kh s)" using kmalloc_base [OF al] res False by simp
    moreover have "name = new" and "rgn k bs' = rgn k1 bs'" using res False by simp_all
    ultimately show ?thesis using R False by (intro conjI exI [of _ bs']) simp_all
  qed
qed

subsection \<open>Allocating a descriptor\<close>

lemma alloc_scan_Some:
  "alloc_scan t i n = Some k \<Longrightarrow> i \<le> k \<and> k < i + n \<and> t k = 0 \<and> (\<forall>j. i \<le> j \<and> j < k \<longrightarrow> t j \<noteq> 0)"
proof (induction n arbitrary: i)
  case (Suc n)
  show ?case
  proof (cases "t i = 0")
    case False
    have "Suc i \<le> k \<and> k < Suc i + n \<and> t k = 0 \<and> (\<forall>j. Suc i \<le> j \<and> j < k \<longrightarrow> t j \<noteq> 0)"
      using Suc.IH [of "Suc i"] Suc.prems False by simp
    with False show ?thesis by (metis Suc_le_eq add_Suc add_Suc_right le_neq_implies_less less_imp_le)
  qed (use Suc.prems in auto)
qed simp

lemma alloc_scan_None: "alloc_scan t i n = None \<Longrightarrow> i \<le> k \<Longrightarrow> k < i + n \<Longrightarrow> t k \<noteq> 0"
proof (induction n arbitrary: i)
  case (Suc n)
  show ?case
  proof (cases "k = i")
    case False
    with Suc.prems show ?thesis by (intro Suc.IH [of "Suc i"]) (auto split: if_splits)
  qed (use Suc.prems in \<open>auto split: if_splits\<close>)
qed simp

lemma sint_fd: "i < 256 \<Longrightarrow> sint (word_of_nat i :: u32) = int i \<and> unat (word_of_nat i :: u32) = i"
  using sint_small [of "word_of_nat i"] unat_of_nat32 [of i] by simp

lemma sint_minus1 [simp]: "sint minus1 = - 1"
  by (simp add: sint_cases)

lemma allocate_fd_cases:
  "(\<exists>i. alloc_scan (fd_table s) 3 253 = Some i \<and> 3 \<le> i \<and> i < 256 \<and> fd_table s i = 0
      \<and> allocate_fd s file = (word_of_nat i, s\<lparr>fd_table := (fd_table s)(i := file), fd_count := fd_count s + 1\<rparr>))
   \<or> alloc_scan (fd_table s) 3 253 = None \<and> allocate_fd s file = (minus1, s)"
proof (cases "alloc_scan (fd_table s) 3 253")
  case (Some i)
  with alloc_scan_Some [OF Some] show ?thesis by (simp add: allocate_fd_def)
qed (simp add: allocate_fd_def)

text \<open>The two blocks vfs_open holds, released on the failing paths.\<close>

abbreviation fresh_blocks :: "('f, 'd) vfs \<Rightarrow> addr \<Rightarrow> (addr \<times> nat) list" where
  "fresh_blocks s file \<equiv> name_blocks (files s file) @ [(file, 44)]"

lemma kfree_0 [simp]: "kfree k 0 = k"
  by (simp add: kfree_def)

lemma pend_drop_file:
  assumes p: "pend F s bs (fresh_blocks s file @ P)"
  shows "\<exists>bs'. pend F (drop_file s file) bs' P
    \<and> rgn (kh (drop_file s file)) bs' = without (addrs (fresh_blocks s file)) (rgn (kh s) bs)"
proof (cases "fname (files s file) = 0")
  case True
  then show ?thesis using pend_free [of F s bs "file" 44 P] p by (auto simp: drop_file_def name_blocks_def)
next
  case False
  define s1 where "s1 = s\<lparr>kh := kfree (kh s) (fname (files s file))\<rparr>"
  from pend_free [of F s bs "fname (files s file)" 1 "(file, 44) # P"] p False obtain bs1 where
    1: "pend F s1 bs1 ((file, 44) # P)" "rgn (kh s1) bs1 = without {fname (files s file)} (rgn (kh s) bs)"
    by (auto simp: name_blocks_def s1_def)
  from pend_free [OF 1(1)] 1(2) False show ?thesis
    by (auto simp: drop_file_def name_blocks_def s1_def insert_commute)
qed

lemma hand_over:
  assumes p: "pend F s bs (driver_blocks F s (files s file) @ fresh_blocks s file)"
    and i: "alloc_scan (fd_table s) 3 253 = Some i"
    and s': "s' = s\<lparr>fd_table := (fd_table s)(i := file), fd_count := fd_count s + 1\<rparr>"
  shows "pend F s' bs []" and "fd_blocks F s' i = driver_blocks F s (files s file) @ fresh_blocks s file"
    and "file \<noteq> 0"
proof -
  have fb: "pend F s bs (file_blocks F s file)" using p by (simp add: file_blocks_def)
  have "holds (kh s) bs (file, 44)" using pendD(3) [OF p] by simp
  from holds_nonzero [OF pendD(1) [OF p] this] show nz: "file \<noteq> 0" by simp
  show "pend F s' bs []" unfolding s' by (rule pend_install [OF fb nz])
  show "fd_blocks F s' i = driver_blocks F s (files s file) @ fresh_blocks s file"
    unfolding s' by (simp add: fd_blocks_table nz file_blocks_def)
qed

subsection \<open>The contract of the open handlers\<close>

locale driver_table =
  fixes F :: "('f, 'd) fatfs" and table :: "(string \<times> ('f, 'd) opener) list"
  assumes opener_frame: "(p, d) \<in> set table \<Longrightarrow> d s file = Some (r, s') \<Longrightarrow>
      fd_table s' = fd_table s \<and> fd_count s' = fd_count s \<and> fname (files s' file) = fname (files s file)
      \<and> heap_base (kh s') = heap_base (kh s)"
    and opener_ok: "(p, d) \<in> set table \<Longrightarrow> pend F s bs P \<Longrightarrow> file \<in> addrs P \<Longrightarrow> d s file = Some (0, s') \<Longrightarrow>
      \<exists>bs'. pend F s' bs' (driver_blocks F s' (files s' file) @ P)
        \<and> rgn (kh s) bs = without (addrs (driver_blocks F s' (files s' file))) (rgn (kh s') bs')"
    and opener_refused: "(p, d) \<in> set table \<Longrightarrow> pend F s bs P \<Longrightarrow> file \<in> addrs P \<Longrightarrow> d s file = Some (r, s') \<Longrightarrow> r \<noteq> 0 \<Longrightarrow>
      \<exists>bs'. pend F s' bs' P \<and> rgn (kh s') bs' = rgn (kh s) bs"
begin

lemma try_drivers_opened:
  assumes "set ds \<subseteq> set table" and "pend F s bs (fresh_blocks s file)"
    and "try_drivers s file path ds = Some (fd, s')" and "0 \<le> sint fd"
  shows "\<exists>i bs'. alloc_scan (fd_table s) 3 253 = Some i \<and> fd = word_of_nat i
    \<and> fd_table s' = (fd_table s)(i := file) \<and> fd_count s' = fd_count s + 1 \<and> pend F s' bs' []
    \<and> heap_base (kh s') = heap_base (kh s)
    \<and> without (addrs (fresh_blocks s file)) (rgn (kh s) bs) = without (addrs (fd_blocks F s' i)) (rgn (kh s') bs')"
  using assms
proof (induction ds arbitrary: s bs)
  case Nil
  then show ?case by auto
next
  case (Cons e ds)
  obtain p d where e: "e = (p, d)" by (cases e)
  note mem = Cons.prems(1)
  show ?case
  proof (cases "cstr (vmem s) path (bytes_of p)")
    case False
    with Cons show ?thesis by (simp add: e)
  next
    case True
    with Cons.prems(3) obtain r s1 where d: "d s file = Some (r, s1)" by (auto simp: e split: option.splits)
    have pd: "(p, d) \<in> set table" using mem by (simp add: e)
    note fr = opener_frame [OF pd d]
    have op: "fresh_blocks s1 file = fresh_blocks s file" using fr by (simp add: name_blocks_def)
    show ?thesis
    proof (cases "r = 0")
      case False
      from opener_refused [OF pd Cons.prems(2) _ d False] obtain bs1 where
        "pend F s1 bs1 (fresh_blocks s1 file)" "rgn (kh s1) bs1 = rgn (kh s) bs" unfolding op by auto
      moreover have "try_drivers s1 file path ds = Some (fd, s')" using Cons.prems(3) True d False by (simp add: e)
      ultimately show ?thesis using Cons.IH [of s1 bs1] Cons.prems(1,4) fr op by simp
    next
      case r0: True
      from opener_ok [OF pd Cons.prems(2) _ d [unfolded r0]] obtain bs1 where
        p1: "pend F s1 bs1 (driver_blocks F s1 (files s1 file) @ fresh_blocks s1 file)"
        and R1: "rgn (kh s) bs = without (addrs (driver_blocks F s1 (files s1 file))) (rgn (kh s1) bs1)"
        unfolding op by auto
      from allocate_fd_cases [of s1 "file"] show ?thesis
      proof (elim disjE exE conjE)
        fix i assume i: "alloc_scan (fd_table s1) 3 253 = Some i" "i < 256"
          and al: "allocate_fd s1 file = (word_of_nat i, s1\<lparr>fd_table := (fd_table s1)(i := file), fd_count := fd_count s1 + 1\<rparr>)"
        then have res: "fd = word_of_nat i" "s' = s1\<lparr>fd_table := (fd_table s1)(i := file), fd_count := fd_count s1 + 1\<rparr>"
          using Cons.prems(3) True d r0 sint_fd [OF i(2)] by (simp_all add: e)
        from hand_over [OF p1 [folded op] i(1) res(2)] show ?thesis using R1 fr op i(1) res
          by (intro exI [of _ i] exI [of _ bs1]) (simp add: image_Un Un_commute)
      next
        assume no: "alloc_scan (fd_table s1) 3 253 = None" and al: "allocate_fd s1 file = (minus1, s1)"
        then have "try_drivers s1 file path ds = Some (fd, s')" using Cons.prems(3) True d r0 by (simp add: e)
        with Cons.IH [OF _ pend_forget [OF p1] this Cons.prems(4)] Cons.prems(1) no show ?thesis by simp
      qed
    qed
  qed
qed

lemma try_drivers_failed:
  assumes "set ds \<subseteq> set table" and "pend F s bs (fresh_blocks s file)"
    and "try_drivers s file path ds = Some (fd, s')" and "sint fd < 0"
  shows "fd = minus1 \<and> fd_table s' = fd_table s \<and> fd_count s' = fd_count s
    \<and> (\<exists>bs'. pend F s' bs' []
      \<and> (alloc_scan (fd_table s) 3 253 \<noteq> None \<longrightarrow> rgn (kh s') bs' = without (addrs (fresh_blocks s file)) (rgn (kh s) bs)))"
  using assms
proof (induction ds arbitrary: s bs)
  case Nil
  then show ?case using pend_drop_file [of F s bs "file" "[]"] by (auto simp: drop_file_def)
next
  case (Cons e ds)
  obtain p d where e: "e = (p, d)" by (cases e)
  show ?case
  proof (cases "cstr (vmem s) path (bytes_of p)")
    case False
    with Cons show ?thesis by (simp add: e)
  next
    case True
    with Cons.prems(3) obtain r s1 where d: "d s file = Some (r, s1)" by (auto simp: e split: option.splits)
    have pd: "(p, d) \<in> set table" using Cons.prems(1) by (simp add: e)
    note fr = opener_frame [OF pd d]
    have op: "fresh_blocks s1 file = fresh_blocks s file" using fr by (simp add: name_blocks_def)
    show ?thesis
    proof (cases "r = 0")
      case False
      from opener_refused [OF pd Cons.prems(2) _ d False] obtain bs1 where
        "pend F s1 bs1 (fresh_blocks s1 file)" "rgn (kh s1) bs1 = rgn (kh s) bs" unfolding op by auto
      moreover have "try_drivers s1 file path ds = Some (fd, s')" using Cons.prems(3) True d False by (simp add: e)
      ultimately show ?thesis using Cons.IH [of s1 bs1] Cons.prems(1,4) fr op by simp
    next
      case r0: True
      from opener_ok [OF pd Cons.prems(2) _ d [unfolded r0]] obtain bs1 where
        p1: "pend F s1 bs1 (driver_blocks F s1 (files s1 file) @ fresh_blocks s1 file)" unfolding op by auto
      from allocate_fd_cases [of s1 "file"] show ?thesis
      proof (elim disjE exE conjE)
        fix i assume "alloc_scan (fd_table s1) 3 253 = Some i" "i < 256"
          and "allocate_fd s1 file = (word_of_nat i, s1\<lparr>fd_table := (fd_table s1)(i := file), fd_count := fd_count s1 + 1\<rparr>)"
        then show ?thesis using Cons.prems(3,4) True d r0 sint_fd [of i] by (simp add: e)
      next
        assume no: "alloc_scan (fd_table s1) 3 253 = None" and "allocate_fd s1 file = (minus1, s1)"
        then have "try_drivers s1 file path ds = Some (fd, s')" using Cons.prems(3) True d r0 by (simp add: e)
        with Cons.IH [OF _ pend_forget [OF p1] this Cons.prems(4)] Cons.prems(1) no fr show ?thesis by simp
      qed
    qed
  qed
qed

end

end
