(* ===== verification/VfsOpen.thy ===== *)
theory VfsOpen
  imports VfsInv
begin

text \<open>
  The open handlers meet the contract of \<open>driver_table\<close>, and what follows for vfs_open, vfs_close and
  the descriptor table: the ownership invariant, the round trip of opening and closing, the leaks of
  the failing paths.
\<close>

subsection \<open>The handlers without private data\<close>

lemma files_upd_file [simp]: "files (upd_file s a g) x = (if x = a then g (files s a) else files s x)"
  by (simp add: upd_file_def)

lemma upd_file_simps [simp]:
  "kh (upd_file s a g) = kh s" "fd_table (upd_file s a g) = fd_table s" "fd_count (upd_file s a g) = fd_count s"
  "procs (upd_file s a g) = procs s" "fats (upd_file s a g) = fats s" "fils (upd_file s a g) = fils s"
  "disk (upd_file s a g) = disk s" "tty_in (upd_file s a g) = tty_in s" "tty_out (upd_file s a g) = tty_out s"
  by (simp_all add: upd_file_def)

lemma set_handlers_simps [simp]:
  "fname (set_handlers pd r w c io sk f) = fname f" "private_data (set_handlers pd r w c io sk f) = pd"
  "f_close (set_handlers pd r w c io sk f) = c" "f_read (set_handlers pd r w c io sk f) = r"
  "f_write (set_handlers pd r w c io sk f) = w" "f_lseek (set_handlers pd r w c io sk f) = sk"
  "f_ioctl (set_handlers pd r w c io sk f) = io" "position (set_handlers pd r w c io sk f) = 0"
  by (simp_all add: set_handlers_def)

lemma simple_opener:
  assumes "pend F s bs P" and "file \<in> addrs P" and "kh s' = kh s" "fd_table s' = fd_table s"
    and "\<And>a. a \<noteq> file \<Longrightarrow> files s' a = files s a" and "procs s' = procs s" "fats s' = fats s"
    and "f_close (files s' file) \<noteq> Some Proc" "f_close (files s' file) \<noteq> Some Fat"
  shows "\<exists>bs'. pend F s' bs' (driver_blocks F s' (files s' file) @ P)
    \<and> rgn (kh s) bs = without (addrs (driver_blocks F s' (files s' file))) (rgn (kh s') bs')"
proof -
  have "driver_blocks F s' (files s' file) = []"
    using assms(8,9) by (auto simp: driver_blocks_def split: option.splits driver.splits)
  moreover have "pend F s' bs P" using assms(2,5-7) by (intro pend_store [OF assms(1,3,4)]) auto
  ultimately show ?thesis using assms(3) by (intro exI [of _ bs]) simp
qed

subsection \<open>The handlers of /proc\<close>

lemma pend_dup_text:
  assumes p: "pend F s bs P" and t: "length t + 5 < 2 ^ 32" and run: "dup_text (kh s) t = Some (a, k)"
  shows "heap_base k = heap_base (kh s)
    \<and> (\<exists>bs'. pend F (s\<lparr>kh := k\<rparr>) bs' ((if a = 0 then [] else [(a, length t)]) @ P)
      \<and> rgn (kh s) bs = without (if a = 0 then {} else {a}) (rgn k bs'))"
proof -
  define n :: u32 where "n = word_of_nat (length t) + 1"
  have un: "unat n = length t + 1" unfolding n_def using t unat_of_nat32 [of "length t + 1"] by (simp add: add.commute)
  from run obtain new k1 where al: "kmalloc (kh s) n = Some (new, k1)"
    and res: "(a, k) = (if new = 0 then (0, k1) else (new, k1\<lparr>hmem := wr_bytes (hmem k1) new (t @ [0])\<rparr>))"
    by (auto simp: dup_text_def n_def split: if_splits)
  show ?thesis
  proof (cases "new = 0")
    case True
    with pend_alloc_fail [OF p, of n k1] al res have "k = kh s" and "a = 0" by auto
    with p show ?thesis by (intro conjI exI [of _ bs]) simp_all
  next
    case False
    have n: "0 < unat n" "unat n + 3 < 2 ^ 32" using un t by simp_all
    from pend_alloc [OF p n al False] obtain bs' l where
      p1: "pend F (s\<lparr>kh := k1\<rparr>) bs' ((new, unat n) # P)" and l: "unat n \<le> l" "unat new + l < 2 ^ 32"
      and blk: "(unat new, l) \<in> rgn k1 bs'" and R: "rgn (kh s) bs = without {new} (rgn k1 bs')" by blast
    have "pend F (s\<lparr>kh := k1\<lparr>hmem := wr_bytes (hmem k1) new (t @ [0])\<rparr>\<rparr>) bs' ((new, unat n) # P)"
      by (rule pend_data_write [OF p1 blk l(2)]) (use l(1) un in \<open>auto intro!: wr_bytes_other\<close>)
    then have "pend F (s\<lparr>kh := k\<rparr>) bs' ((a, unat n) # P)" using res False by simp
    then have "pend F (s\<lparr>kh := k\<rparr>) bs' ((a, length t) # P)"
      by (rule pend_smaller) (use un in simp)
    moreover have "heap_base k = heap_base (kh s)" using kmalloc_base [OF al] res False by simp
    moreover have "a = new" and "rgn k bs' = rgn k1 bs'" using res False by simp_all
    ultimately show ?thesis using R False by (intro conjI exI [of _ bs']) simp_all
  qed
qed

text \<open>The text of a /proc file comes from the state without changing the heap or the objects.\<close>

definition text_source :: "(('f, 'd) vfs \<Rightarrow> u8 list \<times> ('f, 'd) vfs) \<Rightarrow> bool" where
  "text_source g \<longleftrightarrow> (\<forall>s. length (fst (g s)) + 5 < 2 ^ 32 \<and> (\<exists>u. snd (g s) = s\<lparr>uptime := u\<rparr>))"

lemma proc_openE:
  assumes "proc_open s file g = Some (r, s')" and "text_source g"
  obtains k where "kmalloc (kh s) 12 = Some (0, k)" "r = minus1" "s' = s\<lparr>kh := k\<rparr>"
  | data k u p k2 where "kmalloc (kh s) 12 = Some (data, k)" "data \<noteq> 0" "r = 0"
    "snd (g (s\<lparr>kh := k\<rparr>)) = s\<lparr>kh := k, uptime := u\<rparr>"
    "length (fst (g (s\<lparr>kh := k\<rparr>))) + 5 < 2 ^ 32"
    "dup_text k (fst (g (s\<lparr>kh := k\<rparr>))) = Some (p, k2)"
    "s' = upd_file (s\<lparr>uptime := u, kh := k2, procs := (procs s)(data :=
        \<lparr>pd_data = p, pd_size = word_of_nat (length (fst (g (s\<lparr>kh := k\<rparr>)))), pd_position = 0\<rparr>)\<rparr>) file
        (set_handlers data (Some Proc) None (Some Proc) None (Some Proc))"
proof -
  from assms(1) obtain data k where al: "kmalloc (kh s) 12 = Some (data, k)"
    by (auto simp: proc_open_def split: option.splits)
  show ?thesis
  proof (cases "data = 0")
    case True
    with assms(1) al that(1) show ?thesis by (auto simp: proc_open_def)
  next
    case False
    obtain t s1 where g: "g (s\<lparr>kh := k\<rparr>) = (t, s1)" by (cases "g (s\<lparr>kh := k\<rparr>)")
    with assms(2) obtain u where s1: "s1 = s\<lparr>kh := k, uptime := u\<rparr>" and len: "length t + 5 < 2 ^ 32"
      unfolding text_source_def by (metis fst_conv snd_conv)
    from assms(1) al False g s1 obtain p k2 where "dup_text k t = Some (p, k2)"
      by (auto simp: proc_open_def split: option.splits)
    with assms(1) al False g s1 len that(2) [of data k u p k2] show ?thesis
      by (simp add: proc_open_def Let_def)
  qed
qed

lemma proc_open_frame:
  assumes "proc_open s file g = Some (r, s')" and "text_source g"
  shows "fd_table s' = fd_table s \<and> fd_count s' = fd_count s \<and> fname (files s' file) = fname (files s file)
      \<and> heap_base (kh s') = heap_base (kh s)"
  using assms
proof (cases rule: proc_openE)
  case (2 data k u p k2)
  have "heap_base k2 = heap_base k"
    using 2(6) by (auto simp: dup_text_def split: if_splits dest: kmalloc_base)
  with 2 kmalloc_base [OF 2(1)] show ?thesis by simp
qed (auto dest: kmalloc_base)

lemma proc_open_ok:
  assumes p: "pend F s bs P" and f: "file \<in> addrs P" and g: "text_source g"
    and run: "proc_open s file g = Some (0, s')"
  shows "\<exists>bs'. pend F s' bs' (driver_blocks F s' (files s' file) @ P)
    \<and> rgn (kh s) bs = without (addrs (driver_blocks F s' (files s' file))) (rgn (kh s') bs')"
  using run g
proof (cases rule: proc_openE)
  case (2 data k u a k2)
  define t where "t = fst (g (s\<lparr>kh := k\<rparr>))"
  from pend_alloc [OF p _ _ 2(1,2)] obtain bs1 where
    p1: "pend F (s\<lparr>kh := k\<rparr>) bs1 ((data, 12) # P)" and R1: "rgn (kh s) bs = without {data} (rgn k bs1)" by auto
  from pend_dup_text [OF p1, of t a k2] 2(5,6) obtain bs2 where base: "heap_base k2 = heap_base k" and
    p2: "pend F (s\<lparr>kh := k2\<rparr>) bs2 ((if a = 0 then [] else [(a, length t)]) @ (data, 12) # P)"
    and R2: "rgn k bs1 = without (if a = 0 then {} else {a}) (rgn k2 bs2)" by (auto simp: t_def)
  have len: "unat (word_of_nat (length t) :: u32) = length t" using 2(5) by (intro unat_of_nat32) (simp add: t_def)
  have db: "driver_blocks F s' (files s' file) = (if a = 0 then [] else [(a, length t)]) @ [(data, 12)]"
    unfolding 2(7) t_def [symmetric] by (simp add: driver_blocks_def len)
  have "pend F s' bs2 ((if a = 0 then [] else [(a, length t)]) @ (data, 12) # P)"
    by (rule pend_store [OF p2]) (use f in \<open>auto simp: 2(7)\<close>)
  moreover have "kh s' = k2" unfolding 2(7) by simp
  ultimately show ?thesis using R1 R2 db by (intro exI [of _ bs2]) (auto simp: insert_commute)
qed simp

lemma proc_open_refused:
  assumes "pend F s bs P" and "text_source g" and "proc_open s file g = Some (r, s')" and "r \<noteq> 0"
  shows "\<exists>bs'. pend F s' bs' P \<and> rgn (kh s') bs' = rgn (kh s) bs"
  using assms(3,2)
proof (cases rule: proc_openE)
  case (1 k)
  with pend_alloc_fail [OF assms(1) 1(1)] assms(1) show ?thesis by (intro exI [of _ bs]) simp
qed (use assms(4) in simp)

subsection \<open>The FAT handler\<close>

definition fil_size_ok :: "('f, 'd) fatfs \<Rightarrow> bool" where
  "fil_size_ok F \<longleftrightarrow> 0 < unat (ff_fil_size F) \<and> unat (ff_fil_size F) + 3 < 2 ^ 32"

lemma fat_openE:
  assumes "fat_open F s file path flags = Some (r, s')"
  obtains k where "kmalloc (kh s) (ff_fil_size F) = Some (0, k)" "r = minus1" "s' = s\<lparr>kh := k\<rparr>"
  | a k d where "kmalloc (kh s) (ff_fil_size F) = Some (a, k)" "a \<noteq> 0"
      "ff_open F (hmem k) path (fat_mode flags) (disk s) = (None, d)" "r = minus1"
      "s' = s\<lparr>kh := kfree k a, disk := d\<rparr>"
  | a k fil d k2 where "kmalloc (kh s) (ff_fil_size F) = Some (a, k)" "a \<noteq> 0"
      "ff_open F (hmem k) path (fat_mode flags) (disk s) = (Some fil, d)" "kmalloc k 10 = Some (0, k2)" "r = minus1"
      "s' = s\<lparr>kh := kfree k2 a, fils := (fils s)(a := fil), disk := snd (ff_close F fil d)\<rparr>"
  | a k fil d b k2 where "kmalloc (kh s) (ff_fil_size F) = Some (a, k)" "a \<noteq> 0"
      "ff_open F (hmem k) path (fat_mode flags) (disk s) = (Some fil, d)" "kmalloc k 10 = Some (b, k2)" "b \<noteq> 0" "r = 0"
      "s' = upd_file (s\<lparr>fils := (fils s)(a := fil), disk := d, kh := k2, fats := (fats s)(b :=
          \<lparr>fp_file = a, fp_mode = fat_mode flags, fp_size = ff_size F fil\<rparr>)\<rparr>) file
        (\<lambda>f. f\<lparr>private_data := b, position := 0, f_read := Some Fat, f_write := Some Fat,
           f_close := Some Fat, f_lseek := Some Fat\<rparr>)"
proof -
  from assms obtain a k where al: "kmalloc (kh s) (ff_fil_size F) = Some (a, k)"
    by (auto simp: fat_open_def split: option.splits)
  show ?thesis
  proof (cases "a = 0")
    case True
    with assms al that(1) show ?thesis by (auto simp: fat_open_def)
  next
    case a: False
    obtain r1 d where op: "ff_open F (hmem k) path (fat_mode flags) (disk s) = (r1, d)" by fastforce
    show ?thesis
    proof (cases r1)
      case None
      with assms al a op that(2) show ?thesis by (simp add: fat_open_def)
    next
      case (Some fil)
      with assms al a op obtain b k2 where al2: "kmalloc k 10 = Some (b, k2)"
        by (auto simp: fat_open_def Let_def split: option.splits)
      note op' = op [unfolded Some]
      show ?thesis
      proof (cases "b = 0")
        case True
        with assms al a op' al2 have "r = minus1"
          "s' = s\<lparr>kh := kfree k2 a, fils := (fils s)(a := fil), disk := snd (ff_close F fil d)\<rparr>"
          by (auto simp add: fat_open_def Let_def)
        then show ?thesis using that(3) [OF al a op' al2 [unfolded True]] by blast
      next
        case False
        with assms al a op' al2 have "r = 0" "s' = upd_file (s\<lparr>fils := (fils s)(a := fil), disk := d, kh := k2, fats := (fats s)(b :=
          \<lparr>fp_file = a, fp_mode = fat_mode flags, fp_size = ff_size F fil\<rparr>)\<rparr>) file
        (\<lambda>f. f\<lparr>private_data := b, position := 0, f_read := Some Fat, f_write := Some Fat,
           f_close := Some Fat, f_lseek := Some Fat\<rparr>)"
          by (auto simp add: fat_open_def Let_def)
        then show ?thesis using that(4) [OF al a op' al2 False] by blast
      qed
    qed
  qed
qed

lemma fat_open_frame:
  assumes "fat_open F s file path flags = Some (r, s')"
  shows "fd_table s' = fd_table s \<and> fd_count s' = fd_count s \<and> fname (files s' file) = fname (files s file)
      \<and> heap_base (kh s') = heap_base (kh s)"
  using assms by (cases rule: fat_openE) (auto dest!: kmalloc_base)

lemma fat_open_ok:
  assumes p: "pend F s bs P" and f: "file \<in> addrs P" and F: "fil_size_ok F"
    and run: "fat_open F s file path flags = Some (0, s')"
  shows "\<exists>bs'. pend F s' bs' (driver_blocks F s' (files s' file) @ P)
    \<and> rgn (kh s) bs = without (addrs (driver_blocks F s' (files s' file))) (rgn (kh s') bs')"
  using run
proof (cases rule: fat_openE)
  case (4 a k fil d b k2)
  from pend_alloc [OF p _ _ 4(1,2)] F obtain bs1 where
    p1: "pend F (s\<lparr>kh := k\<rparr>) bs1 ((a, unat (ff_fil_size F)) # P)" and R1: "rgn (kh s) bs = without {a} (rgn k bs1)"
    by (auto simp: fil_size_ok_def)
  from pend_alloc [OF p1 _ _ _ 4(5), of 10 k2] 4(4) obtain bs2 where
    p2: "pend F (s\<lparr>kh := k2\<rparr>) bs2 ((b, 10) # (a, unat (ff_fil_size F)) # P)"
    and R2: "rgn k bs1 = without {b} (rgn k2 bs2)" by auto
  have db: "driver_blocks F s' (files s' file) = [(a, unat (ff_fil_size F)), (b, 10)]"
    unfolding 4(7) by (simp add: driver_blocks_def)
  have "pend F s' bs2 ((b, 10) # (a, unat (ff_fil_size F)) # P)"
    by (rule pend_store [OF p2]) (use f in \<open>auto simp: 4(7)\<close>)
  then have "pend F s' bs2 (driver_blocks F s' (files s' file) @ P)"
    by (rule pend_perm) (simp add: db)
  moreover have "kh s' = k2" unfolding 4(7) by simp
  ultimately show ?thesis using R1 R2 db by (intro exI [of _ bs2]) (simp add: insert_commute)
qed simp_all

lemma fat_open_refused:
  assumes p: "pend F s bs P" and F: "fil_size_ok F" and run: "fat_open F s file path flags = Some (r, s')" and r: "r \<noteq> 0"
  shows "\<exists>bs'. pend F s' bs' P \<and> rgn (kh s') bs' = rgn (kh s) bs"
proof -
  have undo: "\<exists>bs'. pend F s' bs' P \<and> rgn (kh s') bs' = rgn (kh s) bs"
    if al: "kmalloc (kh s) (ff_fil_size F) = Some (a, k)" "a \<noteq> 0" and s': "kh s' = kfree k a"
      "fd_table s' = fd_table s" "files s' = files s" "procs s' = procs s" "fats s' = fats s" for a k
  proof -
    from pend_alloc [OF p _ _ al] F obtain bs1 where
      p1: "pend F (s\<lparr>kh := k\<rparr>) bs1 ((a, unat (ff_fil_size F)) # P)" and R1: "rgn (kh s) bs = without {a} (rgn k bs1)"
      by (auto simp: fil_size_ok_def)
    from pend_free [OF p1] obtain bs2 where p2: "pend F (s\<lparr>kh := kfree k a\<rparr>) bs2 P"
      and R2: "rgn (kfree k a) bs2 = without {a} (rgn k bs1)" by auto
    have "pend F s' bs2 P" by (rule pend_store [OF p2]) (use s' in simp_all)
    with R1 R2 s'(1) show ?thesis by (intro exI [of _ bs2]) simp
  qed
  from run show ?thesis
  proof (cases rule: fat_openE)
    case (1 k)
    with pend_alloc_fail [OF p 1(1)] p show ?thesis by (intro exI [of _ bs]) simp
  next
    case (2 a k d)
    then show ?thesis by (intro undo [OF 2(1,2)]) simp_all
  next
    case (3 a k fil d k2)
    from pend_alloc [OF p _ _ 3(1,2)] F obtain bs1 where "heap_wf k bs1"
      by (auto simp: fil_size_ok_def dest: pendD(1))
    from kmalloc_fail [OF this 3(4)] have "k2 = k" .
    with 3 show ?thesis by (intro undo [OF 3(1,2)]) simp_all
  qed (use r in simp)
qed

subsection \<open>The contract holds\<close>

lemma length_bytes_of [simp]: "length (bytes_of t) = length t"
  by (simp add: bytes_of_def)

lemma length_signed_numeral: "length (signed_numeral (sint (v :: u32))) \<le> 33"
proof (cases "sint v < 0")
  case True
  then have "nat (- sint v) = unat (- v)" using sint_minus(1) [OF True] by simp
  with True length_numeral32 [of 10 "- v"] show ?thesis by (simp add: signed_numeral_def)
next
  case False
  have "sint v = uint v" using False uint_less32 [of v] by (simp add: sint_cases split: if_splits)
  then have "nat (sint v) = unat v" by (simp only: unat_eq_nat_uint)
  with False length_numeral32 [of 10 v] show ?thesis by (simp add: signed_numeral_def)
qed

lemma uptime_same: "\<exists>u. s = s\<lparr>uptime := u\<rparr>"
  by (rule exI [of _ "uptime s"]) simp

lemma text_sources:
  "text_source (\<lambda>s. (meminfo_text, s))" "text_source (\<lambda>s. (cpuinfo_text, s))"
  "text_source (\<lambda>s. (uptime_text (uptime s + 10), s\<lparr>uptime := uptime s + 10\<rparr>))"
proof -
  show "text_source (\<lambda>s. (meminfo_text, s))"
    using length_signed_numeral [of get_total_memory] length_signed_numeral [of get_kfree_memory]
      length_signed_numeral [of "get_total_memory - get_kfree_memory"] length_signed_numeral [of "get_kfree_memory div 2"]
    by (simp add: uptime_same text_source_def meminfo_text_def)
  show "text_source (\<lambda>s. (cpuinfo_text, s))"
    using length_signed_numeral [of get_cpu_clock]
    by (simp add: uptime_same text_source_def cpuinfo_text_def get_cpu_name_def)
  have "length (uptime_text u) + 5 < 2 ^ 32" for u
    using length_signed_numeral [of u] by (simp add: uptime_text_def)
  then show "text_source (\<lambda>s. (uptime_text (uptime s + 10), s\<lparr>uptime := uptime s + 10\<rparr>))"
    by (auto simp: text_source_def Let_def)
qed

interpretation dt: driver_table F drivers for F :: "('f, 'd) fatfs"
proof (unfold_locales, goal_cases)
  case (1 p d s a r s')
  then show ?case
    by (auto simp: drivers_def proc_meminfo_open_def proc_cpuinfo_open_def proc_uptime_open_def tty_open_def null_open_def
        zero_open_def serial_open_def duartA_open_def duart_init_canal_a_def dest: proc_open_frame [OF _ text_sources(1)]
        proc_open_frame [OF _ text_sources(2)] proc_open_frame [OF _ text_sources(3)])
next
  case (2 p d s bs P a s')
  then show ?case
    by (auto simp: drivers_def proc_meminfo_open_def proc_cpuinfo_open_def proc_uptime_open_def tty_open_def null_open_def
        zero_open_def serial_open_def duartA_open_def duart_init_canal_a_def
        intro: simple_opener proc_open_ok [OF _ _ text_sources(1)]
        proc_open_ok [OF _ _ text_sources(2)] proc_open_ok [OF _ _ text_sources(3)])
next
  case (3 p d s bs P a r s')
  then show ?case
    by (auto simp: drivers_def proc_meminfo_open_def proc_cpuinfo_open_def proc_uptime_open_def tty_open_def null_open_def
        zero_open_def serial_open_def duartA_open_def
        intro: proc_open_refused [OF _ text_sources(1)]
        proc_open_refused [OF _ text_sources(2)] proc_open_refused [OF _ text_sources(3)])
qed

subsection \<open>Memory the allocator leaves alone\<close>

definition safe_byte :: "kheap \<Rightarrow> block list \<Rightarrow> addr \<Rightarrow> bool" where
  "safe_byte k bs x \<longleftrightarrow> unat x < unat (heap_base k) \<or> unat (heap_base k) + unat (heap_size k) \<le> unat x
     \<or> (\<exists>(a, l) \<in> rgn k bs. a \<le> unat x \<and> unat x < a + l)"

definition safe_str :: "kheap \<Rightarrow> block list \<Rightarrow> addr \<Rightarrow> u8 list \<Rightarrow> bool" where
  "safe_str k bs a t \<longleftrightarrow> cstr (hmem k) a t \<and> length t + 5 < 2 ^ 32
     \<and> (\<forall>i \<le> length t. safe_byte k bs (a + word_of_nat i))"

lemma heap_span_range:
  assumes "heap_wf k bs" and "(q, l, f) \<in> set (spans (unat (heap_base k)) bs)"
  shows "unat (heap_base k) \<le> q" and "q + 4 + l \<le> unat (heap_base k) + unat (heap_size k)"
proof -
  have "unat (heap_base k) + extent bs = unat (heap_base k) + unat (heap_size k)"
    using assms(1) unfolding heap_wf_def by (intro blocks_at_extent [of "hmem k"]) blast
  then show "q + 4 + l \<le> unat (heap_base k) + unat (heap_size k)" using spans_upper [OF assms(2)] by simp
  show "unat (heap_base k) \<le> q" using spans_ge [of q "(l, f)"] assms(2) by simp
qed

lemma kmalloc_keeps_byte:
  assumes wf: "heap_wf k bs" and n: "0 < unat n" "unat n + 3 < 2 ^ 32" and run: "kmalloc k n = Some (r, k')"
    and x: "safe_byte k bs x"
  shows "hmem k' x = hmem k x"
proof (cases "r = 0")
  case True
  with kmalloc_fail [OF wf, of n k'] run have "k' = k" by simp
  then show ?thesis by simp
next
  case False
  from kmalloc_success [OF wf n run False] obtain q l where
    q: "(q, l, True) \<in> set (spans (unat (heap_base k)) bs)"
    and fr: "\<forall>a. unat a < q \<or> q + 4 + l \<le> unat a \<longrightarrow> hmem k' a = hmem k a" by blast
  have "unat x < q \<or> q + 4 + l \<le> unat x"
    using x heap_span_range [OF wf q] live_outside_free [OF q] by (fastforce simp: safe_byte_def)
  with fr show ?thesis by blast
qed

lemma kmalloc_keeps_str:
  assumes wf: "heap_wf k bs" and n: "0 < unat n" "unat n + 3 < 2 ^ 32" and run: "kmalloc k n = Some (r, k')"
    and a: "safe_str k bs a t"
  shows "cstr (hmem k') a t"
proof -
  have "cstr (hmem k') a t = cstr (hmem k) a t"
    using a kmalloc_keeps_byte [OF wf n run] by (intro cstr_cong) (simp add: safe_str_def)
  with a show ?thesis by (simp add: safe_str_def)
qed

subsection \<open>Opening a path\<close>

text \<open>The state in which the handlers run: File and path allocated.\<close>

lemma vfs_openE:
  assumes wf: "vfs_wf F s bs" and t: "safe_str (kh s) bs path t" and run: "vfs_open F s path flags = Some (fd, s')"
  obtains "fd = minus1" "s' = s"
  | a s1 bs1 where "pend F s1 bs1 (fresh_blocks s1 a)"
      "rgn (kh s) bs = without (addrs (fresh_blocks s1 a)) (rgn (kh s1) bs1)"
      "fd_table s1 = fd_table s" "fd_count s1 = fd_count s" "heap_base (kh s1) = heap_base (kh s)"
      "(case fat_open F s1 a path flags of None \<Rightarrow> None
        | Some (r, s2) \<Rightarrow> if r = 0 then
            (case allocate_fd s2 a of
               (fd, s3) \<Rightarrow> if 0 \<le> sint fd then Some (fd, s3) else Some (minus1, drop_file s3 a))
          else try_drivers s2 a path drivers) = Some (fd, s')"
proof -
  from run obtain a k where al: "kmalloc (kh s) 44 = Some (a, k)" by (auto simp: vfs_open_def split: option.splits)
  show ?thesis
  proof (cases "a = 0")
    case True
    with run al pend_alloc_fail [OF wf, of 44 k] that(1) show ?thesis by (auto simp: vfs_open_def)
  next
    case False
    define s0 where "s0 = s\<lparr>kh := k, files := (files s)(a := zero_file)\<rparr>"
    from pend_alloc [OF wf _ _ al False] obtain bs1 where
      p: "pend F (s\<lparr>kh := k\<rparr>) bs1 [(a, 44)]" and R: "rgn (kh s) bs = without {a} (rgn k bs1)" by auto
    have p0: "pend F s0 bs1 [(a, 44)]" by (rule pend_store [OF p]) (auto simp: s0_def)
    have c: "cstr (vmem s0) path t" using kmalloc_keeps_str [OF pendD(1) [OF wf] _ _ al t] by (simp add: s0_def)
    from run al False obtain name k2 where sd: "strdup (kh s0) path = Some (name, k2)"
      by (auto simp: vfs_open_def Let_def s0_def split: option.splits)
    from pend_strdup [OF p0 c _ sd] t obtain bs2 where
      b2: "heap_base k2 = heap_base (kh s0)"
      and p2: "pend F (s0\<lparr>kh := k2\<rparr>) bs2 ((if name = 0 then [] else [(name, 1)]) @ [(a, 44)])"
      and R2: "rgn (kh s0) bs1 = without (if name = 0 then {} else {name}) (rgn k2 bs2)" by (auto simp: safe_str_def)
    define s1 where "s1 = upd_file (s0\<lparr>kh := k2\<rparr>) a (\<lambda>f. f\<lparr>fname := name\<rparr>)"
    have fb: "fresh_blocks s1 a = (if name = 0 then [] else [(name, 1)]) @ [(a, 44)]"
      by (simp add: s1_def name_blocks_def)
    have "pend F s1 bs2 (fresh_blocks s1 a)" unfolding fb by (rule pend_store [OF p2]) (auto simp: s1_def)
    moreover have "rgn (kh s) bs = without (addrs (fresh_blocks s1 a)) (rgn (kh s1) bs2)"
      using R R2 unfolding fb by (simp add: s1_def s0_def insert_commute)
    ultimately show ?thesis
    proof (rule that(2), goal_cases)
      case 4
      then show ?case using run al False sd
        by (simp add: vfs_open_def Let_def s0_def s1_def)
    qed (use b2 kmalloc_base [OF al] in \<open>simp_all add: s1_def s0_def\<close>)
  qed
qed

lemma vfs_open_opened:
  assumes wf: "vfs_wf F s bs" and F: "fil_size_ok F" and t: "safe_str (kh s) bs path t"
    and run: "vfs_open F s path flags = Some (fd, s')" and fd: "0 \<le> sint fd"
  shows "\<exists>i a bs'. alloc_scan (fd_table s) 3 253 = Some i \<and> fd = word_of_nat i \<and> a \<noteq> 0
    \<and> fd_table s' = (fd_table s)(i := a) \<and> fd_count s' = fd_count s + 1 \<and> vfs_wf F s' bs'
    \<and> heap_base (kh s') = heap_base (kh s)
    \<and> rgn (kh s) bs = without (addrs (fd_blocks F s' i)) (rgn (kh s') bs')"
  using wf t run
proof (cases rule: vfs_openE)
  case 1
  with fd show ?thesis by simp
next
  case (2 a s1 bs1)
  have nz: "a \<noteq> 0" using holds_nonzero [OF pendD(1) [OF 2(1)] pendD(3) [OF 2(1), of "(a, 44)"]] by simp
  from 2(6) obtain r s2 where fo: "fat_open F s1 a path flags = Some (r, s2)" by (auto split: option.splits)
  note fr = fat_open_frame [OF fo]
  have op: "fresh_blocks s2 a = fresh_blocks s1 a" using fr by (simp add: name_blocks_def)
  show ?thesis
  proof (cases "r = 0")
    case True
    from fat_open_ok [OF 2(1) _ F fo [unfolded True]] obtain bs2 where
      p2: "pend F s2 bs2 (driver_blocks F s2 (files s2 a) @ fresh_blocks s1 a)"
      and R2: "rgn (kh s1) bs1 = without (addrs (driver_blocks F s2 (files s2 a))) (rgn (kh s2) bs2)" by auto
    from allocate_fd_cases [of s2 a] show ?thesis
    proof (elim disjE exE conjE)
      fix i assume i: "alloc_scan (fd_table s2) 3 253 = Some i" "i < 256"
        and "allocate_fd s2 a = (word_of_nat i, s2\<lparr>fd_table := (fd_table s2)(i := a), fd_count := fd_count s2 + 1\<rparr>)"
      with 2(6) fo True sint_fd [OF i(2)]
      have res: "fd = word_of_nat i" "s' = s2\<lparr>fd_table := (fd_table s2)(i := a), fd_count := fd_count s2 + 1\<rparr>"
        by simp_all
      from hand_over [OF p2 [folded op] i(1) res(2)] show ?thesis using R2 fr op i(1) res 2(2-5)
        by (intro exI [of _ i] exI [of _ a] exI [of _ bs2]) (simp add: image_Un Un_commute)
    next
      assume "allocate_fd s2 a = (minus1, s2)"
      with 2(6) fo True have "fd = minus1" by simp
      with fd show ?thesis by simp
    qed
  next
    case False
    from fat_open_refused [OF 2(1) F fo False] obtain bs2 where
      p2: "pend F s2 bs2 (fresh_blocks s2 a)" and R2: "rgn (kh s2) bs2 = rgn (kh s1) bs1" unfolding op by auto
    have "try_drivers s2 a path drivers = Some (fd, s')" using 2(6) fo False by simp
    from dt.try_drivers_opened [OF subset_refl p2 this fd] obtain i bs' where
      "alloc_scan (fd_table s2) 3 253 = Some i" "fd = word_of_nat i" "fd_table s' = (fd_table s2)(i := a)"
      "fd_count s' = fd_count s2 + 1" "pend F s' bs' []" "heap_base (kh s') = heap_base (kh s2)"
      "without (addrs (fresh_blocks s2 a)) (rgn (kh s2) bs2) = without (addrs (fd_blocks F s' i)) (rgn (kh s') bs')"
      by auto
    with fr 2(2-5) R2 op nz show ?thesis by (intro exI [of _ i] exI [of _ a] exI [of _ bs']) simp
  qed
qed

lemma vfs_open_failed:
  assumes wf: "vfs_wf F s bs" and F: "fil_size_ok F" and t: "safe_str (kh s) bs path t"
    and run: "vfs_open F s path flags = Some (fd, s')" and fd: "sint fd < 0"
  shows "fd = minus1 \<and> fd_table s' = fd_table s \<and> fd_count s' = fd_count s
    \<and> (\<exists>bs'. vfs_wf F s' bs' \<and> (alloc_scan (fd_table s) 3 253 \<noteq> None \<longrightarrow> rgn (kh s') bs' = rgn (kh s) bs))"
  using wf t run
proof (cases rule: vfs_openE)
  case 1
  with wf show ?thesis by auto
next
  case (2 a s1 bs1)
  from 2(6) obtain r s2 where fo: "fat_open F s1 a path flags = Some (r, s2)" by (auto split: option.splits)
  note fr = fat_open_frame [OF fo]
  have op: "fresh_blocks s2 a = fresh_blocks s1 a" using fr by (simp add: name_blocks_def)
  show ?thesis
  proof (cases "r = 0")
    case True
    from fat_open_ok [OF 2(1) _ F fo [unfolded True]] obtain bs2 where
      "pend F s2 bs2 (driver_blocks F s2 (files s2 a) @ fresh_blocks s2 a)" unfolding op by auto
    from pend_drop_file [OF pend_forget [OF this, THEN pend_perm, of "fresh_blocks s2 a @ []"]] obtain bs3 where
      p3: "pend F (drop_file s2 a) bs3 []" by auto
    from allocate_fd_cases [of s2 a] show ?thesis
    proof (elim disjE exE conjE)
      fix i assume "i < 256"
        and "allocate_fd s2 a = (word_of_nat i, s2\<lparr>fd_table := (fd_table s2)(i := a), fd_count := fd_count s2 + 1\<rparr>)"
      with 2(6) fo True sint_fd have "fd = word_of_nat i" by simp
      with sint_fd [OF \<open>i < 256\<close>] fd show ?thesis by simp
    next
      assume "alloc_scan (fd_table s2) 3 253 = None" "allocate_fd s2 a = (minus1, s2)"
      with 2(3,4,6) fo True p3 fr show ?thesis by (auto simp: drop_file_def)
    qed
  next
    case False
    from fat_open_refused [OF 2(1) F fo False] obtain bs2 where
      p2: "pend F s2 bs2 (fresh_blocks s2 a)" and R2: "rgn (kh s2) bs2 = rgn (kh s1) bs1" unfolding op by auto
    have "try_drivers s2 a path drivers = Some (fd, s')" using 2(6) fo False by simp
    from dt.try_drivers_failed [OF subset_refl p2 this fd] obtain bs' where
      "fd = minus1" "fd_table s' = fd_table s2" "fd_count s' = fd_count s2" "pend F s' bs' []"
      "alloc_scan (fd_table s2) 3 253 \<noteq> None \<longrightarrow> rgn (kh s') bs' = without (addrs (fresh_blocks s2 a)) (rgn (kh s2) bs2)"
      by blast
    with fr 2(2-5) R2 op show ?thesis by simp blast
  qed
qed

subsection \<open>Closing\<close>

lemma pend_free_list:
  "pend F s bs (Q @ P) \<Longrightarrow> \<exists>bs'. pend F (s\<lparr>kh := foldl kfree (kh s) (map fst Q)\<rparr>) bs' P
    \<and> rgn (foldl kfree (kh s) (map fst Q)) bs' = without (addrs Q) (rgn (kh s) bs)"
proof (induction Q arbitrary: s bs)
  case Nil
  then show ?case by (intro exI [of _ bs]) simp
next
  case (Cons b Q)
  obtain a n where b: "b = (a, n)" by (cases b)
  from pend_free [of F s bs a n "Q @ P"] Cons.prems obtain bs1 where
    "pend F (s\<lparr>kh := kfree (kh s) a\<rparr>) bs1 (Q @ P)" and R: "rgn (kfree (kh s) a) bs1 = without {a} (rgn (kh s) bs)"
    by (auto simp: b)
  from Cons.IH [OF this(1)] obtain bs2 where
    "pend F (s\<lparr>kh := foldl kfree (kfree (kh s) a) (map fst Q)\<rparr>) bs2 P"
    and "rgn (foldl kfree (kfree (kh s) a) (map fst Q)) bs2 = without (addrs Q) (rgn (kfree (kh s) a) bs1)" by auto
  with R show ?case by (intro exI [of _ bs2]) (simp add: b)
qed

lemma name_blocks_private [simp]: "name_blocks (f\<lparr>private_data := x\<rparr>) = name_blocks f"
  by (simp add: name_blocks_def)

text \<open>vfs_close releases the blocks of the descriptor, each once, and clears its entry.\<close>

lemma vfs_close_state:
  assumes wf: "vfs_wf F s bs" and fd: "unat fd < 256" and a: "fd_table s (unat fd) = a" "a \<noteq> 0"
    and run: "vfs_close F s fd = (r, s')"
  shows "kh s' = foldl kfree (kh s) (map fst (fd_blocks F s (unat fd)))
    \<and> fd_table s' = (fd_table s)(unat fd := 0) \<and> fd_count s' = fd_count s - 1
    \<and> (\<forall>b. b \<noteq> a \<longrightarrow> files s' b = files s b) \<and> procs s' = procs s \<and> fats s' = fats s"
proof -
  have fb: "fd_blocks F s (unat fd) = file_blocks F s a" using a by (simp add: fd_blocks_def)
  have nz: "private_data (files s a) \<noteq> 0" if "f_close (files s a) = Some Proc \<or> f_close (files s a) = Some Fat"
  proof -
    have "(private_data (files s a), 12) \<in> set (fd_blocks F s (unat fd)) \<or> (private_data (files s a), 10) \<in> set (fd_blocks F s (unat fd))"
      using that by (auto simp: fb file_blocks_def driver_blocks_def)
    then show ?thesis using holds_nonzero [OF pendD(1) [OF wf] pendD(5) [OF wf fd]] by force
  qed
  have nm: "kfree (kfree k (fname f)) a = foldl kfree k (map fst (name_blocks f @ [(a, 44)]))" for k f
    by (simp add: name_blocks_def)
  have simps: "kh (drop_file t a) = kfree (kfree (kh t) (fname (files t a))) a"
      "fd_table (drop_file t a) = fd_table t" "fd_count (drop_file t a) = fd_count t" "files (drop_file t a) = files t"
      "procs (drop_file t a) = procs t" "fats (drop_file t a) = fats t" for t :: "('a, 'b) vfs"
    by (simp_all add: drop_file_def)
  show ?thesis
  proof (cases "f_close (files s a)")
    case None
    with run fd a have "s' = kfree_fd (drop_file s a) fd" by (simp add: vfs_close_def get_file_from_fd_def)
    with fd None show ?thesis unfolding fb by (simp add: kfree_fd_def simps file_blocks_def driver_blocks_def nm)
  next
    case (Some d)
    consider "d = Proc" | "d = Fat" | "d \<noteq> Proc" "d \<noteq> Fat" by blast
    then show ?thesis
    proof cases
      case 1
      with run fd a Some nz have "s' = kfree_fd (drop_file (snd (proc_close s a)) a) fd"
        by (auto simp: vfs_close_def get_file_from_fd_def call_close_def split: prod.splits)
      with fd Some 1 nz show ?thesis unfolding fb
        by (simp add: kfree_fd_def simps file_blocks_def driver_blocks_def nm proc_close_def Let_def)
    next
      case 2
      with run fd a Some nz have "s' = kfree_fd (drop_file (snd (fat_close F s a)) a) fd"
        by (auto simp: vfs_close_def get_file_from_fd_def call_close_def split: prod.splits)
      with fd Some 2 nz show ?thesis unfolding fb
        by (auto simp add: kfree_fd_def simps file_blocks_def driver_blocks_def nm fat_close_def Let_def split: prod.splits)
    next
      case 3
      with run fd a Some have "s' = kfree_fd (drop_file s a) fd"
        by (cases d) (auto simp: vfs_close_def get_file_from_fd_def call_close_def)
      moreover have "driver_blocks F s (files s a) = []" using Some 3 by (cases d) (simp_all add: driver_blocks_def)
      ultimately show ?thesis using fd unfolding fb by (simp add: kfree_fd_def simps file_blocks_def nm)
    qed
  qed
qed

lemma vfs_close_wf:
  assumes wf: "vfs_wf F s bs" and fd: "unat fd < 256" and a: "fd_table s (unat fd) = a" "a \<noteq> 0"
    and run: "vfs_close F s fd = (r, s')"
  shows "\<exists>bs'. vfs_wf F s' bs' \<and> rgn (kh s') bs' = without (addrs (fd_blocks F s (unat fd))) (rgn (kh s) bs)"
proof -
  note st = vfs_close_state [OF wf fd a run]
  let ?B = "file_blocks F s a" and ?t = "(fd_table s)(unat fd := 0)"
  have fb: "fd_blocks F s (unat fd) = ?B" using a by (simp add: fd_blocks_def)
  have mem: "a \<in> addrs ?B" by (simp add: file_blocks_def)
  have "pend F (s\<lparr>fd_table := ?t, fd_count := fd_count s - 1\<rparr>) bs ?B" by (rule pend_remove [OF wf fd a])
  then have "pend F (s\<lparr>fd_table := ?t, fd_count := fd_count s - 1, files := files s'\<rparr>) bs ?B"
    by (rule pend_store) (use st mem in auto)
  with pend_free_list [of F "s\<lparr>fd_table := ?t, fd_count := fd_count s - 1, files := files s'\<rparr>" bs ?B "[]"]
  obtain bs' where p: "pend F (s\<lparr>fd_table := ?t, fd_count := fd_count s - 1, files := files s', kh := kh s'\<rparr>) bs' []"
    and R: "rgn (kh s') bs' = without (addrs ?B) (rgn (kh s) bs)" using st fb by auto
  have "vfs_wf F s' bs'" by (rule pend_store [OF p]) (use st in auto)
  with R fb show ?thesis by auto
qed

end
