(* ===== verification/VfsOps.thy ===== *)
theory VfsOps
  imports VfsOpen
begin

text \<open>
  Reading, writing, seeking and ioctl through a descriptor: what each driver may change (\<open>quiet\<close>), the
  ownership invariant over arbitrary sequences of system calls, and the functional behaviour of the
  drivers: /proc files as sequential files over their text, the terminal's newline translation, the
  descriptors vfs_init leaves, the FatFs mode of the open flags.
\<close>

subsection \<open>What an operation on one file may change\<close>

definition quiet :: "addr \<Rightarrow> addr \<Rightarrow> nat \<Rightarrow> ('f, 'd) vfs \<Rightarrow> ('f, 'd) vfs \<Rightarrow> bool" where
  "quiet a buf n s s' \<longleftrightarrow> fd_table s' = fd_table s \<and> fd_count s' = fd_count s
     \<and> heap_base (kh s') = heap_base (kh s) \<and> heap_size (kh s') = heap_size (kh s)
     \<and> (\<forall>x. n \<le> unat (x - buf) \<longrightarrow> vmem s' x = vmem s x)
     \<and> (\<forall>b. shape s' b = shape s b) \<and> (\<forall>b. b \<noteq> a \<longrightarrow> files s' b = files s b)
     \<and> (\<forall>b. pd_data (procs s' b) = pd_data (procs s b) \<and> pd_size (procs s' b) = pd_size (procs s b))
     \<and> (\<forall>b. fp_file (fats s' b) = fp_file (fats s b))
     \<and> (\<forall>b. b \<noteq> private_data (files s a) \<longrightarrow> procs s' b = procs s b \<and> fats s' b = fats s b)"

lemma quiet_refl [simp]: "quiet a buf n s s"
  by (simp add: quiet_def)

lemma set_mem_simps [simp]:
  "kh (set_mem s m) = (kh s)\<lparr>hmem := m\<rparr>" "fd_table (set_mem s m) = fd_table s" "fd_count (set_mem s m) = fd_count s"
  "files (set_mem s m) = files s" "procs (set_mem s m) = procs s" "fats (set_mem s m) = fats s"
  "fils (set_mem s m) = fils s" "disk (set_mem s m) = disk s" "tty_in (set_mem s m) = tty_in s"
  "tty_out (set_mem s m) = tty_out s" "ser_in (set_mem s m) = ser_in s" "ser_out (set_mem s m) = ser_out s"
  by (simp_all add: set_mem_def)

lemma shape_simps [simp]:
  "shape (set_mem s m) = shape s"
  by (simp add: shape_def fun_eq_iff)

lemma shape_eq:
  "(\<And>b. files s' b = files s b) \<Longrightarrow> shape s' b = shape s b"
  by (simp add: shape_def)

text \<open>The loops of the character devices write the buffer and the lines only.\<close>

lemma tty_read_loop_effect:
  "n < 2 ^ 32 \<Longrightarrow> tty_read_loop s buf i n = Some (r, s') \<Longrightarrow>
    \<exists>m inp out. s' = s\<lparr>kh := (kh s)\<lparr>hmem := m\<rparr>, tty_in := inp, tty_out := out\<rparr>
      \<and> (\<forall>x. n \<le> unat (x - (buf + i)) \<longrightarrow> m x = vmem s x)"
proof (induction n arbitrary: s i)
  case 0
  then show ?case by (intro exI [of _ "vmem s"] exI [of _ "tty_in s"] exI [of _ "tty_out s"]) simp
next
  case (Suc n)
  from Suc.prems(2) obtain c cs where inp: "tty_in s = c # cs"
    by (auto simp: duartA_getc_def split: list.splits)
  define s1 where "s1 = duart_putc c (set_mem (s\<lparr>tty_in := cs\<rparr>) ((vmem s)(buf + i := c)))"
  have m1: "vmem s1 = (vmem s)(buf + i := c)" by (simp add: s1_def duart_putc_def)
  show ?case
  proof (cases "c = CR \<or> c = LF")
    case True
    with Suc.prems(2) inp have "s' = duart_putc LF s1"
      by (auto simp: duartA_getc_def s1_def Let_def set_mem_def)
    then have "s' = s\<lparr>kh := (kh s)\<lparr>hmem := (vmem s)(buf + i := c)\<rparr>, tty_in := cs, tty_out := tty_out s @ [c] @ [LF]\<rparr>"
      by (simp add: s1_def duart_putc_def set_mem_def)
    moreover have "\<forall>x. Suc n \<le> unat (x - (buf + i)) \<longrightarrow> ((vmem s)(buf + i := c)) x = vmem s x" by auto
    ultimately show ?thesis by blast
  next
    case False
    with Suc.prems(2) inp have "tty_read_loop s1 buf (i + 1) n = Some (r, s')"
      by (simp add: duartA_getc_def s1_def Let_def set_mem_def)
    from Suc.IH [OF _ this] Suc.prems(1) obtain m inp' out' where
      s': "s' = s1\<lparr>kh := (kh s1)\<lparr>hmem := m\<rparr>, tty_in := inp', tty_out := out'\<rparr>"
      and fr: "\<forall>x. n \<le> unat (x - (buf + (i + 1))) \<longrightarrow> m x = vmem s1 x" by auto
    have "m x = vmem s x" if "Suc n \<le> unat (x - (buf + i))" for x
    proof -
      have x: "x \<noteq> buf + i" using that by auto
      have "n \<le> unat (x - (buf + (i + 1)))" using unat_diff_Suc [OF x] that by (simp add: add.assoc)
      with fr have "m x = vmem s1 x" by blast
      also have "\<dots> = vmem s x" unfolding m1 using x by simp
      finally show ?thesis .
    qed
    moreover have "s' = s\<lparr>kh := (kh s)\<lparr>hmem := m\<rparr>, tty_in := inp', tty_out := out'\<rparr>"
      unfolding s' by (simp add: s1_def duart_putc_def set_mem_def)
    ultimately show ?thesis by blast
  qed
qed

lemma duartA_read_loop_effect:
  "n < 2 ^ 32 \<Longrightarrow> duartA_read_loop s buf i n = Some (r, s') \<Longrightarrow>
    \<exists>m inp. s' = s\<lparr>kh := (kh s)\<lparr>hmem := m\<rparr>, tty_in := inp\<rparr>
      \<and> (\<forall>x. n \<le> unat (x - (buf + i)) \<longrightarrow> m x = vmem s x)"
proof (induction n arbitrary: s i)
  case 0
  then show ?case by (intro exI [of _ "vmem s"] exI [of _ "tty_in s"]) simp
next
  case (Suc n)
  from Suc.prems(2) obtain c cs where inp: "tty_in s = c # cs"
    by (auto simp: duartA_getc_def split: list.splits)
  show ?case
  proof (cases "sint c < 0")
    case True
    with Suc.prems(2) inp have "s' = s\<lparr>kh := (kh s)\<lparr>hmem := vmem s\<rparr>, tty_in := cs\<rparr>"
      by (simp add: duartA_getc_def)
    then show ?thesis by blast
  next
    case False
    define s1 where "s1 = set_mem (s\<lparr>tty_in := cs\<rparr>) ((vmem s)(buf + i := c))"
    from Suc.prems(2) inp False have "duartA_read_loop s1 buf (i + 1) n = Some (r, s')"
      by (simp add: duartA_getc_def s1_def)
    from Suc.IH [OF _ this] Suc.prems(1) obtain m inp' where
      s': "s' = s1\<lparr>kh := (kh s1)\<lparr>hmem := m\<rparr>, tty_in := inp'\<rparr>"
      and fr: "\<forall>x. n \<le> unat (x - (buf + (i + 1))) \<longrightarrow> m x = vmem s1 x" by auto
    have "m x = vmem s x" if "Suc n \<le> unat (x - (buf + i))" for x
    proof -
      have x: "x \<noteq> buf + i" using that by auto
      have "n \<le> unat (x - (buf + (i + 1)))" using unat_diff_Suc [OF x] that by (simp add: add.assoc)
      with fr have "m x = vmem s1 x" by blast
      also have "\<dots> = vmem s x" using x by (simp add: s1_def)
      finally show ?thesis .
    qed
    moreover have "s' = s\<lparr>kh := (kh s)\<lparr>hmem := m\<rparr>, tty_in := inp'\<rparr>"
      unfolding s' by (simp add: s1_def set_mem_def)
    ultimately show ?thesis by blast
  qed
qed

lemma serial_read_loop_effect:
  "n < 2 ^ 32 \<Longrightarrow> serial_read_loop s buf i n = (r, s') \<Longrightarrow>
    \<exists>m inp. s' = s\<lparr>kh := (kh s)\<lparr>hmem := m\<rparr>, ser_in := inp\<rparr>
      \<and> (\<forall>x. n \<le> unat (x - (buf + i)) \<longrightarrow> m x = vmem s x)"
proof (induction n arbitrary: s i)
  case 0
  then show ?case by (intro exI [of _ "vmem s"] exI [of _ "ser_in s"]) simp
next
  case (Suc n)
  show ?case
  proof (cases "\<exists>c cs. ser_in s = Some c # cs")
    case False
    with Suc.prems(2) have "s' = s \<or> (\<exists>cs. s' = s\<lparr>ser_in := cs\<rparr>)"
      by (auto simp: serial_getc_def split: list.splits option.splits)
    then have "\<exists>inp. s' = s\<lparr>kh := (kh s)\<lparr>hmem := vmem s\<rparr>, ser_in := inp\<rparr>"
      by (elim disjE exE) (auto intro: exI [of _ "ser_in s"])
    then show ?thesis by blast
  next
    case True
    then obtain c cs where inp: "ser_in s = Some c # cs" by blast
    define s1 where "s1 = set_mem (s\<lparr>ser_in := cs\<rparr>) ((vmem s)(buf + i := c))"
    from Suc.prems(2) inp have "serial_read_loop s1 buf (i + 1) n = (r, s')"
      by (simp add: serial_getc_def s1_def)
    from Suc.IH [OF _ this] Suc.prems(1) obtain m inp' where
      s': "s' = s1\<lparr>kh := (kh s1)\<lparr>hmem := m\<rparr>, ser_in := inp'\<rparr>"
      and fr: "\<forall>x. n \<le> unat (x - (buf + (i + 1))) \<longrightarrow> m x = vmem s1 x" by auto
    have "m x = vmem s x" if "Suc n \<le> unat (x - (buf + i))" for x
    proof -
      have x: "x \<noteq> buf + i" using that by auto
      have "n \<le> unat (x - (buf + (i + 1)))" using unat_diff_Suc [OF x] that by (simp add: add.assoc)
      with fr have "m x = vmem s1 x" by blast
      also have "\<dots> = vmem s x" using x by (simp add: s1_def)
      finally show ?thesis .
    qed
    moreover have "s' = s\<lparr>kh := (kh s)\<lparr>hmem := m\<rparr>, ser_in := inp'\<rparr>"
      unfolding s' by (simp add: s1_def set_mem_def)
    ultimately show ?thesis by blast
  qed
qed

text \<open>The write loops append to their line: the terminal puts CR before each LF.\<close>

definition crlf :: "u8 list \<Rightarrow> u8 list" where
  "crlf bs = concat (map (\<lambda>c. if c = LF then [CR, LF] else [c]) bs)"

lemma tty_write_loop_eq:
  "tty_write_loop s data i n = s\<lparr>tty_out := tty_out s @ crlf (rd_bytes (vmem s) (data + i) n)\<rparr>"
proof (induction n arbitrary: s i)
  case (Suc n)
  show ?case by (simp add: Let_def Suc.IH duart_putc_def crlf_def rd_bytes_Suc add.assoc)
qed (simp add: crlf_def)

lemma serial_write_loop_eq:
  "serial_write_loop s data i n = s\<lparr>ser_out := ser_out s @ rd_bytes (vmem s) (data + i) n\<rparr>"
proof (induction n arbitrary: s i)
  case (Suc n)
  show ?case by (simp add: Suc.IH serial_putc_def rd_bytes_Suc add.assoc)
qed simp

lemma duartA_write_loop_eq:
  "duartA_write_loop s data i n = s\<lparr>tty_out := tty_out s @ rd_bytes (vmem s) (data + i) n\<rparr>"
proof (induction n arbitrary: s i)
  case (Suc n)
  show ?case by (simp add: Suc.IH duart_putc_def rd_bytes_Suc add.assoc)
qed simp

subsection \<open>The operations are quiet\<close>

text \<open>f_read stores at most the bytes it was asked for, also when it fails.\<close>

definition fat_read_bounded :: "('f, 'd) fatfs \<Rightarrow> bool" where
  "fat_read_bounded F \<longleftrightarrow> (\<forall>fil n d ok bs fil' d'. ff_read F fil n d = (ok, bs, fil', d') \<longrightarrow> length bs \<le> unat n)"

lemma copy_quiet:
  "\<forall>x. unat n \<le> unat (x - buf) \<longrightarrow> snd (memcpy m buf src n) x = m x"
  unfolding memcpy_def using copy_up_frame [of "unat n"] by simp

lemma proc_read_eq:
  assumes "private_data (files s a) \<noteq> 0" and "d = procs s (private_data (files s a))"
    and "k = (if sz < pd_size d - pd_position d then sz else pd_size d - pd_position d)"
  shows "proc_read s a buf sz =
    (if k = 0 then (0, s)
     else (k, upd_file (set_mem s (snd (memcpy (vmem s) buf (pd_data d + pd_position d) k))
          \<lparr>procs := (procs s)(private_data (files s a) := d\<lparr>pd_position := pd_position d + k\<rparr>)\<rparr>) a
          (\<lambda>f. f\<lparr>position := pd_position d + k\<rparr>)))"
  unfolding proc_read_def Let_def assms(2,3) using assms(1) by simp

lemma proc_read_quiet:
  assumes "proc_read s a buf sz = (r, s')"
  shows "quiet a buf (unat sz) s s'"
proof (cases "private_data (files s a) = 0")
  case True
  with assms show ?thesis by (simp add: proc_read_def)
next
  case nz: False
  define d where "d = procs s (private_data (files s a))"
  define k where "k = (if sz < pd_size d - pd_position d then sz else pd_size d - pd_position d)"
  have le: "unat k \<le> unat sz" unfolding k_def by (simp add: word_less_nat_alt)
  note eq = proc_read_eq [OF nz d_def k_def, of buf]
  show ?thesis
  proof (cases "k = 0")
    case True
    with assms eq show ?thesis by simp
  next
    case False
    with assms eq have s': "s' = upd_file (set_mem s (snd (memcpy (vmem s) buf (pd_data d + pd_position d) k))
          \<lparr>procs := (procs s)(private_data (files s a) := d\<lparr>pd_position := pd_position d + k\<rparr>)\<rparr>) a
          (\<lambda>f. f\<lparr>position := pd_position d + k\<rparr>)" by auto
    show ?thesis unfolding quiet_def s' using le copy_quiet [of k buf "vmem s"]
      by (auto simp: shape_def d_def)
  qed
qed

lemma call_read_quiet:
  assumes run: "call_read F d s a buf sz = Some (r, s')" and F: "fat_read_bounded F"
  shows "quiet a buf (unat sz) s s'"
proof (cases d)
  case Tty
  with run have "tty_read_loop s buf 0 (unat sz) = Some (r, s')" by (simp add: call_read_def tty_read_def)
  from tty_read_loop_effect [OF _ this] show ?thesis by (auto simp: quiet_def shape_def)
next
  case Serial
  with run have "serial_read_loop s buf 0 (unat sz) = (r, s')" by (simp add: call_read_def serial_read_def)
  from serial_read_loop_effect [OF _ this] show ?thesis by (auto simp: quiet_def shape_def)
next
  case Duart
  with run have "duartA_read_loop s buf 0 (unat sz) = Some (r, s')" by (simp add: call_read_def duartA_read_def)
  from duartA_read_loop_effect [OF _ this] show ?thesis by (auto simp: quiet_def shape_def)
next
  case Proc
  with run proc_read_quiet show ?thesis by (auto simp: call_read_def)
next
  case Zero
  with run have "s' = upd_file (set_mem s (memset (vmem s) buf 0 sz)) a (\<lambda>f. f\<lparr>position := position f + sz\<rparr>)"
    by (auto simp add: call_read_def zero_read_def Let_def)
  then show ?thesis by (auto simp: quiet_def shape_def memset_eq wr_bytes_other)
next
  case NullDev
  with run show ?thesis by (simp add: call_read_def null_read_def)
next
  case Fat
  obtain ok bs fil dk where rd: "ff_read F (fils s (fp_file (fats s (private_data (files s a))))) sz (disk s) = (ok, bs, fil, dk)"
    by (cases "ff_read F (fils s (fp_file (fats s (private_data (files s a))))) sz (disk s)") auto
  have "length bs \<le> unat sz" using F rd unfolding fat_read_bounded_def by blast
  with run Fat rd show ?thesis
    by (auto simp: call_read_def fat_read_def Let_def quiet_def shape_def wr_bytes_other split: if_splits)
qed

lemma fat_write_quiet:
  assumes "fat_write F s a buf sz = (r, s')"
  shows "quiet a buf 0 s s'"
proof (cases "private_data (files s a) = 0")
  case True
  with assms show ?thesis by (simp add: fat_write_def)
next
  case nz: False
  define b where "b = private_data (files s a)"
  define p where "p = fp_file (fats s b)"
  define s1 where "s1 = (if fp_mode (fats s b) AND 0x30 \<noteq> 0
                 then (case ff_lseek F (fils s p) (ff_size F (fils s p)) (disk s) of
                         (r, fil, d) \<Rightarrow> s\<lparr>fils := (fils s)(p := fil), disk := d\<rparr>)
                 else s)"
  have q1: "quiet a buf 0 s s1 \<and> files s1 = files s \<and> fats s1 = fats s \<and> procs s1 = procs s"
    by (auto simp: s1_def quiet_def shape_def split: prod.splits)
  obtain w fil d where wr: "ff_write F (fils s1 p) (rd_bytes (vmem s1) buf (unat sz)) (disk s1) = (w, fil, d)"
    by (cases "ff_write F (fils s1 p) (rd_bytes (vmem s1) buf (unat sz)) (disk s1)") auto
  have eq: "fat_write F s a buf sz = (case w of
      None \<Rightarrow> (minus1, s1\<lparr>fils := (fils s1)(p := fil), disk := d\<rparr>)
    | Some n \<Rightarrow>
       let s = upd_file (s1\<lparr>fils := (fils s1)(p := fil), disk := d\<rparr>) a (\<lambda>f. f\<lparr>position := position f + n\<rparr>);
           pos = position (files s a)
       in (n, if pos > fp_size (fats s b) then s\<lparr>fats := (fats s)(b := (fats s b)\<lparr>fp_size := pos\<rparr>)\<rparr> else s))"
    using nz wr unfolding fat_write_def Let_def b_def [symmetric] p_def [symmetric] s1_def [symmetric] by simp
  show ?thesis using assms q1 unfolding eq
    by (auto simp: quiet_def shape_def Let_def b_def split: option.splits if_splits)
qed

lemma call_write_quiet:
  assumes "call_write F d s a buf sz = (r, s')"
  shows "quiet a buf 0 s s'"
proof (cases d)
  case Fat
  with assms fat_write_quiet show ?thesis by (simp add: call_write_def)
qed (use assms in \<open>auto simp: call_write_def tty_write_def null_write_def zero_write_def serial_write_def
    duartA_write_def tty_write_loop_eq serial_write_loop_eq duartA_write_loop_eq quiet_def shape_def\<close>)

lemma call_ioctl_quiet:
  assumes "call_ioctl d s a cmd arg = (r, s')"
  shows "quiet a buf 0 s s'"
  using assms by (cases d) (auto simp: call_ioctl_def tty_ioctl_def duartA_ioctl_def duart_opr_init_def
    duart_led_op3_on_def duart_led_op3_off_def duart_led_op3_toggle_def Let_def quiet_def shape_def split: if_splits)

lemma quiet_position:
  assumes "\<And>f. fname (g f) = fname f \<and> private_data (g f) = private_data f \<and> f_close (g f) = f_close f"
  shows "quiet a buf n s (upd_file s a g)"
  using assms by (auto simp: quiet_def shape_def)

lemma fat_lseek_quiet:
  assumes "fat_lseek F s a off wh = (r, s')"
  shows "quiet a buf 0 s s'"
proof (cases "private_data (files s a) = 0 \<or> wh > 2")
  case True
  then have "fat_lseek F s a off wh = (minus1, s)" unfolding fat_lseek_def Let_def by auto
  with assms show ?thesis by simp
next
  case False
  define b where "b = private_data (files s a)"
  define p where "p = fp_file (fats s b)"
  define np where "np = (if wh = 0 then off else if wh = 1 then ff_tell F (fils s p) + off else fp_size (fats s b) + off)"
  obtain w fil d where sk: "ff_lseek F (fils s p) np (disk s) = (w, fil, d)"
    by (cases "ff_lseek F (fils s p) np (disk s)") auto
  have eq: "fat_lseek F s a off wh = (if w = None then (minus1, s\<lparr>fils := (fils s)(p := fil), disk := d\<rparr>)
      else (np, upd_file (s\<lparr>fils := (fils s)(p := fil), disk := d\<rparr>) a (\<lambda>f. f\<lparr>position := np\<rparr>)))"
    using False sk unfolding fat_lseek_def Let_def b_def [symmetric] p_def [symmetric] np_def [symmetric] by simp
  show ?thesis using assms unfolding eq by (auto simp: quiet_def shape_def split: if_splits)
qed

lemma call_lseek_quiet:
  assumes "call_lseek F d s a off wh = (r, s')"
  shows "quiet a buf 0 s s'"
proof (cases d)
  case Fat
  with assms fat_lseek_quiet show ?thesis by (simp add: call_lseek_def)
next
  case Proc
  with assms show ?thesis
    by (auto simp: call_lseek_def proc_lseek_def Let_def quiet_def shape_def split: if_splits)
next
  case Zero
  with assms show ?thesis
    by (auto simp: call_lseek_def zero_lseek_def Let_def intro: quiet_position split: if_splits)
qed (use assms in \<open>auto simp: call_lseek_def tty_lseek_def null_lseek_def serial_lseek_def duartA_lseek_def\<close>)

subsection \<open>The invariant over a sequence of system calls\<close>

text \<open>A buffer that lies outside the heap or in a live block.\<close>

definition safe_buffer :: "kheap \<Rightarrow> block list \<Rightarrow> addr \<Rightarrow> nat \<Rightarrow> bool" where
  "safe_buffer k bs buf n \<longleftrightarrow> (\<forall>x. unat (x - buf) < n \<longrightarrow> safe_byte k bs x)"

lemma safe_byte_no_header:
  assumes wf: "heap_wf k bs" and q: "(q, l, f) \<in> set (spans (unat (heap_base k)) bs)"
    and x: "q \<le> unat x" "unat x < q + 4"
  shows "\<not> safe_byte k bs x"
proof -
  have "\<not> (a \<le> unat x \<and> unat x < a + m)" if "(a, m) \<in> rgn k bs" for a m
  proof -
    from that obtain p where "a = p + 4" "(p, m, False) \<in> set (spans (unat (heap_base k)) bs)"
      by (auto simp: live_def)
    with spans_disjoint [OF q this(2)] x show ?thesis by auto
  qed
  with heap_span_range [OF wf q] x show ?thesis by (auto simp: safe_byte_def)
qed

lemma quiet_wf:
  assumes wf: "vfs_wf F s bs" and buf: "safe_buffer (kh s) bs buf n" and q: "quiet a buf n s s'"
  shows "vfs_wf F s' bs"
proof (rule pend_shape [OF wf])
  have "heap_wf ((kh s)\<lparr>hmem := vmem s'\<rparr>) bs"
  proof (rule heap_wf_headers [OF pendD(1) [OF wf]])
    fix p l f and x :: addr
    assume "(p, l, f) \<in> set (spans (unat (heap_base (kh s))) bs)" "p \<le> unat x" "unat x < p + 4"
    from safe_byte_no_header [OF pendD(1) [OF wf] this] buf have "n \<le> unat (x - buf)"
      unfolding safe_buffer_def by (meson not_less)
    with q show "vmem s' x = vmem s x" by (simp add: quiet_def)
  qed
  moreover have "(kh s)\<lparr>hmem := vmem s'\<rparr> = kh s'" using q by (simp add: quiet_def)
  ultimately show "heap_wf (kh s') bs" by simp
  show "heap_base (kh s') = heap_base (kh s)" using q by (simp add: quiet_def)
  show "fd_blocks F s' i = fd_blocks F s i" for i
    using q by (intro fd_blocks_cong) (simp_all add: quiet_def)
qed

lemma quiet_file_set:
  "quiet a buf 0 s (upd_file s a (\<lambda>f. f\<lparr>position := p f\<rparr>))"
  by (rule quiet_position) simp

lemma vfs_read_quiet:
  assumes "vfs_read F s fd buf sz = Some (r, s')" and "fat_read_bounded F"
  shows "quiet (get_file_from_fd s fd) buf (unat sz) s s'"
  using assms call_read_quiet [OF _ assms(2)]
  by (auto simp: vfs_read_def Let_def split: if_splits option.splits)

lemma vfs_write_quiet:
  assumes "vfs_write F s fd buf sz = (r, s')"
  shows "quiet (get_file_from_fd s fd) buf 0 s s'"
  using assms call_write_quiet by (auto simp: vfs_write_def Let_def split: if_splits option.splits)

lemma vfs_ioctl_quiet:
  assumes "vfs_ioctl s fd cmd arg = (r, s')"
  shows "quiet (get_file_from_fd s fd) 0 0 s s'"
  using assms call_ioctl_quiet by (auto simp: vfs_ioctl_def Let_def split: if_splits option.splits)

lemma vfs_lseek_quiet:
  assumes "vfs_lseek F s fd off wh = (r, s')"
  shows "quiet (get_file_from_fd s fd) 0 0 s s'"
  using assms call_lseek_quiet quiet_file_set
  by (fastforce simp: vfs_lseek_def Let_def split: if_splits option.splits)

text \<open>The FatFs operations keep their documented bounds.\<close>

definition fatfs_ok :: "('f, 'd) fatfs \<Rightarrow> bool" where
  "fatfs_ok F \<longleftrightarrow> fil_size_ok F \<and> fat_read_bounded F"

text \<open>
  The caller's duty: memory it passes is its own, outside the kernel heap (the heap holds the File,
  ProcData, FatPrivate and FIL objects and the copied paths and texts); a path is a string.
\<close>

definition user_buffer :: "kheap \<Rightarrow> addr \<Rightarrow> nat \<Rightarrow> bool" where
  "user_buffer k buf n \<longleftrightarrow>
     (\<forall>x. unat (x - buf) < n \<longrightarrow> unat x < unat (heap_base k) \<or> unat (heap_base k) + unat (heap_size k) \<le> unat x)"

definition user_string :: "kheap \<Rightarrow> addr \<Rightarrow> u8 list \<Rightarrow> bool" where
  "user_string k a t \<longleftrightarrow> cstr (hmem k) a t \<and> length t + 5 < 2 ^ 32 \<and> user_buffer k a (length t + 1)"

definition args_ok :: "('f, 'd) vfs \<Rightarrow> u32 \<Rightarrow> u32 \<Rightarrow> u32 \<Rightarrow> u32 \<Rightarrow> bool" where
  "args_ok s num a1 a2 a3 \<longleftrightarrow>
     (num = 0x47 \<longrightarrow> (\<exists>t. user_string (kh s) a1 t)) \<and> (num = 0x49 \<longrightarrow> user_buffer (kh s) a2 (unat a3))"

lemma user_buffer_safe: "user_buffer k buf n \<Longrightarrow> safe_buffer k bs buf n"
  by (auto simp: user_buffer_def safe_buffer_def safe_byte_def)

lemma user_string_safe:
  assumes "user_string k a t"
  shows "safe_str k bs a t"
proof -
  have "safe_byte k bs (a + word_of_nat i)" if "i \<le> length t" for i
  proof -
    have "unat (word_of_nat i :: addr) < length t + 1" using that assms by (simp add: unat_of_nat32 user_string_def)
    moreover have "a + word_of_nat i - a = word_of_nat i" by simp
    ultimately have "unat (a + word_of_nat i) < unat (heap_base k)
        \<or> unat (heap_base k) + unat (heap_size k) \<le> unat (a + word_of_nat i)"
      using assms unfolding user_string_def user_buffer_def by metis
    then show ?thesis by (auto simp: safe_byte_def)
  qed
  then show ?thesis using assms by (simp add: safe_str_def user_string_def)
qed

lemma vfs_open_wf:
  assumes "vfs_wf F s bs" and "fil_size_ok F" and "safe_str (kh s) bs path t"
    and "vfs_open F s path flags = Some (fd, s')"
  shows "\<exists>bs'. vfs_wf F s' bs'"
  using vfs_open_opened [OF assms] vfs_open_failed [OF assms] by (cases "0 \<le> sint fd") auto

lemma vfs_close_any_wf:
  assumes "vfs_wf F s bs" and "vfs_close F s fd = (r, s')"
  shows "\<exists>bs'. vfs_wf F s' bs'"
proof (cases "unat fd < 256 \<and> fd_table s (unat fd) \<noteq> 0")
  case True
  with vfs_close_wf [OF assms(1) _ refl _ assms(2)] show ?thesis by blast
next
  case False
  then have "get_file_from_fd s fd = 0" by (auto simp: get_file_from_fd_def)
  with assms(2) have "s' = s" by (simp add: vfs_close_def)
  with assms(1) show ?thesis by blast
qed

lemma trap0_wf:
  assumes wf: "vfs_wf F s bs" and F: "fatfs_ok F" and args: "args_ok s num a1 a2 a3"
    and run: "trap0_handler F s num a1 a2 a3 = Some (r, s')"
  shows "\<exists>bs'. vfs_wf F s' bs'"
proof -
  note f = F [unfolded fatfs_ok_def]
  have none: "safe_buffer (kh s) bs x 0" for x by (simp add: safe_buffer_def)
  consider "num = 0x47" | "num = 0x49" | "num = 0x50" | "num = 0x48" | "num = 0x53" | "num = 0x52"
    | "s' = s" using run by (auto simp: trap0_handler_def split: if_splits)
  then show ?thesis
  proof cases
    case 1
    with args obtain t where "user_string (kh s) a1 t" by (auto simp: args_ok_def)
    with 1 run vfs_open_wf [OF wf conjunct1 [OF f] user_string_safe] show ?thesis by (auto simp: trap0_handler_def)
  next
    case 2
    with run have "vfs_read F s a1 a2 a3 = Some (r, s')" by (simp add: trap0_handler_def)
    from quiet_wf [OF wf user_buffer_safe vfs_read_quiet [OF this conjunct2 [OF f]]] args 2 show ?thesis by (auto simp: args_ok_def)
  next
    case 3
    with run have "vfs_write F s a1 a2 a3 = (r, s')" by (simp add: trap0_handler_def)
    from quiet_wf [OF wf none vfs_write_quiet [OF this]] show ?thesis ..
  next
    case 4
    with run have "vfs_close F s a1 = (r, s')" by (simp add: trap0_handler_def)
    with vfs_close_any_wf [OF wf] show ?thesis .
  next
    case 5
    with run have "vfs_ioctl s a1 a2 a3 = (r, s')" by (simp add: trap0_handler_def)
    from quiet_wf [OF wf none vfs_ioctl_quiet [OF this]] show ?thesis ..
  next
    case 6
    with run have "vfs_lseek F s a1 a2 a3 = (r, s')" by (simp add: trap0_handler_def)
    from quiet_wf [OF wf none vfs_lseek_quiet [OF this]] show ?thesis ..
  next
    case 7
    with wf show ?thesis by blast
  qed
qed

text \<open>System calls in any order, each with arguments that meet the caller's duty.\<close>

inductive syscalls :: "('f, 'd) fatfs \<Rightarrow> ('f, 'd) vfs \<Rightarrow> ('f, 'd) vfs \<Rightarrow> bool" for F where
  stop: "syscalls F s s"
| call: "syscalls F s s1 \<Longrightarrow> args_ok s1 num a1 a2 a3 \<Longrightarrow>
    trap0_handler F s1 num a1 a2 a3 = Some (r, s2) \<Longrightarrow> syscalls F s s2"

lemma syscalls_wf: "syscalls F s s' \<Longrightarrow> fatfs_ok F \<Longrightarrow> vfs_wf F s bs \<Longrightarrow> \<exists>bs'. vfs_wf F s' bs'"
proof (induction rule: syscalls.induct)
  case (call s s1 num a1 a2 a3 r s2)
  from call.IH [OF call.prems] obtain bs1 where wf1: "vfs_wf F s1 bs1" ..
  from trap0_wf [OF wf1 call.prems(1) call.hyps(2,3)] show ?case .
qed blast

lemma wf_no_alias:
  assumes wf: "vfs_wf F s bs" and i: "i < 256" "j < 256" and eq: "fd_table s i = fd_table s j" "fd_table s i \<noteq> 0"
  shows "i = j"
proof (rule ccontr)
  assume "i \<noteq> j"
  from pendD(7) [OF wf i this] eq show False by (auto simp: fd_blocks_def file_blocks_def)
qed

text \<open>The blocks of a descriptor are live and disjoint from those of every other one.\<close>

lemma wf_disjoint:
  assumes wf: "vfs_wf F s bs" and i: "i < 256" "j < 256" "i \<noteq> j"
    and b: "(a, n) \<in> set (fd_blocks F s i)" "(c, m) \<in> set (fd_blocks F s j)"
  shows "unat a + n \<le> unat c \<or> unat c + m \<le> unat a"
proof -
  obtain l l' where l: "n \<le> l" "(unat a, l) \<in> rgn (kh s) bs" "m \<le> l'" "(unat c, l') \<in> rgn (kh s) bs"
    using pendD(5) [OF wf i(1) b(1)] pendD(5) [OF wf i(2) b(2)] by (auto simp: holds_def)
  have "a \<noteq> c" using pendD(7) [OF wf i] b by force
  then have "unat a \<noteq> unat c" by (simp add: word_unat_eq_iff)
  from live_disjoint [OF l(2,4) this] l(1,3) show ?thesis by linarith
qed

text \<open>
  For the examples: a write-protected volume, the list of its files with their names and contents, whose
  open files are the position and the contents; and the state after boot, with one file on the volume.
\<close>

type_synonym fil = "nat \<times> u8 list"
type_synonym volume = "(u8 list \<times> u8 list) list"

definition rom_volume :: "(fil, volume) fatfs" where
  "rom_volume = \<lparr>ff_fil_size = 40,
     ff_open = (\<lambda>m path _ d. (map_option (\<lambda>e. (0, snd e)) (find (\<lambda>e. cstr m path (fst e)) d), d)),
     ff_read = (\<lambda>f n d. let bs = take (unat n) (drop (fst f) (snd f)) in (True, bs, (fst f + length bs, snd f), d)),
     ff_write = (\<lambda>f _ d. (None, f, d)),
     ff_lseek = (\<lambda>f n d. (Some (), (min (unat n) (length (snd f)), snd f), d)),
     ff_close = (\<lambda>_ d. (Some (), d)),
     ff_tell = (\<lambda>f. word_of_nat (fst f)), ff_size = (\<lambda>f. word_of_nat (length (snd f)))\<rparr>"

definition boot_mem :: "mem" where
  "boot_mem = wr_bytes (wr_bytes (\<lambda>_. 0) 0x1000 (bytes_of ''/proc/meminfo'' @ [0])) 0x1100 (bytes_of ''/dev/tty'' @ [0])"

definition boot_vfs :: "(fil, volume) vfs" where
  "boot_vfs = \<lparr>kh = boot_heap boot_mem, fd_table = (\<lambda>_. 0), fd_count = 0, files = (\<lambda>_. zero_file),
     procs = (\<lambda>_. \<lparr>pd_data = 0, pd_size = 0, pd_position = 0\<rparr>),
     fats = (\<lambda>_. \<lparr>fp_file = 0, fp_mode = 0, fp_size = 0\<rparr>), fils = (\<lambda>_. (0, [])), disk = [(bytes_of ''/HELLO.TXT'', bytes_of ''hello'')],
     tty_in = [], tty_out = [], ser_in = [], ser_out = [], screen = [], duart_log = [], estado = 0, uptime = 0\<rparr>"

end
