(* ===== verification/VfsDev.thy ===== *)
theory VfsDev
  imports VfsOps
begin

text \<open>
  Opening a device or a /proc file when the heap has room: the open succeeds, and what the descriptor
  then reads or writes. \<open>has_room\<close> is a lower bound on the largest free block, \<open>safe_byte\<close> the bytes
  that neither the allocator nor the handlers touch.
\<close>

subsection \<open>Room in the heap\<close>

definition has_room :: "block list \<Rightarrow> nat \<Rightarrow> bool" where
  "has_room bs n \<longleftrightarrow> n = 0 \<or> (\<exists>l \<ge> n. (l, True) \<in> set bs)"

lemma has_room_mono: "has_room bs n \<Longrightarrow> m \<le> n \<Longrightarrow> has_room bs m"
  unfolding has_room_def by (metis le_trans le_zero_eq)

lemma has_room_Cons [simp]: "has_room ((l, f) # bs) n \<longleftrightarrow> (f \<and> n \<le> l) \<or> has_room bs n"
  by (auto simp: has_room_def)

lemma first_fit_some: "has_room bs n \<Longrightarrow> 0 < n \<Longrightarrow> first_fit n p bs \<noteq> None"
proof (induction bs arbitrary: p)
  case (Cons b bs)
  obtain l f where b: "b = (l, f)" by (cases b)
  show ?case
  proof (cases "f \<and> n \<le> l")
    case False
    with Cons.prems have "has_room bs n" by (auto simp: b)
    with Cons.IH Cons.prems(2) False show ?thesis by (simp add: b)
  qed (auto simp: b)
qed (simp add: has_room_def)

lemma first_fit_room:
  "first_fit n p bs = Some (q, bs') \<Longrightarrow> has_room bs m \<Longrightarrow> has_room bs' (m - n - 20)"
proof (induction bs arbitrary: p bs')
  case (Cons b bs)
  obtain l f where b: "b = (l, f)" by (cases b)
  show ?case
  proof (cases "f \<and> n \<le> l")
    case True
    with Cons.prems(1) have bs': "bs' = (if n + 20 \<le> l then (n, False) # (l - n - 4, True) # bs else (l, False) # bs)"
      by (auto simp: b)
    show ?thesis
    proof (cases "m \<le> l")
      case True
      show ?thesis
      proof (cases "n + 20 \<le> l")
        case True
        with \<open>m \<le> l\<close> have "m - n - 20 \<le> l - n - 4" by simp
        with True show ?thesis unfolding bs' has_room_def by auto
      next
        case False
        with \<open>m \<le> l\<close> show ?thesis by (simp add: has_room_def)
      qed
    next
      case False
      with Cons.prems(2) True have "has_room bs m" by (auto simp: b)
      then have "has_room bs (m - n - 20)" by (rule has_room_mono) simp
      then show ?thesis unfolding bs' has_room_def by auto
    qed
  next
    case False
    with Cons.prems(1) obtain bs1 where ff: "first_fit n (p + 4 + l) bs = Some (q, bs1)" and bs': "bs' = (l, f) # bs1"
      by (auto simp: b split: if_splits)
    show ?thesis
    proof (cases "has_room bs m")
      case True
      from Cons.IH [OF ff this] show ?thesis unfolding bs' has_room_def by auto
    next
      case False
      with Cons.prems(2) show ?thesis by (auto simp: b bs')
    qed
  qed
qed simp

lemma merge_next_room:
  assumes "has_room ((l, f) # bs) n"
  shows "has_room (merge_next l bs) n"
proof (cases "(l, bs)" rule: merge_next.cases)
  case (1 l0 l' bs0)
  with assms show ?thesis by auto
qed (use assms in auto)

lemma free_block_room: "has_room bs n \<Longrightarrow> has_room (free_block q p bs) n"
proof (induction bs arbitrary: p)
  case (Cons b bs)
  obtain l f where b: "b = (l, f)" by (cases b)
  show ?case
  proof (cases "p = q")
    case True
    with Cons.prems merge_next_room show ?thesis by (simp add: b)
  next
    case False
    show ?thesis
    proof (cases "has_room bs n")
      case True
      from Cons.IH [OF this, of "p + 4 + l"] False show ?thesis by (auto simp: b)
    next
      case no: False
      with Cons.prems False show ?thesis by (auto simp: b)
    qed
  qed
qed simp

text \<open>The block list of a heap is unique.\<close>

lemma km_hdr_inj:
  assumes "km_hdr (word_of_nat a) f = km_hdr (word_of_nat b) g" and "a < 2 ^ 31" "b < 2 ^ 31"
  shows "a = b \<and> f = g"
proof -
  define m where "m = wr32 (\<lambda>_. 0) (word_of_nat 0) (km_hdr (word_of_nat a) f)"
  have r: "rd32 m (word_of_nat 0) = km_hdr (word_of_nat a) f" "rd32 m (word_of_nat 0) = km_hdr (word_of_nat b) g"
    using assms(1) by (simp_all add: m_def)
  from KM_read [OF r(1) assms(2)] KM_read [OF r(2) assms(3)]
  have "(word_of_nat a :: u32) = word_of_nat b" and "f = g" by simp_all
  with assms(2,3) show ?thesis using word_of_nat_eq_small [of a b] by simp
qed

lemma blocks_at_unique: "blocks_at m p bs e \<Longrightarrow> blocks_at m p bs' e \<Longrightarrow> e - p < 2 ^ 31 \<Longrightarrow> bs' = bs"
proof (induction bs arbitrary: p bs')
  case Nil
  then show ?case by (cases bs') auto
next
  case (Cons b bs)
  obtain l f where b: "b = (l, f)" by (cases b)
  from Cons.prems b obtain l' f' bs1 where bs': "bs' = (l', f') # bs1"
    by (cases bs') auto
  have "l' = l \<and> f' = f" using Cons.prems by (intro km_hdr_inj) (auto simp: b bs')
  with Cons show ?case by (auto simp: b bs')
qed

lemma heap_wf_unique: "heap_wf k bs \<Longrightarrow> heap_wf k bs' \<Longrightarrow> bs' = bs"
  unfolding heap_wf_def by (auto intro: blocks_at_unique)

subsection \<open>Allocation with room\<close>

lemma safe_byte_regions:
  "safe_byte k bs x \<Longrightarrow> heap_base k' = heap_base k \<Longrightarrow> heap_size k' = heap_size k \<Longrightarrow> rgn k bs \<subseteq> rgn k' bs'
    \<Longrightarrow> safe_byte k' bs' x"
  unfolding safe_byte_def by (auto dest: subsetD)

lemma alloc_room:
  assumes p: "pend F s bs P" and room: "has_room bs m" and n: "0 < unat n" "j + unat n + 23 \<le> m" "m < 2 ^ 31"
  obtains r k bs' where "kmalloc (kh s) n = Some (r, k)" "r \<noteq> 0"
    "pend F (s\<lparr>kh := k\<rparr>) bs' ((r, unat n) # P)" "has_room bs' j"
    "heap_base k = heap_base (kh s)" "heap_size k = heap_size (kh s)"
    "rgn (kh s) bs = without {r} (rgn k bs')"
    "\<And>x. safe_byte (kh s) bs x \<Longrightarrow> hmem k x = vmem s x \<and> safe_byte k bs' x \<and> unat n \<le> unat (x - r)"
    "\<And>x. unat (x - r) < unat n \<Longrightarrow> safe_byte k bs' x"
proof -
  note wf = pendD(1) [OF p]
  have n2: "unat n + 3 < 2 ^ 32" using n by simp
  have al: "unat (KM_ALIGN n) \<le> unat n + 3" "0 < unat (KM_ALIGN n)" using KM_ALIGN_ge [OF n2] n by simp_all
  have "has_room bs (unat (KM_ALIGN n))" using room al n by (intro has_room_mono [OF room]) simp
  from first_fit_some [OF this al(2), of "unat (heap_base (kh s))"] obtain q bs1 where
    ff: "first_fit (unat (KM_ALIGN n)) (unat (heap_base (kh s))) bs = Some (q, bs1)" by auto
  with kmalloc_run [OF wf n(1)] obtain m' l where run: "kmalloc (kh s) n = Some (word_of_nat (q + 4), (kh s)\<lparr>hmem := m'\<rparr>)"
    and wf1: "heap_wf ((kh s)\<lparr>hmem := m'\<rparr>) bs1" and q: "(q, l, True) \<in> set (spans (unat (heap_base (kh s))) bs)" by auto
  define r k where "r = (word_of_nat (q + 4) :: addr)" and "k = (kh s)\<lparr>hmem := m'\<rparr>"
  have r0: "r \<noteq> 0" unfolding r_def by (rule heap_wf_span(4) [OF wf q])
  note run' = run [folded r_def k_def]
  from pend_alloc [OF p n(1) n2 run' r0] obtain bs' l' where
    pa: "pend F (s\<lparr>kh := k\<rparr>) bs' ((r, unat n) # P)" and l': "unat n \<le> l'" "unat r + l' < 2 ^ 32"
    and mem: "(unat r, l') \<in> rgn k bs'" and R: "rgn (kh s) bs = without {r} (rgn k bs')"
    and dj: "\<forall>(a, i) \<in> rgn (kh s) bs. a + i + 4 \<le> unat r \<or> unat r + l' + 4 \<le> a" by blast
  have wfk: "heap_wf k bs'" using pendD(1) [OF pa] by simp
  have "bs' = bs1" using heap_wf_unique [OF wf1 [folded k_def] wfk] .
  with first_fit_room [OF ff room] have "has_room bs' (m - unat (KM_ALIGN n) - 20)" by simp
  then have room': "has_room bs' j" by (rule has_room_mono) (use al n(2) in simp)
  note base = kmalloc_base [OF run', THEN conjunct1] kmalloc_base [OF run', THEN conjunct2]
  have sub: "rgn (kh s) bs \<subseteq> rgn k bs'" unfolding R by (rule without_subset)
  have rr: "unat (heap_base (kh s)) + 4 \<le> unat r \<and> unat r + l' \<le> unat (heap_base (kh s)) + unat (heap_size (kh s))"
  proof -
    from mem obtain q' where "unat r = q' + 4" "(q', l', False) \<in> set (spans (unat (heap_base k)) bs')"
      by (auto simp: live_def)
    with heap_span_range [OF wfk this(2)] base show ?thesis by simp
  qed
  show ?thesis
  proof (rule that [OF run' r0 pa room' base R])
    fix x assume x: "safe_byte (kh s) bs x"
    have "unat x < unat r \<or> unat r + unat n \<le> unat x"
      using x dj rr l'(1) unfolding safe_byte_def by fastforce
    then have "unat n \<le> unat (x - r)" by (rule unat_diff_ge) (use l' in simp)
    then show "hmem k x = vmem s x \<and> safe_byte k bs' x \<and> unat n \<le> unat (x - r)"
      using kmalloc_keeps_byte [OF wf n(1) n2 run' x] safe_byte_regions [OF x base sub] by blast
  next
    fix x assume x: "unat (x - r) < unat n"
    have "unat r \<le> unat x \<and> unat x < unat r + unat n"
    proof (rule ccontr)
      assume "\<not> ?thesis"
      then have "unat n \<le> unat (x - r)" by (intro unat_diff_ge) (use l' in auto)
      with x show False by simp
    qed
    with mem l'(1) show "safe_byte k bs' x" unfolding safe_byte_def by fastforce
  qed
qed

lemma free_room:
  assumes p: "pend F s bs ((a, n) # P)" and room: "has_room bs m"
  obtains bs' where "pend F (s\<lparr>kh := kfree (kh s) a\<rparr>) bs' P" "has_room bs' m"
    "rgn (kfree (kh s) a) bs' = without {a} (rgn (kh s) bs)"
    "\<And>x. safe_byte (kfree (kh s) a) bs' x \<Longrightarrow> hmem (kfree (kh s) a) x = vmem s x"
proof -
  note wf = pendD(1) [OF p]
  from pendD(3) [OF p, of "(a, n)"] obtain l where l: "(unat a, l) \<in> rgn (kh s) bs" by (auto simp: holds_def)
  then obtain q where q: "unat a = q + 4" "(q, l, False) \<in> set (spans (unat (heap_base (kh s))) bs)"
    by (auto simp: live_def)
  have qa: "a = word_of_nat (q + 4)" using q(1) by (metis of_nat_unat ucast_id)
  from pend_free [OF p] obtain bs' where p': "pend F (s\<lparr>kh := kfree (kh s) a\<rparr>) bs' P"
    and R: "rgn (kfree (kh s) a) bs' = without {a} (rgn (kh s) bs)"
    and keep: "\<forall>x. unat x + 4 < unat a \<or> unat a \<le> unat x \<longrightarrow> hmem (kfree (kh s) a) x = vmem s x" by blast
  have wfk: "heap_wf (kfree (kh s) a) bs'" using pendD(1) [OF p'] by simp
  from kfree_refines(1) [OF wf q(2)] have "heap_wf (kfree (kh s) a) (free_block q (unat (heap_base (kh s))) bs)"
    unfolding qa .
  from heap_wf_unique [OF wfk this] have bs': "bs' = free_block q (unat (heap_base (kh s))) bs" ..
  show ?thesis
  proof (rule that [OF p' _ R])
    show "has_room bs' m" unfolding bs' using room by (rule free_block_room)
    fix x assume x: "safe_byte (kfree (kh s) a) bs' x"
    have "rgn (kfree (kh s) a) bs' \<subseteq> rgn (kh s) bs" unfolding R by (rule without_subset)
    from safe_byte_regions [OF x _ _ this] have sx: "safe_byte (kh s) bs x" by simp
    have "\<not> (q \<le> unat x \<and> unat x < q + 4)" using safe_byte_no_header [OF wf q(2)] sx by blast
    with q(1) have "unat x < q \<or> unat a \<le> unat x" by auto
    with q(1) keep show "hmem (kfree (kh s) a) x = vmem s x" by auto
  qed
qed

definition kept :: "kheap \<Rightarrow> block list \<Rightarrow> kheap \<Rightarrow> block list \<Rightarrow> bool" where
  "kept k bs k' bs' \<longleftrightarrow> heap_base k' = heap_base k \<and> heap_size k' = heap_size k
     \<and> (\<forall>x. safe_byte k bs x \<longrightarrow> hmem k' x = hmem k x \<and> safe_byte k' bs' x)"

lemma kept_trans: "kept k bs k1 bs1 \<Longrightarrow> kept k1 bs1 k2 bs2 \<Longrightarrow> kept k bs k2 bs2"
  by (simp add: kept_def)

lemma kept_str: "kept k bs k' bs' \<Longrightarrow> safe_str k bs a t \<Longrightarrow> safe_str k' bs' a t"
proof -
  assume k: "kept k bs k' bs'" and a: "safe_str k bs a t"
  have "cstr (hmem k') a t = cstr (hmem k) a t"
    using k a by (intro cstr_cong) (simp add: kept_def safe_str_def)
  with k a show ?thesis by (simp add: kept_def safe_str_def)
qed

text \<open>Writing the start of a fresh block keeps the room and the bytes outside it.\<close>

lemma fill_block:
  assumes p: "pend F (s\<lparr>kh := k\<rparr>) bs ((r, n) # P)"
    and fr: "\<And>x. n \<le> unat (x - r) \<Longrightarrow> m' x = hmem k x"
  shows "pend F (s\<lparr>kh := k\<lparr>hmem := m'\<rparr>\<rparr>) bs ((r, n) # P)"
proof -
  from pendD(3) [OF p, of "(r, n)"] obtain l where l: "n \<le> l" "(unat r, l) \<in> rgn k bs" by (auto simp: holds_def)
  have "unat r + l < 2 ^ 32" using live_bound(1) [OF _ l(2)] pendD(1) [OF p] by simp
  from pend_data_write [OF p l(2) this] fr l(1) show ?thesis by simp
qed

lemma strdup_room:
  assumes p: "pend F s bs P" and room: "has_room bs m" and t: "safe_str (kh s) bs a t"
    and m: "j + length t + 24 \<le> m" "m < 2 ^ 31"
  obtains r k bs' where "strdup (kh s) a = Some (r, k)" "r \<noteq> 0" "pend F (s\<lparr>kh := k\<rparr>) bs' ((r, 1) # P)"
    "has_room bs' j" "kept (kh s) bs k bs'" "rgn (kh s) bs = without {r} (rgn k bs')"
proof -
  define n :: u32 where "n = word_of_nat (length t) + 1"
  have un: "unat n = length t + 1" unfolding n_def using m unat_of_nat32 [of "length t + 1"] by (simp add: add.commute)
  have c: "cstr (vmem s) a t" using t by (simp add: safe_str_def)
  have n: "0 < unat n" "j + unat n + 23 \<le> m" using un m by simp_all
  from alloc_room [OF p room n m(2)] obtain r k bs' where al: "kmalloc (kh s) n = Some (r, k)" "r \<noteq> 0"
    and p1: "pend F (s\<lparr>kh := k\<rparr>) bs' ((r, unat n) # P)" and room': "has_room bs' j"
    and base: "heap_base k = heap_base (kh s)" "heap_size k = heap_size (kh s)"
    and R: "rgn (kh s) bs = without {r} (rgn k bs')"
    and keep: "\<And>x. safe_byte (kh s) bs x \<Longrightarrow> hmem k x = vmem s x \<and> safe_byte k bs' x \<and> unat n \<le> unat (x - r)"
    by metis
  define k' where "k' = k\<lparr>hmem := copy_up (hmem k) r a (unat n)\<rparr>"
  have fr: "copy_up (hmem k) r a (unat n) x = hmem k x" if "unat n \<le> unat (x - r)" for x
    using that by (intro copy_up_frame) simp_all
  have "strdup (kh s) a = Some (r, k')"
    using al by (simp add: strdup_def strlen_cstr [OF c] n_def memcpy_def k'_def)
  moreover have "pend F (s\<lparr>kh := k'\<rparr>) bs' ((r, unat n) # P)" unfolding k'_def by (rule fill_block [OF p1 fr])
  then have "pend F (s\<lparr>kh := k'\<rparr>) bs' ((r, 1) # P)" by (rule pend_smaller) (use un in simp)
  moreover have "kept (kh s) bs k' bs'" using base keep fr by (auto simp: kept_def k'_def safe_byte_def)
  moreover have "rgn k' bs' = rgn k bs'" by (simp add: k'_def)
  ultimately show ?thesis using that [of r k' bs'] al(2) R room' by metis
qed

text \<open>
  The volume does not hold the name \<open>t\<close>. \<open>V\<close> are states of the volume in which f_open of that name fails
  (no such file or directory) wherever the name is in memory, and a failing f_open leaves the volume
  in such a state. The handler of vfs_open tries FatFs first and leaves no trace in the heap.
\<close>

definition fat_refuses :: "('f, 'd) fatfs \<Rightarrow> u8 list \<Rightarrow> u32 \<Rightarrow> 'd set \<Rightarrow> bool" where
  "fat_refuses F t flags V \<longleftrightarrow>
     (\<forall>d \<in> V. \<forall>m path. cstr m path t \<longrightarrow> (\<exists>d' \<in> V. ff_open F m path (fat_mode flags) d = (None, d')))"

lemma fat_open_refuses:
  assumes p: "pend F s bs P" and room: "has_room bs m" and F: "fil_size_ok F" "j + unat (ff_fil_size F) + 23 \<le> m" "m < 2 ^ 31"
    and no: "fat_refuses F t flags V" "disk s \<in> V" and t: "safe_str (kh s) bs path t"
  obtains k bs' d where "d \<in> V" "fat_open F s file path flags = Some (minus1, s\<lparr>kh := k, disk := d\<rparr>)"
    "pend F (s\<lparr>kh := k, disk := d\<rparr>) bs' P" "has_room bs' j"
    "kept (kh s) bs k bs'" "rgn k bs' = rgn (kh s) bs"
proof -
  have n: "0 < unat (ff_fil_size F)" using F(1) by (simp add: fil_size_ok_def)
  from alloc_room [OF p room n F(2,3)] obtain r k bs1 where al: "kmalloc (kh s) (ff_fil_size F) = Some (r, k)" "r \<noteq> 0"
    and p1: "pend F (s\<lparr>kh := k\<rparr>) bs1 ((r, unat (ff_fil_size F)) # P)"
    and room1: "has_room bs1 j"
    and base: "heap_base k = heap_base (kh s)" "heap_size k = heap_size (kh s)"
    and R: "rgn (kh s) bs = without {r} (rgn k bs1)"
    and keep: "\<And>x. safe_byte (kh s) bs x \<Longrightarrow> hmem k x = vmem s x \<and> safe_byte k bs1 x \<and> unat (ff_fil_size F) \<le> unat (x - r)"
    by metis
  from free_room [OF p1 room1] obtain bs2 where p2: "pend F (s\<lparr>kh := kfree k r\<rparr>) bs2 P"
    and room2: "has_room bs2 j"
    and R2: "rgn (kfree k r) bs2 = without {r} (rgn k bs1)"
    and keep2: "\<And>x. safe_byte (kfree k r) bs2 x \<Longrightarrow> hmem (kfree k r) x = hmem k x" by auto
  have "kept (kh s) bs k bs1" using base keep by (simp add: kept_def)
  from kept_str [OF this t] have "cstr (hmem k) path t" by (simp add: safe_str_def)
  with no obtain d where op: "d \<in> V" "ff_open F (hmem k) path (fat_mode flags) (disk s) = (None, d)"
    unfolding fat_refuses_def by blast
  have "fat_open F s file path flags = Some (minus1, s\<lparr>kh := kfree k r, disk := d\<rparr>)"
    using al op by (simp add: fat_open_def)
  moreover have "pend F (s\<lparr>kh := kfree k r, disk := d\<rparr>) bs2 P" by (rule pend_store [OF p2]) simp_all
  moreover have same: "rgn (kfree k r) bs2 = rgn (kh s) bs" using R R2 by simp
  moreover have "kept (kh s) bs (kfree k r) bs2"
  proof -
    have "safe_byte (kfree k r) bs2 x" if "safe_byte (kh s) bs x" for x
      using safe_byte_regions [OF that, of "kfree k r" bs2] base same by simp
    with base keep keep2 show ?thesis by (simp add: kept_def)
  qed
  ultimately show ?thesis using that op(1) room2 by blast
qed

subsection \<open>Reaching the driver\<close>

lemma cstr_unique: "cstr m a s \<Longrightarrow> cstr m a t \<Longrightarrow> s = t"
proof (induction s arbitrary: a t)
  case Nil
  then show ?case by (cases t) auto
next
  case (Cons c s)
  then show ?case by (cases t) auto
qed

lemma try_drivers_pick:
  assumes "(p, d) \<in> set ds" and "distinct (map (bytes_of \<circ> fst) ds)" and "cstr (vmem s) path (bytes_of p)"
    and "d s a = Some (0, s3)" and "alloc_scan (fd_table s3) 3 253 = Some i"
  shows "try_drivers s a path ds
    = Some (word_of_nat i, s3\<lparr>fd_table := (fd_table s3)(i := a), fd_count := fd_count s3 + 1\<rparr>)"
  using assms(1,2)
proof (induction ds)
  case (Cons e ds)
  have i: "i < 256" using alloc_scan_Some [OF assms(5)] by simp
  show ?case
  proof (cases "e = (p, d)")
    case True
    with assms(3-5) sint_fd [OF i] show ?thesis by (simp add: allocate_fd_def del: fun_upd_apply)
  next
    case False
    with Cons.prems(1) have mem: "(p, d) \<in> set ds" by simp
    with Cons.prems(2) have "bytes_of (fst e) \<noteq> bytes_of p" by (force simp: image_iff)
    with cstr_unique [OF assms(3)] have "\<not> cstr (vmem s) path (bytes_of (fst e))" by metis
    with Cons.IH mem Cons.prems(2) show ?thesis by simp
  qed
qed simp

lemma driver_paths_distinct: "distinct (map (bytes_of \<circ> fst) drivers)"
  by (simp add: drivers_def bytes_of_def of_char_def)

lemma open_reaches_driver:
  fixes F :: "('f, 'd) fatfs"
  assumes wf: "vfs_wf F s bs" and F: "fil_size_ok F" and t: "safe_str (kh s) bs path (bytes_of p)"
    and d: "(p, d) \<in> set drivers" and no: "fat_refuses F (bytes_of p) flags V" "disk s \<in> V"
    and room: "has_room bs (length p + unat (ff_fil_size F) + 114 + M)" "length p + unat (ff_fil_size F) + 114 + M < 2 ^ 31"
  obtains a name k dk s2 bs2 where "dk \<in> V" "s2 = s\<lparr>kh := k, files := (files s)(a := zero_file\<lparr>fname := name\<rparr>), disk := dk\<rparr>"
    "pend F s2 bs2 (fresh_blocks s2 a)" "a \<noteq> 0" "has_room bs2 M" "kept (kh s) bs k bs2"
    "\<And>s3 i. d s2 a = Some (0, s3) \<Longrightarrow> alloc_scan (fd_table s3) 3 253 = Some i \<Longrightarrow>
       vfs_open F s path flags = Some (word_of_nat i, s3\<lparr>fd_table := (fd_table s3)(i := a), fd_count := fd_count s3 + 1\<rparr>)"
proof -
  define fl where "fl = unat (ff_fil_size F)"
  have lim: "length p + fl + 47 + M + unat (44 :: u32) + 23 \<le> length p + unat (ff_fil_size F) + 114 + M"
    by (simp add: fl_def)
  obtain a k bs1 where al: "kmalloc (kh s) 44 = Some (a, k)" "a \<noteq> 0" and p1: "pend F (s\<lparr>kh := k\<rparr>) bs1 [(a, 44)]"
    and room1: "has_room bs1 (length p + fl + 47 + M)" and k1: "kept (kh s) bs k bs1"
    by (rule alloc_room [OF wf room(1) _ lim room(2)]) (simp_all add: kept_def)
  define s0 where "s0 = s\<lparr>kh := k, files := (files s)(a := zero_file)\<rparr>"
  have p0: "pend F s0 bs1 [(a, 44)]" by (rule pend_store [OF p1]) (auto simp: s0_def)
  have t1: "safe_str (kh s0) bs1 path (bytes_of p)" using kept_str [OF k1 t] by (simp add: s0_def)
  have lim1: "fl + 23 + M + length (bytes_of p) + 24 \<le> length p + fl + 47 + M" "length p + fl + 47 + M < 2 ^ 31"
    using room(2) by (simp_all add: fl_def)
  obtain name k2 bs2 where sd: "strdup k path = Some (name, k2)" "name \<noteq> 0"
    and p2: "pend F (s0\<lparr>kh := k2\<rparr>) bs2 [(name, 1), (a, 44)]" and room2: "has_room bs2 (fl + 23 + M)" and k2: "kept k bs1 k2 bs2"
    by (rule strdup_room [OF p0 room1 t1 lim1]) (simp_all add: s0_def)
  define s1 where "s1 = s\<lparr>kh := k2, files := (files s)(a := zero_file\<lparr>fname := name\<rparr>)\<rparr>"
  have p3: "pend F s1 bs2 [(name, 1), (a, 44)]" by (rule pend_store [OF p2]) (auto simp: s1_def s0_def)
  have lim2: "M + unat (ff_fil_size F) + 23 \<le> fl + 23 + M" "fl + 23 + M < 2 ^ 31"
    using room(2) by (simp_all add: fl_def)
  have t2: "safe_str (kh s1) bs2 path (bytes_of p)" using kept_str [OF kept_trans [OF k1 k2] t] by (simp add: s1_def)
  have nd: "disk s1 \<in> V" using no(2) by (simp add: s1_def)
  obtain k3 bs3 dk where dk: "dk \<in> V" and fo: "fat_open F s1 a path flags = Some (minus1, s1\<lparr>kh := k3, disk := dk\<rparr>)"
    and p4: "pend F (s1\<lparr>kh := k3, disk := dk\<rparr>) bs3 [(name, 1), (a, 44)]" and room3: "has_room bs3 M"
    and k3: "kept k2 bs2 k3 bs3"
    by (rule fat_open_refuses [OF p3 room2 F lim2 no(1) nd t2, of a]) (simp_all add: s1_def)
  define s2 where "s2 = s\<lparr>kh := k3, files := (files s)(a := zero_file\<lparr>fname := name\<rparr>), disk := dk\<rparr>"
  have s2: "s2 = s1\<lparr>kh := k3, disk := dk\<rparr>" by (simp add: s2_def s1_def)
  have kept: "kept (kh s) bs k3 bs3" using k1 k2 k3 kept_trans by blast
  have c: "cstr (vmem s2) path (bytes_of p)" using kept_str [OF kept t] by (simp add: s2_def safe_str_def)
  have fb: "fresh_blocks s2 a = [(name, 1), (a, 44)]" using sd(2) by (simp add: s2_def name_blocks_def)
  show ?thesis
  proof (rule that [OF dk s2_def])
    fix s3 i assume s3: "d s2 a = Some (0, s3)" "alloc_scan (fd_table s3) 3 253 = Some i"
    have u: "upd_file (s\<lparr>files := (files s)(a := zero_file), kh := k2\<rparr>) a (fname_update (\<lambda>_. name)) = s1"
      by (simp add: s1_def upd_file_def zero_file_def)
    show "vfs_open F s path flags = Some (word_of_nat i, s3\<lparr>fd_table := (fd_table s3)(i := a), fd_count := fd_count s3 + 1\<rparr>)"
      using al sd(1) fo try_drivers_pick [OF d driver_paths_distinct c s3] unfolding s2
      by (simp add: vfs_open_def Let_def u)
  qed (use p4 room3 kept al(2) fb s2 s2_def in simp_all)
qed

subsection \<open>The /proc files\<close>

text \<open>Descriptor \<open>fd\<close> is open on a /proc file with text \<open>t\<close>, at position \<open>pos\<close>.\<close>

definition proc_file :: "('f, 'd) vfs \<Rightarrow> u32 \<Rightarrow> u8 list \<Rightarrow> nat \<Rightarrow> bool" where
  "proc_file s fd t pos \<longleftrightarrow>
     (let a = get_file_from_fd s fd; f = files s a; d = procs s (private_data f)
      in a \<noteq> 0 \<and> f_read f = Some Proc \<and> f_lseek f = Some Proc \<and> private_data f \<noteq> 0
        \<and> pd_size d = word_of_nat (length t) \<and> pd_position d = word_of_nat pos \<and> pos \<le> length t
        \<and> length t < 2 ^ 31 \<and> rd_bytes (vmem s) (pd_data d) (length t) = t)"

definition proc_text_addr :: "('f, 'd) vfs \<Rightarrow> u32 \<Rightarrow> addr" where
  "proc_text_addr s fd = pd_data (procs s (private_data (files s (get_file_from_fd s fd))))"

lemma rd_bytes_shift:
  assumes "rd_bytes m a (length t) = t" and "pos + n \<le> length t"
  shows "rd_bytes m (a + word_of_nat pos) n = take n (drop pos t)"
proof (rule nth_equalityI)
  show "length (rd_bytes m (a + word_of_nat pos) n) = length (take n (drop pos t))" using assms(2) by simp
  fix i assume "i < length (rd_bytes m (a + word_of_nat pos) n)"
  then have i: "i < n" by simp
  have "t ! (pos + i) = rd_bytes m a (length t) ! (pos + i)" using assms(1) by simp
  also have "\<dots> = m (a + word_of_nat (pos + i))" using i assms(2) by (intro nth_rd_bytes) simp
  finally show "rd_bytes m (a + word_of_nat pos) n ! i = take n (drop pos t) ! i"
    using i assms(2) by (simp add: add.assoc)
qed

lemma of_nat_plus32: "(word_of_nat a :: u32) + word_of_nat b = word_of_nat (a + b)"
  by simp

lemma no_overlap_sub:
  assumes "no_overlap a n b k" and "n' \<le> n" and "pos + k' \<le> k"
  shows "no_overlap a n' (b + word_of_nat pos) k'"
  unfolding no_overlap_def
proof (intro allI impI)
  fix i j assume "i < n'" "j < k'"
  then have "a + word_of_nat i \<noteq> b + word_of_nat (pos + j)"
    using assms by (intro assms(1) [unfolded no_overlap_def, rule_format]) simp_all
  then show "a + word_of_nat i \<noteq> b + word_of_nat pos + word_of_nat j" by (simp add: add.assoc)
qed

lemma no_overlap_far: "no_overlap a n b k \<Longrightarrow> j < k \<Longrightarrow> n \<le> unat (b + word_of_nat j - a)"
proof (rule ccontr)
  assume ap: "no_overlap a n b k" "j < k" and "\<not> n \<le> unat (b + word_of_nat j - a)"
  then have "a + word_of_nat (unat (b + word_of_nat j - a)) \<noteq> b + word_of_nat j"
    by (intro ap(1) [unfolded no_overlap_def, rule_format]) simp_all
  then show False by (simp only: of_nat_unat ucast_id) simp
qed

lemma rd_wr_far:
  assumes "no_overlap a (length bs) b k"
  shows "rd_bytes (wr_bytes m a bs) b k = rd_bytes m b k"
  using no_overlap_far [OF assms] by (intro rd_bytes_cong wr_bytes_other)

lemma copy_apart:
  assumes "no_overlap d n src n" and "n < 2 ^ 32"
  shows "copy_up m d src n = wr_bytes m d (rd_bytes m src n)"
proof (rule copy_up_eq)
  have "n \<le> unat (d - src)"
  proof (rule ccontr)
    assume c: "\<not> n \<le> unat (d - src)"
    then have "d + word_of_nat 0 \<noteq> src + word_of_nat (unat (d - src))"
      by (intro assms(1) [unfolded no_overlap_def, rule_format]) simp_all
    then show False by (simp only: of_nat_unat ucast_id) simp
  qed
  then show "d = src \<or> n \<le> unat (d - src)" ..
qed (use assms(2) in simp)

lemma proc_read_chunk:
  fixes buf :: addr
  assumes pf: "proc_file s fd t pos" and ap: "no_overlap buf (unat sz) (proc_text_addr s fd) (length t)"
  defines "n \<equiv> min (unat sz) (length t - pos)"
  shows "\<exists>s'. vfs_read F s fd buf sz = Some (word_of_nat n, s')
    \<and> rd_bytes (vmem s') buf n = take n (drop pos t) \<and> proc_file s' fd t (pos + n)
    \<and> proc_text_addr s' fd = proc_text_addr s fd"
proof -
  define a where "a = get_file_from_fd s fd"
  define b where "b = private_data (files s a)"
  define d where "d = procs s b"
  note P = pf [unfolded proc_file_def Let_def, folded a_def, folded b_def, folded d_def]
  have len: "length t < 2 ^ 31" and pos: "pos \<le> length t" using P by simp_all
  have av: "pd_size d - pd_position d = word_of_nat (length t - pos)" using P pos by (simp add: of_nat_diff)
  have uav: "unat (word_of_nat (length t - pos) :: u32) = length t - pos" using len by (intro unat_of_nat32) simp
  define k where "k = (if sz < pd_size d - pd_position d then sz else pd_size d - pd_position d)"
  have uk: "unat k = n" unfolding k_def av n_def by (simp add: word_less_nat_alt uav min_def)
  then have k: "k = word_of_nat n" by (metis of_nat_unat ucast_id)
  have n: "n \<le> unat sz" "pos + n \<le> length t" using pos by (simp_all add: n_def)
  have rd: "vfs_read F s fd buf sz = Some (proc_read s a buf sz)"
    using P by (simp add: vfs_read_def a_def [symmetric] call_read_def)
  have b0: "private_data (files s a) \<noteq> 0" "d = procs s (private_data (files s a))" using P by (simp_all add: b_def d_def)
  note eq = proc_read_eq [OF b0 k_def, of buf]
  show ?thesis
  proof (cases "k = 0")
    case True
    then have "n = 0" using uk by simp
    with rd eq True pf show ?thesis by (intro exI [of _ s]) simp
  next
    case False
    define m where "m = wr_bytes (vmem s) buf (take n (drop pos t))"
    have T: "proc_text_addr s fd = pd_data d" by (simp add: proc_text_addr_def a_def b_def d_def)
    have src: "rd_bytes (vmem s) (pd_data d + pd_position d) n = take n (drop pos t)"
      using P rd_bytes_shift [of "vmem s" "pd_data d" t pos n] n(2) by simp
    have n32: "n < 2 ^ 32" using n(2) len by simp
    have "no_overlap buf n (pd_data d + pd_position d) n"
      using no_overlap_sub [OF ap n] P unfolding T by simp
    from copy_apart [OF this n32] have cp: "snd (memcpy (vmem s) buf (pd_data d + pd_position d) k) = m"
      using src by (simp add: memcpy_def uk m_def)
    define s' where "s' = upd_file (set_mem s m\<lparr>procs := (procs s)(b := d\<lparr>pd_position := pd_position d + k\<rparr>)\<rparr>) a
          (\<lambda>f. f\<lparr>position := pd_position d + k\<rparr>)"
    have res: "proc_read s a buf sz = (k, s')" using eq False cp by (simp add: s'_def b_def)
    have lt: "length (take n (drop pos t)) = n" using n(2) by simp
    have m_buf: "rd_bytes m buf n = take n (drop pos t)"
      using rd_wr_bytes [of "take n (drop pos t)" "vmem s" buf] n(1) lt len n(2) by (simp add: m_def)
    have "no_overlap buf n (pd_data d) (length t)" using no_overlap_sub [OF ap n(1), of 0 "length t"] unfolding T by simp
    then have m_txt: "rd_bytes m (pd_data d) (length t) = t" using P rd_wr_far [of buf "take n (drop pos t)"] lt
      by (simp add: m_def)
    have fd': "get_file_from_fd s' fd = a" by (simp add: s'_def get_file_from_fd_def a_def)
    have pd': "private_data (files s' a) = b" by (simp add: s'_def b_def)
    have "proc_file s' fd t (pos + n)"
      using P n(2) m_txt unfolding proc_file_def Let_def fd' pd' by (simp add: s'_def k)
    moreover have "proc_text_addr s' fd = pd_data d" unfolding proc_text_addr_def fd' pd' by (simp add: s'_def)
    moreover have "vmem s' = m" by (simp add: s'_def)
    ultimately show ?thesis using rd res m_buf k T by (intro exI [of _ s']) simp
  qed
qed

lemma unat_le_two32: "unat (x :: u32) \<le> 2 ^ 32"
  by simp

text \<open>A buffer outside the heap does not meet a text inside it.\<close>

lemma user_buffer_apart:
  assumes "user_buffer k buf n" and "n \<le> 2 ^ 32" and "unat (heap_base k) \<le> unat a"
    and "unat a + l \<le> unat (heap_base k) + unat (heap_size k)" and "unat (heap_base k) + unat (heap_size k) < 2 ^ 32"
  shows "no_overlap buf n a l"
  unfolding no_overlap_def
proof (intro allI impI)
  fix i j assume i: "i < n" and j: "j < l"
  have "unat (buf + word_of_nat i - buf) < n" using i assms(2) by (simp add: unat_of_nat32)
  then have "unat (buf + word_of_nat i) < unat (heap_base k) \<or> unat (heap_base k) + unat (heap_size k) \<le> unat (buf + word_of_nat i)"
    using assms(1) unfolding user_buffer_def by blast
  moreover have "unat (a + word_of_nat j) = unat a + j" using assms(4,5) j by (intro unat_plus_small) linarith
  ultimately have "unat (buf + word_of_nat i) \<noteq> unat (a + word_of_nat j)" using assms(3,4) j by linarith
  then show "buf + word_of_nat i \<noteq> a + word_of_nat j" by metis
qed

text \<open>Reading with a list of request sizes, each into the same buffer, and gluing what arrives.\<close>

primrec read_chunks :: "('f, 'd) fatfs \<Rightarrow> ('f, 'd) vfs \<Rightarrow> u32 \<Rightarrow> addr \<Rightarrow> u32 list \<Rightarrow> (u8 list \<times> ('f, 'd) vfs) option" where
  "read_chunks F s fd buf [] = Some ([], s)"
| "read_chunks F s fd buf (n # ns) =
     (case vfs_read F s fd buf n of None \<Rightarrow> None
      | Some (r, s) \<Rightarrow> map_option (\<lambda>(bs, s'). (rd_bytes (vmem s) buf (unat r) @ bs, s')) (read_chunks F s fd buf ns))"

lemma read_chunks_text:
  "proc_file s fd t pos \<Longrightarrow> \<forall>n \<in> set ns. no_overlap buf (unat n) (proc_text_addr s fd) (length t) \<Longrightarrow>
    \<exists>s'. read_chunks F s fd buf ns = Some (take (sum_list (map unat ns)) (drop pos t), s')
      \<and> proc_file s' fd t (min (pos + sum_list (map unat ns)) (length t))"
proof (induction ns arbitrary: s pos)
  case Nil
  then show ?case by (simp add: proc_file_def Let_def)
next
  case (Cons n ns)
  have len: "length t < 2 ^ 31" "pos \<le> length t" using Cons.prems(1) by (simp_all add: proc_file_def Let_def)
  define k where "k = min (unat n) (length t - pos)"
  from proc_read_chunk [OF Cons.prems(1), of buf n F] Cons.prems(2) obtain s1 where
    rd: "vfs_read F s fd buf n = Some (word_of_nat k, s1)" and b1: "rd_bytes (vmem s1) buf k = take k (drop pos t)"
    and f1: "proc_file s1 fd t (pos + k)" "proc_text_addr s1 fd = proc_text_addr s fd" unfolding k_def by auto
  from Cons.IH [OF f1(1)] Cons.prems(2) f1(2) obtain s2 where
    rest: "read_chunks F s1 fd buf ns = Some (take (sum_list (map unat ns)) (drop (pos + k) t), s2)"
    and f2: "proc_file s2 fd t (min (pos + k + sum_list (map unat ns)) (length t))" by auto
  have uk: "unat (word_of_nat k :: u32) = k" using len by (intro unat_of_nat32) (simp add: k_def)
  have "take k (drop pos t) @ take m (drop (pos + k) t) = take (unat n + m) (drop pos t)" for m
  proof (cases "unat n \<le> length t - pos")
    case True
    then have "k = unat n" by (simp add: k_def)
    then show ?thesis using take_add [of "unat n" m "drop pos t"] by (simp add: add.commute [of "unat n" pos])
  next
    case False
    then show ?thesis using len by (simp add: k_def)
  qed
  moreover have "min (pos + k + m) (length t) = min (pos + unat n + m) (length t)" for m
    using len unfolding k_def by linarith
  ultimately show ?case using rd rest f2 b1 uk by (intro exI [of _ s2]) (simp add: add.assoc)
qed

lemma proc_lseek_moves:
  assumes pf: "proc_file s fd t pos"
  defines "target \<equiv> (\<lambda>off wh :: u32. if wh = 0 then unat off
      else if wh = 1 then unat (word_of_nat pos + off) else unat (word_of_nat (length t) + off))"
  shows "\<exists>s'. vfs_lseek F s fd off wh = (if wh \<le> 2 then word_of_nat (min (target off wh) (length t)) else minus1, s')
    \<and> proc_file s' fd t (if wh \<le> 2 then min (target off wh) (length t) else pos)"
proof -
  define a where "a = get_file_from_fd s fd"
  define b where "b = private_data (files s a)"
  define d where "d = procs s b"
  note P = pf [unfolded proc_file_def Let_def, folded a_def, folded b_def, folded d_def]
  have len: "length t < 2 ^ 31" using P by simp
  have sk: "vfs_lseek F s fd off wh = proc_lseek s a off wh"
    using P by (simp add: vfs_lseek_def a_def [symmetric] call_lseek_def)
  show ?thesis
  proof (cases "wh \<le> 2")
    case False
    then have "proc_lseek s a off wh = (minus1, s)" unfolding proc_lseek_def Let_def by (auto simp: not_le)
    with False sk pf show ?thesis by (intro exI [of _ s]) simp
  next
    case True
    define np where "np = (if wh = 0 then off else if wh = 1 then pd_position d + off else pd_size d + off)"
    define q where "q = (if np > pd_size d then pd_size d else np)"
    have uq: "unat q = min (target off wh) (length t)"
    proof -
      have "unat np = target off wh" unfolding np_def target_def using P by simp
      moreover have "unat (pd_size d) = length t" using P len unat_of_nat32 [of "length t"] by simp
      ultimately show ?thesis by (simp add: q_def word_less_nat_alt)
    qed
    then have q: "q = word_of_nat (min (target off wh) (length t))" by (metis of_nat_unat ucast_id)
    define s' where "s' = upd_file (s\<lparr>procs := (procs s)(b := d\<lparr>pd_position := q\<rparr>)\<rparr>) a (\<lambda>f. f\<lparr>position := q\<rparr>)"
    have "\<not> 2 < wh" using True by (simp add: not_less)
    then have "proc_lseek s a off wh = (q, s')"
      using P unfolding proc_lseek_def Let_def b_def [symmetric] d_def [symmetric] np_def [symmetric]
        q_def [symmetric] s'_def [symmetric] by simp
    moreover have fd': "get_file_from_fd s' fd = a" by (simp add: s'_def get_file_from_fd_def a_def)
    moreover have "proc_file s' fd t (min (target off wh) (length t))"
      unfolding proc_file_def Let_def fd' using P by (simp add: s'_def b_def [symmetric] q)
    ultimately show ?thesis using sk q True by (intro exI [of _ s']) simp
  qed
qed

subsection \<open>Opening a /proc file\<close>

definition proc_texts :: "('f, 'd) vfs \<Rightarrow> (string \<times> u8 list) list" where
  "proc_texts s = [(''/proc/meminfo'', meminfo_text), (''/proc/cpuinfo'', cpuinfo_text),
     (''/proc/uptime'', uptime_text (uptime s + 10))]"

lemma proc_open_room:
  fixes F :: "('f, 'd) fatfs"
  assumes p: "pend F s bs P" and g: "text_source g" "\<And>k. fst (g (s\<lparr>kh := k\<rparr>)) = t"
    and room: "has_room bs (length t + 59)" "length t + 59 < 2 ^ 31"
  obtains s' b where "proc_open s a g = Some (0, s')" "fd_table s' = fd_table s" "fd_count s' = fd_count s"
    "f_read (files s' a) = Some Proc" "f_lseek (files s' a) = Some Proc" "f_write (files s' a) = None"
    "private_data (files s' a) = b" "b \<noteq> 0"
    "pd_size (procs s' b) = word_of_nat (length t)" "pd_position (procs s' b) = 0"
    "rd_bytes (vmem s') (pd_data (procs s' b)) (length t) = t"
    "unat (heap_base (kh s)) \<le> unat (pd_data (procs s' b))"
    "unat (pd_data (procs s' b)) + length t \<le> unat (heap_base (kh s)) + unat (heap_size (kh s))"
    "heap_base (kh s') = heap_base (kh s)" "heap_size (kh s') = heap_size (kh s)"
proof -
  define n :: u32 where "n = word_of_nat (length t) + 1"
  have un: "unat n = length t + 1" unfolding n_def using room(2) unat_of_nat32 [of "length t + 1"] by (simp add: add.commute)
  have lim: "length t + 24 + unat (12 :: u32) + 23 \<le> length t + 59" by simp
  obtain data k1 bs1 where al: "kmalloc (kh s) 12 = Some (data, k1)" "data \<noteq> 0"
    and p1: "pend F (s\<lparr>kh := k1\<rparr>) bs1 ((data, unat (12 :: u32)) # P)" and room1: "has_room bs1 (length t + 24)"
    and base1: "heap_base k1 = heap_base (kh s)" "heap_size k1 = heap_size (kh s)"
    by (rule alloc_room [OF p room(1) _ lim room(2)]) simp_all
  have n: "0 < unat n" "0 + unat n + 23 \<le> length t + 24" "length t + 24 < 2 ^ 31" using un room(2) by simp_all
  obtain r k2 bs2 where al2: "kmalloc k1 n = Some (r, k2)" "r \<noteq> 0"
    and p2: "pend F (s\<lparr>kh := k2\<rparr>) bs2 ((r, unat n) # (data, unat (12 :: u32)) # P)"
    and base2: "heap_base k2 = heap_base k1" "heap_size k2 = heap_size k1"
    by (rule alloc_room [OF p1 room1 n]) simp_all
  define k3 where "k3 = k2\<lparr>hmem := wr_bytes (hmem k2) r (t @ [0])\<rparr>"
  have dt: "dup_text k1 t = Some (r, k3)" using al2 by (simp add: dup_text_def n_def k3_def)
  obtain u where s1: "snd (g (s\<lparr>kh := k1\<rparr>)) = s\<lparr>kh := k1, uptime := u\<rparr>"
    using g(1) unfolding text_source_def by blast
  define s' where "s' = upd_file (s\<lparr>uptime := u, kh := k3, procs := (procs s)(data :=
        \<lparr>pd_data = r, pd_size = word_of_nat (length t), pd_position = 0\<rparr>)\<rparr>) a
        (set_handlers data (Some Proc) None (Some Proc) None (Some Proc))"
  have gp: "g (s\<lparr>kh := k1\<rparr>) = (t, s\<lparr>kh := k1, uptime := u\<rparr>)" using g(2) [of k1] s1 by (metis prod.collapse)
  have "proc_open s a g = Some (0, s')"
    using al gp dt by (simp add: proc_open_def Let_def s'_def)
  moreover have stored: "rd_bytes (vmem s') r (length t) = t"
  proof -
    have "rd_bytes (vmem s') r (length (t @ [0])) = t @ [0]"
      using rd_wr_bytes [of "t @ [0]" "hmem k2" r] room(2) by (simp add: s'_def k3_def)
    then show ?thesis by (simp add: rd_bytes_snoc)
  qed
  have wf2: "heap_wf k2 bs2" using pendD(1) [OF p2] by simp
  from pendD(3) [OF p2, of "(r, unat n)"] obtain l where l: "unat n \<le> l" "(unat r, l) \<in> rgn k2 bs2"
    by (auto simp: holds_def)
  then obtain q where q: "unat r = q + 4" "(q, l, False) \<in> set (spans (unat (heap_base k2)) bs2)"
    by (auto simp: live_def)
  note rng = heap_span_range [OF wf2 q(2)]
  have lo: "unat (heap_base (kh s)) \<le> unat r" and hi: "unat r + length t \<le> unat (heap_base (kh s)) + unat (heap_size (kh s))"
    using rng q(1) l(1) un base1 base2 by simp_all
  show ?thesis
    by (rule that [of s' data]) (use calculation stored lo hi al(2) base1 base2 in \<open>simp_all add: s'_def k3_def\<close>)
qed

subsection \<open>Opening a device\<close>

lemma alloc_scan_least:
  "i \<le> k \<Longrightarrow> k < i + n \<Longrightarrow> t k = 0 \<Longrightarrow> (\<And>j. i \<le> j \<Longrightarrow> j < k \<Longrightarrow> t j \<noteq> 0) \<Longrightarrow> alloc_scan t i n = Some k"
proof (induction n arbitrary: i)
  case (Suc n)
  show ?case
  proof (cases "i = k")
    case False
    with Suc.prems have "t i \<noteq> 0" and "alloc_scan t (Suc i) n = Some k"
      by (simp_all add: Suc.IH)
    then show ?thesis by simp
  qed (use Suc.prems in simp)
qed simp

lemma alloc_scan_free:
  assumes "3 \<le> i" "i < 256" "t i = 0"
  obtains k where "alloc_scan t 3 253 = Some k" "3 \<le> k" "k \<le> i" "k < 256"
proof -
  obtain k where k: "alloc_scan t 3 253 = Some k"
    using alloc_scan_None [of t 3 253 i] assms by (cases "alloc_scan t 3 253") auto
  from alloc_scan_Some [OF this] assms have "3 \<le> k" "k < 256" "k \<le> i" by (auto intro: leI)
  with k that show ?thesis by blast
qed

definition device_driver :: "(string \<times> driver) list" where
  "device_driver = [(''/dev/tty'', Tty), (''/dev/null'', NullDev), (''/dev/zero'', Zero), (''/dev/serial0'', Serial),
     (''/dev/tty0'', Duart), (''/dev/console'', Duart)]"

lemma device_opener:
  assumes "(p, dv) \<in> set device_driver"
  obtains d where "(p, d) \<in> set drivers"
    "\<And>s a. \<exists>s3. d s a = Some (0, s3) \<and> kh s3 = kh s \<and> fd_table s3 = fd_table s \<and> fd_count s3 = fd_count s
       \<and> (\<forall>b. b \<noteq> a \<longrightarrow> files s3 b = files s b) \<and> f_read (files s3 a) = Some dv \<and> f_write (files s3 a) = Some dv
       \<and> tty_out s3 = tty_out s \<and> disk s3 = disk s"
proof -
  have "\<exists>d. (p, d) \<in> set drivers \<and> (\<forall>s a. \<exists>s3. d s a = Some (0, s3) \<and> kh s3 = kh s \<and> fd_table s3 = fd_table s
      \<and> fd_count s3 = fd_count s \<and> (\<forall>b. b \<noteq> a \<longrightarrow> files s3 b = files s b)
      \<and> f_read (files s3 a) = Some dv \<and> f_write (files s3 a) = Some dv \<and> tty_out s3 = tty_out s \<and> disk s3 = disk s)"
    using assms unfolding device_driver_def
    by (elim set_ConsD [elim_format] disjE) 
      (auto simp: drivers_def tty_open_def null_open_def zero_open_def serial_open_def duartA_open_def duart_init_canal_a_def)
  with that show ?thesis by blast
qed

lemma device_open_room:
  fixes F :: "('f, 'd) fatfs"
  assumes wf: "vfs_wf F s bs" and F: "fil_size_ok F" and t: "safe_str (kh s) bs path (bytes_of p)"
    and d: "(p, dv) \<in> set device_driver" and no: "fat_refuses F (bytes_of p) flags V" "disk s \<in> V"
    and room: "has_room bs (length p + unat (ff_fil_size F) + 114 + M)" "length p + unat (ff_fil_size F) + 114 + M < 2 ^ 31"
    and i: "alloc_scan (fd_table s) 3 253 = Some i"
  shows "\<exists>s' a bs'. vfs_open F s path flags = Some (word_of_nat i, s') \<and> a \<noteq> 0 \<and> fd_table s' = (fd_table s)(i := a)
    \<and> fd_count s' = fd_count s + 1 \<and> vfs_wf F s' bs' \<and> has_room bs' M \<and> kept (kh s) bs (kh s') bs'
    \<and> (\<forall>b. b \<noteq> a \<longrightarrow> files s' b = files s b) \<and> f_read (files s' a) = Some dv \<and> f_write (files s' a) = Some dv
    \<and> tty_out s' = tty_out s \<and> disk s' \<in> V"
proof -
  from device_opener [OF d] obtain op :: "('f, 'd) opener" where op: "(p, op) \<in> set drivers"
    and run: "\<And>s a. \<exists>s3. op s a = Some (0, s3) \<and> kh s3 = kh s \<and> fd_table s3 = fd_table s \<and> fd_count s3 = fd_count s
       \<and> (\<forall>b. b \<noteq> a \<longrightarrow> files s3 b = files s b) \<and> f_read (files s3 a) = Some dv \<and> f_write (files s3 a) = Some dv
       \<and> tty_out s3 = tty_out s \<and> disk s3 = disk s" by blast
  obtain a name k dk s2 bs2 where dk: "dk \<in> V" and s2: "s2 = s\<lparr>kh := k, files := (files s)(a := zero_file\<lparr>fname := name\<rparr>), disk := dk\<rparr>"
    and p2: "pend F s2 bs2 (fresh_blocks s2 a)" and a: "a \<noteq> 0" and room2: "has_room bs2 M" and kp: "kept (kh s) bs k bs2"
    and go: "\<And>s3 i. op s2 a = Some (0, s3) \<Longrightarrow> alloc_scan (fd_table s3) 3 253 = Some i \<Longrightarrow>
       vfs_open F s path flags = Some (word_of_nat i, s3\<lparr>fd_table := (fd_table s3)(i := a), fd_count := fd_count s3 + 1\<rparr>)"
    by (rule open_reaches_driver [OF wf F t op no room]) blast
  from run [of s2 a] obtain s3 where s3: "op s2 a = Some (0, s3)" "kh s3 = kh s2" "fd_table s3 = fd_table s2"
    "fd_count s3 = fd_count s2" "\<forall>b. b \<noteq> a \<longrightarrow> files s3 b = files s2 b" "f_read (files s3 a) = Some dv"
    "f_write (files s3 a) = Some dv" "tty_out s3 = tty_out s2" "disk s3 = disk s2" by blast
  define s' where "s' = s3\<lparr>fd_table := (fd_table s3)(i := a), fd_count := fd_count s3 + 1\<rparr>"
  have ir: "i < 256" using alloc_scan_Some [OF i] by simp
  have res: "vfs_open F s path flags = Some (word_of_nat i, s')"
    using go [OF s3(1), of i] i s3(3) s2 by (simp add: s'_def del: fun_upd_apply)
  from vfs_open_opened [OF wf F t res] sint_fd [OF ir] obtain bs' where wf': "vfs_wf F s' bs'" by auto
  have "kh s' = k" using s3(2) s2 by (simp add: s'_def)
  moreover have "bs' = bs2"
    using heap_wf_unique [OF pendD(1) [OF p2], of bs'] pendD(1) [OF wf'] s3(2) s2 by (simp add: s'_def)
  moreover have "files s' b = files s b" if "b \<noteq> a" for b using that s3(5) s2 by (simp add: s'_def)
  ultimately show ?thesis using res a wf' room2 kp s3(2-4,6-9) s2 dk
    by (intro exI [of _ s'] exI [of _ a] exI [of _ bs']) (simp add: s'_def del: fun_upd_apply)
qed

lemma proc_file_open_room:
  fixes F :: "('f, 'd) fatfs"
  assumes wf: "vfs_wf F s bs" and F: "fil_size_ok F" and t: "safe_str (kh s) bs path (bytes_of p)"
    and pt: "(p, t) \<in> set (proc_texts s)" and no: "fat_refuses F (bytes_of p) flags V" "disk s \<in> V"
    and room: "has_room bs (length p + unat (ff_fil_size F) + 114 + (length t + 59))"
      "length p + unat (ff_fil_size F) + 114 + (length t + 59) < 2 ^ 31"
    and i: "alloc_scan (fd_table s) 3 253 = Some i"
  shows "\<exists>s'. vfs_open F s path flags = Some (word_of_nat i, s') \<and> proc_file s' (word_of_nat i) t 0
    \<and> unat (heap_base (kh s)) \<le> unat (proc_text_addr s' (word_of_nat i))
    \<and> unat (proc_text_addr s' (word_of_nat i)) + length t \<le> unat (heap_base (kh s)) + unat (heap_size (kh s))
    \<and> heap_base (kh s') = heap_base (kh s) \<and> heap_size (kh s') = heap_size (kh s)"
proof -
  have "\<exists>g. (p, \<lambda>s a. proc_open s a g) \<in> set (drivers :: (string \<times> ('f, 'd) opener) list) \<and> text_source g
      \<and> (\<forall>k fs d. fst (g (s\<lparr>files := fs, disk := d, kh := k\<rparr>)) = t)"
  proof -
    have eqs: "proc_meminfo_open = (\<lambda>s a. proc_open s a (\<lambda>s. (meminfo_text, s)))"
      "proc_cpuinfo_open = (\<lambda>s a. proc_open s a (\<lambda>s. (cpuinfo_text, s)))"
      "proc_uptime_open = (\<lambda>s a. proc_open s a (\<lambda>s. (uptime_text (uptime s + 10), s\<lparr>uptime := uptime s + 10\<rparr>)))"
      by (simp_all add: fun_eq_iff proc_meminfo_open_def proc_cpuinfo_open_def proc_uptime_open_def Let_def)
    from pt consider "p = ''/proc/meminfo''" "t = meminfo_text" | "p = ''/proc/cpuinfo''" "t = cpuinfo_text"
      | "p = ''/proc/uptime''" "t = uptime_text (uptime s + 10)" by (auto simp: proc_texts_def)
    then show ?thesis
    proof cases
      case 1
      then show ?thesis using text_sources(1) by (intro exI [of _ "\<lambda>s. (meminfo_text, s)"]) (simp add: drivers_def eqs)
    next
      case 2
      then show ?thesis using text_sources(2) by (intro exI [of _ "\<lambda>s. (cpuinfo_text, s)"]) (simp add: drivers_def eqs)
    next
      case 3
      then show ?thesis using text_sources(3)
        by (intro exI [of _ "\<lambda>s. (uptime_text (uptime s + 10), s\<lparr>uptime := uptime s + 10\<rparr>)"]) (simp add: drivers_def eqs)
    qed
  qed
  then obtain g where op: "(p, \<lambda>s a. proc_open s a g) \<in> set (drivers :: (string \<times> ('f, 'd) opener) list)"
    and g: "text_source g" and gt: "\<forall>k fs d. fst (g (s\<lparr>files := fs, disk := d, kh := k\<rparr>)) = t" by blast
  obtain a name k dk s2 bs2 where "dk \<in> V" and s2: "s2 = s\<lparr>kh := k, files := (files s)(a := zero_file\<lparr>fname := name\<rparr>), disk := dk\<rparr>"
    and p2: "pend F s2 bs2 (fresh_blocks s2 a)" and a: "a \<noteq> 0" and room2: "has_room bs2 (length t + 59)"
    and kp: "kept (kh s) bs k bs2"
    and go: "\<And>s3 i. proc_open s2 a g = Some (0, s3) \<Longrightarrow> alloc_scan (fd_table s3) 3 253 = Some i \<Longrightarrow>
       vfs_open F s path flags = Some (word_of_nat i, s3\<lparr>fd_table := (fd_table s3)(i := a), fd_count := fd_count s3 + 1\<rparr>)"
    by (rule open_reaches_driver [OF wf F t op no room]) blast
  have lt: "length t + 59 < 2 ^ 31" using room(2) by simp
  have gt2: "fst (g (s2\<lparr>kh := k'\<rparr>)) = t" for k' using gt s2 by simp
  obtain s3 b where s3: "proc_open s2 a g = Some (0, s3)" "fd_table s3 = fd_table s2" 
    "f_read (files s3 a) = Some Proc" "f_lseek (files s3 a) = Some Proc" "private_data (files s3 a) = b" "b \<noteq> 0"
    "pd_size (procs s3 b) = word_of_nat (length t)" "pd_position (procs s3 b) = 0"
    "rd_bytes (vmem s3) (pd_data (procs s3 b)) (length t) = t"
    and rg: "unat (heap_base (kh s2)) \<le> unat (pd_data (procs s3 b))"
    "unat (pd_data (procs s3 b)) + length t \<le> unat (heap_base (kh s2)) + unat (heap_size (kh s2))"
    and hb: "heap_base (kh s3) = heap_base (kh s2)" "heap_size (kh s3) = heap_size (kh s2)"
    by (rule proc_open_room [OF p2 g gt2 room2 lt]) blast
  define s' where "s' = s3\<lparr>fd_table := (fd_table s3)(i := a), fd_count := fd_count s3 + 1\<rparr>"
  have ir: "unat (word_of_nat i :: u32) = i" "i < 256" using alloc_scan_Some [OF i] sint_fd by simp_all
  have res: "vfs_open F s path flags = Some (word_of_nat i, s')"
    using go [OF s3(1), of i] i s3(2) s2 by (simp add: s'_def del: fun_upd_apply)
  have fd: "get_file_from_fd s' (word_of_nat i) = a" using ir by (simp add: s'_def get_file_from_fd_def)
  have "proc_file s' (word_of_nat i) t 0" unfolding proc_file_def Let_def fd
    using a s3 room(2) by (simp add: s'_def)
  moreover have "proc_text_addr s' (word_of_nat i) = pd_data (procs s3 b)"
    unfolding proc_text_addr_def fd using s3 by (simp add: s'_def)
  moreover have "heap_base (kh s2) = heap_base (kh s)" "heap_size (kh s2) = heap_size (kh s)"
    using kp s2 by (simp_all add: kept_def)
  moreover have "kh s' = kh s3" by (simp add: s'_def)
  ultimately show ?thesis using res rg hb by (intro exI [of _ s']) simp
qed

subsection \<open>The boot state of the examples\<close>

lemma boot_wf: "vfs_wf rom_volume boot_vfs [(32764, True)]"
  using boot_heap_wf [of boot_mem] by (simp add: pend_def boot_vfs_def fd_blocks_def)

lemma boot_size: "heap_base (kh boot_vfs) = 0x92000" "heap_size (kh boot_vfs) = 0x8000"
  by (simp_all add: boot_vfs_def boot_heap_def kmalloc_init_def)

lemma boot_table [simp]: "fd_table boot_vfs i = 0"
  by (simp add: boot_vfs_def)

lemma boot_mem_cstr: "cstr boot_mem 0x1000 (bytes_of ''/proc/meminfo'')" "cstr boot_mem 0x1100 (bytes_of ''/dev/tty'')"
  by (simp_all add: boot_mem_def bytes_of_def of_char_def wr_bytes_def)

lemma boot_str:
  assumes "cstr boot_mem a t" and "unat a + length t < 0x92000"
  shows "safe_str (kh boot_vfs) bs a t"
proof -
  have un: "unat (a + word_of_nat i) = unat a + i" if "i \<le> length t" for i
    using that assms(2) by (intro unat_plus_small) simp
  have "cstr (vmem boot_vfs) a t = cstr boot_mem a t"
  proof (rule cstr_cong)
    fix i assume "i \<le> length t"
    with un [OF this] assms(2) show "vmem boot_vfs (a + word_of_nat i) = boot_mem (a + word_of_nat i)"
      using KM_SET_other [of 598016 "a + word_of_nat i" boot_mem "0x8000 - HDR_SIZE" True]
      by (simp add: boot_vfs_def boot_heap_def kmalloc_init_def)
  qed
  with assms un show ?thesis by (simp add: safe_str_def safe_byte_def boot_size)
qed

lemma boot_paths:
  "safe_str (kh boot_vfs) bs 0x1000 (bytes_of ''/proc/meminfo'')" "safe_str (kh boot_vfs) bs 0x1100 (bytes_of ''/dev/tty'')"
  using boot_mem_cstr by (auto intro!: boot_str)

lemma rom_volume_ok: "fil_size_ok rom_volume" "fatfs_ok rom_volume" "unat (ff_fil_size rom_volume) = 40"
  by (auto simp: fil_size_ok_def fatfs_ok_def fat_read_bounded_def rom_volume_def Let_def)

text \<open>The volume opens the names it holds, and no other one.\<close>

lemma rom_volume_refuses: "fat_refuses rom_volume t flags {d. t \<notin> set (map fst d)}"
proof -
  have "find (\<lambda>e. cstr m path (fst e)) d = None" if "cstr m path t" "t \<notin> set (map fst d)" for m path d
    unfolding find_None_iff
  proof
    assume "\<exists>e. e \<in> set d \<and> cstr m path (fst e)"
    then obtain e where e: "e \<in> set d" "cstr m path (fst e)" by blast
    with cstr_unique [OF that(1)] have "t = fst e" by blast
    with e(1) that(2) show False by simp
  qed
  then show ?thesis by (auto simp: fat_refuses_def rom_volume_def)
qed

lemma rom_volume_opens: "cstr m path t \<Longrightarrow> fst (ff_open rom_volume m path mode [(t, contents)]) = Some (0, contents)"
  by (simp add: rom_volume_def)

lemma boot_disk: "disk boot_vfs \<in> {d. bytes_of ''/proc/meminfo'' \<notin> set (map fst d)}"
    "disk boot_vfs \<in> {d. bytes_of ''/dev/tty'' \<notin> set (map fst d)}"
  by (simp_all add: boot_vfs_def bytes_of_def of_char_def)

lemma boot_room: "n \<le> 32764 \<Longrightarrow> has_room [(32764, True)] n"
  by simp

lemma boot_scan: "alloc_scan (fd_table boot_vfs) 3 253 = Some 3"
  by (rule alloc_scan_least) (simp_all add: boot_vfs_def)

subsection \<open>Properties\<close>

text \<open>
  Claim C11. Opening a /proc file succeeds when the volume holds no file of that name (f_open fails), the
  heap has room for the File, the two strings, a FIL and the driver's record, and a descriptor is free;
  and reading it in pieces of any sizes into a buffer of the caller, outside the kernel heap, delivers
  exactly the text of the file, from its beginning, no byte lost or repeated, until it is exhausted.
\<close>

theorem proc_open_reads_text:
  assumes "vfs_wf F s bs" and "fil_size_ok F" and "(p, t) \<in> set (proc_texts s)"
    and "safe_str (kh s) bs path (bytes_of p)" and "fat_refuses F (bytes_of p) flags V" and "disk s \<in> V"
    and "has_room bs (length p + unat (ff_fil_size F) + length t + 173)"
    and "length p + unat (ff_fil_size F) + length t + 173 < 2 ^ 31"
    and "3 \<le> i" and "i < 256" and "fd_table s i = 0"
  shows "\<exists>fd s'. vfs_open F s path flags = Some (fd, s') \<and> 3 \<le> unat fd \<and> unat fd \<le> i
    \<and> (\<forall>ns buf. (\<forall>n \<in> set ns. user_buffer (kh s) buf (unat n)) \<longrightarrow>
        (\<exists>s''. read_chunks F s' fd buf ns = Some (take (sum_list (map unat ns)) t, s'')))"
proof -
  have e: "length p + unat (ff_fil_size F) + length t + 173 = length p + unat (ff_fil_size F) + 114 + (length t + 59)" by simp
  from alloc_scan_free [of i "fd_table s"] assms(9-11) obtain k where k: "alloc_scan (fd_table s) 3 253 = Some k" "3 \<le> k" "k \<le> i" "k < 256"
    by auto
  from proc_file_open_room [OF assms(1,2,4,3,5,6) _ _ k(1)] assms(7,8) obtain s' where
    op: "vfs_open F s path flags = Some (word_of_nat k, s')" and pf: "proc_file s' (word_of_nat k) t 0"
    and lo: "unat (heap_base (kh s)) \<le> unat (proc_text_addr s' (word_of_nat k))"
    and hi: "unat (proc_text_addr s' (word_of_nat k)) + length t \<le> unat (heap_base (kh s)) + unat (heap_size (kh s))"
    unfolding e by blast
  have lim: "unat (heap_base (kh s)) + unat (heap_size (kh s)) < 2 ^ 32"
    using pendD(1) [OF assms(1)] by (simp add: heap_wf_def)
  have "unat (word_of_nat k :: u32) = k" using sint_fd [OF k(4)] by simp
  moreover have "\<exists>s''. read_chunks F s' (word_of_nat k) buf ns = Some (take (sum_list (map unat ns)) t, s'')"
    if "\<forall>n \<in> set ns. user_buffer (kh s) buf (unat n)" for ns buf
    using read_chunks_text [OF pf, of ns buf F] user_buffer_apart [OF _ unat_le_two32 lo hi lim] that by auto
  ultimately show ?thesis using op k by (intro exI [of _ "word_of_nat k"] exI [of _ s']) simp
qed

lemma length_meminfo: "length meminfo_text < 200"
  using length_signed_numeral [of get_total_memory] length_signed_numeral [of get_kfree_memory]
    length_signed_numeral [of "get_total_memory - get_kfree_memory"] length_signed_numeral [of "get_kfree_memory div 2"]
  by (simp add: meminfo_text_def)

lemma boot_proc: "(''/proc/meminfo'', meminfo_text) \<in> set (proc_texts boot_vfs)"
  by (simp add: proc_texts_def)

lemma boot_user_buffer: "n \<le> 0x1000 \<Longrightarrow> user_buffer (kh boot_vfs) 0x2000 n"
proof -
  assume n: "n \<le> 0x1000"
  have "unat x < 0x92000" if "unat (x - 0x2000 :: addr) < n" for x
  proof -
    have "x = 0x2000 + word_of_nat (unat (x - 0x2000))" by simp
    moreover have "unat (0x2000 + word_of_nat (unat (x - 0x2000)) :: addr) = unat (0x2000 :: addr) + unat (x - 0x2000)"
      by (rule unat_plus_small) (use that n in simp)
    ultimately have "unat x = 0x2000 + unat (x - 0x2000)" by simp
    with that n show ?thesis by linarith
  qed
  then show ?thesis by (auto simp: user_buffer_def boot_size)
qed

theorem proc_open_reads_text_witness:
  "\<exists>fd s' s''. vfs_open rom_volume boot_vfs 0x1000 1 = Some (fd, s')
    \<and> read_chunks rom_volume s' fd 0x2000 [10, 20] = Some (take 30 meminfo_text, s'')"
proof -
  from proc_open_reads_text [OF boot_wf rom_volume_ok(1) boot_proc boot_paths(1) rom_volume_refuses boot_disk(1), where flags = 1 and i = 3]
  obtain fd s' where "vfs_open rom_volume boot_vfs 0x1000 1 = Some (fd, s')"
    "\<forall>ns buf. (\<forall>n \<in> set ns. user_buffer (kh boot_vfs) buf (unat n)) \<longrightarrow>
        (\<exists>s''. read_chunks rom_volume s' fd buf ns = Some (take (sum_list (map unat ns)) meminfo_text, s''))"
    using length_meminfo by (auto simp: rom_volume_ok)
  moreover have "\<forall>n \<in> set [10, 20 :: u32]. user_buffer (kh boot_vfs) 0x2000 (unat n)" by (simp add: boot_user_buffer)
  ultimately have "\<exists>s''. read_chunks rom_volume s' fd 0x2000 [10, 20] = Some (take (sum_list (map unat [10, 20 :: u32])) meminfo_text, s'')"
    by blast
  moreover have "sum_list (map unat [10, 20 :: u32]) = 30" by simp
  ultimately show ?thesis using \<open>vfs_open rom_volume boot_vfs 0x1000 1 = Some (fd, s')\<close> by metis
qed

text \<open>
  Claim C30. A descriptor on a /proc file, in a state where the descriptors own their heap blocks and the
  text is in the heap, is a sequential file over its text: a read of n bytes into a buffer of the
  caller, outside the kernel heap, returns the next min(n, rest) bytes and advances by as many; lseek
  from the start, the position or the end moves to the target (a 32-bit sum) clamped to the length and
  returns it; any other whence returns -1 and moves nothing. Ownership is kept by each of them.
\<close>

theorem proc_sequential_file:
  assumes "vfs_wf F s bs" and "fatfs_ok F" and "proc_file s fd t pos"
    and "unat (heap_base (kh s)) \<le> unat (proc_text_addr s fd)"
    and "unat (proc_text_addr s fd) + length t \<le> unat (heap_base (kh s)) + unat (heap_size (kh s))"
    and "user_buffer (kh s) buf (unat n)"
  shows "(\<exists>s'. vfs_read F s fd buf n = Some (word_of_nat (min (unat n) (length t - pos)), s')
      \<and> rd_bytes (vmem s') buf (min (unat n) (length t - pos)) = take (unat n) (drop pos t)
      \<and> proc_file s' fd t (pos + min (unat n) (length t - pos)) \<and> vfs_wf F s' bs)
    \<and> (\<exists>s'. vfs_lseek F s fd off 0 = (word_of_nat (min (unat off) (length t)), s')
      \<and> proc_file s' fd t (min (unat off) (length t)) \<and> vfs_wf F s' bs)
    \<and> (\<exists>s'. vfs_lseek F s fd off 1 = (word_of_nat (min (unat (word_of_nat pos + off)) (length t)), s')
      \<and> proc_file s' fd t (min (unat (word_of_nat pos + off)) (length t)) \<and> vfs_wf F s' bs)
    \<and> (\<exists>s'. vfs_lseek F s fd off 2 = (word_of_nat (min (unat (word_of_nat (length t) + off)) (length t)), s')
      \<and> proc_file s' fd t (min (unat (word_of_nat (length t) + off)) (length t)) \<and> vfs_wf F s' bs)
    \<and> (2 < wh \<longrightarrow> fst (vfs_lseek F s fd off wh) = minus1 \<and> proc_file (snd (vfs_lseek F s fd off wh)) fd t pos)"
proof -
  have lim: "unat (heap_base (kh s)) + unat (heap_size (kh s)) < 2 ^ 32"
    using pendD(1) [OF assms(1)] by (simp add: heap_wf_def)
  note ap = user_buffer_apart [OF assms(6) unat_le_two32 assms(4,5) lim]
  have rd: "vfs_read F s fd buf n = Some (r, s') \<Longrightarrow> vfs_wf F s' bs" for r s'
    using quiet_wf [OF assms(1) user_buffer_safe [OF assms(6)] vfs_read_quiet] assms(2) by (simp add: fatfs_ok_def)
  have sk: "vfs_lseek F s fd off w = (r, s') \<Longrightarrow> vfs_wf F s' bs" for r s' w
    by (rule quiet_wf [OF assms(1) _ vfs_lseek_quiet]) (simp_all add: safe_buffer_def)
  have tk: "take (min (unat n) (length t - pos)) (drop pos t) = take (unat n) (drop pos t)" by (simp add: min_def)
  show ?thesis
    using proc_read_chunk [OF assms(3) ap, of F] proc_lseek_moves [OF assms(3), of F off 0] proc_lseek_moves [OF assms(3), of F off 1]
      proc_lseek_moves [OF assms(3), of F off 2] proc_lseek_moves [OF assms(3), of F off wh] rd sk unfolding tk
    by (auto simp: not_le [symmetric])
qed

theorem proc_sequential_file_witness:
  "\<exists>s s' :: (fil, volume) vfs. vfs_open rom_volume boot_vfs 0x1000 1 = Some (3, s) \<and> vfs_lseek rom_volume s 3 9 0 = (9, s')"
proof -
  from proc_file_open_room [OF boot_wf rom_volume_ok(1) boot_paths(1) boot_proc rom_volume_refuses boot_disk(1) _ _ boot_scan, of 1]
  obtain s where s: "vfs_open rom_volume boot_vfs 0x1000 1 = Some (3, s)" "proc_file s 3 meminfo_text 0"
    "unat (heap_base (kh s)) \<le> unat (proc_text_addr s 3)"
    "unat (proc_text_addr s 3) + length meminfo_text \<le> unat (heap_base (kh s)) + unat (heap_size (kh s))"
    using length_meminfo by (auto simp: rom_volume_ok)
  from vfs_open_opened [OF boot_wf rom_volume_ok(1) boot_paths(1) s(1)] obtain bs where wf: "vfs_wf rom_volume s bs"
    by (auto simp: sint_cases)
  have ub: "user_buffer (kh s) 0 (unat (0 :: u32))" by (simp add: user_buffer_def)
  have "length ''MemTotal: '' \<le> length meminfo_text" by (simp add: meminfo_text_def bytes_of_def)
  then have "min (unat (9 :: u32)) (length meminfo_text) = 9" by simp
  with proc_sequential_file [OF wf rom_volume_ok(2) s(2-4) ub, of 9 0] s(1) show ?thesis by auto
qed

text \<open>
  Claim C31. The terminal: opening a device path succeeds when the volume holds no file of that name (f_open
  fails), with room in the heap and a free descriptor, on the lowest free descriptor, with the handlers of its driver; and a write system call on a
  descriptor of /dev/tty sends the bytes of the buffer in order, each line feed preceded by a
  carriage return, returns the size and changes nothing else.
\<close>

theorem device_open_tty_write:
  assumes "vfs_wf F s bs" and "fil_size_ok F" and "(p, dv) \<in> set device_driver"
    and "safe_str (kh s) bs path (bytes_of p)" and "fat_refuses F (bytes_of p) flags V" and "disk s \<in> V"
    and "has_room bs (length p + unat (ff_fil_size F) + 114)" and "length p + unat (ff_fil_size F) + 114 < 2 ^ 31"
    and "3 \<le> i" and "i < 256" and "fd_table s i = 0" and "\<forall>j. 3 \<le> j \<and> j < i \<longrightarrow> fd_table s j \<noteq> 0"
  shows "\<exists>s'. trap0_handler F s 0x47 path flags 0 = Some (word_of_nat i, s')
    \<and> f_read (files s' (fd_table s' i)) = Some dv \<and> f_write (files s' (fd_table s' i)) = Some dv
    \<and> tty_out s' = tty_out s
    \<and> (dv = Tty \<longrightarrow> (\<forall>buf n. trap0_handler F s' 0x50 (word_of_nat i) buf n
          = Some (n, s'\<lparr>tty_out := tty_out s' @ crlf (rd_bytes (vmem s') buf (unat n))\<rparr>)))"
proof -
  have sc: "alloc_scan (fd_table s) 3 253 = Some i" by (rule alloc_scan_least) (use assms(9-12) in auto)
  from device_open_room [OF assms(1,2,4,3,5,6), of 0] assms(7,8) sc obtain s' a where
    op: "vfs_open F s path flags = Some (word_of_nat i, s')" and a: "a \<noteq> 0" "fd_table s' = (fd_table s)(i := a)"
    and h: "f_read (files s' a) = Some dv" "f_write (files s' a) = Some dv" "tty_out s' = tty_out s" by auto
  have g: "get_file_from_fd s' (word_of_nat i) = a"
    using a sint_fd [OF assms(10)] assms(10) by (simp add: get_file_from_fd_def)
  show ?thesis using op a h g
    by (intro exI [of _ s']) (simp add: trap0_handler_def vfs_write_def call_write_def tty_write_def tty_write_loop_eq)
qed

theorem device_open_tty_write_witness:
  "\<exists>s'. trap0_handler rom_volume boot_vfs 0x47 0x1100 1 0 = Some (3, s') \<and> f_write (files s' (fd_table s' 3)) = Some Tty
    \<and> trap0_handler rom_volume s' 0x50 3 0x1100 4
      = Some (4, s'\<lparr>tty_out := tty_out s' @ crlf (rd_bytes (vmem s') 0x1100 4)\<rparr>)"
proof -
  have "(''/dev/tty'', Tty) \<in> set device_driver" by (simp add: device_driver_def)
  from device_open_tty_write [OF boot_wf rom_volume_ok(1) this boot_paths(2) rom_volume_refuses boot_disk(2), where flags = 1 and i = 3]
  show ?thesis by (force simp: rom_volume_ok)
qed

text \<open>
  Claim C32. After vfs_init, when the volume holds no file /dev/tty (f_open fails) and the heap has room for
  three descriptors, the terminals are descriptors 3, 4 and 5
  (three distinct File objects) and descriptors 0, 1 and 2 - standard input, output and error - are
  empty: every read or write through them returns -1.
\<close>

theorem vfs_init_standard_descriptors:
  assumes "vfs_wf F (s\<lparr>fd_table := (\<lambda>_. 0), fd_count := 0\<rparr>) bs" and "fil_size_ok F"
    and "safe_str (kh s) bs tty_path (bytes_of ''/dev/tty'')"
    and "fat_refuses F (bytes_of ''/dev/tty'') 3 V" and "disk s \<in> V"
    and "has_room bs (3 * (unat (ff_fil_size F) + 122))" and "3 * (unat (ff_fil_size F) + 122) < 2 ^ 31"
  shows "\<exists>s'. vfs_init F tty_path s = Some s' \<and> fd_count s' = 3
    \<and> (\<forall>i. fd_table s' i \<noteq> 0 \<longleftrightarrow> i \<in> {3, 4, 5}) \<and> distinct [fd_table s' 3, fd_table s' 4, fd_table s' 5]
    \<and> (\<forall>i \<in> {3, 4, 5}. f_write (files s' (fd_table s' i)) = Some Tty)
    \<and> (\<forall>fd buf n. fd < 3 \<longrightarrow> vfs_read F s' fd buf n = Some (minus1, s') \<and> vfs_write F s' fd buf n = (minus1, s'))"
proof -
  define c where "c = unat (ff_fil_size F) + 122"
  define s0 where "s0 = s\<lparr>fd_table := (\<lambda>_. 0), fd_count := 0\<rparr>"
  have d: "(''/dev/tty'', Tty) \<in> set device_driver" by (simp add: device_driver_def)
  have len: "length ''/dev/tty'' + unat (ff_fil_size F) + 114 + M = c + M" for M by (simp add: c_def)
  have lim: "c + 2 * c < 2 ^ 31" "c + c < 2 ^ 31" "c + 0 < 2 ^ 31" using assms(7) by (simp_all add: c_def)
  have v0: "disk s0 \<in> V" using assms(5) by (simp add: s0_def)
  have t0: "safe_str (kh s0) bs tty_path (bytes_of ''/dev/tty'')" using assms(3) by (simp add: s0_def)
  have r0: "has_room bs (c + 2 * c)" using assms(6) by (simp add: c_def)
  have sc0: "alloc_scan (fd_table s0) 3 253 = Some 3" by (rule alloc_scan_least) (simp_all add: s0_def)
  from device_open_room [OF assms(1) [folded s0_def] assms(2) t0 d assms(4) v0, unfolded len, OF r0 lim(1) sc0] obtain s1 a1 b1 where
    1: "vfs_open F s0 tty_path 3 = Some (word_of_nat 3, s1)" "a1 \<noteq> 0" "fd_table s1 = (fd_table s0)(3 := a1)"
      "fd_count s1 = fd_count s0 + 1" "vfs_wf F s1 b1" "has_room b1 (2 * c)" "kept (kh s0) bs (kh s1) b1"
      "f_write (files s1 a1) = Some Tty" and v1: "disk s1 \<in> V" by blast
  have r1: "has_room b1 (c + c)" using 1(6) by (simp add: mult_2)
  have sc1: "alloc_scan (fd_table s1) 3 253 = Some 4" by (rule alloc_scan_least) (use 1 in \<open>auto simp: s0_def\<close>)
  from device_open_room [OF 1(5) assms(2) kept_str [OF 1(7) t0] d assms(4) v1, unfolded len, OF r1 lim(2) sc1] obtain s2 a2 b2 where
    2: "vfs_open F s1 tty_path 3 = Some (word_of_nat 4, s2)" "a2 \<noteq> 0" "fd_table s2 = (fd_table s1)(4 := a2)"
      "fd_count s2 = fd_count s1 + 1" "vfs_wf F s2 b2" "has_room b2 c" "kept (kh s1) b1 (kh s2) b2"
      "\<forall>b. b \<noteq> a2 \<longrightarrow> files s2 b = files s1 b" "f_write (files s2 a2) = Some Tty" and v2: "disk s2 \<in> V" by blast
  have r2: "has_room b2 (c + 0)" using 2(6) by simp
  have sc2: "alloc_scan (fd_table s2) 3 253 = Some 5"
  proof (rule alloc_scan_least)
    fix j :: nat assume "3 \<le> j" "j < 5"
    then have "j = 3 \<or> j = 4" by auto
    with 1 2 show "fd_table s2 j \<noteq> 0" by auto
  qed (use 1 2 in \<open>auto simp: s0_def\<close>)
  from device_open_room [OF 2(5) assms(2) kept_str [OF kept_trans [OF 1(7) 2(7)] t0] d assms(4) v2, unfolded len, OF r2 lim(3) sc2]
  obtain s3 a3 b3 where
    3: "vfs_open F s2 tty_path 3 = Some (word_of_nat 5, s3)" "a3 \<noteq> 0" "fd_table s3 = (fd_table s2)(5 := a3)"
      "fd_count s3 = fd_count s2 + 1" "vfs_wf F s3 b3"
      "\<forall>b. b \<noteq> a3 \<longrightarrow> files s3 b = files s2 b" "f_write (files s3 a3) = Some Tty" by blast
  have tab: "fd_table s3 = (\<lambda>_. 0)(3 := a1, 4 := a2, 5 := a3)" using 1(3) 2(3) 3(3) by (simp add: s0_def)
  have ne: "a1 \<noteq> a2" "a1 \<noteq> a3" "a2 \<noteq> a3"
    using wf_no_alias [OF 3(5), of 3 4] wf_no_alias [OF 3(5), of 3 5] wf_no_alias [OF 3(5), of 4 5] 1(2) 2(2) 3(2)
    by (auto simp: tab)
  have "vfs_init F tty_path s = Some s3" using 1(1) 2(1) 3(1) by (simp add: vfs_init_def s0_def [symmetric])
  moreover have "fd_count s3 = 3" using 1(4) 2(4) 3(4) by (simp add: s0_def)
  moreover have "get_file_from_fd s3 fd = 0" if "fd < 3" for fd :: u32
  proof -
    have "unat fd < 3" using that by (simp add: word_less_nat_alt)
    then show ?thesis by (simp add: get_file_from_fd_def tab)
  qed
  ultimately show ?thesis using 1(2,8) 2(2,8,9) 3(2,6,7) ne
    by (intro exI [of _ s3]) (auto simp: tab vfs_read_def vfs_write_def)
qed

theorem vfs_init_standard_descriptors_witness:
  "\<exists>s'. vfs_init rom_volume 0x1100 boot_vfs = Some s' \<and> vfs_write rom_volume s' 1 0x1100 4 = (minus1, s')"
proof -
  have "boot_vfs\<lparr>fd_table := (\<lambda>_. 0), fd_count := 0\<rparr> = boot_vfs" by (simp add: boot_vfs_def)
  with boot_wf have wf: "vfs_wf rom_volume (boot_vfs\<lparr>fd_table := (\<lambda>_. 0), fd_count := 0\<rparr>) [(32764, True)]" by simp
  have room: "has_room [(32764, True)] (3 * (unat (ff_fil_size rom_volume) + 122))"
    "3 * (unat (ff_fil_size rom_volume) + 122) < 2 ^ 31" by (simp_all add: rom_volume_ok)
  from vfs_init_standard_descriptors [OF wf rom_volume_ok(1) _ rom_volume_refuses _ room] boot_paths(2) boot_disk(2)
  obtain s' where "vfs_init rom_volume 0x1100 boot_vfs = Some s'"
    "\<forall>fd buf n. fd < 3 \<longrightarrow> vfs_read rom_volume s' fd buf n = Some (minus1, s') \<and> vfs_write rom_volume s' fd buf n = (minus1, s')"
    by blast
  moreover have "(1 :: u32) < 3" by simp
  ultimately show ?thesis by blast
qed

text \<open>
  Claim C6. A path that opens gets the lowest free descriptor from 3 up, and closing it gives back
  exactly what opening took: the descriptor table and its count are those before the open, every
  heap block the open allocated (File, path copy, the data of the driver or of FatFs) is released and
  every other live block is still there, for every driver. So opening and closing never leaks.
\<close>

theorem open_close_roundtrip:
  assumes "vfs_wf F s bs" and "fil_size_ok F" and "safe_str (kh s) bs path t"
    and "vfs_open F s path flags = Some (fd, s1)" and "0 \<le> sint fd" and "vfs_close F s1 fd = (r, s2)"
  shows "3 \<le> unat fd \<and> unat fd < 256 \<and> fd_table s (unat fd) = 0
    \<and> (\<forall>j. 3 \<le> j \<and> j < unat fd \<longrightarrow> fd_table s j \<noteq> 0) \<and> fd_table s1 (unat fd) \<noteq> 0
    \<and> fd_table s2 = fd_table s \<and> fd_count s2 = fd_count s
    \<and> (\<exists>bs'. vfs_wf F s2 bs' \<and> rgn (kh s2) bs' = rgn (kh s) bs)"
proof -
  from vfs_open_opened [OF assms(1-5)] obtain i a bs1 where i: "alloc_scan (fd_table s) 3 253 = Some i"
    "fd = word_of_nat i" and a: "a \<noteq> 0" "fd_table s1 = (fd_table s)(i := a)" and c: "fd_count s1 = fd_count s + 1"
    and wf1: "vfs_wf F s1 bs1" and R: "rgn (kh s) bs = without (addrs (fd_blocks F s1 i)) (rgn (kh s1) bs1)" by blast
  from alloc_scan_Some [OF i(1)] have ir: "3 \<le> i" "i < 256" "fd_table s i = 0"
    "\<forall>j. 3 \<le> j \<and> j < i \<longrightarrow> fd_table s j \<noteq> 0" by auto
  have u: "unat fd = i" using i(2) sint_fd [OF ir(2)] by simp
  have t1: "fd_table s1 (unat fd) = a" using a u by simp
  have lt: "unat fd < 256" using u ir by simp
  note st = vfs_close_state [OF wf1 lt t1 a(1) assms(6)]
  from vfs_close_wf [OF wf1 lt t1 a(1) assms(6)] R u obtain bs' where
    "vfs_wf F s2 bs'" "rgn (kh s2) bs' = rgn (kh s) bs" by auto
  moreover have "fd_table s2 = fd_table s" using st a u ir(3) by auto
  ultimately show ?thesis using st u ir t1 a(1) c by auto
qed

lemma boot_tty_open:
  obtains s1 where "vfs_open rom_volume boot_vfs 0x1100 1 = Some (3, s1)" "fd_table s1 3 \<noteq> 0"
proof -
  have d: "(''/dev/tty'', Tty) \<in> set device_driver" by (simp add: device_driver_def)
  from device_open_room [OF boot_wf rom_volume_ok(1) boot_paths(2) d rom_volume_refuses boot_disk(2) _ _ boot_scan, where M = 0] that
  show ?thesis by (force simp: rom_volume_ok)
qed

theorem open_close_roundtrip_witness:
  "\<exists>s1 r s2 bs. vfs_open rom_volume boot_vfs 0x1100 1 = Some (3, s1) \<and> vfs_close rom_volume s1 3 = (r, s2)
    \<and> fd_table s2 = fd_table boot_vfs \<and> rgn (kh s2) bs = {}"
proof -
  obtain s1 where s1: "vfs_open rom_volume boot_vfs 0x1100 1 = Some (3, s1)" by (rule boot_tty_open)
  obtain r s2 where s2: "vfs_close rom_volume s1 3 = (r, s2)" by fastforce
  have "rgn (kh boot_vfs) [(32764, True)] = {}" by (simp add: live_Cons)
  with open_close_roundtrip [OF boot_wf rom_volume_ok(1) boot_paths(2) s1 _ s2] s1 s2 show ?thesis by (auto simp: sint_cases)
qed

text \<open>
  Claim C29. A failing vfs_open returns -1 and changes no descriptor; and as long as one descriptor from
  3 up is free it allocates nothing, whichever of its error paths ran. (With the table full the data
  of the driver stays allocated.) The descriptors keep owning disjoint live blocks.
\<close>

theorem open_failure_restores:
  assumes "vfs_wf F s bs" and "fil_size_ok F" and "safe_str (kh s) bs path t"
    and "vfs_open F s path flags = Some (fd, s')" and "sint fd < 0"
  shows "fd = minus1 \<and> fd_table s' = fd_table s \<and> fd_count s' = fd_count s
    \<and> (\<exists>bs'. vfs_wf F s' bs' \<and> ((\<exists>i. 3 \<le> i \<and> i < 256 \<and> fd_table s i = 0) \<longrightarrow> rgn (kh s') bs' = rgn (kh s) bs))"
proof -
  have scan: "alloc_scan (fd_table s) 3 253 \<noteq> None" if "3 \<le> i" "i < 256" "fd_table s i = 0" for i
    using alloc_scan_None [of "fd_table s" 3 253 i] that by auto
  from vfs_open_failed [OF assms] scan show ?thesis by blast
qed

theorem open_failure_restores_witness:
  "\<exists>k s' bs'. vfs_open rom_volume (boot_vfs\<lparr>kh := k\<rparr>) 0x1100 1 = Some (minus1, s') \<and> vfs_wf rom_volume s' bs'
    \<and> rgn (kh s') bs' = {(0x92004, 32764)}"
proof -
  have al: "KM_ALIGN 32764 = 32764" by (simp add: KM_ALIGN_def)
  obtain k where k: "heap_wf k [(32764, False)]" "heap_base k = 0x92000" "heap_size k = 0x8000" "\<forall>x. unat x < 0x92000 \<longrightarrow> hmem k x = vmem boot_vfs x"
    using kmalloc_run [OF boot_heap_wf [of boot_mem], of 32764] boot_size
    by (fastforce simp: al boot_heap_base boot_vfs_def)
  define s where "s = boot_vfs\<lparr>kh := k\<rparr>"
  have wf: "vfs_wf rom_volume s [(32764, False)]" using k(1) by (simp add: pend_def s_def fd_blocks_def)
  have t: "safe_str (kh s) [(32764, False)] 0x1100 (bytes_of ''/dev/tty'')"
  proof -
    have un: "unat (0x1100 + word_of_nat i :: addr) = 0x1100 + i" if "i \<le> 8" for i
      using unat_plus_small [of "0x1100" i] that by simp
    have "cstr (hmem k) 0x1100 (bytes_of ''/dev/tty'') = cstr (vmem boot_vfs) 0x1100 (bytes_of ''/dev/tty'')"
      using k(4) un by (intro cstr_cong) simp
    with boot_paths(2) [of "[]"] un k(2,3) show ?thesis by (simp add: safe_str_def safe_byte_def s_def)
  qed
  have run: "vfs_open rom_volume s 0x1100 1 = Some (minus1, s)"
    using kmalloc_run [OF k(1), of 44] by (simp add: vfs_open_def s_def)
  have "\<exists>i. 3 \<le> i \<and> i < 256 \<and> fd_table s i = 0" by (rule exI [of _ 3]) (simp add: s_def)
  with open_failure_restores [OF wf rom_volume_ok(1) t run] obtain bs' where
    "vfs_wf rom_volume s bs'" "rgn (kh s) bs' = rgn (kh s) [(32764, False)]" by auto
  moreover have "rgn (kh s) [(32764, False)] = {(0x92004, 32764)}" using k(2) by (simp add: s_def live_Cons)
  ultimately show ?thesis using run unfolding s_def by blast
qed

text \<open>
  Claim C5. Whatever sequence of system calls runs through the trap handler, each with memory of the caller
  as its argument (the path of an open is a string and the buffer of a read lies outside the kernel
  heap, which holds the objects of the descriptors, and apart from the kernel's variables), from a
  state in which the descriptors own disjoint live blocks, it ends in such a state: no two descriptors share a File
  object, and no byte of a block one descriptor holds (File, path copy, driver data) belongs to a
  block of another, so closing one never frees memory another one uses.
\<close>

theorem syscalls_keep_ownership:
  assumes "syscalls F s s'" and "fatfs_ok F" and "vfs_wf F s bs"
  shows "(\<exists>bs'. vfs_wf F s' bs')
    \<and> (\<forall>i < 256. \<forall>j < 256. fd_table s' i = fd_table s' j \<and> fd_table s' i \<noteq> 0 \<longrightarrow> i = j)
    \<and> (\<forall>i < 256. \<forall>j < 256. i \<noteq> j \<longrightarrow> (\<forall>(a, n) \<in> set (fd_blocks F s' i). \<forall>(c, m) \<in> set (fd_blocks F s' j).
         unat a + n \<le> unat c \<or> unat c + m \<le> unat a))"
  using syscalls_wf [OF assms] wf_no_alias wf_disjoint by (fastforce split: prod.splits)

lemma boot_user_path: "user_string (kh boot_vfs) 0x1100 (bytes_of ''/dev/tty'')"
proof -
  have "unat x < 0x92000" if "unat (x - 0x1100 :: addr) < 10" for x
  proof -
    have "unat (0x1100 + word_of_nat (unat (x - 0x1100)) :: addr) = unat (0x1100 :: addr) + unat (x - 0x1100)"
      by (rule unat_plus_small) (use that in simp)
    then have "unat x = 0x1100 + unat (x - 0x1100)" by simp
    with that show ?thesis by linarith
  qed
  then show ?thesis using boot_paths(2) [of "[]"]
    by (auto simp: user_string_def user_buffer_def boot_size safe_str_def bytes_of_def)
qed

theorem syscalls_keep_ownership_witness:
  "\<exists>s'. syscalls rom_volume boot_vfs s' \<and> fd_table s' 3 \<noteq> 0 \<and> (\<exists>bs'. vfs_wf rom_volume s' bs')"
proof -
  obtain s1 where s1: "vfs_open rom_volume boot_vfs 0x1100 1 = Some (3, s1)" "fd_table s1 3 \<noteq> 0" by (rule boot_tty_open)
  then have "trap0_handler rom_volume boot_vfs 0x47 0x1100 1 0 = Some (3, s1)" by (simp add: trap0_handler_def)
  with boot_user_path have "syscalls rom_volume boot_vfs s1"
    by (intro syscalls.call [OF syscalls.stop]) (auto simp: args_ok_def)
  with syscalls_keep_ownership [OF this rom_volume_ok(2) boot_wf] s1(2) show ?thesis by blast
qed

text \<open>Three behaviours of single drivers: a read-only open of a FAT file may write, a byte from 0x80 up
  ends a read of the serial terminal and is lost, and its ioctl reports failure after acting.\<close>

lemma fat_mode_rdonly_writes:
  "fat_mode 0x01 = 0x03" "fat_mode 0x02 = 0x03" "fat_mode 0x03 = 0x03" "fat_mode 0x04 = 0x08" "fat_mode 0x13 = 0x33"
  by (simp_all add: fat_mode_def)

lemma duartA_read_loses_high_byte:
  assumes "tty_in s = c # cs" and "sint c < 0" and "n \<noteq> 0"
  shows "duartA_read s a buf n = Some (0, s\<lparr>tty_in := cs\<rparr>)"
proof -
  obtain m where "unat n = Suc m" using assms(3) by (metis not0_implies_Suc unat_eq_zero)
  with assms show ?thesis by (simp add: duartA_read_def duartA_getc_def)
qed

lemma duartA_ioctl_always_fails: "fst (duartA_ioctl s a cmd arg) = minus1"
  by (simp add: duartA_ioctl_def)

text \<open>With the table full an open that its driver accepted still fails, and what the driver allocated stays.\<close>

lemma open_table_full_leaks:
  assumes p: "pend F s bs (fresh_blocks s a)" and d: "(q, d) \<in> set drivers" and run: "d s a = Some (0, s1)"
    and full: "alloc_scan (fd_table s) 3 253 = None"
  shows "\<exists>bs'. try_drivers s1 a path [] = Some (minus1, drop_file s1 a) \<and> vfs_wf F (drop_file s1 a) bs'
    \<and> without (addrs (driver_blocks F s1 (files s1 a))) (rgn (kh (drop_file s1 a)) bs')
      = without (addrs (fresh_blocks s a)) (rgn (kh s) bs)"
proof -
  have mem: "a \<in> addrs (fresh_blocks s a)" by simp
  from dt.opener_ok [OF d p mem run] obtain bs1 where
    p1: "pend F s1 bs1 (driver_blocks F s1 (files s1 a) @ fresh_blocks s a)"
    and R: "rgn (kh s) bs = without (addrs (driver_blocks F s1 (files s1 a))) (rgn (kh s1) bs1)" by blast
  have op: "fresh_blocks s1 a = fresh_blocks s a" using dt.opener_frame [OF d run] by (simp add: name_blocks_def)
  from pend_drop_file [of F s1 bs1 a "[]"] pend_forget [OF p1] obtain bs2 where
    "vfs_wf F (drop_file s1 a) bs2" "rgn (kh (drop_file s1 a)) bs2 = without (addrs (fresh_blocks s a)) (rgn (kh s1) bs1)"
    unfolding op by auto
  with R show ?thesis by (intro exI [of _ bs2]) (simp add: Un_commute)
qed

end
