(* ===== verification/NetRecv.thy ===== *)
theory NetRecv
  imports KString Drivers
begin

text \<open>
  The network file receiver of the ROM, \<open>orioncore/recv/recv.c\<close>: it drives socket 0 of a W5100
  network chip, waits for one file, keeps it in memory at \<open>BUFFER_ARQUIVO\<close> and writes it to the
  FAT volume. The chip is hardware, so it is a parameter: a state of its own type and two operations,
  the read and the write of one register, either of which may change the state (bytes arrive at any
  time). The three loops that wait for it may not end; they are partial functions, and \<open>None\<close> is a
  wait that never returns. FatFs is the parameter \<open>fatfs\<close> of the drivers. The console messages are
  left out; the outcome of \<open>saving_file\<close> is the value \<open>save_result\<close>.

  \<open>cabecalho_raw\<close>, \<open>estado\<close>, \<open>bytes_recebidos\<close> and \<open>tamanho_total\<close> are static variables of the C
  file: they are fields of the record, apart from the memory that holds the buffer. In the ROM they lie
  below the buffer, and the stack lies above it and ends at 0x100000: a size that does not fit in between
  overwrites the stack, which the code does not check and this model does not show, so the properties
  about receptions that end bound the size (\<open>fits_ram\<close>). The two reads of
  \<open>w5100_read16\<close> are taken from left to right.
\<close>

subsection \<open>Registers\<close>

record 'w w5100 =
  reg_in :: "u16 \<Rightarrow> 'w \<Rightarrow> u8 \<times> 'w"
  reg_out :: "u16 \<Rightarrow> u8 \<Rightarrow> 'w \<Rightarrow> 'w"

definition BUFFER_ARQUIVO :: addr where "BUFFER_ARQUIVO = 0x000A2000"

definition W5100_GAR :: u16 where "W5100_GAR = 0x0001"
definition W5100_SUBR :: u16 where "W5100_SUBR = 0x0005"
definition W5100_RMSR :: u16 where "W5100_RMSR = 0x001A"
definition W5100_TMSR :: u16 where "W5100_TMSR = 0x001B"

definition S0_MR :: u16 where "S0_MR = 0x0400"
definition S0_CR :: u16 where "S0_CR = 0x0401"
definition S0_SR :: u16 where "S0_SR = 0x0403"
definition S0_PORT :: u16 where "S0_PORT = 0x0404"
definition S0_TX_WR :: u16 where "S0_TX_WR = 0x0424"
definition S0_RX_RSR :: u16 where "S0_RX_RSR = 0x0426"
definition S0_RX_RD :: u16 where "S0_RX_RD = 0x0428"

definition CR_OPEN :: u8 where "CR_OPEN = 0x01"
definition CR_LISTEN :: u8 where "CR_LISTEN = 0x02"
definition CR_DISCON :: u8 where "CR_DISCON = 0x08"
definition CR_SEND :: u8 where "CR_SEND = 0x20"
definition CR_RECV :: u8 where "CR_RECV = 0x40"

definition SOCK_CLOSED :: u8 where "SOCK_CLOSED = 0x00"
definition SOCK_INIT :: u8 where "SOCK_INIT = 0x13"
definition SOCK_ESTABLISHED :: u8 where "SOCK_ESTABLISHED = 0x17"
definition SOCK_CLOSE_WAIT :: u8 where "SOCK_CLOSE_WAIT = 0x1C"

definition S0_TX_BASE :: u16 where "S0_TX_BASE = 0x4000"
definition S0_RX_BASE :: u16 where "S0_RX_BASE = 0x6000"
definition S0_MASK :: u16 where "S0_MASK = 0x07FF"

definition w5100_write :: "'w w5100 \<Rightarrow> u16 \<Rightarrow> u8 \<Rightarrow> 'w \<Rightarrow> 'w" where
  "w5100_write C reg val w = reg_out C reg val w"

definition w5100_write16 :: "'w w5100 \<Rightarrow> u16 \<Rightarrow> u16 \<Rightarrow> 'w \<Rightarrow> 'w" where
  "w5100_write16 C reg val w = reg_out C (reg + 1) (ucast val) (reg_out C reg (ucast (drop_bit 8 val)) w)"

definition w5100_read16 :: "'w w5100 \<Rightarrow> u16 \<Rightarrow> 'w \<Rightarrow> u16 \<times> 'w" where
  "w5100_read16 C reg w =
     (case reg_in C reg w of (hi, w) \<Rightarrow>
      case reg_in C (reg + 1) w of (lo, w) \<Rightarrow> (push_bit 8 (ucast hi) OR ucast lo, w))"

text \<open>The number of bytes received is read again until two readings agree.\<close>

partial_function (option) w5100_get_rx_size :: "'w w5100 \<Rightarrow> 'w \<Rightarrow> (u16 \<times> 'w) option" where
  "w5100_get_rx_size C w =
     (case w5100_read16 C S0_RX_RSR w of (val1, w) \<Rightarrow>
        if val1 \<noteq> 0
        then case w5100_read16 C S0_RX_RSR w of (val2, w) \<Rightarrow>
               if val1 \<noteq> val2 then w5100_get_rx_size C w else Some (val1, w)
        else Some (val1, w))"

text \<open>A command is written to the command register, which reads zero once the chip has taken it.\<close>

partial_function (option) cmd_wait :: "'w w5100 \<Rightarrow> 'w \<Rightarrow> 'w option" where
  "cmd_wait C w = (case reg_in C S0_CR w of (v, w) \<Rightarrow> if v \<noteq> 0 then cmd_wait C w else Some w)"

definition w5100_cmd :: "'w w5100 \<Rightarrow> u8 \<Rightarrow> 'w \<Rightarrow> 'w option" where
  "w5100_cmd C cmd w = cmd_wait C (reg_out C S0_CR cmd w)"

text \<open>The receive and transmit rings of 2048 bytes, indexed by a 16-bit pointer modulo the mask.\<close>

fun recv_loop :: "'w w5100 \<Rightarrow> u16 \<Rightarrow> u16 \<Rightarrow> nat \<Rightarrow> 'w \<Rightarrow> u8 list \<times> 'w" where
  "recv_loop C ptr i 0 w = ([], w)"
| "recv_loop C ptr i (Suc n) w =
     (case reg_in C (S0_RX_BASE + ((ptr + i) AND S0_MASK)) w of (b, w) \<Rightarrow>
      case recv_loop C ptr (i + 1) n w of (bs, w) \<Rightarrow> (b # bs, w))"

definition w5100_recv_bytes :: "'w w5100 \<Rightarrow> u16 \<Rightarrow> 'w \<Rightarrow> (u8 list \<times> 'w) option" where
  "w5100_recv_bytes C len w =
     (case w5100_read16 C S0_RX_RD w of (ptr, w) \<Rightarrow>
      case recv_loop C ptr 0 (unat len) w of (buf, w) \<Rightarrow>
      map_option (\<lambda>w. (buf, w)) (w5100_cmd C CR_RECV (w5100_write16 C S0_RX_RD (ptr + len) w)))"

fun send_loop :: "'w w5100 \<Rightarrow> u16 \<Rightarrow> u16 \<Rightarrow> u8 list \<Rightarrow> 'w \<Rightarrow> 'w" where
  "send_loop C ptr i [] w = w"
| "send_loop C ptr i (b # buf) w =
     send_loop C ptr (i + 1) buf (reg_out C (S0_TX_BASE + ((ptr + i) AND S0_MASK)) b w)"

definition w5100_send_bytes :: "'w w5100 \<Rightarrow> u8 list \<Rightarrow> 'w \<Rightarrow> 'w option" where
  "w5100_send_bytes C buf w =
     (case w5100_read16 C S0_TX_WR w of (ptr, w) \<Rightarrow>
      w5100_cmd C CR_SEND
        (w5100_write16 C S0_TX_WR (ptr + word_of_nat (length buf)) (send_loop C ptr 0 buf w)))"

subsection \<open>The state machine\<close>

datatype estado = ESTADO_HEADER | ESTADO_PAYLOAD

record receiver =
  rmem :: mem
  tamanho_total :: u32
  cabecalho_raw :: "u8 list"
  estado :: estado
  bytes_recebidos :: u32

text \<open>The size of the file, little endian in the first four bytes of the header.\<close>

definition header_size :: "u8 list \<Rightarrow> u32" where
  "header_size h = push_bit 24 (ucast (h ! 3)) OR push_bit 16 (ucast (h ! 2))
     OR push_bit 8 (ucast (h ! 1)) OR ucast (h ! 0)"

definition ack :: "u8 list" where
  "ack = map of_char ''Arq lido''"

definition take_header :: "'w w5100 \<Rightarrow> 'w \<Rightarrow> receiver \<Rightarrow> (int \<times> 'w \<times> receiver) option" where
  "take_header C w s =
     (case w5100_recv_bytes C 21 w of
        None \<Rightarrow> None
      | Some (h, w) \<Rightarrow>
          Some (1, w, s\<lparr>cabecalho_raw := h, tamanho_total := header_size h, bytes_recebidos := 21,
                        estado := ESTADO_PAYLOAD, rmem := wr_bytes (rmem s) BUFFER_ARQUIVO h\<rparr>))"

definition take_payload :: "'w w5100 \<Rightarrow> u16 \<Rightarrow> 'w \<Rightarrow> receiver \<Rightarrow> (int \<times> 'w \<times> receiver) option" where
  "take_payload C rx_avail w s =
     (let restante = tamanho_total s - bytes_recebidos s;
          bloco = (if unat rx_avail < unat restante then rx_avail else ucast restante)
      in case w5100_recv_bytes C bloco w of
           None \<Rightarrow> None
         | Some (bs, w) \<Rightarrow>
             let s = s\<lparr>rmem := wr_bytes (rmem s) (BUFFER_ARQUIVO + bytes_recebidos s) bs,
                       bytes_recebidos := bytes_recebidos s + ucast bloco\<rparr>
             in if tamanho_total s \<le> bytes_recebidos s
                then case w5100_send_bytes C ack w of
                       None \<Rightarrow> None
                     | Some w \<Rightarrow> map_option (\<lambda>w. (0, w, s\<lparr>estado := ESTADO_HEADER\<rparr>)) (w5100_cmd C CR_DISCON w)
                else Some (1, w, s))"

text \<open>One call of \<open>w5100_getter_loop\<close>: the result 1 asks for another call, 0 ends the reception.\<close>

definition w5100_getter_loop :: "'w w5100 \<Rightarrow> 'w \<Rightarrow> receiver \<Rightarrow> (int \<times> 'w \<times> receiver) option" where
  "w5100_getter_loop C w s =
     (case reg_in C S0_SR w of (status, w) \<Rightarrow>
        if status = SOCK_CLOSED then
          map_option (\<lambda>w. (1, w, s\<lparr>estado := ESTADO_HEADER, bytes_recebidos := 0\<rparr>))
            (w5100_cmd C CR_OPEN (w5100_write16 C S0_PORT 4243 (reg_out C S0_MR 1 w)))
        else if status = SOCK_INIT then map_option (\<lambda>w. (1, w, s)) (w5100_cmd C CR_LISTEN w)
        else if status = SOCK_ESTABLISHED then
          (case w5100_get_rx_size C w of
             None \<Rightarrow> None
           | Some (rx_avail, w) \<Rightarrow>
               if estado s = ESTADO_HEADER
               then (if 21 \<le> rx_avail then take_header C w s else Some (1, w, s))
               else if 0 < rx_avail then take_payload C rx_avail w s else Some (1, w, s))
        else if status = SOCK_CLOSE_WAIT then map_option (\<lambda>w. (0, w, s)) (w5100_cmd C CR_DISCON w)
        else Some (1, w, s))"

fun write_list :: "'w w5100 \<Rightarrow> u16 \<Rightarrow> u8 list \<Rightarrow> 'w \<Rightarrow> 'w" where
  "write_list C reg [] w = w"
| "write_list C reg (v # vs) w = write_list C (reg + 1) vs (w5100_write C reg v w)"

definition w5100_init :: "'w w5100 \<Rightarrow> 'w \<Rightarrow> 'w" where
  "w5100_init C w =
     w5100_write C W5100_TMSR 0x55 (w5100_write C W5100_RMSR 0x55
       (write_list C W5100_SUBR [255, 255, 255, 0] (write_list C W5100_GAR [192, 168, 1, 1] w)))"

definition FA_WRITE :: u8 where "FA_WRITE = 0x02"
definition FA_CREATE_ALWAYS :: u8 where "FA_CREATE_ALWAYS = 0x08"

datatype save_result = Invalid_parameters | Open_failed | Write_failed | Close_failed | Saved

definition saving_file :: "('f, 'd) fatfs \<Rightarrow> receiver \<Rightarrow> 'd \<Rightarrow> save_result \<times> 'd" where
  "saving_file F s d =
     (let tamanho = tamanho_total s; dado = BUFFER_ARQUIVO + 21; nome_arquivo = BUFFER_ARQUIVO + 8
      in if dado = 0 \<or> nome_arquivo = 0 \<or> tamanho = 0 then (Invalid_parameters, d)
         else case ff_open F (rmem s) nome_arquivo (FA_WRITE OR FA_CREATE_ALWAYS) d of
           (None, d) \<Rightarrow> (Open_failed, d)
         | (Some arquivo, d) \<Rightarrow>
             (case ff_write F arquivo (rd_bytes (rmem s) dado (unat tamanho)) d of
                (fr, arquivo, d) \<Rightarrow>
                  if fr \<noteq> Some tamanho then (Write_failed, snd (ff_close F arquivo d))
                  else (case ff_close F arquivo d of
                          (None, d) \<Rightarrow> (Close_failed, d)
                        | (Some _, d) \<Rightarrow> (Saved, d))))"

partial_function (option) getter_calls :: "'w w5100 \<Rightarrow> 'w \<Rightarrow> receiver \<Rightarrow> ('w \<times> receiver) option" where
  "getter_calls C w s =
     (case w5100_getter_loop C w s of
        None \<Rightarrow> None
      | Some (resp, w, s) \<Rightarrow> if resp \<noteq> 0 then getter_calls C w s else Some (w, s))"

definition recvmain :: "'w w5100 \<Rightarrow> ('f, 'd) fatfs \<Rightarrow> 'w \<Rightarrow> receiver \<Rightarrow> 'd \<Rightarrow> (save_result \<times> 'w \<times> receiver \<times> 'd) option" where
  "recvmain C F w s d =
     map_option (\<lambda>(w, s). (fst (saving_file F s d), w, s, snd (saving_file F s d)))
       (getter_calls C (w5100_init C w) s)"

end
