(* ===== verification/NetLink.thy ===== *)
theory NetLink
  imports NetRecv
begin

text \<open>
  What the receiver relies on of the network chip, and the proof that under it one file is received
  whole. The contract \<open>chip_ok\<close> states the documented behaviour of socket 0 of the W5100 while the
  connection is up, over a view of the chip: the bytes received and not yet read, the bytes still on
  the network, the two pointers of each ring, and what was transmitted. Time passes at every access:
  bytes move from the network to the receive ring, in order and at most 2048 at a time, and the
  waiting for the next of them is finite.
\<close>

subsection \<open>The contract of the chip\<close>

record sock =
  sk_rx :: "u8 list"
  sk_net :: "u8 list"
  sk_base :: u16
  sk_rd :: u16
  sk_tx :: "u16 \<Rightarrow> u8"
  sk_txbase :: u16
  sk_wr :: u16
  sk_sent :: "u8 list"
  sk_busy :: nat
  sk_delay :: nat

text \<open>
  Passing of time. Nothing is lost or reordered, and while there is room and something to come, every
  access brings a byte or shortens the delay.
\<close>

definition passes :: "sock \<Rightarrow> sock \<Rightarrow> bool" where
  "passes a b \<longleftrightarrow>
     sk_base b = sk_base a \<and> sk_rd b = sk_rd a \<and> sk_tx b = sk_tx a \<and> sk_txbase b = sk_txbase a
     \<and> sk_wr b = sk_wr a \<and> sk_sent b = sk_sent a
     \<and> (\<exists>k. sk_rx b = sk_rx a @ take k (sk_net a) \<and> sk_net b = drop k (sk_net a))
     \<and> length (sk_rx b) \<le> 2048
     \<and> (sk_net b = sk_net a \<and> sk_net a \<noteq> [] \<and> length (sk_rx a) < 2048 \<longrightarrow> sk_delay b < sk_delay a)"

text \<open>The value of a register.\<close>

definition reads :: "sock \<Rightarrow> u16 \<Rightarrow> u8 \<Rightarrow> bool" where
  "reads a r v \<longleftrightarrow>
     (r = S0_SR \<longrightarrow> v = SOCK_ESTABLISHED)
     \<and> (r = S0_CR \<longrightarrow> v = 0 \<longleftrightarrow> sk_busy a = 0)
     \<and> (r = S0_RX_RSR \<longrightarrow> v = word_of_nat (length (sk_rx a) div 256))
     \<and> (r = S0_RX_RSR + 1 \<longrightarrow> v = word_of_nat (length (sk_rx a)))
     \<and> (r = S0_RX_RD \<longrightarrow> v = ucast (drop_bit 8 (sk_rd a))) \<and> (r = S0_RX_RD + 1 \<longrightarrow> v = ucast (sk_rd a))
     \<and> (r = S0_TX_WR \<longrightarrow> v = ucast (drop_bit 8 (sk_wr a))) \<and> (r = S0_TX_WR + 1 \<longrightarrow> v = ucast (sk_wr a))
     \<and> (\<forall>i < length (sk_rx a). r = S0_RX_BASE + ((sk_base a + word_of_nat i) AND S0_MASK) \<longrightarrow> v = sk_rx a ! i)"

text \<open>
  The effect of a write: a byte of a pointer, a byte of the transmit ring, or a command. \<open>CR_RECV\<close>
  releases the bytes up to the read pointer and \<open>CR_SEND\<close> transmits those up to the write pointer.
\<close>

definition hi_byte :: "u16 \<Rightarrow> u8 \<Rightarrow> u16" where
  "hi_byte p v = push_bit 8 (ucast v) OR (p AND 0x00FF)"

definition lo_byte :: "u16 \<Rightarrow> u8 \<Rightarrow> u16" where
  "lo_byte p v = (p AND 0xFF00) OR ucast v"

definition sends :: "sock \<Rightarrow> u8 list" where
  "sends a = map (\<lambda>i. sk_tx a (S0_TX_BASE + ((sk_txbase a + word_of_nat i) AND S0_MASK))) [0..<unat (sk_wr a - sk_txbase a)]"

definition writes :: "sock \<Rightarrow> u16 \<Rightarrow> u8 \<Rightarrow> sock" where
  "writes a r v =
     (if r = S0_RX_RD then a\<lparr>sk_rd := hi_byte (sk_rd a) v\<rparr>
      else if r = S0_RX_RD + 1 then a\<lparr>sk_rd := lo_byte (sk_rd a) v\<rparr>
      else if r = S0_TX_WR then a\<lparr>sk_wr := hi_byte (sk_wr a) v\<rparr>
      else if r = S0_TX_WR + 1 then a\<lparr>sk_wr := lo_byte (sk_wr a) v\<rparr>
      else if S0_TX_BASE \<le> r \<and> r < S0_TX_BASE + 0x0800 then a\<lparr>sk_tx := (sk_tx a)(r := v)\<rparr>
      else if r = S0_CR \<and> v = CR_RECV then a\<lparr>sk_rx := drop (unat (sk_rd a - sk_base a)) (sk_rx a), sk_base := sk_rd a\<rparr>
      else if r = S0_CR \<and> v = CR_SEND then a\<lparr>sk_sent := sk_sent a @ sends a, sk_txbase := sk_wr a\<rparr>
      else a)"

text \<open>
  \<open>up w\<close>: the connection is established. It stays so until the receiver disconnects; the
  disconnection is taken like any command and transmits nothing.
\<close>

definition chip_ok :: "'w w5100 \<Rightarrow> ('w \<Rightarrow> sock) \<Rightarrow> ('w \<Rightarrow> bool) \<Rightarrow> bool" where
  "chip_ok C view up \<longleftrightarrow>
     (\<forall>w r. up w \<longrightarrow> (case reg_in C r w of (v, w') \<Rightarrow>
        up w' \<and> reads (view w) r v \<and> passes (view w) (view w')
        \<and> (sk_busy (view w') < sk_busy (view w) \<or> sk_busy (view w') = 0)))
     \<and> (\<forall>w r v. up w \<and> \<not> (r = S0_CR \<and> v = CR_DISCON) \<longrightarrow>
          up (reg_out C r v w) \<and> passes (writes (view w) r v) (view (reg_out C r v w)))
     \<and> (\<forall>w. up w \<longrightarrow> (\<exists>w'. w5100_cmd C CR_DISCON w = Some w' \<and> sk_sent (view w') = sk_sent (view w)))"

text \<open>The bytes of the connection that the receiver has not taken yet.\<close>

abbreviation stream :: "sock \<Rightarrow> u8 list" where
  "stream a \<equiv> sk_rx a @ sk_net a"

subsection \<open>Time\<close>

lemma passes_stream: "passes a b \<Longrightarrow> stream b = stream a"
  by (auto simp: passes_def)

lemma passes_rx: "passes a b \<Longrightarrow> \<exists>xs. sk_rx b = sk_rx a @ xs"
  by (auto simp: passes_def)

lemma passes_frame:
  "passes a b \<Longrightarrow> sk_base b = sk_base a \<and> sk_rd b = sk_rd a \<and> sk_tx b = sk_tx a \<and> sk_txbase b = sk_txbase a
     \<and> sk_wr b = sk_wr a \<and> sk_sent b = sk_sent a \<and> length (sk_rx b) \<le> 2048 \<and> length (sk_net b) \<le> length (sk_net a)"
  by (auto simp: passes_def)

lemma passes_same: "passes a b \<Longrightarrow> length (sk_net b) = length (sk_net a) \<Longrightarrow> sk_net b = sk_net a \<and> sk_rx b = sk_rx a"
  using passes_stream [of a b] by (simp add: append_eq_append_conv)

lemma passes_trans: assumes p: "passes a b" and q: "passes b c" shows "passes a c"
proof -
  obtain k where k: "sk_rx b = sk_rx a @ take k (sk_net a)" "sk_net b = drop k (sk_net a)"
    using p by (auto simp: passes_def)
  obtain j where j: "sk_rx c = sk_rx b @ take j (sk_net b)" "sk_net c = drop j (sk_net b)"
    using q by (auto simp: passes_def)
  have "sk_rx c = sk_rx a @ take (k + j) (sk_net a)" using k j by (simp add: take_add)
  moreover have "sk_net c = drop (k + j) (sk_net a)" using k j by (simp add: add.commute)
  moreover have "sk_delay c < sk_delay a" if "sk_net c = sk_net a" "sk_net a \<noteq> []" "length (sk_rx a) < 2048"
  proof -
    have "length (sk_net b) = length (sk_net a)"
      using that(1) passes_frame [OF p] passes_frame [OF q] by simp
    then have "sk_net b = sk_net a" "sk_rx b = sk_rx a" using passes_same [OF p] by blast+
    then show ?thesis using that p q by (auto simp: passes_def)
  qed
  ultimately show ?thesis using passes_frame [OF p] passes_frame [OF q] unfolding passes_def by metis
qed

subsection \<open>Registers of two bytes\<close>

lemma chip_read:
  assumes "chip_ok C view up" and "up w" and "reg_in C r w = (v, w')"
  shows "up w' \<and> reads (view w) r v \<and> passes (view w) (view w') \<and> (sk_busy (view w') < sk_busy (view w) \<or> sk_busy (view w') = 0)"
  using conjunct1 [OF assms(1) [unfolded chip_ok_def], rule_format, OF assms(2), of r] assms(3) by simp

lemma chip_write:
  assumes "chip_ok C view up" and "up w" and "\<not> (r = S0_CR \<and> v = CR_DISCON)"
  shows "up (reg_out C r v w) \<and> passes (writes (view w) r v) (view (reg_out C r v w))"
  using assms unfolding chip_ok_def by blast

lemmas register_defs = S0_MR_def S0_CR_def S0_SR_def S0_PORT_def S0_TX_WR_def S0_RX_RSR_def S0_RX_RD_def
  S0_TX_BASE_def S0_RX_BASE_def S0_MASK_def CR_OPEN_def CR_LISTEN_def CR_DISCON_def CR_SEND_def CR_RECV_def

lemma join16 [simp]: "push_bit 8 (ucast (ucast (drop_bit 8 p) :: u8)) OR ucast (ucast p :: u8) = (p :: u16)"
  by (rule bit_word_eqI) (auto simp: bit_simps dest: bit_imp_le_length)

lemma hi_lo_byte [simp]: "lo_byte (hi_byte p (ucast (drop_bit 8 v))) (ucast v) = v"
proof (rule bit_word_eqI)
  fix n :: nat
  assume "n < LENGTH(16)"
  moreover have "bit (0xFF00 :: u16) n = (8 \<le> n)" if "n < 16" using that by (auto simp: less_Suc_eq numeral_eq_Suc)
  moreover have "bit (0x00FF :: u16) n = (n < 8)" if "n < 16" using that by (auto simp: less_Suc_eq numeral_eq_Suc)
  ultimately show "bit (lo_byte (hi_byte p (ucast (drop_bit 8 v))) (ucast v)) n = bit v n"
    by (auto simp: lo_byte_def hi_byte_def bit_simps)
qed

lemma read_pointer:
  assumes "chip_ok C view up" and "up w" and "w5100_read16 C r w = (p, w')"
    and law: "\<And>a v. reads a r v \<Longrightarrow> v = ucast (drop_bit 8 (f a))" "\<And>a v. reads a (r + 1) v \<Longrightarrow> v = ucast (f a)"
    and frame: "\<And>a b. passes a b \<Longrightarrow> f b = f a"
  shows "up w' \<and> passes (view w) (view w') \<and> p = f (view w)"
proof -
  obtain h w1 l where 1: "reg_in C r w = (h, w1)" and 2: "reg_in C (r + 1) w1 = (l, w')"
    and p: "p = push_bit 8 (ucast h) OR ucast l"
    using assms(3) by (auto simp: w5100_read16_def split: prod.splits)
  note r1 = chip_read [OF assms(1,2) 1]
  note r2 = chip_read [OF assms(1) conjunct1 [OF r1] 2]
  have "h = ucast (drop_bit 8 (f (view w)))" "l = ucast (f (view w1))" using r1 r2 law by blast+
  then show ?thesis using r1 r2 frame [of "view w" "view w1"] passes_trans [of "view w" "view w1" "view w'"]
    by (simp add: p)
qed

lemma read_RX_RD:
  assumes "chip_ok C view up" and "up w" and "w5100_read16 C S0_RX_RD w = (p, w')"
  shows "up w' \<and> passes (view w) (view w') \<and> p = sk_rd (view w)"
  by (rule read_pointer [OF assms]) (simp_all add: reads_def passes_frame)

lemma read_TX_WR:
  assumes "chip_ok C view up" and "up w" and "w5100_read16 C S0_TX_WR w = (p, w')"
  shows "up w' \<and> passes (view w) (view w') \<and> p = sk_wr (view w)"
  by (rule read_pointer [OF assms]) (simp_all add: reads_def passes_frame)

text \<open>A torn reading of a count that only grows is at most the count at its end.\<close>

lemma torn_count:
  assumes "a \<le> b" and "b \<le> 2048"
  shows "unat (push_bit 8 (ucast (word_of_nat (a div 256) :: u8)) OR ucast (word_of_nat b :: u8) :: u16) = 256 * (a div 256) + b mod 256"
proof -
  let ?h = "ucast (word_of_nat (a div 256) :: u8) :: u16" and ?l = "ucast (word_of_nat b :: u8) :: u16"
  have "a div 256 < 256" using assms by simp
  then have h: "unat ?h = a div 256" by (simp add: unsigned_ucast_eq unat_of_nat take_bit_nat_eq_self)
  have l: "unat ?l = b mod 256" by (simp add: unsigned_ucast_eq unat_of_nat take_bit_nat_eq_self)
  have "push_bit 8 ?h OR ?l = push_bit 8 ?h + ?l"
    by (rule disjunctive_add_eq_or [symmetric], rule bit_word_eqI) (auto simp: bit_simps dest: bit_imp_le_length)
  moreover have "unat (push_bit 8 ?h) = 256 * (a div 256)"
    using assms h by (simp add: push_bit_eq_mult unat_word_ariths)
  ultimately show ?thesis using l assms by (simp add: unat_word_ariths)
qed

lemma read_RX_RSR:
  assumes "chip_ok C view up" and "up w" and "length (sk_rx (view w)) \<le> 2048" and "w5100_read16 C S0_RX_RSR w = (v, w')"
  shows "up w' \<and> passes (view w) (view w') \<and> unat v \<le> length (sk_rx (view w'))
    \<and> (length (sk_net (view w')) = length (sk_net (view w)) \<longrightarrow> unat v = length (sk_rx (view w)))"
proof -
  obtain h w1 l where 1: "reg_in C S0_RX_RSR w = (h, w1)" and 2: "reg_in C (S0_RX_RSR + 1) w1 = (l, w')"
    and v: "v = push_bit 8 (ucast h) OR ucast l"
    using assms(4) by (auto simp: w5100_read16_def split: prod.splits)
  note r1 = chip_read [OF assms(1,2) 1] 
  note r2 = chip_read [OF assms(1) conjunct1 [OF r1] 2]
  have p: "passes (view w) (view w1)" "passes (view w1) (view w')" using r1 r2 by simp_all
  let ?a = "length (sk_rx (view w))" and ?b = "length (sk_rx (view w1))"
  have "h = word_of_nat (?a div 256)" "l = word_of_nat ?b" using r1 r2 by (simp_all add: reads_def)
  moreover have ab: "?a \<le> ?b" "?b \<le> 2048" "?b \<le> length (sk_rx (view w'))"
    using passes_rx [OF p(1)] passes_rx [OF p(2)] passes_frame [OF p(1)] by auto
  ultimately have u: "unat v = 256 * (?a div 256) + ?b mod 256" using torn_count [of ?a ?b] by (simp add: v)
  have "unat v \<le> ?b" unfolding u
    using ab(1) by (metis add_mono div_le_mono mult_div_mod_eq mult_le_mono2 order_refl)
  moreover have "unat v = ?a" if "length (sk_net (view w')) = length (sk_net (view w))"
  proof -
    have "length (sk_net (view w1)) = length (sk_net (view w))"
      using that passes_frame [OF p(1)] passes_frame [OF p(2)] by simp
    then have "?b = ?a" using passes_same [OF p(1)] by simp
    then show ?thesis unfolding u by simp
  qed
  ultimately show ?thesis using ab r2 passes_trans [OF p] by simp
qed

subsection \<open>The waits end\<close>

lemma cmd_wait_ends:
  assumes ok: "chip_ok C view up"
  shows "up w \<Longrightarrow> \<exists>w'. cmd_wait C w = Some w' \<and> up w' \<and> passes (view w) (view w')"
proof (induction "sk_busy (view w)" arbitrary: w rule: less_induct)
  case less
  obtain v w1 where r: "reg_in C S0_CR w = (v, w1)" by force
  note c = chip_read [OF ok less.prems r]
  show ?case
  proof (cases "v = 0")
    case True
    then show ?thesis using c r by (subst cmd_wait.simps) simp
  next
    case False
    then have "sk_busy (view w) \<noteq> 0" using c by (auto simp: reads_def)
    then have "sk_busy (view w1) < sk_busy (view w)" using c by auto
    then obtain w' where "cmd_wait C w1 = Some w'" "up w'" "passes (view w1) (view w')"
      using less.hyps c by blast
    then show ?thesis using False r c passes_trans by (subst cmd_wait.simps) auto
  qed
qed

lemma cmd_ends:
  assumes "chip_ok C view up" and "up w" and "cmd \<noteq> CR_DISCON"
  shows "\<exists>w'. w5100_cmd C cmd w = Some w' \<and> up w' \<and> passes (writes (view w) S0_CR cmd) (view w')"
proof -
  let ?w = "reg_out C S0_CR cmd w"
  have c: "up ?w" "passes (writes (view w) S0_CR cmd) (view ?w)" using chip_write [OF assms(1,2)] assms(3) by auto
  show ?thesis using cmd_wait_ends [OF assms(1) c(1)] passes_trans [OF c(2)] by (auto simp: w5100_cmd_def)
qed

lemma get_rx_size_ends:
  assumes ok: "chip_ok C view up"
  shows "up w \<Longrightarrow> length (sk_rx (view w)) \<le> 2048 \<Longrightarrow>
    \<exists>v w'. w5100_get_rx_size C w = Some (v, w') \<and> up w' \<and> passes (view w) (view w')
      \<and> unat v \<le> length (sk_rx (view w'))
      \<and> (length (sk_net (view w')) = length (sk_net (view w)) \<longrightarrow> unat v = length (sk_rx (view w)))"
proof (induction "length (sk_net (view w))" arbitrary: w rule: less_induct)
  case less
  obtain v1 w1 where 1: "w5100_read16 C S0_RX_RSR w = (v1, w1)" by force
  note c1 = read_RX_RSR [OF ok less.prems 1]
  have full1: "length (sk_rx (view w1)) \<le> 2048" using c1 passes_frame by blast
  obtain v2 w2 where 2: "w5100_read16 C S0_RX_RSR w1 = (v2, w2)" by force
  note c2 = read_RX_RSR [OF ok conjunct1 [OF c1] full1 2]
  have p: "passes (view w) (view w1)" "passes (view w1) (view w2)" "passes (view w) (view w2)"
    using c1 c2 passes_trans by blast+
  consider "v1 = 0" | "v1 \<noteq> 0" "v1 = v2" | "v1 \<noteq> 0" "v1 \<noteq> v2" by blast
  then show ?case
  proof cases
    case 1
    then have "w5100_get_rx_size C w = Some (v1, w1)" using \<open>w5100_read16 C S0_RX_RSR w = (v1, w1)\<close>
      by (subst w5100_get_rx_size.simps) simp
    then show ?thesis using c1 by blast
  next
    case 2
    then have "w5100_get_rx_size C w = Some (v1, w2)" using 1 \<open>w5100_read16 C S0_RX_RSR w1 = (v2, w2)\<close>
      by (subst w5100_get_rx_size.simps) simp
    moreover have "unat v1 = length (sk_rx (view w))" if "length (sk_net (view w2)) = length (sk_net (view w))"
      using that c1 passes_frame [OF p(1)] passes_frame [OF p(2)] by auto
    ultimately show ?thesis using c2 p(3) 2(2) by blast
  next
    case 3
    have "length (sk_net (view w2)) \<noteq> length (sk_net (view w))"
    proof
      assume e: "length (sk_net (view w2)) = length (sk_net (view w))"
      have e1: "length (sk_net (view w1)) = length (sk_net (view w))" and e2: "length (sk_net (view w2)) = length (sk_net (view w1))"
        using e passes_frame [OF p(1)] passes_frame [OF p(2)] by auto
      then have "unat v1 = unat v2" using c1 c2 passes_same [OF p(1) e1] by simp
      then show False using 3 by (simp add: word_unat_eq_iff)
    qed
    then have l: "length (sk_net (view w2)) < length (sk_net (view w))" using passes_frame [OF p(3)] by linarith
    have "length (sk_rx (view w2)) \<le> 2048" using passes_frame [OF p(3)] by blast
    from less.hyps [OF l conjunct1 [OF c2] this] obtain v w' where
      r: "w5100_get_rx_size C w2 = Some (v, w')" "up w'" "passes (view w2) (view w')"
        "unat v \<le> length (sk_rx (view w'))" by blast
    have "length (sk_net (view w')) \<noteq> length (sk_net (view w))" using l passes_frame [OF r(3)] by linarith
    moreover have "w5100_get_rx_size C w = Some (v, w')" using 3 1 2 r(1) by (subst w5100_get_rx_size.simps) simp
    ultimately show ?thesis using r p(3) passes_trans by blast
  qed
qed

subsection \<open>Taking and sending bytes\<close>

lemma passes_upd:
  assumes "passes a b"
  shows "passes (a\<lparr>sk_rd := x\<rparr>) (b\<lparr>sk_rd := x\<rparr>)" "passes (a\<lparr>sk_wr := x\<rparr>) (b\<lparr>sk_wr := x\<rparr>)"
    "passes (a\<lparr>sk_tx := f\<rparr>) (b\<lparr>sk_tx := f\<rparr>)"
  using assms by (auto simp: passes_def)

lemma write16_RX_RD:
  assumes ok: "chip_ok C view up" and "up w"
  shows "up (w5100_write16 C S0_RX_RD p w) \<and> passes ((view w)\<lparr>sk_rd := p\<rparr>) (view (w5100_write16 C S0_RX_RD p w))"
proof -
  let ?w1 = "reg_out C S0_RX_RD (ucast (drop_bit 8 p)) w"
  have 1: "up ?w1" "passes (writes (view w) S0_RX_RD (ucast (drop_bit 8 p))) (view ?w1)"
    using chip_write [OF assms, of S0_RX_RD "ucast (drop_bit 8 p)"] by (auto simp: S0_RX_RD_def S0_CR_def)
  have 2: "up (reg_out C (S0_RX_RD + 1) (ucast p) ?w1)"
    "passes (writes (view ?w1) (S0_RX_RD + 1) (ucast p)) (view (reg_out C (S0_RX_RD + 1) (ucast p) ?w1))"
    using chip_write [OF ok 1(1), of "S0_RX_RD + 1" "ucast p"] by (auto simp: S0_RX_RD_def S0_CR_def)
  have "passes ((view w)\<lparr>sk_rd := hi_byte (sk_rd (view w)) (ucast (drop_bit 8 p))\<rparr>) (view ?w1)"
    using 1(2) by (simp add: writes_def)
  from passes_upd(1) [OF this, of p] passes_frame [OF this] have "passes ((view w)\<lparr>sk_rd := p\<rparr>) (writes (view ?w1) (S0_RX_RD + 1) (ucast p))"
    by (simp add: writes_def register_defs)
  with 2 show ?thesis using passes_trans by (auto simp: w5100_write16_def)
qed

lemma write16_TX_WR:
  assumes ok: "chip_ok C view up" and "up w"
  shows "up (w5100_write16 C S0_TX_WR p w) \<and> passes ((view w)\<lparr>sk_wr := p\<rparr>) (view (w5100_write16 C S0_TX_WR p w))"
proof -
  let ?w1 = "reg_out C S0_TX_WR (ucast (drop_bit 8 p)) w"
  have 1: "up ?w1" "passes (writes (view w) S0_TX_WR (ucast (drop_bit 8 p))) (view ?w1)"
    using chip_write [OF assms, of S0_TX_WR "ucast (drop_bit 8 p)"] by (auto simp: S0_TX_WR_def S0_CR_def)
  have 2: "up (reg_out C (S0_TX_WR + 1) (ucast p) ?w1)"
    "passes (writes (view ?w1) (S0_TX_WR + 1) (ucast p)) (view (reg_out C (S0_TX_WR + 1) (ucast p) ?w1))"
    using chip_write [OF ok 1(1), of "S0_TX_WR + 1" "ucast p"] by (auto simp: S0_TX_WR_def S0_CR_def)
  have "passes ((view w)\<lparr>sk_wr := hi_byte (sk_wr (view w)) (ucast (drop_bit 8 p))\<rparr>) (view ?w1)"
    using 1(2) by (simp add: writes_def register_defs)
  from passes_upd(2) [OF this, of p] passes_frame [OF this] have "passes ((view w)\<lparr>sk_wr := p\<rparr>) (writes (view ?w1) (S0_TX_WR + 1) (ucast p))"
    by (simp add: writes_def register_defs)
  with 2 show ?thesis using passes_trans by (auto simp: w5100_write16_def)
qed

text \<open>No time at all, or some.\<close>

abbreviation passes0 :: "sock \<Rightarrow> sock \<Rightarrow> bool" where
  "passes0 a b \<equiv> a = b \<or> passes a b"

lemma passes_then: "passes a b \<Longrightarrow> passes0 b c \<Longrightarrow> passes a c"
  by (auto intro: passes_trans)

lemma passes0_frame:
  "passes0 a b \<Longrightarrow> sk_tx b = sk_tx a \<and> sk_txbase b = sk_txbase a \<and> sk_sent b = sk_sent a"
  using passes_frame by auto

lemma recv_loop_reads:
  assumes ok: "chip_ok C view up"
  shows "up w \<Longrightarrow> i + n \<le> length (sk_rx (view w)) \<Longrightarrow>
    \<exists>w'. recv_loop C (sk_base (view w)) (word_of_nat i) n w = (take n (drop i (sk_rx (view w))), w')
      \<and> up w' \<and> passes0 (view w) (view w')"
proof (induction n arbitrary: i w)
  case (Suc n)
  let ?r = "S0_RX_BASE + ((sk_base (view w) + word_of_nat i) AND S0_MASK)"
  obtain b w1 where 1: "reg_in C ?r w = (b, w1)" by force
  note c = chip_read [OF ok Suc.prems(1) 1]
  have i: "i < length (sk_rx (view w))" using Suc.prems(2) by simp
  then have b: "b = sk_rx (view w) ! i" using c unfolding reads_def by blast
  obtain xs where x: "sk_rx (view w1) = sk_rx (view w) @ xs" using passes_rx [of "view w" "view w1"] c by blast
  have base: "sk_base (view w1) = sk_base (view w)" using c passes_frame by blast
  obtain w' where 2: "recv_loop C (sk_base (view w1)) (word_of_nat (Suc i)) n w1 = (take n (drop (Suc i) (sk_rx (view w1))), w')"
    "up w'" "passes0 (view w1) (view w')"
    using Suc.IH [of w1 "Suc i"] c Suc.prems(2) x by auto
  have "take n (drop (Suc i) (sk_rx (view w1))) = take n (drop (Suc i) (sk_rx (view w)))"
    using x Suc.prems(2) by simp
  then have "recv_loop C (sk_base (view w)) (word_of_nat i) (Suc n) w = (take (Suc n) (drop i (sk_rx (view w))), w')"
    using 1 2(1) b i by (simp add: base add.commute Cons_nth_drop_Suc [symmetric])
  moreover have "passes0 (view w) (view w')" using c 2(3) passes_trans by metis
  ultimately show ?case using 2(2) by blast
qed simp

lemma writes_CR_RECV:
  "writes a S0_CR CR_RECV = a\<lparr>sk_rx := drop (unat (sk_rd a - sk_base a)) (sk_rx a), sk_base := sk_rd a\<rparr>"
  by (simp add: writes_def register_defs)

lemma writes_CR_SEND: "writes a S0_CR CR_SEND = a\<lparr>sk_sent := sk_sent a @ sends a, sk_txbase := sk_wr a\<rparr>"
  by (simp add: writes_def register_defs)

text \<open>After \<open>n\<close> bytes were taken: both pointers moved on, the transmit side as it was.\<close>

definition took :: "nat \<Rightarrow> sock \<Rightarrow> sock \<Rightarrow> bool" where
  "took n a b \<longleftrightarrow> stream b = drop n (stream a) \<and> sk_rd b = sk_base b \<and> length (sk_rx b) \<le> 2048
     \<and> sk_wr b = sk_wr a \<and> sk_txbase b = sk_txbase a \<and> sk_sent b = sk_sent a"

lemma recv_bytes_takes:
  assumes ok: "chip_ok C view up" and "up w" and rd: "sk_rd (view w) = sk_base (view w)"
    and len: "unat len \<le> length (sk_rx (view w))"
  shows "\<exists>w'. w5100_recv_bytes C len w = Some (take (unat len) (sk_rx (view w)), w') \<and> up w'
    \<and> took (unat len) (view w) (view w')"
proof -
  obtain p w1 where 1: "w5100_read16 C S0_RX_RD w = (p, w1)" by force
  note c1 = read_RX_RD [OF ok assms(2) 1]
  obtain xs where x: "sk_rx (view w1) = sk_rx (view w) @ xs" using passes_rx c1 by blast
  have p: "p = sk_base (view w1)" using c1 rd passes_frame [of "view w" "view w1"] by simp
  have "0 + unat len \<le> length (sk_rx (view w1))" using x len by simp
  from recv_loop_reads [OF ok conjunct1 [OF c1] this] obtain w2 where
    2: "recv_loop C p 0 (unat len) w1 = (take (unat len) (sk_rx (view w)), w2)" "up w2" "passes0 (view w1) (view w2)"
    using x len by (auto simp: p)
  have p2: "passes (view w) (view w2)" using c1 2(3) passes_trans by metis
  let ?p = "sk_base (view w) + len"
  let ?w3 = "w5100_write16 C S0_RX_RD ?p w2"
  note c3 = write16_RX_RD [OF ok 2(2), of ?p]
  obtain w4 where 4: "w5100_cmd C CR_RECV ?w3 = Some w4" "up w4" "passes (writes (view ?w3) S0_CR CR_RECV) (view w4)"
    using cmd_ends [OF ok conjunct1 [OF c3], of CR_RECV] by (auto simp: CR_RECV_def CR_DISCON_def)
  have p3: "passes ((view w)\<lparr>sk_rd := ?p\<rparr>) (view ?w3)"
    using passes_upd(1) [OF p2, of ?p] c3 passes_trans by blast
  let ?b = "view ?w3"
  have b: "sk_rd ?b = ?p" "sk_base ?b = sk_base (view w)" "sk_wr ?b = sk_wr (view w)" "sk_txbase ?b = sk_txbase (view w)"
    "sk_sent ?b = sk_sent (view w)" using passes_frame [OF p3] by simp_all
  have st: "stream ?b = stream (view w)" using passes_stream [OF p3] by simp
  obtain ys where y: "sk_rx ?b = sk_rx (view w) @ ys" using passes_rx [OF p3] by auto
  have "writes ?b S0_CR CR_RECV = ?b\<lparr>sk_rx := drop (unat len) (sk_rx ?b), sk_base := ?p\<rparr>"
    using b by (simp add: writes_CR_RECV)
  moreover have "drop (unat len) (sk_rx ?b) @ sk_net ?b = drop (unat len) (stream (view w))"
    using len y by (simp flip: st)
  ultimately have "took (unat len) (view w) (view w4)"
    using 4(3) passes_frame [OF 4(3)] passes_stream [OF 4(3)] b unfolding took_def by simp
  moreover have "w5100_recv_bytes C len w = Some (take (unat len) (sk_rx (view w)), w4)"
    using 1 2(1) 4(1) p b(2) c1 rd by (simp add: w5100_recv_bytes_def)
  ultimately show ?thesis using 4(2) by blast
qed

lemma ring_offset: "unat (((p :: u16) + word_of_nat i) AND S0_MASK) = (unat p + i) mod 2048"
proof -
  have m: "x AND S0_MASK = take_bit 11 x" for x :: u16 by (simp add: S0_MASK_def take_bit_eq_mask mask_eq_exp_minus_1)
  have "(unat p + i) mod 65536 mod 2048 = (unat p + i) mod 2048" by (rule mod_mod_cancel) simp
  then show ?thesis
    unfolding m by (simp add: unsigned_take_bit_eq unat_word_ariths unat_of_nat take_bit_eq_mod mod_simps)
qed

lemma ring_index_inj:
  assumes "i < 2048" and "j < 2048" and "((p :: u16) + word_of_nat i) AND S0_MASK = (p + word_of_nat j) AND S0_MASK"
  shows "i = j"
proof -
  have "(unat p + i) mod 2048 = (unat p + j) mod 2048" using assms(3) by (metis ring_offset)
  then have "i mod 2048 = j mod 2048" by (simp add: nat_mod_eq_iff)
  with assms show ?thesis by simp
qed

abbreviation tx_slot :: "u16 \<Rightarrow> nat \<Rightarrow> u16" where
  "tx_slot p i \<equiv> S0_TX_BASE + ((p + word_of_nat i) AND S0_MASK)"

lemma write_tx_slot: "tx_slot p i \<noteq> S0_CR \<and> writes a (tx_slot p i) v = a\<lparr>sk_tx := (sk_tx a)(tx_slot p i := v)\<rparr>"
proof -
  let ?o = "(p + word_of_nat i) AND S0_MASK"
  have "?o \<le> S0_MASK" by (rule word_and_le1)
  then have "unat ?o < 2048" by (simp add: word_le_nat_alt S0_MASK_def)
  then have u: "unat (tx_slot p i) = 16384 + unat ?o" by (simp add: S0_TX_BASE_def unat_word_ariths)
  then have "S0_TX_BASE \<le> tx_slot p i" "tx_slot p i < S0_TX_BASE + 0x0800"
    using \<open>unat ?o < 2048\<close> by (simp_all add: word_le_nat_alt word_less_nat_alt S0_TX_BASE_def)
  moreover have "tx_slot p i \<noteq> S0_RX_RD" "tx_slot p i \<noteq> S0_RX_RD + 1" "tx_slot p i \<noteq> S0_TX_WR" "tx_slot p i \<noteq> S0_TX_WR + 1" "tx_slot p i \<noteq> S0_CR"
    using u by (auto simp: S0_CR_def S0_RX_RD_def S0_TX_WR_def dest!: arg_cong [where f = unat])
  ultimately show ?thesis by (simp add: writes_def)
qed

lemma send_loop_fills:
  assumes ok: "chip_ok C view up"
  shows "up w \<Longrightarrow> i + length buf \<le> 2048 \<Longrightarrow>
    \<exists>f. up (send_loop C p (word_of_nat i) buf w)
      \<and> passes0 ((view w)\<lparr>sk_tx := f\<rparr>) (view (send_loop C p (word_of_nat i) buf w))
      \<and> (\<forall>j < length buf. f (tx_slot p (i + j)) = buf ! j) \<and> (\<forall>j < i. f (tx_slot p j) = sk_tx (view w) (tx_slot p j))"
proof (induction buf arbitrary: i w)
  case Nil
  then show ?case by (intro exI [of _ "sk_tx (view w)"]) simp
next
  case (Cons b buf)
  let ?w1 = "reg_out C (tx_slot p i) b w"
  have c: "up ?w1" "passes ((view w)\<lparr>sk_tx := (sk_tx (view w))(tx_slot p i := b)\<rparr>) (view ?w1)"
    using chip_write [OF ok Cons.prems(1), of "tx_slot p i" b] write_tx_slot [of p i "view w" b] by simp_all
  obtain f where f: "up (send_loop C p (word_of_nat (Suc i)) buf ?w1)"
    "passes0 ((view ?w1)\<lparr>sk_tx := f\<rparr>) (view (send_loop C p (word_of_nat (Suc i)) buf ?w1))"
    "\<forall>j < length buf. f (tx_slot p (Suc i + j)) = buf ! j" "\<forall>j < Suc i. f (tx_slot p j) = sk_tx (view ?w1) (tx_slot p j)"
    using Cons.IH [OF c(1), of "Suc i"] Cons.prems(2) by auto
  have tx: "sk_tx (view ?w1) = (sk_tx (view w))(tx_slot p i := b)" using passes_frame [OF c(2)] by simp
  have "passes ((view w)\<lparr>sk_tx := f\<rparr>) ((view ?w1)\<lparr>sk_tx := f\<rparr>)" using passes_upd(3) [OF c(2), of f] by simp
  then have "passes0 ((view w)\<lparr>sk_tx := f\<rparr>) (view (send_loop C p (word_of_nat (Suc i)) buf ?w1))"
    using passes_then f(2) by blast
  moreover have "f (tx_slot p (i + j)) = (b # buf) ! j" if "j < length (b # buf)" for j
    using that f(3) f(4) tx by (cases j) auto
  moreover have "f (tx_slot p j) = sk_tx (view w) (tx_slot p j)" if j: "j < i" for j
    using f(4) tx j ring_index_inj [of j i p] Cons.prems(2) by auto
  moreover have "send_loop C p (word_of_nat i) (b # buf) w = send_loop C p (word_of_nat (Suc i)) buf ?w1"
    by (simp add: add.commute)
  moreover note f(1)
  ultimately show ?case by (intro exI [of _ f]) simp
qed

lemma send_bytes_transmits:
  assumes ok: "chip_ok C view up" and "up w" and wr: "sk_wr (view w) = sk_txbase (view w)" and len: "length buf \<le> 2048"
  shows "\<exists>w'. w5100_send_bytes C buf w = Some w' \<and> up w' \<and> sk_sent (view w') = sk_sent (view w) @ buf"
proof -
  obtain p w1 where 1: "w5100_read16 C S0_TX_WR w = (p, w1)" by force
  note c1 = read_TX_WR [OF ok assms(2) 1]
  let ?w2 = "send_loop C p 0 buf w1" and ?p = "p + word_of_nat (length buf)"
  obtain f where 2: "up ?w2" "passes0 ((view w1)\<lparr>sk_tx := f\<rparr>) (view ?w2)" "\<forall>j < length buf. f (tx_slot p j) = buf ! j"
    using send_loop_fills [OF ok conjunct1 [OF c1], of 0 buf p] len by auto
  let ?w3 = "w5100_write16 C S0_TX_WR ?p ?w2"
  note c3 = write16_TX_WR [OF ok 2(1), of ?p]
  obtain w4 where 4: "w5100_cmd C CR_SEND ?w3 = Some w4" "up w4" "passes (writes (view ?w3) S0_CR CR_SEND) (view w4)"
    using cmd_ends [OF ok conjunct1 [OF c3], of CR_SEND] by (auto simp: CR_SEND_def CR_DISCON_def)
  have v1: "sk_wr (view w1) = p" "sk_txbase (view w1) = p" "sk_sent (view w1) = sk_sent (view w)"
    using c1 wr passes_frame [of "view w" "view w1"] by simp_all
  have v2: "sk_tx (view ?w2) = f" "sk_txbase (view ?w2) = p" "sk_sent (view ?w2) = sk_sent (view w)"
    using passes0_frame [OF 2(2)] v1 by simp_all
  have v3: "sk_tx (view ?w3) = f" "sk_txbase (view ?w3) = p" "sk_sent (view ?w3) = sk_sent (view w)" "sk_wr (view ?w3) = ?p"
    using c3 v2 passes_frame [of "(view ?w2)\<lparr>sk_wr := ?p\<rparr>" "view ?w3"] by simp_all
  have "sends (view ?w3) = buf"
  proof (rule nth_equalityI)
    have "unat (?p - p) = length buf" using len by (simp add: unat_of_nat)
    then show "length (sends (view ?w3)) = length buf" by (simp add: sends_def v3)
    fix j assume "j < length (sends (view ?w3))"
    then show "sends (view ?w3) ! j = buf ! j" using 2(3) \<open>unat (?p - p) = length buf\<close> by (simp add: sends_def v3)
  qed
  then have "sk_sent (writes (view ?w3) S0_CR CR_SEND) = sk_sent (view w) @ buf"
    by (simp add: writes_CR_SEND v3)
  then have "sk_sent (view w4) = sk_sent (view w) @ buf" using passes_frame [OF 4(3)] by simp
  moreover have "w5100_send_bytes C buf w = Some w4" using 1 4(1) by (simp add: w5100_send_bytes_def)
  ultimately show ?thesis using 4(2) by blast
qed

subsection \<open>One call of the receiver\<close>

text \<open>
  The state between two calls: \<open>St\<close> is what the peer sends over the whole connection, \<open>taken s\<close> the
  number of its bytes that are in the buffer.
\<close>

definition taken :: "receiver \<Rightarrow> nat" where
  "taken s = (if estado s = ESTADO_HEADER then 0 else unat (bytes_recebidos s))"

definition file_size :: "u8 list \<Rightarrow> nat" where
  "file_size St = unat (header_size (take 21 St))"

definition link_inv :: "('w \<Rightarrow> sock) \<Rightarrow> ('w \<Rightarrow> bool) \<Rightarrow> u8 list \<Rightarrow> mem \<Rightarrow> u8 list \<Rightarrow> 'w \<Rightarrow> receiver \<Rightarrow> bool" where
  "link_inv view up St m sent w s \<longleftrightarrow>
     up w \<and> sk_rd (view w) = sk_base (view w) \<and> sk_wr (view w) = sk_txbase (view w)
     \<and> length (sk_rx (view w)) \<le> 2048 \<and> sk_sent (view w) = sent
     \<and> stream (view w) = drop (taken s) St
     \<and> rmem s = wr_bytes m BUFFER_ARQUIVO (take (taken s) St)
     \<and> (estado s = ESTADO_PAYLOAD \<longrightarrow> unat (tamanho_total s) = file_size St \<and> 21 \<le> taken s \<and> taken s < file_size St)"

definition link_done :: "('w \<Rightarrow> sock) \<Rightarrow> u8 list \<Rightarrow> mem \<Rightarrow> u8 list \<Rightarrow> 'w \<Rightarrow> receiver \<Rightarrow> bool" where
  "link_done view St m sent w s \<longleftrightarrow>
     estado s = ESTADO_HEADER \<and> unat (tamanho_total s) = file_size St
     \<and> rmem s = wr_bytes m BUFFER_ARQUIVO (take (file_size St) St) \<and> sk_sent (view w) = sent @ ack"

text \<open>What is left to do: bytes to take, bytes to come, waiting.\<close>

definition left_over :: "('w \<Rightarrow> sock) \<Rightarrow> u8 list \<Rightarrow> ('w \<times> receiver) rel" where
  "left_over view St = measures [\<lambda>(w, s). file_size St - taken s, \<lambda>(w, s). length (sk_net (view w)), \<lambda>(w, s). sk_delay (view w)]"

lemma wf_left_over: "wf (left_over view St)"
  by (simp add: left_over_def)

lemma header_taken:
  assumes ok: "chip_ok C view up" and "21 < file_size St" and fit: "file_size St \<le> length St"
    and up: "up w" and rd: "sk_rd (view w) = sk_base (view w)" and wr: "sk_wr (view w) = sk_txbase (view w)"
    and st: "stream (view w) = St" and sent: "sk_sent (view w) = sent" and rx: "21 \<le> length (sk_rx (view w))"
    and s: "rmem s = m" 
  shows "\<exists>w' s'. take_header C w s = Some (1, w', s') \<and> link_inv view up St m sent w' s' \<and> taken s' = 21"
proof -
  obtain w' where r: "w5100_recv_bytes C 21 w = Some (take 21 (sk_rx (view w)), w')" "up w'" "took 21 (view w) (view w')"
    using recv_bytes_takes [OF ok up rd, of 21] rx by auto
  have h: "take 21 (sk_rx (view w)) = take 21 St" using rx by (simp flip: st)
  let ?s = "s\<lparr>cabecalho_raw := take 21 St, tamanho_total := header_size (take 21 St), bytes_recebidos := 21,
      estado := ESTADO_PAYLOAD, rmem := wr_bytes m BUFFER_ARQUIVO (take 21 St)\<rparr>"
  have "take_header C w s = Some (1, w', ?s)" using r(1) by (simp add: take_header_def h s)
  moreover have "link_inv view up St m sent w' ?s" "taken ?s = 21"
    using r(2,3) assms(2) wr st sent by (simp_all add: link_inv_def taken_def took_def file_size_def)
  ultimately show ?thesis by blast
qed

lemma payload_taken:
  assumes ok: "chip_ok C view up" and size: "file_size St \<le> length St"
    and inv: "link_inv view up St m sent w0 s" and e: "estado s = ESTADO_PAYLOAD"
    and up: "up w" and p: "passes (view w0) (view w)"
    and rx: "unat v \<le> length (sk_rx (view w))" and v: "0 < v"
  shows "\<exists>w' s'. take_payload C v w s = Some (1, w', s') \<and> link_inv view up St m sent w' s' \<and> taken s < taken s'
    \<or> take_payload C v w s = Some (0, w', s') \<and> link_done view St m sent w' s'"
proof -
  let ?T = "file_size St" and ?n = "taken s"
  have n: "unat (bytes_recebidos s) = ?n" and T: "unat (tamanho_total s) = ?T" and nT: "?n < ?T"
    and st: "stream (view w) = drop ?n St" and mem: "rmem s = wr_bytes m BUFFER_ARQUIVO (take ?n St)"
    and ptr: "sk_rd (view w) = sk_base (view w)" "sk_wr (view w) = sk_txbase (view w)" "sk_sent (view w) = sent"
    using inv e passes_frame [OF p] passes_stream [OF p] by (auto simp: link_inv_def taken_def)
  have T32: "?T < 2 ^ 32" using T unat_less32 [of "tamanho_total s"] by simp
  define restante where "restante = tamanho_total s - bytes_recebidos s"
  define bloco where "bloco = (if unat v < unat restante then v else ucast restante)"
  have r: "unat restante = ?T - ?n" using n T nT by (simp add: restante_def unat_sub_if' word_le_nat_alt)
  let ?k = "min (unat v) (?T - ?n)"
  have k: "unat bloco = ?k"
  proof (cases "unat v < unat restante")
    case False
    have "unat v < 65536" using unsigned_less [of v, where 'a = nat] by simp
    then have "unat (ucast restante :: u16) = unat restante"
      using False by (simp add: unsigned_ucast_eq take_bit_nat_eq_self)
    then show ?thesis using False r by (simp add: bloco_def)
  qed (simp add: bloco_def r)
  have kpos: "0 < ?k" using v nT by (simp add: word_less_nat_alt)
  have krx: "unat bloco \<le> length (sk_rx (view w))" using rx k by simp
  obtain w1 where 1: "w5100_recv_bytes C bloco w = Some (take (unat bloco) (sk_rx (view w)), w1)" "up w1"
      "took (unat bloco) (view w) (view w1)" using recv_bytes_takes [OF ok up ptr(1) krx] by blast
  have "take (unat bloco) (sk_rx (view w)) = take (unat bloco) (stream (view w))" using krx by simp
  then have bs: "take (unat bloco) (sk_rx (view w)) = take ?k (drop ?n St)" by (simp add: st k)
  have len: "length (take ?n St) = ?n" using nT size by simp
  have "length (take ?n St) + length (take ?k (drop ?n St)) \<le> 2 ^ 32" using nT T32 size by simp
  from wr_bytes_after [OF this, of m BUFFER_ARQUIVO]
  have mem': "wr_bytes (rmem s) (BUFFER_ARQUIVO + bytes_recebidos s) (take ?k (drop ?n St))
      = wr_bytes m BUFFER_ARQUIVO (take (?n + ?k) St)"
    unfolding len mem by (simp add: take_add flip: n)
  have u: "unat (bytes_recebidos s + ucast bloco) = ?n + ?k"
  proof -
    have "?k < 2 ^ 32" using T32 by linarith
    then have "unat (ucast bloco :: u32) = ?k" unfolding unsigned_ucast_eq k by (intro take_bit_nat_eq_self) simp
    moreover have "?n + ?k < 2 ^ 32" using nT T32 by simp
    ultimately show ?thesis using n by (simp add: unat_word_ariths)
  qed
  define s1 where "s1 = s\<lparr>rmem := wr_bytes (rmem s) (BUFFER_ARQUIVO + bytes_recebidos s) (take ?k (drop ?n St)),
    bytes_recebidos := bytes_recebidos s + ucast bloco\<rparr>"
  have s1: "rmem s1 = wr_bytes m BUFFER_ARQUIVO (take (?n + ?k) St)" "bytes_recebidos s1 = bytes_recebidos s + ucast bloco"
    "estado s1 = estado s" "tamanho_total s1 = tamanho_total s" unfolding s1_def mem' by simp_all
  have body: "take_payload C v w s = (if tamanho_total s \<le> bytes_recebidos s1
      then case w5100_send_bytes C ack w1 of None \<Rightarrow> None
           | Some w \<Rightarrow> map_option (\<lambda>w. (0, w, s1\<lparr>estado := ESTADO_HEADER\<rparr>)) (w5100_cmd C CR_DISCON w)
      else Some (1, w1, s1))"
    using 1(1) unfolding take_payload_def restante_def [symmetric] Let_def bloco_def [symmetric] s1_def
    by (simp add: bs)
  have fin: "tamanho_total s \<le> bytes_recebidos s1 \<longleftrightarrow> ?T \<le> ?n + ?k" using u T by (simp add: word_le_nat_alt s1(2))
  show ?thesis
  proof (cases "?T \<le> ?n + ?k")
    case True
    then have all: "?n + ?k = ?T" using nT by simp
    have "sk_wr (view w1) = sk_txbase (view w1)" using 1(3) ptr by (simp add: took_def)
    from send_bytes_transmits [OF ok 1(2) this, of ack] obtain w2 where
      2: "w5100_send_bytes C ack w1 = Some w2" "up w2" "sk_sent (view w2) = sk_sent (view w1) @ ack"
      by (auto simp: ack_def)
    obtain w3 where 3: "w5100_cmd C CR_DISCON w2 = Some w3" "sk_sent (view w3) = sk_sent (view w2)"
      using ok 2(2) unfolding chip_ok_def by blast
    have "take_payload C v w s = Some (0, w3, s1\<lparr>estado := ESTADO_HEADER\<rparr>)"
      using body fin True 2(1) 3(1) by simp
    moreover have "link_done view St m sent w3 (s1\<lparr>estado := ESTADO_HEADER\<rparr>)"
      using 2(3) 3(2) 1(3) ptr T all by (simp add: link_done_def s1 took_def)
    ultimately show ?thesis by blast
  next
    case False
    have "taken s1 = ?n + ?k" using u e by (simp add: taken_def s1)
    moreover have "21 \<le> ?n" using inv e by (simp add: link_inv_def)
    ultimately have "link_inv view up St m sent w1 s1"
      using 1(2,3) k ptr T False st e by (simp add: link_inv_def took_def s1 add.commute)
    moreover have "\<not> tamanho_total s \<le> bytes_recebidos s1" using fin False by blast
    then have "take_payload C v w s = Some (1, w1, s1)" using body by simp
    ultimately show ?thesis using \<open>taken s1 = ?n + ?k\<close> kpos by (intro exI [of _ w1] exI [of _ s1]) simp
  qed
qed

lemma established_call:
  assumes ok: "chip_ok C view up" and up: "up w" and full: "length (sk_rx (view w)) \<le> 2048"
  obtains v w2 where
    "w5100_getter_loop C w s =
      (if estado s = ESTADO_HEADER then (if 21 \<le> v then take_header C w2 s else Some (1, w2, s))
       else if 0 < v then take_payload C v w2 s else Some (1, w2, s))"
    "up w2" "passes (view w) (view w2)" "unat v \<le> length (sk_rx (view w2))"
    "length (sk_net (view w2)) = length (sk_net (view w)) \<longrightarrow> unat v = length (sk_rx (view w))"
proof -
  obtain v0 w1 where 0: "reg_in C S0_SR w = (v0, w1)" by force
  note c0 = chip_read [OF ok up 0]
  have v0: "v0 = SOCK_ESTABLISHED" using c0 by (simp add: reads_def)
  have full1: "length (sk_rx (view w1)) \<le> 2048" using c0 passes_frame by blast
  from get_rx_size_ends [OF ok conjunct1 [OF c0] full1] obtain v w2 where
    2: "w5100_get_rx_size C w1 = Some (v, w2)" "up w2" "passes (view w1) (view w2)" "unat v \<le> length (sk_rx (view w2))"
      "length (sk_net (view w2)) = length (sk_net (view w1)) \<longrightarrow> unat v = length (sk_rx (view w1))" by blast
  have "unat v = length (sk_rx (view w))" if e: "length (sk_net (view w2)) = length (sk_net (view w))"
  proof -
    have e1: "length (sk_net (view w1)) = length (sk_net (view w))" and e2: "length (sk_net (view w2)) = length (sk_net (view w1))"
      using e c0 passes_frame [of "view w" "view w1"] passes_frame [OF 2(3)] by auto
    then show ?thesis using 2(5) passes_same [of "view w" "view w1"] c0 by simp
  qed
  moreover have "w5100_getter_loop C w s =
      (if estado s = ESTADO_HEADER then (if 21 \<le> v then take_header C w2 s else Some (1, w2, s))
       else if 0 < v then take_payload C v w2 s else Some (1, w2, s))"
    using 0 2(1) v0 by (simp add: w5100_getter_loop_def SOCK_ESTABLISHED_def SOCK_CLOSED_def SOCK_INIT_def)
  moreover have "passes (view w) (view w2)" using c0 2(3) passes_trans by blast
  ultimately show ?thesis using that 2(2,4) by blast
qed

lemma getter_call:
  assumes ok: "chip_ok C view up" and size: "21 < file_size St" "file_size St \<le> length St"
    and inv: "link_inv view up St m sent w s"
  shows "\<exists>w' s'. w5100_getter_loop C w s = Some (1, w', s') \<and> link_inv view up St m sent w' s'
        \<and> ((w', s'), (w, s)) \<in> left_over view St
    \<or> w5100_getter_loop C w s = Some (0, w', s') \<and> link_done view St m sent w' s'"
proof -
  have up: "up w" and full: "length (sk_rx (view w)) \<le> 2048" using inv by (simp_all add: link_inv_def)
  obtain v w2 where run: "w5100_getter_loop C w s =
      (if estado s = ESTADO_HEADER then (if 21 \<le> v then take_header C w2 s else Some (1, w2, s))
       else if 0 < v then take_payload C v w2 s else Some (1, w2, s))"
    and 2: "up w2" "unat v \<le> length (sk_rx (view w2))"
      "length (sk_net (view w2)) = length (sk_net (view w)) \<longrightarrow> unat v = length (sk_rx (view w))"
    and p: "passes (view w) (view w2)" using established_call [OF ok up full] by blast
  have wait: "link_inv view up St m sent w2 s \<and> ((w2, s), (w, s)) \<in> left_over view St"
    if few: "unat v < 21" "unat v < length (stream (view w))"
  proof -
    have "link_inv view up St m sent w2 s"
      using inv 2(1) passes_frame [OF p] passes_stream [OF p] by (simp add: link_inv_def)
    moreover have "sk_delay (view w2) < sk_delay (view w)" if e: "length (sk_net (view w2)) = length (sk_net (view w))"
    proof -
      have "unat v = length (sk_rx (view w))" using 2(3) e by simp
      then have "sk_net (view w) \<noteq> []" "length (sk_rx (view w)) < 2048" using few by auto
      then show ?thesis using p passes_same [OF p e] by (simp add: passes_def)
    qed
    ultimately show ?thesis using passes_frame [OF p] by (force simp: left_over_def)
  qed
  show ?thesis
  proof (cases "estado s")
    case ESTADO_HEADER
    then have st: "stream (view w) = St" and mem: "rmem s = m" and t: "taken s = 0"
      using inv by (simp_all add: link_inv_def taken_def)
    show ?thesis
    proof (cases "21 \<le> v")
      case True
      then have "21 \<le> length (sk_rx (view w2))" using 2(2) by (simp add: word_le_nat_alt)
      from header_taken [OF ok size 2(1) _ _ _ _ this mem, of sent] obtain w' s' where
        "take_header C w2 s = Some (1, w', s')" "link_inv view up St m sent w' s'" "taken s' = 21"
        using inv passes_frame [OF p] passes_stream [OF p] st by (auto simp: link_inv_def)
      moreover from this have "((w', s'), (w, s)) \<in> left_over view St" using t size by (simp add: left_over_def)
      ultimately show ?thesis using run True ESTADO_HEADER by auto
    next
      case False
      then have "unat v < 21" by (simp add: word_le_nat_alt)
      with wait size st False ESTADO_HEADER run show ?thesis by auto
    qed
  next
    case ESTADO_PAYLOAD
    have st: "length (stream (view w)) = length St - taken s" and nT: "taken s < file_size St"
      using inv ESTADO_PAYLOAD by (simp_all add: link_inv_def)
    show ?thesis
    proof (cases "0 < v")
      case True
      have "taken s < taken s' \<Longrightarrow> ((w', s'), (w, s)) \<in> left_over view St" for w' s'
        using nT by (simp add: left_over_def diff_less_mono2)
      then show ?thesis
        using payload_taken [OF ok size(2) inv ESTADO_PAYLOAD 2(1) p 2(2) True] run True ESTADO_PAYLOAD by auto
    next
      case False
      then have "unat v = 0" by (simp add: word_less_nat_alt)
      moreover have "0 < length (stream (view w))" unfolding st using nT size by linarith
      ultimately have "link_inv view up St m sent w2 s \<and> ((w2, s), (w, s)) \<in> left_over view St" by (intro wait) simp_all
      then show ?thesis using False ESTADO_PAYLOAD run by auto
    qed
  qed
qed

lemma getter_calls_end:
  assumes ok: "chip_ok C view up" and size: "21 < file_size St" "file_size St \<le> length St"
  shows "link_inv view up St m sent w s \<Longrightarrow>
    \<exists>w' s'. getter_calls C w s = Some (w', s') \<and> link_done view St m sent w' s'"
proof (induction "(w, s)" arbitrary: w s rule: wf_induct_rule [OF wf_left_over [of view St]])
  case 1
  from getter_call [OF ok size 1(2)] obtain w' s' where
    "w5100_getter_loop C w s = Some (1, w', s') \<and> link_inv view up St m sent w' s' \<and> ((w', s'), (w, s)) \<in> left_over view St
     \<or> w5100_getter_loop C w s = Some (0, w', s') \<and> link_done view St m sent w' s'" by blast
  then show ?case
  proof
    assume "w5100_getter_loop C w s = Some (1, w', s') \<and> link_inv view up St m sent w' s' \<and> ((w', s'), (w, s)) \<in> left_over view St"
    then show ?thesis using 1(1) by (subst getter_calls.simps) simp
  qed (subst getter_calls.simps, simp)
qed

subsection \<open>Streams that are too short\<close>

text \<open>
  With at most 21 bytes in the whole stream the receiver waits for ever: either the header never
  becomes complete, or it is complete and no byte follows.
\<close>

definition stuck :: "('w \<Rightarrow> sock) \<Rightarrow> ('w \<Rightarrow> bool) \<Rightarrow> 'w \<Rightarrow> receiver \<Rightarrow> bool" where
  "stuck view up w s \<longleftrightarrow>
     up w \<and> sk_rd (view w) = sk_base (view w) \<and> length (sk_rx (view w)) \<le> 2048
     \<and> (if estado s = ESTADO_HEADER then length (stream (view w)) \<le> 21 else stream (view w) = [])"

lemma stuck_call:
  assumes ok: "chip_ok C view up" and st: "stuck view up w s"
  shows "\<exists>w' s'. w5100_getter_loop C w s = Some (1, w', s') \<and> stuck view up w' s'"
proof -
  have up: "up w" "length (sk_rx (view w)) \<le> 2048" using st by (simp_all add: stuck_def)
  obtain v w2 where run: "w5100_getter_loop C w s =
      (if estado s = ESTADO_HEADER then (if 21 \<le> v then take_header C w2 s else Some (1, w2, s))
       else if 0 < v then take_payload C v w2 s else Some (1, w2, s))"
    and 2: "up w2" "unat v \<le> length (sk_rx (view w2))" and p: "passes (view w) (view w2)"
    using established_call [OF ok up] by blast
  have wait: "stuck view up w2 s"
    using st 2(1) passes_frame [OF p] passes_stream [OF p] by (simp add: stuck_def split: if_splits)
  show ?thesis
  proof (cases "estado s = ESTADO_HEADER \<and> 21 \<le> v")
    case True
    then have l: "21 \<le> length (sk_rx (view w2))" using 2(2) by (simp add: word_le_nat_alt)
    have "length (stream (view w2)) \<le> 21" using st True passes_stream [OF p] by (simp add: stuck_def)
    then have e: "drop 21 (stream (view w2)) = []" by (rule drop_all)
    have "sk_rd (view w2) = sk_base (view w2)" using st passes_frame [OF p] by (simp add: stuck_def)
    from recv_bytes_takes [OF ok 2(1) this, of 21] l obtain w' where
      r: "w5100_recv_bytes C 21 w2 = Some (take 21 (sk_rx (view w2)), w')" "up w'" "took 21 (view w2) (view w')" by auto
    define s' where "s' = s\<lparr>cabecalho_raw := take 21 (sk_rx (view w2)), tamanho_total := header_size (take 21 (sk_rx (view w2))),
      bytes_recebidos := 21, estado := ESTADO_PAYLOAD, rmem := wr_bytes (rmem s) BUFFER_ARQUIVO (take 21 (sk_rx (view w2)))\<rparr>"
    have "w5100_getter_loop C w s = Some (1, w', s')" using run r(1) True by (simp add: take_header_def s'_def)
    moreover have "stuck view up w' s'" using r(2,3) e by (simp add: stuck_def took_def s'_def)
    ultimately show ?thesis by blast
  next
    case False
    have "\<not> 0 < v" if "estado s \<noteq> ESTADO_HEADER"
    proof -
      have "stream (view w2) = []" using st that passes_stream [OF p] by (simp add: stuck_def)
      then show ?thesis using 2(2) by (simp add: word_less_nat_alt)
    qed
    then have "w5100_getter_loop C w s = Some (1, w2, s)" using run False by auto
    with wait show ?thesis by blast
  qed
qed

lemma stuck_diverges:
  assumes ok: "chip_ok C view up"
  shows "stuck view up w s \<Longrightarrow> getter_calls C w s = None"
proof -
  have "getter_calls C w s = Some r \<Longrightarrow> C = C \<longrightarrow> \<not> stuck view up w s" for w s r
  proof (erule getter_calls.raw_induct [where P = "\<lambda>D w s r. D = C \<longrightarrow> \<not> stuck view up w s", rotated], intro impI notI)
    fix calls D w s r
    assume IH: "\<And>D w s r. calls D w s = Some r \<Longrightarrow> D = C \<longrightarrow> \<not> stuck view up w s"
      and run: "(case w5100_getter_loop D w s of None \<Rightarrow> None
        | Some (resp, w, s) \<Rightarrow> if resp \<noteq> 0 then calls D w s else Some (w, s)) = Some r"
      and D: "D = C" and st: "stuck view up w s"
    obtain w' s' where "w5100_getter_loop C w s = Some (1, w', s')" "stuck view up w' s'"
      using stuck_call [OF ok st] by blast
    with run IH D show False by auto
  qed
  then show "stuck view up w s \<Longrightarrow> getter_calls C w s = None" by (cases "getter_calls C w s") auto
qed

end
