(* ===== verification/Crc32.thy ===== *)
theory Crc32
  imports OrionBase
begin

text \<open>
  The CRC-32 of the serial tools: \<open>orioncore/shell/crc32.c\<close> on the board, with its loop unrolled
  four times, and \<open>tools/sender/crc32.c\<close> on the host, which reads the file in blocks of 4096 bytes.
  Both look up a table of 256 entries that \<open>crc32_init\<close> builds at run time. The reference is long
  division of polynomials by the IEEE 802.3 generator, on lists of coefficients, which shares nothing
  with the code; the bit-serial shift register between them is only a step of the proof.

  The C library's \<open>fopen\<close> and \<open>fread\<close> are modelled: the files of the host are a map from names to
  contents, an open file is what is left to read of it, and \<open>fread\<close> returns at most what is asked.
\<close>

subsection \<open>The code\<close>

definition CRC32_POLYNOMIAL :: u32 where
  "CRC32_POLYNOMIAL = 0xEDB88320"

text \<open>One round of the inner loop of \<open>crc32_init\<close>, and \<open>k\<close> rounds of it.\<close>

definition crc_round :: "u32 \<Rightarrow> u32" where
  "crc_round c = (if c AND 1 \<noteq> 0 then CRC32_POLYNOMIAL XOR drop_bit 1 c else drop_bit 1 c)"

fun crc_rounds :: "nat \<Rightarrow> u32 \<Rightarrow> u32" where
  "crc_rounds 0 c = c"
| "crc_rounds (Suc k) c = crc_rounds k (crc_round c)"

definition crc32_init :: "u32 list" where
  "crc32_init = map (\<lambda>i. crc_rounds 8 (word_of_nat i)) [0..<256]"

text \<open>The update with one byte, the statement that all loops repeat.\<close>

definition crc_byte :: "u32 list \<Rightarrow> u32 \<Rightarrow> u8 \<Rightarrow> u32" where
  "crc_byte crc32_table crc b = (crc32_table ! unat ((crc XOR ucast b) AND 0xFF)) XOR drop_bit 8 crc"

text \<open>The board: blocks of four bytes, then the bytes that are left.\<close>

fun crc32_update_tail :: "u32 list \<Rightarrow> u32 \<Rightarrow> u8 list \<Rightarrow> u32" where
  "crc32_update_tail crc32_table crc [] = crc"
| "crc32_update_tail crc32_table crc (b # buffer) = crc32_update_tail crc32_table (crc_byte crc32_table crc b) buffer"

fun crc32_update :: "u32 list \<Rightarrow> u32 \<Rightarrow> u8 list \<Rightarrow> u32" where
  "crc32_update crc32_table crc (b0 # b1 # b2 # b3 # buffer) =
     (let crc = crc_byte crc32_table crc b0;
          crc = crc_byte crc32_table crc b1;
          crc = crc_byte crc32_table crc b2;
          crc = crc_byte crc32_table crc b3
      in crc32_update crc32_table crc buffer)"
| "crc32_update crc32_table crc buffer = crc32_update_tail crc32_table crc buffer"

definition crc32_calculate :: "u32 list \<Rightarrow> u8 list \<Rightarrow> u32" where
  "crc32_calculate crc32_table buffer = crc32_update crc32_table 0xFFFFFFFF buffer XOR 0xFFFFFFFF"

text \<open>The host: the plain loop, and the file read block by block.\<close>

fun host_crc32_update :: "u32 list \<Rightarrow> u32 \<Rightarrow> u8 list \<Rightarrow> u32" where
  "host_crc32_update crc32_table crc [] = crc"
| "host_crc32_update crc32_table crc (b # buffer) = host_crc32_update crc32_table (crc_byte crc32_table crc b) buffer"

definition fread :: "nat \<Rightarrow> u8 list \<Rightarrow> u8 list \<times> u8 list" where
  "fread n f = (take n f, drop n f)"

function crc32_file_loop :: "u32 list \<Rightarrow> u32 \<Rightarrow> u8 list \<Rightarrow> u32" where
  "crc32_file_loop crc32_table crc f =
     (case fread 4096 f of (buffer, f') \<Rightarrow>
        if buffer = [] then crc
        else crc32_file_loop crc32_table (host_crc32_update crc32_table crc buffer) f')"
  by pat_completeness auto

termination
  by (relation "measure (\<lambda>(_, _, f). length f)") (auto simp: fread_def)

definition crc32_from_file :: "u32 list \<Rightarrow> (string \<Rightarrow> u8 list option) \<Rightarrow> string \<Rightarrow> u32" where
  "crc32_from_file crc32_table disk filename =
     (case disk filename of
        None \<Rightarrow> 0
      | Some f \<Rightarrow> crc32_file_loop crc32_table 0xFFFFFFFF f XOR 0xFFFFFFFF)"

declare crc32_file_loop.simps [simp del]

subsection \<open>The shift register\<close>

text \<open>
  The register takes one bit at a time: the bit is added to the lowest bit of the register, and the
  register is shifted down once. A byte enters with its least significant bit first.
\<close>

definition crc_bit :: "bool \<Rightarrow> u32 \<Rightarrow> u32" where
  "crc_bit b c = crc_round (c XOR of_bool b)"

definition bits_of_bytes :: "u8 list \<Rightarrow> bool list" where
  "bits_of_bytes bs = concat (map (\<lambda>b. map (bit b) [0..<8]) bs)"

definition crc_register :: "bool list \<Rightarrow> u32" where
  "crc_register bits = fold crc_bit bits 0xFFFFFFFF XOR 0xFFFFFFFF"

subsection \<open>The polynomial\<close>

text \<open>
  What CRC-32 is, without a register, a table or the code's constant: polynomials over the field of
  two elements, written as lists of coefficients with the highest power first. The generator is
  x^32 + x^26 + x^23 + x^22 + x^16 + x^12 + x^11 + x^10 + x^8 + x^7 + x^5 + x^4 + x^2 + x + 1 (IEEE
  802.3). A remainder has 32 coefficients, from x^31 down to x^0; one step of the long division takes
  the next coefficient of the dividend, and where an x^32 appears it subtracts the generator.
\<close>

definition crc32_exponents :: "nat list" where
  "crc32_exponents = [26, 23, 22, 16, 12, 11, 10, 8, 7, 5, 4, 2, 1, 0]"

definition crc32_generator :: "bool list" where
  "crc32_generator = map (\<lambda>i. 31 - i \<in> set crc32_exponents) [0..<32]"

definition divide_step :: "bool \<Rightarrow> bool list \<Rightarrow> bool list" where
  "divide_step b r =
     (let s = tl r @ [b] in if hd r then map2 (\<noteq>) s crc32_generator else s)"

definition polynomial_remainder :: "bool list \<Rightarrow> bool list" where
  "polynomial_remainder m = fold divide_step m (replicate 32 False)"

text \<open>
  The dividend is the message times x^32, with the first 32 coefficients complemented; the checksum
  is the complement of the remainder, the coefficient of x^31 as its lowest bit.
\<close>

definition crc32_dividend :: "bool list \<Rightarrow> bool list" where
  "crc32_dividend bits =
     (let m = bits @ replicate 32 False in map Not (take 32 m) @ drop 32 m)"

definition crc32_of_bits :: "bool list \<Rightarrow> u32" where
  "crc32_of_bits bits = horner_sum of_bool 2 (map Not (polynomial_remainder (crc32_dividend bits)))"

subsection \<open>A round is linear and loses nothing\<close>

lemma crc_round_odd: "crc_round c = (if bit c 0 then CRC32_POLYNOMIAL XOR drop_bit 1 c else drop_bit 1 c)"
proof -
  have "(c AND 1 \<noteq> 0) = bit c 0" by (simp add: and_one_eq bit_0 mod_2_eq_odd)
  then show ?thesis by (simp add: crc_round_def)
qed

lemma crc_round_xor: "crc_round (a XOR b) = crc_round a XOR crc_round b"
  unfolding crc_round_odd by (rule bit_word_eqI) (auto simp: bit_simps)

lemma crc_rounds_xor: "crc_rounds n (a XOR b) = crc_rounds n a XOR crc_rounds n b"
  by (induction n arbitrary: a b) (simp_all add: crc_round_xor)

lemma crc_round_0: "crc_round c = 0 \<Longrightarrow> c = 0"
proof -
  assume z: "crc_round c = 0"
  have "\<not> bit c 0"
  proof
    assume "bit c 0"
    with z have "bit (CRC32_POLYNOMIAL XOR drop_bit 1 c) 31 = bit (0 :: u32) 31" by (simp add: crc_round_odd)
    moreover have "bit CRC32_POLYNOMIAL 31" by (simp add: CRC32_POLYNOMIAL_def)
    moreover have "\<not> bit (drop_bit 1 c) 31" by (auto simp: bit_simps dest: bit_imp_le_length)
    ultimately show False by (simp add: bit_simps)
  qed
  with z have d: "drop_bit 1 c = 0" and o: "\<not> bit c 0" by (simp_all add: crc_round_odd)
  show "c = 0"
  proof (rule bit_word_eqI)
    fix n :: nat
    assume "n < LENGTH(32)"
    have "\<not> bit (drop_bit 1 c) (n - 1)" using d by simp
    with o show "bit c n = bit 0 n" by (cases n) (simp_all add: bit_simps)
  qed
qed

lemma xor_cancel_right: "(a :: u32) XOR c = b XOR c \<Longrightarrow> a = b"
proof -
  assume "a XOR c = b XOR c"
  then have "(a XOR c) XOR c = (b XOR c) XOR c" by simp
  then show ?thesis by (simp add: xor.assoc)
qed

lemma crc_rounds_inj: "crc_rounds n a = crc_rounds n b \<Longrightarrow> a = b"
proof -
  have z: "crc_rounds n c = 0 \<Longrightarrow> c = 0" for c
    by (induction n arbitrary: c) (auto dest: crc_round_0)
  assume "crc_rounds n a = crc_rounds n b"
  then have "crc_rounds n (a XOR b) = 0" by (simp add: crc_rounds_xor)
  then have "a XOR b = 0" by (rule z)
  then have "(a XOR b) XOR b = b" by simp
  then show ?thesis by (simp add: xor.assoc)
qed

lemma crc_rounds_low_clear: "(\<And>i. i < n \<Longrightarrow> \<not> bit c i) \<Longrightarrow> crc_rounds n c = drop_bit n c"
proof (induction n arbitrary: c)
  case (Suc n)
  have "crc_round c = drop_bit 1 c" using Suc.prems [of 0] by (simp add: crc_round_odd)
  moreover have "crc_rounds n (drop_bit 1 c) = drop_bit n (drop_bit 1 c)"
    by (rule Suc.IH) (use Suc.prems in \<open>simp add: bit_simps\<close>)
  ultimately show ?case by simp
qed simp

subsection \<open>Table, unrolled loop and register agree\<close>

lemma crc_byte_rounds: "crc_byte crc32_init c b = crc_rounds 8 (c XOR ucast b)"
proof -
  let ?x = "c XOR ucast b" and ?l = "(c XOR ucast b) AND 0xFF"
  have m: "?l = take_bit 8 ?x" by (simp add: take_bit_eq_mask mask_eq_exp_minus_1)
  have "?l \<le> 0xFF" by (rule word_and_le1)
  then have "unat ?l < 256" by (simp add: word_le_nat_alt)
  then have t: "crc32_init ! unat ?l = crc_rounds 8 ?l" by (simp add: crc32_init_def)
  have "?x = ?l XOR push_bit 8 (drop_bit 8 ?x)"
    unfolding m
  proof (rule bit_word_eqI)
    fix n :: nat
    show "bit ?x n = bit (take_bit 8 ?x XOR push_bit 8 (drop_bit 8 ?x)) n"
      by (cases "n < 8") (auto simp: bit_simps dest: bit_imp_le_length)
  qed
  then have "crc_rounds 8 ?x = crc_rounds 8 ?l XOR crc_rounds 8 (push_bit 8 (drop_bit 8 ?x))"
    by (metis crc_rounds_xor)
  also have "crc_rounds 8 (push_bit 8 (drop_bit 8 ?x)) = drop_bit 8 (push_bit 8 (drop_bit 8 ?x))"
    by (rule crc_rounds_low_clear) (simp add: bit_simps)
  also have "drop_bit 8 (push_bit 8 (drop_bit 8 ?x)) = drop_bit 8 c"
    by (rule bit_word_eqI) (auto simp: bit_simps dest: bit_imp_le_length)
  finally show ?thesis by (simp add: crc_byte_def t)
qed

lemma crc_round_double: "\<not> bit v 31 \<Longrightarrow> crc_round (2 * v) = v"
proof -
  assume v: "\<not> bit v 31"
  have "\<not> bit (2 * v) 0" by (simp add: bit_double_iff)
  then have "crc_round (2 * v) = drop_bit 1 (2 * v)" by (simp add: crc_round_odd)
  also have "\<dots> = v"
  proof (rule bit_word_eqI)
    fix n :: nat
    assume "n < LENGTH(32)"
    then have "n = 31 \<or> Suc n < 32" by auto
    then show "bit (drop_bit 1 (2 * v)) n = bit v n" using v by (auto simp: bit_drop_bit_eq bit_double_iff)
  qed
  finally show ?thesis .
qed

lemma fold_crc_bit:
  "length ws \<le> 32 \<Longrightarrow> fold crc_bit ws c = crc_rounds (length ws) (c XOR horner_sum of_bool 2 ws)"
proof (induction ws arbitrary: c)
  case (Cons w ws)
  let ?h = "horner_sum of_bool 2 ws :: u32"
  have "crc_round (2 * ?h) = ?h"
    by (rule crc_round_double) (use Cons.prems in \<open>simp add: bit_horner_sum_bit_iff\<close>)
  moreover have "horner_sum of_bool 2 (w # ws) = of_bool w XOR 2 * ?h"
    by (rule bit_word_eqI) (use Cons.prems in \<open>auto simp: bit_horner_sum_bit_iff bit_xor_iff bit_double_iff bit_of_bool_iff nth_Cons' simp del: horner_sum_simps\<close>)
  ultimately have "crc_round (c XOR horner_sum of_bool 2 (w # ws)) = crc_bit w c XOR ?h"
    by (simp add: crc_bit_def crc_round_xor xor.assoc del: horner_sum_simps)
  then show ?case using Cons by (simp del: horner_sum_simps)
qed simp

lemma fold_crc_byte_bits: "fold crc_bit (map (bit b) [0..<8]) c = crc_rounds 8 (c XOR ucast (b :: u8))"
proof -
  have "horner_sum of_bool 2 (map (bit b) [0..<8]) = (ucast b :: u32)"
  proof (rule bit_word_eqI)
    fix n :: nat
    assume "n < LENGTH(32)"
    then show "bit (horner_sum of_bool 2 (map (bit b) [0..<8]) :: u32) n = bit (ucast b :: u32) n"
      using bit_imp_le_length [of b n]
      by (cases "n < 8") (auto simp: bit_horner_sum_bit_iff bit_ucast_iff simp del: upt_rec_numeral)
  qed
  then show ?thesis by (simp add: fold_crc_bit del: upt_rec_numeral)
qed

lemma bits_of_bytes_simps [simp]:
  "bits_of_bytes [] = []" "bits_of_bytes (b # bs) = map (bit b) [0..<8] @ bits_of_bytes bs"
  by (simp_all add: bits_of_bytes_def)

lemma host_update_bits: "host_crc32_update crc32_init c bs = fold crc_bit (bits_of_bytes bs) c"
  by (induction bs arbitrary: c) (simp_all add: fold_crc_byte_bits crc_byte_rounds del: upt_rec_numeral)

lemma update_tail_host: "crc32_update_tail t c bs = host_crc32_update t c bs"
  by (induction bs arbitrary: c) simp_all

lemma update_host: "crc32_update t c bs = host_crc32_update t c bs"
  by (induction t c bs rule: crc32_update.induct) (simp_all add: update_tail_host Let_def)

lemma host_update_append: "host_crc32_update t c (xs @ ys) = host_crc32_update t (host_crc32_update t c xs) ys"
  by (induction xs arbitrary: c) simp_all

lemma file_loop_host: "crc32_file_loop t c f = host_crc32_update t c f"
proof (induction t c f rule: crc32_file_loop.induct)
  case (1 t c f)
  show ?case
  proof (cases "f = []")
    case False
    then have "crc32_file_loop t c f = host_crc32_update t (host_crc32_update t c (take 4096 f)) (drop 4096 f)"
      using 1 [of "take 4096 f" "drop 4096 f"] by (subst crc32_file_loop.simps) (simp add: fread_def)
    then show ?thesis by (simp flip: host_update_append)
  qed (subst crc32_file_loop.simps, simp add: fread_def)
qed

lemma crc_register_calculate: "crc_register (bits_of_bytes bs) = crc32_calculate crc32_init bs"
  by (simp add: crc_register_def crc32_calculate_def update_host host_update_bits)

subsection \<open>The register divides\<close>

lemma crc32_polynomial_generator: "CRC32_POLYNOMIAL = horner_sum of_bool 2 crc32_generator"
  unfolding CRC32_POLYNOMIAL_def by code_simp

lemma length_crc32_generator [simp]: "length crc32_generator = 32"
  by (simp add: crc32_generator_def)

lemma horner_divide_step:
  assumes "length r = 32"
  shows "horner_sum of_bool 2 (divide_step b r)
    = (crc_round (horner_sum of_bool 2 r) XOR push_bit 31 (of_bool b) :: u32)"
proof (rule bit_word_eqI)
  fix n :: nat
  assume n: "n < LENGTH(32)"
  have "hd r = r ! 0" using assms by (cases r) simp_all
  with n assms show "bit (horner_sum of_bool 2 (divide_step b r) :: u32) n
      = bit (crc_round (horner_sum of_bool 2 r) XOR push_bit 31 (of_bool b) :: u32) n"
    by (auto simp: divide_step_def Let_def crc_round_odd crc32_polynomial_generator
        bit_horner_sum_bit_iff bit_simps nth_append nth_tl)
qed

lemma length_divide_step [simp]: "length r = 32 \<Longrightarrow> length (divide_step b r) = 32"
  by (simp add: divide_step_def Let_def)

lemma length_fold_divide_step [simp]: "length r = 32 \<Longrightarrow> length (fold divide_step m r) = 32"
  by (induction m arbitrary: r) simp_all

lemma divide_fills_register:
  "length m \<le> 32 \<Longrightarrow> fold divide_step m (replicate 32 False) = replicate (32 - length m) False @ m"
proof (induction m rule: rev_induct)
  case (snoc b m)
  then obtain k where k: "32 - length m = Suc k" by (cases "32 - length m") auto
  with snoc show ?case by (simp add: divide_step_def Let_def)
qed simp

lemma horner_take_Suc:
  assumes "length m > 31"
  shows "horner_sum of_bool 2 (take 32 m)
    = (horner_sum of_bool 2 (take 31 m) XOR push_bit 31 (of_bool (m ! 31)) :: u32)"
proof (rule bit_word_eqI)
  fix n :: nat
  assume "n < LENGTH(32)"
  then have "n = 31 \<or> n < 31" by auto
  then show "bit (horner_sum of_bool 2 (take 32 m) :: u32) n
      = bit (horner_sum of_bool 2 (take 31 m) XOR push_bit 31 (of_bool (m ! 31)) :: u32) n"
    using assms by (auto simp: bit_horner_sum_bit_iff bit_simps)
qed

lemma horner_Cons_xor:
  assumes "length ws < 32"
  shows "horner_sum of_bool 2 (w # ws) = (of_bool w XOR 2 * horner_sum of_bool 2 ws :: u32)"
  by (rule bit_word_eqI) (use assms in \<open>auto simp: bit_horner_sum_bit_iff bit_xor_iff bit_double_iff bit_of_bool_iff nth_Cons' simp del: horner_sum_simps\<close>)

lemma register_divides:
  assumes "length z = 32" and "length r = 32"
    and "horner_sum of_bool 2 r = (d XOR horner_sum of_bool 2 (take 32 (bits @ z)) :: u32)"
  shows "horner_sum of_bool 2 (fold divide_step (drop 32 (bits @ z)) r)
    = fold crc_bit bits d XOR horner_sum of_bool 2 z"
  using assms(2,3)
proof (induction bits arbitrary: d r)
  case (Cons b bits)
  let ?m = "bits @ z"
  have m: "length ?m > 31" "length (take 31 ?m) = 31" using assms(1) by simp_all
  have d: "drop 32 ((b # bits) @ z) = ?m ! 31 # drop 32 ?m"
    using Cons_nth_drop_Suc [of 31 ?m] m(1) by (simp del: drop_append)
  have "crc_round (2 * horner_sum of_bool 2 (take 31 ?m)) = (horner_sum of_bool 2 (take 31 ?m) :: u32)"
    by (rule crc_round_double) (use m in \<open>simp add: bit_horner_sum_bit_iff\<close>)
  moreover have "horner_sum of_bool 2 r = d XOR (of_bool b XOR 2 * horner_sum of_bool 2 (take 31 ?m))"
    using Cons.prems(2) m horner_Cons_xor [of "take 31 ?m" b] by (simp del: horner_sum_simps take_append)
  ultimately have "horner_sum of_bool 2 (divide_step (?m ! 31) r)
      = crc_bit b d XOR horner_sum of_bool 2 (take 32 ?m)"
    using m by (simp add: horner_divide_step [OF Cons.prems(1)] horner_take_Suc crc_bit_def crc_round_xor xor.assoc
        del: take_append)
  with Cons.IH [of "divide_step (?m ! 31) r" "crc_bit b d"] Cons.prems(1) show ?case
    unfolding d by simp
qed (use assms(1) in simp)

lemma horner_map_Not:
  "length ws = 32 \<Longrightarrow> horner_sum of_bool 2 (map Not ws) = (horner_sum of_bool 2 ws XOR 0xFFFFFFFF :: u32)"
proof (rule bit_word_eqI)
  fix n :: nat
  assume a: "length ws = 32" "n < LENGTH(32)"
  have "(0xFFFFFFFF :: u32) = mask 32" by (simp add: mask_eq_exp_minus_1)
  with a have "bit (0xFFFFFFFF :: u32) n" by (simp only: bit_mask_iff) simp
  with a show "bit (horner_sum of_bool 2 (map Not ws) :: u32) n
      = bit (horner_sum of_bool 2 ws XOR 0xFFFFFFFF :: u32) n"
    by (simp add: bit_horner_sum_bit_iff bit_xor_iff)
qed

lemma crc_register_remainder: "crc_register bits = crc32_of_bits bits"
proof -
  let ?m = "bits @ replicate 32 False" and ?z = "replicate 32 False"
  let ?r = "map Not (take 32 ?m)"
  have l: "length (take 32 ?m) = 32" by simp
  have "fold divide_step ?r (replicate 32 False) = ?r" using l by (subst divide_fills_register) simp_all
  then have p: "polynomial_remainder (crc32_dividend bits) = fold divide_step (drop 32 ?m) ?r"
    unfolding polynomial_remainder_def crc32_dividend_def Let_def fold_append comp_apply by simp
  have n: "length (polynomial_remainder (crc32_dividend bits)) = 32"
    by (simp add: polynomial_remainder_def)
  have "horner_sum of_bool 2 (fold divide_step (drop 32 ?m) ?r)
      = fold crc_bit bits 0xFFFFFFFF XOR (horner_sum of_bool 2 ?z :: u32)"
    by (rule register_divides) (use horner_map_Not [OF l] in \<open>simp_all add: xor.commute del: take_append\<close>)
  moreover have "(horner_sum of_bool 2 ?z :: u32) = 0"
    by (rule bit_word_eqI) (simp add: bit_horner_sum_bit_iff)
  ultimately have "horner_sum of_bool 2 (polynomial_remainder (crc32_dividend bits))
      = fold crc_bit bits 0xFFFFFFFF" unfolding p by (simp only: xor.right_neutral)
  then show ?thesis by (simp only: crc32_of_bits_def crc_register_def horner_map_Not [OF n])
qed

subsection \<open>Bursts\<close>

lemma crc_bit_fold_inj: "fold crc_bit ws c = fold crc_bit ws d \<Longrightarrow> c = d"
proof (induction ws arbitrary: c d)
  case (Cons w ws)
  have "crc_bit w c = crc_bit w d" by (rule Cons.IH) (use Cons.prems in simp)
  then have "crc_rounds 1 (c XOR of_bool w) = crc_rounds 1 (d XOR of_bool w)" by (simp add: crc_bit_def)
  then have "c XOR of_bool w = d XOR of_bool w" by (rule crc_rounds_inj)
  then show ?case by (rule xor_cancel_right)
qed simp

lemma horner_bits_inj:
  assumes "length ws = length vs" and "length ws \<le> 32"
    and "horner_sum of_bool 2 ws = (horner_sum of_bool 2 vs :: u32)"
  shows "ws = vs"
proof (rule nth_equalityI [OF assms(1)])
  fix i
  assume i: "i < length ws"
  have "bit (horner_sum of_bool 2 ws :: u32) i = bit (horner_sum of_bool 2 vs :: u32) i" using assms(3) by simp
  then show "ws ! i = vs ! i" using i assms(1,2) by (simp add: bit_horner_sum_bit_iff)
qed

lemma crc_register_burst:
  assumes "length ws = length vs" and "length ws \<le> 32" and "ws \<noteq> vs"
  shows "crc_register (xs @ ws @ ys) \<noteq> crc_register (xs @ vs @ ys)"
proof
  let ?c = "fold crc_bit xs 0xFFFFFFFF"
  assume "crc_register (xs @ ws @ ys) = crc_register (xs @ vs @ ys)"
  then have "fold crc_bit ys (fold crc_bit ws ?c) = fold crc_bit ys (fold crc_bit vs ?c)"
    by (auto simp: crc_register_def dest!: xor_cancel_right)
  then have "fold crc_bit ws ?c = fold crc_bit vs ?c" by (rule crc_bit_fold_inj)
  then have "?c XOR horner_sum of_bool 2 ws = ?c XOR horner_sum of_bool 2 vs"
    using assms(1,2) by (auto simp: fold_crc_bit dest: crc_rounds_inj)
  then have "?c XOR (?c XOR horner_sum of_bool 2 ws) = ?c XOR (?c XOR horner_sum of_bool 2 vs)" by simp
  then have "horner_sum of_bool 2 ws = (horner_sum of_bool 2 vs :: u32)" by (simp flip: xor.assoc)
  then show False using horner_bits_inj [OF assms(1,2)] assms(3) by simp
qed

subsection \<open>Properties\<close>

text \<open>
  Claim C21. The routine computes CRC-32: for every buffer, the board's loop, unrolled four times over
  the table that \<open>crc32_init\<close> builds, gives the complement of the remainder of the message
  polynomial (the bits of the buffer, least significant bit of each byte first, times x^32, the first
  32 coefficients complemented) modulo the IEEE 802.3 generator, with the coefficient of x^31 as the
  lowest bit of the result.
\<close>

theorem crc32_is_polynomial_remainder:
  "crc32_calculate crc32_init buffer = crc32_of_bits (bits_of_bytes buffer)"
  by (simp flip: crc_register_calculate add: crc_register_remainder)

text \<open>
  Host and board agree: for a file that the host can open, the value that
  \<open>crc32_from_file\<close> prints after reading it in blocks of 4096 bytes is the one that
  \<open>crc32_calculate\<close> gives on the board for the whole contents in memory.
\<close>

theorem host_and_board_agree:
  assumes "disk name = Some contents"
  shows "crc32_from_file crc32_init disk name = crc32_calculate crc32_init contents"
  using assms by (simp add: crc32_from_file_def crc32_calculate_def file_loop_host update_host)

theorem host_and_board_agree_witness:
  "crc32_from_file crc32_init [''teste.txt'' \<mapsto> [0x31, 0x32, 0x33, 0x34, 0x35, 0x36, 0x37, 0x38, 0x39]] ''teste.txt''
     = crc32_calculate crc32_init [0x31, 0x32, 0x33, 0x34, 0x35, 0x36, 0x37, 0x38, 0x39]"
  by (rule host_and_board_agree) simp

lemma crc32_check_value: "crc32_calculate crc32_init [0x31, 0x32, 0x33, 0x34, 0x35, 0x36, 0x37, 0x38, 0x39] = 0xCBF43926"
  unfolding crc_register_calculate [symmetric] by code_simp

text \<open>
  Claim C20. The checksum detects every burst of at most 32 bits: two buffers of the same size whose
  bits agree except inside one window of up to 32 consecutive bits, at any bit position, have
  different checksums.
\<close>

theorem crc32_detects_bursts:
  assumes "bits_of_bytes sent = before @ window @ rest" and "bits_of_bytes received = before @ damaged @ rest"
    and "length damaged = length window" and "length window \<le> 32" and "damaged \<noteq> window"
  shows "crc32_calculate crc32_init sent \<noteq> crc32_calculate crc32_init received"
  using crc_register_burst [of window damaged before rest] assms
  by (simp flip: crc_register_calculate)

theorem crc32_detects_bursts_witness:
  "crc32_calculate crc32_init [0x10, 0x20] \<noteq> crc32_calculate crc32_init [0x14, 0x21]"
proof (rule crc32_detects_bursts)
  let ?s = "bits_of_bytes [0x10, 0x20]" and ?r = "bits_of_bytes [0x14, 0x21]"
  show "?s = [False, False] @ take 7 (drop 2 ?s) @ drop 9 ?s" by code_simp
  show "?r = [False, False] @ take 7 (drop 2 ?r) @ drop 9 ?s" by code_simp
  show "length (take 7 (drop 2 ?r)) = length (take 7 (drop 2 ?s))" by code_simp
  show "length (take 7 (drop 2 ?s)) \<le> 32" by code_simp
  show "take 7 (drop 2 ?r) \<noteq> take 7 (drop 2 ?s)" by code_simp
qed

end
