(* ===== verification/NetSend.thy ===== *)
theory NetSend
  imports NetLink Crc32
begin

text \<open>
  The host side of the network transfer, \<open>tools/sender2/sender.c\<close>, and its composition with the
  receiver of the board. The system calls of the host are the parameter \<open>host\<close>, over a state of the
  network of its own type; \<open>malloc\<close> is a function from a size to the bytes found in a new block, or
  \<open>None\<close>; the host's files are a map from names to contents. The messages on the terminal are left
  out. Sizes are natural numbers where the C has \<open>size_t\<close>; where it has an \<open>int\<close>, as for the size that
  \<open>main\<close> passes on, they are cut to 32 bits. (From 2^31 bytes on that size is negative and the host
  would send from behind its block; the properties are about files that fit the board.)
\<close>

subsection \<open>The host program\<close>

record 'k host =
  ho_socket :: "'k \<Rightarrow> int \<times> 'k"
  ho_gethostbyname :: "string \<Rightarrow> 'k \<Rightarrow> u8 list option \<times> 'k"
  ho_connect :: "int \<Rightarrow> u8 list \<Rightarrow> nat \<Rightarrow> 'k \<Rightarrow> int \<times> 'k"
  ho_send :: "int \<Rightarrow> u8 list \<Rightarrow> 'k \<Rightarrow> int \<times> 'k"
  ho_recv :: "int \<Rightarrow> nat \<Rightarrow> 'k \<Rightarrow> int \<times> 'k"
  ho_close :: "int \<Rightarrow> 'k \<Rightarrow> 'k"

definition conectar_servidor :: "'k host \<Rightarrow> string \<Rightarrow> nat \<Rightarrow> 'k \<Rightarrow> int \<times> 'k" where
  "conectar_servidor H hostname porta k =
     (case ho_socket H k of (sock_fd, k) \<Rightarrow>
        if sock_fd < 0 then (-1, k)
        else case ho_gethostbyname H hostname k of
          (None, k) \<Rightarrow> (-1, ho_close H sock_fd k)
        | (Some server, k) \<Rightarrow>
            (case ho_connect H sock_fd server porta k of (r, k) \<Rightarrow>
               if r < 0 then (-1, ho_close H sock_fd k) else (sock_fd, k)))"

text \<open>The loop sends what is left until all is sent; \<open>send\<close> may take less than it is given.\<close>

function escrever_loop :: "'k host \<Rightarrow> int \<Rightarrow> u8 list \<Rightarrow> nat \<Rightarrow> nat \<Rightarrow> 'k \<Rightarrow> int \<times> 'k" where
  "escrever_loop H sock_fd ptr tamanho total_enviado k =
     (if total_enviado < tamanho
      then case ho_send H sock_fd (take (tamanho - total_enviado) (drop total_enviado ptr)) k of (enviado, k) \<Rightarrow>
             if enviado \<le> 0 then (-1, k)
             else escrever_loop H sock_fd ptr tamanho (total_enviado + nat enviado) k
      else (int total_enviado, k))"
  by pat_completeness auto

termination
  by (relation "measure (\<lambda>(_, _, _, tamanho, total_enviado, _). tamanho - total_enviado)") auto

declare escrever_loop.simps [simp del]

definition escrever_dados :: "'k host \<Rightarrow> int \<Rightarrow> u8 list \<Rightarrow> nat \<Rightarrow> 'k \<Rightarrow> int \<times> 'k" where
  "escrever_dados H sock_fd buffer tamanho k = escrever_loop H sock_fd buffer tamanho 0 k"

text \<open>
  The file is read behind 21 bytes left free for the header. The size is written through a pointer to
  the \<open>int\<close> of the caller, which takes its low 32 bits.
\<close>

definition carregar_arquivo_completo ::
    "(string \<Rightarrow> u8 list option) \<Rightarrow> (nat \<Rightarrow> u8 list option) \<Rightarrow> string \<Rightarrow> u8 list option \<times> nat" where
  "carregar_arquivo_completo host_files mem_alloc caminho_arquivo =
     (case host_files caminho_arquivo of
        None \<Rightarrow> (None, 0)
      | Some arquivo \<Rightarrow>
          let tamanho_arquivo = length arquivo
          in case mem_alloc (tamanho_arquivo + 21) of
               None \<Rightarrow> (None, 0)
             | Some block \<Rightarrow>
                 (case fread tamanho_arquivo arquivo of
                    (lidos, _) \<Rightarrow>
                      let dados = Some (take 21 block @ lidos)
                      in if length lidos < tamanho_arquivo then (dados, 0) else (dados, tamanho_arquivo)))"

definition le32 :: "u32 \<Rightarrow> u8 list" where
  "le32 x = [ucast x, ucast (drop_bit 8 x), ucast (drop_bit 16 x), ucast (drop_bit 24 x)]"

text \<open>The two \<open>memcpy\<close> into the first 21 bytes: the size at 0 and the name, zero filled, at 8.\<close>

definition put_header :: "u8 list \<Rightarrow> u32 \<Rightarrow> u8 list \<Rightarrow> u8 list" where
  "put_header dados tamanho nome_arquivo =
     le32 tamanho @ take 4 (drop 4 dados) @ nome_arquivo @ drop 21 dados"

definition zero_filled :: "u8 list \<Rightarrow> u8 list" where
  "zero_filled name = name @ replicate (13 - length name) 0"

text \<open>
  \<open>tam\<close> is an \<open>int\<close>: the low 32 bits of the size, as a signed number, and a \<open>size_t\<close> of 64 bits again
  where it is passed to \<open>escrever_dados\<close>.
\<close>

definition int_of_size :: "nat \<Rightarrow> int" where
  "int_of_size n = sint (word_of_nat n :: u32)"

definition size_of_int :: "int \<Rightarrow> nat" where
  "size_of_int i = nat (i mod 2 ^ 64)"

definition sender_main ::
    "'k host \<Rightarrow> (string \<Rightarrow> u8 list option) \<Rightarrow> (nat \<Rightarrow> u8 list option) \<Rightarrow> string option \<Rightarrow> 'k \<Rightarrow> int \<times> 'k" where
  "sender_main H host_files mem_alloc arg k =
     (case arg of
        None \<Rightarrow> (1, k)
      | Some name \<Rightarrow>
          if length name > 12 then (1, k)
          else case carregar_arquivo_completo host_files mem_alloc name of
            (None, _) \<Rightarrow> (1, k)
          | (Some dados, tamanho) \<Rightarrow>
              let tam = int_of_size tamanho in
              (case conectar_servidor H ''orion68k'' 4243 k of (socket_orion68, k) \<Rightarrow>
                 if socket_orion68 < 0 then (1, k)
                 else
                   let dados = put_header dados (word_of_int tam) (zero_filled (map of_char name))
                   in case escrever_dados H socket_orion68 dados (size_of_int tam) k of (r, k) \<Rightarrow>
                        if r < 0 then (1, ho_close H socket_orion68 k)
                        else case ho_recv H socket_orion68 10031 k of (lidos, k) \<Rightarrow>
                          (0, ho_close H socket_orion68 k)))"

subsection \<open>What the host sends\<close>

text \<open>
  \<open>out k\<close> is what was given to the network so far. A connected socket takes at least one and at most
  all of the bytes of a \<open>send\<close>, in order; the other calls transmit nothing.
\<close>

definition host_ok :: "'k host \<Rightarrow> ('k \<Rightarrow> u8 list) \<Rightarrow> bool" where
  "host_ok H out \<longleftrightarrow>
     (\<forall>k. 0 \<le> fst (conectar_servidor H ''orion68k'' 4243 k) \<and> out (snd (conectar_servidor H ''orion68k'' 4243 k)) = out k)
     \<and> (\<forall>sock_fd bs k. bs \<noteq> [] \<longrightarrow> (case ho_send H sock_fd bs k of (n, k') \<Rightarrow>
          0 < n \<and> n \<le> int (length bs) \<and> out k' = out k @ take (nat n) bs))
     \<and> (\<forall>sock_fd n k. out (snd (ho_recv H sock_fd n k)) = out k) \<and> (\<forall>sock_fd k. out (ho_close H sock_fd k) = out k)"

text \<open>The bytes of one transfer: a header of 21 bytes in front of the file, cut at the size of the file.\<close>

definition wire :: "u8 list \<Rightarrow> string \<Rightarrow> u8 list \<Rightarrow> u8 list" where
  "wire gap name contents =
     take (length contents) (le32 (word_of_nat (length contents)) @ gap @ zero_filled (map of_char name) @ contents)"

lemma host_connects:
  assumes "host_ok H out" and "conectar_servidor H ''orion68k'' 4243 k = (sock_fd, k')"
  shows "0 \<le> sock_fd \<and> out k' = out k"
  using conjunct1 [OF assms(1) [unfolded host_ok_def], rule_format, of k] assms(2) by simp

lemma host_sends:
  assumes "host_ok H out" and "bs \<noteq> []" and "ho_send H sock_fd bs k = (n, k')"
  shows "0 < n \<and> n \<le> int (length bs) \<and> out k' = out k @ take (nat n) bs"
  using conjunct1 [OF conjunct2 [OF assms(1) [unfolded host_ok_def]], THEN spec [where x = sock_fd],
      THEN spec [where x = bs], THEN spec [where x = k], THEN mp, OF assms(2)] assms(3) by simp

lemma host_silent:
  assumes "host_ok H out"
  shows "out (snd (ho_recv H sock_fd n k)) = out k" "out (ho_close H sock_fd k) = out k"
  using assms unfolding host_ok_def by simp_all

lemma escrever_loop_sends:
  assumes ok: "host_ok H out"
  shows "begun \<le> tamanho \<Longrightarrow> tamanho \<le> length ptr \<Longrightarrow>
    \<exists>k'. escrever_loop H sock_fd ptr tamanho begun k = (int tamanho, k') \<and> out k' = out k @ take (tamanho - begun) (drop begun ptr)"
proof (induction "tamanho - begun" arbitrary: begun k rule: less_induct)
  case less
  show ?case
  proof (cases "begun < tamanho")
    case True
    let ?rest = "take (tamanho - begun) (drop begun ptr)"
    obtain n k1 where s: "ho_send H sock_fd ?rest k = (n, k1)" by force
    have "?rest \<noteq> []" using True less.prems by simp
    then have n: "0 < n" "n \<le> int (length ?rest)" "out k1 = out k @ take (nat n) ?rest"
      using host_sends [OF ok _ s] by simp_all
    have le: "begun + nat n \<le> tamanho" using n(1,2) less.prems by simp
    have "tamanho - (begun + nat n) < tamanho - begun" using True n(1) by simp
    from less.hyps [OF this le less.prems(2)] obtain k2 where
      2: "escrever_loop H sock_fd ptr tamanho (begun + nat n) k1 = (int tamanho, k2)"
        "out k2 = out k1 @ take (tamanho - (begun + nat n)) (drop (begun + nat n) ptr)" by blast
    have "?rest = take (nat n) ?rest @ drop (nat n) ?rest" by (rule append_take_drop_id [symmetric])
    also have "drop (nat n) ?rest = take (tamanho - (begun + nat n)) (drop (begun + nat n) ptr)"
      by (simp add: drop_take add.commute)
    finally have q: "?rest = take (nat n) ?rest @ take (tamanho - (begun + nat n)) (drop (begun + nat n) ptr)" .
    have "out k2 = out k @ ?rest" by (subst q) (simp only: 2(2) n(3) append.assoc)
    moreover have "escrever_loop H sock_fd ptr tamanho begun k = (int tamanho, k2)"
      using 2(1) True n(1) s by (subst escrever_loop.simps) simp
    ultimately show ?thesis by blast
  next
    case False
    then show ?thesis using less.prems by (subst escrever_loop.simps) simp
  qed
qed

lemma length_le32 [simp]: "length (le32 x) = 4"
  by (simp add: le32_def)

lemma length_zero_filled [simp]: "length name \<le> 13 \<Longrightarrow> length (zero_filled name) = 13"
  by (simp add: zero_filled_def)

lemma int_of_size:
  "n < 2 ^ 31 \<Longrightarrow> size_of_int (int_of_size n) = n \<and> (word_of_int (int_of_size n) :: u32) = word_of_nat n"
proof -
  assume n: "n < 2 ^ 31"
  have "int_of_size n = int n"
    using n by (simp add: int_of_size_def signed_of_nat signed_take_bit_int_eq_self_iff)
  with n show ?thesis by (simp add: size_of_int_def)
qed

lemma sender_main_sends:
  assumes ok: "host_ok H out" and found: "host_files name = Some contents" and name: "length name \<le> 12"
    and small: "length contents < 2 ^ 31"
    and block: "mem_alloc (length contents + 21) = Some block" "length block = length contents + 21"
  shows "\<exists>k'. sender_main H host_files mem_alloc (Some name) k = (0, k') \<and> out k' = out k @ wire (take 4 (drop 4 block)) name contents"
proof -
  let ?n = "length contents" and ?d = "put_header (take 21 block @ contents) (word_of_nat (length contents)) (zero_filled (map of_char name))"
  have load: "carregar_arquivo_completo host_files mem_alloc name = (Some (take 21 block @ contents), ?n)"
    using found block by (simp add: carregar_arquivo_completo_def fread_def Let_def)
  obtain sock_fd k1 where c: "conectar_servidor H ''orion68k'' 4243 k = (sock_fd, k1)" by force
  have c1: "0 \<le> sock_fd" "out k1 = out k" using host_connects [OF ok c] by simp_all
  have d: "?d = le32 (word_of_nat ?n) @ take 4 (drop 4 block) @ zero_filled (map of_char name) @ contents"
    using block by (simp add: put_header_def drop_take)
  then have "?n \<le> length ?d" by simp
  from escrever_loop_sends [OF ok _ this, of 0 sock_fd k1] obtain k2 where
    2: "escrever_dados H sock_fd ?d ?n k1 = (int ?n, k2)" "out k2 = out k1 @ take ?n ?d"
    by (auto simp: escrever_dados_def)
  obtain r k3 where 3: "ho_recv H sock_fd 10031 k2 = (r, k3)" by force
  have "out (ho_close H sock_fd k3) = out k2" using host_silent [OF ok] 3 by (metis snd_conv)
  moreover have "sender_main H host_files mem_alloc (Some name) k = (0, ho_close H sock_fd k3)"
    using name load c c1 2(1) 3 int_of_size [OF small] by (simp add: sender_main_def Let_def)
  ultimately show ?thesis using 2(2) c1(2) by (simp add: wire_def d [symmetric])
qed

subsection \<open>Host and board together\<close>

lemma header_size_le32: "header_size (le32 x @ ys) = x"
proof (rule bit_word_eqI)
  fix n :: nat
  assume "n < LENGTH(32)"
  then consider "n < 8" | "8 \<le> n" "n < 16" | "16 \<le> n" "n < 24" | "24 \<le> n" "n < 32" by fastforce
  then show "bit (header_size (le32 x @ ys)) n = bit x n"
    by cases (auto simp: header_size_def le32_def bit_simps)
qed

lemma wire_shape:
  assumes "length gap = 4" and "length name \<le> 12" and "21 < length contents" and "length contents < 2 ^ 32"
  shows "length (wire gap name contents) = length contents" "file_size (wire gap name contents) = length contents"
    "take 21 (wire gap name contents) = le32 (word_of_nat (length contents)) @ gap @ zero_filled (map of_char name)"
    "drop 21 (wire gap name contents) = take (length contents - 21) contents"
proof -
  let ?h = "le32 (word_of_nat (length contents)) @ gap @ zero_filled (map of_char name)"
  have h: "length ?h = 21" using assms by simp
  have w: "wire gap name contents = ?h @ take (length contents - 21) contents"
    using assms by (simp add: wire_def)
  show 3: "take 21 (wire gap name contents) = ?h" using h by (simp add: w)
  show "drop 21 (wire gap name contents) = take (length contents - 21) contents" using h by (simp add: w)
  show "length (wire gap name contents) = length contents" unfolding w using h assms(3) by simp
  show "file_size (wire gap name contents) = length contents"
    using assms(4) unfolding file_size_def 3 header_size_le32 by (simp add: unat_of_nat32)
qed

lemma rd_bytes_across:
  assumes "n \<le> length bs" and "length bs + n < 2 ^ 32" 
  shows "rd_bytes (wr_bytes m a bs) (a + word_of_nat n) (length bs) = drop n bs @ rd_bytes m (a + word_of_nat (length bs)) n"
proof (rule nth_equalityI)
  fix i
  assume "i < length (rd_bytes (wr_bytes m a bs) (a + word_of_nat n) (length bs))"
  then have i: "i < length bs" by simp
  have u: "unat (word_of_nat (n + i) :: addr) = n + i" by (rule unat_of_nat32) (use i assms in simp)
  have e: "a + word_of_nat n + word_of_nat i = a + word_of_nat (n + i)" by simp
  have d: "a + word_of_nat (n + i) - a = word_of_nat (n + i)" by simp
  show "rd_bytes (wr_bytes m a bs) (a + word_of_nat n) (length bs) ! i = (drop n bs @ rd_bytes m (a + word_of_nat (length bs)) n) ! i"
  proof (cases "n + i < length bs")
    case True
    then show ?thesis using i unfolding nth_rd_bytes [OF i] e wr_bytes_def d u by (simp add: nth_append add.commute less_diff_conv)
  next
    case False
    have f: "a + word_of_nat (length bs) + word_of_nat (i - (length bs - n)) = a + word_of_nat (n + i)"
      using False assms(1) by (simp flip: of_nat_add) (simp add: add.commute)
    have k: "i - (length bs - n) < n" using i assms(1) False by simp
    have "\<not> i < length bs - n" using False by simp
    then show ?thesis using False i unfolding nth_rd_bytes [OF i] e wr_bytes_def d u
      by (simp only: nth_append length_drop nth_rd_bytes [OF k] f) simp
  qed
qed (use assms in simp)

text \<open>
  The volume in the state \<open>d\<close> takes a file \<open>name\<close> of \<open>n\<close> bytes: f_open creates it, wherever the name is in
  memory, f_write accepts any \<open>n\<close> bytes completely, and f_close leaves a volume that holds them under the
  name. (FatFs reports an error for a name that is not valid, and writes less when the volume is full.)
\<close>

definition takes_file :: "('f, 'd) fatfs \<Rightarrow> ('d \<Rightarrow> u8 list \<Rightarrow> u8 list option) \<Rightarrow> 'd \<Rightarrow> u8 list \<Rightarrow> nat \<Rightarrow> bool" where
  "takes_file F vol d name n \<longleftrightarrow>
     (\<forall>m a data. cstr m a name \<and> length data = n \<longrightarrow>
        (\<exists>f d1 f2 d2 d3. ff_open F m a (FA_WRITE OR FA_CREATE_ALWAYS) d = (Some f, d1)
           \<and> ff_write F f data d1 = (Some (word_of_nat (length data)), f2, d2)
           \<and> ff_close F f2 d2 = (Some (), d3) \<and> vol d3 = (vol d)(name \<mapsto> data)))"

lemma saving_file_saves:
  assumes volume: "takes_file F vol d name (unat (tamanho_total s))" and name: "cstr (rmem s) (BUFFER_ARQUIVO + 8) name"
    and size: "tamanho_total s \<noteq> 0"
  shows "\<exists>d'. saving_file F s d = (Saved, d')
    \<and> vol d' = (vol d)(name \<mapsto> rd_bytes (rmem s) (BUFFER_ARQUIVO + 21) (unat (tamanho_total s)))"
proof -
  let ?data = "rd_bytes (rmem s) (BUFFER_ARQUIVO + 21) (unat (tamanho_total s))"
  have l: "length ?data = unat (tamanho_total s)" by simp
  obtain f d1 f2 d2 d3 where
    "ff_open F (rmem s) (BUFFER_ARQUIVO + 8) (FA_WRITE OR FA_CREATE_ALWAYS) d = (Some f, d1)"
    "ff_write F f ?data d1 = (Some (word_of_nat (length ?data)), f2, d2)"
    "ff_close F f2 d2 = (Some (), d3)" "vol d3 = (vol d)(name \<mapsto> ?data)"
    using volume name l unfolding takes_file_def by blast
  then show ?thesis using size by (simp add: saving_file_def BUFFER_ARQUIVO_def)
qed

lemma link_start:
  "up w \<Longrightarrow> sk_rd (view w) = sk_base (view w) \<Longrightarrow> sk_wr (view w) = sk_txbase (view w)
    \<Longrightarrow> length (sk_rx (view w)) \<le> 2048 \<Longrightarrow> estado s = ESTADO_HEADER
    \<Longrightarrow> link_inv view up (stream (view w)) (rmem s) (sk_sent (view w)) w s"
  by (simp add: link_inv_def taken_def)

lemma cstr_zero_filled:
  "0 \<notin> set name \<Longrightarrow> length name \<le> 12 \<Longrightarrow> rd_bytes m a 13 = zero_filled name \<Longrightarrow> cstr m a name"
proof -
  assume z: "0 \<notin> set name" and l: "length name \<le> 12" and r: "rd_bytes m a 13 = zero_filled name"
  have at: "m (a + word_of_nat i) = zero_filled name ! i" if "i < 13" for i
    using nth_rd_bytes [of i 13 m a] that by (simp add: r)
  have "rd_bytes m a (length name) = name"
    by (rule nth_equalityI) (use l in \<open>simp_all add: at zero_filled_def nth_append\<close>)
  moreover have "m (a + word_of_nat (length name)) = 0" using l by (simp add: at zero_filled_def nth_append)
  ultimately have "cstr m a (name @ [])" using z by (simp add: cstr_append del: append_Nil2)
  then show ?thesis by simp
qed

text \<open>
  The buffer reaches from \<open>BUFFER_ARQUIVO\<close> up to the stack of the ROM, whose top is the end of the RAM,
  0x100000: \<open>n\<close> bytes fit when they end below the \<open>depth\<close> bytes of stack in use. The variables of the
  ROM are below the buffer. Nothing in the code checks this.
\<close>

definition fits_ram :: "nat \<Rightarrow> nat \<Rightarrow> bool" where
  "fits_ram depth n \<longleftrightarrow> unat BUFFER_ARQUIVO + n + depth \<le> 0x100000"

lemma fits_ram_frame:
  assumes "fits_ram depth n" and "length bs \<le> n" and "unat x < unat BUFFER_ARQUIVO \<or> 0x100000 - depth \<le> unat x"
  shows "wr_bytes m BUFFER_ARQUIVO bs x = m x"
proof (rule wr_bytes_other, rule ccontr)
  let ?k = "unat (x - BUFFER_ARQUIVO)"
  assume "\<not> length bs \<le> ?k"
  then have k: "?k < n" using assms(2) by simp
  have "unat (BUFFER_ARQUIVO + word_of_nat ?k) = unat BUFFER_ARQUIVO + ?k"
    by (rule unat_plus_small) (use k assms(1) in \<open>simp add: fits_ram_def\<close>)
  then have "unat x = unat BUFFER_ARQUIVO + ?k" by simp
  with k assms(1,3) show False unfolding fits_ram_def by linarith
qed

subsection \<open>Properties\<close>

text \<open>
  Claim C9. Reception is reliable and ends: while the connection is up and stays up, when the size that the
  first four bytes announce is more than 21 (the header), at most the number of bytes that the other
  side sends, and fits the RAM below the stack, then for every way in which the bytes arrive, in pieces
  and with finite waits, the calls of \<open>w5100_getter_loop\<close> return; the buffer then holds the bytes of the
  stream in order, as many as announced, nothing else in memory is changed, and the acknowledgement
  was transmitted.
\<close>

theorem reception_reliable:
  assumes "chip_ok C view up" and "up w" and "estado s = ESTADO_HEADER"
    and "sk_rd (view w) = sk_base (view w)" and "sk_wr (view w) = sk_txbase (view w)" and "length (sk_rx (view w)) \<le> 2048"
    and "21 < file_size (stream (view w))" and "file_size (stream (view w)) \<le> length (stream (view w))"
    and "fits_ram depth (file_size (stream (view w)))"
  shows "\<exists>w' s'. getter_calls C w s = Some (w', s')
    \<and> rmem s' = wr_bytes (rmem s) BUFFER_ARQUIVO (take (file_size (stream (view w))) (stream (view w)))
    \<and> unat (tamanho_total s') = file_size (stream (view w)) \<and> sk_sent (view w') = sk_sent (view w) @ ack
    \<and> (\<forall>x. unat x < unat BUFFER_ARQUIVO \<or> 0x100000 - depth \<le> unat x \<longrightarrow> rmem s' x = rmem s x)"
  using getter_calls_end [OF assms(1,7,8) link_start [where view = view and up = up and w = w and s = s, OF assms(2,4-6,3)]]
    fits_ram_frame [OF assms(9), of "take (file_size (stream (view w))) (stream (view w))"]
  by (auto simp: link_done_def simp del: take_append)

text \<open>
  Claim C10. The transfer of a file, host and board together: for a file of more than 21 bytes that fits
  the board's RAM below the stack, whose name has one to twelve characters, on a volume that takes a
  file of that name and size, the host sends, the board receives, acknowledges and saves under
  the same name, but the saved file is not the file. It holds all of it but its last 21 bytes, in
  whose place stand 21 bytes that were in the board's memory behind the buffer: the host counts the
  size of the file and not that of the header, and the board counts the header as part of the file.
\<close>

theorem transfer_loses_last_21_bytes:
  assumes host: "host_ok H out" "host_files name = Some contents" "length name \<le> 12" "0 \<notin> set (map of_char name :: u8 list)"
    and block: "mem_alloc (length contents + 21) = Some block" "length block = length contents + 21"
    and size: "21 < length contents" "fits_ram depth (length contents + 21)"
    and chip: "chip_ok C view up" "up w" "sk_rd (view w) = sk_base (view w)" "sk_wr (view w) = sk_txbase (view w)"
      "length (sk_rx (view w)) \<le> 2048" "estado s = ESTADO_HEADER"
    and line: "out k = []" "stream (view w) = out (snd (sender_main H host_files mem_alloc (Some name) k))"
    and volume: "takes_file F vol d (map of_char name) (length contents)"
  shows "\<exists>w' s' d'. getter_calls C w s = Some (w', s') \<and> sk_sent (view w') = sk_sent (view w) @ ack
    \<and> saving_file F s' d = (Saved, d')
    \<and> vol d' = (vol d)(map of_char name \<mapsto>
        take (length contents - 21) contents @ rd_bytes (rmem s) (BUFFER_ARQUIVO + word_of_nat (length contents)) 21)"
proof -
  let ?gap = "take 4 (drop 4 block)" and ?n = "length contents" and ?name = "map of_char name :: u8 list"
  let ?St = "wire ?gap name contents"
  have small: "?n < 2 ^ 31" using size(2) by (simp add: fits_ram_def)
  have "stream (view w) = ?St"
    using sender_main_sends [where name = name and host_files = host_files and mem_alloc = mem_alloc and H = H and out = out and k = k, OF host(1-3) small block] line by auto
  moreover have n32: "?n < 2 ^ 32" "length ?gap = 4" using small size(1) block(2) by simp_all
  moreover note wire_shape [OF n32(2) host(3) size(1) n32(1)]
  ultimately have St: "stream (view w) = ?St" "length ?St = ?n" "file_size ?St = ?n"
    "drop 21 ?St = take (?n - 21) contents" "take 21 ?St = le32 (word_of_nat ?n) @ ?gap @ zero_filled ?name" by simp_all
  from getter_calls_end [OF chip(1) _ _ link_start [where view = view and up = up and w = w and s = s, OF chip(2-6)]] St size obtain w' s' where
    g: "getter_calls C w s = Some (w', s')" "link_done view ?St (rmem s) (sk_sent (view w)) w' s'" by auto
  have s': "rmem s' = wr_bytes (rmem s) BUFFER_ARQUIVO ?St" "unat (tamanho_total s') = ?n"
    "sk_sent (view w') = sk_sent (view w) @ ack" using g(2) St by (simp_all add: link_done_def)
  have fit: "length ?St + 21 < 2 ^ 32" "21 \<le> length ?St" using St(2) size(1) small by simp_all
  have name_at: "rd_bytes (rmem s') (BUFFER_ARQUIVO + 8) 13 = zero_filled ?name"
  proof (rule nth_equalityI)
    show "length (rd_bytes (rmem s') (BUFFER_ARQUIVO + 8) 13) = length (zero_filled ?name)" using host(3) by simp
    fix i
    assume "i < length (rd_bytes (rmem s') (BUFFER_ARQUIVO + 8) 13)"
    then have i: "i < 13" by simp
    have u: "unat (word_of_nat (8 + i) :: addr) = 8 + i" by (rule unat_of_nat32) (use i in simp)
    have "?St ! (8 + i) = take 21 ?St ! (8 + i)" using i by simp
    also have "\<dots> = zero_filled ?name ! i" unfolding St(5) using n32(2) by (simp add: nth_append le32_def)
    finally show "rd_bytes (rmem s') (BUFFER_ARQUIVO + 8) 13 ! i = zero_filled ?name ! i"
      unfolding nth_rd_bytes [OF i] s'(1) wr_bytes_def using fit(2) i u by (simp add: algebra_simps)
  qed
  have c: "cstr (rmem s') (BUFFER_ARQUIVO + 8) ?name"
    by (rule cstr_zero_filled [OF host(4) _ name_at]) (use host(3) in simp)
  have "tamanho_total s' \<noteq> 0" using s'(2) size(1) by auto
  from saving_file_saves [OF _ c this, of F vol d] volume obtain d' where
    d': "saving_file F s' d = (Saved, d')" "vol d' = (vol d)(?name \<mapsto> rd_bytes (rmem s') (BUFFER_ARQUIVO + 21) ?n)"
    by (auto simp: s'(2))
  have "rd_bytes (rmem s') (BUFFER_ARQUIVO + 21) ?n
      = take (?n - 21) contents @ rd_bytes (rmem s) (BUFFER_ARQUIVO + word_of_nat ?n) 21"
    using rd_bytes_across [OF fit(2,1), of "rmem s" BUFFER_ARQUIVO] by (simp add: s'(1) St(2,4))
  with g(1) s'(3) d' show ?thesis by auto
qed

text \<open>
  Claim C22. A file of at most 21 bytes hangs the board: the host sends as many bytes of header and
  file as the file has, so the header never becomes complete, or nothing follows it, and the loop of
  \<open>recvmain\<close> never returns while the connection stays up, that is while the host waits for the
  acknowledgement.
\<close>

theorem short_file_hangs:
  assumes "chip_ok C view up" and "up w" and "estado s = ESTADO_HEADER"
    and "sk_rd (view w) = sk_base (view w)" and "length (sk_rx (view w)) \<le> 2048"
    and "host_ok H out" and "host_files name = Some contents" and "length name \<le> 12"
    and "mem_alloc (length contents + 21) = Some block" and "length block = length contents + 21"
    and "length contents \<le> 21" and "out k = []"
    and "stream (view w) = out (snd (sender_main H host_files mem_alloc (Some name) k))"
  shows "getter_calls C w s = None"
proof (rule stuck_diverges [OF assms(1)])
  have "stream (view w) = wire (take 4 (drop 4 block)) name contents"
    using sender_main_sends [where name = name and host_files = host_files and mem_alloc = mem_alloc and H = H and out = out and k = k,
        OF assms(6-8) _ assms(9,10)] assms(11-13) by auto
  then have "length (stream (view w)) = length (wire (take 4 (drop 4 block)) name contents)" by (rule arg_cong)
  also have "\<dots> \<le> length contents" unfolding wire_def length_take by (rule min.cobounded2)
  finally have "length (stream (view w)) \<le> 21" using assms(11) by (rule le_trans)
  then show "stuck view up w s" using assms(2-5) by (simp add: stuck_def)
qed

subsection \<open>Concrete hosts, chips and volumes\<close>

text \<open>
  A chip that brings up to seven bytes at every access and takes a command after two reads, a host
  whose \<open>send\<close> takes five bytes, and a volume that maps names of one to twelve characters to contents and
  takes at most 64 KB of one write.
\<close>

definition demo_pass :: "sock \<Rightarrow> sock" where
  "demo_pass a = (let k = min 7 (2048 - length (sk_rx a))
     in a\<lparr>sk_rx := sk_rx a @ take k (sk_net a), sk_net := drop k (sk_net a), sk_busy := sk_busy a - 1\<rparr>)"

abbreviation rx_slot :: "u16 \<Rightarrow> nat \<Rightarrow> u16" where
  "rx_slot p i \<equiv> S0_RX_BASE + ((p + word_of_nat i) AND S0_MASK)"

definition demo_value :: "sock \<Rightarrow> u16 \<Rightarrow> u8" where
  "demo_value a r =
     (if r = S0_SR then SOCK_ESTABLISHED else if r = S0_CR then (if sk_busy a = 0 then 0 else 1)
      else if r = S0_RX_RSR then word_of_nat (length (sk_rx a) div 256)
      else if r = S0_RX_RSR + 1 then word_of_nat (length (sk_rx a))
      else if r = S0_RX_RD then ucast (drop_bit 8 (sk_rd a)) else if r = S0_RX_RD + 1 then ucast (sk_rd a)
      else if r = S0_TX_WR then ucast (drop_bit 8 (sk_wr a)) else if r = S0_TX_WR + 1 then ucast (sk_wr a)
      else case find (\<lambda>i. r = rx_slot (sk_base a) i) [0..<length (sk_rx a)] of Some i \<Rightarrow> sk_rx a ! i | None \<Rightarrow> 0)"

definition demo_chip :: "sock w5100" where
  "demo_chip = \<lparr>reg_in = (\<lambda>r a. (demo_value a r, demo_pass a)), reg_out = (\<lambda>r v a. demo_pass ((writes a r v)\<lparr>sk_busy := 2\<rparr>))\<rparr>"

lemma demo_passes: "length (sk_rx a) \<le> 2048 \<Longrightarrow> passes (a\<lparr>sk_busy := j\<rparr>) (demo_pass (a\<lparr>sk_busy := l\<rparr>))"
proof -
  assume l: "length (sk_rx a) \<le> 2048"
  let ?k = "min 7 (2048 - length (sk_rx a))"
  have "sk_net a = []" if "drop ?k (sk_net a) = sk_net a" "length (sk_rx a) < 2048"
  proof -
    have "length (sk_net a) - ?k = length (sk_net a)" using that(1) by (metis length_drop)
    moreover have "0 < ?k" using that(2) by simp
    ultimately have "length (sk_net a) = 0" by linarith
    then show ?thesis by simp
  qed
  then show ?thesis using l by (auto simp: passes_def demo_pass_def Let_def intro!: exI [of _ ?k])
qed

lemma rx_slot_above: "24576 \<le> unat (rx_slot p i)"
proof -
  have "unat ((p + word_of_nat i) AND S0_MASK) < 2048" by (simp add: ring_offset)
  then show ?thesis by (simp add: S0_RX_BASE_def unat_word_ariths)
qed

lemma demo_reads: "length (sk_rx a) \<le> 2048 \<Longrightarrow> reads a r (demo_value a r)"
proof -
  assume l: "length (sk_rx a) \<le> 2048"
  have "demo_value a (rx_slot (sk_base a) i) = sk_rx a ! i" if i: "i < length (sk_rx a)" for i
  proof -
    have "rx_slot (sk_base a) i \<notin> {S0_SR, S0_CR, S0_RX_RSR, S0_RX_RSR + 1, S0_RX_RD, S0_RX_RD + 1, S0_TX_WR, S0_TX_WR + 1}"
      using rx_slot_above [of "sk_base a" i] by (auto simp: S0_SR_def S0_CR_def S0_RX_RSR_def S0_RX_RD_def S0_TX_WR_def)
    moreover have "find (\<lambda>j. rx_slot (sk_base a) i = rx_slot (sk_base a) j) [0..<length (sk_rx a)] = Some i"
      unfolding find_Some_iff
      using i l by (intro exI [of _ i]) (auto dest!: ring_index_inj [where p = "sk_base a", rotated 2])
    ultimately show ?thesis by (simp add: demo_value_def)
  qed
  then show ?thesis unfolding reads_def by (auto simp: demo_value_def S0_SR_def S0_CR_def S0_RX_RSR_def S0_RX_RD_def S0_TX_WR_def)
qed

lemma demo_pass_simps [simp]: "sk_busy (demo_pass a) = sk_busy a - 1" "sk_sent (demo_pass a) = sk_sent a"
  by (simp_all add: demo_pass_def Let_def)

lemma demo_cmd_wait: "cmd_wait demo_chip a = (if sk_busy a = 0 then Some (demo_pass a) else cmd_wait demo_chip (demo_pass a))"
  by (subst cmd_wait.simps) (simp add: demo_chip_def demo_value_def S0_CR_def S0_SR_def)

lemma demo_chip_ok: "chip_ok demo_chip id (\<lambda>a. length (sk_rx a) \<le> 2048)"
proof -
  have rd: "passes a (demo_pass a)" if "length (sk_rx a) \<le> 2048" for a
    using demo_passes [OF that, of "sk_busy a" "sk_busy a"] by simp
  have wrote: "passes (writes a r v) (demo_pass ((writes a r v)\<lparr>sk_busy := 2\<rparr>))" if "length (sk_rx a) \<le> 2048" for a r v
  proof -
    have "length (sk_rx (writes a r v)) \<le> 2048" using that by (auto simp: writes_def)
    from demo_passes [OF this, of "sk_busy (writes a r v)" 2] show ?thesis by simp
  qed
  have still: "writes a S0_CR CR_DISCON = a" for a by (simp add: writes_def register_defs)
  show ?thesis
    unfolding chip_ok_def
  proof (intro conjI allI impI)
    fix a :: sock and r assume "length (sk_rx a) \<le> 2048"
    then show "case reg_in demo_chip r a of (v, w') \<Rightarrow> length (sk_rx w') \<le> 2048 \<and> reads (id a) r v \<and> passes (id a) (id w')
        \<and> (sk_busy (id w') < sk_busy (id a) \<or> sk_busy (id w') = 0)"
      using demo_reads [of a r] rd [of a] passes_frame [OF rd, of a] by (simp add: demo_chip_def) linarith
  next
    fix a :: sock and r v assume "length (sk_rx a) \<le> 2048 \<and> \<not> (r = S0_CR \<and> v = CR_DISCON)"
    then have l: "length (sk_rx a) \<le> 2048" by simp
    show "length (sk_rx (reg_out demo_chip r v a)) \<le> 2048" "passes (writes (id a) r v) (id (reg_out demo_chip r v a))"
      using passes_frame [OF wrote [OF l]] wrote [OF l] by (simp_all add: demo_chip_def)
  next
    fix a :: sock
    have "reg_out demo_chip S0_CR CR_DISCON a = demo_pass (a\<lparr>sk_busy := 2\<rparr>)" by (simp add: demo_chip_def still)
    then show "\<exists>w'. w5100_cmd demo_chip CR_DISCON a = Some w' \<and> sk_sent (id w') = sk_sent (id a)"
      by (simp add: w5100_cmd_def demo_cmd_wait [of "demo_pass (a\<lparr>sk_busy := 2\<rparr>)"] demo_cmd_wait [of "demo_pass (demo_pass (a\<lparr>sk_busy := 2\<rparr>))"])
  qed
qed

definition demo_host :: "u8 list host" where
  "demo_host = \<lparr>ho_socket = (\<lambda>k. (3, k)), ho_gethostbyname = (\<lambda>_ k. (Some [192, 168, 1, 48], k)),
     ho_connect = (\<lambda>_ _ _ k. (0, k)), ho_send = (\<lambda>_ bs k. (int (min 5 (length bs)), k @ take 5 bs)),
     ho_recv = (\<lambda>_ _ k. (8, k)), ho_close = (\<lambda>_ k. k)\<rparr>"

lemma demo_host_ok: "host_ok demo_host id"
  by (auto simp: host_ok_def demo_host_def conectar_servidor_def min_def)

definition demo_volume :: "(u8 list \<times> u8 list, u8 list \<Rightarrow> u8 list option) fatfs" where
  "demo_volume = \<lparr>ff_fil_size = 38,
     ff_open = (\<lambda>m a _ d. let name = takeWhile (\<lambda>c. c \<noteq> 0) (rd_bytes m a 13)
       in (if name = [] \<or> length name = 13 then None else Some (name, []), d)),
     ff_read = (\<lambda>f _ d. (False, [], f, d)),
     ff_write = (\<lambda>f bs d. let bs = take 65536 bs in (Some (word_of_nat (length bs)), (fst f, snd f @ bs), d)),
     ff_lseek = (\<lambda>f _ d. (None, f, d)), ff_close = (\<lambda>f d. (Some (), d(fst f \<mapsto> snd f))),
     ff_tell = (\<lambda>_. 0), ff_size = (\<lambda>_. 0)\<rparr>"

lemma demo_volume_ok: "name \<noteq> [] \<Longrightarrow> length name \<le> 12 \<Longrightarrow> n \<le> 65536 \<Longrightarrow> takes_file demo_volume id d name n"
proof -
  have "takeWhile (\<lambda>c. c \<noteq> 0) (rd_bytes m a 13) = name" if c: "cstr m a name" and l: "length name \<le> 12" for m a name
  proof -
    have n: "rd_bytes m a (length name) = name" "m (a + word_of_nat (length name)) = 0" "0 \<notin> set name"
      using c cstr_append [of m a name "[]"] by simp_all
    have split: "[0..<13] = [0..<length name] @ length name # [Suc (length name)..<13]"
      using l upt_add_eq_append [of 0 "length name" "13 - length name"] upt_conv_Cons [of "length name" 13] by simp
    have "rd_bytes m a 13 = name @ 0 # map (\<lambda>i. m (a + word_of_nat i)) [Suc (length name)..<13]"
      using n(1,2) unfolding rd_bytes_def split by simp
    moreover have "c \<noteq> 0" if "c \<in> set name" for c using n(3) that by metis
    ultimately show ?thesis by (simp add: takeWhile_append2)
  qed
  moreover assume "name \<noteq> []" "length name \<le> 12" "n \<le> 65536"
  ultimately show ?thesis by (auto simp: takes_file_def demo_volume_def Let_def)
qed

definition demo_file :: "u8 list" where
  "demo_file = map word_of_nat [65..<90]"

definition demo_sock :: "u8 list \<Rightarrow> sock" where
  "demo_sock bs = \<lparr>sk_rx = [], sk_net = bs, sk_base = 0x07F0, sk_rd = 0x07F0, sk_tx = (\<lambda>_. 0), sk_txbase = 0x07FE, sk_wr = 0x07FE,
     sk_sent = [], sk_busy = 0, sk_delay = 0\<rparr>"

definition demo_receiver :: receiver where
  "demo_receiver = \<lparr>rmem = (\<lambda>_. 0xAA), tamanho_total = 0, cabecalho_raw = replicate 21 0, estado = ESTADO_HEADER, bytes_recebidos = 0\<rparr>"

lemmas demo_state = demo_sock_def demo_receiver_def

text \<open>The bytes that the host of the example sends.\<close>

definition demo_line :: "u8 list \<Rightarrow> u8 list" where
  "demo_line f = snd (sender_main demo_host [''a.txt'' \<mapsto> f] (\<lambda>n. Some (replicate n 0)) (Some ''a.txt'') [])"

lemma demo_line_wire: "length f < 2 ^ 31 \<Longrightarrow> demo_line f = wire [0, 0, 0, 0] ''a.txt'' f"
proof -
  assume l: "length f < 2 ^ 31"
  have t: "replicate 4 (0 :: u8) = [0, 0, 0, 0]" by (simp add: numeral_eq_Suc)
  show ?thesis
    using sender_main_sends [OF demo_host_ok _ _ l, of "[''a.txt'' \<mapsto> f]" "''a.txt''" "\<lambda>n. Some (replicate n 0)" "replicate (length f + 21) 0" "[]"]
    by (auto simp: demo_line_def t)
qed

theorem reception_reliable_witness:
  "\<exists>w' s'. getter_calls demo_chip (demo_sock (demo_line demo_file)) demo_receiver = Some (w', s')
    \<and> rmem s' = wr_bytes (\<lambda>_. 0xAA) BUFFER_ARQUIVO (demo_line demo_file)
    \<and> unat (tamanho_total s') = 25 \<and> sk_sent w' = ack"
proof -
  let ?w = "demo_sock (demo_line demo_file)"
  have l: "length demo_file = 25" by (simp add: demo_file_def)
  have "file_size (demo_line demo_file) = 25" "length (demo_line demo_file) = 25"
    using wire_shape(1,2) [of "[0, 0, 0, 0]" "''a.txt''" demo_file] l by (simp_all add: demo_line_wire)
  then have "\<exists>w' s'. getter_calls demo_chip ?w demo_receiver = Some (w', s')
    \<and> rmem s' = wr_bytes (rmem demo_receiver) BUFFER_ARQUIVO (take (file_size (stream (id ?w))) (stream (id ?w)))
    \<and> unat (tamanho_total s') = file_size (stream (id ?w)) \<and> sk_sent (id w') = sk_sent (id ?w) @ ack
    \<and> (\<forall>x. unat x < unat BUFFER_ARQUIVO \<or> 0x100000 - 4096 \<le> unat x \<longrightarrow> rmem s' x = rmem demo_receiver x)"
    by (intro reception_reliable [OF demo_chip_ok]) (simp_all add: demo_state fits_ram_def BUFFER_ARQUIVO_def)
  then obtain w' s' where "getter_calls demo_chip ?w demo_receiver = Some (w', s')"
    "rmem s' = wr_bytes (rmem demo_receiver) BUFFER_ARQUIVO (take (file_size (stream (id ?w))) (stream (id ?w)))"
    "unat (tamanho_total s') = file_size (stream (id ?w))" "sk_sent (id w') = sk_sent (id ?w) @ ack" by blast
  then show ?thesis using \<open>file_size (demo_line demo_file) = 25\<close> \<open>length (demo_line demo_file) = 25\<close>
    by (intro exI [of _ w'] exI [of _ s']) (simp add: demo_state)
qed

theorem transfer_loses_last_21_bytes_witness:
  "\<exists>w' s' d'. getter_calls demo_chip (demo_sock (demo_line demo_file)) demo_receiver = Some (w', s')
    \<and> saving_file demo_volume s' Map.empty = (Saved, d')
    \<and> d' (map of_char ''a.txt'') = Some ([65, 66, 67, 68] @ replicate 21 0xAA)"
proof -
  let ?w = "demo_sock (demo_line demo_file)" and ?m = "[''a.txt'' \<mapsto> demo_file]"
  have l: "length demo_file = 25" by (simp add: demo_file_def)
  have t: "take 4 demo_file = [65, 66, 67, 68]" by (simp add: demo_file_def)
  have "\<exists>w' s' d'. getter_calls demo_chip ?w demo_receiver = Some (w', s') \<and> sk_sent (id w') = sk_sent (id ?w) @ ack
    \<and> saving_file demo_volume s' Map.empty = (Saved, d')
    \<and> id d' = (id Map.empty)(map of_char ''a.txt'' \<mapsto> take (length demo_file - 21) demo_file
         @ rd_bytes (rmem demo_receiver) (BUFFER_ARQUIVO + word_of_nat (length demo_file)) 21)"
    by (rule transfer_loses_last_21_bytes [where depth = 4096 and k = "[]" and host_files = ?m and mem_alloc = "\<lambda>n. Some (replicate n 0)"
          and block = "replicate (length demo_file + 21) 0" and H = demo_host and out = id,
          OF demo_host_ok _ _ _ _ _ _ _ demo_chip_ok _ _ _ _ _ _ _ demo_volume_ok])
      (simp_all add: demo_state l demo_line_def fits_ram_def BUFFER_ARQUIVO_def)
  then show ?thesis by (auto simp: l t demo_receiver_def rd_bytes_def map_replicate_const simp del: upt_rec_numeral)
qed

theorem short_file_hangs_witness:
  "getter_calls demo_chip (demo_sock (demo_line [1, 2, 3])) demo_receiver = None"
  by (rule short_file_hangs [where k = "[]" and host_files = "[''a.txt'' \<mapsto> [1, 2, 3]]" and mem_alloc = "\<lambda>n. Some (replicate n 0)"
        and block = "replicate (length [1, 2, 3 :: u8] + 21) 0" and H = demo_host and out = id and contents = "[1, 2, 3]" and name = "''a.txt''",
        OF demo_chip_ok _ _ _ _ demo_host_ok])
    (simp_all add: demo_state demo_line_def)

end
