(* ===== verification/KbdRing.thy ===== *)
theory KbdRing
  imports OrionBase
begin

text \<open>
  The keyboard buffers: \<open>orioncore/drivers_raw/kbd/ringbuffer.c\<close> of the ROM, filled by the interrupt
  handler and emptied by the main program, and \<open>peripheral/pico2W/ringbuffer.c\<close> of the keyboard
  firmware. Both are arrays of 256 bytes whose two indices are bytes, so that they wrap round by
  themselves; one place stays free to tell a full buffer from an empty one. The contract of the two is
  the locale \<open>byte_queue\<close>.
\<close>

subsection \<open>The buffer of the ROM\<close>

record ringbuffer =
  rb_buffer :: "u8 \<Rightarrow> u8"
  rb_head :: u8
  rb_tail :: u8

definition ring_buf_init :: "ringbuffer \<Rightarrow> ringbuffer" where
  "ring_buf_init rb = rb\<lparr>rb_head := 0, rb_tail := 0\<rparr>"

definition ring_buf_get :: "ringbuffer \<Rightarrow> u8 \<times> ringbuffer" where
  "ring_buf_get rb = (rb_buffer rb (rb_tail rb), rb\<lparr>rb_tail := rb_tail rb + 1\<rparr>)"

definition ring_buf_put :: "u8 \<Rightarrow> ringbuffer \<Rightarrow> ringbuffer" where
  "ring_buf_put c rb =
     (let next_head = rb_head rb + 1
      in if next_head = rb_tail rb then rb
         else rb\<lparr>rb_buffer := (rb_buffer rb)(rb_head rb := c), rb_head := next_head\<rparr>)"

definition ring_buf_is_empty :: "ringbuffer \<Rightarrow> bool" where
  "ring_buf_is_empty rb \<longleftrightarrow> rb_head rb = rb_tail rb"

definition ring_buf_is_full :: "ringbuffer \<Rightarrow> bool" where
  "ring_buf_is_full rb \<longleftrightarrow> rb_head rb + 1 = rb_tail rb"

text \<open>
  The three points of \<open>ring_buf_get_char\<close> and \<open>ring_buf_get\<close> between which the interrupt handler can
  run: the wait for a byte, the read of the byte at the tail, and the increment of the tail. One event
  is one of these steps of the main program or one complete run of the handler.
\<close>

datatype reader = Waiting | Reading | Advancing u8

datatype kbd_event = Interrupt u8 | Main

record keyboard =
  kb_ring :: ringbuffer
  reader_at :: reader
  got :: "u8 list"

fun kbd_step :: "kbd_event \<Rightarrow> keyboard \<Rightarrow> keyboard" where
  "kbd_step (Interrupt c) k = k\<lparr>kb_ring := ring_buf_put c (kb_ring k)\<rparr>"
| "kbd_step Main k =
     (case reader_at k of
        Waiting \<Rightarrow> if ring_buf_is_empty (kb_ring k) then k else k\<lparr>reader_at := Reading\<rparr>
      | Reading \<Rightarrow> k\<lparr>reader_at := Advancing (rb_buffer (kb_ring k) (rb_tail (kb_ring k)))\<rparr>
      | Advancing ret \<Rightarrow> k\<lparr>kb_ring := (kb_ring k)\<lparr>rb_tail := rb_tail (kb_ring k) + 1\<rparr>, reader_at := Waiting, got := got k @ [ret]\<rparr>)"

subsection \<open>The buffer of the firmware\<close>

definition kb_init :: "ringbuffer \<Rightarrow> ringbuffer" where
  "kb_init kb = kb\<lparr>rb_head := 0, rb_tail := 0\<rparr>"

definition kb_put :: "u8 \<Rightarrow> ringbuffer \<Rightarrow> bool \<times> ringbuffer" where
  "kb_put data kb =
     (let next_head = rb_head kb + 1
      in if next_head = rb_tail kb then (False, kb)
         else (True, kb\<lparr>rb_buffer := (rb_buffer kb)(rb_head kb := data), rb_head := next_head\<rparr>))"

definition kb_get :: "ringbuffer \<Rightarrow> u8 option \<times> ringbuffer" where
  "kb_get kb =
     (if rb_head kb = rb_tail kb then (None, kb)
      else (Some (rb_buffer kb (rb_tail kb)), kb\<lparr>rb_tail := rb_tail kb + 1\<rparr>))"

definition kb_available :: "ringbuffer \<Rightarrow> bool" where
  "kb_available kb \<longleftrightarrow> rb_head kb \<noteq> rb_tail kb"

subsection \<open>The contract of a bounded queue\<close>

text \<open>
  \<open>pending\<close> is the content of a queue of at most \<open>capacity\<close> bytes; a byte that does not fit is
  dropped. A run of operations is a list of bytes to put (\<open>Some c\<close>) and requests (\<open>None\<close>).
\<close>

locale byte_queue =
  fixes put :: "u8 \<Rightarrow> 's \<Rightarrow> 's" and get :: "'s \<Rightarrow> (u8 \<times> 's) option" and pending :: "'s \<Rightarrow> u8 list" and capacity :: nat
  assumes put_pending: "pending (put c s) = (if length (pending s) < capacity then pending s @ [c] else pending s)"
    and get_empty: "pending s = [] \<Longrightarrow> get s = None"
    and get_head: "pending s = x # xs \<Longrightarrow> \<exists>s'. get s = Some (x, s') \<and> pending s' = xs"
begin

primrec ops :: "u8 option list \<Rightarrow> 's \<times> u8 list \<times> u8 list \<Rightarrow> 's \<times> u8 list \<times> u8 list" where
  "ops [] x = x"
| "ops (p # ps) x =
     (case x of (s, removed, entered) \<Rightarrow>
        ops ps (case p of
          Some c \<Rightarrow> (put c s, removed, if length (pending s) < capacity then entered @ [c] else entered)
        | None \<Rightarrow> (case get s of None \<Rightarrow> (s, removed, entered) | Some (c, s') \<Rightarrow> (s', removed @ [c], entered))))"

lemma ops_fifo:
  "removed @ pending s = entered \<Longrightarrow> length (pending s) \<le> capacity \<Longrightarrow> ops ps (s, removed, entered) = (s', removed', entered')
    \<Longrightarrow> removed' @ pending s' = entered' \<and> length (pending s') \<le> capacity"
proof (induction ps arbitrary: s removed entered)
  case (Cons p ps)
  show ?case
  proof (cases p)
    case None
    show ?thesis
    proof (cases "pending s")
      case Nil
      from Cons.IH [OF Cons.prems(1,2)] show ?thesis using Cons.prems(3) None Nil by (simp add: get_empty)
    next
      case (Cons x xs)
      obtain s1 where g: "get s = Some (x, s1)" "pending s1 = xs" using get_head [OF Cons] by blast
      have "(removed @ [x]) @ pending s1 = entered" "length (pending s1) \<le> capacity" using Cons.prems(1,2) Cons g(2) by simp_all
      from Cons.IH [OF this] show ?thesis using Cons.prems(3) None g(1) by simp
    qed
  next
    case (Some c)
    show ?thesis using Cons.IH [of removed "put c s"] Cons.prems Some by (auto simp: put_pending split: if_splits)
  qed
qed simp

end

text \<open>The bytes between tail and head, in the order they were put.\<close>

definition queued :: "ringbuffer \<Rightarrow> u8 list" where
  "queued rb = map (\<lambda>i. rb_buffer rb (rb_tail rb + word_of_nat i)) [0..<unat (rb_head rb - rb_tail rb)]"

lemma unat_suc8: "(x :: u8) + 1 \<noteq> 0 \<Longrightarrow> unat (x + 1) = Suc (unat x)"
proof -
  assume n: "x + 1 \<noteq> 0"
  have u: "unat (x + 1) = (unat x + 1) mod 256" by (simp add: unat_word_ariths)
  then have "unat x + 1 \<noteq> 256" using n by (metis mod_self unat_eq_0)
  moreover have "unat x < 256" by (rule unat_less8)
  ultimately have "unat x + 1 < 256" by linarith
  then show ?thesis using u by simp
qed

lemma put_full: "rb_head rb + 1 = rb_tail rb \<longleftrightarrow> length (queued rb) = 255"
proof -
  have "rb_head rb + 1 = rb_tail rb \<longleftrightarrow> rb_head rb - rb_tail rb = - 1" by (auto simp: algebra_simps eq_neg_iff_add_eq_0)
  also have "\<dots> \<longleftrightarrow> unat (rb_head rb - rb_tail rb) = unat (- 1 :: u8)" by (simp only: word_unat_eq_iff)
  finally show ?thesis by (simp add: queued_def unsigned_minus_1_eq_mask mask_eq_exp_minus_1)
qed

lemma queued_length: "length (queued rb) \<le> 255"
proof -
  have "unat (rb_head rb - rb_tail rb) < 256" by (rule unat_less8)
  then show ?thesis by (simp only: queued_def length_map length_upt)
qed

lemma queued_Nil: "queued rb = [] \<longleftrightarrow> rb_head rb = rb_tail rb"
  by (simp add: queued_def unat_eq_0)

lemma queued_put:
  assumes "rb_head rb + 1 \<noteq> rb_tail rb"
  shows "queued (rb\<lparr>rb_buffer := (rb_buffer rb)(rb_head rb := c), rb_head := rb_head rb + 1\<rparr>) = queued rb @ [c]"
proof -
  let ?n = "unat (rb_head rb - rb_tail rb)"
  have n: "?n < 255" using assms put_full [of rb] queued_length [of rb] by (simp add: queued_def)
  have e: "rb_head rb + 1 - rb_tail rb = (rb_head rb - rb_tail rb) + 1" by simp
  have "unat (rb_head rb + 1 - rb_tail rb) = Suc ?n"
    unfolding e by (rule unat_suc8) (use n in \<open>auto simp: word_unat_eq_iff unat_word_ariths\<close>)
  moreover have "rb_tail rb + word_of_nat i \<noteq> rb_head rb" if "i < ?n" for i
  proof
    assume "rb_tail rb + word_of_nat i = rb_head rb"
    then have "word_of_nat i = rb_head rb - rb_tail rb" by (simp add: algebra_simps)
    then have "unat (word_of_nat i :: u8) = ?n" by simp
    with that n show False by (simp add: unat_of_nat)
  qed
  moreover have "rb_tail rb + word_of_nat ?n = rb_head rb" by simp
  ultimately show ?thesis by (simp add: queued_def)
qed

lemma queued_get:
  assumes "queued rb = x # xs"
  shows "rb_buffer rb (rb_tail rb) = x" "queued (rb\<lparr>rb_tail := rb_tail rb + 1\<rparr>) = xs"
proof -
  have ne: "rb_head rb - rb_tail rb \<noteq> 0" using assms queued_Nil [of rb] by auto
  then obtain n where n: "unat (rb_head rb - rb_tail rb) = Suc n" by (metis not0_implies_Suc unat_eq_0)
  have e: "rb_head rb - (rb_tail rb + 1) = (rb_head rb - rb_tail rb) - 1" by simp
  have "unat (rb_head rb - (rb_tail rb + 1)) = n" unfolding e using unat_minus_one [OF ne] n by simp
  then have "queued rb = rb_buffer rb (rb_tail rb) # queued (rb\<lparr>rb_tail := rb_tail rb + 1\<rparr>)"
    unfolding queued_def n map_upt_Suc by (simp add: algebra_simps)
  then show "rb_buffer rb (rb_tail rb) = x" "queued (rb\<lparr>rb_tail := rb_tail rb + 1\<rparr>) = xs" using assms by simp_all
qed

lemma queued_ring_buf_put:
  "queued (ring_buf_put c rb) = (if length (queued rb) < 255 then queued rb @ [c] else queued rb)"
  using put_full [of rb] queued_put [of rb c] queued_length [of rb] by (auto simp: ring_buf_put_def Let_def)

text \<open>The main program of the ROM asks before it takes; the firmware's get asks by itself.\<close>

definition ring_take :: "ringbuffer \<Rightarrow> (u8 \<times> ringbuffer) option" where
  "ring_take rb = (if ring_buf_is_empty rb then None else Some (ring_buf_get rb))"

definition kb_take :: "ringbuffer \<Rightarrow> (u8 \<times> ringbuffer) option" where
  "kb_take kb = (case kb_get kb of (None, _) \<Rightarrow> None | (Some c, kb) \<Rightarrow> Some (c, kb))"

interpretation rom: byte_queue ring_buf_put ring_take queued 255
proof
  fix c s
  show "queued (ring_buf_put c s) = (if length (queued s) < 255 then queued s @ [c] else queued s)"
    by (rule queued_ring_buf_put)
qed (auto simp: ring_take_def ring_buf_is_empty_def ring_buf_get_def queued_Nil queued_get dest: queued_Nil [THEN iffD2])

interpretation firmware: byte_queue "\<lambda>c s. snd (kb_put c s)" kb_take queued 255
proof
  fix c s
  show "queued (snd (kb_put c s)) = (if length (queued s) < 255 then queued s @ [c] else queued s)"
    using queued_ring_buf_put [of c s] by (auto simp: kb_put_def ring_buf_put_def Let_def split: if_splits)
qed (auto simp: kb_take_def kb_get_def queued_Nil queued_get dest: queued_Nil [THEN iffD2])

subsection \<open>The reader and the interrupt\<close>

text \<open>
  \<open>sent_bytes\<close> runs the events and collects the bytes that the handler stored: those that found the
  buffer not full.
\<close>

fun kbd_run :: "kbd_event list \<Rightarrow> keyboard \<Rightarrow> keyboard" where
  "kbd_run es k = fold kbd_step es k"

fun accepted :: "kbd_event list \<Rightarrow> keyboard \<Rightarrow> u8 list" where
  "accepted [] k = []"
| "accepted (Interrupt c # es) k = (if ring_buf_is_full (kb_ring k) then [] else [c]) @ accepted es (kbd_step (Interrupt c) k)"
| "accepted (Main # es) k = accepted es (kbd_step Main k)"

definition kbd_ok :: "keyboard \<Rightarrow> bool" where
  "kbd_ok k \<longleftrightarrow>
     (case reader_at k of
        Waiting \<Rightarrow> True
      | Reading \<Rightarrow> queued (kb_ring k) \<noteq> []
      | Advancing ret \<Rightarrow> queued (kb_ring k) \<noteq> [] \<and> ret = hd (queued (kb_ring k)))"

lemma kbd_step_interrupt:
  assumes "kbd_ok k"
  shows "kbd_ok (kbd_step (Interrupt c) k)"
    "queued (kb_ring (kbd_step (Interrupt c) k)) = queued (kb_ring k) @ (if ring_buf_is_full (kb_ring k) then [] else [c])"
  using assms put_full [of "kb_ring k"] queued_length [of "kb_ring k"]
  by (auto simp: kbd_ok_def queued_ring_buf_put ring_buf_is_full_def split: reader.splits)

lemma kbd_step_main:
  assumes "kbd_ok k"
  shows "kbd_ok (kbd_step Main k) \<and> got (kbd_step Main k) @ queued (kb_ring (kbd_step Main k)) = got k @ queued (kb_ring k)"
proof (cases "queued (kb_ring k)")
  case Nil
  then show ?thesis using assms queued_Nil [of "kb_ring k"]
    by (auto simp: kbd_ok_def ring_buf_is_empty_def split: reader.splits)
next
  case (Cons x xs)
  then show ?thesis using assms queued_get [OF Cons] queued_Nil [of "kb_ring k"]
    by (auto simp: kbd_ok_def ring_buf_is_empty_def split: reader.splits)
qed

lemma kbd_run_fifo:
  "kbd_ok k \<Longrightarrow> kbd_ok (kbd_run es k) \<and> got (kbd_run es k) @ queued (kb_ring (kbd_run es k)) = got k @ queued (kb_ring k) @ accepted es k"
proof (induction es k rule: accepted.induct)
  case (2 c es k)
  from kbd_step_interrupt [OF 2(2), of c] 2(1) show ?case by auto
next
  case (3 es k)
  from kbd_step_main [OF 3(2)] 3(1) show ?case by (metis append.assoc accepted.simps(3) fold_simps(2) kbd_run.simps)
qed simp

lemma kbd_three_steps:
  assumes "kbd_ok k" and "queued (kb_ring k) \<noteq> []"
  shows "\<exists>n \<le> 3. got (kbd_run (replicate n Main) k) = got k @ [hd (queued (kb_ring k))]"
proof -
  obtain x xs where q: "queued (kb_ring k) = x # xs" using assms(2) by (cases "queued (kb_ring k)") auto
  have b: "rb_buffer (kb_ring k) (rb_tail (kb_ring k)) = x" "rb_head (kb_ring k) \<noteq> rb_tail (kb_ring k)"
    using queued_get(1) [OF q] queued_Nil [of "kb_ring k"] q by auto
  have n: "replicate 3 Main = [Main, Main, Main]" "replicate 2 Main = [Main, Main]" "replicate 1 Main = [Main]"
    by (simp_all add: numeral_eq_Suc)
  consider "reader_at k = Waiting" | "reader_at k = Reading" | "reader_at k = Advancing x"
    using assms(1) q by (auto simp: kbd_ok_def split: reader.splits)
  then show ?thesis
  proof cases
    case 1
    then show ?thesis using b q by (intro exI [of _ 3]) (simp add: n ring_buf_is_empty_def)
  next
    case 2
    then show ?thesis using b q by (intro exI [of _ 2]) (simp add: n)
  next
    case 3
    then show ?thesis using b q by (intro exI [of _ 1]) simp
  qed
qed

definition kbd_start :: "ringbuffer \<Rightarrow> keyboard" where
  "kbd_start rb = \<lparr>kb_ring = ring_buf_init rb, reader_at = Waiting, got = []\<rparr>"

lemma kbd_start_ok: "kbd_ok (kbd_start rb)" "queued (kb_ring (kbd_start rb)) = []" "got (kbd_start rb) = []"
  by (simp_all add: kbd_ok_def kbd_start_def queued_Nil) (simp add: ring_buf_init_def)

subsection \<open>Properties\<close>

text \<open>
  Claim C15. The keyboard buffer is a queue however the interrupts fall: from an empty buffer, after
  any sequence of interrupts and steps of the reader, also between its read of a byte and its
  increment of the tail, the bytes it got followed by those in the buffer are exactly the bytes the
  handler stored, in order; the handler drops a byte only when 255 bytes wait, and a reader that is
  given three steps while one waits gets the first of them.
\<close>

theorem keyboard_fifo_under_interrupts:
  assumes "k = kbd_run es (kbd_start rb)"
  shows "got k @ queued (kb_ring k) = accepted es (kbd_start rb)
    \<and> (ring_buf_is_full (kb_ring k) \<longleftrightarrow> length (queued (kb_ring k)) = 255)
    \<and> (queued (kb_ring k) \<noteq> [] \<longrightarrow> (\<exists>n \<le> 3. got (kbd_run (replicate n Main) k) = got k @ [hd (queued (kb_ring k))]))"
  using kbd_run_fifo [OF kbd_start_ok(1), of es rb] kbd_start_ok(2,3) [of rb] put_full [of "kb_ring k"] kbd_three_steps [of k]
  unfolding assms ring_buf_is_full_def by simp

theorem keyboard_fifo_under_interrupts_witness:
  "\<exists>n \<le> 3. got (kbd_run (replicate n Main)
      (kbd_run [Interrupt 65, Main, Main, Interrupt 66, Main, Interrupt 67] (kbd_start \<lparr>rb_buffer = (\<lambda>_. 0), rb_head = 9, rb_tail = 7\<rparr>))) = [65, 66]"
proof -
  let ?es = "[Interrupt 65, Main, Main, Interrupt 66, Main, Interrupt 67]"
  let ?k = "kbd_run ?es (kbd_start \<lparr>rb_buffer = (\<lambda>_. 0), rb_head = 9, rb_tail = 7\<rparr>)"
  have v: "got ?k = [65]" "queued (kb_ring ?k) = [66, 67]" by code_simp+
  then show ?thesis
    using keyboard_fifo_under_interrupts [OF refl, of ?es "\<lparr>rb_buffer = (\<lambda>_. 0), rb_head = 9, rb_tail = 7\<rparr>"]
    by (simp del: kbd_run.simps)
qed

text \<open>
  Both keyboard buffers are bounded queues: over any sequence of bytes put and requests, the
  bytes handed out followed by those still in the buffer are the bytes that were accepted, in order,
  and at most 255 of them wait.
\<close>

theorem keyboard_buffers_are_queues:
  assumes "queued rb = []"
  shows "(rom.ops ps (rb, [], []) = (rb', removed, entered) \<longrightarrow> removed @ queued rb' = entered \<and> length (queued rb') \<le> 255)
    \<and> (firmware.ops ps (rb, [], []) = (rb', removed, entered) \<longrightarrow> removed @ queued rb' = entered \<and> length (queued rb') \<le> 255)"
  using rom.ops_fifo [of "[]" rb "[]" ps] firmware.ops_fifo [of "[]" rb "[]" ps] assms by simp

text \<open>\<open>ring_buf_get\<close> does not ask: on an empty buffer it returns a stale byte and leaves the buffer full.\<close>

lemma get_from_empty: "ring_buf_is_empty rb \<Longrightarrow> length (queued (snd (ring_buf_get rb))) = 255"
proof -
  assume "ring_buf_is_empty rb"
  then have "rb_head (snd (ring_buf_get rb)) + 1 = rb_tail (snd (ring_buf_get rb))"
    by (simp add: ring_buf_is_empty_def ring_buf_get_def)
  then show ?thesis by (simp add: put_full)
qed

end
