(* ===== verification/ShellLine.thy ===== *)
theory ShellLine
  imports KString
begin

text \<open>
  The line editor of the ROM shell, \<open>orioncore/shell/shell_history.c\<close>: a line of at most 127
  characters, edited with backspace, and a history of the last 16 lines recalled with two keys. The
  history rows and the line are in memory, at the parameters \<open>H\<close> (the static array) and \<open>buf\<close>. The
  string routines are those of \<open>KString\<close>: the library of the ROM has the same source files as that of
  the kernel. The keys that \<open>ring_buf_get_char\<close> returns are a list, the characters given to
  \<open>picovga_putchar\<close> two more, for the screen and the serial line; \<open>Typing\<close> is the state in which the next key is awaited.
  \<open>hist_count\<close>, a C int that only counts up, is an integer: its overflow after \<open>2 ^ 31\<close> lines, undefined
  in C, is outside the model.

  The specification is an editor on lists: a text, the position in the history, and the recalled lines
  with the latest first.
\<close>

subsection \<open>The code\<close>

definition HIST_SIZE :: int where "HIST_SIZE = 16"
definition LINE_MAX :: int where "LINE_MAX = 128"
definition KEY_UP :: u8 where "KEY_UP = 0x10"
definition KEY_DOWN :: u8 where "KEY_DOWN = 0x11"
definition KEY_BS :: u8 where "KEY_BS = 0x08"
definition KEY_ENTER :: u8 where "KEY_ENTER = 0x0D"

record console =
  tmem :: mem
  hist_count :: int
  hist_cursor :: int
  screen :: "u8 list"
  serial :: "u8 list"

text \<open>A character goes to the screen register, and to the serial line unless it is another control
  character than the two line ends; \<open>char\<close> is signed.\<close>

definition picovga_putchar :: "u8 \<Rightarrow> console \<Rightarrow> console" where
  "picovga_putchar c s =
     (let s = s\<lparr>screen := screen s @ [c]\<rparr>
      in if 0x20 \<le> sint c \<or> c = 0x0D \<or> c = 0x0A then s\<lparr>serial := serial s @ [c]\<rparr> else s)"

partial_function (option) vputs :: "addr \<Rightarrow> console \<Rightarrow> console option" where
  "vputs str s = (if tmem s str \<noteq> 0 then vputs (str + 1) (picovga_putchar (tmem s str) s) else Some s)"

text \<open>The three loops of \<open>redraw_line\<close>, then the text.\<close>

definition erase_line :: "int \<Rightarrow> console \<Rightarrow> console" where
  "erase_line old_len s =
     fold picovga_putchar (replicate (nat old_len) 8 @ replicate (nat old_len) 32 @ replicate (nat old_len) 8) s"

definition redraw_line :: "int \<Rightarrow> addr \<Rightarrow> console \<Rightarrow> console option" where
  "redraw_line old_len str s = vputs str (erase_line old_len s)"

text \<open>\<open>history[idx]\<close> is the row of 128 bytes at index \<open>idx\<close>.\<close>

definition history_row :: "addr \<Rightarrow> int \<Rightarrow> addr" where
  "history_row H idx = H + word_of_int (idx * LINE_MAX)"

definition history_add :: "addr \<Rightarrow> addr \<Rightarrow> console \<Rightarrow> console" where
  "history_add H cmd s =
     (if tmem s cmd = 0 then s
      else let row = history_row H (hist_count s mod HIST_SIZE);
               m = snd (strncpy (tmem s) row cmd (word_of_int (LINE_MAX - 1)))
           in s\<lparr>tmem := m(row + word_of_int (LINE_MAX - 1) := 0), hist_count := hist_count s + 1, hist_cursor := - 1\<rparr>)"

text \<open>The row under the cursor, written over the line on the screen and copied to the buffer.\<close>

definition recall :: "addr \<Rightarrow> addr \<Rightarrow> int \<Rightarrow> console \<Rightarrow> (int \<times> console) option" where
  "recall H buf len s =
     (let row = history_row H ((hist_count s - 1 - hist_cursor s + HIST_SIZE) mod HIST_SIZE)
      in case redraw_line len row s of
           None \<Rightarrow> None
         | Some s \<Rightarrow>
             (case strcpy (tmem s) buf row of
                None \<Rightarrow> None
              | Some (_, m) \<Rightarrow>
                  (case strlen m buf of None \<Rightarrow> None | Some n \<Rightarrow> Some (sint n, s\<lparr>tmem := m\<rparr>))))"

definition line_key :: "addr \<Rightarrow> addr \<Rightarrow> u8 \<Rightarrow> int \<times> console \<Rightarrow> (int \<times> console) option" where
  "line_key H buf c x =
     (case x of (len, s) \<Rightarrow>
        if c = KEY_BS then
          (if 0 < len
           then Some (len - 1, fold picovga_putchar [8, 32, 8] (s\<lparr>tmem := (tmem s)(buf + word_of_int (len - 1) := 0)\<rparr>))
           else Some (len, s))
        else if c = KEY_UP then
          (if hist_cursor s + 1 < hist_count s \<and> hist_cursor s + 1 < HIST_SIZE
           then recall H buf len (s\<lparr>hist_cursor := hist_cursor s + 1\<rparr>)
           else Some (len, s))
        else if c = KEY_DOWN then
          (if 0 < hist_cursor s then recall H buf len (s\<lparr>hist_cursor := hist_cursor s - 1\<rparr>)
           else if hist_cursor s = 0
           then Some (0, (erase_line len (s\<lparr>hist_cursor := - 1\<rparr>))\<lparr>tmem := (tmem s)(buf := 0)\<rparr>)
           else Some (len, s))
        else if len < LINE_MAX - 1
        then Some (len + 1, picovga_putchar c
               (s\<lparr>tmem := (tmem s)(buf + word_of_int len := c, buf + word_of_int (len + 1) := 0)\<rparr>))
        else Some (len, s))"

datatype line_result = Typing int "console" | Entered "console" "u8 list"

fun readline_loop :: "addr \<Rightarrow> addr \<Rightarrow> u8 list \<Rightarrow> int \<times> console \<Rightarrow> line_result option" where
  "readline_loop H buf [] (len, s) = Some (Typing len s)"
| "readline_loop H buf (c # keys) (len, s) =
     (if c = KEY_ENTER
      then (let s = picovga_putchar 10 s
            in Some (Entered (s\<lparr>tmem := (tmem s)(buf + word_of_int len := 0)\<rparr>) keys))
      else case line_key H buf c (len, s) of
             None \<Rightarrow> None
           | Some x \<Rightarrow> readline_loop H buf keys x)"

definition readline_with_history :: "addr \<Rightarrow> addr \<Rightarrow> u8 list \<Rightarrow> console \<Rightarrow> line_result option" where
  "readline_with_history H buf keys s =
     readline_loop H buf keys (0, s\<lparr>tmem := (tmem s)(buf := 0), hist_cursor := - 1\<rparr>)"

subsection \<open>The editor on lists\<close>

definition edit_key :: "u8 list list \<Rightarrow> u8 \<Rightarrow> u8 list \<times> int \<Rightarrow> u8 list \<times> int" where
  "edit_key hs c e =
     (case e of (t, place) \<Rightarrow>
        if c = KEY_BS then (butlast t, place)
        else if c = KEY_UP then (if place + 1 < int (length hs) then (hs ! nat (place + 1), place + 1) else e)
        else if c = KEY_DOWN then
          (if 0 < place then (hs ! nat (place - 1), place - 1) else if place = 0 then ([], - 1) else e)
        else if length t < 127 then (t @ [c], place) else e)"

definition remember :: "u8 list \<Rightarrow> u8 list list \<Rightarrow> u8 list list" where
  "remember t hs = (if takeWhile (\<lambda>c. c \<noteq> 0) t = [] then hs else take 16 (takeWhile (\<lambda>c. c \<noteq> 0) t # hs))"

text \<open>The two memory areas, and what they hold of an editor.\<close>

definition areas :: "addr \<Rightarrow> addr \<Rightarrow> bool" where
  "areas H buf \<longleftrightarrow> unat H + 2048 \<le> 2 ^ 32 \<and> unat buf + 128 \<le> 2 ^ 32
     \<and> (unat buf + 128 \<le> unat H \<or> unat H + 2048 \<le> unat buf)"

definition history_holds :: "addr \<Rightarrow> u8 list list \<Rightarrow> mem \<Rightarrow> int \<Rightarrow> bool" where
  "history_holds H hs m count \<longleftrightarrow>
     0 \<le> count \<and> length hs = min (nat count) 16
     \<and> (\<forall>i < length hs. cstr m (history_row H ((count - 1 - int i) mod 16)) (hs ! i) \<and> length (hs ! i) \<le> 127)"

definition line_holds :: "addr \<Rightarrow> addr \<Rightarrow> u8 list list \<Rightarrow> int \<times> console \<Rightarrow> u8 list \<times> int \<Rightarrow> bool" where
  "line_holds H buf hs x e \<longleftrightarrow>
     (case x of (len, s) \<Rightarrow> case e of (t, place) \<Rightarrow>
        len = int (length t) \<and> length t \<le> 127 \<and> rd_bytes (tmem s) buf (length t) = t
        \<and> tmem s (buf + word_of_nat (length t)) = 0 \<and> hist_cursor s = place \<and> - 1 \<le> place \<and> place < int (length hs)
        \<and> history_holds H hs (tmem s) (hist_count s))"

subsection \<open>Addresses\<close>

lemma row_unat:
  assumes "areas H buf" and "0 \<le> idx" and "idx < 16"
  shows "unat (history_row H idx) = unat H + 128 * nat idx"
proof -
  obtain n where n: "idx = int n" using assms(2) nonneg_int_cases by blast
  have e: "history_row H idx = H + word_of_nat (128 * nat idx)"
    by (simp add: n history_row_def LINE_MAX_def)
  have "nat idx < 16" using assms by simp
  then have "unat H + 128 * nat idx < 2 ^ 32" using assms(1) unfolding areas_def by linarith
  then show ?thesis unfolding e by (rule unat_plus_small)
qed

lemma row_off_buf:
  assumes "areas H buf" and "0 \<le> idx" and "idx < 16" and "i < 128"
  shows "128 \<le> unat (history_row H idx + word_of_nat i - buf)"
proof (rule unat_diff_ge)
  have "nat idx < 16" using assms(2,3) by simp
  then have r: "unat (history_row H idx) + i < unat H + 2048" unfolding row_unat [OF assms(1-3)] using assms(4) by linarith
  then have "unat (history_row H idx + word_of_nat i) = unat (history_row H idx) + i"
    using assms(1) by (intro unat_plus_small) (simp add: areas_def)
  then show "unat (history_row H idx + word_of_nat i) < unat buf \<or> unat buf + 128 \<le> unat (history_row H idx + word_of_nat i)"
    using r assms(1) row_unat [OF assms(1-3)] by (auto simp: areas_def)
  show "unat buf + 128 \<le> 2 ^ 32" using assms(1) by (simp add: areas_def)
qed

lemma history_holds_outside:
  assumes "areas H buf" and "same_outside buf 128 m m'" and "history_holds H hs m count"
  shows "history_holds H hs m' count"
proof -
  have "cstr m' (history_row H ((count - 1 - int i) mod 16)) (hs ! i)" if i: "i < length hs" for i
  proof -
    have c: "cstr m (history_row H ((count - 1 - int i) mod 16)) (hs ! i)" "length (hs ! i) \<le> 127"
      using assms(3) i by (auto simp: history_holds_def)
    have "cstr m' (history_row H ((count - 1 - int i) mod 16)) (hs ! i) = cstr m (history_row H ((count - 1 - int i) mod 16)) (hs ! i)"
      by (rule cstr_cong) (use c(2) assms(2) row_off_buf [OF assms(1)] in \<open>simp add: same_outside_def\<close>)
    with c(1) show ?thesis by simp
  qed
  then show ?thesis using assms(3) by (simp add: history_holds_def)
qed

lemma row_no_overlap:
  assumes "areas H buf" and "0 \<le> idx" and "idx < 16" and "n \<le> 128" 
  shows "no_overlap buf n (history_row H idx) n"
  unfolding no_overlap_def
proof (intro allI impI notI)
  fix i j assume i: "i < n" and j: "j < n" and e: "buf + word_of_nat i = history_row H idx + word_of_nat j"
  have "128 \<le> unat (history_row H idx + word_of_nat j - buf)" by (rule row_off_buf [OF assms(1-3)]) (use j assms(4) in simp)
  also have "history_row H idx + word_of_nat j - buf = word_of_nat i" by (simp flip: e)
  finally show False using i assms(4) by (simp add: unat_of_nat)
qed

subsection \<open>One key\<close>

lemma picovga_putchar_simps [simp]:
  "tmem (picovga_putchar c s) = tmem s" "hist_count (picovga_putchar c s) = hist_count s"
  "hist_cursor (picovga_putchar c s) = hist_cursor s"
  by (simp_all add: picovga_putchar_def Let_def)

lemma print_simps [simp]:
  "tmem (fold picovga_putchar t s) = tmem s" "hist_count (fold picovga_putchar t s) = hist_count s"
  "hist_cursor (fold picovga_putchar t s) = hist_cursor s"
  by (induction t arbitrary: s) simp_all

lemma erase_line_simps [simp]:
  "tmem (erase_line n s) = tmem s" "hist_count (erase_line n s) = hist_count s" "hist_cursor (erase_line n s) = hist_cursor s"
  unfolding erase_line_def by (rule print_simps)+

lemma vputs_cstr: "cstr (tmem s) a t \<Longrightarrow> vputs a s = Some (fold picovga_putchar t s)"
proof (induction t arbitrary: a s)
  case Nil
  then show ?case by (subst vputs.simps) simp
next
  case (Cons c t)
  then show ?case using Cons.IH [of "picovga_putchar c s" "a + 1"] by (subst vputs.simps) simp
qed

lemma recall_line:
  assumes ar: "areas H buf" and h: "history_holds H hs (tmem s) (hist_count s)"
    and p: "0 \<le> hist_cursor s" "hist_cursor s < int (length hs)"
  defines "t \<equiv> hs ! nat (hist_cursor s)"
  shows "\<exists>s'. recall H buf len s = Some (int (length t), s') \<and> tmem s' = wr_bytes (tmem s) buf (t @ [0])
    \<and> hist_cursor s' = hist_cursor s \<and> hist_count s' = hist_count s"
proof -
  let ?i = "(hist_count s - 1 - hist_cursor s) mod 16" and ?e = "erase_line len s"
  have n: "nat (hist_cursor s) < length hs" "int (nat (hist_cursor s)) = hist_cursor s" using p by simp_all
  have "cstr (tmem s) (history_row H ((hist_count s - 1 - int (nat (hist_cursor s))) mod 16)) (hs ! nat (hist_cursor s))
      \<and> length (hs ! nat (hist_cursor s)) \<le> 127"
    using h n(1) unfolding history_holds_def by blast
  then have c: "cstr (tmem s) (history_row H ?i) t" "length t \<le> 127" unfolding n(2) by (simp_all add: t_def)
  have i: "(hist_count s - 1 - hist_cursor s + HIST_SIZE) mod HIST_SIZE = ?i"
    unfolding HIST_SIZE_def by (rule mod_add_self2)
  let ?s = "fold picovga_putchar t ?e" and ?m = "wr_bytes (tmem s) buf (t @ [0])"
  have r: "redraw_line len (history_row H ?i) s = Some ?s"
    using c(1) by (simp add: redraw_line_def vputs_cstr)
  have "no_overlap buf (Suc (length t)) (history_row H ?i) (Suc (length t))"
    by (rule row_no_overlap [OF ar]) (use c(2) in simp_all)
  from strcpy_loop_cstr [OF c(1) this] c(2) have cp: "strcpy (tmem ?s) buf (history_row H ?i) = Some (buf, ?m)"
    by (simp add: strcpy_def)
  have "cstr ?m buf t" by (rule cstr_wr_bytes) (use c cstr_nonzero in auto)
  then have "strlen ?m buf = Some (word_of_nat (length t))" by (rule strlen_cstr)
  moreover have "sint (word_of_nat (length t) :: u32) = int (length t)"
    using c(2) sint_small [of "word_of_nat (length t)"] by (simp add: unat_of_nat32)
  ultimately have "recall H buf len s = Some (int (length t), ?s\<lparr>tmem := ?m\<rparr>)"
    using r cp unfolding recall_def i Let_def by simp
  then show ?thesis by simp
qed

lemma write_in_line:
  assumes "i < 128"
  shows "same_outside buf 128 m (m(buf + word_of_nat i := c))"
proof -
  have "same_outside (buf + word_of_nat i) 1 m (m(buf + word_of_nat i := c))"
    by (auto simp: same_outside_def)
  then show ?thesis by (rule same_outside_mono) (use assms in simp)
qed

lemma rd_bytes_below:
  assumes "n \<le> i" and "i < 128"
  shows "rd_bytes (m(buf + word_of_nat i := c)) buf n = rd_bytes m buf n"
proof (rule nth_equalityI)
  fix j assume "j < length (rd_bytes (m(buf + word_of_nat i := c)) buf n)"
  then have j: "j < n" by simp
  have "word_of_nat j \<noteq> (word_of_nat i :: addr)" using j assms word_of_nat_eq_small [of j i] by simp
  then show "rd_bytes (m(buf + word_of_nat i := c)) buf n ! j = rd_bytes m buf n ! j" using j by simp
qed simp

lemma line_holdsI:
  assumes ar: "areas H buf" and out: "same_outside buf 128 m (tmem s)"
    and h: "history_holds H hs m (hist_count s)" and t: "length t \<le> 127" "rd_bytes (tmem s) buf (length t) = t"
      "tmem s (buf + word_of_nat (length t)) = 0"
    and p: "hist_cursor s = place" "- 1 \<le> place" "place < int (length hs)"
  shows "line_holds H buf hs (int (length t), s) (t, place)"
  using history_holds_outside [OF ar out h] t p by (simp add: line_holds_def)

lemma recalled_line:
  assumes ar: "areas H buf" and h: "history_holds H hs (tmem s) (hist_count s)" and hc: "hist_cursor s = place"
    and p: "0 \<le> place" "place < int (length hs)"
  shows "\<exists>x'. recall H buf len s = Some x' \<and> line_holds H buf hs x' (hs ! nat place, place)
    \<and> same_outside buf 128 (tmem s) (tmem (snd x')) \<and> hist_count (snd x') = hist_count s"
proof -
  let ?t = "hs ! nat place"
  obtain s' where r: "recall H buf len s = Some (int (length ?t), s')" "tmem s' = wr_bytes (tmem s) buf (?t @ [0])"
    "hist_cursor s' = place" "hist_count s' = hist_count s"
    using recall_line [OF ar h, of len] p hc by auto
  have "nat place < length hs" using p by simp
  then have l: "length ?t \<le> 127" using h unfolding history_holds_def by blast
  have out: "same_outside buf 128 (tmem s) (tmem s')" unfolding r(2) by (rule wr_bytes_same_outside) (use l in simp)
  have "length (?t @ [0]) \<le> 2 ^ 32" using l by simp
  from rd_wr_bytes [OF this, of "tmem s" buf] have b: "rd_bytes (tmem s') buf (length ?t) @ [tmem s' (buf + word_of_nat (length ?t))] = ?t @ [0]"
    unfolding r(2) by (simp add: rd_bytes_def)
  have "line_holds H buf hs (int (length ?t), s') (?t, place)"
    by (rule line_holdsI [OF ar out]) (use h l b r p in simp_all)
  then show ?thesis using r(1,4) out by auto
qed

lemma line_key_edits:
  assumes ar: "areas H buf" and x: "line_holds H buf hs (len, s) (t, place)"
  shows "\<exists>x'. line_key H buf c (len, s) = Some x' \<and> line_holds H buf hs x' (edit_key hs c (t, place))
    \<and> same_outside buf 128 (tmem s) (tmem (snd x')) \<and> hist_count (snd x') = hist_count s"
proof -
  have len: "len = int (length t)" and t: "length t \<le> 127" "rd_bytes (tmem s) buf (length t) = t"
      "tmem s (buf + word_of_nat (length t)) = 0"
    and hc: "hist_cursor s = place" and p: "- 1 \<le> place" "place < int (length hs)"
    and h: "history_holds H hs (tmem s) (hist_count s)"
    using x by (simp_all add: line_holds_def)
  have count: "hist_cursor s + 1 < hist_count s \<and> hist_cursor s + 1 < HIST_SIZE \<longleftrightarrow> place + 1 < int (length hs)"
    using h hc by (auto simp: history_holds_def HIST_SIZE_def)
  note L = line_holdsI [OF ar]
  consider (bs) "c = KEY_BS" | (up) "c = KEY_UP" | (down) "c = KEY_DOWN"
    | (other) "c \<noteq> KEY_BS" "c \<noteq> KEY_UP" "c \<noteq> KEY_DOWN" by blast
  then show ?thesis
  proof cases
    case bs
    show ?thesis
    proof (cases t rule: rev_exhaust)
      case Nil
      then show ?thesis using bs x len by (auto simp: line_key_def edit_key_def)
    next
      case (snoc u d)
      let ?m = "(tmem s)(buf + word_of_nat (length u) := 0)"
      have u: "length u < 128" "rd_bytes (tmem s) buf (length u) = u" using t snoc by (simp_all add: rd_bytes_def)
      have out: "same_outside buf 128 (tmem s) ?m" by (rule write_in_line [OF u(1)])
      have "line_holds H buf hs (int (length u), fold picovga_putchar [8, 32, 8] (s\<lparr>tmem := ?m\<rparr>)) (u, place)"
        by (rule L [of "tmem s"]) (use out h u t(1) snoc rd_bytes_below [of "length u" "length u" "tmem s" buf 0] hc p in simp_all)
      then show ?thesis using bs snoc len out by (simp add: line_key_def edit_key_def)
    qed
  next
    case up
    have "KEY_UP \<noteq> KEY_BS" by (simp add: KEY_UP_def KEY_BS_def)
    then show ?thesis
      using up x count hc recalled_line [OF ar, of hs "s\<lparr>hist_cursor := place + 1\<rparr>" "place + 1" len] h p
      by (auto simp: line_key_def edit_key_def)
  next
    case down
    have k: "KEY_DOWN \<noteq> KEY_BS" "KEY_DOWN \<noteq> KEY_UP" by (simp_all add: KEY_UP_def KEY_BS_def KEY_DOWN_def)
    consider "0 < place" | "place = 0" | "place = - 1" using p(1) by linarith
    then show ?thesis
    proof cases
      case 1
      then show ?thesis
        using down k hc recalled_line [OF ar, of hs "s\<lparr>hist_cursor := place - 1\<rparr>" "place - 1" len] h p
        by (auto simp: line_key_def edit_key_def)
    next
      case 2
      let ?s = "(erase_line len (s\<lparr>hist_cursor := - 1\<rparr>))\<lparr>tmem := (tmem s)(buf := 0)\<rparr>"
      have out: "same_outside buf 128 (tmem s) ((tmem s)(buf := 0))" using write_in_line [of 0 buf "tmem s" 0] by simp
      have "line_holds H buf hs (int (length ([] :: u8 list)), ?s) ([], - 1)"
        by (rule L [of "tmem s"]) (use out h in simp_all)
      then show ?thesis using down k 2 hc out by (simp add: line_key_def edit_key_def)
    next
      case 3
      then show ?thesis using down k x hc by (simp add: line_key_def edit_key_def)
    qed
  next
    case other
    show ?thesis
    proof (cases "length t < 127")
      case True
      let ?m = "(tmem s)(buf + word_of_nat (length t) := c, buf + word_of_nat (Suc (length t)) := 0)"
      have ne: "(word_of_nat (length t) :: addr) \<noteq> word_of_nat (Suc (length t))"
        using True word_of_nat_eq_small [of "length t" "Suc (length t)"] by simp
      have out: "same_outside buf 128 (tmem s) ?m"
        using True by (intro same_outside_trans [OF write_in_line write_in_line]) simp_all
      have rd: "rd_bytes ?m buf (length t) = t"
        using True t(2) rd_bytes_below [of "length t" "Suc (length t)"] rd_bytes_below [of "length t" "length t"] by simp
      have "rd_bytes ?m buf (length (t @ [c])) = t @ [c]"
        using rd ne by (simp add: rd_bytes_def)
      then have "line_holds H buf hs (int (length (t @ [c])), picovga_putchar c (s\<lparr>tmem := ?m\<rparr>)) (t @ [c], place)"
        by (intro L [of "tmem s"]) (use out h True hc p in \<open>simp_all del: of_nat_Suc\<close>)
      then show ?thesis using other True len out
        by (simp add: line_key_def edit_key_def LINE_MAX_def add.commute)
    next
      case False
      then show ?thesis using other x len by (simp add: line_key_def edit_key_def LINE_MAX_def)
    qed
  qed
qed

subsection \<open>A line\<close>

lemma readline_loop_edits:
  assumes ar: "areas H buf"
  shows "line_holds H buf hs x e \<Longrightarrow> KEY_ENTER \<notin> set keys \<Longrightarrow>
    \<exists>s'. readline_loop H buf (keys @ KEY_ENTER # rest) x = Some (Entered s' rest)
      \<and> rd_bytes (tmem s') buf (length (fst (fold (edit_key hs) keys e))) = fst (fold (edit_key hs) keys e)
      \<and> tmem s' (buf + word_of_nat (length (fst (fold (edit_key hs) keys e)))) = 0
      \<and> length (fst (fold (edit_key hs) keys e)) \<le> 127
      \<and> history_holds H hs (tmem s') (hist_count s') \<and> hist_count s' = hist_count (snd x)
      \<and> same_outside buf 128 (tmem (snd x)) (tmem s')"
proof (induction keys arbitrary: x e)
  case Nil
  obtain len s t place where xe: "x = (len, s)" "e = (t, place)" by (metis surj_pair)
  have "length t < 128" using Nil xe by (simp add: line_holds_def)
  from write_in_line [OF this, of buf "tmem s" 0] rd_bytes_below [of "length t" "length t" "tmem s" buf 0] this
  show ?case using Nil xe history_holds_outside [OF ar]
    by (simp add: line_holds_def Let_def)
next
  case (Cons c keys)
  obtain len s t place where xe: "x = (len, s)" "e = (t, place)" by (metis surj_pair)
  obtain x' where k: "line_key H buf c x = Some x'" "line_holds H buf hs x' (edit_key hs c e)"
    "same_outside buf 128 (tmem (snd x)) (tmem (snd x'))" "hist_count (snd x') = hist_count (snd x)"
    using line_key_edits [OF ar, of hs len s t place c] Cons.prems(1) xe by auto
  have "c \<noteq> KEY_ENTER" using Cons.prems(2) by auto
  then have "readline_loop H buf ((c # keys) @ KEY_ENTER # rest) x = readline_loop H buf (keys @ KEY_ENTER # rest) x'"
    using k(1) xe by simp
  then show ?case using Cons.IH [OF k(2)] Cons.prems(2) k(3,4) same_outside_trans by auto
qed

lemma history_fits:
  assumes "areas H buf" and "history_holds H hs (tmem s) (hist_count s)"
  shows "line_holds H buf hs (0, s\<lparr>tmem := (tmem s)(buf := 0), hist_cursor := - 1\<rparr>) ([], - 1)"
  using history_holds_outside [OF assms(1) _ assms(2), of "(tmem s)(buf := 0)"] write_in_line [of 0 buf "tmem s" 0]
  by (simp add: line_holds_def)

subsection \<open>The history\<close>

lemma rows_apart:
  assumes ar: "areas H buf" and "0 \<le> i" "i < 16" "0 \<le> j" "j < 16" "i \<noteq> j" and "k < 128"
  shows "128 \<le> unat (history_row H j + word_of_nat k - history_row H i)"
proof (rule unat_diff_ge)
  have n: "nat i < 16" "nat j < 16" "nat i \<noteq> nat j" using assms by auto
  have ri: "unat (history_row H i) = unat H + 128 * nat i" and rj: "unat (history_row H j) = unat H + 128 * nat j"
    using row_unat [OF ar] assms by auto
  have "unat (history_row H j) + k < 2 ^ 32" using ar n(2) assms(7) unfolding rj areas_def by linarith
  then have "unat (history_row H j + word_of_nat k) = unat (history_row H j) + k" by (rule unat_plus_small)
  then show "unat (history_row H j + word_of_nat k) < unat (history_row H i) \<or> unat (history_row H i) + 128 \<le> unat (history_row H j + word_of_nat k)"
    using n assms(7) unfolding ri rj by linarith
  show "unat (history_row H i) + 128 \<le> 2 ^ 32" using ar n(1) unfolding ri areas_def by linarith
qed

lemma strncpy_loop_bytes:
  "no_overlap d n src n \<Longrightarrow> n \<le> 2 ^ 31 \<Longrightarrow> strncpy_loop m d src n = wr_bytes m d (rd_bytes m src n)"
proof (induction n arbitrary: m d src)
  case (Suc n)
  have "no_overlap (d + 1) n (src + 1) n"
    by (rule no_overlap_Suc(1)) (use Suc.prems(1) in simp)
  moreover have "rd_bytes (m(d := m src)) (src + 1) n = rd_bytes m (src + 1) n"
  proof (rule rd_bytes_upd_notin)
    fix i assume "i < n"
    then show "src + 1 + word_of_nat i \<noteq> d"
      using Suc.prems(1) [unfolded no_overlap_def, rule_format, of 0 "Suc i"] by (auto simp: add.assoc)
  qed
  ultimately have "strncpy_loop m d src (Suc n) = wr_bytes (m(d := m src)) (d + 1) (rd_bytes m (src + 1) n)"
    using Suc by simp
  also have "\<dots> = wr_bytes m d (m src # rd_bytes m (src + 1) n)" by (rule wr_bytes_Cons) (use Suc.prems(2) in simp)
  finally show ?case by (simp add: rd_bytes_Suc)
qed simp

lemma cstr_takeWhile:
  "rd_bytes m a (length t) = t \<Longrightarrow> m (a + word_of_nat (length t)) = 0 \<Longrightarrow> cstr m a (takeWhile (\<lambda>c. c \<noteq> 0) t)"
  by (induction t arbitrary: a) (auto simp: rd_bytes_Suc add.assoc)

lemma cstr_move:
  "(\<And>i. i \<le> length s \<Longrightarrow> m' (b + word_of_nat i) = m (a + word_of_nat i)) \<Longrightarrow> cstr m a s \<Longrightarrow> cstr m' b s"
proof (induction s arbitrary: a b)
  case Nil
  then show ?case using Nil.prems(1) [of 0] by simp
next
  case (Cons c s)
  have "cstr m' (b + 1) s"
  proof (rule Cons.IH)
    show "m' (b + 1 + word_of_nat i) = m (a + 1 + word_of_nat i)" if "i \<le> length s" for i
      using Cons.prems(1) [of "Suc i"] that by (simp add: add.assoc)
  qed (use Cons.prems(2) in simp)
  then show ?case using Cons.prems(1) [of 0] Cons.prems(2) by simp
qed

lemma cstr_zero: "cstr m a s \<Longrightarrow> m (a + word_of_nat (length s)) = 0"
  by (induction s arbitrary: a) (auto simp flip: add.assoc)

lemma row_index: "0 < i \<Longrightarrow> i < 16 \<Longrightarrow> (c - i) mod 16 \<noteq> c mod (16 :: int)"
  using zdvd_imp_le [of 16 i] by (auto simp: mod_eq_dvd_iff)

text \<open>What \<open>history_add\<close> leaves in the row it fills, and in the others.\<close>

lemma row_filled:
  assumes ar: "areas H buf" and idx: "0 \<le> idx" "idx < 16" and c: "cstr m buf u" "length u \<le> 127"
  defines "row \<equiv> history_row H idx"
  defines "m' \<equiv> (strncpy_loop m row buf 127)(row + word_of_nat 127 := 0)"
  shows "cstr m' row u" and "same_outside row 128 m m'"
proof -
  have "no_overlap buf 127 row 127" unfolding row_def by (rule row_no_overlap [OF ar idx]) simp
  then have "no_overlap row 127 buf 127" unfolding no_overlap_def by metis
  then have l: "strncpy_loop m row buf 127 = wr_bytes m row (rd_bytes m buf 127)"
    by (rule strncpy_loop_bytes) simp
  show "cstr m' row u"
  proof (rule cstr_move [OF _ c(1)])
    fix i assume i: "i \<le> length u"
    show "m' (row + word_of_nat i) = m (buf + word_of_nat i)"
    proof (cases "i = 127")
      case True
      then show ?thesis using cstr_zero [OF c(1)] i c(2) by (simp add: m'_def)
    next
      case False
      then have i: "i < 127" using i c(2) by simp
      have "(word_of_nat i :: addr) \<noteq> word_of_nat 127" using i word_of_nat_eq_small [of i 127] by simp
      then have "m' (row + word_of_nat i) = rd_bytes (wr_bytes m row (rd_bytes m buf 127)) row 127 ! i"
        using i by (simp add: m'_def l)
      also have "\<dots> = m (buf + word_of_nat i)" using rd_wr_bytes [of "rd_bytes m buf 127" m row] i by simp
      finally show ?thesis .
    qed
  qed
  have "same_outside row 128 m (strncpy_loop m row buf 127)" unfolding l by (rule wr_bytes_same_outside) simp
  then show "same_outside row 128 m m'" unfolding m'_def by (rule same_outside_trans) (rule write_in_line, simp)
qed

lemma history_add_remembers:
  assumes ar: "areas H buf" and h: "history_holds H hs (tmem s) (hist_count s)"
    and t: "length t \<le> 127" "rd_bytes (tmem s) buf (length t) = t" "tmem s (buf + word_of_nat (length t)) = 0"
  shows "history_holds H (remember t hs) (tmem (history_add H buf s)) (hist_count (history_add H buf s))"
proof -
  let ?u = "takeWhile (\<lambda>c. c \<noteq> 0) t" and ?n = "hist_count s" and ?s = "history_add H buf s"
  have c: "cstr (tmem s) buf ?u" by (rule cstr_takeWhile [OF t(2,3)])
  have l: "length ?u \<le> 127" using length_takeWhile_le [of _ t] t(1) by (rule le_trans)
  have n: "0 \<le> ?n" "length hs = min (nat ?n) 16" using h by (simp_all add: history_holds_def)
  show ?thesis
  proof (cases "?u = []")
    case True
    then show ?thesis using h cstr_head [OF c] by (simp add: history_add_def remember_def)
  next
    case False
    let ?row = "history_row H (?n mod 16)"
    have add: "tmem ?s = (strncpy_loop (tmem s) ?row buf 127)(?row + word_of_nat 127 := 0)" "hist_count ?s = ?n + 1"
      using False cstr_head [OF c] by (simp_all add: history_add_def Let_def strncpy_def HIST_SIZE_def LINE_MAX_def)
    have f: "cstr (tmem ?s) ?row ?u" "same_outside ?row 128 (tmem s) (tmem ?s)"
      unfolding add(1) by (rule row_filled [OF ar _ _ c l]; simp)+
    have "cstr (tmem ?s) (history_row H ((?n + 1 - 1 - int i) mod 16)) ((?u # hs) ! i) \<and> length ((?u # hs) ! i) \<le> 127"
      if i: "i < length (take 16 (?u # hs))" for i
    proof (cases i)
      case 0
      then show ?thesis using f(1) l by simp
    next
      case (Suc j)
      let ?r = "(?n - 1 - int j) mod 16"
      have e: "(?n + 1 - 1 - int i) mod 16 = ?r" using Suc by (simp add: algebra_simps)
      have j: "j < length hs" "j < 15" using i Suc by auto
      have o: "cstr (tmem s) (history_row H ?r) (hs ! j)" "length (hs ! j) \<le> 127"
        using h j(1) unfolding history_holds_def by blast+
      have "?r = (?n - int (Suc j)) mod 16" by (simp add: algebra_simps)
      then have ne: "?n mod 16 \<noteq> ?r" using row_index [of "int (Suc j)" ?n] j(2) by simp
      have "cstr (tmem ?s) (history_row H ?r) (hs ! j) = cstr (tmem s) (history_row H ?r) (hs ! j)"
      proof (rule cstr_cong)
        fix k assume "k \<le> length (hs ! j)"
        then have "128 \<le> unat (history_row H ?r + word_of_nat k - ?row)"
          by (intro rows_apart [OF ar]) (use ne o(2) in simp_all)
        then show "tmem ?s (history_row H ?r + word_of_nat k) = tmem s (history_row H ?r + word_of_nat k)"
          using f(2) by (simp add: same_outside_def)
      qed
      then show ?thesis using o e Suc by simp
    qed
    moreover have rem: "remember t hs = take 16 (?u # hs)" using False by (simp add: remember_def)
    ultimately have "\<forall>i < length (remember t hs).
        cstr (tmem ?s) (history_row H ((hist_count ?s - 1 - int i) mod 16)) (remember t hs ! i) \<and> length (remember t hs ! i) \<le> 127"
      unfolding add(2) rem by (metis length_take min_less_iff_conj nth_take)
    moreover have "length (remember t hs) = min (nat (hist_count ?s)) 16"
      using False n unfolding add(2) by (simp add: remember_def)
    ultimately show ?thesis using n(1) add(2) by (simp add: history_holds_def)
  qed
qed

text \<open>\<open>history_add\<close> writes inside the history only, so it leaves the line alone.\<close>

lemma history_add_outside:
  assumes ar: "areas H buf" and c: "cstr (tmem s) buf u" "length u \<le> 127"
  shows "same_outside H 2048 (tmem s) (tmem (history_add H buf s))"
proof (cases "tmem s buf = 0")
  case True
  then show ?thesis by (simp add: history_add_def)
next
  case False
  define idx where "idx = hist_count s mod 16"
  have i: "0 \<le> idx" "idx < 16" by (simp_all add: idx_def)
  have "tmem (history_add H buf s) = (strncpy_loop (tmem s) (history_row H idx) buf 127)(history_row H idx + word_of_nat 127 := 0)"
    using False by (simp add: history_add_def Let_def strncpy_def HIST_SIZE_def LINE_MAX_def idx_def)
  then have "same_outside (history_row H idx) 128 (tmem s) (tmem (history_add H buf s))"
    using row_filled(2) [OF ar i c] by simp
  moreover have "history_row H idx = H + word_of_nat (128 * nat idx)"
    using i(1) by (cases idx) (simp_all add: history_row_def LINE_MAX_def)
  moreover have "128 * nat idx + 128 \<le> 2048" using i(2) by simp
  ultimately show ?thesis using same_outside_mono [of H "128 * nat idx" 128] by metis
qed

lemma buf_off_history:
  assumes ar: "areas H buf" and "i < 128"
  shows "2048 \<le> unat (buf + word_of_nat i - H)"
proof (rule unat_diff_ge)
  have "unat (buf + word_of_nat i) = unat buf + i" using assms by (intro unat_plus_small) (simp add: areas_def)
  then show "unat (buf + word_of_nat i) < unat H \<or> unat H + 2048 \<le> unat (buf + word_of_nat i)"
    using assms by (auto simp: areas_def)
  show "unat H + 2048 \<le> 2 ^ 32" using ar by (simp add: areas_def)
qed

lemma readline_turn:
  assumes ar: "areas H buf" and h: "history_holds H hs (tmem s) (hist_count s)" and enter: "KEY_ENTER \<notin> set keys"
  defines "t \<equiv> fst (fold (edit_key hs) keys ([], - 1))"
  shows "\<exists>s'. readline_with_history H buf (keys @ KEY_ENTER # rest) s = Some (Entered s' rest)
    \<and> length t \<le> 127 \<and> rd_bytes (tmem s') buf (length t) = t \<and> tmem s' (buf + word_of_nat (length t)) = 0
    \<and> same_outside buf 128 (tmem s) (tmem s')
    \<and> history_holds H (remember t hs) (tmem (history_add H buf s')) (hist_count (history_add H buf s'))"
proof -
  let ?s = "s\<lparr>tmem := (tmem s)(buf := 0), hist_cursor := - 1\<rparr>"
  obtain s' where r: "readline_loop H buf (keys @ KEY_ENTER # rest) (0, ?s) = Some (Entered s' rest)"
      "rd_bytes (tmem s') buf (length t) = t" "tmem s' (buf + word_of_nat (length t)) = 0" "length t \<le> 127"
      "history_holds H hs (tmem s') (hist_count s')" "same_outside buf 128 (tmem ?s) (tmem s')"
    using readline_loop_edits [OF ar history_fits [OF ar h] enter, of rest] unfolding t_def by auto
  have "same_outside buf 128 (tmem s) (tmem ?s)" using write_in_line [of 0 buf "tmem s" 0] by simp
  then have "same_outside buf 128 (tmem s) (tmem s')" using r(6) by (rule same_outside_trans)
  with r history_add_remembers [OF ar r(5,4,2,3)] show ?thesis unfolding readline_with_history_def by blast
qed

subsection \<open>The properties\<close>

text \<open>
  Claim C24. Up to the Enter key \<open>readline_with_history\<close> is the editor on lists: it ends with the edited
  text in the buffer, of at most 127 characters and with its terminator, has written nothing outside the
  128 bytes of the buffer, and leaves the keys after Enter unread. \<open>history_add\<close> then puts the text in front
  of the history and drops the seventeenth line, and an empty line is not kept: the next call again finds
  the lines, the latest first.
\<close>

theorem line_editor_and_history:
  assumes ar: "areas H buf" and h: "history_holds H hs (tmem s) (hist_count s)" and enter: "KEY_ENTER \<notin> set keys"
  defines "t \<equiv> fst (fold (edit_key hs) keys ([], - 1))"
  shows "\<exists>s'. readline_with_history H buf (keys @ KEY_ENTER # rest) s = Some (Entered s' rest)
    \<and> length t \<le> 127 \<and> rd_bytes (tmem s') buf (length t) = t \<and> tmem s' (buf + word_of_nat (length t)) = 0
    \<and> same_outside buf 128 (tmem s) (tmem s')
    \<and> history_holds H (remember t hs) (tmem (history_add H buf s')) (hist_count (history_add H buf s'))"
  using readline_turn [OF ar h enter, of rest] unfolding t_def .

definition demo_console :: console where
  "demo_console = \<lparr>tmem = wr_bytes (\<lambda>_. 0) 0x1000 [0x6C, 0x73], hist_count = 1, hist_cursor = - 1, screen = [], serial = []\<rparr>"

text \<open>With \<open>ls\<close> in the history: \<open>a\<close>, up, backspace, \<open>x\<close>, Enter makes \<open>lx\<close>.\<close>

theorem line_editor_and_history_witness:
  "\<exists>s'. readline_with_history 0x1000 0x2000 ([0x61, KEY_UP, KEY_BS, 0x78] @ KEY_ENTER # [0x79]) demo_console = Some (Entered s' [0x79])
     \<and> rd_bytes (tmem s') 0x2000 2 = [0x6C, 0x78]
     \<and> history_holds 0x1000 [[0x6C, 0x78], [0x6C, 0x73]] (tmem (history_add 0x1000 0x2000 s')) (hist_count (history_add 0x1000 0x2000 s'))"
proof -
  have ar: "areas 0x1000 0x2000" by (simp add: areas_def)
  have h: "history_holds 0x1000 [[0x6C, 0x73]] (tmem demo_console) (hist_count demo_console)"
    by (simp add: history_holds_def demo_console_def wr_bytes_def history_row_def)
  have e: "KEY_ENTER \<notin> set [0x61, KEY_UP, KEY_BS, 0x78]" by (simp add: KEY_ENTER_def KEY_UP_def KEY_BS_def)
  have t: "fst (fold (edit_key [[0x6C, 0x73]]) [0x61, KEY_UP, KEY_BS, 0x78] ([], - 1)) = [0x6C, 0x78]"
    by (simp add: edit_key_def KEY_UP_def KEY_BS_def KEY_DOWN_def)
  have r: "remember [0x6C, 0x78] [[0x6C, 0x73]] = [[0x6C, 0x78], [0x6C, 0x73]]" by (simp add: remember_def)
  have l: "length [0x6C, 0x78 :: u8] = 2" by simp
  from line_editor_and_history [OF ar h e, of "[0x79]", unfolded t r l] show ?thesis by blast
qed

end
