(* ===== verification/ShellCmd.thy ===== *)
theory ShellCmd
  imports KNumIn ShellLine
begin

text \<open>
  The command interpreter of the ROM shell, \<open>orioncore/shell/shell.c\<close>. \<open>execute_cmd\<close> cuts the line in place into words and passes them to \<open>process_command\<close>,
  which looks the first one up in the table of built-in commands. What \<open>process_command\<close> then calls is
  the value \<open>action\<close>; of the functions of the table \<open>ShellMem\<close> models the two that write memory, and \<open>ShellElf\<close>
  the start of a program. The addresses of the
  string literals of the table are the parameter \<open>lit\<close>.
\<close>

subsection \<open>Words of a line\<close>

definition MAXARGS :: nat where "MAXARGS = 40"

partial_function (option) skip_spaces_at :: "mem \<Rightarrow> addr \<Rightarrow> addr option" where
  "skip_spaces_at m ptr = (if isspace (m ptr) \<noteq> 0 then skip_spaces_at m (ptr + 1) else Some ptr)"

partial_function (option) word_end :: "mem \<Rightarrow> addr \<Rightarrow> addr option" where
  "word_end m ptr = (if m ptr \<noteq> 0 \<and> isspace (m ptr) = 0 then word_end m (ptr + 1) else Some ptr)"

partial_function (option) clear_spaces :: "mem \<Rightarrow> addr \<Rightarrow> (mem \<times> addr) option" where
  "clear_spaces m ptr = (if isspace (m ptr) \<noteq> 0 then clear_spaces (m(ptr := 0)) (ptr + 1) else Some (m, ptr))"

text \<open>The \<open>while (1)\<close> of \<open>execute_cmd\<close>; \<open>args\<close> are the entries filled so far, \<open>numargs\<close> their number.\<close>

partial_function (option) split_args :: "mem \<Rightarrow> addr \<Rightarrow> addr list \<Rightarrow> (addr list \<times> mem) option" where
  "split_args m ptr args =
     (let m = (if length args = MAXARGS then m(ptr := 0) else m)
      in if m ptr = 0 then Some (args, m)
         else case skip_spaces_at m ptr of
                None \<Rightarrow> None
              | Some ptr \<Rightarrow>
                  if isspace (m ptr) = 0
                  then (case word_end m ptr of
                          None \<Rightarrow> None
                        | Some e \<Rightarrow>
                            if m e = 0 then split_args m e (args @ [ptr])
                            else (case clear_spaces m e of
                                    None \<Rightarrow> None
                                  | Some (m, e) \<Rightarrow> split_args m e (args @ [ptr])))
                  else split_args m ptr args)"

subsection \<open>The table of commands\<close>

datatype command = do_cat | do_cd | do_copyfile | do_dump | do_exit | do_help | do_loadmem | do_ls
  | do_mkdir_shel | do_rename_shel | do_delete | do_rmdir | do_run | do_save | do_shst | do_time
  | do_uptime | do_writemem_cmd | do_writemem1 | do_int2ON | do_ascii | do_receiver

record cmd_entry =
  cmd_name :: string
  min_args :: int
  max_args :: int
  cmd_function :: command

abbreviation cmd :: "string \<Rightarrow> int \<Rightarrow> int \<Rightarrow> command \<Rightarrow> cmd_entry" where
  "cmd n lo hi f \<equiv> \<lparr>cmd_name = n, min_args = lo, max_args = hi, cmd_function = f\<rparr>"

definition g_cmd_table :: "cmd_entry list" where
  "g_cmd_table =
     [cmd ''cat'' 1 1 do_cat, cmd ''cd'' 1 1 do_cd, cmd ''cp'' 2 2 do_copyfile, cmd ''dump'' 2 2 do_dump,
      cmd ''exit'' 0 0 do_exit, cmd ''help'' 0 0 do_help, cmd ''loadmem'' 1 2 do_loadmem, cmd ''ls'' 0 1 do_ls,
      cmd ''mkdir'' 1 1 do_mkdir_shel, cmd ''mv'' 2 2 do_rename_shel, cmd ''rm'' 1 1 do_delete,
      cmd ''rmdir'' 1 1 do_rmdir, cmd ''run'' 1 1 do_run, cmd ''save'' 3 3 do_save, cmd ''shst'' 0 0 do_shst,
      cmd ''time'' 0 6 do_time, cmd ''uptime'' 0 0 do_uptime, cmd ''writemem'' 2 0 do_writemem_cmd,
      cmd ''writemem1'' 2 0 do_writemem1, cmd ''int2on'' 0 0 do_int2ON, cmd ''ascii'' 0 0 do_ascii,
      cmd ''receiver'' 0 0 do_receiver]"

text \<open>
  What a line leads to: the end of the shell, nothing, \<open>f_chdrive\<close>, a function of the table on the
  arguments behind the command, the message about the number of arguments, or
  \<open>process_command_executable\<close>.
\<close>

datatype action = Leave | Nothing | Drive addr | Run command "addr list" | Requires addr int int | Executable "addr list"

primrec find_builtin :: "(string \<Rightarrow> addr) \<Rightarrow> mem \<Rightarrow> cmd_entry list \<Rightarrow> addr \<Rightarrow> cmd_entry option option" where
  "find_builtin lit m [] w = Some None"
| "find_builtin lit m (c # cs) w =
     (case strcasecmp m w (lit (cmd_name c)) of
        None \<Rightarrow> None
      | Some r \<Rightarrow> if r = 0 then Some (Some c) else find_builtin lit m cs w)"

text \<open>\<open>Some None\<close> is the result 0, not a built-in command.\<close>

definition process_command_builtin :: "(string \<Rightarrow> addr) \<Rightarrow> mem \<Rightarrow> addr \<Rightarrow> addr list \<Rightarrow> action option option" where
  "process_command_builtin lit m w args =
     (if args = [] \<and> m (w + 1) = 0x3A then Some (Some (Drive w))
      else (case find_builtin lit m g_cmd_table w of
              None \<Rightarrow> None
            | Some None \<Rightarrow> Some None
            | Some (Some c) \<Rightarrow>
                if min_args c \<le> int (length args) \<and> (max_args c = 0 \<or> int (length args) \<le> max_args c)
                then Some (Some (Run (cmd_function c) args))
                else Some (Some (Requires w (min_args c) (max_args c)))))"

definition process_command :: "(string \<Rightarrow> addr) \<Rightarrow> mem \<Rightarrow> addr list \<Rightarrow> action option" where
  "process_command lit m argv =
     (case argv of
        [] \<Rightarrow> Some Nothing
      | w # args \<Rightarrow>
          (case process_command_builtin lit m w args of
             None \<Rightarrow> None
           | Some (Some act) \<Rightarrow> Some act
           | Some None \<Rightarrow> Some (Executable argv)))"

definition execute_cmd :: "(string \<Rightarrow> addr) \<Rightarrow> mem \<Rightarrow> addr \<Rightarrow> (action \<times> mem) option" where
  "execute_cmd lit m line =
     (if m line = 0x1B then Some (Leave, m)
      else case split_args m line [] of
             None \<Rightarrow> None
           | Some (args, m) \<Rightarrow> map_option (\<lambda>act. (act, m)) (process_command lit m args))"

subsection \<open>Cutting a line\<close>

text \<open>The words of a text, and what \<open>execute_cmd\<close> makes of it with room for \<open>k\<close> more arguments: a text of
  spaces only is one empty word.\<close>

function words :: "u8 list \<Rightarrow> u8 list list" where
  "words [] = []"
| "words (c # s) =
     (if c = 0x20 then words s
      else takeWhile (\<lambda>c. c \<noteq> 0x20) (c # s) # words (dropWhile (\<lambda>c. c \<noteq> 0x20) s))"
  by pat_completeness auto
termination
  by (relation "measure length") (auto intro: le_imp_less_Suc length_dropWhile_le)

definition arguments :: "nat \<Rightarrow> u8 list \<Rightarrow> u8 list list" where
  "arguments k s = take k (if s \<noteq> [] \<and> words s = [] then [[]] else words s)"

abbreviation spaces :: "u8 list \<Rightarrow> u8 list" where "spaces s \<equiv> takeWhile (\<lambda>c. c = 0x20) s"
abbreviation unspaced :: "u8 list \<Rightarrow> u8 list" where "unspaced s \<equiv> dropWhile (\<lambda>c. c = 0x20) s"
abbreviation first_word :: "u8 list \<Rightarrow> u8 list" where "first_word s \<equiv> takeWhile (\<lambda>c. c \<noteq> 0x20) s"
abbreviation after_word :: "u8 list \<Rightarrow> u8 list" where "after_word s \<equiv> dropWhile (\<lambda>c. c \<noteq> 0x20) s"

lemma isspace_eq [simp]: "isspace c = 0 \<longleftrightarrow> c \<noteq> 0x20"
  using sint8_eq [of c "0x20"] by (simp add: isspace_def)

lemma words_unspaced: "words (unspaced s) = words s"
  by (induction s) auto

lemma words_step: "words s = (if unspaced s = [] then [] else first_word (unspaced s) # words (after_word (unspaced s)))"
  by (induction s) auto

lemma unspaced_hd: "unspaced s = c # t \<Longrightarrow> c \<noteq> 0x20"
  by (induction s) (auto split: if_splits)

lemma spaces_after_word: "after_word s \<noteq> [] \<Longrightarrow> 0 < length (spaces (after_word s))"
  by (induction s) auto

lemma cstr_split: "cstr m p (s @ t) \<Longrightarrow> cstr m (p + word_of_nat (length s)) t"
  by (simp add: cstr_append)

lemma skip_spaces_at_cstr: "cstr m p s \<Longrightarrow> skip_spaces_at m p = Some (p + word_of_nat (length (spaces s)))"
proof (induction s arbitrary: p)
  case Nil
  then show ?case by (subst skip_spaces_at.simps) simp
next
  case (Cons c s)
  then show ?case by (subst skip_spaces_at.simps) (simp flip: add.assoc)
qed

lemma word_end_cstr: "cstr m p s \<Longrightarrow> word_end m p = Some (p + word_of_nat (length (first_word s)))"
proof (induction s arbitrary: p)
  case Nil
  then show ?case by (subst word_end.simps) simp
next
  case (Cons c s)
  then show ?case by (subst word_end.simps) (simp flip: add.assoc)
qed

lemma cstr_behind:
  assumes "cstr m p s" and "length s + k < 2 ^ 32"
    and "same_outside (p - word_of_nat k) k m m'"
  shows "cstr m' p s"
proof -
  have "k \<le> unat (p + word_of_nat i - (p - word_of_nat k))" if "i \<le> length s" for i
  proof -
    have "p + word_of_nat i - (p - word_of_nat k) = word_of_nat (i + k)" by simp
    moreover have "unat (word_of_nat (i + k) :: addr) = i + k" using that assms(2) by (intro unat_of_nat32) linarith
    ultimately show ?thesis by simp
  qed
  then have "cstr m' p s = cstr m p s"
    using assms(3) by (intro cstr_cong) (simp add: same_outside_def)
  with assms(1) show ?thesis by simp
qed

lemma clear_spaces_cstr:
  "cstr m p s \<Longrightarrow> length s < 2 ^ 31 \<Longrightarrow>
    clear_spaces m p = Some (wr_bytes m p (replicate (length (spaces s)) 0), p + word_of_nat (length (spaces s)))"
proof (induction s arbitrary: m p)
  case Nil
  then show ?case by (subst clear_spaces.simps) simp
next
  case (Cons c s)
  show ?case
  proof (cases "c = 0x20")
    case True
    have "same_outside (p + 1 - word_of_nat 1) 1 m (m(p := 0))" by (auto simp: same_outside_def)
    then have "cstr (m(p := 0)) (p + 1) s"
      using Cons.prems cstr_behind [of m "p + 1" s 1 "m(p := 0)"] by simp
    from Cons.IH [OF this] Cons.prems(1,2) True
    have "clear_spaces m p = Some (wr_bytes (m(p := 0)) (p + 1) (replicate (length (spaces s)) 0), p + 1 + word_of_nat (length (spaces s)))"
      by (subst clear_spaces.simps) (simp del: fun_upd_apply)
    moreover have "wr_bytes (m(p := 0)) (p + 1) (replicate (length (spaces s)) 0) = wr_bytes m p (0 # replicate (length (spaces s)) 0)"
      by (rule wr_bytes_Cons) (use Cons.prems length_takeWhile_le [of "\<lambda>c. c = 0x20" s] in \<open>simp; linarith\<close>)
    ultimately show ?thesis using True by (simp add: add.assoc)
  next
    case False
    then show ?thesis using Cons.prems by (subst clear_spaces.simps) simp
  qed
qed

text \<open>Bytes before a region are outside it.\<close>

lemma before_region:
  fixes e :: addr
  assumes "0 < d" and "d \<le> 2 ^ 31" and "n \<le> 2 ^ 31"
  shows "n \<le> unat (e - word_of_nat d - e)"
proof -
  have d: "unat (word_of_nat d :: addr) = d" using assms(2) by (intro unat_of_nat32) simp
  then have "unat (0 - word_of_nat d :: addr) = 2 ^ 32 - d" using assms(1,2) by (subst unat_sub_if') simp
  then show ?thesis using assms by simp
qed

lemma before_address:
  fixes q :: addr
  assumes "i < k" and "k \<le> 2 ^ 31" and "n \<le> 2 ^ 31"
  shows "n \<le> unat (q + word_of_nat i - (q + word_of_nat k))"
proof -
  have "n \<le> unat (q + word_of_nat k - word_of_nat (k - i) - (q + word_of_nat k))"
    by (rule before_region) (use assms in linarith)+
  moreover have "q + word_of_nat k - word_of_nat (k - i) = q + word_of_nat i"
    using assms(1) by (simp add: of_nat_diff)
  ultimately show ?thesis by simp
qed

lemma cstr_before:
  assumes "cstr m q w" and "same_outside (q + word_of_nat k) n m m'" and "length w < k" and "k \<le> 2 ^ 31" and "n \<le> 2 ^ 31"
  shows "cstr m' q w"
proof -
  have "m' (q + word_of_nat i) = m (q + word_of_nat i)" if "i \<le> length w" for i
    using assms(2) before_address [of i k n q] that assms(3-5) by (simp add: same_outside_def)
  then have "cstr m' q w = cstr m q w" by (rule cstr_cong)
  with assms(1) show ?thesis by simp
qed

lemma arguments_unspaced: "arguments k (unspaced s) = take k (words s)"
proof (cases "unspaced s = []")
  case True
  then have "words s = []" using words_step [of s] by simp
  then show ?thesis unfolding arguments_def words_unspaced True by simp
next
  case False
  then have "words s \<noteq> []" using words_step [of s] by simp
  then show ?thesis unfolding arguments_def words_unspaced by simp
qed

lemma arguments_step:
  assumes s: "s \<noteq> []" and k: "0 < k"
  shows "arguments k s = first_word (unspaced s) # arguments (k - 1) (unspaced (after_word (unspaced s)))"
proof (cases "unspaced s = []")
  case True
  then show ?thesis using s k words_step [of s] unfolding arguments_unspaced True by (cases k) (simp_all add: arguments_def)
next
  case False
  then have w: "words s = first_word (unspaced s) # words (after_word (unspaced s))" using words_step [of s] by simp
  obtain j where j: "k = Suc j" using k gr0_implies_Suc by blast
  have "arguments k s = take k (words s)" unfolding arguments_def w by simp
  then show ?thesis unfolding arguments_unspaced w j by simp
qed

lemma cut_word:
  assumes c: "cstr m q (w @ r)" and o: "same_outside (q + word_of_nat (length w)) n m m'"
    and z: "m' (q + word_of_nat (length w)) = 0" and "length w \<le> 2 ^ 31" and "n \<le> 2 ^ 31"
  shows "cstr m' q w"
proof -
  have "m' (q + word_of_nat i) = m (q + word_of_nat i)" if "i < length w" for i
    using o before_address [OF that assms(4,5)] by (simp add: same_outside_def)
  then have "rd_bytes m' q (length w) = rd_bytes m q (length w)" by (intro nth_equalityI) simp_all
  then have "cstr m' q (w @ [])" unfolding cstr_append using c [unfolded cstr_append] z by simp
  then show ?thesis by simp
qed

text \<open>One word of the line.\<close>

lemma split_args_step:
  assumes c: "cstr m p s" and s: "s \<noteq> []" "length s < 2 ^ 31" and n: "length args < MAXARGS"
  defines "q \<equiv> p + word_of_nat (length (spaces s))" and "w \<equiv> first_word (unspaced s)" and "r \<equiv> after_word (unspaced s)"
  defines "k \<equiv> length (spaces s) + length w + length (spaces r)"
  shows "\<exists>m1. split_args m p args = split_args m1 (p + word_of_nat k) (args @ [q])
    \<and> cstr m1 q w \<and> cstr m1 (p + word_of_nat k) (unspaced r) \<and> same_outside p (Suc (length s)) m m1
    \<and> length s = k + length (unspaced r) \<and> 0 < k \<and> (unspaced r \<noteq> [] \<longrightarrow> 0 < length (spaces r))"
proof -
  let ?e = "q + word_of_nat (length w)"
  have e1: "s = spaces s @ unspaced s" by simp
  have e2: "unspaced s = w @ r" by (simp add: w_def r_def)
  have e3: "r = spaces r @ unspaced r" by simp
  have cq: "cstr m q (w @ r)" unfolding q_def e2 [symmetric] by (rule cstr_split) (use c e1 in simp)
  have cr: "cstr m ?e r" by (rule cstr_split [OF cq])
  have ls: "length s = length (spaces s) + length w + length r"
    using e1 e2 by (metis add.assoc length_append)
  have lr: "length r = length (spaces r) + length (unspaced r)" using e3 by (metis length_append)
  have hd: "m p \<noteq> 0" using c s(1) cstr_head by blast
  have sk: "skip_spaces_at m p = Some q" unfolding q_def by (rule skip_spaces_at_cstr [OF c])
  have sp: "isspace (m q) = 0"
    using cq unspaced_hd [of s] unfolding e2 [symmetric] by (cases "unspaced s") auto
  have we: "word_end m q = Some ?e" using word_end_cstr [OF cq [folded e2]] by (simp add: w_def)
  have step: "split_args m p args =
      (if m ?e = 0 then split_args m ?e (args @ [q])
       else case clear_spaces m ?e of None \<Rightarrow> None | Some (m, e) \<Rightarrow> split_args m e (args @ [q]))"
    using n hd sk sp we by (subst split_args.simps) (simp add: Let_def)
  show ?thesis
  proof (cases "r = []")
    case True
    have "cstr m q w" using cq True by simp
    moreover have "k = length s" "0 < length s" using True ls s(1) by (auto simp: k_def)
    moreover have "p + word_of_nat k = ?e" using True by (simp add: k_def q_def add.assoc)
    ultimately show ?thesis using step cr True by (intro exI [of _ m]) simp
  next
    case False
    let ?b = "length (spaces r)"
    let ?m = "wr_bytes m ?e (replicate ?b 0)"
    have b: "0 < ?b" using False spaces_after_word unfolding r_def by blast
    have "m ?e \<noteq> 0" using cr False cstr_head by blast
    moreover have "clear_spaces m ?e = Some (?m, ?e + word_of_nat ?b)"
      by (rule clear_spaces_cstr [OF cr]) (use ls s(2) in simp)
    ultimately have eq: "split_args m p args = split_args ?m (p + word_of_nat k) (args @ [q])"
      using step by (simp add: k_def q_def add.assoc)
    have out: "same_outside ?e ?b m ?m" by (rule wr_bytes_same_outside) simp
    have "unat (?e - ?e) < ?b" using b by simp
    then have "?m ?e = 0" by (simp add: wr_bytes_def)
    with cq out have w: "cstr ?m q w" by (rule cut_word) (use ls s(2) lr in linarith)+
    have pk: "p + word_of_nat k = ?e + word_of_nat ?b" by (simp add: k_def q_def add.assoc)
    have "cstr m (?e + word_of_nat ?b) (unspaced r)" by (rule cstr_split) (use cr e3 in simp)
    then have u: "cstr ?m (p + word_of_nat k) (unspaced r)"
      unfolding pk by (rule cstr_behind [where k = ?b]) (use ls lr s(2) out in simp_all)
    have pe: "?e = p + word_of_nat (length (spaces s) + length w)" by (simp add: q_def add.assoc)
    have "same_outside (p + word_of_nat (length (spaces s) + length w)) ?b m ?m" unfolding pe [symmetric] by (rule out)
    then have "same_outside p (Suc (length s)) m ?m" by (rule same_outside_mono) (use ls lr in simp)
    then show ?thesis using eq w u ls lr b by (intro exI [of _ ?m]) (simp add: k_def)
  qed
qed

lemma split_args_words:
  "cstr m p s \<Longrightarrow> length s < 2 ^ 31 \<Longrightarrow> length args \<le> MAXARGS \<Longrightarrow>
    \<exists>as m'. split_args m p args = Some (args @ as, m') \<and> list_all2 (cstr m') as (arguments (MAXARGS - length args) s)
      \<and> same_outside p (Suc (length s)) m m'"
proof (induction "length s" arbitrary: m p s args rule: less_induct)
  case less
  note c = less.prems(1) and l = less.prems(2)
  consider (full) "length args = MAXARGS" | (empty) "s = []" "length args < MAXARGS" | (step) "s \<noteq> []" "length args < MAXARGS"
    using less.prems(3) by linarith
  then show ?case
  proof cases
    case full
    have "split_args m p args = Some (args @ [], m(p := 0))" using full by (subst split_args.simps) simp
    moreover have "same_outside p (Suc (length s)) m (m(p := 0))" by (auto simp: same_outside_def)
    ultimately show ?thesis using full by (auto simp: arguments_def)
  next
    case empty
    then have "split_args m p args = Some (args @ [], m)" using c by (subst split_args.simps) simp
    then show ?thesis using empty by (auto simp: arguments_def)
  next
    case step
    define q w r where "q = p + word_of_nat (length (spaces s))" and "w = first_word (unspaced s)"
      and "r = after_word (unspaced s)"
    define k where "k = length (spaces s) + length w + length (spaces r)"
    obtain m1 where m1: "split_args m p args = split_args m1 (p + word_of_nat k) (args @ [q])"
        "cstr m1 q w" "cstr m1 (p + word_of_nat k) (unspaced r)" "same_outside p (Suc (length s)) m m1"
        "length s = k + length (unspaced r)" "0 < k" "unspaced r \<noteq> [] \<longrightarrow> 0 < length (spaces r)"
      using split_args_step [OF c step(1) l step(2)] unfolding k_def q_def w_def r_def by blast
    have "length (unspaced r) < length s" "length (unspaced r) < 2 ^ 31" "length (args @ [q]) \<le> MAXARGS"
      using m1(5,6) l step(2) by simp_all
    from less.hyps [OF this(1) m1(3) this(2,3)] obtain as m' where
        r: "split_args m1 (p + word_of_nat k) (args @ [q]) = Some ((args @ [q]) @ as, m')"
          "list_all2 (cstr m') as (arguments (MAXARGS - length (args @ [q])) (unspaced r))"
          "same_outside (p + word_of_nat k) (Suc (length (unspaced r))) m1 m'" by blast
    have arg: "arguments (MAXARGS - length args) s = w # arguments (MAXARGS - length (args @ [q])) (unspaced r)"
      using arguments_step [OF step(1), of "MAXARGS - length args"] step(2) by (simp add: w_def r_def)
    have out: "same_outside p (Suc (length s)) m1 m'" by (rule same_outside_mono [OF r(3)]) (use m1(5) in simp)
    have "cstr m' q w"
    proof (cases "unspaced r = []")
      case True
      have "split_args m1 (p + word_of_nat k) (args @ [q]) = Some (args @ [q], m1)"
        using m1(3) unfolding True by (subst split_args.simps) (auto simp: Let_def fun_upd_idem)
      then show ?thesis using r(1) m1(2) by simp
    next
      case False
      have e: "p + word_of_nat k = q + word_of_nat (length w + length (spaces r))" by (simp add: k_def q_def add.assoc)
      show ?thesis
        by (rule cstr_before [OF m1(2) r(3) [unfolded e]]) (use False m1(5,7) l in \<open>simp_all add: k_def\<close>)
    qed
    then show ?thesis using m1(1) r(1,2) arg same_outside_trans [OF m1(4) out] by simp
  qed
qed

subsection \<open>The table\<close>

definition name_bytes :: "string \<Rightarrow> u8 list" where
  "name_bytes n = map of_char n"

definition same_name :: "u8 list \<Rightarrow> cmd_entry \<Rightarrow> bool" where
  "same_name w c \<longleftrightarrow> map fold_case w = map fold_case (name_bytes (cmd_name c))"

lemma strcasecmp_cstr:
  "cstr m a s \<Longrightarrow> cstr m b t \<Longrightarrow>
    \<exists>r. strcasecmp m a b = Some r \<and> (r = 0 \<longleftrightarrow> map fold_case s = map fold_case t)"
proof (induction s arbitrary: a b t)
  case Nil
  then show ?case using cstr_head [OF Nil(2)]
    by (subst strcasecmp.simps) (auto simp: sint8_zero)
next
  case (Cons c s)
  show ?case
  proof (cases t)
    case Nil
    then show ?thesis using Cons.prems by (subst strcasecmp.simps) (auto simp: sint8_zero)
  next
    case (Cons d u)
    have h: "m a = c" "m b = d" "c \<noteq> 0" "d \<noteq> 0" using Cons.prems Cons by auto
    show ?thesis
    proof (cases "fold_case c = fold_case d")
      case True
      then have "strcasecmp m a b = strcasecmp m (a + 1) (b + 1)" using h by (subst strcasecmp.simps) simp
      then show ?thesis using Cons.IH [of "a + 1" "b + 1" u] Cons.prems Cons True by simp
    next
      case False
      then have "strcasecmp m a b = Some (sint (fold_case c) - sint (fold_case d))" using h by (subst strcasecmp.simps) simp
      then show ?thesis using False Cons sint8_eq [of "fold_case c" "fold_case d"] by simp
    qed
  qed
qed

lemma find_builtin_cstr:
  "cstr m a w \<Longrightarrow> (\<And>c. c \<in> set cs \<Longrightarrow> cstr m (lit (cmd_name c)) (name_bytes (cmd_name c))) \<Longrightarrow>
    find_builtin lit m cs a = Some (find (same_name w) cs)"
proof (induction cs)
  case (Cons c cs)
  obtain r where "strcasecmp m a (lit (cmd_name c)) = Some r" "r = 0 \<longleftrightarrow> same_name w c"
    using strcasecmp_cstr [OF Cons.prems(1), of "lit (cmd_name c)"] Cons.prems(2) by (auto simp: same_name_def)
  then show ?case using Cons by simp
qed simp

text \<open>Where the linker has put the names of the table: in memory, and outside \<open>n\<close> bytes at \<open>line\<close>.\<close>

definition names_placed :: "(string \<Rightarrow> addr) \<Rightarrow> mem \<Rightarrow> addr \<Rightarrow> nat \<Rightarrow> bool" where
  "names_placed lit m line n \<longleftrightarrow>
     (\<forall>c \<in> set g_cmd_table. cstr m (lit (cmd_name c)) (name_bytes (cmd_name c))
        \<and> (\<forall>i \<le> length (cmd_name c). n \<le> unat (lit (cmd_name c) + word_of_nat i - line)))"

text \<open>What a list of words means, with \<open>argv\<close> the addresses of the words.\<close>

definition meaning :: "u8 list list \<Rightarrow> addr list \<Rightarrow> action" where
  "meaning ws argv =
     (if length ws = 1 \<and> 1 < length (hd ws) \<and> hd ws ! 1 = 0x3A then Drive (hd argv)
      else case find (same_name (hd ws)) g_cmd_table of
             None \<Rightarrow> Executable argv
           | Some c \<Rightarrow>
               if min_args c < int (length ws) \<and> (max_args c = 0 \<or> int (length ws) \<le> max_args c + 1)
               then Run (cmd_function c) (tl argv) else Requires (hd argv) (min_args c) (max_args c))"

lemma second_char:
  assumes "cstr m a w" and "w \<noteq> []"
  shows "m (a + 1) = 0x3A \<longleftrightarrow> 1 < length w \<and> w ! 1 = 0x3A"
proof -
  obtain c u where "w = c # u" using assms(2) by (cases w) auto
  then show ?thesis using assms(1) by (cases u) auto
qed

lemma process_command_meaning:
  assumes "list_all2 (cstr m) argv ws" and "ws \<noteq> []" and "hd ws \<noteq> []"
    and "\<And>c. c \<in> set g_cmd_table \<Longrightarrow> cstr m (lit (cmd_name c)) (name_bytes (cmd_name c))"
  shows "process_command lit m argv = Some (meaning ws argv)"
proof -
  obtain w ws' a args where e: "ws = w # ws'" "argv = a # args"
    using assms(1,2) by (cases ws; cases argv) auto
  have c: "cstr m a w" and l: "length args = length ws'" using assms(1) e by (auto simp: list_all2_lengthD)
  have f: "find_builtin lit m g_cmd_table a = Some (find (same_name w) g_cmd_table)"
    by (rule find_builtin_cstr [OF c assms(4)])
  have d: "args = [] \<and> m (a + 1) = 0x3A \<longleftrightarrow> length ws = 1 \<and> 1 < length w \<and> w ! 1 = 0x3A"
    using second_char [OF c] assms(3) e l by auto
  show ?thesis
    using f d l unfolding process_command_def process_command_builtin_def meaning_def e
    by (auto split: option.split)
qed

lemma first_word_nonempty: "w \<in> set (words s) \<Longrightarrow> w \<noteq> []"
  by (induction s rule: words.induct) (auto split: if_splits)

lemma execute_cmd_meaning:
  assumes line: "cstr m line s" "length s < 2 ^ 31" and esc: "m line \<noteq> 0x1B" and word: "words s \<noteq> []"
    and names: "names_placed lit m line (Suc (length s))"
  shows "\<exists>argv m'. execute_cmd lit m line = Some (meaning (take 40 (words s)) argv, m')
    \<and> list_all2 (cstr m') argv (take 40 (words s)) \<and> length argv \<le> MAXARGS \<and> same_outside line (Suc (length s)) m m'"
proof -
  let ?ws = "take 40 (words s)"
  have "arguments (MAXARGS - length []) s = ?ws" using word by (simp add: arguments_def MAXARGS_def)
  then obtain argv m' where sp: "split_args m line [] = Some (argv, m')" "list_all2 (cstr m') argv ?ws"
      "same_outside line (Suc (length s)) m m'"
    using split_args_words [OF line, of "[]"] by auto
  have "cstr m' (lit (cmd_name c)) (name_bytes (cmd_name c))" if c: "c \<in> set g_cmd_table" for c
  proof -
    have "cstr m' (lit (cmd_name c)) (name_bytes (cmd_name c)) = cstr m (lit (cmd_name c)) (name_bytes (cmd_name c))"
      by (rule cstr_cong) (use c names sp(3) in \<open>simp add: names_placed_def same_outside_def name_bytes_def\<close>)
    then show ?thesis using c names by (simp add: names_placed_def)
  qed
  moreover have "?ws \<noteq> []" "hd ?ws \<noteq> []" using word first_word_nonempty [of "hd (words s)" s] by (cases "words s"; simp)+
  ultimately have "process_command lit m' argv = Some (meaning ?ws argv)" using sp(2) by (intro process_command_meaning)
  then have "execute_cmd lit m line = Some (meaning ?ws argv, m')" using esc sp(1) by (simp add: execute_cmd_def)
  moreover have "length argv \<le> MAXARGS" using list_all2_lengthD [OF sp(2)] by (simp add: MAXARGS_def)
  ultimately show ?thesis using sp(2,3) by blast
qed

text \<open>
  A line of one space: the one argument is empty and the test for a drive letter reads the byte behind the
  terminator of the line, which is what an earlier line has left there.
\<close>

lemma blank_line_reads_stale:
  "\<exists>m'. execute_cmd lit (wr_bytes (\<lambda>_. 0) 0x1000 [0x20, 0, 0x3A]) 0x1000 = Some (Drive 0x1001, m')"
proof -
  let ?m = "wr_bytes (\<lambda>_. 0) 0x1000 [0x20, 0, 0x3A] :: mem"
  have m: "?m 0x1000 = 0x20" "?m 0x1001 = 0" "?m 0x1002 = 0x3A" by (simp_all add: wr_bytes_def)
  have "skip_spaces_at ?m 0x1000 = Some 0x1001" "word_end ?m 0x1001 = Some 0x1001"
    using skip_spaces_at_cstr [where m = ?m and p = "0x1000" and s = "[0x20]"]
      word_end_cstr [where m = ?m and p = "0x1001" and s = "[]"] m by simp_all
  then have "split_args ?m 0x1000 [] = split_args ?m 0x1001 [0x1001]"
    using m by (subst split_args.simps) (simp add: MAXARGS_def)
  also have "\<dots> = Some ([0x1001], ?m)" using m by (subst split_args.simps) (simp add: MAXARGS_def)
  finally show ?thesis using m by (simp add: execute_cmd_def process_command_def process_command_builtin_def)
qed

text \<open>A maximum of 0 stands for no maximum: \<open>exit\<close> takes any number of arguments, and the message for a
  \<open>writemem\<close> with too few names the range 2 to 0.\<close>

lemma zero_maximum:
  "meaning (name_bytes ''exit'' # ws) (a # args) = Run do_exit args"
  "meaning [name_bytes ''writemem'', w] [a, b] = Requires a 2 0"
proof -
  have "find (same_name (name_bytes ''exit'')) g_cmd_table = Some (cmd ''exit'' 0 0 do_exit)"
       "find (same_name (name_bytes ''writemem'')) g_cmd_table = Some (cmd ''writemem'' 2 0 do_writemem_cmd)"
    by (simp_all add: g_cmd_table_def same_name_def name_bytes_def fold_case_def)
  then show "meaning (name_bytes ''exit'' # ws) (a # args) = Run do_exit args"
    "meaning [name_bytes ''writemem'', w] [a, b] = Requires a 2 0"
    by (simp_all add: meaning_def) (simp add: name_bytes_def)
qed

subsection \<open>A turn of the shell\<close>

text \<open>One round of the loop of \<open>shell\<close>: a line is read, kept and carried out; the result is what to do,
  the state and the keys not read yet.\<close>

definition shell_turn :: "(string \<Rightarrow> addr) \<Rightarrow> addr \<Rightarrow> addr \<Rightarrow> u8 list \<Rightarrow> console \<Rightarrow> (action \<times> console \<times> u8 list) option" where
  "shell_turn lit H buf keys s =
     (case readline_with_history H buf keys s of
        Some (Entered s keys) \<Rightarrow>
          (let s = history_add H buf s
           in map_option (\<lambda>(act, m). (act, s\<lparr>tmem := m\<rparr>, keys)) (execute_cmd lit (tmem s) buf))
      | _ \<Rightarrow> None)"

lemma names_placed_outside:
  assumes "names_placed lit m a n" and "same_outside a n m m'" and "names_placed lit m b k"
  shows "names_placed lit m' b k"
proof -
  have "cstr m' (lit (cmd_name c)) (name_bytes (cmd_name c)) = cstr m (lit (cmd_name c)) (name_bytes (cmd_name c))"
    if "c \<in> set g_cmd_table" for c
    by (rule cstr_cong) (use that assms(1,2) in \<open>simp add: names_placed_def same_outside_def name_bytes_def\<close>)
  then show ?thesis using assms(3) by (simp add: names_placed_def)
qed

lemma names_placed_mono: "names_placed lit m a n \<Longrightarrow> k \<le> n \<Longrightarrow> names_placed lit m a k"
  by (auto simp: names_placed_def intro: le_trans)

text \<open>
  Claim C14. A turn of the shell, from the keys to the command: the keys up to Enter make a text, as in
  the editor on lists, and when the text has a word and does not begin with ESC (a line the shell
  ignores) the turn does what the words mean. The command is
  the entry of the table with the name of the first word up to the case of letters when the number of
  the other words is within its bounds, and otherwise its message; a single word with a colon behind its
  first character selects a drive; a word that names no command is passed on as a program. The arguments
  are at most 40 strings in memory, equal to the words; the text is the latest line of the history, and
  the table is intact, so that the next turn starts from the same conditions.
\<close>

theorem shell_turn_meaning:
  assumes ar: "areas H buf" and h: "history_holds H hs (tmem s) (hist_count s)" and enter: "KEY_ENTER \<notin> set keys"
    and names: "names_placed lit (tmem s) buf 128" "names_placed lit (tmem s) H 2048"
  defines "t \<equiv> fst (fold (edit_key hs) keys ([], - 1))"
  defines "ws \<equiv> take 40 (words (takeWhile (\<lambda>c. c \<noteq> 0) t))"
  assumes word: "ws \<noteq> []" and esc: "hd t \<noteq> 0x1B"
  shows "\<exists>argv s'. shell_turn lit H buf (keys @ KEY_ENTER # rest) s = Some (meaning ws argv, s', rest)
    \<and> list_all2 (cstr (tmem s')) argv ws \<and> length argv \<le> MAXARGS
    \<and> history_holds H (remember t hs) (tmem s') (hist_count s')
    \<and> names_placed lit (tmem s') buf 128 \<and> names_placed lit (tmem s') H 2048"
proof -
  let ?u = "takeWhile (\<lambda>c. c \<noteq> 0) t"
  obtain s1 where r: "readline_with_history H buf (keys @ KEY_ENTER # rest) s = Some (Entered s1 rest)"
      and t: "length t \<le> 127" "rd_bytes (tmem s1) buf (length t) = t" "tmem s1 (buf + word_of_nat (length t)) = 0"
      and o1: "same_outside buf 128 (tmem s) (tmem s1)"
      and h1: "history_holds H (remember t hs) (tmem (history_add H buf s1)) (hist_count (history_add H buf s1))"
    using readline_turn [OF ar h enter, of rest] unfolding t_def by blast
  let ?s = "history_add H buf s1"
  have c1: "cstr (tmem s1) buf ?u" by (rule cstr_takeWhile [OF t(2,3)])
  have l: "length ?u \<le> 127" using length_takeWhile_le [of _ t] t(1) by (rule le_trans)
  have o2: "same_outside H 2048 (tmem s1) (tmem ?s)" by (rule history_add_outside [OF ar c1 l])
  have "cstr (tmem ?s) buf ?u = cstr (tmem s1) buf ?u"
    by (rule cstr_cong) (use o2 buf_off_history [OF ar] l in \<open>simp add: same_outside_def\<close>)
  then have c2: "cstr (tmem ?s) buf ?u" using c1 by simp
  have n1: "names_placed lit (tmem s1) buf 128" "names_placed lit (tmem s1) H 2048"
    using names_placed_outside [OF names(1) o1] names by blast+
  have n2: "names_placed lit (tmem ?s) buf 128" "names_placed lit (tmem ?s) H 2048"
    using names_placed_outside [OF n1(2) o2] n1 by blast+
  have w: "words ?u \<noteq> []" using word unfolding ws_def by auto
  have u: "?u \<noteq> []" using w by auto
  then have "tmem ?s buf = hd t" using c2 by (cases t) (auto split: if_splits)
  then have e: "tmem ?s buf \<noteq> 0x1B" using esc by simp
  have "length ?u < 2 ^ 31" "Suc (length ?u) \<le> 128" using l by simp_all
  from execute_cmd_meaning [OF c2 this(1) e w names_placed_mono [OF n2(1) this(2)]]
  obtain argv m' where x: "execute_cmd lit (tmem ?s) buf = Some (meaning ws argv, m')" "list_all2 (cstr m') argv ws"
      "length argv \<le> MAXARGS" "same_outside buf (Suc (length ?u)) (tmem ?s) m'"
    unfolding ws_def by blast
  have o3: "same_outside buf 128 (tmem ?s) m'" using same_outside_mono [of buf 0 "Suc (length ?u)"] x(4) l by simp
  have "shell_turn lit H buf (keys @ KEY_ENTER # rest) s = Some (meaning ws argv, ?s\<lparr>tmem := m'\<rparr>, rest)"
    using r x(1) by (simp add: shell_turn_def)
  moreover have "history_holds H (remember t hs) m' (hist_count ?s)" by (rule history_holds_outside [OF ar o3 h1])
  moreover have "names_placed lit m' buf 128" "names_placed lit m' H 2048"
    using names_placed_outside [OF n2(1) o3] n2 by blast+
  ultimately show ?thesis using x(2,3) by (intro exI [of _ argv] exI [of _ "?s\<lparr>tmem := m'\<rparr>"]) simp
qed

text \<open>A memory with the names in rows of 16 bytes from address 0, and zeros.\<close>

definition demo_lit :: "string \<Rightarrow> addr" where
  "demo_lit n = (case map_of (zip (map cmd_name g_cmd_table) [0..<22]) n of Some k \<Rightarrow> word_of_nat (16 * k) | None \<Rightarrow> 0)"

definition demo_memory :: mem where
  "demo_memory = (\<lambda>x. if unat x < 352
      then (name_bytes (cmd_name (g_cmd_table ! (unat x div 16))) @ replicate 16 0) ! (unat x mod 16) else 0)"

lemma demo_names:
  assumes a: "0x1000 \<le> a" "a < 2 ^ 31" and n: "n \<le> 2 ^ 31"
  shows "names_placed demo_lit demo_memory (word_of_nat a) n"
proof -
  have len: "length g_cmd_table = 22" by (simp add: g_cmd_table_def)
  have d: "distinct (map cmd_name g_cmd_table)" by (simp add: g_cmd_table_def)
  have sh: "\<forall>c \<in> set g_cmd_table. length (cmd_name c) < 16 \<and> 0 \<notin> set (name_bytes (cmd_name c))"
    by (simp add: g_cmd_table_def name_bytes_def)
  show ?thesis
    unfolding names_placed_def
  proof (intro ballI conjI allI impI)
    fix c assume c: "c \<in> set g_cmd_table"
    then obtain k where k: "k < 22" "c = g_cmd_table ! k" using len by (metis in_set_conv_nth)
    have "map_of (zip (map cmd_name g_cmd_table) [0..<22]) (map cmd_name g_cmd_table ! k) = Some ([0..<22] ! k)"
      by (rule map_of_zip_nth) (use len d k(1) in simp_all)
    then have lit: "demo_lit (cmd_name c) = word_of_nat (16 * k)" using k len by (simp add: demo_lit_def)
    have at: "unat (demo_lit (cmd_name c) + word_of_nat i) = 16 * k + i" if "i < 16" for i
      unfolding lit of_nat_add [symmetric] by (rule unat_of_nat32) (use that k(1) in simp)
    have far: "n \<le> unat (demo_lit (cmd_name c) + word_of_nat i - word_of_nat a)" if "i < 16" for i
    proof -
      have "16 * k + i \<le> a" using that k(1) a(1) by linarith
      then have "demo_lit (cmd_name c) + word_of_nat i = word_of_nat a - word_of_nat (a - (16 * k + i))"
        by (simp add: lit of_nat_diff)
      moreover have "n \<le> unat (word_of_nat a - word_of_nat (a - (16 * k + i)) - (word_of_nat a :: addr))"
        by (rule before_region) (use that k(1) a n in linarith)+
      ultimately show ?thesis by simp
    qed
    have row: "demo_memory (demo_lit (cmd_name c) + word_of_nat i) = (name_bytes (cmd_name c) @ replicate 16 0) ! i"
      if "i < 16" for i
      using at [OF that] that k by (simp add: demo_memory_def name_bytes_def)
    have len_n: "length (name_bytes (cmd_name c)) < 16" "0 \<notin> set (name_bytes (cmd_name c))"
      using sh c by (simp_all add: name_bytes_def)
    have "rd_bytes (demo_memory) (demo_lit (cmd_name c)) (length (name_bytes (cmd_name c))) = name_bytes (cmd_name c)"
      by (rule nth_equalityI) (use row len_n in \<open>simp_all add: nth_append\<close>)
    moreover have "demo_memory (demo_lit (cmd_name c) + word_of_nat (length (name_bytes (cmd_name c)))) = 0"
      using row len_n by (simp add: nth_append)
    ultimately have "cstr (demo_memory) (demo_lit (cmd_name c)) (name_bytes (cmd_name c) @ [])"
      unfolding cstr_append using len_n by simp
    then show "cstr (demo_memory) (demo_lit (cmd_name c)) (name_bytes (cmd_name c))" by simp
    show "n \<le> unat (demo_lit (cmd_name c) + word_of_nat i - word_of_nat a)" if "i \<le> length (cmd_name c)" for i
      by (rule far) (use that sh c in \<open>auto intro: le_less_trans\<close>)
  qed
qed

definition demo_shell :: console where
  "demo_shell = \<lparr>tmem = demo_memory, hist_count = 0, hist_cursor = - 1, screen = [], serial = []\<rparr>"

text \<open>The keys \<open>Cp  x, y\<close> with a backspace for the comma.\<close>

theorem shell_turn_meaning_witness:
  "\<exists>a b s'. shell_turn demo_lit 0x8000 0x1000 (name_bytes ''Cp  x,'' @ [KEY_BS] @ name_bytes '' y'' @ [KEY_ENTER]) demo_shell
       = Some (Run do_copyfile [a, b], s', [])
     \<and> cstr (tmem s') a (name_bytes ''x'') \<and> cstr (tmem s') b (name_bytes ''y'')
     \<and> history_holds 0x8000 [name_bytes ''Cp  x y''] (tmem s') (hist_count s')"
proof -
  let ?keys = "name_bytes ''Cp  x,'' @ [KEY_BS] @ name_bytes '' y''" and ?t = "name_bytes ''Cp  x y''"
  let ?ws = "[name_bytes ''Cp'', name_bytes ''x'', name_bytes ''y'']"
  have ar: "areas 0x8000 0x1000" by (simp add: areas_def)
  have h: "history_holds 0x8000 [] (tmem demo_shell) (hist_count demo_shell)"
    by (simp add: history_holds_def demo_shell_def)
  have en: "KEY_ENTER \<notin> set ?keys" by (simp add: KEY_ENTER_def KEY_BS_def name_bytes_def)
  have n: "names_placed demo_lit (tmem demo_shell) 0x1000 128" "names_placed demo_lit (tmem demo_shell) 0x8000 2048"
    using demo_names [of "0x1000" 128] demo_names [of "0x8000" 2048] by (simp_all add: demo_shell_def)
  have t: "fst (fold (edit_key []) ?keys ([], - 1)) = ?t"
    by (simp add: edit_key_def KEY_BS_def KEY_UP_def KEY_DOWN_def name_bytes_def)
  have w: "take 40 (words (takeWhile (\<lambda>c. c \<noteq> 0) ?t)) = ?ws" by (simp add: name_bytes_def)
  have f: "find (same_name (name_bytes ''Cp'')) g_cmd_table = Some (cmd ''cp'' 2 2 do_copyfile)"
    by (simp add: g_cmd_table_def same_name_def name_bytes_def fold_case_def)
  have r: "remember ?t [] = [?t]" by (simp add: remember_def name_bytes_def)
  have "?ws \<noteq> []" "hd ?t \<noteq> 0x1B" by (simp_all add: name_bytes_def)
  from shell_turn_meaning [OF ar h en n, unfolded t w r, OF this, of "[]"] obtain argv s' where
      x: "shell_turn demo_lit 0x8000 0x1000 (?keys @ [KEY_ENTER]) demo_shell = Some (meaning ?ws argv, s', [])"
         "list_all2 (cstr (tmem s')) argv ?ws" "history_holds 0x8000 [?t] (tmem s') (hist_count s')" by blast
  obtain p a b where a: "argv = [p, a, b]" "cstr (tmem s') a (name_bytes ''x'')" "cstr (tmem s') b (name_bytes ''y'')"
    using x(2) by (auto simp: list_all2_Cons2)
  have "meaning ?ws argv = Run do_copyfile [a, b]" unfolding a(1) meaning_def by (simp add: f)
  then show ?thesis using x(1,3) a(2,3) by auto
qed

end
