(* ===== verification/ShellMem.thy ===== *)
theory ShellMem
  imports ShellCmd
begin

text \<open>
  The commands of the ROM shell that write memory, \<open>do_writemem\<close> and \<open>do_writemem1\<close> of
  \<open>orioncore/shell/commands.c\<close>. The arguments are addresses of strings in memory, as \<open>execute_cmd\<close>
  leaves them, and the bytes are written to the same memory.
\<close>

subsection \<open>The code\<close>

definition fromhex :: "u8 \<Rightarrow> int" where
  "fromhex c =
     (if 0x30 \<le> sint c \<and> sint c \<le> 0x39 then sint c - 0x30
      else if 0x61 \<le> sint c \<and> sint c \<le> 0x66 then 10 + sint c - 0x61
      else if 0x41 \<le> sint c \<and> sint c \<le> 0x46 then 10 + sint c - 0x41
      else - 1)"

datatype writemem_error = Ambiguous addr | BadHex u8 addr

text \<open>The loop over the characters of one argument: the first that is not a digit.\<close>

primrec bad_digit :: "mem \<Rightarrow> addr \<Rightarrow> nat \<Rightarrow> u8 option" where
  "bad_digit m p 0 = None"
| "bad_digit m p (Suc n) = (if fromhex (m p) < 0 then Some (m p) else bad_digit m (p + 1) n)"

primrec check_args :: "mem \<Rightarrow> addr list \<Rightarrow> writemem_error option option" where
  "check_args m [] = Some None"
| "check_args m (a # args) =
     (case strlen m a of
        None \<Rightarrow> None
      | Some n \<Rightarrow>
          if sint n \<noteq> 1 \<and> sint n mod 2 \<noteq> 0 then Some (Some (Ambiguous a))
          else (case bad_digit m a (nat (sint n)) of
                  Some c \<Rightarrow> Some (Some (BadHex c a))
                | None \<Rightarrow> check_args m args))"

function write_pairs :: "mem \<Rightarrow> addr \<Rightarrow> int \<Rightarrow> int \<Rightarrow> addr \<Rightarrow> mem \<times> addr" where
  "write_pairs m a j l ptr =
     (if j < l
      then let value = (push_bit 4 (fromhex (m (a + word_of_int j)))) OR (fromhex (m (a + word_of_int (j + 1))))
           in write_pairs (m(ptr := word_of_int value)) a (j + 2) l (ptr + 1)
      else (m, ptr))"
  by pat_completeness auto
termination by (relation "measure (\<lambda>(m, a, j, l, ptr). nat (l - j))") auto

declare write_pairs.simps [simp del]

primrec write_args :: "mem \<Rightarrow> addr \<Rightarrow> addr list \<Rightarrow> mem option" where
  "write_args m ptr [] = Some m"
| "write_args m ptr (a # args) =
     (case strlen m a of
        None \<Rightarrow> None
      | Some n \<Rightarrow>
          if sint n \<le> 2
          then (case stdlib_strtoul m a 16 of
                  None \<Rightarrow> None
                | Some (v, _) \<Rightarrow> write_args (m(ptr := ucast v)) (ptr + 1) args)
          else (case write_pairs m a 0 (sint n) ptr of (m, ptr) \<Rightarrow> write_args m ptr args))"

definition do_writemem :: "mem \<Rightarrow> addr \<Rightarrow> addr list \<Rightarrow> (writemem_error + mem) option" where
  "do_writemem m a0 args =
     (case stdlib_strtoul m a0 16 of
        None \<Rightarrow> None
      | Some (value, _) \<Rightarrow>
          (case check_args m args of
             None \<Rightarrow> None
           | Some (Some e) \<Rightarrow> Some (Inl e)
           | Some None \<Rightarrow> map_option Inr (write_args m value args)))"

subsection \<open>The bytes of writemem\<close>

text \<open>An argument is one digit or pairs of digits.\<close>

definition hex_text :: "u8 list \<Rightarrow> bool" where
  "hex_text t \<longleftrightarrow> t \<noteq> [] \<and> (length t = 1 \<or> even (length t)) \<and> (\<forall>c \<in> set t. 0 \<le> fromhex c)"

fun hex_bytes :: "u8 list \<Rightarrow> u8 list" where
  "hex_bytes [] = []"
| "hex_bytes [c] = [word_of_int (fromhex c)]"
| "hex_bytes (c # d # t) = word_of_int (16 * fromhex c + fromhex d) # hex_bytes t"

lemma fromhex_digit: "0 \<le> fromhex c \<longleftrightarrow> (\<exists>d < 16. digit_value (sint c) = Some d)"
  by (auto simp: fromhex_def digit_value_def)

lemma digit_value_fromhex: "0 \<le> fromhex c \<Longrightarrow> digit_value (sint c) = Some (fromhex c) \<and> fromhex c < 16"
  by (auto simp: fromhex_def digit_value_def split: if_splits)

lemma digits_at_hex:
  "cstr m p t \<Longrightarrow> (\<forall>c \<in> set t. 0 \<le> fromhex c) \<Longrightarrow> digits_at m p 16 (map fromhex t)"
proof (induction t arbitrary: p)
  case Nil
  then show ?case by (simp add: digit_value_def)
next
  case (Cons c t)
  then show ?case using digit_value_fromhex [of c] by auto
qed

lemma value_of_bound: "(\<forall>d \<in> set ds. 0 \<le> d \<and> d < 16) \<Longrightarrow> 0 \<le> r \<Longrightarrow>
    0 \<le> value_of 16 r ds \<and> value_of 16 r ds < (r + 1) * 16 ^ length ds"
proof (induction ds arbitrary: r)
  case (Cons d ds)
  have "value_of 16 (r * 16 + d) ds < (r * 16 + d + 1) * 16 ^ length ds" "0 \<le> value_of 16 (r * 16 + d) ds"
    using Cons.IH [of "r * 16 + d"] Cons.prems by auto
  moreover have "(r * 16 + d + 1) * 16 ^ length ds \<le> (r * 16 + 16) * 16 ^ length ds"
    using Cons.prems by (intro mult_right_mono) auto
  moreover have "(r * 16 + 16) * 16 ^ length ds = (r + 1) * 16 ^ length (d # ds)" by (simp add: algebra_simps)
  ultimately show ?case unfolding value_of_simps by linarith
qed simp

lemma strtoul_hex:
  assumes c: "cstr m p t" and t: "t \<noteq> []" "length t \<le> 8" and h: "\<forall>c \<in> set t. 0 \<le> fromhex c"
  shows "\<exists>e. stdlib_strtoul m p 16 = Some (word_of_int (value_of 16 0 (map fromhex t)), e)"
proof -
  obtain c0 u where e: "t = c0 # u" using t(1) by (cases t) auto
  have m0: "m p = c0" "0 \<le> fromhex c0" using c h e by simp_all
  have dv: "digit_value (sint c0) = Some (fromhex c0)" using digit_value_fromhex m0(2) by blast
  note ns = digit_not_sign [OF dv]
  have x: "m (p + 1) \<notin> {0x58, 0x78}"
    using c h e by (cases u) (auto simp: fromhex_def split: if_splits)
  have d: "\<forall>d \<in> set (map fromhex t). 0 \<le> d \<and> d < 16" using h digit_value_fromhex by auto
  have v: "value_of 16 0 (map fromhex t) < 2 ^ 32"
  proof -
    have "value_of 16 0 (map fromhex t) < (0 + 1) * 16 ^ length (map fromhex t)" using value_of_bound [OF d, of 0] by simp
    also have "\<dots> \<le> 16 ^ 8" using power_increasing [OF t(2), of "16 :: int"] by simp
    finally show ?thesis by simp
  qed
  have "stdlib_strtoul m p 16 = Some (if value_of 16 0 (map fromhex t) < 2 ^ 32
      then word_of_int (if False then - value_of 16 0 (map fromhex t) else value_of 16 0 (map fromhex t)) else ULONG_MAX,
      p + word_of_nat (length (map fromhex t)))"
  proof (rule stdlib_strtoul_eq [where k = 0])
    show "digits_at m p 16 (map fromhex t)" by (rule digits_at_hex [OF c h])
    show "m (p + word_of_nat 0) \<notin> set blanks6" using ns(3) m0(1) by simp
    show "sign_at m (p + word_of_nat 0) = (False, p)" using ns m0(1) by (simp add: sign_at_def)
    show "\<not> ((16 :: int) = 16 \<and> m p = 0x30 \<and> m (p + 1) \<in> {0x58, 0x78})" using x by simp
  qed (use t(1) in simp_all)
  then show ?thesis using v by simp
qed

lemma nibbles:
  assumes "0 \<le> x" "x < 16" "0 \<le> y" "y < 16"
  shows "push_bit 4 x OR y = 16 * x + (y :: int)"
proof -
  have "\<forall>x \<in> set [0..15]. \<forall>y \<in> set [0..15]. push_bit 4 x OR y = 16 * x + (y :: int)" by code_simp
  then show ?thesis using assms by simp
qed

lemma length_hex_bytes: "length (hex_bytes t) = (length t + 1) div 2"
  by (induction t rule: hex_bytes.induct) simp_all

lemma bad_digit_cstr: "cstr m p t \<Longrightarrow> bad_digit m p (length t) = find (\<lambda>c. fromhex c < 0) t"
  by (induction t arbitrary: p) auto

lemma sint_length: "n < 2 ^ 31 \<Longrightarrow> sint (word_of_nat n :: u32) = int n"
  using sint_small [of "word_of_nat n"] unat_of_nat32 [of n] by simp

lemma check_args_cstr:
  "list_all2 (cstr m) args ts \<Longrightarrow> \<forall>t \<in> set ts. t \<noteq> [] \<and> length t < 2 ^ 31 \<Longrightarrow>
    \<exists>r. check_args m args = Some r \<and> (r = None \<longleftrightarrow> (\<forall>t \<in> set ts. hex_text t))"
proof (induction rule: list_all2_induct)
  case (Cons a args t ts)
  have l: "sint (word_of_nat (length t) :: u32) = int (length t)" "t \<noteq> []" using Cons.prems sint_length by simp_all
  have s: "strlen m a = Some (word_of_nat (length t))" by (rule strlen_cstr [OF Cons.hyps(1)])
  have p: "int (length t) mod 2 \<noteq> 0 \<longleftrightarrow> odd (length t)" by presburger
  obtain r where r: "check_args m args = Some r" "r = None \<longleftrightarrow> (\<forall>t \<in> set ts. hex_text t)"
    using Cons.IH Cons.prems by auto
  have b: "bad_digit m a (length t) = find (\<lambda>c. fromhex c < 0) t" by (rule bad_digit_cstr [OF Cons.hyps(1)])
  have c: "check_args m (a # args) =
      (if length t \<noteq> 1 \<and> odd (length t) then Some (Some (Ambiguous a))
       else case find (\<lambda>c. fromhex c < 0) t of Some c \<Rightarrow> Some (Some (BadHex c a)) | None \<Rightarrow> Some r)"
    by (simp only: check_args.simps s option.case l(1) nat_int b r(1) p of_nat_eq_1_iff)
  show ?case
  proof (cases "find (\<lambda>c. fromhex c < 0) t")
    case None
    then have "\<forall>c \<in> set t. 0 \<le> fromhex c" by (auto simp: find_None_iff not_less)
    then show ?thesis using c None r(2) l(2) by (simp add: hex_text_def)
  next
    case (Some c')
    then have "c' \<in> set t \<and> fromhex c' < 0" by (auto simp: find_Some_iff)
    then have "\<not> (\<forall>c \<in> set t. 0 \<le> fromhex c)" by (auto simp: not_le)
    then have "\<not> hex_text t" by (simp add: hex_text_def)
    then show ?thesis using c Some by simp
  qed
qed simp

text \<open>A text whose bytes are outside \<open>n\<close> bytes at \<open>v\<close>.\<close>

definition text_outside :: "mem \<Rightarrow> addr \<Rightarrow> nat \<Rightarrow> addr \<Rightarrow> u8 list \<Rightarrow> bool" where
  "text_outside m v n a t \<longleftrightarrow> cstr m a t \<and> (\<forall>i \<le> length t. n \<le> unat (a + word_of_nat i - v))"

lemma text_outside_iff:
  "text_outside m v n a t \<longleftrightarrow>
     cstr m a t \<and> list_all (\<lambda>i. n \<le> unat (a + word_of_nat i - v)) [0..<Suc (length t)]"
  by (auto simp: text_outside_def list_all_iff)

lemma write_pairs_bytes:
  "even (length u) \<Longrightarrow> l = j + int (length u) \<Longrightarrow> rd_bytes m (a + word_of_int j) (length u) = u \<Longrightarrow>
    (\<forall>i < length u. length (hex_bytes u) \<le> unat (a + word_of_int j + word_of_nat i - ptr)) \<Longrightarrow>
    (\<forall>c \<in> set u. 0 \<le> fromhex c) \<Longrightarrow> length u < 2 ^ 31 \<Longrightarrow>
    write_pairs m a j l ptr = (wr_bytes m ptr (hex_bytes u), ptr + word_of_nat (length (hex_bytes u)))"
proof (induction u arbitrary: m j ptr rule: hex_bytes.induct)
  case 1
  then show ?case by (subst write_pairs.simps) simp
next
  case (2 c)
  then show ?case by simp
next
  case (3 c d t)
  let ?v = "word_of_int (16 * fromhex c + fromhex d) :: u8" and ?p = "a + word_of_int j"
  have b: "m ?p = c" "m (?p + 1) = d" "rd_bytes m (?p + 1 + 1) (length t) = t"
    using "3.prems"(3) by (simp_all add: rd_bytes_Suc)
  have e: "a + word_of_int (j + 1) = ?p + 1" "a + word_of_int (j + 2) = ?p + 1 + 1" by simp_all
  have v: "push_bit 4 (fromhex c) OR fromhex d = 16 * fromhex c + fromhex d"
    using "3.prems"(5) digit_value_fromhex [of c] digit_value_fromhex [of d] by (intro nibbles) auto
  have off: "1 + length (hex_bytes t) \<le> unat (?p + 1 + 1 + word_of_nat i - ptr)" if "i < length t" for i
    using "3.prems"(4) [rule_format, of "Suc (Suc i)"] that by (simp add: algebra_simps)
  have "rd_bytes (m(ptr := ?v)) (?p + 1 + 1) (length t) = t"
  proof -
    have "?p + 1 + 1 + word_of_nat i \<noteq> ptr" if "i < length t" for i using off [OF that] by auto
    then show ?thesis using rd_bytes_upd_notin [of "length t" "?p + 1 + 1" ptr m ?v] b(3) by simp
  qed
  moreover have "length (hex_bytes t) \<le> unat (?p + 1 + 1 + word_of_nat i - (ptr + 1))" if "i < length t" for i
    using unat_diff_step [OF off [OF that]] by simp
  ultimately have "write_pairs (m(ptr := ?v)) a (j + 2) l (ptr + 1)
      = (wr_bytes (m(ptr := ?v)) (ptr + 1) (hex_bytes t), ptr + 1 + word_of_nat (length (hex_bytes t)))"
    using "3.prems"(1,2,5,6) by (intro "3.IH") (simp_all only: e, simp_all)
  moreover have "write_pairs m a j l ptr = write_pairs (m(ptr := ?v)) a (j + 2) l (ptr + 1)"
    using "3.prems"(2) by (subst write_pairs.simps) (simp only: Let_def b e v, simp)
  moreover have "wr_bytes (m(ptr := ?v)) (ptr + 1) (hex_bytes t) = wr_bytes m ptr (?v # hex_bytes t)"
    by (rule wr_bytes_Cons) (use "3.prems"(6) in \<open>simp add: length_hex_bytes\<close>)
  ultimately show ?case by (simp add: add.assoc)
qed

lemma ucast_word_of_int: "ucast (word_of_int k :: u32) = (word_of_int k :: u8)"
  by (rule bit_word_eqI) (auto simp: bit_simps)

lemma short_bytes:
  assumes "hex_text t" and "length t \<le> 2"
  shows "hex_bytes t = [ucast (word_of_int (value_of 16 0 (map fromhex t)) :: u32)]"
proof -
  have "\<exists>c. t = [c] \<or> (\<exists>d. t = [c, d])"
    using assms by (cases t; cases "tl t"; cases "tl (tl t)") (auto simp: hex_text_def)
  then show ?thesis by (auto simp del: of_int_add of_int_mult simp add: ucast_word_of_int mult.commute)
qed

lemma write_one:
  assumes t: "text_outside m ptr n a t" "length (hex_bytes t) \<le> n" and h: "hex_text t" "length t < 2 ^ 31"
  shows "write_args m ptr (a # args)
    = write_args (wr_bytes m ptr (hex_bytes t)) (ptr + word_of_nat (length (hex_bytes t))) args"
proof -
  have c: "cstr m a t" and d: "\<forall>c \<in> set t. 0 \<le> fromhex c" "t \<noteq> []"
    using t(1) h(1) by (simp_all add: text_outside_def hex_text_def)
  have s: "strlen m a = Some (word_of_nat (length t))" by (rule strlen_cstr [OF c])
  have l: "sint (word_of_nat (length t) :: u32) = int (length t)" using h(2) by (rule sint_length)
  show ?thesis
  proof (cases "length t \<le> 2")
    case True
    obtain e where "stdlib_strtoul m a 16 = Some (word_of_int (value_of 16 0 (map fromhex t)), e)"
      using strtoul_hex [OF c d(2) _ d(1)] True by auto
    moreover have "int (length t) \<le> 2" using True by simp
    ultimately have "write_args m ptr (a # args)
        = write_args (m(ptr := ucast (word_of_int (value_of 16 0 (map fromhex t)) :: u32))) (ptr + 1) args"
      using s l by simp
    moreover have "m(ptr := x) = wr_bytes m ptr [x]" for x using wr_bytes_Cons [of "[]" m ptr x] by simp
    ultimately show ?thesis unfolding short_bytes [OF h(1) True] by simp
  next
    case False
    have ev: "even (length t)" using h(1) False by (auto simp: hex_text_def)
    have "rd_bytes m a (length t) = t" using c cstr_append [of m a t "[]"] by simp
    moreover have "length (hex_bytes t) \<le> unat (a + word_of_nat i - ptr)" if "i < length t" for i
      using t that by (auto simp: text_outside_def intro: le_trans)
    ultimately have "write_pairs m a 0 (int (length t)) ptr = (wr_bytes m ptr (hex_bytes t), ptr + word_of_nat (length (hex_bytes t)))"
      using write_pairs_bytes [OF ev, of "int (length t)" 0 m a ptr] d(1) h(2) by simp
    moreover have "\<not> int (length t) \<le> 2" using False by simp
    ultimately show ?thesis using s l by simp
  qed
qed

lemma write_args_bytes:
  "list_all2 (text_outside m ptr (length (concat (map hex_bytes ts)))) args ts \<Longrightarrow>
    \<forall>t \<in> set ts. hex_text t \<and> length t < 2 ^ 31 \<Longrightarrow> length (concat (map hex_bytes ts)) < 2 ^ 32 \<Longrightarrow>
    write_args m ptr args = Some (wr_bytes m ptr (concat (map hex_bytes ts)))"
proof (induction ts arbitrary: m ptr args)
  case Nil
  then show ?case by simp
next
  case (Cons t ts)
  let ?h = "hex_bytes t" and ?r = "concat (map hex_bytes ts)"
  obtain a as where args: "args = a # as" using Cons.prems(1) by (cases args) auto
  have t: "text_outside m ptr (length ?h + length ?r) a t" and rest: "list_all2 (text_outside m ptr (length ?h + length ?r)) as ts"
    using Cons.prems(1) args by simp_all
  have step: "write_args m ptr args = write_args (wr_bytes m ptr ?h) (ptr + word_of_nat (length ?h)) as"
    unfolding args by (rule write_one [OF t]) (use Cons.prems(2) in simp_all)
  have "text_outside (wr_bytes m ptr ?h) (ptr + word_of_nat (length ?h)) (length ?r) b u"
    if o: "text_outside m ptr (length ?h + length ?r) b u" for b u
  proof -
    have "cstr (wr_bytes m ptr ?h) b u = cstr m b u"
      by (rule cstr_cong) (use o in \<open>auto simp: text_outside_def intro!: wr_bytes_other intro: le_trans [OF le_add1]\<close>)
    moreover have "length ?r \<le> unat (b + word_of_nat i - (ptr + word_of_nat (length ?h)))" if "i \<le> length u" for i
      by (rule unat_diff_step) (use o that in \<open>simp add: text_outside_def\<close>)
    ultimately show ?thesis using o by (simp add: text_outside_def)
  qed
  then have "list_all2 (text_outside (wr_bytes m ptr ?h) (ptr + word_of_nat (length ?h)) (length ?r)) as ts"
    using rest by (rule list_all2_mono [rotated]) 
  then have "write_args (wr_bytes m ptr ?h) (ptr + word_of_nat (length ?h)) as
      = Some (wr_bytes (wr_bytes m ptr ?h) (ptr + word_of_nat (length ?h)) ?r)"
    using Cons.prems by (intro Cons.IH) simp_all
  also have "wr_bytes (wr_bytes m ptr ?h) (ptr + word_of_nat (length ?h)) ?r = wr_bytes m ptr (?h @ ?r)"
    by (rule wr_bytes_after) (use Cons.prems(3) in simp)
  finally show ?case using step by simp
qed

subsection \<open>writemem1\<close>

text \<open>\<open>do_writemem1\<close> copies its first argument to the array \<open>text\<close> of 64 characters on the stack, here at
  the parameter \<open>text\<close>, and then to memory; \<open>strlen\<close> is called again in every round.\<close>

definition writemem1_text :: "mem \<Rightarrow> addr \<Rightarrow> addr \<Rightarrow> mem option" where
  "writemem1_text m text a =
     (case strlen m a of
        None \<Rightarrow> None
      | Some n \<Rightarrow>
          (let m = snd (memcpy m text a n)
           in map_option (\<lambda>n. m(text + n := 0)) (strlen m a)))"

partial_function (option) writemem1_loop :: "mem \<Rightarrow> addr \<Rightarrow> addr \<Rightarrow> u32 \<Rightarrow> mem option" where
  "writemem1_loop m text addr i =
     (case strlen m text of
        None \<Rightarrow> None
      | Some n \<Rightarrow>
          if i < n then writemem1_loop (m(addr + i := m (text + i))) text addr (i + 1) else Some m)"

definition do_writemem1_cmd :: "mem \<Rightarrow> addr \<Rightarrow> addr list \<Rightarrow> mem option" where
  "do_writemem1_cmd m text argv =
     (case argv of
        a # b # _ \<Rightarrow>
          (case writemem1_text m text a of
             None \<Rightarrow> None
           | Some m \<Rightarrow>
               (case stdlib_strtoul m b 16 of None \<Rightarrow> None | Some (addr, _) \<Rightarrow> writemem1_loop m text addr 0))
      | _ \<Rightarrow> Some m)"

text \<open>An argument of 64 characters or more is copied past the end of the array.\<close>

lemma writemem1_overruns:
  assumes c: "cstr m a t" and l: "64 \<le> length t" "length t < 2 ^ 31"
    and no: "no_overlap text (Suc (length t)) a (Suc (length t))"
  shows "\<exists>m'. writemem1_text m text a = Some m' \<and> m' (text + 64) = (t @ [0]) ! 64
    \<and> rd_bytes m' text (Suc (length t)) = t @ [0]"
proof -
  have s: "strlen m a = Some (word_of_nat (length t))" by (rule strlen_cstr [OF c])
  have n: "unat (word_of_nat (length t) :: u32) = length t" using l(2) by (intro unat_of_nat32) simp
  have t: "rd_bytes m a (length t) = t" using c cstr_append [of m a t "[]"] by simp
  have le: "length t \<le> unat (text - a)"
  proof (rule ccontr)
    assume "\<not> length t \<le> unat (text - a)"
    then have k: "unat (text - a) < Suc (length t)" by simp
    have "text + word_of_nat 0 = a + word_of_nat (unat (text - a))" by simp
    then show False using no k unfolding no_overlap_def by (metis zero_less_Suc)
  qed
  let ?m = "wr_bytes m text t"
  have cp: "snd (memcpy m text a (word_of_nat (length t))) = ?m"
    using memcpy_eq [of "text" a "word_of_nat (length t)" m] le n t by simp
  have "cstr ?m a t"
  proof -
    have "?m (a + word_of_nat i) = m (a + word_of_nat i)" if "i \<le> length t" for i
    proof (rule wr_bytes_other, rule ccontr)
      assume "\<not> length t \<le> unat (a + word_of_nat i - text)"
      then have k: "unat (a + word_of_nat i - text) < Suc (length t)" by simp
      have "text + word_of_nat (unat (a + word_of_nat i - text)) = a + word_of_nat i" by simp
      then show False using no k that unfolding no_overlap_def by (metis le_imp_less_Suc)
    qed
    then have "cstr ?m a t = cstr m a t" by (rule cstr_cong)
    then show ?thesis using c by simp
  qed
  then have "strlen ?m a = Some (word_of_nat (length t))" by (rule strlen_cstr)
  moreover have "?m(text + word_of_nat (length t) := 0) = wr_bytes m text (t @ [0])"
    by (rule wr_bytes_snoc) (use l in simp)
  ultimately have w: "writemem1_text m text a = Some (wr_bytes m text (t @ [0]))"
    unfolding writemem1_text_def s using cp by simp
  have r: "rd_bytes (wr_bytes m text (t @ [0])) text (length (t @ [0])) = t @ [0]"
    by (rule rd_wr_bytes) (use l in simp)
  have "rd_bytes (wr_bytes m text (t @ [0])) text (length (t @ [0])) ! 64 = wr_bytes m text (t @ [0]) (text + word_of_nat 64)"
    by (rule nth_rd_bytes) (use l in simp)
  with r w show ?thesis by simp
qed

subsection \<open>The property\<close>

text \<open>
  Claim C25. \<open>writemem\<close> writes all its bytes or none. The address has at most 8 hexadecimal digits. When every argument behind it is one
  hexadecimal digit or pairs of digits, the bytes they stand for are written in their order from the
  address on and no other byte is changed; when one is not, the command ends with its message before the
  first write. The texts must lie outside the bytes written.
\<close>

theorem writemem_all_or_nothing:
  fixes t0 ts
  defines "v \<equiv> word_of_int (value_of 16 0 (map fromhex t0))" and "bs \<equiv> concat (map hex_bytes ts)"
  assumes a0: "cstr m a0 t0" "t0 \<noteq> []" "length t0 \<le> 8" "\<forall>c \<in> set t0. 0 \<le> fromhex c"
    and args: "list_all2 (text_outside m v (length bs)) args ts" "\<forall>t \<in> set ts. t \<noteq> [] \<and> length t < 2 ^ 31"
    and len: "length bs < 2 ^ 32"
  shows "\<exists>e. do_writemem m a0 args = Some (if \<forall>t \<in> set ts. hex_text t then Inr (wr_bytes m v bs) else Inl e)"
proof -
  obtain e where a: "stdlib_strtoul m a0 16 = Some (v, e)" using strtoul_hex [OF a0] unfolding v_def by blast
  have "list_all2 (cstr m) args ts" by (rule list_all2_mono [OF args(1)]) (simp add: text_outside_def)
  then obtain r where r: "check_args m args = Some r" "r = None \<longleftrightarrow> (\<forall>t \<in> set ts. hex_text t)"
    using check_args_cstr [OF _ args(2)] by blast
  show ?thesis
  proof (cases r)
    case None
    have "write_args m v args = Some (wr_bytes m v bs)"
      unfolding bs_def by (rule write_args_bytes) (use args len r(2) None in \<open>simp_all add: bs_def\<close>)
    then show ?thesis using a r None by (simp add: do_writemem_def)
  next
    case (Some x)
    then show ?thesis using a r by (simp add: do_writemem_def)
  qed
qed

theorem writemem_all_or_nothing_witness:
  "let m = wr_bytes (\<lambda>_. 0) 0x1000 (name_bytes ''6000'' @ 0 # name_bytes ''7'' @ 0 # name_bytes ''12aB'')
   in do_writemem m 0x1000 [0x1005, 0x1007] = Some (Inr (wr_bytes m 0x6000 [0x07, 0x12, 0xAB]))"
proof -
  let ?m = "wr_bytes (\<lambda>_. 0) 0x1000 (name_bytes ''6000'' @ 0 # name_bytes ''7'' @ 0 # name_bytes ''12aB'') :: mem"
  let ?ts = "[name_bytes ''7'', name_bytes ''12aB'']"
  have v: "word_of_int (value_of 16 0 (map fromhex (name_bytes ''6000''))) = (0x6000 :: addr)"
    by (simp add: name_bytes_def fromhex_def)
  have bs: "concat (map hex_bytes ?ts) = [0x07, 0x12, 0xAB]" by (simp add: name_bytes_def fromhex_def)
  have h: "\<forall>t \<in> set ?ts. hex_text t" by (simp add: name_bytes_def hex_text_def fromhex_def)
  have a: "cstr ?m 0x1000 (name_bytes ''6000'')" by (simp add: name_bytes_def wr_bytes_def)
  have b: "\<forall>c \<in> set (name_bytes ''6000''). 0 \<le> fromhex c" by (simp add: name_bytes_def fromhex_def)
  have t: "list_all2 (text_outside ?m 0x6000 (length [0x07, 0x12, 0xAB :: u8])) [0x1005, 0x1007] ?ts"
    by (simp add: text_outside_iff name_bytes_def wr_bytes_def upt_conv_Cons)
  show ?thesis
    using writemem_all_or_nothing [OF a _ _ b, of ?ts "[0x1005, 0x1007]", unfolded v bs] t h
    by (simp add: name_bytes_def Let_def)
qed

end
