(* ===== verification/ElfFormat.thy ===== *)
theory ElfFormat
  imports LoaderImage
begin

text \<open>
  What an ELF file describes, written from the format of the files and from nothing of the loaders:
  the executable for the machine, its segments, its GOT and its relocations, and the memory they give.
  The loader of \<open>Loader\<close> is shown to read exactly this; \<open>ShellElf\<close> uses it for the loaders of the ROM.
\<close>

subsection \<open>The format\<close>

text \<open>
  Numbers are big-endian, and the fields are at the offsets of the specification (e_type 16, e_machine
  18, e_entry 24, e_phoff 28, e_shoff 32, e_phentsize 42, e_phnum 44, e_shentsize 46, e_shnum 48,
  e_shstrndx 50; p_type 0, p_offset 4, p_paddr 12, p_filesz 16, p_memsz 20; sh_name 0, sh_addr 12,
  sh_offset 16, sh_size 20; r_offset 0, r_info 4).
\<close>

definition elf_number :: "u8 list \<Rightarrow> nat" where
  "elf_number bs = foldl (\<lambda>a b. 256 * a + unat b) 0 bs"

definition elf_word :: "u8 list \<Rightarrow> nat \<Rightarrow> u32" where
  "elf_word img k = word_of_nat (elf_number (take 4 (drop k img)))"

definition elf_half :: "u8 list \<Rightarrow> nat \<Rightarrow> u32" where
  "elf_half img k = word_of_nat (elf_number (take 2 (drop k img)))"

definition inside :: "u8 list \<Rightarrow> nat \<Rightarrow> nat \<Rightarrow> bool" where
  "inside img k n \<longleftrightarrow> n = 0 \<or> k + n \<le> length img"

text \<open>A 32-bit big-endian executable (type 2) for the 68000 (machine 4).\<close>

definition executable_68000 :: "u8 list \<Rightarrow> bool" where
  "executable_68000 img \<longleftrightarrow> 52 \<le> length img \<and> take 7 img = [0x7F, 0x45, 0x4C, 0x46, 1, 2, 1]
     \<and> elf_half img 16 = 2 \<and> elf_half img 18 = 4"

definition program_header_offset :: "u8 list \<Rightarrow> nat \<Rightarrow> nat" where
  "program_header_offset img i = unat (elf_word img 28 + word_of_nat i * elf_half img 42)"

definition section_header_offset :: "u8 list \<Rightarrow> nat \<Rightarrow> nat" where
  "section_header_offset img i = unat (elf_word img 32 + word_of_nat i * elf_half img 46)"

text \<open>The PT_LOAD headers (type 1), and what is asked of every program header: it is in the file, it is
  neither dynamic (2) nor of a shared library (5) nor the name of an interpreter (3), and the bytes of
  a segment to load are in the file.\<close>

definition load_indices :: "u8 list \<Rightarrow> nat list" where
  "load_indices img = filter (\<lambda>i. elf_word img (program_header_offset img i) = 1) [0..<unat (elf_half img 44)]"

definition complete_program_header :: "u8 list \<Rightarrow> nat \<Rightarrow> bool" where
  "complete_program_header img i \<longleftrightarrow> (let k = program_header_offset img i
     in inside img k 32 \<and> elf_word img k \<notin> {2, 3, 5}
       \<and> (elf_word img k = 1 \<longrightarrow> inside img (unat (elf_word img (k + 4))) (unat (elf_word img (k + 16)))))"

definition copy_segment :: "u8 list \<Rightarrow> u32 \<Rightarrow> nat \<Rightarrow> mem \<Rightarrow> mem" where
  "copy_segment img base i m = (let k = program_header_offset img i; filesz = unat (elf_word img (k + 16))
     in wr_bytes m (base + elf_word img (k + 12))
          (take filesz (drop (unat (elf_word img (k + 4))) img) @ replicate (unat (elf_word img (k + 20)) - filesz) 0))"

text \<open>The sections whose name begins with .got, and the hull of their addresses.\<close>

definition section_name :: "u8 list \<Rightarrow> nat \<Rightarrow> u8 list" where
  "section_name img i = drop (unat (elf_word img (section_header_offset img (unat (elf_half img 50)) + 16)
     + elf_word img (section_header_offset img i))) img"

definition got_indices :: "u8 list \<Rightarrow> nat list" where
  "got_indices img = filter (\<lambda>i. take 4 (section_name img i) = [0x2E, 0x67, 0x6F, 0x74]) [0..<unat (elf_half img 48)]"

definition complete_sections :: "u8 list \<Rightarrow> bool" where
  "complete_sections img \<longleftrightarrow> inside img (section_header_offset img (unat (elf_half img 50))) 40
     \<and> list_all (\<lambda>i. inside img (section_header_offset img i) 40) [0..<unat (elf_half img 48)]"

definition got_start :: "u8 list \<Rightarrow> u32" where
  "got_start img = Min (set (map (\<lambda>i. elf_word img (section_header_offset img i + 12)) (got_indices img)))"

definition got_end :: "u8 list \<Rightarrow> u32" where
  "got_end img = Max (set (map (\<lambda>i. elf_word img (section_header_offset img i + 12)
     + elf_word img (section_header_offset img i + 20)) (got_indices img)))"

text \<open>The longwords that the entries of type R_68K_32 (1) of the first section .rela.data name. A name is
  read up to its null byte, of 15 bytes at most.\<close>

definition rela_offsets :: "u8 list \<Rightarrow> u32 list" where
  "rela_offsets img =
     (case find (\<lambda>i. takeWhile (\<lambda>c. c \<noteq> 0) (take 15 (section_name img i))
                     = [0x2E, 0x72, 0x65, 0x6C, 0x61, 0x2E, 0x64, 0x61, 0x74, 0x61]) [0..<unat (elf_half img 48)] of
        None \<Rightarrow> []
      | Some i \<Rightarrow> (let k = section_header_offset img i;
            entry = (\<lambda>r. unat (elf_word img (k + 16) + 12 * word_of_nat r))
          in map (\<lambda>r. elf_word img (entry r))
               (filter (\<lambda>r. inside img (entry r) 12 \<and> elf_word img (entry r + 4) AND 0xFF = 1)
                  [0..<unat (elf_word img (k + 20)) div 12])))"

definition add_base :: "u32 \<Rightarrow> mem \<Rightarrow> addr \<Rightarrow> mem" where
  "add_base base m a = wr32 m a (rd32 m a + base)"

definition relocated :: "u8 list \<Rightarrow> u32 \<Rightarrow> mem \<Rightarrow> mem" where
  "relocated img base m =
     foldl (add_base base)
       (foldl (add_base base) m
          (map (\<lambda>w. base + got_start img + 4 * word_of_nat w) [0..<unat (got_end img - got_start img) div 4]))
       (map ((+) base) (rela_offsets img))"

definition pic_executable :: "u8 list \<Rightarrow> bool" where
  "pic_executable img \<longleftrightarrow> executable_68000 img
     \<and> list_all (complete_program_header img) [0..<unat (elf_half img 44)]
     \<and> length (load_indices img) = 2 \<and> complete_sections img \<and> got_indices img \<noteq> []"

subsection \<open>The loader reads the format\<close>

lemma push_byte: "push_bit 8 (x :: 'a::len word) OR ucast (b :: u8) = 256 * x + ucast b"
proof -
  have "\<not> bit (push_bit 8 x) n \<or> \<not> bit (ucast b :: 'a word) n" for n
    by (auto simp: bit_simps dest: bit_imp_le_length)
  then have "push_bit 8 x + ucast b = push_bit 8 x OR ucast b" by (simp add: disjunctive_add)
  then show ?thesis by (simp add: push_bit_eq_mult mult.commute)
qed

lemma be32_number: "be32 b k = ((ucast (b ! k) * 256 + ucast (b ! (k + 1))) * 256 + ucast (b ! (k + 2))) * 256 + ucast (b ! (k + 3))"
proof -
  have "be32 b k = push_bit 8 (push_bit 8 (push_bit 8 (ucast (b ! k)) OR ucast (b ! (k + 1))) OR ucast (b ! (k + 2))) OR ucast (b ! (k + 3))"
    by (simp add: be32_def push_bit_or or.assoc)
  then show ?thesis by (simp add: push_byte mult.commute)
qed

lemma take_drop_4: "k + 4 \<le> length b \<Longrightarrow> take 4 (drop k b) = [b ! k, b ! (k + 1), b ! (k + 2), b ! (k + 3)]"
  by (simp add: numeral_eq_Suc take_Suc_conv_app_nth)

lemma take_drop_2: "k + 2 \<le> length b \<Longrightarrow> take 2 (drop k b) = [b ! k, b ! (k + 1)]"
  by (simp add: numeral_eq_Suc take_Suc_conv_app_nth)

lemma be32_bytes_at:
  assumes "k + 4 \<le> length (bytes_at img ofs n)"
  shows "be32 (bytes_at img ofs n) k = elf_word img (unat ofs + k)"
proof -
  have l: "unat ofs + k + 4 \<le> length img" "k + 4 \<le> unat n" using assms by (auto simp: bytes_at_def)
  then show ?thesis
    by (simp add: elf_word_def elf_number_def take_drop_4 be32_number bytes_at_def add.assoc)
qed

lemma be16_bytes_at:
  assumes "k + 2 \<le> length (bytes_at img ofs n)"
  shows "ucast (be16 (bytes_at img ofs n) k) = elf_half img (unat ofs + k)"
    "unat (be16 (bytes_at img ofs n) k) = unat (elf_half img (unat ofs + k))"
proof -
  have l: "unat ofs + k + 2 \<le> length img" "k + 2 \<le> unat n" using assms by (auto simp: bytes_at_def)
  let ?a = "img ! (unat ofs + k)" and ?b = "img ! (unat ofs + k + 1)"
  have e16: "be16 (bytes_at img ofs n) k = (256 * ucast ?a + ucast ?b :: u16)"
    using l by (simp add: be16_def bytes_at_def push_byte add.assoc)
  have "unat ?a < 2 ^ LENGTH(8)" "unat ?b < 2 ^ LENGTH(8)" by (rule unsigned_less)+
  then have ab: "unat ?a < 256" "unat ?b < 256" by simp_all
  have m: "(256 * (x mod 65536) mod 65536 + y mod 65536) mod 65536 = 256 * x + y" if "x < 256" "y < 256" for x y :: nat
    using that by simp
  have m32: "(256 * x + y) mod 2 ^ 32 = 256 * x + y" if "x < 256" "y < 256" for x y :: nat
    using that by simp
  have "unat (256 * ucast ?a + ucast ?b :: u16) = 256 * unat ?a + unat ?b"
    using m [OF ab] by (simp add: unat_word_ariths unsigned_ucast_eq take_bit_eq_mod)
  then have u: "unat (be16 (bytes_at img ofs n) k) = 256 * unat ?a + unat ?b" by (simp only: e16)
  have e: "elf_half img (unat ofs + k) = word_of_nat (256 * unat ?a + unat ?b)"
    using l by (simp add: elf_half_def elf_number_def take_drop_2 add.assoc)
  show "ucast (be16 (bytes_at img ofs n) k) = elf_half img (unat ofs + k)"
    unfolding e by (metis u of_nat_unat)
  show "unat (be16 (bytes_at img ofs n) k) = unat (elf_half img (unat ofs + k))"
    unfolding u e unat_of_nat using m32 [OF ab] by simp
qed

lemma readable_inside: "readable img ofs n = inside img (unat ofs) (unat n)"
  by (auto simp: readable_def inside_def bytes_at_def min_def)

lemma header_fields:
  assumes "readable img 0 52"
  defines "h \<equiv> parse_header (bytes_at img 0 52)"
  shows "e_entry h = elf_word img 24" "e_phoff h = elf_word img 28" "e_shoff h = elf_word img 32"
    "ucast (e_phentsize h) = elf_half img 42" "unat (e_phnum h) = unat (elf_half img 44)"
    "ucast (e_shentsize h) = elf_half img 46" "unat (e_shnum h) = unat (elf_half img 48)"
    "ucast (e_shstrndx h) = elf_half img 50"
proof -
  have l: "length (bytes_at img 0 52) = 52" using assms(1) by (simp add: readable_def)
  show "e_entry h = elf_word img 24" "e_phoff h = elf_word img 28" "e_shoff h = elf_word img 32"
    by (simp_all add: h_def parse_header_def l be32_bytes_at)
  show "ucast (e_phentsize h) = elf_half img 42" "unat (e_phnum h) = unat (elf_half img 44)"
    "ucast (e_shentsize h) = elf_half img 46" "unat (e_shnum h) = unat (elf_half img 48)"
    "ucast (e_shstrndx h) = elf_half img 50"
    by (simp_all add: h_def parse_header_def l be16_bytes_at)
qed

lemma take_7: "7 \<le> length img \<Longrightarrow> take 7 img = [img ! 0, img ! 1, img ! 2, img ! 3, img ! 4, img ! 5, img ! 6]"
proof -
  assume "7 \<le> length img"
  then have "take 7 img = map ((!) img) [0..<7]" by (intro nth_equalityI) simp_all
  then show ?thesis by (simp add: upt_conv_Cons numeral_eq_Suc del: upt_Suc)
qed

lemma check_header_executable:
  assumes "readable img 0 52"
  shows "check_header (bytes_at img 0 52) = None \<longleftrightarrow> executable_68000 img"
proof -
  let ?b = "bytes_at img 0 52"
  have l: "length ?b = 52" "52 \<le> length img" using assms by (simp_all add: readable_def bytes_at_def)
  have u: "unat (be16 ?b 16) = unat (elf_half img 16)" "unat (be16 ?b 18) = unat (elf_half img 18)"
    using be16_bytes_at(2) [of 16 img 0 52] be16_bytes_at(2) [of 18 img 0 52] l by simp_all
  have t: "be16 ?b 16 = 2 \<longleftrightarrow> elf_half img 16 = 2" "be16 ?b 18 = 4 \<longleftrightarrow> elf_half img 18 = 4"
    using u by (auto simp: unsigned_word_eqI word_unat_eq_iff)
  have n: "?b ! i = img ! i" if "i < 52" for i using that l by (simp add: bytes_at_def)
  show ?thesis
    by (simp add: check_header_def executable_68000_def take_7 [OF order_trans [OF _ l(2)]] l t n ET_EXEC_def EM_68K_def ID_32BIT_def ID_BIG_ENDIAN_def) auto
qed

lemma header_offsets:
  assumes "readable img 0 52"
  defines "h \<equiv> parse_header (bytes_at img 0 52)"
  shows "unat (word_of_nat i * ucast (e_phentsize h) + e_phoff h) = program_header_offset img i"
    "unat (word_of_nat i * ucast (e_shentsize h) + e_shoff h) = section_header_offset img i"
    "unat (ucast (e_shstrndx h) * ucast (e_shentsize h) + e_shoff h) = section_header_offset img (unat (elf_half img 50))"
  by (simp_all add: h_def program_header_offset_def section_header_offset_def header_fields [OF assms(1)] add.commute)

lemma program_header_fields:
  assumes "readable img 0 52" and "inside img (program_header_offset img i) 32"
  defines "p \<equiv> program_header_at img (parse_header (bytes_at img 0 52)) i" and "k \<equiv> program_header_offset img i"
  shows "p_type p = elf_word img k" "p_offset p = elf_word img (k + 4)" "p_paddr p = elf_word img (k + 12)"
    "p_filesz p = elf_word img (k + 16)" "p_memsz p = elf_word img (k + 20)"
proof -
  let ?h = "parse_header (bytes_at img 0 52)"
  let ?o = "word_of_nat i * ucast (e_phentsize ?h) + e_phoff ?h"
  have o: "unat ?o = k" using header_offsets(1) [OF assms(1)] by (simp add: k_def)
  have "readable img ?o 32" using assms(2) o by (simp add: readable_inside k_def)
  then have "length (bytes_at img ?o 32) = 32" by (simp add: readable_def)
  then show "p_type p = elf_word img k" "p_offset p = elf_word img (k + 4)" "p_paddr p = elf_word img (k + 12)"
    "p_filesz p = elf_word img (k + 16)" "p_memsz p = elf_word img (k + 20)"
    by (simp_all add: p_def program_header_at_def parse_program_header_def be32_bytes_at o)
qed

lemma loadable_header_complete:
  assumes "readable img 0 52"
  shows "loadable_header img (parse_header (bytes_at img 0 52)) i = complete_program_header img i"
proof (cases "inside img (program_header_offset img i) 32")
  case True
  then show ?thesis
    using header_offsets(1) [OF assms, of i] program_header_fields [OF assms True]
    by (simp add: loadable_header_def complete_program_header_def readable_inside Let_def PT_DYNAMIC_def PT_SHLIB_def
        PT_INTERP_def PT_LOAD_def) auto
next
  case False
  then show ?thesis
    using header_offsets(1) [OF assms, of i]
    by (simp add: loadable_header_def complete_program_header_def readable_inside Let_def)
qed

lemma loads_indices:
  assumes rd: "readable img 0 52" and c: "list_all (complete_program_header img) [0..<unat (elf_half img 44)]"
  defines "h \<equiv> parse_header (bytes_at img 0 52)"
  shows "loads img h = map (program_header_at img h) (load_indices img)"
proof -
  have "p_type (program_header_at img h i) = elf_word img (program_header_offset img i)"
    if "i < unat (elf_half img 44)" for i
  proof -
    have "inside img (program_header_offset img i) 32"
      using c that by (simp add: list_all_iff complete_program_header_def Let_def)
    then show ?thesis using program_header_fields(1) [OF rd] by (simp add: h_def)
  qed
  then have "filter (\<lambda>i. p_type (program_header_at img h i) = PT_LOAD) [0..<unat (elf_half img 44)] = load_indices img"
    unfolding load_indices_def by (intro filter_cong) (simp_all add: PT_LOAD_def)
  then show ?thesis by (simp add: loads_def filter_map comp_def header_fields(5) [OF rd] h_def)
qed

lemma place_copy:
  assumes "readable img 0 52" and "complete_program_header img i"
  shows "place img base (program_header_at img (parse_header (bytes_at img 0 52)) i) m = copy_segment img base i m"
proof -
  have i: "inside img (program_header_offset img i) 32"
    using assms(2) by (simp add: complete_program_header_def Let_def)
  show ?thesis
    unfolding place_def copy_segment_def Let_def program_header_fields [OF assms(1) i]
    unfolding bytes_at_def ..
qed

subsection \<open>Sections\<close>

lemma sections_readable_complete:
  assumes "readable img 0 52"
  shows "sections_readable img (parse_header (bytes_at img 0 52)) = complete_sections img"
  by (simp add: sections_readable_def complete_sections_def readable_inside header_offsets [OF assms]
      header_fields(7) [OF assms])

lemma section_fields:
  assumes rd: "readable img 0 52" and "inside img (section_header_offset img i) 40" and "k + 4 \<le> 40"
  shows "be32 (section_at img (parse_header (bytes_at img 0 52)) i) k = elf_word img (section_header_offset img i + k)"
proof -
  let ?h = "parse_header (bytes_at img 0 52)"
  let ?o = "word_of_nat i * ucast (e_shentsize ?h) + e_shoff ?h"
  have o: "unat ?o = section_header_offset img i" using header_offsets(2) [OF rd] .
  have "readable img ?o 40" using assms(2) o by (simp add: readable_inside)
  then have "length (bytes_at img ?o 40) = 40" by (simp add: readable_def)
  then show ?thesis using assms(3) by (simp add: section_at_def be32_bytes_at o)
qed

lemma name_at_section_name:
  assumes rd: "readable img 0 52" and c: "complete_sections img" and i: "i < unat (elf_half img 48)"
  shows "name_at img (parse_header (bytes_at img 0 52)) n i = take (unat n) (section_name img i)"
proof -
  let ?h = "parse_header (bytes_at img 0 52)"
  let ?o = "ucast (e_shstrndx ?h) * ucast (e_shentsize ?h) + e_shoff ?h"
  have o: "unat ?o = section_header_offset img (unat (elf_half img 50))" using header_offsets(3) [OF rd] .
  have "readable img ?o 40" using c o by (simp add: complete_sections_def readable_inside)
  then have "length (bytes_at img ?o 40) = 40" by (simp add: readable_def)
  then have s: "strtab_of img ?h = elf_word img (section_header_offset img (unat (elf_half img 50)) + 16)"
    by (simp add: strtab_of_def be32_bytes_at o)
  have "inside img (section_header_offset img i) 40" using c i by (simp add: complete_sections_def list_all_iff)
  from section_fields [OF rd this, of 0]
  show ?thesis unfolding name_at_def s section_name_def by (simp add: bytes_at_def [of img "_ + _"])
qed

lemma got_sections_indices:
  assumes rd: "readable img 0 52" and c: "complete_sections img"
  defines "h \<equiv> parse_header (bytes_at img 0 52)"
  shows "got_sections img h = map (section_at img h) (got_indices img)"
    "got_low (got_sections img h) = got_start img" "got_high (got_sections img h) = got_end img"
proof -
  have "filter (\<lambda>i. take 4 (name_at img h 9 i) = got_prefix) [0..<unat (elf_half img 48)] = got_indices img"
    unfolding got_indices_def
    by (intro filter_cong) (simp_all add: h_def name_at_section_name [OF rd c] got_prefix_def)
  then show g: "got_sections img h = map (section_at img h) (got_indices img)"
    by (simp add: got_sections_def header_fields(7) [OF rd] h_def)
  have f: "be32 (section_at img h i) k = elf_word img (section_header_offset img i + k)"
    if "i \<in> set (got_indices img)" "k + 4 \<le> 40" for i k
    using section_fields [OF rd _ that(2), of i] that(1) c unfolding h_def
    by (simp add: got_indices_def complete_sections_def list_all_iff)
  show "got_low (got_sections img h) = got_start img" "got_high (got_sections img h) = got_end img"
    unfolding got_low_def got_start_def got_high_def got_end_def g
    by (simp_all add: image_image f cong: image_cong)
qed

text \<open>The two patching loops add the base of the slot to the longwords of a list.\<close>

lemma patch_got_add:
  "patch_got m base got n = foldl (add_base base) m (map (\<lambda>w. got + 4 * word_of_nat w) [0..<n])"
proof (induction n arbitrary: m got)
  case (Suc n)
  have "map (\<lambda>w. got + 4 * word_of_nat w) [0..<Suc n] = got # map (\<lambda>w. got + 4 + 4 * word_of_nat w) [0..<n]"
    by (simp add: upt_conv_Cons map_Suc_upt [symmetric] algebra_simps del: upt_Suc)
  then show ?case by (simp add: Suc add_base_def del: upt_Suc)
qed simp

lemma apply_rela_add:
  assumes "list_all (\<lambda>b. length b = 12) bs"
  shows "foldl (apply_rela base) m bs
    = foldl (add_base base) m (map (\<lambda>b. base + be32 b 0) (filter (\<lambda>b. be32 b 4 AND 0xFF = 1) bs))"
  using assms by (induction bs arbitrary: m) (simp_all add: apply_rela_def add_base_def Let_def)

lemma rela_at_fields:
  assumes "length (rela_at img sec r) = 12" and "be32 sec 0x10 = ofs"
  shows "be32 (rela_at img sec r) 0 = elf_word img (unat (ofs + 12 * word_of_nat r))"
    "be32 (rela_at img sec r) 4 = elf_word img (unat (ofs + 12 * word_of_nat r) + 4)"
  using assms by (simp_all add: rela_at_def be32_bytes_at mult.commute)

lemma data_relas_offsets:
  assumes rd: "readable img 0 52" and c: "complete_sections img"
  defines "h \<equiv> parse_header (bytes_at img 0 52)"
  shows "foldl (apply_rela base) m (data_relas img h) = foldl (add_base base) m (map ((+) base) (rela_offsets img))"
proof -
  let ?P = "\<lambda>i. takeWhile (\<lambda>c. c \<noteq> 0) (take 15 (section_name img i)) = rela_data"
  let ?n = "unat (elf_half img 48)"
  have "find (\<lambda>i. readable img (word_of_nat i * ucast (e_shentsize h) + e_shoff h) 40
      \<and> takeWhile (\<lambda>c. c \<noteq> 0) (name_at img h 15 i) = rela_data) [0..<?n] = find ?P [0..<?n]"
    using c by (intro find_cong) (simp_all add: h_def name_at_section_name [OF rd c] readable_inside header_offsets [OF rd]
        complete_sections_def list_all_iff)
  moreover have "foldl (apply_rela base) m (filter (\<lambda>b. length b = 12)
        (map (rela_at img (section_at img h i)) [0..<unat (be32 (section_at img h i) 0x14 div 12)]))
    = foldl (add_base base) m (map ((+) base) (let k = section_header_offset img i;
            entry = (\<lambda>r. unat (elf_word img (k + 16) + 12 * word_of_nat r))
          in map (\<lambda>r. elf_word img (entry r))
               (filter (\<lambda>r. inside img (entry r) 12 \<and> elf_word img (entry r + 4) AND 0xFF = 1)
                  [0..<unat (elf_word img (k + 20)) div 12])))" (is "?L = foldl _ _ (map _ ?R)")
    if i: "i < ?n" for i
  proof -
    have "inside img (section_header_offset img i) 40" using c i by (simp add: complete_sections_def list_all_iff)
    note f = section_fields [OF rd this, folded h_def]
    let ?sec = "section_at img h i" and ?e = "\<lambda>r. unat (elf_word img (section_header_offset img i + 16) + 12 * word_of_nat r)"
    have o: "be32 ?sec 16 = elf_word img (section_header_offset img i + 16)" "be32 ?sec 20 = elf_word img (section_header_offset img i + 20)"
      using f by simp_all
    have l: "length (rela_at img ?sec r) = 12 \<longleftrightarrow> inside img (?e r) 12" for r
      using readable_inside [of img "be32 ?sec 16 + word_of_nat r * 12" 12]
      by (simp add: rela_at_def readable_def o mult.commute)
    have "?L = foldl (add_base base) m (map (\<lambda>b. base + be32 b 0) (filter (\<lambda>b. be32 b 4 AND 0xFF = 1)
        (filter (\<lambda>b. length b = 12) (map (rela_at img ?sec) [0..<unat (be32 ?sec 0x14 div 12)]))))"
      by (rule apply_rela_add) (simp add: list_all_iff)
    also have "map (\<lambda>b. base + be32 b 0) (filter (\<lambda>b. be32 b 4 AND 0xFF = 1)
        (filter (\<lambda>b. length b = 12) (map (rela_at img ?sec) [0..<unat (be32 ?sec 0x14 div 12)])))
      = map (\<lambda>r. base + be32 (rela_at img ?sec r) 0) (filter (\<lambda>r. length (rela_at img ?sec r) = 12
          \<and> be32 (rela_at img ?sec r) 4 AND 0xFF = 1) [0..<unat (be32 ?sec 0x14 div 12)])"
      by (simp add: filter_map comp_def conj_commute)
    also have "\<dots> = map ((+) base) ?R"
    proof -
      have "filter (\<lambda>r. length (rela_at img ?sec r) = 12 \<and> be32 (rela_at img ?sec r) 4 AND 0xFF = 1) xs
        = filter (\<lambda>r. inside img (?e r) 12 \<and> elf_word img (?e r + 4) AND 0xFF = 1) xs" for xs
        by (intro filter_cong refl) (metis l rela_at_fields(2) o(1))
      moreover have "be32 (rela_at img ?sec r) 0 = elf_word img (?e r)" if "inside img (?e r) 12" for r
        by (rule rela_at_fields(1)) (use that l o(1) in simp_all)
      ultimately show ?thesis by (auto simp: Let_def comp_def o unat_div)
    qed
    finally show ?thesis .
  qed
  moreover have "find ?P [0..<?n] = Some i \<Longrightarrow> i < ?n" for i by (auto simp: find_Some_iff)
  ultimately show ?thesis
    by (simp add: data_relas_def rela_offsets_def header_fields(7) [OF rd] h_def rela_data_def split: option.split)
qed

lemma relocate_relocated:
  assumes rd: "readable img 0 52" and c: "complete_sections img"
  shows "relocate img (parse_header (bytes_at img 0 52)) base m = relocated img base m"
  using data_relas_offsets [OF assms] got_sections_indices [OF assms]
  by (simp add: relocate_def relocated_def Let_def patch_got_add unat_div)

lemma loadable_pic_executable:
  "loadable img = pic_executable img"
proof (cases "readable img 0 52")
  case True
  have "loadable_header img (parse_header (bytes_at img 0 52)) = complete_program_header img"
    using loadable_header_complete [OF True] by (rule ext)
  then show ?thesis
    using check_header_executable [OF True] loads_indices [OF True]
      sections_readable_complete [OF True] got_sections_indices(1) [OF True] header_fields(5) [OF True]
    by (auto simp: loadable_def pic_executable_def Let_def True)
next
  case False
  then show ?thesis by (simp add: loadable_def pic_executable_def executable_68000_def readable_inside inside_def)
qed

lemma load_image_pic_executable:
  assumes "clean_file F img good" and "good f"
  shows "\<exists>r ls. load_image F base m f = (r, ls) \<and> (case r of
      Inl e \<Rightarrow> \<not> pic_executable img
    | Inr h \<Rightarrow> pic_executable img \<and> e_entry h = elf_word img 24 \<and> got_addr_saved ls = got_start img
        \<and> (\<exists>txt dat. load_indices img = [txt, dat]
             \<and> lmem ls = relocated img base (copy_segment img base dat (copy_segment img base txt m))))"
proof -
  let ?h = "parse_header (bytes_at img 0 52)"
  obtain r ls where R: "load_image F base m f = (r, ls)" "case r of Inl e \<Rightarrow> \<not> loadable img
    | Inr h \<Rightarrow> loadable img \<and> h = ?h \<and> got_addr_saved ls = got_low (got_sections img h)
        \<and> lmem ls = placed img h base 0 (loads img h) m"
    using load_image_clean [OF assms] by blast
  show ?thesis
  proof (cases r)
    case (Inr h)
    with R(2) have l: "loadable img" and h: "h = ?h" by auto
    then have rd: "readable img 0 52" by (simp add: loadable_def)
    have pic: "pic_executable img" using l by (simp add: loadable_pic_executable)
    then have c: "complete_sections img" "list_all (complete_program_header img) [0..<unat (elf_half img 44)]"
      and n: "length (load_indices img) = 2" by (simp_all add: pic_executable_def)
    from n obtain t d where td: "load_indices img = [t, d]" by (auto simp: numeral_2_eq_2 length_Suc_conv)
    then have "{t, d} \<subseteq> set [0..<unat (elf_half img 44)]" unfolding load_indices_def by (metis filter_is_subset list.simps(15) list.set(1))
    then have cp: "complete_program_header img t" "complete_program_header img d" using c(2) by (simp_all add: list_all_iff)
    have "lmem ls = relocated img base (copy_segment img base d (copy_segment img base t m))"
      using R(2) by (simp add: Inr h loads_indices [OF rd c(2)] td place_copy [OF rd] cp relocate_relocated [OF rd c(1)])
    then show ?thesis
      using R Inr pic td h header_fields(1) [OF rd] got_sections_indices(2) [OF rd c(1)] by auto
  next
    case (Inl e)
    then show ?thesis using R by (auto simp: loadable_pic_executable)
  qed
qed

lemma demo_pic_executable: "pic_executable demo_elf" "got_start demo_elf = 0x10"
  by code_simp+

subsection \<open>Property\<close>

text \<open>
  Claim C7. For a file read without errors the loader accepts exactly the executables it is made for: 52
  bytes of header of a 32-bit big-endian ELF file, version 1, of type 2 for machine 4; every program
  header in the file, none of type 2, 3 or 5, two of type 1 (PT_LOAD), and the bytes of those segments
  in the file; every section header in the file and at least one section whose name begins with .got.
  The memory is then the two segments at the base of the slot with their zeroed tails and, over them,
  the base added to every longword of the hull of the .got sections and then to every one that an
  entry of type 1 of .rela.data names. Entry point and GOT address are those of the file.
\<close>

theorem load_image_refines:
  assumes "clean_file F img good" and "good f"
  shows "\<exists>r ls. load_image F base m f = (r, ls) \<and> (case r of
      Inl e \<Rightarrow> \<not> pic_executable img
    | Inr h \<Rightarrow> pic_executable img \<and> e_entry h = elf_word img 24 \<and> got_addr_saved ls = got_start img
        \<and> (\<exists>txt dat. load_indices img = [txt, dat]
             \<and> lmem ls = relocated img base (copy_segment img base dat (copy_segment img base txt m))))"
  using assms by (rule load_image_pic_executable)

theorem load_image_refines_witness:
  "\<exists>h ls. load_image (list_file demo_elf) 0x92000 (\<lambda>_. 0) 0 = (Inr h, ls) \<and> got_addr_saved ls = 0x10"
proof -
  let ?run = "load_image (list_file demo_elf) 0x92000 (\<lambda>_. 0) 0"
  note P = load_image_refines [OF list_file_clean, where img = demo_elf and f = 0 and base = "0x92000" and m = "\<lambda>_. 0"]
  then obtain h where h: "fst ?run = Inr h" using demo_pic_executable(1) by (cases "fst ?run") auto
  then have "got_addr_saved (snd ?run) = 0x10" using P demo_pic_executable(2) by auto
  then show ?thesis using h by (metis prod.collapse)
qed

end
