(* ===== verification/ShellElf.thy ===== *)
theory ShellElf
  imports ElfFormat
begin

text \<open>
  The three loaders of absolute ELF programs in the ROM: \<open>load_elf_executable\<close> of
  \<open>orioncore/shell/shell.c\<close> with \<open>process_command_executable\<close>, which calls it, and \<open>carregar_elf32\<close> (from
  memory) and \<open>carregar_elf32_fatfs\<close> (from a file) of \<open>orioncore/shell/elf_loader.c\<close>. They place each
  PT_LOAD segment at its physical address; no base is added and there is no GOT.

  Headers, FatFs and the image of a segment are those of \<open>Loader\<close> and \<open>LoaderImage\<close>; \<open>fx_open\<close> and
  \<open>fx_close\<close> are f_open with FA_READ and f_close. Local buffers are byte lists. The call of the program
  at its entry point is the value \<open>Started\<close>, what the program then does is not modelled.
\<close>

subsection \<open>The loader of the shell\<close>

definition shell_check_header :: "u8 list \<Rightarrow> load_error option" where
  "shell_check_header b =
     (if b ! 0 \<noteq> 0x7F \<or> b ! 1 \<noteq> 0x45 \<or> b ! 2 \<noteq> 0x4C \<or> b ! 3 \<noteq> 0x46 \<or> b ! 6 \<noteq> 1 then Some Header_invalid
      else if b ! 4 \<noteq> ID_32BIT \<or> b ! 5 \<noteq> ID_BIG_ENDIAN \<or> b ! 7 \<noteq> 0 \<or> b ! 8 \<noteq> 0 then Some Not_32bit_big_endian
      else if be16 b 0x10 \<noteq> ET_EXEC then Some Not_executable
      else if be16 b 0x12 \<noteq> EM_68K then Some Not_68k
      else None)"

definition shell_load_segment :: "'f fil_ops \<Rightarrow> elf32_program_header \<Rightarrow> mem \<times> 'f \<Rightarrow> load_error option \<times> mem \<times> 'f" where
  "shell_load_segment F ph s =
     (case s of (m, f) \<Rightarrow>
        if p_type ph = PT_SHLIB \<or> p_type ph = PT_DYNAMIC then (Some Dynamically_linked, m, f)
        else if p_type ph = PT_LOAD then
          (case fl_read F (p_filesz ph) (fl_lseek F (p_offset ph) f) of
             (ok, bs, f) \<Rightarrow>
               let m = wr_bytes m (p_paddr ph) bs
               in if \<not> ok \<or> length bs \<noteq> unat (p_filesz ph) then (Some Segment_unreadable, m, f)
                  else (None, if p_memsz ph > p_filesz ph
                              then memset m (p_paddr ph + p_filesz ph) 0 (p_memsz ph - p_filesz ph) else m, f))
        else if p_type ph = PT_INTERP then (Some Needs_interpreter, m, f)
        else (None, m, f))"

primrec shell_load_segments :: "'f fil_ops \<Rightarrow> elf32_header \<Rightarrow> u32 \<Rightarrow> mem \<times> 'f \<Rightarrow> nat \<Rightarrow> load_error option \<times> mem \<times> 'f" where
  "shell_load_segments F h progIndex s 0 = (None, s)"
| "shell_load_segments F h progIndex s (Suc n) =
     (case read_exactly F (progIndex * ucast (e_phentsize h) + e_phoff h) 32 (snd s) of
        (None, f) \<Rightarrow> (Some Program_header_unreadable, fst s, f)
      | (Some ph, f) \<Rightarrow>
          (case shell_load_segment F (parse_program_header ph) (fst s, f) of
             (Some e, s) \<Rightarrow> (Some e, s)
           | (None, s) \<Rightarrow> shell_load_segments F h (progIndex + 1) s n))"

text \<open>The message and -1, or the entry point that is called.\<close>

definition load_elf_executable :: "'f fil_ops \<Rightarrow> mem \<Rightarrow> 'f \<Rightarrow> (load_error + addr) \<times> mem \<times> 'f" where
  "load_elf_executable F m f =
     (case read_exactly F 0 52 f of
        (None, f) \<Rightarrow> (Inl Header_unreadable, m, f)
      | (Some b, f) \<Rightarrow>
          (case shell_check_header b of
             Some e \<Rightarrow> (Inl e, m, f)
           | None \<Rightarrow>
               (let h = parse_header b
                in case shell_load_segments F h 0 (m, f) (unat (e_phnum h)) of
                     (Some e, s) \<Rightarrow> (Inl e, s)
                   | (None, s) \<Rightarrow> (Inr (e_entry h), s))))"

subsection \<open>Opening a program\<close>

record 'f exe_ops =
  fx_open :: "u8 list \<Rightarrow> 'f \<Rightarrow> bool \<times> 'f"
  fx_close :: "'f \<Rightarrow> 'f"

definition FF_MAX_LFN :: nat where "FF_MAX_LFN = 255"
definition orion_extensions :: "u8 list list" where
  "orion_extensions = [map of_char ''.elf'', map of_char ''.bat'']"

primrec try_extensions :: "'f exe_ops \<Rightarrow> u8 list \<Rightarrow> u8 list list \<Rightarrow> 'f \<Rightarrow> bool \<times> 'f" where
  "try_extensions X name [] f = (False, f)"
| "try_extensions X name (e # es) f =
     (if length name + length e < FF_MAX_LFN
      then (case fx_open X (name @ e @ [10]) f of
              (True, f) \<Rightarrow> (True, f)
            | (False, f) \<Rightarrow> try_extensions X name es f)
      else try_extensions X name es f)"

definition open_executable_file :: "'f exe_ops \<Rightarrow> u8 list \<Rightarrow> 'f \<Rightarrow> bool \<times> 'f" where
  "open_executable_file X name f =
     (case fx_open X name f of (True, f) \<Rightarrow> (True, f) | (False, f) \<Rightarrow> try_extensions X name orion_extensions f)"

datatype exec_result = Not_found | Unreadable | Unknown_format | Load_failed load_error | Started addr

definition g_elf_header_bytes :: "u8 list" where "g_elf_header_bytes = [0x7F, 0x45, 0x4C, 0x46]"

definition process_command_executable :: "'f fil_ops \<Rightarrow> 'f exe_ops \<Rightarrow> u8 list \<Rightarrow> mem \<Rightarrow> 'f \<Rightarrow> exec_result \<times> mem \<times> 'f" where
  "process_command_executable F X name m f =
     (case open_executable_file X name f of
        (False, f) \<Rightarrow> (Not_found, m, f)
      | (True, f) \<Rightarrow>
          (case fl_read F 4 f of
             (ok, bs, f) \<Rightarrow>
               let f = fl_lseek F 0 f
               in if \<not> ok then (Unreadable, m, fx_close X f)
                  else if take 4 (bs @ replicate 4 0) = g_elf_header_bytes
                  then (case load_elf_executable F m f of
                          (Inl e, m, f) \<Rightarrow> (Load_failed e, m, fx_close X f)
                        | (Inr a, m, f) \<Rightarrow> (Started a, m, fx_close X f))
                  else (Unknown_format, m, fx_close X f)))"

subsection \<open>The loaders of elf_loader.c\<close>

text \<open>The image is in memory at \<open>elf_buf\<close>; its headers are read again in every round.\<close>

definition segment_from_buffer :: "mem \<Rightarrow> addr \<Rightarrow> addr \<Rightarrow> addr \<Rightarrow> mem" where
  "segment_from_buffer m elf_buf ram_destino phdr =
     (if rd32 m phdr = PT_LOAD
      then let dest_addr = ram_destino + rd32 m (phdr + 12);
               m = (if rd32 m (phdr + 16) > 0
                    then snd (memcpy m dest_addr (elf_buf + rd32 m (phdr + 4)) (rd32 m (phdr + 16))) else m)
           in if rd32 m (phdr + 20) > rd32 m (phdr + 16)
              then memset m (dest_addr + rd32 m (phdr + 16)) 0 (rd32 m (phdr + 20) - rd32 m (phdr + 16)) else m
      else m)"

function elf32_segments :: "mem \<Rightarrow> addr \<Rightarrow> addr \<Rightarrow> u16 \<Rightarrow> mem" where
  "elf32_segments m elf_buf ram_destino i =
     (if i < rd16 m (elf_buf + 0x2C)
      then let offset_ph = rd32 m (elf_buf + 0x1C) + ucast i * ucast (rd16 m (elf_buf + 0x2A))
           in elf32_segments (segment_from_buffer m elf_buf ram_destino (elf_buf + offset_ph)) elf_buf ram_destino (i + 1)
      else m)"
  by pat_completeness auto
termination
proof (relation "measure (\<lambda>(m, b, r, i). 2 ^ 16 - unat i)")
  fix m :: mem and b r :: addr and i :: u16 and ofs :: u32
  assume "i < rd16 m (b + 0x2C)"
  then have "unat i < unat (rd16 m (b + 0x2C))" by (simp add: word_less_nat_alt)
  moreover have "unat (rd16 m (b + 0x2C)) < 2 ^ 16" using unsigned_less [of "rd16 m (b + 0x2C)"] by simp
  ultimately have l: "unat i + 1 < 2 ^ 16" by linarith
  then have "unat (i + 1) = unat i + 1" by (simp add: unat_word_ariths)
  with l show "((segment_from_buffer m b r (b + ofs), b, r, i + 1), m, b, r, i)
      \<in> measure (\<lambda>(m, b, r, i). 2 ^ 16 - unat i)" by simp
qed simp

declare elf32_segments.simps [simp del]

definition carregar_elf32 :: "mem \<Rightarrow> addr \<Rightarrow> addr \<Rightarrow> u32 \<times> mem" where
  "carregar_elf32 m elf_buf ram_destino =
     (if m elf_buf \<noteq> 0x7F \<or> m (elf_buf + 1) \<noteq> 0x45 \<or> m (elf_buf + 2) \<noteq> 0x4C \<or> m (elf_buf + 3) \<noteq> 0x46 then (0, m)
      else let m = elf32_segments m elf_buf ram_destino 0 in (rd32 m (elf_buf + 0x18), m))"

text \<open>The number of bytes of a program header and the result of the read of a segment are not looked at;
  \<open>phdr\<close> is the content of the local variable of that name.\<close>

primrec fatfs_segments :: "'f fil_ops \<Rightarrow> elf32_header \<Rightarrow> u16 \<Rightarrow> u8 list \<Rightarrow> mem \<times> 'f \<Rightarrow> nat \<Rightarrow> bool \<times> mem \<times> 'f" where
  "fatfs_segments F h i phdr s 0 = (True, s)"
| "fatfs_segments F h i phdr s (Suc n) =
     (case s of (m, f) \<Rightarrow>
        (case fl_read F 32 (fl_lseek F (e_phoff h + ucast i * ucast (e_phentsize h)) f) of
           (False, _, f) \<Rightarrow> (False, m, f)
         | (True, bs, f) \<Rightarrow>
             let phdr = bs @ drop (length bs) phdr; ph = parse_program_header phdr
             in if p_type ph = PT_LOAD
                then let (m, f) =
                       (if p_filesz ph > 0
                        then (case fl_read F (p_filesz ph) (fl_lseek F (p_offset ph) f) of
                                (_, bs, f) \<Rightarrow> (wr_bytes m (p_paddr ph) bs, f))
                        else (m, f));
                       m = (if p_memsz ph > p_filesz ph
                            then memset m (p_paddr ph + p_filesz ph) 0 (p_memsz ph - p_filesz ph) else m)
                     in fatfs_segments F h (i + 1) phdr (m, f) n
                else fatfs_segments F h (i + 1) phdr (m, f) n))"

definition carregar_elf32_fatfs :: "'f fil_ops \<Rightarrow> 'f exe_ops \<Rightarrow> u8 list \<Rightarrow> u8 list \<Rightarrow> mem \<Rightarrow> 'f \<Rightarrow> u32 \<times> mem \<times> 'f" where
  "carregar_elf32_fatfs F X phdr caminho m f =
     (case fx_open X caminho f of
        (False, f) \<Rightarrow> (0, m, f)
      | (True, f) \<Rightarrow>
          (case fl_read F 52 f of
             (ok, b, f) \<Rightarrow>
               if \<not> ok \<or> length b < 52 then (0, m, fx_close X f)
               else if b ! 0 \<noteq> 0x7F \<or> b ! 1 \<noteq> 0x45 \<or> b ! 2 \<noteq> 0x4C \<or> b ! 3 \<noteq> 0x46 \<or> b ! 5 \<noteq> 2 then (0, m, fx_close X f)
               else let h = parse_header b
                    in if e_entry h AND 1 \<noteq> 0 then (0, m, fx_close X f)
                       else (case fatfs_segments F h 0 phdr (m, f) (unat (e_phnum h)) of
                               (ok, m, f) \<Rightarrow> (if ok then e_entry h else 0, m, fx_close X f))))"

subsection \<open>The image\<close>

text \<open>The segments of a file from header \<open>i\<close> on, one after the other.\<close>

definition segments :: "u8 list \<Rightarrow> elf32_header \<Rightarrow> nat \<Rightarrow> nat \<Rightarrow> elf32_program_header list" where
  "segments img h i n = filter (\<lambda>p. p_type p = PT_LOAD) (map (program_header_at img h) [i..<i + n])"

lemma segments_Suc:
  "segments img h i (Suc n) = (if p_type (program_header_at img h i) = PT_LOAD
     then program_header_at img h i # segments img h (Suc i) n else segments img h (Suc i) n)"
proof -
  have u: "[i..<i + Suc n] = i # [Suc i..<Suc i + n]" by (simp add: upt_conv_Cons del: upt_Suc)
  show ?thesis unfolding segments_def u by simp
qed

lemma segments_loads: "segments img h 0 (unat (e_phnum h)) = loads img h"
  by (simp add: segments_def loads_def)

definition absolute_program :: "u8 list \<Rightarrow> bool" where
  "absolute_program img \<longleftrightarrow> readable img 0 52 \<and> shell_check_header (bytes_at img 0 52) = None
     \<and> (let h = parse_header (bytes_at img 0 52) in list_all (loadable_header img h) [0..<unat (e_phnum h)])"

definition absolute_image :: "u8 list \<Rightarrow> addr \<Rightarrow> mem \<Rightarrow> mem" where
  "absolute_image img base m = fold (place img base) (loads img (parse_header (bytes_at img 0 52))) m"

lemma shell_load_segment_clean:
  assumes cf: "clean_file F img good" and g: "good f"
  shows "\<exists>r m' f'. shell_load_segment F ph (m, f) = (r, m', f') \<and> good f'
    \<and> (r = None \<longleftrightarrow> p_type ph \<notin> {PT_DYNAMIC, PT_SHLIB, PT_INTERP} \<and> (p_type ph = PT_LOAD \<longrightarrow> readable img (p_offset ph) (p_filesz ph)))
    \<and> (r = None \<longrightarrow> m' = (if p_type ph = PT_LOAD then place img 0 ph m else m))"
proof (cases "p_type ph = PT_LOAD")
  case True
  then have t: "p_type ph \<notin> {PT_DYNAMIC, PT_SHLIB, PT_INTERP}"
    by (simp add: PT_LOAD_def PT_DYNAMIC_def PT_SHLIB_def PT_INTERP_def)
  let ?bs = "bytes_at img (p_offset ph) (p_filesz ph)"
  obtain f1 where f: "good f1" "fl_read F (p_filesz ph) (fl_lseek F (p_offset ph) f) = (True, ?bs, f1)"
    using cf g unfolding clean_file_def by blast
  show ?thesis
  proof (cases "readable img (p_offset ph) (p_filesz ph)")
    case rd: True
    note pl = place_eq [OF rd, of m 0, unfolded add_0_left Let_def]
    have "shell_load_segment F ph (m, f) = (None, place img 0 ph m, f1)"
      unfolding pl [symmetric] using True t f rd by (simp add: shell_load_segment_def readable_def Let_def)
    then show ?thesis using True t rd f(1) by simp
  next
    case False
    then show ?thesis using f True t by (simp add: shell_load_segment_def readable_def)
  qed
next
  case False
  then show ?thesis using g by (auto simp: shell_load_segment_def PT_DYNAMIC_def PT_SHLIB_def PT_INTERP_def)
qed

lemma shell_load_segments_clean:
  assumes cf: "clean_file F img good"
  shows "good f \<Longrightarrow> \<exists>r m' f'. shell_load_segments F h (word_of_nat i) (m, f) n = (r, m', f') \<and> good f'
      \<and> (r = None \<longleftrightarrow> list_all (loadable_header img h) [i..<i + n])
      \<and> (r = None \<longrightarrow> m' = fold (place img 0) (segments img h i n) m)"
proof (induction n arbitrary: i m f)
  case 0
  then show ?case by (simp add: segments_def)
next
  case (Suc n)
  let ?o = "word_of_nat i * ucast (e_phentsize h) + e_phoff h" and ?p = "program_header_at img h i"
  obtain f1 where f1: "good f1" "read_exactly F ?o 32 f = (if readable img ?o 32 then Some (bytes_at img ?o 32) else None, f1)"
    using read_exactly_cleanE [OF cf Suc.prems] by blast
  have p: "parse_program_header (bytes_at img ?o 32) = ?p" by (simp add: program_header_at_def)
  have u: "[i..<i + Suc n] = i # [Suc i..<Suc i + n]" by (simp add: upt_rec)
  show ?case
  proof (cases "readable img ?o 32")
    case False
    then have "\<not> loadable_header img h i" by (simp add: loadable_header_def)
    then show ?thesis using f1 False unfolding u by simp
  next
    case True
    obtain r1 m1 f2 where l: "shell_load_segment F ?p (m, f1) = (r1, m1, f2)" "good f2"
        "r1 = None \<longleftrightarrow> p_type ?p \<notin> {PT_DYNAMIC, PT_SHLIB, PT_INTERP} \<and> (p_type ?p = PT_LOAD \<longrightarrow> readable img (p_offset ?p) (p_filesz ?p))"
        "r1 = None \<longrightarrow> m1 = (if p_type ?p = PT_LOAD then place img 0 ?p m else m)"
      using shell_load_segment_clean [OF cf f1(1)] by blast
    have lh: "loadable_header img h i \<longleftrightarrow> r1 = None" using True l(3) by (simp add: loadable_header_def Let_def)
    show ?thesis
    proof (cases r1)
      case None
      have run: "shell_load_segments F h (word_of_nat i) (m, f) (Suc n) = shell_load_segments F h (word_of_nat (Suc i)) (m1, f2) n"
        using f1 True p l(1) None by (simp add: add.commute)
      have "fold (place img 0) (segments img h i (Suc n)) m = fold (place img 0) (segments img h (Suc i) n) m1"
        using l(4) None unfolding segments_Suc by simp
      moreover have "list_all (loadable_header img h) [i..<i + Suc n] = list_all (loadable_header img h) [Suc i..<Suc i + n]"
        using lh None unfolding u by simp
      ultimately show ?thesis using Suc.IH [OF l(2), of "Suc i" m1] unfolding run by presburger
    next
      case (Some e)
      then have "shell_load_segments F h (word_of_nat i) (m, f) (Suc n) = (Some e, m1, f2)"
        using f1 True p l(1) by simp
      then show ?thesis using l(2) lh Some unfolding u by simp
    qed
  qed
qed

lemma load_elf_executable_clean:
  assumes cf: "clean_file F img good" and g: "good f"
  shows "\<exists>r m' f'. load_elf_executable F m f = (r, m', f') \<and> good f' \<and> (case r of
      Inl e \<Rightarrow> \<not> absolute_program img
    | Inr a \<Rightarrow> absolute_program img \<and> a = e_entry (parse_header (bytes_at img 0 52)) \<and> m' = absolute_image img 0 m)"
proof -
  let ?b = "bytes_at img 0 52"
  let ?h = "parse_header ?b"
  obtain f1 where f1: "good f1" "read_exactly F 0 52 f = (if readable img 0 52 then Some ?b else None, f1)"
    using read_exactly_cleanE [OF cf g] by blast
  consider (short) "\<not> readable img 0 52" | (bad) e where "readable img 0 52" "shell_check_header ?b = Some e"
    | (ok) "readable img 0 52" "shell_check_header ?b = None" by (cases "shell_check_header ?b") auto
  then show ?thesis
  proof cases
    case short
    then show ?thesis using f1 by (simp add: load_elf_executable_def absolute_program_def)
  next
    case bad
    then show ?thesis using f1 by (simp add: load_elf_executable_def absolute_program_def)
  next
    case ok
    obtain r m' f' where s: "shell_load_segments F ?h 0 (m, f1) (unat (e_phnum ?h)) = (r, m', f')" "good f'"
        "r = None \<longleftrightarrow> list_all (loadable_header img ?h) [0..<unat (e_phnum ?h)]"
        "r = None \<longrightarrow> m' = absolute_image img 0 m"
      using shell_load_segments_clean [OF cf f1(1), of ?h 0 m "unat (e_phnum ?h)"]
      unfolding absolute_image_def segments_loads by auto
    then show ?thesis using ok f1 by (cases r) (simp_all add: load_elf_executable_def absolute_program_def Let_def)
  qed
qed

subsection \<open>Running a program from a file\<close>

text \<open>Opening \<open>name\<close> gives the file \<open>img\<close> with the position at its start.\<close>

definition opens :: "'f fil_ops \<Rightarrow> 'f exe_ops \<Rightarrow> u8 list \<Rightarrow> 'f \<Rightarrow> u8 list \<Rightarrow> ('f \<Rightarrow> bool) \<Rightarrow> bool" where
  "opens F X name f0 img good \<longleftrightarrow>
     (\<exists>f. fx_open X name f0 = (True, f) \<and> (\<forall>n. \<exists>f'. good f' \<and> fl_read F n f = (True, bytes_at img 0 n, f')))"

definition seekable :: "'f fil_ops \<Rightarrow> ('f \<Rightarrow> bool) \<Rightarrow> bool" where
  "seekable F good \<longleftrightarrow> (\<forall>f ofs. good f \<longrightarrow> good (fl_lseek F ofs f))"

lemma magic_of_program:
  assumes "absolute_program img"
  shows "take 4 (bytes_at img 0 4 @ replicate 4 0) = g_elf_header_bytes"
proof -
  have "length (bytes_at img 0 52) = 52" "shell_check_header (bytes_at img 0 52) = None"
    using assms by (simp_all add: absolute_program_def readable_def)
  then have l: "52 \<le> length img" and m: "img ! 0 = 0x7F" "img ! 1 = 0x45" "img ! 2 = 0x4C" "img ! 3 = 0x46"
    by (auto simp: shell_check_header_def bytes_at_def split: if_splits)
  have "take 4 img = g_elf_header_bytes"
  proof (rule nth_equalityI)
    show "take 4 img ! i = g_elf_header_bytes ! i" if "i < length (take 4 img)" for i
    proof -
      have "i = 0 \<or> i = 1 \<or> i = 2 \<or> i = 3" using that by auto
      then show ?thesis using m by (auto simp: g_elf_header_bytes_def)
    qed
  qed (use l in \<open>simp add: g_elf_header_bytes_def\<close>)
  then show ?thesis using l by (simp add: bytes_at_def g_elf_header_bytes_def)
qed

lemma process_command_executable_clean:
  assumes cf: "clean_file F img good" and sk: "seekable F good" and op: "opens F X name f0 img good"
  shows "\<exists>r m' f'. process_command_executable F X name m f0 = (r, m', f') \<and>
    (if absolute_program img then r = Started (e_entry (parse_header (bytes_at img 0 52))) \<and> m' = absolute_image img 0 m
     else r = Unknown_format \<and> m' = m \<or> (\<exists>e. r = Load_failed e))"
proof -
  obtain f f1 where f: "fx_open X name f0 = (True, f)" "good f1" "fl_read F 4 f = (True, bytes_at img 0 4, f1)"
    using op unfolding opens_def by blast
  then have "good (fl_lseek F 0 f1)" using sk by (simp add: seekable_def)
  then obtain r m' f' where l: "load_elf_executable F m (fl_lseek F 0 f1) = (r, m', f')" "case r of
      Inl e \<Rightarrow> \<not> absolute_program img
    | Inr a \<Rightarrow> absolute_program img \<and> a = e_entry (parse_header (bytes_at img 0 52)) \<and> m' = absolute_image img 0 m"
    using load_elf_executable_clean [OF cf] by blast
  have o: "open_executable_file X name f0 = (True, f)" using f(1) by (simp add: open_executable_file_def)
  show ?thesis
  proof (cases "take 4 (bytes_at img 0 4 @ replicate 4 0) = g_elf_header_bytes")
    case True
    then show ?thesis using o f(3) l by (cases r) (simp_all add: process_command_executable_def Let_def)
  next
    case False
    then have "\<not> absolute_program img" using magic_of_program by blast
    then show ?thesis using o f(3) False by (simp add: process_command_executable_def Let_def)
  qed
qed

subsection \<open>carregar_elf32_fatfs\<close>

lemma be32_append: "k + 4 \<le> length b \<Longrightarrow> be32 (b @ x) k = be32 b k"
  by (simp add: be32_def nth_append)

lemma parse_append: "24 \<le> length b \<Longrightarrow> parse_program_header (b @ x) = parse_program_header b"
  by (simp add: parse_program_header_def be32_append)

lemma fatfs_segments_clean:
  assumes cf: "clean_file F img good"
  shows "good f \<Longrightarrow> i + n < 2 ^ 16 \<Longrightarrow> list_all (loadable_header img h) [i..<i + n] \<Longrightarrow>
    \<exists>f'. fatfs_segments F h (word_of_nat i) phdr (m, f) n = (True, fold (place img 0) (segments img h i n) m, f') \<and> good f'"
proof (induction n arbitrary: i m f phdr)
  case 0
  then show ?case by (simp add: segments_def)
next
  case (Suc n)
  let ?o = "e_phoff h + word_of_nat i * ucast (e_phentsize h)" and ?p = "program_header_at img h i"
  have u: "[i..<i + Suc n] = i # [Suc i..<Suc i + n]" by (simp add: upt_conv_Cons del: upt_Suc)
  have lh: "loadable_header img h i" "list_all (loadable_header img h) [Suc i..<Suc i + n]" using Suc.prems(3) unfolding u by simp_all
  have i: "(ucast (word_of_nat i :: u16) :: u32) = word_of_nat i"
    using Suc.prems(2) by (simp add: unsigned_of_nat take_bit_nat_eq_self)
  obtain f1 where f1: "good f1" "fl_read F 32 (fl_lseek F ?o f) = (True, bytes_at img ?o 32, f1)"
    using cf Suc.prems(1) unfolding clean_file_def by blast
  have rd: "readable img ?o 32" and pp: "parse_program_header (bytes_at img ?o 32) = ?p"
    using lh(1) by (simp_all add: loadable_header_def program_header_at_def add.commute)
  have ph: "parse_program_header (bytes_at img ?o 32 @ drop (length (bytes_at img ?o 32)) phdr) = ?p"
    using rd pp by (subst parse_append) (simp_all add: readable_def)
  let ?phdr = "bytes_at img ?o 32 @ drop (length (bytes_at img ?o 32)) phdr"
  show ?case
  proof (cases "p_type ?p = PT_LOAD")
    case True
    let ?bs = "bytes_at img (p_offset ?p) (p_filesz ?p)"
    have r: "readable img (p_offset ?p) (p_filesz ?p)" using lh(1) True by (simp add: loadable_header_def Let_def)
    obtain f2 where f2: "good f2" "fl_read F (p_filesz ?p) (fl_lseek F (p_offset ?p) f1) = (True, ?bs, f2)"
      using cf f1(1) unfolding clean_file_def by blast
    obtain f3 where f3: "good f3" "(if p_filesz ?p > 0
        then (case fl_read F (p_filesz ?p) (fl_lseek F (p_offset ?p) f1) of (_, bs, f) \<Rightarrow> (wr_bytes m (p_paddr ?p) bs, f))
        else (m, f1)) = (wr_bytes m (p_paddr ?p) ?bs, f3)"
      using f1(1) f2 by (cases "p_filesz ?p > 0") (auto simp: bytes_at_def word_gt_0)
    note pl = place_eq [OF r, of m 0, unfolded add_0_left Let_def]
    have "fatfs_segments F h (word_of_nat i) phdr (m, f) (Suc n)
        = fatfs_segments F h (word_of_nat (Suc i)) ?phdr (place img 0 ?p m, f3) n"
      unfolding pl [symmetric] fatfs_segments.simps prod.case i f1(2) Let_def ph if_P [OF True] f3(2) by (simp add: add.commute)
    then show ?thesis using Suc.IH [OF f3(1), of "Suc i"] Suc.prems(2) lh(2) True unfolding segments_Suc by simp
  next
    case False
    have "fatfs_segments F h (word_of_nat i) phdr (m, f) (Suc n) = fatfs_segments F h (word_of_nat (Suc i)) ?phdr (m, f1) n"
      unfolding fatfs_segments.simps prod.case i f1(2) Let_def ph if_not_P [OF False] by (simp add: add.commute)
    then show ?thesis using Suc.IH [OF f1(1), of "Suc i"] Suc.prems(2) lh(2) False unfolding segments_Suc by simp
  qed
qed

lemma carregar_elf32_fatfs_clean:
  assumes cf: "clean_file F img good" and op: "opens F X name f0 img good"
    and img: "absolute_program img" "e_entry (parse_header (bytes_at img 0 52)) AND 1 = 0"
  shows "\<exists>f'. carregar_elf32_fatfs F X phdr name m f0 = (e_entry (parse_header (bytes_at img 0 52)), absolute_image img 0 m, f')"
proof -
  let ?b = "bytes_at img 0 52"
  let ?h = "parse_header ?b"
  obtain f f1 where f: "fx_open X name f0 = (True, f)" "good f1" "fl_read F 52 f = (True, ?b, f1)"
    using op unfolding opens_def by blast
  have a: "length ?b = 52" "shell_check_header ?b = None" "list_all (loadable_header img ?h) [0..<unat (e_phnum ?h)]"
    using img(1) by (simp_all add: absolute_program_def readable_def Let_def)
  have c: "\<not> (?b ! 0 \<noteq> 0x7F \<or> ?b ! 1 \<noteq> 0x45 \<or> ?b ! 2 \<noteq> 0x4C \<or> ?b ! 3 \<noteq> 0x46 \<or> ?b ! 5 \<noteq> 2)"
    using a(2) by (auto simp: shell_check_header_def ID_BIG_ENDIAN_def split: if_splits)
  have "0 + unat (e_phnum ?h) < 2 ^ 16" using unsigned_less [of "e_phnum ?h"] by simp
  from fatfs_segments_clean [OF cf f(2) this, of ?h phdr m] a(3) obtain f' where
      "fatfs_segments F ?h 0 phdr (m, f1) (unat (e_phnum ?h)) = (True, absolute_image img 0 m, f')"
    unfolding absolute_image_def segments_loads by auto
  then show ?thesis using f a(1) c img(2) by (simp add: carregar_elf32_fatfs_def Let_def)
qed

subsection \<open>carregar_elf32\<close>

definition buffer_holds :: "mem \<Rightarrow> addr \<Rightarrow> u8 list \<Rightarrow> bool" where
  "buffer_holds m buf img \<longleftrightarrow> rd_bytes m buf (length img) = img \<and> length img < 2 ^ 32"

text \<open>No segment is placed over the bytes of the image.\<close>

definition clear_of :: "u8 list \<Rightarrow> addr \<Rightarrow> addr \<Rightarrow> bool" where
  "clear_of img buf ram \<longleftrightarrow>
     list_all (\<lambda>p. list_all (\<lambda>i. max (unat (p_filesz p)) (unat (p_memsz p)) \<le> unat (buf + word_of_nat i - (ram + p_paddr p)))
         [0..<length img])
       (loads img (parse_header (bytes_at img 0 52)))"

lemma bytes_at_buffer:
  assumes "buffer_holds m buf img" and "readable img ofs n"
  shows "bytes_at img ofs n = rd_bytes m (buf + ofs) (unat n)"
proof (rule nth_equalityI)
  fix i assume "i < length (bytes_at img ofs n)"
  then have i: "i < unat n" "unat ofs + i < length img" by (auto simp: bytes_at_def)
  then have "bytes_at img ofs n ! i = img ! (unat ofs + i)" by (simp add: bytes_at_def)
  also have "\<dots> = rd_bytes m buf (length img) ! (unat ofs + i)" using assms(1) by (simp add: buffer_holds_def)
  also have "\<dots> = rd_bytes m (buf + ofs) (unat n) ! i" using i by (simp add: add.assoc)
  finally show "bytes_at img ofs n ! i = rd_bytes m (buf + ofs) (unat n) ! i" .
qed (use assms(2) in \<open>simp add: readable_def\<close>)

lemma be_of_bytes:
  "k + 4 \<le> n \<Longrightarrow> be32 (rd_bytes m a n) k = rd32 m (a + word_of_nat k)"
  "k + 2 \<le> n \<Longrightarrow> be16 (rd_bytes m a n) k = rd16 m (a + word_of_nat k)"
  by (simp_all add: be32_def rd32_def be16_def rd16_def add.assoc add.commute add.left_commute)

lemma program_header_buffer:
  assumes "buffer_holds m buf img" and "readable img ofs 32"
  shows "p_type (parse_program_header (bytes_at img ofs 32)) = rd32 m (buf + ofs)"
    "p_offset (parse_program_header (bytes_at img ofs 32)) = rd32 m (buf + ofs + 4)"
    "p_paddr (parse_program_header (bytes_at img ofs 32)) = rd32 m (buf + ofs + 12)"
    "p_filesz (parse_program_header (bytes_at img ofs 32)) = rd32 m (buf + ofs + 16)"
    "p_memsz (parse_program_header (bytes_at img ofs 32)) = rd32 m (buf + ofs + 20)"
  unfolding bytes_at_buffer [OF assms] by (simp_all add: parse_program_header_def be_of_bytes)

lemma header_buffer:
  assumes "buffer_holds m buf img" and "readable img 0 52"
  defines "h \<equiv> parse_header (bytes_at img 0 52)"
  shows "e_entry h = rd32 m (buf + 0x18)" "e_phoff h = rd32 m (buf + 0x1C)" "e_phentsize h = rd16 m (buf + 0x2A)"
    "e_phnum h = rd16 m (buf + 0x2C)"
  unfolding h_def bytes_at_buffer [OF assms(1,2)] by (simp_all add: parse_header_def be_of_bytes)

lemma write_clear:
  assumes b: "buffer_holds m buf img" and c: "\<And>i. i < length img \<Longrightarrow> length bs \<le> unat (buf + word_of_nat i - d)"
  shows "buffer_holds (wr_bytes m d bs) buf img"
proof -
  have "rd_bytes (wr_bytes m d bs) buf (length img) = rd_bytes m buf (length img)"
    by (rule nth_equalityI) (simp_all add: c wr_bytes_other)
  then show ?thesis using b by (simp add: buffer_holds_def)
qed

lemma segment_from_buffer_place:
  assumes b: "buffer_holds m buf img" and rd: "readable img ofs 32"
  defines "p \<equiv> parse_program_header (bytes_at img ofs 32)"
  assumes t: "p_type p = PT_LOAD" and r: "readable img (p_offset p) (p_filesz p)"
    and c: "\<And>i. i < length img \<Longrightarrow> max (unat (p_filesz p)) (unat (p_memsz p)) \<le> unat (buf + word_of_nat i - (ram + p_paddr p))"
  shows "segment_from_buffer m buf ram (buf + ofs) = place img ram p m" and "buffer_holds (place img ram p m) buf img"
proof -
  let ?d = "ram + p_paddr p" and ?bs = "bytes_at img (p_offset p) (p_filesz p)"
  have l: "length ?bs = unat (p_filesz p)" using r by (simp add: readable_def)
  have bs: "?bs = rd_bytes m (buf + p_offset p) (unat (p_filesz p))" by (rule bytes_at_buffer [OF b r])
  have cp: "(if p_filesz p > 0 then snd (memcpy m ?d (buf + p_offset p) (p_filesz p)) else m) = wr_bytes m ?d ?bs"
  proof (cases "p_filesz p > 0")
    case True
    have "unat (p_filesz p) \<le> unat (?d - (buf + p_offset p))"
    proof (rule ccontr)
      let ?k = "unat (?d - (buf + p_offset p))"
      assume "\<not> unat (p_filesz p) \<le> ?k"
      then have k: "?k < unat (p_filesz p)" by simp
      have "?k < length ?bs" using k l by simp
      then have "unat (p_offset p) + ?k < length img" by (auto simp: bytes_at_def)
      from c [OF this] have "unat (p_filesz p) \<le> unat (buf + word_of_nat (unat (p_offset p) + ?k) - ?d)" by simp
      also have "buf + word_of_nat (unat (p_offset p) + ?k) - ?d = 0" by simp
      finally show False using k by simp
    qed
    then show ?thesis using True memcpy_eq [of ?d "buf + p_offset p" "p_filesz p" m] bs by simp
  next
    case False
    then have "p_filesz p = 0" by (simp add: word_gt_0)
    then show ?thesis by (simp add: bytes_at_def)
  qed
  have b1: "buffer_holds (wr_bytes m ?d ?bs) buf img" by (rule write_clear [OF b]) (use c l in \<open>auto intro: le_trans [OF max.cobounded1]\<close>)
  have "segment_from_buffer m buf ram (buf + ofs) =
      (let m = wr_bytes m ?d ?bs in if p_memsz p > p_filesz p then memset m (?d + p_filesz p) 0 (p_memsz p - p_filesz p) else m)"
    using t unfolding segment_from_buffer_def p_def program_header_buffer [OF b rd, symmetric]
    unfolding cp [unfolded p_def] Let_def program_header_buffer [OF b1 [unfolded p_def] rd, symmetric] by simp
  then show "segment_from_buffer m buf ram (buf + ofs) = place img ram p m" unfolding place_eq [OF r] .
  show "buffer_holds (place img ram p m) buf img"
    unfolding place_def
  proof (rule write_clear [OF b])
    fix i assume "i < length img"
    moreover have "length (?bs @ replicate (unat (p_memsz p) - unat (p_filesz p)) 0) = max (unat (p_filesz p)) (unat (p_memsz p))"
      using l by simp
    ultimately show "length (?bs @ replicate (unat (p_memsz p) - unat (p_filesz p)) 0) \<le> unat (buf + word_of_nat i - ?d)"
      using c by presburger
  qed
qed

lemma elf32_segments_clean:
  assumes rd0: "readable img 0 52" and c: "clear_of img buf ram"
  defines "h \<equiv> parse_header (bytes_at img 0 52)"
  shows "buffer_holds m buf img \<Longrightarrow> i + n = unat (e_phnum h) \<Longrightarrow> list_all (loadable_header img h) [i..<i + n] \<Longrightarrow>
    elf32_segments m buf ram (word_of_nat i) = fold (place img ram) (segments img h i n) m
    \<and> buffer_holds (fold (place img ram) (segments img h i n) m) buf img"
proof (induction n arbitrary: i m)
  case 0
  then have "(word_of_nat i :: u16) = rd16 m (buf + 0x2C)" using header_buffer(4) [OF 0(1) rd0] by (simp add: h_def)
  then show ?case using 0(1) by (subst elf32_segments.simps) (simp add: segments_def)
next
  case (Suc n)
  note H = header_buffer [OF Suc.prems(1) rd0, folded h_def]
  let ?o = "e_phoff h + word_of_nat i * ucast (e_phentsize h)" and ?p = "program_header_at img h i"
  have u: "[i..<i + Suc n] = i # [Suc i..<Suc i + n]" by (simp add: upt_conv_Cons del: upt_Suc)
  have lh: "loadable_header img h i" "list_all (loadable_header img h) [Suc i..<Suc i + n]" using Suc.prems(3) unfolding u by simp_all
  have "unat (e_phnum h) < 2 ^ 16" using unsigned_less [of "e_phnum h"] by simp
  then have b: "i < 2 ^ 16" "i < unat (e_phnum h)" using Suc.prems(2) by simp_all
  then have ui: "unat (word_of_nat i :: u16) = i" "(ucast (word_of_nat i :: u16) :: u32) = word_of_nat i"
    by (simp_all add: unsigned_of_nat take_bit_nat_eq_self)
  have lt: "(word_of_nat i :: u16) < rd16 m (buf + 0x2C)" using b(2) ui(1) H(4) by (simp add: word_less_nat_alt)
  have rd: "readable img ?o 32" and pp: "parse_program_header (bytes_at img ?o 32) = ?p"
    using lh(1) by (simp_all add: loadable_header_def program_header_at_def add.commute)
  let ?m = "segment_from_buffer m buf ram (buf + ?o)"
  have step: "elf32_segments m buf ram (word_of_nat i) = elf32_segments ?m buf ram (word_of_nat (Suc i))"
    using lt ui(2) H(2,3) by (subst elf32_segments.simps) (simp add: Let_def add.commute)
  have next_i: "Suc i + n = unat (e_phnum h)" using Suc.prems(2) by simp
  show ?case
  proof (cases "p_type ?p = PT_LOAD")
    case True
    have r: "readable img (p_offset ?p) (p_filesz ?p)" using lh(1) True by (simp add: loadable_header_def Let_def)
    have "?p \<in> set (loads img h)" using True b(2) by (auto simp: loads_def)
    then have cl: "max (unat (p_filesz ?p)) (unat (p_memsz ?p)) \<le> unat (buf + word_of_nat j - (ram + p_paddr ?p))" if "j < length img" for j
      using c that by (simp add: clear_of_def h_def list_all_iff)
    have pl: "?m = place img ram ?p m" "buffer_holds ?m buf img"
      using segment_from_buffer_place [OF Suc.prems(1) rd, of ram] True r cl by (simp_all add: pp)
    show ?thesis using Suc.IH [OF pl(2) next_i lh(2)] True step pl(1) unfolding segments_Suc by simp
  next
    case False
    then have "?m = m" using program_header_buffer(1) [OF Suc.prems(1) rd] pp by (simp add: segment_from_buffer_def)
    then show ?thesis using Suc.IH [OF Suc.prems(1) next_i lh(2)] False step unfolding segments_Suc by simp
  qed
qed

lemma carregar_elf32_clean:
  assumes img: "absolute_program img" and b: "buffer_holds m buf img" and c: "clear_of img buf ram"
  shows "carregar_elf32 m buf ram = (e_entry (parse_header (bytes_at img 0 52)), absolute_image img ram m)"
proof -
  let ?b = "bytes_at img 0 52"
  let ?h = "parse_header ?b"
  have a: "readable img 0 52" "shell_check_header ?b = None" "list_all (loadable_header img ?h) [0..<0 + unat (e_phnum ?h)]"
    using img by (simp_all add: absolute_program_def Let_def)
  have "?b = rd_bytes m buf 52" using bytes_at_buffer [OF b a(1)] by simp
  then have "\<not> (m buf \<noteq> 0x7F \<or> m (buf + 1) \<noteq> 0x45 \<or> m (buf + 2) \<noteq> 0x4C \<or> m (buf + 3) \<noteq> 0x46)"
    using a(2) by (auto simp: shell_check_header_def split: if_splits)
  moreover note S = elf32_segments_clean [OF a(1) c b, of 0 "unat (e_phnum ?h)", unfolded segments_loads]
  moreover have "e_entry ?h = rd32 (absolute_image img ram m) (buf + 0x18)"
    using S a(3) header_buffer(1) [OF _ a(1)] by (simp add: absolute_image_def)
  ultimately show ?thesis using a(3) by (simp add: carregar_elf32_def absolute_image_def Let_def)
qed

subsection \<open>A program\<close>

text \<open>One segment of four bytes for address 0x1000, of eight bytes in memory, entered at 0x1002.\<close>

definition demo_program :: "u8 list" where
  "demo_program =
     [0x7F, 0x45, 0x4C, 0x46, 1, 2, 1, 0, 0, 0, 0, 0, 0, 0, 0, 0, 0, 2, 0, 4, 0, 0, 0, 1,
      0, 0, 0x10, 2, 0, 0, 0, 0x34, 0, 0, 0, 0, 0, 0, 0, 0, 0, 0x34, 0, 0x20, 0, 1, 0, 0,
      0, 0, 0, 0] @
     [0, 0, 0, 1, 0, 0, 0, 0x54, 0, 0, 0, 0, 0, 0, 0x10, 0, 0, 0, 0, 4, 0, 0, 0, 8,
      0, 0, 0, 5, 0, 0, 0, 2] @
     [0x4E, 0x71, 0x4E, 0x75]"

lemma demo_program_ok:
  "absolute_program demo_program" "e_entry (parse_header (bytes_at demo_program 0 52)) = 0x1002" "length demo_program = 88"
  by code_simp+

lemma demo_loads: "loads demo_program (parse_header (bytes_at demo_program 0 52)) =
    [\<lparr>p_type = 1, p_offset = 0x54, p_paddr = 0x1000, p_filesz = 4, p_memsz = 8\<rparr>]"
  by code_simp

lemma demo_clear: "clear_of demo_program 0x8000 0"
proof -
  have "4 \<le> unat (0x8000 + word_of_nat i - 0x1000 :: addr) \<and> 8 \<le> unat (0x8000 + word_of_nat i - 0x1000 :: addr)" if "i < 88" for i
  proof -
    have "unat (0x7000 + word_of_nat i :: addr) = unat (0x7000 :: addr) + i" by (rule unat_plus_small) (use that in simp)
    then show ?thesis by simp
  qed
  then show ?thesis by (simp add: clear_of_def demo_loads demo_program_ok(3) list_all_iff)
qed

lemma demo_image:
  "absolute_image demo_program 0 m = wr_bytes m 0x1000 [0x4E, 0x71, 0x4E, 0x75, 0, 0, 0, 0]"
proof -
  have b: "bytes_at demo_program 0x54 4 @ replicate (unat (8 :: u32) - unat (4 :: u32)) 0 = [0x4E, 0x71, 0x4E, 0x75, 0, 0, 0, 0]"
    by code_simp
  show ?thesis unfolding absolute_image_def demo_loads by (simp add: place_def b [simplified])
qed

definition list_volume :: "u32 exe_ops" where
  "list_volume = \<lparr>fx_open = (\<lambda>_ _. (True, 0)), fx_close = (\<lambda>f. f)\<rparr>"

lemma list_volume_opens: "opens (list_file img) list_volume name f0 img (\<lambda>_. True)" "seekable (list_file img) (\<lambda>_. True)"
  by (simp_all add: opens_def seekable_def list_volume_def list_file_def)

text \<open>
  The file cut off behind its program header: the shell refuses it, \<open>carregar_elf32_fatfs\<close> returns the
  entry point all the same, with zeros behind the missing bytes.
\<close>

lemma truncated_program_started:
  "fst (load_elf_executable (list_file (take 84 demo_program)) m 0) = Inl Segment_unreadable"
  "fst (carregar_elf32_fatfs (list_file (take 84 demo_program)) list_volume phdr name m 0) = 0x1002"
proof -
  let ?img = "take 84 demo_program" and ?o = "0x54 :: u32"
  have b: "bytes_at ?img 0 52 = bytes_at demo_program 0 52" "bytes_at ?img 0x34 32 = bytes_at demo_program 0x34 32"
    "bytes_at ?img 0x54 4 = []" by code_simp+
  have h: "shell_check_header (bytes_at demo_program 0 52) = None" "length (bytes_at demo_program 0 52) = 52"
    "length (bytes_at demo_program 0x34 32) = 32"
    "parse_header (bytes_at demo_program 0 52) = \<lparr>e_entry = 0x1002, e_phoff = 0x34, e_shoff = 0, e_phentsize = 0x20, e_phnum = 1,
       e_shentsize = 0, e_shnum = 0, e_shstrndx = 0\<rparr>"
    "parse_program_header (bytes_at demo_program 0x34 32) = \<lparr>p_type = 1, p_offset = 0x54, p_paddr = 0x1000, p_filesz = 4, p_memsz = 8\<rparr>"
    by code_simp+
  have d: "bytes_at demo_program 0 52 ! 0 = 0x7F" "bytes_at demo_program 0 52 ! Suc 0 = 0x45" "bytes_at demo_program 0 52 ! 2 = 0x4C"
    "bytes_at demo_program 0 52 ! 3 = 0x46" "bytes_at demo_program 0 52 ! 5 = 2" by code_simp+
  show "fst (load_elf_executable (list_file ?img) m 0) = Inl Segment_unreadable"
    by (simp add: load_elf_executable_def read_exactly_def list_file_def b h shell_load_segment_def Let_def
        PT_LOAD_def PT_SHLIB_def PT_DYNAMIC_def)
  show "fst (carregar_elf32_fatfs (list_file ?img) list_volume phdr name m 0) = 0x1002"
    by (simp add: carregar_elf32_fatfs_def list_volume_def list_file_def b h d Let_def parse_append)
qed

subsection \<open>The format\<close>

text \<open>
  What the shell accepts and what it leaves, from the format of the file (\<open>ElfFormat\<close>) and from nothing
  of the loader: bytes 7 and 8 of the header are the OS ABI and its version.
\<close>

definition shell_executable :: "u8 list \<Rightarrow> bool" where
  "shell_executable img \<longleftrightarrow> executable_68000 img \<and> img ! 7 = 0 \<and> img ! 8 = 0
     \<and> list_all (complete_program_header img) [0..<unat (elf_half img 44)]"

definition segments_in_memory :: "u8 list \<Rightarrow> mem \<Rightarrow> mem" where
  "segments_in_memory img m = fold (copy_segment img 0) (load_indices img) m"

lemma absolute_program_shell_executable: "absolute_program img = shell_executable img"
proof (cases "readable img 0 52")
  case True
  let ?b = "bytes_at img 0 52"
  have l: "52 \<le> length img" using True by (simp add: readable_def bytes_at_def)
  have "shell_check_header ?b = None \<longleftrightarrow> check_header ?b = None \<and> ?b ! 7 = 0 \<and> ?b ! 8 = 0"
    by (auto simp: shell_check_header_def check_header_def split: if_splits)
  moreover have "?b ! 7 = img ! 7" "?b ! 8 = img ! 8" using l by (simp_all add: bytes_at_def)
  moreover have "loadable_header img (parse_header ?b) = complete_program_header img"
    using loadable_header_complete [OF True] by (rule ext)
  ultimately show ?thesis
    using check_header_executable [OF True] header_fields(5) [OF True]
    by (simp add: absolute_program_def shell_executable_def Let_def True)
next
  case False
  then show ?thesis by (simp add: absolute_program_def shell_executable_def executable_68000_def readable_inside inside_def)
qed

lemma shell_executable_image:
  assumes "shell_executable img"
  shows "e_entry (parse_header (bytes_at img 0 52)) = elf_word img 24" "absolute_image img 0 m = segments_in_memory img m"
proof -
  have rd: "readable img 0 52" using assms by (simp add: absolute_program_def flip: absolute_program_shell_executable)
  show "e_entry (parse_header (bytes_at img 0 52)) = elf_word img 24" by (rule header_fields(1) [OF rd])
  have c: "list_all (complete_program_header img) [0..<unat (elf_half img 44)]" using assms by (simp add: shell_executable_def)
  have "fold (place img 0) (map (program_header_at img (parse_header (bytes_at img 0 52))) is) m = fold (copy_segment img 0) is m"
    if "set is \<subseteq> set (load_indices img)" for "is"
    using that
  proof (induction "is" arbitrary: m)
    case (Cons i "is")
    then have "complete_program_header img i" using c by (auto simp: list_all_iff load_indices_def)
    then show ?case using Cons by (simp add: place_copy [OF rd])
  qed simp
  then show "absolute_image img 0 m = segments_in_memory img m"
    by (simp add: absolute_image_def segments_in_memory_def loads_indices [OF rd c])
qed

subsection \<open>Properties\<close>

text \<open>
  Claim C26. The shell starts a file it can read exactly when it is an executable for the machine: 52
  bytes of header of a 32-bit big-endian ELF file, version 1, of type 2 for machine 4 with bytes 7 and
  8 zero, every program header in the file and none of type 2, 3 or 5, and the bytes of the PT_LOAD
  segments in the file. The program is then entered at e_entry and every segment is in memory at its
  address, followed by the zeros up to its size in memory. Any other file is reported as of unknown
  format, with memory unchanged, or with the message of the loader. The ROM's own variables and stack
  are outside the memory of this model, so for a segment placed over them nothing is claimed.
\<close>

theorem shell_starts_programs:
  assumes "clean_file F img good" and "seekable F good" and "opens F X name f0 img good"
  shows "\<exists>r m' f'. process_command_executable F X name m f0 = (r, m', f') \<and>
    (if shell_executable img then r = Started (elf_word img 24) \<and> m' = segments_in_memory img m
     else r = Unknown_format \<and> m' = m \<or> (\<exists>e. r = Load_failed e))"
  using process_command_executable_clean [OF assms, of m] shell_executable_image [of img]
  by (auto simp: absolute_program_shell_executable split: if_splits)

theorem shell_starts_programs_witness:
  "\<exists>f'. process_command_executable (list_file demo_program) list_volume [0x61] (\<lambda>_. 9) 7
     = (Started 0x1002, wr_bytes (\<lambda>_. 9) 0x1000 [0x4E, 0x71, 0x4E, 0x75, 0, 0, 0, 0], f')"
  using shell_starts_programs [OF list_file_clean list_volume_opens(2,1), where img = demo_program and name = "[0x61]" and ?f0.0 = 7 and m = "\<lambda>_. 9"]
    demo_program_ok(1,2) shell_executable_image [of demo_program]
  by (simp add: absolute_program_shell_executable flip: demo_image)

text \<open>
  Claim C27. The three loaders of the ROM agree on the programs the shell accepts, when the entry point is
  even: \<open>carregar_elf32_fatfs\<close> from the file, whatever its local variable held, and \<open>carregar_elf32\<close> from a
  copy in memory that no segment overwrites return the entry point the shell calls and leave the same
  memory.
\<close>

theorem rom_loaders_agree:
  assumes opened: "clean_file F img good" "seekable F good" "opens F X name f0 img good"
    and img: "absolute_program img" "e_entry (parse_header (bytes_at img 0 52)) AND 1 = 0"
    and copy: "buffer_holds m buf img" "clear_of img buf 0"
  shows "\<exists>entry m' f1 f2. process_command_executable F X name m f0 = (Started entry, m', f1)
    \<and> carregar_elf32_fatfs F X phdr name m f0 = (entry, m', f2)
    \<and> carregar_elf32 m buf 0 = (entry, m')"
  using process_command_executable_clean [OF opened, of m] img(1) carregar_elf32_fatfs_clean [OF opened(1,3) img, of phdr m]
    carregar_elf32_clean [OF img(1) copy] by auto

theorem rom_loaders_agree_witness:
  "let m = wr_bytes (\<lambda>_. 9) 0x8000 demo_program; m' = wr_bytes m 0x1000 [0x4E, 0x71, 0x4E, 0x75, 0, 0, 0, 0]
   in (\<exists>f1. process_command_executable (list_file demo_program) list_volume [] m 7 = (Started 0x1002, m', f1))
     \<and> (\<exists>f2. carregar_elf32_fatfs (list_file demo_program) list_volume [] [] m 7 = (0x1002, m', f2))
     \<and> carregar_elf32 m 0x8000 0 = (0x1002, m')"
proof -
  let ?m = "wr_bytes (\<lambda>_. 9) 0x8000 demo_program :: mem"
  have h: "buffer_holds ?m 0x8000 demo_program"
    using rd_wr_bytes [of demo_program "\<lambda>_. 9" "0x8000"] demo_program_ok(3) by (simp add: buffer_holds_def)
  note c = demo_clear
  have e: "e_entry (parse_header (bytes_at demo_program 0 52)) AND 1 = 0" by (simp add: demo_program_ok(2))
  obtain entry m' f1 f2 where r: "process_command_executable (list_file demo_program) list_volume [] ?m 7 = (Started entry, m', f1)"
      "carregar_elf32_fatfs (list_file demo_program) list_volume [] [] ?m 7 = (entry, m', f2)"
      "carregar_elf32 ?m 0x8000 0 = (entry, m')"
    using rom_loaders_agree [OF list_file_clean list_volume_opens(2,1) demo_program_ok(1) e h c, where name = "[]" and ?f0.0 = 7 and phdr = "[]"] by blast
  moreover have "entry = 0x1002" "m' = wr_bytes ?m 0x1000 [0x4E, 0x71, 0x4E, 0x75, 0, 0, 0, 0]"
    using carregar_elf32_clean [OF demo_program_ok(1) h c] r(3) demo_program_ok(2) demo_image by simp_all
  ultimately show ?thesis by (simp add: Let_def)
qed

end
