(* ===== verification/Spec2Isabelle.thy ===== *)
theory Spec2Isabelle
  imports KNumIn KPrintf KArith Spawn TaskCreate Mutex VfsDev NetSend KbdRing ShellMem ShellElf
begin

text \<open>
  Verification library of Orion68, a computer built around a 68000 processor without memory
  management. The development models the kernel of src/software/dev/kernel: the heap, the scheduler and
  its context switch and mutex, the slots that hold loaded programs and the loader that fills them, the
  interrupt and exception entry, the system calls, the virtual file system with its drivers, and the
  run-time library the kernel brings (memory and string routines, number conversions, formatted output,
  the compiler's arithmetic helpers). Of the ROM in src/software/dev/orioncore it models the keyboard
  buffer, the shell from the keys to the choice of the command with the start of programs, and the network file receiver with the
  host program that sends to it. Paths below are relative to src/software/dev/kernel unless they start with src/.

  Machine. \<open>OrionBase\<close> fixes the words of the machine (\<open>u8\<close>, \<open>u16\<close>, \<open>u32\<close>, \<open>u64\<close>), the byte memory
  \<open>mem\<close> (one flat 32-bit address space, big-endian) and the accessors \<open>rd32\<close>, \<open>wr32\<close>, \<open>rd_bytes\<close>,
  \<open>wr_bytes\<close> with their frame lemmas. An integer keeps its width wherever it can wrap. A loop that may
  run for ever is a \<open>partial_function (option)\<close> whose value None is not returning; that it returns is
  proved where it is claimed. No fuel is used.

  Library and parts.
    \<open>KMem\<close> (lib/string/mem*.c), \<open>Kmalloc\<close> (kmalloc.c), \<open>KString\<close> (lib/string/str*.c, the character tests
      of lib/stdlib), \<open>KNumOut\<close> and \<open>KNumIn\<close> (lib/klibc/inttostr.c, strtol.c and their lib/stdlib
      namesakes), \<open>KPrintf\<close> (lib/stdio/kprintf.c, ksprintf.c), \<open>KArith\<close> (lib/klibc/__*i3.c);
    \<open>Scheduler\<close> (scheduler.c), \<open>CtxSwitch\<close> (ctx_switch_68000.S, os_yield.s), \<open>Kernel\<close> (kernel.c,
      mm/slots.c, syscall/trap_table.c, exceptions/*, kfunctions.c);
    \<open>Mutex\<close> (mutex.c), \<open>Loader\<close> with \<open>LoaderImage\<close> and \<open>Spawn\<close> (spawn/loader_pic_final.c), \<open>ElfFormat\<close>
      (the format of its files, written from the ELF documentation, and the refinement), \<open>TaskCreate\<close> (task_create.c, elf_task_integration.c);
    \<open>Drivers\<close> (vfs/vfs_tty.c, vfs_null.c, vfs_zero.c, vfs_serial.c, vfs_proc.c, vfs_fat.c,
      drivers/duart/duart.c), \<open>Vfs\<close> (vfs/vfs.c, vfs_drivers.c, trap0.c), and the proofs about them in
      \<open>VfsInv\<close>, \<open>VfsOpen\<close>, \<open>VfsOps\<close>, \<open>VfsDev\<close>;
    \<open>NetRecv\<close> (src/software/dev/orioncore/recv/recv.c), the contract of its network chip and the proofs
      about it in \<open>NetLink\<close>, \<open>NetSend\<close> (src/tools/sender2/sender.c and the two programs together),
      \<open>Crc32\<close> (orioncore/shell/crc32.c and tools/sender2/crc32.c);
    \<open>KbdRing\<close> (orioncore/drivers_raw/kbd/ringbuffer.c and src/peripheral/pico2W/ringbuffer.c), \<open>ShellLine\<close>
      (orioncore/shell/shell_history.c), \<open>ShellCmd\<close> (shell.c beside it: execute_cmd, the table, the loop of
      shell), \<open>ShellElf\<close> (process_command_executable of shell.c and elf_loader.c) and \<open>ShellMem\<close> (do_writemem
      and do_writemem1 of commands.c).

  State. The heap is \<open>kheap\<close> (base, size, memory with its 4-byte headers); the scheduler is \<open>sched\<close>
  (task records, ready ring, current task, and the memory of the stacks); the machine of \<open>CtxSwitch\<close>
  adds the registers; the file system is \<open>vfs\<close>: the heap, the descriptor table, one store per object
  type (File, ProcData, FatPrivate, FIL) indexed by heap address, and the character lines. The loader
  (\<open>spawner\<close>) has the slot table, the scheduler, whose memory it writes the program to, and the open
  file; its properties ask that the program fits its slot (\<open>image_fits\<close>), because a write outside may
  reach the statics of the kernel, which the model keeps apart from the memory. For the same reason a
  buffer of a system call lies outside the kernel heap (\<open>user_buffer\<close>), where the objects are, and a
  received file ends below the stack of the ROM (\<open>fits_ram\<close>). The mutex has the task record of its own
  file and a state type of its scheduler.
  The shell (\<open>console\<close>) has memory with the line and the history rows, the two history counters and the
  characters written; its keys are a list, which \<open>KbdRing\<close> justifies: the keyboard buffer hands out the
  bytes the interrupt handler stored, in order.

  What the lemmas show.
    The heap: the walk over the headers refines first fit on a list of blocks (\<open>heap_wf\<close>), which is the
      interface \<open>allocator\<close>, a locale interpreted for kmalloc and kfree; its clients (strdup, the file
      system) use the laws of the interface only.
    The scheduler: every operation keeps the ring invariant and refines a queue; tasks are scheduled in
      turn; a tick that comes back to a task restores all its registers. An exception pushes the frame
      of its kind (\<open>hardware_frame\<close>), and the report is shown to print it under the wrong names.
    The mutex: mutex.c declares a task record and state numbers of its own, which are not those of
      scheduler.h, so it is modelled as the file stands, with the function that makes a task ready as a
      parameter (\<open>adds_ready\<close>); over any run (\<open>lock_run\<close>) it is an owner and a first-come queue.
    The loader: for a file whose reads may fail (\<open>file_of\<close>) it takes one slot and one task or neither,
      and writes inside the slot when the addresses of the file do (\<open>image_fits\<close>); when the reads succeed
      (\<open>clean_file\<close>) it accepts exactly the files that are executables by the ELF format
      (\<open>pic_executable\<close>, which shares no definition with the loader) and leaves the image they describe.
    The file system: the locale \<open>driver_table\<close> states what an open handler owes vfs_open - the blocks it
      allocates are those its close handler releases - and is interpreted for the nine drivers of the
      table. From it follow the ownership invariant over any sequence of system calls, the round trip of
      open and close, the clean failure of open, and, when the heap has room, that opening succeeds and
      a /proc file reads as its text.
    The network transfer: with a chip that keeps its documented behaviour (\<open>chip_ok\<close>, stated over a view
      of the sockets' rings) the receiver's loops end and its buffer holds the stream; composed with the
      host, the saved file lacks the last 21 bytes, and a file of at most 21 bytes is never received. The
      CRC-32 routines compute the remainder of the IEEE 802.3 polynomial and detect every burst of 32 bits.
    The keyboard buffer: the locale \<open>byte_queue\<close> is the contract of a bounded queue, interpreted for the
      buffers of the ROM and of the firmware; with the interrupt handler between any two steps of the
      reader (\<open>kbd_step\<close>) nothing is lost, repeated or reordered while the buffer is not full.
    The shell: readline_with_history and history_add are an editor on lists (\<open>edit_key\<close>, \<open>remember\<close>);
      execute_cmd cuts a line into its \<open>words\<close> in place, and the command is chosen by name (\<open>meaning\<close>); a
      turn of the shell composes the two and keeps its own conditions. A word that names no command is a
      program: it is started exactly when its file is an executable (\<open>shell_executable\<close>, written with the
      definitions of \<open>ElfFormat\<close>), and the other two
      ELF loaders of the ROM leave the same memory. writemem writes all or nothing.
    The run-time library: each routine equals a reference definition on lists or integers, or is shown
      to differ from it on named inputs. strtol divides with the helpers of \<open>KArith\<close>, which is why it reads
      no negative number.

  Parameters. FatFs is vendored code: the record \<open>fatfs\<close> of its operations is an argument of every
  definition that calls it. Proofs assume of it only \<open>fatfs_ok\<close> (the size of a FIL object is positive
  and f_read stores at most what it was asked for) and, for opening devices, \<open>fat_refuses\<close> (in the
  states of the volume considered, f_open reports an error for that path); \<open>rom_volume\<close>, a
  write-protected volume with files, is an instance. The loader has f_lseek and f_read of its own (\<open>fil_ops\<close>), because it looks at
  the bytes a failed read has stored; \<open>list_file\<close> is an instance that never fails. The W5100 chip (\<open>w5100\<close>), the
  system calls of the host (\<open>host\<close>) and the volume that takes the received file (\<open>takes_file\<close>: it creates
  that name and has room for that many bytes) are
  parameters too, with \<open>demo_chip\<close>, \<open>demo_host\<close> and \<open>demo_volume\<close> as instances. The addresses of the history,
  of the line and of the names of the commands, which the linker chooses, are parameters of the shell;
  \<open>areas\<close> and \<open>names_placed\<close> say that they are apart.

  Not modelled: FatFs itself (vendored), the IDE driver, whose device side is not in the repository, the
  rest of the ROM (its other commands are calls of FatFs and prints, the vector addresses of
  src/software/dev/orioncore/bootstrap/jumptable.c are used with the kernel), the libraries of the
  applications, the firmware of the peripherals except its keyboard buffer, third-party code and the test
  applications. Timing, the interrupt controller and the baud rate registers have no observable state
  here; register writes of the DUART are a log.
\<close>

end
